(* ===== verification/NetPrelude.thy ===== *)
theory NetPrelude imports Main "HOL-Library.Word" begin

text \<open>Shared ground of the development: the machine integer types of
  \<open>include/types.h\<close>, the byte-order functions of a little-endian host, the lemma
  collections, and the generic facts on lists and words that the components use.\<close>

unbundle bit_operations_syntax

section \<open>Lemma collections\<close>

text \<open>\<open>layout\<close> collects the size equations of in-memory objects, \<open>frame\<close> the facts
  that an operation leaves a part of the state alone.\<close>

named_theorems layout
named_theorems frame

section \<open>Machine integers\<close>

type_synonym u8 = "8 word"
type_synonym u16 = "16 word"
type_synonym u32 = "32 word"
type_synonym u64 = "64 word"

text \<open>A MAC address is the array \<open>u8 mac[ETH_ALEN]\<close>.\<close>

type_synonym mac_addr = "u8 list"

text \<open>Byte order. The code runs on a little-endian host, so \<open>htons\<close>, \<open>ntohs\<close>,
  \<open>htonl\<close> and \<open>ntohl\<close> of \<open>arpa/inet.h\<close> swap bytes.\<close>

definition bswap16 :: "u16 \<Rightarrow> u16" where
  "bswap16 x = push_bit 8 (take_bit 8 x) OR drop_bit 8 x"

definition bswap32 :: "u32 \<Rightarrow> u32" where
  "bswap32 x = push_bit 24 (take_bit 8 x) OR push_bit 16 (take_bit 8 (drop_bit 8 x)) OR
     push_bit 8 (take_bit 8 (drop_bit 16 x)) OR drop_bit 24 x"

abbreviation htons :: "u16 \<Rightarrow> u16" where "htons \<equiv> bswap16"
abbreviation ntohs :: "u16 \<Rightarrow> u16" where "ntohs \<equiv> bswap16"
abbreviation htonl :: "u32 \<Rightarrow> u32" where "htonl \<equiv> bswap32"
abbreviation ntohl :: "u32 \<Rightarrow> u32" where "ntohl \<equiv> bswap32"

lemma bswap16_involutive [simp]: "bswap16 (bswap16 x) = x"
  by (rule bit_word_eqI) (auto simp: bswap16_def bit_simps)

lemma less_32_octets:
  assumes "i < (32::nat)"
  obtains j where "j < 8" "i = j" | j where "j < 8" "i = j + 8"
    | j where "j < 8" "i = j + 16" | j where "j < 8" "i = j + 24"
proof -
  consider "i < 8" | "8 \<le> i" "i < 16" | "16 \<le> i" "i < 24" | "24 \<le> i" "i < 32"
    using assms by linarith
  then show thesis
    using that(1)[of i] that(2)[of "i - 8"] that(3)[of "i - 16"] that(4)[of "i - 24"]
    by cases auto
qed

lemma bit_bswap32:
  "j < 8 \<Longrightarrow> bit (bswap32 x) j = bit x (j + 24)"
  "j < 8 \<Longrightarrow> bit (bswap32 x) (j + 8) = bit x (j + 16)"
  "j < 8 \<Longrightarrow> bit (bswap32 x) (j + 16) = bit x (j + 8)"
  "j < 8 \<Longrightarrow> bit (bswap32 x) (j + 24) = bit x j"
  by (auto simp: bswap32_def bit_simps add.commute dest: bit_imp_le_length)

lemma bswap32_involutive [simp]: "bswap32 (bswap32 x) = x"
proof (rule bit_word_eqI)
  fix i assume "i < LENGTH(32)"
  then show "bit (bswap32 (bswap32 x)) i \<longleftrightarrow> bit x i"
    by (auto elim!: less_32_octets simp: bit_bswap32)
qed

lemma bswap16_inject [simp]: "bswap16 x = bswap16 y \<longleftrightarrow> x = y"
  by (metis bswap16_involutive)

lemma bswap32_inject [simp]: "bswap32 x = bswap32 y \<longleftrightarrow> x = y"
  by (metis bswap32_involutive)

section \<open>Words as numbers\<close>

text \<open>The network mask of a prefix of length \<open>n\<close> rounds an address down to a multiple
  of \<open>2 ^ (32 - n)\<close>.\<close>

lemma push_bit_minus_one_bit:
  "bit (push_bit k (- 1 :: 'a::len word)) i \<longleftrightarrow> k \<le> i \<and> i < LENGTH('a)"
  by (auto simp: bit_simps)

lemma and_high_mask:
  fixes x :: "'a::len word"
  shows "x AND push_bit k (- 1) = push_bit k (drop_bit k x)"
  by (rule bit_word_eqI) (auto simp: bit_simps)

lemma unat_and_high_mask:
  fixes x :: "'a::len word"
  shows "unat (x AND push_bit k (- 1)) = unat x div 2 ^ k * 2 ^ k"
proof -
  have "unat (x AND push_bit k (- 1)) = take_bit LENGTH('a) (push_bit k (unat (drop_bit k x)))"
    by (simp only: and_high_mask unsigned_push_bit_eq)
  also have "\<dots> = take_bit LENGTH('a) (unat x div 2 ^ k * 2 ^ k)"
    by (simp only: unat_drop_bit_eq push_bit_eq_mult) (simp add: drop_bit_eq_div)
  also have "\<dots> = unat x div 2 ^ k * 2 ^ k"
  proof -
    have "unat x div 2 ^ k * 2 ^ k \<le> unat x"
      by simp
    also have "unat x < 2 ^ LENGTH('a)" by (rule unsigned_less)
    finally show ?thesis by (simp add: take_bit_nat_eq_self)
  qed
  finally show ?thesis .
qed
section \<open>Lists\<close>

lemma nth_update_eq_if:
  "i < length xs \<Longrightarrow> xs[i := x] ! j = (if i = j then x else xs ! j)"
  by simp

lemma length_filter_le_one_less:
  "x \<in> set xs \<Longrightarrow> \<not> P x \<Longrightarrow> length (filter P xs) < length xs"
  by (metis length_filter_less)

end
