(* ===== verification/RouteItem.thy ===== *)
theory RouteItem imports NetPrelude "HOL-Library.Signed_Division" begin

text \<open>\<open>exp7/code/ip.h\<close>: route items, prefix masks, bit fields of an address and the order
  \<open>route_cmp\<close> of routes, with the facts that turn these word operations into
  divisions of the address by powers of two.\<close>

section \<open>Data and operations\<close>

text \<open>\<open>route_item_t\<close>; the fields carry the prefix \<open>ri_\<close>.\<close>

record route_item =
  ri_ip :: u32
  ri_mask_len :: u32
  ri_port :: u32

text \<open>C's \<open><<\<close> and \<open>>>\<close> on 32-bit operands are defined for counts 0 to 31; the count of
  the target's shift instruction is taken modulo 32.\<close>

definition shl32 :: "u32 \<Rightarrow> int \<Rightarrow> u32" where
  "shl32 x n = push_bit (nat (n mod 32)) x"

definition shr32 :: "u32 \<Rightarrow> int \<Rightarrow> u32" where
  "shr32 x n = drop_bit (nat (n mod 32)) x"

definition sar32 :: "u32 \<Rightarrow> int \<Rightarrow> u32" where
  "sar32 x n = signed_drop_bit (nat (n mod 32)) x"

fun get_ip_loop :: "int list \<Rightarrow> nat \<Rightarrow> u32 \<Rightarrow> u32" where
  "get_ip_loop [] i num = num"
| "get_ip_loop (a # as) i num =
     get_ip_loop as (i + 1) (num OR shl32 (word_of_int a) (24 - 8 * int i))"

definition get_ip :: "int list \<Rightarrow> u32" where
  "get_ip ip = get_ip_loop ip 0 0"

definition prefix_mask :: "int \<Rightarrow> u32" where
  "prefix_mask len = shl32 0xffffffff (32 - len)"

definition get_bit :: "u32 \<Rightarrow> int \<Rightarrow> u32" where
  "get_bit num locate =
     (if locate < 0 \<or> locate > 31 then - 1
      else shr32 (num AND shl32 1 locate) locate)"

definition get_bits :: "u32 \<Rightarrow> int \<Rightarrow> int \<Rightarrow> u32" where
  "get_bits num high low =
     (if low < 0 \<or> high > 31 then - 1
      else let mask = 0xffffffff;
               mask = sar32 mask low;
               mask = shl32 mask low;
               mask = shl32 mask (31 - high);
               mask = shr32 mask (31 - high);
               bits = mask AND num
           in shr32 bits low)"

definition get_prefix :: "route_item \<Rightarrow> u32" where
  "get_prefix r = ri_ip r AND prefix_mask (sint (ri_mask_len r))"

definition route_cmp :: "route_item \<Rightarrow> route_item \<Rightarrow> int" where
  "route_cmp r1 r2 =
     (let ip1 = ri_ip r1 AND prefix_mask (sint (ri_mask_len r1));
          ip2 = ri_ip r2 AND prefix_mask (sint (ri_mask_len r2))
      in if ip1 > ip2 then 1
         else if ip1 < ip2 then - 1
         else sint (ri_mask_len r1 - ri_mask_len r2))"

definition ceil_div :: "int \<Rightarrow> int \<Rightarrow> int" where
  "ceil_div m n = (m + n - 1) sdiv n"

text \<open>\<open>sprintf (buf, "%d", n)\<close> of a non-negative number.\<close>

fun decimal :: "nat \<Rightarrow> string" where
  "decimal n = (if n < 10 then [char_of (48 + n)]
     else decimal (n div 10) @ [char_of (48 + n mod 10)])"

declare decimal.simps [simp del]

definition get_ip_human :: "u32 \<Rightarrow> string" where
  "get_ip_human ip =
     decimal (unat (shr32 (0xff000000 AND ip) 24)) @ ''.'' @
     decimal (unat (shr32 (0x00ff0000 AND ip) 16)) @ ''.'' @
     decimal (unat (shr32 (0x0000ff00 AND ip) 8)) @ ''.'' @
     decimal (unat (shr32 (0x000000ff AND ip) 0))"

lemma ceil_div_nat: "0 \<le> m \<Longrightarrow> 0 < n \<Longrightarrow> ceil_div m n = (m + n - 1) div n"
  by (simp add: ceil_div_def signed_divide_int_def sgn_if)

section \<open>Addresses as numbers\<close>

text \<open>\<open>high_part k x\<close> is the number formed by the top \<open>k\<close> bits of \<open>x\<close>.\<close>

definition high_part :: "nat \<Rightarrow> u32 \<Rightarrow> nat" where
  "high_part k x = unat x div 2 ^ (32 - k)"

definition rlen :: "route_item \<Rightarrow> nat" where
  "rlen r = unat (ri_mask_len r)"

text \<open>A route the tables can hold: a prefix length between 1 and 32.\<close>

definition route_ok :: "route_item \<Rightarrow> bool" where
  "route_ok r \<longleftrightarrow> 1 \<le> rlen r \<and> rlen r \<le> 32"

definition route_matches :: "route_item \<Rightarrow> u32 \<Rightarrow> bool" where
  "route_matches r ip \<longleftrightarrow> ip AND prefix_mask (sint (ri_mask_len r)) = get_prefix r"

lemma sint_small:
  fixes x :: u32
  assumes "unat x < 2 ^ 31"
  shows "sint x = int (unat x)"
proof -
  have "int (unat x) < int (2 ^ 31)" using assms by (simp only: of_nat_less_iff)
  then have lt: "uint x < 2 ^ 31" by simp
  have "(- (2 ^ 31) :: int) \<le> 0" by simp
  also have "0 \<le> uint x" by simp
  finally have "signed_take_bit 31 (uint x) = uint x"
    using lt by (rule signed_take_bit_int_eq_self)
  then show ?thesis by (simp add: sint_uint)
qed

lemma sint_mask_len [simp]: "route_ok r \<Longrightarrow> sint (ri_mask_len r) = int (rlen r)"
  by (simp add: route_ok_def rlen_def sint_small)

lemma all_ones_32: "(0xffffffff :: u32) = - 1"
  by simp

lemma unat_and_prefix_mask:
  assumes "1 \<le> l" "l \<le> 32"
  shows "unat (x AND prefix_mask (int l)) = high_part l x * 2 ^ (32 - l)"
proof -
  have "(32 - int l) mod 32 = 32 - int l"
    using assms by (intro mod_pos_pos_trivial) auto
  then have n: "nat ((32 - int l) mod 32) = 32 - l"
    using assms by simp
  have "prefix_mask (int l) = push_bit (32 - l) (- 1)"
    by (simp only: prefix_mask_def shl32_def n all_ones_32)
  then show ?thesis by (simp only: unat_and_high_mask high_part_def)
qed

lemma unat_get_prefix:
  "route_ok r \<Longrightarrow> unat (get_prefix r) = high_part (rlen r) (ri_ip r) * 2 ^ (32 - rlen r)"
  using unat_and_prefix_mask [of "rlen r" "ri_ip r"]
  by (simp add: get_prefix_def) (simp add: route_ok_def)

lemma route_matches_high_part:
  assumes "route_ok r"
  shows "route_matches r ip \<longleftrightarrow> high_part (rlen r) ip = high_part (rlen r) (ri_ip r)"
  using assms unat_and_prefix_mask [of "rlen r" ip] unat_get_prefix [OF assms]
  by (auto simp: route_matches_def word_unat_eq_iff) (auto simp: route_ok_def)

text \<open>The mask keeps the top bits: taking the high part of a prefix gives the route's.\<close>

lemma high_part_mono: "unat x \<le> unat y \<Longrightarrow> high_part k x \<le> high_part k y"
  by (simp add: high_part_def div_le_mono)

lemma high_part_high_part:
  assumes "j \<le> k" "k \<le> 32"
  shows "high_part j x = high_part k x div 2 ^ (k - j)"
proof -
  have "(2::nat) ^ (32 - j) = 2 ^ (32 - k) * 2 ^ (k - j)"
    using assms by (simp flip: power_add)
  then show ?thesis by (simp add: high_part_def div_mult2_eq)
qed

lemma high_part_32 [simp]: "high_part 32 x = unat x"
  by (simp add: high_part_def)

lemma high_part_0 [simp]: "high_part 0 x = 0"
  using unsigned_less [of x, where 'a = nat] by (simp add: high_part_def)

section \<open>Bit fields of an address\<close>

lemma get_bits_field:
  assumes "l \<le> h" "h \<le> 31"
  shows "get_bits x (int h) (int l) = drop_bit l (take_bit (Suc h) x)"
proof -
  have "(31 - int h) mod 32 = 31 - int h" "int l mod 32 = int l"
    using assms by (auto intro!: mod_pos_pos_trivial)
  then have n: "nat ((31 - int h) mod 32) = 31 - h" "nat (int l mod 32) = l"
    using assms by simp_all
  have ones: "signed_drop_bit l (- 1 :: u32) = - 1"
    by (rule bit_word_eqI) (simp add: bit_simps)
  have mask: "drop_bit (31 - h) (push_bit (31 - h) (push_bit l (- 1 :: u32)))
      = push_bit l (- 1) AND mask (Suc h)"
    using assms by (intro bit_word_eqI) (auto simp: bit_simps)
  have "get_bits x (int h) (int l) =
      drop_bit l ((push_bit l (- 1) AND mask (Suc h)) AND x)"
    using assms by (simp only: get_bits_def Let_def shl32_def shr32_def sar32_def n all_ones_32 ones mask)
      simp
  also have "\<dots> = drop_bit l (take_bit (Suc h) x)"
    using assms by (intro bit_word_eqI) (auto simp: bit_simps)
  finally show ?thesis .
qed

lemma high_part_mod:
  assumes "j \<le> k" "k \<le> 32"
  shows "unat (drop_bit (32 - k) (take_bit (32 - j) x)) = high_part k x mod 2 ^ (k - j)"
proof -
  have "(2::nat) ^ (32 - j) = 2 ^ (32 - k) * 2 ^ (k - j)"
    using assms by (simp flip: power_add)
  moreover have "unat (drop_bit (32 - k) (take_bit (32 - j) x))
      = drop_bit (32 - k) (take_bit (32 - j) (unat x))"
    by (simp only: unat_drop_bit_eq unsigned_take_bit_eq)
  ultimately show ?thesis
    by (simp add: drop_bit_eq_div take_bit_eq_mod high_part_def mod_mult2_eq)
qed

lemma unat_get_bits:
  assumes "j < k" "k \<le> 32"
  shows "unat (get_bits x (31 - int j) (32 - int k)) = high_part k x mod 2 ^ (k - j)"
proof -
  have "31 - int j = int (31 - j)" "32 - int k = int (32 - k)" "Suc (31 - j) = 32 - j"
    using assms by simp_all
  then show ?thesis
    using get_bits_field [of "32 - k" "31 - j" x] high_part_mod [of j k x] assms by simp
qed

lemma get_bit_field:
  assumes "l \<le> 31"
  shows "get_bit x (int l) = drop_bit l (take_bit (Suc l) x)"
proof -
  have "nat (int l mod 32) = l" using assms by (simp add: nat_mod_distrib)
  moreover have "drop_bit l (x AND push_bit l 1) = drop_bit l (take_bit (Suc l) x)"
    using assms by (intro bit_word_eqI) (auto simp: bit_simps)
  ultimately show ?thesis using assms by (simp only: get_bit_def shl32_def shr32_def) simp
qed

lemma unat_get_bit:
  assumes "j < 32"
  shows "unat (get_bit x (31 - int j)) = high_part (Suc j) x mod 2"
proof -
  have "31 - int j = int (31 - j)" "Suc (31 - j) = 32 - j" using assms by simp_all
  then show ?thesis
    using get_bit_field [of "31 - j" x] high_part_mod [of j "Suc j" x] assms by simp
qed

section \<open>The order of routes\<close>

text \<open>On two routes that cover one address block, the order of \<open>route_cmp\<close> is the order
  of the prefix lengths.\<close>

lemma sint_diff_small:
  fixes a b :: u32
  assumes "unat a \<le> 32" "unat b \<le> 32"
  shows "sint (a - b) = int (unat a) - int (unat b)"
proof -
  have "a - b = word_of_int (int (unat a) - int (unat b))" by simp
  also have "sint \<dots> = signed_take_bit 31 (int (unat a) - int (unat b))"
    by (simp only: sint_sbintrunc') simp
  also have "\<dots> = int (unat a) - int (unat b)"
  proof (rule signed_take_bit_int_eq_self)
    have "- (2 ^ 31) \<le> int m - int n \<and> int m - int n < 2 ^ 31" if "m \<le> 32" "n \<le> 32" for m n
      using that by simp
    then show "- (2 ^ 31) \<le> int (unat a) - int (unat b)" "int (unat a) - int (unat b) < 2 ^ 31"
      using assms by blast+
  qed
  finally show ?thesis .
qed

lemma floor_shift_mono:
  fixes Q :: nat
  assumes "a \<le> b" "b \<le> 32"
  shows "Q div 2 ^ (b - a) * 2 ^ (32 - a) \<le> Q * 2 ^ (32 - b)"
proof -
  have "(2::nat) ^ (32 - a) = 2 ^ (b - a) * 2 ^ (32 - b)"
    using assms by (simp flip: power_add)
  then show ?thesis by (simp flip: mult.assoc)
qed

definition covers_block :: "route_item \<Rightarrow> nat \<Rightarrow> nat \<Rightarrow> bool" where
  "covers_block r k P \<longleftrightarrow> route_ok r \<and> rlen r \<le> k \<and>
     high_part (rlen r) (ri_ip r) = P div 2 ^ (k - rlen r)"

lemma covers_block_prefix_mono:
  assumes "covers_block r1 k P" "covers_block r2 k P" "rlen r1 \<le> rlen r2"
  shows "get_prefix r1 \<le> get_prefix r2"
proof -
  let ?Q = "P div 2 ^ (k - rlen r2)"
  have "k - rlen r1 = (k - rlen r2) + (rlen r2 - rlen r1)"
    using assms by (auto simp: covers_block_def)
  then have "P div 2 ^ (k - rlen r1) = ?Q div 2 ^ (rlen r2 - rlen r1)"
    by (simp add: power_add div_mult2_eq)
  then show ?thesis
    using floor_shift_mono [of "rlen r1" "rlen r2" ?Q] assms
    by (simp add: word_le_nat_alt covers_block_def unat_get_prefix route_ok_def)
qed

lemma route_cmp_covers:
  assumes "covers_block r1 k P" "covers_block r2 k P"
  shows "route_cmp r1 r2 < 0 \<longleftrightarrow> rlen r1 < rlen r2"
    and "route_cmp r1 r2 = 0 \<longleftrightarrow> rlen r1 = rlen r2"
proof -
  have d: "sint (ri_mask_len r1 - ri_mask_len r2) = int (rlen r1) - int (rlen r2)"
    using assms by (simp add: covers_block_def route_ok_def rlen_def sint_diff_small)
  have cmp: "route_cmp r1 r2 = (if get_prefix r1 > get_prefix r2 then 1
      else if get_prefix r1 < get_prefix r2 then - 1 else int (rlen r1) - int (rlen r2))"
    by (simp add: route_cmp_def Let_def get_prefix_def d)
  have "get_prefix r1 \<le> get_prefix r2" if "rlen r1 \<le> rlen r2"
    using covers_block_prefix_mono [OF assms that] .
  moreover have "get_prefix r2 \<le> get_prefix r1" if "rlen r2 \<le> rlen r1"
    using covers_block_prefix_mono [OF assms(2,1) that] .
  ultimately show "route_cmp r1 r2 < 0 \<longleftrightarrow> rlen r1 < rlen r2"
    and "route_cmp r1 r2 = 0 \<longleftrightarrow> rlen r1 = rlen r2"
    by (cases "rlen r1" "rlen r2" rule: linorder_cases; auto simp: cmp)+
qed

end
