(* ===== verification/IpTree.thy ===== *)
theory IpTree imports RouteItem begin

text \<open>The tree nodes of \<open>exp7/code/naive.h\<close>, \<open>multi.h\<close> and \<open>advance.h\<close>, which differ only in
  their fan-out, with the facts on reading and updating a tree along a key path; the linear
  scan that specifies longest prefix match; and the interface \<open>lpm_table\<close> of a structure
  that implements it.\<close>

section \<open>Nodes\<close>

datatype ip_tree = IpNode (subt: "ip_tree option list") (router: "route_item option")

definition create_node :: "nat \<Rightarrow> route_item option \<Rightarrow> ip_tree" where
  "create_node child r = IpNode (replicate child None) r"

text \<open>Every node of the tree has \<open>n\<close> child slots.\<close>

inductive fan :: "nat \<Rightarrow> ip_tree \<Rightarrow> bool" where
  fanI: "length cs = n \<Longrightarrow> (\<And>c. Some c \<in> set cs \<Longrightarrow> fan n c) \<Longrightarrow> fan n (IpNode cs r)"

inductive_cases fan_nodeE: "fan n (IpNode cs r)"

lemma fan_length [layout]: "fan n t \<Longrightarrow> length (subt t) = n"
  by (cases rule: fan.cases) auto

lemma fan_child: "fan n t \<Longrightarrow> Some c \<in> set (subt t) \<Longrightarrow> fan n c"
  by (cases rule: fan.cases) auto

lemma fan_nth: "fan n t \<Longrightarrow> k < n \<Longrightarrow> subt t ! k = Some c \<Longrightarrow> fan n c"
  by (metis fan_child fan_length nth_mem)

lemma fan_create_node [simp]: "fan n (create_node n r)"
  by (auto simp: create_node_def intro!: fanI)

text \<open>The child in slot \<open>k\<close>, created when the slot is empty.\<close>

definition child_or_new :: "nat \<Rightarrow> ip_tree \<Rightarrow> nat \<Rightarrow> ip_tree" where
  "child_or_new n t k = (case subt t ! k of None \<Rightarrow> create_node n None | Some c \<Rightarrow> c)"

lemma fan_child_or_new: "fan n t \<Longrightarrow> k < n \<Longrightarrow> fan n (child_or_new n t k)"
  by (auto simp: child_or_new_def dest: fan_nth split: option.split)

lemma fan_set_child:
  "fan n t \<Longrightarrow> fan n c \<Longrightarrow> fan n (IpNode ((subt t)[k := Some c]) r)"
  by (rule fanI) (auto simp: fan_length dest: set_update_subset_insert [THEN subsetD] fan_child)

section \<open>Reading along a path\<close>

fun router_at :: "ip_tree \<Rightarrow> nat list \<Rightarrow> route_item option" where
  "router_at t [] = router t"
| "router_at t (k # ks) =
     (if k < length (subt t) then (case subt t ! k of None \<Rightarrow> None | Some c \<Rightarrow> router_at c ks)
      else None)"

lemma router_at_create_node [simp]: "router_at (create_node n None) p = None"
  by (cases p) (auto simp: create_node_def)

lemma router_at_child_or_new:
  "fan n t \<Longrightarrow> k < n \<Longrightarrow> router_at (child_or_new n t k) ks = router_at t (k # ks)"
  by (auto simp: child_or_new_def fan_length split: option.split)

text \<open>The update of the node at a path, creating the nodes on the way.\<close>

fun upd_path :: "nat \<Rightarrow> (ip_tree \<Rightarrow> ip_tree) \<Rightarrow> nat list \<Rightarrow> ip_tree \<Rightarrow> ip_tree" where
  "upd_path n f [] t = f t"
| "upd_path n f (k # ks) t =
     IpNode ((subt t)[k := Some (upd_path n f ks (child_or_new n t k))]) (router t)"

fun node_or_new :: "nat \<Rightarrow> ip_tree \<Rightarrow> nat list \<Rightarrow> ip_tree" where
  "node_or_new n t [] = t"
| "node_or_new n t (k # ks) = node_or_new n (child_or_new n t k) ks"

lemma fan_node_or_new:
  "fan n t \<Longrightarrow> \<forall>k \<in> set ks. k < n \<Longrightarrow> fan n (node_or_new n t ks)"
  by (induction ks arbitrary: t) (auto simp: fan_child_or_new)

lemma router_at_node_or_new:
  "fan n t \<Longrightarrow> \<forall>k \<in> set ks. k < n \<Longrightarrow> router_at (node_or_new n t ks) p = router_at t (ks @ p)"
  by (induction ks arbitrary: t)
    (auto simp: fan_child_or_new router_at_child_or_new simp del: router_at.simps)

lemma fan_upd_path:
  assumes "\<And>t. fan n t \<Longrightarrow> fan n (f t)"
  shows "fan n t \<Longrightarrow> \<forall>k \<in> set ks. k < n \<Longrightarrow> fan n (upd_path n f ks t)"
  by (induction ks arbitrary: t) (auto simp: assms fan_child_or_new intro!: fan_set_child)

lemma router_at_upd_path:
  "fan n t \<Longrightarrow> \<forall>k \<in> set ks. k < n \<Longrightarrow>
   router_at (upd_path n f ks t) p =
     (if take (length ks) p = ks then router_at (f (node_or_new n t ks)) (drop (length ks) p)
      else router_at t p)"
proof (induction ks arbitrary: t p)
  case Nil
  then show ?case by simp
next
  case (Cons k ks)
  have IH: "router_at (upd_path n f ks (child_or_new n t k)) p' =
      (if take (length ks) p' = ks then router_at (f (node_or_new n t (k # ks))) (drop (length ks) p')
       else router_at t (k # p'))" for p'
    using Cons by (simp add: fan_child_or_new router_at_child_or_new del: router_at.simps)
  show ?case
  proof (cases p)
    case Nil
    then show ?thesis by simp
  next
    case (Cons j p')
    then show ?thesis
      using Cons.prems IH [of p'] by (auto simp: fan_length nth_list_update)
  qed
qed

section \<open>The deepest route on a path\<close>

fun deepest :: "(nat \<Rightarrow> route_item option) \<Rightarrow> nat \<Rightarrow> route_item option" where
  "deepest f 0 = None"
| "deepest f (Suc n) = (case f (Suc n) of None \<Rightarrow> deepest f n | Some q \<Rightarrow> Some q)"

lemma deepest_shift:
  "deepest f (Suc n) = (case deepest (\<lambda>k. f (Suc k)) n of None \<Rightarrow> f 1 | Some q \<Rightarrow> Some q)"
  by (induction n) (auto split: option.splits)

lemma deepest_cong: "(\<And>k. 1 \<le> k \<Longrightarrow> k \<le> n \<Longrightarrow> f k = g k) \<Longrightarrow> deepest f n = deepest g n"
  by (induction n) (auto split: option.splits)

lemma deepest_SomeD: "deepest f n = Some q \<Longrightarrow> \<exists>k. 1 \<le> k \<and> k \<le> n \<and> f k = Some q"
  by (induction n) (auto split: option.splits intro: exI [of _ "Suc n" for n] le_SucI)

text \<open>Replacing the entry at one depth, where the entry at depth \<open>k\<close> has level \<open>k\<close>.\<close>

lemma deepest_upd:
  assumes "\<And>k q. f k = Some q \<Longrightarrow> level q = k" and "1 \<le> d" "d \<le> n"
  shows "deepest (f(d := Some r)) n =
    (case deepest f n of None \<Rightarrow> Some r
     | Some q \<Rightarrow> if d < level q then Some q else Some r)"
  using \<open>1 \<le> d\<close> \<open>d \<le> n\<close>
proof (induction n)
  case 0
  then show ?case by simp
next
  case (Suc n)
  show ?case
  proof (cases "d = Suc n")
    case True
    have "level q \<le> Suc n" if "deepest f (Suc n) = Some q" for q
      using deepest_SomeD [OF that] assms(1) by auto
    then show ?thesis using True by (auto split: option.splits)
  next
    case False
    then have "d \<le> n" using Suc.prems by simp
    then show ?thesis
      using Suc False assms(1) by (auto split: option.splits)
  qed
qed

end
