(* ===== verification/LpmTable.thy ===== *)
theory LpmTable imports IpTree begin

text \<open>Longest prefix match as a specification: a scan over the routes in insertion order,
  which keeps the first of the longest matching ones. The locale \<open>lpm_table\<close> is the contract
  of a structure that is filled by insertion and answers lookups the same way; its lemmas are
  proved once and interpreted for each tree. The last section relates key paths to the
  numbers of \<open>RouteItem\<close>.\<close>

section \<open>Specification\<close>

definition lpm_better :: "u32 \<Rightarrow> route_item \<Rightarrow> route_item option \<Rightarrow> bool" where
  "lpm_better ip r best \<longleftrightarrow> route_matches r ip \<and>
     (case best of None \<Rightarrow> True | Some q \<Rightarrow> rlen q < rlen r)"

definition lpm_step :: "u32 \<Rightarrow> route_item \<Rightarrow> route_item option \<Rightarrow> route_item option" where
  "lpm_step ip r best = (if lpm_better ip r best then Some r else best)"

definition lpm_scan :: "route_item list \<Rightarrow> u32 \<Rightarrow> route_item option" where
  "lpm_scan rs ip = fold (lpm_step ip) rs None"

lemma lpm_scan_snoc: "lpm_scan (rs @ [r]) ip = lpm_step ip r (lpm_scan rs ip)"
  by (simp add: lpm_scan_def)

lemma lpm_scan_None_iff: "lpm_scan rs ip = None \<longleftrightarrow> (\<forall>r \<in> set rs. \<not> route_matches r ip)"
  by (induction rs rule: rev_induct)
    (auto simp: lpm_scan_snoc lpm_step_def lpm_better_def lpm_scan_def split: option.splits)

lemma lpm_scan_SomeD:
  "lpm_scan rs ip = Some q \<Longrightarrow>
     q \<in> set rs \<and> route_matches q ip \<and> (\<forall>r \<in> set rs. route_matches r ip \<longrightarrow> rlen r \<le> rlen q)"
proof (induction rs arbitrary: q rule: rev_induct)
  case Nil
  then show ?case by (simp add: lpm_scan_def)
next
  case (snoc r rs)
  show ?case
  proof (cases "lpm_scan rs ip")
    case None
    then have "\<forall>r \<in> set rs. \<not> route_matches r ip" by (simp only: lpm_scan_None_iff)
    then show ?thesis
      using snoc.prems by (auto simp: None lpm_scan_snoc lpm_step_def lpm_better_def split: if_splits)
  next
    case (Some p)
    then show ?thesis
      using snoc.prems snoc.IH [OF Some]
      by (auto simp: lpm_scan_snoc lpm_step_def lpm_better_def split: if_splits)
  qed
qed

section \<open>The interface of a table\<close>

locale lpm_table =
  fixes empty :: "'t"
    and insert :: "route_item \<Rightarrow> 't \<Rightarrow> 't"
    and lookup :: "'t \<Rightarrow> u32 \<Rightarrow> route_item option"
    and inv :: "'t \<Rightarrow> bool"
  assumes inv_empty: "inv empty"
    and inv_insert: "inv t \<Longrightarrow> route_ok r \<Longrightarrow> inv (insert r t)"
    and lookup_empty: "lookup empty ip = None"
    and lookup_insert: "inv t \<Longrightarrow> route_ok r \<Longrightarrow> lookup (insert r t) ip = lpm_step ip r (lookup t ip)"
begin

lemma fill_scan:
  "\<forall>r \<in> set rs. route_ok r \<Longrightarrow>
     inv (fold insert rs empty) \<and> lookup (fold insert rs empty) ip = lpm_scan rs ip"
proof (induction rs rule: rev_induct)
  case Nil
  then show ?case by (simp add: inv_empty lookup_empty lpm_scan_def)
next
  case (snoc r rs)
  then show ?case by (simp add: inv_insert lookup_insert lpm_scan_snoc)
qed

lemma fill_longest:
  assumes "\<forall>r \<in> set rs. route_ok r"
  shows "case lookup (fold insert rs empty) ip of
      None \<Rightarrow> \<forall>r \<in> set rs. \<not> route_matches r ip
    | Some q \<Rightarrow> q \<in> set rs \<and> route_matches q ip \<and>
        (\<forall>r \<in> set rs. route_matches r ip \<longrightarrow> rlen r \<le> rlen q)"
  using fill_scan [OF assms, of ip]
  by (auto simp: lpm_scan_None_iff dest: lpm_scan_SomeD split: option.split)

end

section \<open>Key paths\<close>

text \<open>Digit \<open>i\<close> of an address in groups of \<open>w\<close> bits from the top, and the path of its first
  \<open>n\<close> digits. Equal paths are equal high parts.\<close>

definition digit :: "nat \<Rightarrow> u32 \<Rightarrow> nat \<Rightarrow> nat" where
  "digit w x i = high_part (w * Suc i) x mod 2 ^ w"

definition addr_path :: "nat \<Rightarrow> u32 \<Rightarrow> nat \<Rightarrow> nat list" where
  "addr_path w x n = map (digit w x) [0..<n]"

lemma length_addr_path [simp]: "length (addr_path w x n) = n"
  by (simp add: addr_path_def)

lemma addr_path_Suc: "addr_path w x (Suc n) = addr_path w x n @ [digit w x n]"
  by (simp add: addr_path_def)

lemma take_addr_path [simp]: "m \<le> n \<Longrightarrow> take m (addr_path w x n) = addr_path w x m"
  by (simp add: addr_path_def take_map)

lemma digit_less: "k \<in> set (addr_path w x n) \<Longrightarrow> k < 2 ^ w"
  by (auto simp: addr_path_def digit_def)

lemma high_part_digit:
  assumes "w * Suc n \<le> 32"
  shows "high_part (w * Suc n) x = high_part (w * n) x * 2 ^ w + digit w x n"
proof -
  have "high_part (w * n) x = high_part (w * Suc n) x div 2 ^ w"
    using high_part_high_part [of "w * n" "w * Suc n" x] assms by simp
  then show ?thesis unfolding digit_def by (simp only: div_mult_mod_eq)
qed

lemma addr_path_eq_iff:
  "w * n \<le> 32 \<Longrightarrow> addr_path w x n = addr_path w y n \<longleftrightarrow> high_part (w * n) x = high_part (w * n) y"
proof (induction n)
  case 0
  then show ?case by (simp add: addr_path_def)
next
  case (Suc n)
  have "digit w x n < 2 ^ w" "digit w y n < 2 ^ w" by (simp_all add: digit_def)
  moreover have "a * b + c = a' * b + c' \<longleftrightarrow> a = a' \<and> c = c'" if "c < b" "c' < b"
    for a a' b c c' :: nat
    using that by (metis add.commute div_mult_self3 div_less add_cancel_right_right
        mod_mult_self3 mod_less not_less0)
  ultimately have "high_part (w * Suc n) x = high_part (w * Suc n) y \<longleftrightarrow>
      high_part (w * n) x = high_part (w * n) y \<and> digit w x n = digit w y n"
    using Suc.prems by (simp only: high_part_digit)
  then show ?case using Suc by (simp add: addr_path_Suc)
qed

lemma high_part_get_prefix:
  assumes "route_ok r" "k \<le> rlen r"
  shows "high_part k (get_prefix r) = high_part k (ri_ip r)"
proof -
  have "high_part (rlen r) (get_prefix r) = high_part (rlen r) (ri_ip r)"
    using assms by (simp add: high_part_def [of _ "get_prefix r"] unat_get_prefix)
  then show ?thesis
    using assms high_part_high_part [of k "rlen r"] by (simp add: route_ok_def)
qed

end
