(* ===== verification/NaiveTrie.thy ===== *)
theory NaiveTrie imports LpmTable begin

text \<open>The one-bit prefix tree of \<open>exp7/code/naive.h\<close>: insertion, lookup and the table built
  from a file's routes, and the proof that it is an \<open>lpm_table\<close>.\<close>

section \<open>Operations\<close>

text \<open>The loop of \<open>insert_route\<close>: \<open>t\<close> is the node reached after \<open>i\<close> bits. The tree is
  rebuilt along the path where the code writes through pointers.\<close>

function naive_insert_loop :: "route_item \<Rightarrow> nat \<Rightarrow> ip_tree \<Rightarrow> ip_tree" where
  "naive_insert_loop r i t =
     (if i < unat (ri_mask_len r) then
        let bit = unat (get_bit (get_prefix r) (31 - int i));
            c = (case subt t ! bit of None \<Rightarrow> create_node 2 None | Some c \<Rightarrow> c)
        in IpNode ((subt t)[bit := Some (naive_insert_loop r (i + 1) c)]) (router t)
      else if router t = None then IpNode (subt t) (Some r) else t)"
  by pat_completeness auto
termination
  by (relation "measure (\<lambda>(r, i, t). unat (ri_mask_len r) - i)") auto

declare naive_insert_loop.simps [simp del]

definition naive_insert_route :: "route_item \<Rightarrow> ip_tree \<Rightarrow> ip_tree" where
  "naive_insert_route r tree = naive_insert_loop r 0 tree"

function naive_lookup_loop :: "u32 \<Rightarrow> nat \<Rightarrow> ip_tree \<Rightarrow> route_item option \<Rightarrow> route_item option" where
  "naive_lookup_loop ip i t best =
     (if i < 32 then
        let bit = unat (get_bit ip (31 - int i))
        in case subt t ! bit of
             None \<Rightarrow> best
           | Some c \<Rightarrow> naive_lookup_loop ip (i + 1) c
               (if router c \<noteq> None then router c else best)
      else best)"
  by pat_completeness auto
termination
  by (relation "measure (\<lambda>(ip, i, t, best). 32 - i)") auto

declare naive_lookup_loop.simps [simp del]

definition naive_longest_prefix_match :: "ip_tree \<Rightarrow> u32 \<Rightarrow> route_item option" where
  "naive_longest_prefix_match tree ip = naive_lookup_loop ip 0 tree None"

text \<open>\<open>create_tree_by_file\<close>, on the list of the routes that \<open>fscanf_router\<close> returns.\<close>

definition naive_create_tree :: "route_item list \<Rightarrow> ip_tree" where
  "naive_create_tree rs = fold naive_insert_route rs (create_node 2 None)"

section \<open>The loops along a key path\<close>

declare One_nat_def [simp del]

lemma plus_one_Suc: "i + 1 = Suc i" "1 + i = Suc i"
  by simp_all

lemma unat_get_bit_digit: "i < 32 \<Longrightarrow> unat (get_bit x (31 - int i)) = digit 1 x i"
  by (simp add: unat_get_bit digit_def plus_one_Suc)

definition set_if_none :: "route_item \<Rightarrow> ip_tree \<Rightarrow> ip_tree" where
  "set_if_none r t = (if router t = None then IpNode (subt t) (Some r) else t)"

lemma fan_set_if_none: "fan n t \<Longrightarrow> fan n (set_if_none r t)"
  by (auto simp: set_if_none_def fan_length intro: fanI fan_child)

lemma router_at_set_if_none:
  "router_at (set_if_none r t) p =
     (if p = [] \<and> router t = None then Some r else router_at t p)"
  by (cases p) (auto simp: set_if_none_def)

lemma naive_insert_loop_upd_path:
  assumes "rlen r \<le> 32"
  shows "i + m = rlen r \<Longrightarrow>
     naive_insert_loop r i t = upd_path 2 (set_if_none r) (map (digit 1 (get_prefix r)) [i..<rlen r]) t"
proof (induction m arbitrary: i t)
  case 0
  then show ?case
    by (subst naive_insert_loop.simps) (simp add: rlen_def set_if_none_def)
next
  case (Suc m)
  then have i: "i < unat (ri_mask_len r)" "i < 32" using assms by (auto simp: rlen_def)
  have IH: "naive_insert_loop r (Suc i) c =
      upd_path 2 (set_if_none r) (map (digit 1 (get_prefix r)) [Suc i..<rlen r]) c" for c
    using Suc.IH [of "Suc i" c] Suc.prems by simp
  have "[i..<rlen r] = i # [Suc i..<rlen r]"
    using Suc.prems by (intro upt_conv_Cons) simp
  then show ?case
    using i by (subst naive_insert_loop.simps)
      (simp add: Let_def unat_get_bit_digit child_or_new_def IH plus_one_Suc del: upt_Suc)
qed

lemma naive_insert_route_upd_path:
  "route_ok r \<Longrightarrow> naive_insert_route r t =
     upd_path 2 (set_if_none r) (addr_path 1 (get_prefix r) (rlen r)) t"
  using naive_insert_loop_upd_path [of r 0 "rlen r" t]
  by (simp add: naive_insert_route_def addr_path_def route_ok_def)

lemma naive_lookup_loop_deepest:
  "fan 2 t \<Longrightarrow> i + m = 32 \<Longrightarrow> naive_lookup_loop ip i t best =
     (case deepest (\<lambda>k. router_at t (map (digit 1 ip) [i..<i + k])) m of
        None \<Rightarrow> best | Some q \<Rightarrow> Some q)"
proof (induction m arbitrary: i t best)
  case 0
  then show ?case by (subst naive_lookup_loop.simps) simp
next
  case (Suc m)
  let ?b = "digit 1 ip i"
  have b: "?b < 2" by (simp add: digit_def)
  have i: "i < 32" using Suc.prems by simp
  have path: "map (digit 1 ip) [i..<Suc (i + k)] = ?b # map (digit 1 ip) [Suc i..<Suc (i + k)]" for k
    by (simp add: upt_conv_Cons del: upt_Suc)
  show ?case
  proof (cases "subt t ! ?b")
    case None
    have "deepest (\<lambda>k. router_at t (map (digit 1 ip) [i..<i + k])) (Suc m) =
        deepest (\<lambda>k. None) (Suc m)"
      by (rule deepest_cong)
        (auto simp: None upt_conv_Cons simp del: upt_Suc)
    moreover have "deepest (\<lambda>k. None) j = None" for j by (induction j) auto
    ultimately show ?thesis
      using i None by (subst naive_lookup_loop.simps) (simp add: Let_def unat_get_bit_digit)
  next
    case (Some c)
    have c: "fan 2 c" using fan_nth [OF Suc.prems(1) b Some] .
    have at: "router_at t (?b # p) = router_at c p" for p
      using b Some Suc.prems(1) by (simp add: fan_length)
    have at1: "router_at t (map (digit 1 ip) [i..<Suc i]) = router c"
      using at [of "[]"] by (simp add: upt_conv_Cons)
    show ?thesis
      using i Suc.IH [OF c, of "Suc i"] Suc.prems(2)
      by (subst naive_lookup_loop.simps)
        (simp add: Let_def unat_get_bit_digit Some deepest_shift path at at1 plus_one_Suc del: upt_Suc deepest.simps
          router_at.simps(2) split: option.split)
  qed
qed

lemma naive_lookup_deepest:
  assumes "fan 2 t"
  shows "naive_longest_prefix_match t ip = deepest (\<lambda>k. router_at t (addr_path 1 ip k)) 32"
  using naive_lookup_loop_deepest [OF assms, of 0 32 ip None]
  by (simp add: naive_longest_prefix_match_def addr_path_def split: option.splits)

section \<open>The tree is a longest-prefix-match table\<close>

text \<open>The invariant: two slots per node, and a route lies at the depth of its length.\<close>

definition naive_inv :: "ip_tree \<Rightarrow> bool" where
  "naive_inv t \<longleftrightarrow> fan 2 t \<and> (\<forall>p q. router_at t p = Some q \<longrightarrow> rlen q = length p)"

lemma router_at_naive_insert:
  assumes "fan 2 t" "route_ok r"
  shows "router_at (naive_insert_route r t) p =
    (if p = addr_path 1 (get_prefix r) (rlen r) \<and> router_at t p = None then Some r
     else router_at t p)"
proof -
  let ?ks = "addr_path 1 (get_prefix r) (rlen r)"
  have ks: "\<forall>k \<in> set ?ks. k < 2" using digit_less [of _ 1] by fastforce
  have "router (node_or_new 2 t ?ks) = router_at t ?ks"
    using router_at_node_or_new [OF assms(1) ks, of "[]"] by simp
  moreover have "p = ?ks @ drop (length ?ks) p" if "take (length ?ks) p = ?ks"
    using that by (metis append_take_drop_id)
  moreover have "take (length ?ks) p = ?ks" if "p = ?ks"
    using that by simp
  ultimately show ?thesis
    unfolding naive_insert_route_upd_path [OF assms(2)] router_at_upd_path [OF assms(1) ks]
      router_at_set_if_none router_at_node_or_new [OF assms(1) ks]
    by (smt (verit, ccfv_threshold) append_Nil2 append_self_conv)
qed

lemma fan_naive_insert:
  assumes "fan 2 t" "route_ok r"
  shows "fan 2 (naive_insert_route r t)"
  using assms digit_less [of _ 1]
  by (fastforce simp: naive_insert_route_upd_path intro!: fan_upd_path fan_set_if_none)

lemma naive_inv_insert:
  "naive_inv t \<Longrightarrow> route_ok r \<Longrightarrow> naive_inv (naive_insert_route r t)"
  by (auto simp: naive_inv_def fan_naive_insert router_at_naive_insert split: if_splits)

lemma addr_path_prefix_matches:
  assumes "route_ok r"
  shows "addr_path 1 ip (rlen r) = addr_path 1 (get_prefix r) (rlen r) \<longleftrightarrow> route_matches r ip"
  using assms addr_path_eq_iff [of 1 "rlen r" ip "get_prefix r"]
  by (simp add: route_matches_high_part high_part_get_prefix route_ok_def)

lemma naive_lookup_insert:
  assumes "naive_inv t" "route_ok r"
  shows "naive_longest_prefix_match (naive_insert_route r t) ip =
    lpm_step ip r (naive_longest_prefix_match t ip)"
proof -
  let ?f = "\<lambda>k. router_at t (addr_path 1 ip k)"
  let ?f' = "\<lambda>k. router_at (naive_insert_route r t) (addr_path 1 ip k)"
  have fan: "fan 2 t" using assms(1) by (simp add: naive_inv_def)
  have r: "1 \<le> rlen r" "rlen r \<le> 32" using assms(2) by (simp_all add: route_ok_def)
  have lev: "rlen q = k" if "?f k = Some q" for k q
    using that assms(1) by (auto simp: naive_inv_def)
  have at: "?f' k = (if k = rlen r \<and> route_matches r ip \<and> ?f k = None then Some r else ?f k)" for k
  proof -
    have "addr_path 1 ip k = addr_path 1 (get_prefix r) (rlen r) \<longleftrightarrow> k = rlen r \<and> route_matches r ip"
      using addr_path_prefix_matches [OF assms(2), of ip] by (metis length_addr_path)
    then show ?thesis unfolding router_at_naive_insert [OF fan assms(2)] by metis
  qed
  have upd: "deepest (?f(rlen r := Some x)) 32 = (case deepest ?f 32 of None \<Rightarrow> Some x
      | Some q \<Rightarrow> if rlen r < rlen q then Some q else Some x)" for x
    by (rule deepest_upd [of _ rlen, OF _ r]) (rule lev)
  have "deepest ?f' 32 = lpm_step ip r (deepest ?f 32)"
  proof (cases "route_matches r ip")
    case True
    show ?thesis
    proof (cases "?f (rlen r)")
      case None
      then have eq: "?f' = ?f(rlen r := Some r)" using True by (intro ext) (auto simp: at)
      have "rlen q \<noteq> rlen r" if "deepest ?f 32 = Some q" for q
        using deepest_SomeD [OF that] lev None by auto
      then show ?thesis
        unfolding eq upd using True by (auto simp: lpm_step_def lpm_better_def split: option.splits)
    next
      case (Some q0)
      then have eq: "?f' = ?f" and eq': "?f(rlen r := Some q0) = ?f" by (auto simp: at fun_eq_iff)
      have "rlen q0 = rlen r" using lev [OF Some] .
      then have "\<exists>q. deepest ?f 32 = Some q \<and> rlen r \<le> rlen q"
        using upd [of q0] unfolding eq' by (auto split: option.splits if_splits)
      then show ?thesis by (auto simp: eq lpm_step_def lpm_better_def)
    qed
  next
    case False
    then show ?thesis by (simp add: at lpm_step_def lpm_better_def)
  qed
  then show ?thesis
    by (simp add: naive_lookup_deepest fan fan_naive_insert assms(2))
qed

lemma naive_inv_empty: "naive_inv (create_node 2 None)"
  by (simp add: naive_inv_def)

lemma naive_lookup_empty: "naive_longest_prefix_match (create_node 2 None) ip = None"
proof -
  have "deepest (\<lambda>k. None) j = None" for j by (induction j) auto
  then show ?thesis by (simp add: naive_lookup_deepest)
qed

interpretation naive: lpm_table "create_node 2 None" naive_insert_route
    naive_longest_prefix_match naive_inv
  by unfold_locales (auto simp: naive_inv_empty naive_inv_insert naive_lookup_empty naive_lookup_insert)

declare One_nat_def [simp]

section \<open>What the table answers\<close>

lemma naive_create_tree_fold: "naive_create_tree rs = fold naive_insert_route rs (create_node 2 None)"
  by (simp add: naive_create_tree_def)

text \<open>The router of the root, where a default route (length 0) is stored, is never read: the table is
  that of the other routes.\<close>

definition bare :: "ip_tree \<Rightarrow> ip_tree" where
  "bare t = IpNode (subt t) None"

lemma lookup_bare: "naive_longest_prefix_match (bare t) = naive_longest_prefix_match t"
proof
  fix ip
  have "naive_lookup_loop ip 0 (IpNode (subt t) q) None = naive_lookup_loop ip 0 t None" for q
    by (subst (1 2) naive_lookup_loop.simps) simp
  then show "naive_longest_prefix_match (bare t) ip = naive_longest_prefix_match t ip"
    by (simp add: bare_def naive_longest_prefix_match_def)
qed

lemma insert_default: "rlen r = 0 \<Longrightarrow> naive_insert_route r t = set_if_none r t"
  by (simp add: naive_insert_route_def rlen_def naive_insert_loop.simps [of r 0 t] set_if_none_def)

lemma bare_insert:
  "bare (naive_insert_route r t) = (if rlen r = 0 then bare t else naive_insert_route r (bare t))"
proof (cases "rlen r = 0")
  case True
  then show ?thesis by (simp add: insert_default set_if_none_def bare_def)
next
  case False
  then have "0 < unat (ri_mask_len r)" by (simp add: rlen_def)
  then show ?thesis using False
    by (simp add: naive_insert_route_def naive_insert_loop.simps [of r 0] bare_def Let_def)
qed

lemma bare_fill:
  "bare (fold naive_insert_route rs t) = fold naive_insert_route (filter (\<lambda>r. rlen r \<noteq> 0) rs) (bare t)"
  by (induction rs arbitrary: t) (simp_all add: bare_insert)

text \<open>C21. A table built from any list of routes with lengths up to 32 answers every address by longest
  prefix match among the routes that are not default routes: no answer exactly when none of them
  matches, and otherwise a route of the table that matches and that is as long as every other route
  that does. A default route is never the answer.\<close>

lemma naive_table_longest:
  assumes "\<forall>r \<in> set rs. rlen r \<le> 32"
  shows "case naive_longest_prefix_match (naive_create_tree rs) ip of
      None \<Rightarrow> \<forall>r \<in> set rs. 1 \<le> rlen r \<longrightarrow> \<not> route_matches r ip
    | Some q \<Rightarrow> q \<in> set rs \<and> 1 \<le> rlen q \<and> route_matches q ip \<and>
        (\<forall>r \<in> set rs. route_matches r ip \<longrightarrow> rlen r \<le> rlen q)"
proof -
  let ?rs = "filter (\<lambda>r. rlen r \<noteq> 0) rs"
  have "\<forall>r \<in> set ?rs. route_ok r" using assms by (auto simp: route_ok_def)
  note longest = naive.fill_longest [OF this, of ip]
  have "bare (create_node 2 None) = create_node 2 None" by (simp add: bare_def create_node_def)
  then have "naive_longest_prefix_match (naive_create_tree rs) ip =
      naive_longest_prefix_match (fold naive_insert_route ?rs (create_node 2 None)) ip"
    by (metis lookup_bare bare_fill naive_create_tree_fold)
  moreover have "rlen r \<le> rlen q" if "rlen r = 0" for r q using that by simp
  ultimately show ?thesis using longest by (auto split: option.splits)
qed

lemma naive_table_longest_witness:
  "case naive_longest_prefix_match (naive_create_tree
      [\<lparr>ri_ip = 0, ri_mask_len = 0, ri_port = 7\<rparr>, \<lparr>ri_ip = 0x0a000000, ri_mask_len = 8, ri_port = 1\<rparr>,
       \<lparr>ri_ip = 0x0a010000, ri_mask_len = 16, ri_port = 2\<rparr>]) 0x0a010203 of
      None \<Rightarrow> False | Some q \<Rightarrow> rlen q = 16"
proof -
  let ?rs = "[\<lparr>ri_ip = 0, ri_mask_len = 0, ri_port = 7\<rparr>, \<lparr>ri_ip = 0x0a000000, ri_mask_len = 8, ri_port = 1\<rparr>,
    \<lparr>ri_ip = 0x0a010000, ri_mask_len = 16, ri_port = 2\<rparr>]"
  have ok: "\<forall>r \<in> set ?rs. rlen r \<le> 32" by (simp add: rlen_def)
  have m: "route_matches \<lparr>ri_ip = 0x0a010000, ri_mask_len = 16, ri_port = 2\<rparr> 0x0a010203" by code_simp
  show ?thesis
    using naive_table_longest [OF ok, of "0x0a010203"] m
    by (auto simp: rlen_def split: option.splits)
qed

text \<open>Inserting a default route changes no answer.\<close>

lemma naive_default_route_ignored:
  assumes "ri_mask_len r = 0"
  shows "router (naive_insert_route r t) \<noteq> None \<and>
    naive_longest_prefix_match (naive_insert_route r t) ip = naive_longest_prefix_match t ip"
proof -
  have "rlen r = 0" using assms by (simp add: rlen_def)
  then show ?thesis
    using fun_cong [OF lookup_bare [of "naive_insert_route r t"], of ip] fun_cong [OF lookup_bare [of t], of ip]
    by (simp add: bare_insert) (simp add: insert_default set_if_none_def)
qed

lemma naive_default_route_ignored_witness:
  "naive_longest_prefix_match
     (naive_insert_route \<lparr>ri_ip = 0, ri_mask_len = 0, ri_port = 7\<rparr> (create_node 2 None)) 0x0a000001 = None"
  using naive_default_route_ignored [of "\<lparr>ri_ip = 0, ri_mask_len = 0, ri_port = 7\<rparr>" "create_node 2 None" "0x0a000001"]
  by (simp add: naive_lookup_empty)

end
