(* ===== verification/MultiTrie.thy ===== *)
theory MultiTrie imports NaiveTrie begin

text \<open>The four-bit prefix tree of \<open>exp7/code/multi.h\<close>. A route whose length is not a multiple
  of four is written into every slot it covers at the next level; a slot keeps the longest
  route written to it. The tree is again an \<open>lpm_table\<close>, so it answers every lookup as the
  one-bit tree does.\<close>

section \<open>Operations\<close>

text \<open>The array \<open>keys\<close>: the eight four-bit digits of an address.\<close>

definition route_keys :: "u32 \<Rightarrow> nat list" where
  "route_keys x = map (\<lambda>i. unat (get_bits x (31 - 4 * int i) (31 - 4 * int i - 4 + 1))) [0..<8]"

text \<open>One round of the loop over the leaves of the second last node \<open>t\<close>.\<close>

definition multi_set_leaf :: "route_item \<Rightarrow> ip_tree \<Rightarrow> nat \<Rightarrow> ip_tree" where
  "multi_set_leaf r t i =
     (let c = (case subt t ! i of None \<Rightarrow> create_node 16 None | Some c \<Rightarrow> c);
          c' = (case router c of
                  None \<Rightarrow> IpNode (subt c) (Some r)
                | Some q \<Rightarrow> if route_cmp q r < 0 then IpNode (subt c) (Some r) else c)
      in IpNode ((subt t)[i := Some c']) (router t))"

fun multi_fill_leaves :: "route_item \<Rightarrow> ip_tree \<Rightarrow> nat \<Rightarrow> nat \<Rightarrow> ip_tree" where
  "multi_fill_leaves r t i 0 = t"
| "multi_fill_leaves r t i (Suc n) = multi_fill_leaves r (multi_set_leaf r t i) (i + 1) n"

text \<open>The walk along \<open>keys[i..insert_deep - 1]\<close>; the node reached with one key left is
  \<open>last_second\<close>, whose leaf the walk creates too before the loop over the leaves.\<close>

fun multi_insert_walk :: "route_item \<Rightarrow> nat \<Rightarrow> nat list \<Rightarrow> ip_tree \<Rightarrow> ip_tree" where
  "multi_insert_walk r leaf_num [] t = t"
| "multi_insert_walk r leaf_num [k] t =
     (let t = IpNode ((subt t)[k := Some (child_or_new 16 t k)]) (router t)
      in multi_fill_leaves r t k leaf_num)"
| "multi_insert_walk r leaf_num (k # k' # ks) t =
     IpNode ((subt t)[k := Some (multi_insert_walk r leaf_num (k' # ks) (child_or_new 16 t k))])
       (router t)"

text \<open>\<open>insert_route\<close>. With no level to descend (\<open>insert_deep = 0\<close>) the code reads \<open>keys[-1]\<close>
  and dereferences the null \<open>last_second\<close>; with more than eight it reads past \<open>keys\<close>: both
  are \<open>None\<close>.\<close>

definition multi_insert_route :: "route_item \<Rightarrow> ip_tree \<Rightarrow> ip_tree option" where
  "multi_insert_route r tree =
     (let insert_deep = ceil_div (sint (ri_mask_len r)) 4;
          keys = route_keys (get_prefix r);
          leaf_num = shl32 1 (uint (4 * word_of_int insert_deep - ri_mask_len r))
      in if insert_deep \<le> 0 \<or> 8 < insert_deep then None
         else Some (multi_insert_walk r (unat leaf_num) (take (nat insert_deep) keys) tree))"

function multi_lookup_loop ::
    "nat list \<Rightarrow> nat \<Rightarrow> ip_tree \<Rightarrow> route_item option \<Rightarrow> route_item option" where
  "multi_lookup_loop keys i t best =
     (let best = (if router t \<noteq> None then router t else best)
      in if 32 \<le> i then best
         else case subt t ! (keys ! (i div 4)) of
             None \<Rightarrow> best
           | Some c \<Rightarrow> multi_lookup_loop keys (i + 4) c best)"
  by pat_completeness auto
termination
  by (relation "measure (\<lambda>(keys, i, t, best). 32 - i)") auto

declare multi_lookup_loop.simps [simp del]

definition multi_longest_prefix_match :: "ip_tree \<Rightarrow> u32 \<Rightarrow> route_item option" where
  "multi_longest_prefix_match tree ip = multi_lookup_loop (route_keys ip) 0 tree None"

text \<open>\<open>create_tree_by_file\<close> on the routes of the file, and an insertion that leaves the tree
  alone where the code crashes, for the tables that hold valid routes only.\<close>

fun multi_create_tree :: "ip_tree \<Rightarrow> route_item list \<Rightarrow> ip_tree option" where
  "multi_create_tree t [] = Some t"
| "multi_create_tree t (r # rs) =
     (case multi_insert_route r t of None \<Rightarrow> None | Some t' \<Rightarrow> multi_create_tree t' rs)"

definition multi_put :: "route_item \<Rightarrow> ip_tree \<Rightarrow> ip_tree" where
  "multi_put r t = (case multi_insert_route r t of None \<Rightarrow> t | Some t' \<Rightarrow> t')"

section \<open>Keys and leaves of a route\<close>

lemma route_keys_addr_path: "route_keys x = addr_path 4 x 8"
proof -
  have "unat (get_bits x (31 - 4 * int i) (31 - 4 * int i - 4 + 1)) = digit 4 x i" if "i < 8" for i
  proof -
    have "31 - 4 * int i = 31 - int (4 * i)" "31 - 4 * int i - 4 + 1 = 32 - int (4 * Suc i)"
      by simp_all
    then show ?thesis
      using unat_get_bits [of "4 * i" "4 * Suc i" x] that by (simp add: digit_def)
  qed
  then show ?thesis by (simp add: route_keys_def addr_path_def del: upt_rec_numeral)
qed

text \<open>The level of a route and the number of slots it covers there.\<close>

definition multi_level :: "route_item \<Rightarrow> nat" where
  "multi_level r = (rlen r + 3) div 4"

lemma multi_level_bounds:
  "route_ok r \<Longrightarrow> 1 \<le> multi_level r \<and> multi_level r \<le> 8 \<and>
     4 * (multi_level r - 1) < rlen r \<and> rlen r \<le> 4 * multi_level r"
  by (auto simp: multi_level_def route_ok_def)

lemma multi_level_eq: "4 * (d - 1) < rlen q \<Longrightarrow> rlen q \<le> 4 * d \<Longrightarrow> multi_level q = d"
  by (auto simp: multi_level_def)

lemma multi_insert_deep:
  "ceil_div (int (rlen r)) 4 = int (multi_level r)"
  by (simp add: ceil_div_nat multi_level_def zdiv_int)

lemma multi_leaf_num:
  assumes "route_ok r"
  shows "unat (shl32 1 (uint (4 * word_of_int (int (multi_level r)) - ri_mask_len r))) =
    2 ^ (4 * multi_level r - rlen r)"
proof -
  have b: "rlen r \<le> 4 * multi_level r" "4 * multi_level r - rlen r < 4" "rlen r \<le> 32"
    using multi_level_bounds [OF assms] assms by (auto simp: route_ok_def)
  have "4 * word_of_int (int (multi_level r)) - ri_mask_len r =
      (of_nat (4 * multi_level r) - of_nat (rlen r) :: u32)"
    by (simp add: rlen_def)
  also have "\<dots> = of_nat (4 * multi_level r - rlen r)"
    using b by (simp only: of_nat_diff)
  finally have eq: "4 * word_of_int (int (multi_level r)) - ri_mask_len r =
      (of_nat (4 * multi_level r - rlen r) :: u32)" .
  have e: "e < 4 \<Longrightarrow> unat (shl32 1 (uint (of_nat e :: u32))) = 2 ^ e" for e
  proof -
    assume "e < 4"
    then have "e = 0 \<or> e = 1 \<or> e = 2 \<or> e = 3" by auto
    then show ?thesis by (auto simp: shl32_def)
  qed
  show ?thesis unfolding eq by (rule e) (rule b)
qed

lemma multi_insert_route_walk:
  "route_ok r \<Longrightarrow> multi_insert_route r t =
     Some (multi_insert_walk r (2 ^ (4 * multi_level r - rlen r))
       (addr_path 4 (get_prefix r) (multi_level r)) t)"
  using multi_level_bounds [of r]
  by (simp add: multi_insert_route_def Let_def multi_insert_deep multi_leaf_num route_keys_addr_path
      del: of_int_of_nat_eq)

text \<open>The route covers the slots \<open>start..start + leaf_num - 1\<close> of its level.\<close>

lemma block_divide:
  fixes P :: nat
  assumes "n dvd P" "0 < n"
  shows "R div n = P div n \<longleftrightarrow> P \<le> R \<and> R < P + n"
proof -
  obtain m where m: "P = n * m" using assms by auto
  have "R div n = m \<longleftrightarrow> n * m \<le> R \<and> R < n * m + n"
  proof
    assume "R div n = m"
    then have "R = n * m + R mod n" by (metis mult_div_mod_eq)
    then show "n * m \<le> R \<and> R < n * m + n" using assms(2) mod_less_divisor [of n R] by linarith
  next
    assume "n * m \<le> R \<and> R < n * m + n"
    then show "R div n = m"
      by (simp add: div_nat_eqI mult.commute)
  qed
  then show ?thesis using m assms by simp
qed

lemma group_interval:
  fixes Q Q' j s n b :: nat
  assumes "s + n \<le> b" "j < b" "0 < n"
  shows "Q' * b + s \<le> Q * b + j \<and> Q * b + j < Q' * b + s + n \<longleftrightarrow>
    Q = Q' \<and> s \<le> j \<and> j < s + n"
proof
  assume *: "Q' * b + s \<le> Q * b + j \<and> Q * b + j < Q' * b + s + n"
  have "Q * b < (Q' + 1) * b" "Q' * b < (Q + 1) * b" using * assms by (auto simp: algebra_simps)
  then have "Q = Q'" by (metis Suc_eq_plus1 le_antisym less_Suc_eq_le mult_less_cancel2)
  then show "Q = Q' \<and> s \<le> j \<and> j < s + n" using * by auto
qed auto

lemma dvd_interval_fits:
  fixes s n b :: nat
  assumes "n dvd s" "n dvd b" "s < b"
  shows "s + n \<le> b"
proof -
  obtain u v where "s = n * u" "b = n * v" using assms by blast
  moreover have "u < v" using assms calculation by auto
  ultimately show ?thesis by (metis Suc_leI mult_Suc_right mult_le_mono2 add.commute)
qed

lemma multi_leaf_slots:
  assumes "route_ok r"
  defines "d \<equiv> multi_level r" and "n \<equiv> 2 ^ (4 * multi_level r - rlen r)"
  shows "digit 4 (get_prefix r) (d - 1) + n \<le> 16"
    and "addr_path 4 ip (d - 1) = addr_path 4 (get_prefix r) (d - 1) \<and>
      digit 4 (get_prefix r) (d - 1) \<le> digit 4 ip (d - 1) \<and>
      digit 4 ip (d - 1) < digit 4 (get_prefix r) (d - 1) + n \<longleftrightarrow> route_matches r ip"
proof -
  let ?P = "get_prefix r" and ?e = "4 * d - rlen r"
  let ?s = "digit 4 (get_prefix r) (d - 1)" and ?j = "digit 4 ip (d - 1)"
  have b: "1 \<le> d" "d \<le> 8" "4 * (d - 1) < rlen r" "rlen r \<le> 4 * d" "?e < 4" "rlen r \<le> 32"
    using multi_level_bounds [OF assms(1)] assms(1) by (auto simp: d_def route_ok_def)
  have n: "n = 2 ^ ?e" "0 < n" "n dvd 16"
  proof -
    show "n = 2 ^ ?e" "0 < n" by (simp_all add: n_def d_def)
    have "(2::nat) ^ ?e dvd 2 ^ 4" using b by (intro le_imp_power_dvd) simp
    then show "n dvd 16" by (simp add: \<open>n = 2 ^ ?e\<close>)
  qed
  have dig: "high_part (4 * d) x = high_part (4 * (d - 1)) x * 16 + digit 4 x (d - 1)" for x
    using high_part_digit [of 4 "d - 1" x] b by simp
  have lenr: "high_part (rlen r) x = high_part (4 * d) x div n" for x
    using high_part_high_part [of "rlen r" "4 * d" x] b by (simp add: n)
  have "high_part (4 * d) ?P = high_part (rlen r) (ri_ip r) * n"
  proof -
    have "(2::nat) ^ (32 - rlen r) = 2 ^ ?e * 2 ^ (32 - 4 * d)"
      using b by (simp flip: power_add)
    then show ?thesis
      using unat_get_prefix [OF assms(1)] by (simp add: high_part_def n)
  qed
  then have dvdP: "n dvd high_part (4 * d) ?P" by simp
  then have dvds: "n dvd ?s"
    using dig [of ?P] n(3) by (metis dvd_add_right_iff dvd_mult)
  show fits: "?s + n \<le> 16"
    using dvd_interval_fits [OF dvds n(3)] by (simp add: digit_def)
  have "route_matches r ip \<longleftrightarrow> high_part (rlen r) ip = high_part (rlen r) ?P"
    using assms(1) by (simp add: route_matches_high_part high_part_get_prefix)
  also have "\<dots> \<longleftrightarrow> high_part (4 * (d - 1)) ip = high_part (4 * (d - 1)) ?P \<and> ?s \<le> ?j \<and> ?j < ?s + n"
    unfolding lenr block_divide [OF dvdP n(2)] unfolding dig
    by (rule group_interval [OF fits]) (simp_all add: digit_def n(2))
  also have "high_part (4 * (d - 1)) ip = high_part (4 * (d - 1)) ?P \<longleftrightarrow>
      addr_path 4 ip (d - 1) = addr_path 4 ?P (d - 1)"
    using b by (subst addr_path_eq_iff) auto
  finally show "addr_path 4 ip (d - 1) = addr_path 4 ?P (d - 1) \<and> ?s \<le> ?j \<and> ?j < ?s + n \<longleftrightarrow>
      route_matches r ip" by blast
qed

section \<open>The effect of an insertion on the paths\<close>

definition leaf_route :: "route_item \<Rightarrow> route_item option \<Rightarrow> route_item option" where
  "leaf_route r q = (case q of None \<Rightarrow> Some r
     | Some q \<Rightarrow> if route_cmp q r < 0 then Some r else Some q)"

lemma multi_set_leaf_alt:
  "multi_set_leaf r t i =
     IpNode ((subt t)[i := Some (IpNode (subt (child_or_new 16 t i))
       (leaf_route r (router (child_or_new 16 t i))))]) (router t)"
  by (cases "child_or_new 16 t i")
    (auto simp: multi_set_leaf_def Let_def child_or_new_def leaf_route_def split: option.split)

lemma fan_multi_set_leaf: "fan 16 t \<Longrightarrow> i < 16 \<Longrightarrow> fan 16 (multi_set_leaf r t i)"
  unfolding multi_set_leaf_alt
  by (intro fan_set_child) (auto intro: fanI dest: fan_child_or_new fan_child fan_length)

lemma router_at_multi_set_leaf:
  assumes "fan 16 t" "i < 16"
  shows "router_at (multi_set_leaf r t i) p =
    (if p = [i] then leaf_route r (router_at t p) else router_at t p)"
proof (cases p)
  case Nil
  then show ?thesis by (simp add: multi_set_leaf_alt)
next
  case (Cons j p')
  have "router_at (IpNode (subt c) q) p' = (if p' = [] then q else router_at c p')" for c q
    by (cases p') simp_all
  then show ?thesis
    using assms Cons router_at_child_or_new [OF assms, of p']
    by (cases p') (auto simp: multi_set_leaf_alt fan_length nth_list_update)
qed

lemma multi_fill_leaves:
  "fan 16 t \<Longrightarrow> i + n \<le> 16 \<Longrightarrow> fan 16 (multi_fill_leaves r t i n) \<and>
     router_at (multi_fill_leaves r t i n) p =
       (if (\<exists>j. p = [j] \<and> i \<le> j \<and> j < i + n) then leaf_route r (router_at t p)
        else router_at t p)"
proof (induction n arbitrary: i t)
  case 0
  then show ?case by auto
next
  case (Suc n)
  then have *: "fan 16 (multi_set_leaf r t i)" "Suc i + n \<le> 16" "i < 16"
    by (simp_all add: fan_multi_set_leaf)
  show ?case
    using Suc.IH [OF *(1,2)] router_at_multi_set_leaf [OF Suc.prems(1) *(3), of r p]
    by (auto simp: le_Suc_eq not_less_eq_eq)
qed

text \<open>The last step of the walk and the whole walk.\<close>

definition multi_last_step :: "route_item \<Rightarrow> nat \<Rightarrow> nat \<Rightarrow> ip_tree \<Rightarrow> ip_tree" where
  "multi_last_step r n k t =
     multi_fill_leaves r (IpNode ((subt t)[k := Some (child_or_new 16 t k)]) (router t)) k n"

lemma multi_insert_walk_upd_path:
  "multi_insert_walk r n (ks @ [k]) t = upd_path 16 (multi_last_step r n k) ks t"
proof (induction ks arbitrary: t)
  case Nil
  then show ?case by (simp add: multi_last_step_def)
next
  case (Cons a ks)
  then show ?case by (cases ks) auto
qed

lemma multi_last_step:
  assumes "fan 16 t" "k + n \<le> 16" "k < 16"
  shows "fan 16 (multi_last_step r n k t)"
    and "router_at (multi_last_step r n k t) p =
      (if (\<exists>j. p = [j] \<and> k \<le> j \<and> j < k + n) then leaf_route r (router_at t p)
       else router_at t p)"
proof -
  let ?u = "IpNode ((subt t)[k := Some (child_or_new 16 t k)]) (router t)"
  have "fan 16 ?u" using assms by (intro fan_set_child fan_child_or_new)
  moreover have "router_at ?u q = router_at t q" for q
    using assms by (cases q) (auto simp: nth_list_update fan_length router_at_child_or_new)
  ultimately show "fan 16 (multi_last_step r n k t)"
    and "router_at (multi_last_step r n k t) p =
      (if (\<exists>j. p = [j] \<and> k \<le> j \<and> j < k + n) then leaf_route r (router_at t p)
       else router_at t p)"
    unfolding multi_last_step_def using multi_fill_leaves [of ?u k n r p] assms by metis+
qed

lemma multi_put_effect:
  assumes "fan 16 t" "route_ok r"
  shows "fan 16 (multi_put r t)"
    and "k \<le> 8 \<Longrightarrow> router_at (multi_put r t) (addr_path 4 ip k) =
      (if k = multi_level r \<and> route_matches r ip then leaf_route r (router_at t (addr_path 4 ip k))
       else router_at t (addr_path 4 ip k))"
proof -
  let ?d = "multi_level r" and ?P = "get_prefix r" and ?n = "2 ^ (4 * multi_level r - rlen r) :: nat"
  let ?ks = "addr_path 4 (get_prefix r) (multi_level r - 1)" and ?s = "digit 4 (get_prefix r) (multi_level r - 1)"
  have d: "1 \<le> ?d" "?d \<le> 8" using multi_level_bounds [OF assms(2)] by simp_all
  have ks: "\<forall>k \<in> set ?ks. k < 16" using digit_less [of _ 4] by fastforce
  have s: "?s + ?n \<le> 16" "?s < 16"
    using multi_leaf_slots(1) [OF assms(2)] by (simp_all add: digit_def)
  have "addr_path 4 ?P ?d = ?ks @ [?s]"
    using addr_path_Suc [of 4 ?P "?d - 1"] d by simp
  then have eq: "multi_put r t = upd_path 16 (multi_last_step r ?n ?s) ?ks t"
    using assms(2) by (simp add: multi_put_def multi_insert_route_walk multi_insert_walk_upd_path)
  show "fan 16 (multi_put r t)"
    unfolding eq by (rule fan_upd_path [OF _ assms(1) ks]) (rule multi_last_step [OF _ s])
  let ?u = "node_or_new 16 t ?ks"
  have u: "fan 16 ?u" using assms(1) ks by (rule fan_node_or_new)
  assume k: "k \<le> 8"
  let ?p = "addr_path 4 ip k"
  let ?cut = "drop (?d - 1) ?p"
  have split: "take (?d - 1) ?p = ?ks \<and> (\<exists>j. ?cut = [j] \<and> ?s \<le> j \<and> j < ?s + ?n) \<longleftrightarrow>
      k = ?d \<and> route_matches r ip"
  proof (cases "k = ?d")
    case True
    have "?cut = [digit 4 ip (?d - 1)]"
      using addr_path_Suc [of 4 ip "?d - 1"] d by (simp add: True)
    then show ?thesis
      using multi_leaf_slots(2) [OF assms(2), of ip] d by (simp add: True)
  next
    case False
    have "?cut \<noteq> [j]" for j
    proof
      assume "?cut = [j]"
      then have "length ?cut = 1" by simp
      then show False using False d by simp
    qed
    then show ?thesis using False by simp
  qed
  have at: "router_at ?u ?cut = router_at t ?p" if "take (?d - 1) ?p = ?ks"
    using router_at_node_or_new [OF assms(1) ks, of ?cut] that
    by (metis append_take_drop_id)
  have upd: "router_at (multi_put r t) ?p =
      (if take (?d - 1) ?p = ?ks then router_at (multi_last_step r ?n ?s ?u) ?cut else router_at t ?p)"
    unfolding eq by (subst router_at_upd_path [OF assms(1) ks]) simp
  show "router_at (multi_put r t) ?p =
      (if k = ?d \<and> route_matches r ip then leaf_route r (router_at t ?p) else router_at t ?p)"
    unfolding split [symmetric] upd multi_last_step(2) [OF u s] using at by auto
qed

section \<open>Lookup\<close>

lemma multi_lookup_loop_deepest:
  "fan 16 t \<Longrightarrow> i + m = 8 \<Longrightarrow> multi_lookup_loop (route_keys ip) (4 * i) t best =
     (case deepest (\<lambda>k. router_at t (map (digit 4 ip) [i..<i + k])) m of
        None \<Rightarrow> if router t \<noteq> None then router t else best | Some q \<Rightarrow> Some q)"
proof (induction m arbitrary: i t best)
  case 0
  then show ?case by (subst multi_lookup_loop.simps) simp
next
  case (Suc m)
  let ?b = "digit 4 ip i"
  have b: "?b < 16" by (simp add: digit_def)
  have i: "i < 8" "\<not> 32 \<le> 4 * i" using Suc.prems by simp_all
  have key: "route_keys ip ! i = ?b"
    using i by (simp add: route_keys_addr_path addr_path_def del: upt_rec_numeral)
  have path: "map (digit 4 ip) [i..<Suc (i + k)] = ?b # map (digit 4 ip) [Suc i..<Suc (i + k)]" for k
    by (simp add: upt_conv_Cons del: upt_Suc)
  show ?case
  proof (cases "subt t ! ?b")
    case None
    have "deepest (\<lambda>k. router_at t (map (digit 4 ip) [i..<i + k])) (Suc m) =
        deepest (\<lambda>k. None) (Suc m)"
      by (rule deepest_cong) (auto simp: None upt_conv_Cons simp del: upt_Suc)
    moreover have "deepest (\<lambda>k. None) j = None" for j by (induction j) auto
    ultimately show ?thesis
      using i None
      by (subst multi_lookup_loop.simps) (simp add: Let_def key del: deepest.simps upt_Suc)
  next
    case (Some c)
    have c: "fan 16 c" using fan_nth [OF Suc.prems(1) b Some] .
    have at: "router_at t (?b # p) = router_at c p" for p
      using b Some Suc.prems(1) by (simp add: fan_length)
    have at1: "router_at t (map (digit 4 ip) [i..<Suc i]) = router c"
      using at [of "[]"] by (simp add: upt_conv_Cons)
    have IH: "multi_lookup_loop (route_keys ip) (4 * i + 4) c best' =
        (case deepest (\<lambda>k. router_at c (map (digit 4 ip) [Suc i..<Suc (i + k)])) m of
          None \<Rightarrow> if router c \<noteq> None then router c else best' | Some q \<Rightarrow> Some q)" for best'
      using Suc.IH [OF c, of "Suc i" best'] Suc.prems(2) by (simp add: add.commute)
    show ?thesis
      using i
      by (subst multi_lookup_loop.simps)
        (auto simp: Let_def key Some deepest_shift path at at1 IH simp del: upt_Suc deepest.simps
          router_at.simps(2) split: option.split)
  qed
qed

lemma multi_lookup_deepest:
  assumes "fan 16 t" "router t = None"
  shows "multi_longest_prefix_match t ip = deepest (\<lambda>k. router_at t (addr_path 4 ip k)) 8"
  using multi_lookup_loop_deepest [OF assms(1), of 0 8 ip None] assms(2)
  by (simp add: multi_longest_prefix_match_def addr_path_def split: option.splits)

section \<open>The tree is a longest-prefix-match table\<close>

text \<open>The invariant: a route on the path of an address at depth \<open>d\<close> matches the address, and
  its length lies between those of the levels \<open>d - 1\<close> and \<open>d\<close>.\<close>

definition multi_inv :: "ip_tree \<Rightarrow> bool" where
  "multi_inv t \<longleftrightarrow> fan 16 t \<and> (\<forall>ip d q. d \<le> 8 \<longrightarrow> router_at t (addr_path 4 ip d) = Some q \<longrightarrow>
     1 \<le> d \<and> covers_block q (4 * d) (high_part (4 * d) ip) \<and> 4 * (d - 1) < rlen q)"

lemma multi_invD:
  assumes "multi_inv t"
  shows "fan 16 t" "router t = None"
    and "d \<le> 8 \<Longrightarrow> router_at t (addr_path 4 ip d) = Some q \<Longrightarrow>
      1 \<le> d \<and> covers_block q (4 * d) (high_part (4 * d) ip) \<and> 4 * (d - 1) < rlen q \<and>
      multi_level q = d"
proof -
  show "fan 16 t" using assms by (simp add: multi_inv_def)
  show *: "1 \<le> d \<and> covers_block q (4 * d) (high_part (4 * d) ip) \<and> 4 * (d - 1) < rlen q \<and>
      multi_level q = d"
    if "d \<le> 8" "router_at t (addr_path 4 ip d) = Some q" for d ip q
    using assms that multi_level_eq [of d q] by (fastforce simp: multi_inv_def covers_block_def)
  show "router t = None"
    using *[of 0 0] by (cases "router t") (auto simp: addr_path_def)
qed

lemma covers_block_matches:
  assumes "route_ok r" "route_matches r ip" "rlen r \<le> k" "k \<le> 32"
  shows "covers_block r k (high_part k ip)"
  using assms high_part_high_part [of "rlen r" k ip]
  by (simp add: covers_block_def route_matches_high_part)

lemma multi_inv_put:
  assumes "multi_inv t" "route_ok r"
  shows "multi_inv (multi_put r t)"
proof -
  have fan: "fan 16 t" using assms by (simp add: multi_inv_def)
  have "1 \<le> d \<and> covers_block q (4 * d) (high_part (4 * d) ip) \<and> 4 * (d - 1) < rlen q"
    if "d \<le> 8" "router_at (multi_put r t) (addr_path 4 ip d) = Some q" for d ip q
  proof (cases "d = multi_level r \<and> route_matches r ip \<and> q = r")
    case True
    then show ?thesis
      using multi_level_bounds [OF assms(2)] covers_block_matches [OF assms(2), of ip "4 * d"] by simp
  next
    case False
    then have "router_at t (addr_path 4 ip d) = Some q"
      using that multi_put_effect(2) [OF fan assms(2) that(1), of ip]
      by (auto simp: leaf_route_def split: if_splits option.splits)
    then show ?thesis using multi_invD(3) [OF assms(1) that(1)] by blast
  qed
  then show ?thesis using multi_put_effect(1) [OF fan assms(2)] by (simp add: multi_inv_def)
qed

lemma multi_lookup_put:
  assumes "multi_inv t" "route_ok r"
  shows "multi_longest_prefix_match (multi_put r t) ip =
    lpm_step ip r (multi_longest_prefix_match t ip)"
proof -
  let ?f = "\<lambda>k. router_at t (addr_path 4 ip (min k 8))"
  let ?f' = "\<lambda>k. router_at (multi_put r t) (addr_path 4 ip (min k 8))"
  let ?d = "multi_level r"
  note inv = multi_invD [OF assms(1)] multi_invD [OF multi_inv_put [OF assms]]
  have d: "1 \<le> ?d" "?d \<le> 8" "4 * (?d - 1) < rlen r" "rlen r \<le> 4 * ?d"
    using multi_level_bounds [OF assms(2)] by simp_all
  let ?g = "\<lambda>k. if k \<le> 8 then ?f k else None"
  have g: "deepest ?g 8 = multi_longest_prefix_match t ip"
    unfolding multi_lookup_deepest [OF inv(1,2)] by (rule deepest_cong) (simp add: min_def)
  have lev: "multi_level q = k" if "?g k = Some q" for k q
    using that inv(3) [of k ip q] by (auto split: if_splits)
  have better: "rlen p < rlen q \<longleftrightarrow> multi_level p < multi_level q"
    if "?g k = Some p" "?d \<noteq> k" "q = r" for k p q
  proof -
    have "k \<le> 8" "multi_level p = k" using that lev [OF that(1)] by (auto split: if_splits)
    then have p: "4 * (k - 1) < rlen p" "rlen p \<le> 4 * k"
      using that inv(3) [of k ip p] by (simp_all add: covers_block_def)
    consider "k \<le> ?d - 1" "k < ?d" | "?d \<le> k - 1" "?d < k" using \<open>?d \<noteq> k\<close> by linarith
    then show ?thesis
    proof cases
      case 1
      then have "rlen p < rlen r" using p d(3) by linarith
      then show ?thesis using 1 \<open>multi_level p = k\<close> \<open>q = r\<close> by simp
    next
      case 2
      then have "rlen r < rlen p" using p d(4) by linarith
      then show ?thesis using 2 \<open>multi_level p = k\<close> \<open>q = r\<close> by simp
    qed
  qed
  have upd: "deepest (?g(?d := Some x)) 8 = (case deepest ?g 8 of None \<Rightarrow> Some x
      | Some q \<Rightarrow> if ?d < multi_level q then Some q else Some x)" for x
    by (rule deepest_upd [of _ multi_level, OF _ d(1,2)]) (rule lev)
  have eff: "multi_longest_prefix_match (multi_put r t) ip =
      deepest (?g(?d := if route_matches r ip then leaf_route r (?g ?d) else ?g ?d)) 8"
    unfolding multi_lookup_deepest [OF inv(4,5)] 
    by (rule deepest_cong) (use multi_put_effect(2) [OF inv(1) assms(2)] in \<open>auto simp: min_def\<close>)
  show ?thesis
  proof (cases "route_matches r ip")
    case False
    then show ?thesis unfolding eff by (simp add: g lpm_step_def lpm_better_def fun_upd_idem)
  next
    case match: True
    show ?thesis
    proof (cases "?g ?d")
      case None
      have ne: "k \<noteq> ?d" if "?g k = Some q" for k q using that None by auto
      have "rlen q < rlen r \<longleftrightarrow> \<not> ?d < multi_level q" if "deepest ?g 8 = Some q" for q
      proof -
        have "\<exists>k. ?g k = Some q" using deepest_SomeD [OF that] by blast
        then obtain k where k: "?g k = Some q" by blast
        then show ?thesis using better [OF k _ refl] lev [OF k] ne [OF k] by auto
      qed
      then show ?thesis
        unfolding eff g [symmetric] using match None
        by (auto simp: upd leaf_route_def lpm_step_def lpm_better_def simp del: deepest.simps
            split: option.split)
    next
      case (Some q0)
      then have q0: "covers_block q0 (4 * ?d) (high_part (4 * ?d) ip)"
        using inv(3) [of ?d ip q0] d by (simp split: if_splits)
      have cmp: "route_cmp q0 r < 0 \<longleftrightarrow> rlen q0 < rlen r"
        using route_cmp_covers(1) [OF q0 covers_block_matches [OF assms(2) match]] d by simp
      have upd0: "deepest ?g 8 = (case deepest ?g 8 of None \<Rightarrow> Some q0
          | Some q \<Rightarrow> if ?d < multi_level q then Some q else Some q0)"
        using upd [of q0] Some by (simp add: fun_upd_idem)
      then obtain q where q: "deepest ?g 8 = Some q" "q = q0 \<or> ?d < multi_level q"
        by (auto split: option.splits if_splits)
      have "\<exists>k. ?g k = Some q" using deepest_SomeD [OF q(1)] by blast
      then obtain k where k: "?g k = Some q" by blast
      have lq0: "multi_level q0 = ?d" using lev [OF Some] .
      have longer: "rlen r < rlen q" if "?d < multi_level q"
      proof -
        have "k \<le> 8" "multi_level q = k" using k lev [OF k] by (auto split: if_splits)
        then have "4 * (k - 1) < rlen q" using k inv(3) [of k ip q] by simp
        moreover have "?d \<le> k - 1" using that \<open>multi_level q = k\<close> by simp
        ultimately show ?thesis using d(4) by linarith
      qed
      have "leaf_route r (?g ?d) = Some (if rlen q0 < rlen r then r else q0)"
        unfolding Some leaf_route_def by (simp add: cmp)
      moreover have "lpm_step ip r (Some q) = Some (if rlen q < rlen r then r else q)"
        using match by (simp add: lpm_step_def lpm_better_def)
      moreover have "\<not> rlen q < rlen r" if "?d < multi_level q" using longer [OF that] by simp
      moreover have "q = q0" if "\<not> ?d < multi_level q" using q(2) that by blast
      moreover have "\<not> ?d < multi_level q0" using lq0 by simp
      ultimately show ?thesis
        unfolding eff g [symmetric] using match
        by (cases "?d < multi_level q") (simp_all only: upd q(1) option.case if_True if_False True_implies_equals simp_thms)
    qed
  qed
qed

lemma multi_inv_empty: "multi_inv (create_node 16 None)"
  by (simp add: multi_inv_def)

lemma multi_lookup_empty: "multi_longest_prefix_match (create_node 16 None) ip = None"
proof -
  have "deepest (\<lambda>k. None) j = None" for j by (induction j) auto
  moreover have "router (create_node 16 None) = None" by (simp add: create_node_def)
  ultimately show ?thesis by (simp add: multi_lookup_deepest)
qed

interpretation multi: lpm_table "create_node 16 None" multi_put
    multi_longest_prefix_match multi_inv
  by unfold_locales (auto simp: multi_inv_empty multi_inv_put multi_lookup_empty multi_lookup_put)

text \<open>On valid routes the code never takes its undefined branch.\<close>

lemma multi_create_tree_fold:
  "\<forall>r \<in> set rs. route_ok r \<Longrightarrow> multi_create_tree t rs = Some (fold multi_put rs t)"
  by (induction rs arbitrary: t) (auto simp: multi_insert_route_walk multi_put_def)

section \<open>Where the insertion is undefined\<close>

text \<open>The insertion of a route is undefined in C exactly when its length, read as an
  \<open>int\<close>, is not between 1 and 32: a default route makes it read \<open>keys[-1]\<close> and write through a
  null pointer.\<close>

lemma multi_insert_undefined_iff:
  "multi_insert_route r t = None \<longleftrightarrow> \<not> (1 \<le> sint (ri_mask_len r) \<and> sint (ri_mask_len r) \<le> 32)"
proof -
  let ?m = "sint (ri_mask_len r)"
  have "ceil_div ?m 4 = (if ?m + 3 < 0 then - ((- 3 - ?m) div 4) else (?m + 3) div 4)"
    by (simp add: ceil_div_def signed_divide_int_def sgn_if abs_if algebra_simps)
  then have "ceil_div ?m 4 \<le> 0 \<or> 8 < ceil_div ?m 4 \<longleftrightarrow> ?m \<le> 0 \<or> 32 < ?m"
    by (auto split: if_splits)
  then show ?thesis
    by (simp add: multi_insert_route_def Let_def linorder_not_le)
qed

end
