(* ===== verification/LeafPush.thy ===== *)
theory LeafPush imports MultiTrie begin

text \<open>Leaf pushing, \<open>exp7/code/advance.h\<close>: after the four-bit tree is filled, every inner
  node gets sixteen children and hands its route down to the leaves, so that a lookup only
  reads the last node of its path. The insertion and the node layout are those of
  \<open>MultiTrie\<close>. The theory shows that a lookup in the pushed tree returns the route that the
  unpushed tree gives, and that the pushing can free a route which the tree still holds, or
  free it twice; \<open>LeafFree\<close> says for which tables it does not.\<close>

section \<open>Operations\<close>

definition is_leaf :: "ip_tree \<Rightarrow> bool" where
  "is_leaf t \<longleftrightarrow> (\<forall>c \<in> set (subt t). c = None)"

fun ip_height :: "ip_tree \<Rightarrow> nat" where
  "ip_height (IpNode cs r) =
     fold max (map (\<lambda>c. case c of None \<Rightarrow> 0 | Some c \<Rightarrow> Suc (ip_height c)) cs) 0"

lemma fold_max_ge: "a \<le> fold max xs (a :: nat)" "x \<in> set xs \<Longrightarrow> x \<le> fold max xs a"
  by (induction xs arbitrary: a) (auto intro: order_trans [OF max.cobounded1] order_trans [OF max.cobounded2])

lemma ip_height_child: "Some c \<in> set (subt t) \<Longrightarrow> ip_height c < ip_height t"
proof (cases t)
  case (IpNode cs r)
  assume "Some c \<in> set (subt t)"
  then have "Suc (ip_height c) \<in> set (map (\<lambda>c. case c of None \<Rightarrow> 0 | Some c \<Rightarrow> Suc (ip_height c)) cs)"
    using IpNode by force
  from fold_max_ge(2) [OF this, of 0] show ?thesis using IpNode by simp
qed

lemma ip_height_create [simp]: "ip_height (create_node n r) = 0"
  by (induction n) (auto simp: create_node_def)

lemma ip_height_inner: "\<not> is_leaf t \<Longrightarrow> 0 < ip_height t"
  using ip_height_child by (fastforce simp: is_leaf_def)

text \<open>\<open>leaf_push (tree, router)\<close>. The route objects are shared between the slots that hold a pointer
  to them, and \<open>freed\<close> lists those that have been freed. The results are the tree as the call
  leaves it, with the pointers to freed objects that it still holds, the value returned and
  the objects freed now. To compare a freed object and to free it again are \<open>None\<close>. An object is
  known by its contents: an insertion stores no second route with the address and the length
  of a stored one, as \<open>same_prefix_not_stored\<close> in \<open>LeafFree\<close> shows.\<close>

definition push_stops :: "ip_tree \<Rightarrow> route_item option \<Rightarrow> route_item list \<Rightarrow> bool option" where
  "push_stops t p freed = (case p of None \<Rightarrow> Some True
     | Some pr \<Rightarrow> (case router t of None \<Rightarrow> Some False
         | Some q \<Rightarrow> if pr \<in> set freed \<or> q \<in> set freed then None else Some (route_cmp pr q \<le> 0)))"

definition node_of :: "ip_tree option \<Rightarrow> ip_tree" where
  "node_of c = (case c of None \<Rightarrow> create_node 16 None | Some c \<Rightarrow> c)"

text \<open>The loop over the children, which creates those that are missing.\<close>

fun push_children :: "(ip_tree \<Rightarrow> route_item list \<Rightarrow> (ip_tree \<times> bool \<times> route_item list) option) \<Rightarrow>
    ip_tree option list \<Rightarrow> route_item list \<Rightarrow> (ip_tree option list \<times> bool \<times> route_item list) option" where
  "push_children f [] freed = Some ([], False, freed)"
| "push_children f (c # cs) freed =
     (case f (node_of c) freed of
        None \<Rightarrow> None
      | Some (t, replaced, freed) \<Rightarrow>
          map_option (\<lambda>(ts, any, freed). (Some t # ts, replaced \<or> any, freed)) (push_children f cs freed))"

lemma push_children_cong [fundef_cong]:
  "cs = cs' \<Longrightarrow> freed = freed' \<Longrightarrow> (\<And>c x. c \<in> set cs' \<Longrightarrow> f (node_of c) x = g (node_of c) x) \<Longrightarrow>
     push_children f cs freed = push_children g cs' freed'"
  by (induction cs arbitrary: cs' freed freed') (auto split: option.splits)

function leaf_push :: "ip_tree \<Rightarrow> route_item option \<Rightarrow> route_item list \<Rightarrow> (ip_tree \<times> bool \<times> route_item list) option" where
  "leaf_push t p freed =
     (case push_stops t p freed of
        None \<Rightarrow> None
      | Some stops \<Rightarrow>
          if is_leaf t then Some (if stops then (t, False, freed) else (IpNode (subt t) p, True, freed))
          else (case push_children (\<lambda>c. leaf_push c (if stops then router t else p)) (subt t) freed of
              None \<Rightarrow> None
            | Some (cs, any, freed) \<Rightarrow>
                let t' = IpNode cs (router t); replace = (\<not> stops \<and> any); is_replaced = (stops \<and> any)
                in (case (if is_replaced then None else router t) of
                    None \<Rightarrow> Some (t', replace, freed)
                  | Some q \<Rightarrow> if q \<in> set freed then None else Some (t', replace, freed @ [q]))))"
  by pat_completeness auto
termination
  by (relation "measure (ip_height \<circ> fst)")
    (auto simp: ip_height_inner ip_height_child node_of_def split: option.split)

declare leaf_push.simps [simp del]

function advance_lookup_loop :: "nat list \<Rightarrow> nat \<Rightarrow> ip_tree \<Rightarrow> route_item option" where
  "advance_lookup_loop keys i match_t =
     (if 32 \<le> i then router match_t
      else case subt match_t ! (keys ! (i div 4)) of
          None \<Rightarrow> router match_t
        | Some t \<Rightarrow> advance_lookup_loop keys (i + 4) t)"
  by pat_completeness auto
termination
  by (relation "measure (\<lambda>(keys, i, t). 32 - i)") auto

declare advance_lookup_loop.simps [simp del]

text \<open>The walk of \<open>longest_prefix_match\<close>; to return a pointer to a freed route is \<open>None\<close>.\<close>

definition advance_longest_prefix_match :: "route_item list \<Rightarrow> ip_tree \<Rightarrow> u32 \<Rightarrow> route_item option option" where
  "advance_longest_prefix_match freed tree ip =
     (case advance_lookup_loop (route_keys ip) 0 tree of
        None \<Rightarrow> Some None
      | Some q \<Rightarrow> if q \<in> set freed then None else Some (Some q))"

text \<open>\<open>create_tree_by_file\<close>: fill, then push from the root with no route. The result has the routes
  that are freed in the end.\<close>

definition advance_create_tree :: "route_item list \<Rightarrow> (ip_tree \<times> route_item list) option" where
  "advance_create_tree rs =
     (case multi_create_tree (create_node 16 None) rs of
        None \<Rightarrow> None
      | Some t \<Rightarrow> map_option (\<lambda>(t', replace, freed). (t', freed)) (leaf_push t None []))"

text \<open>\<open>total_size\<close>: an \<open>int\<close>, from a sum kept in an unsigned long long; a node has seventeen
  pointers of eight bytes.\<close>

fun total_size :: "ip_tree \<Rightarrow> int" where
  "total_size (IpNode cs r) =
     sint (word_of_int (136 + sum_list (map (\<lambda>c. case c of None \<Rightarrow> 0 | Some t \<Rightarrow> total_size t) cs)) :: u32)"

fun tree_nodes :: "ip_tree \<Rightarrow> nat" where
  "tree_nodes (IpNode cs r) = 1 + sum_list (map (\<lambda>c. case c of None \<Rightarrow> 0 | Some t \<Rightarrow> tree_nodes t) cs)"

section \<open>The push without memory\<close>

text \<open>The same recursion where no object is ever undefined; it yields the objects freed in order.\<close>

definition stops_at :: "ip_tree \<Rightarrow> route_item option \<Rightarrow> bool" where
  "stops_at t p \<longleftrightarrow> (case p of None \<Rightarrow> True
     | Some pr \<Rightarrow> (case router t of None \<Rightarrow> False | Some q \<Rightarrow> route_cmp pr q \<le> 0))"

function push_log :: "ip_tree \<Rightarrow> route_item option \<Rightarrow> ip_tree \<times> bool \<times> route_item list" where
  "push_log t p =
     (if is_leaf t then
        if stops_at t p then (t, False, []) else (IpNode (subt t) p, True, [])
      else
        let down = (if stops_at t p then router t else p);
            rs = map (\<lambda>c. push_log (case c of None \<Rightarrow> create_node 16 None | Some c \<Rightarrow> c) down) (subt t);
            t' = IpNode (map (\<lambda>r. Some (fst r)) rs) (router t);
            any = (\<exists>r \<in> set rs. fst (snd r));
            below = concat (map (snd \<circ> snd) rs);
            is_replaced = (stops_at t p \<and> any);
            own = (if \<not> is_replaced then (case router t of None \<Rightarrow> [] | Some q \<Rightarrow> [q]) else [])
        in (t', \<not> stops_at t p \<and> any, below @ own))"
  by pat_completeness auto
termination
proof (relation "measure (ip_height \<circ> fst)")
  fix t c and p x :: "route_item option"
  assume "\<not> is_leaf t" "c \<in> set (subt t)"
  then show "((case c of None \<Rightarrow> create_node 16 None | Some c \<Rightarrow> c, x), t, p)
      \<in> measure (ip_height \<circ> fst)"
    by (auto simp: ip_height_inner ip_height_child split: option.split)
qed simp

declare push_log.simps [simp del]

section \<open>A push keeps the answers\<close>

text \<open>\<open>shallow h t\<close>: no node of the tree is more than \<open>h\<close> levels below its root.\<close>

fun shallow :: "nat \<Rightarrow> ip_tree \<Rightarrow> bool" where
  "shallow 0 t = is_leaf t"
| "shallow (Suc h) t = (\<forall>c \<in> set (subt t). case c of None \<Rightarrow> True | Some c \<Rightarrow> shallow h c)"

lemma is_leaf_create [simp]: "is_leaf (create_node n r)"
  by (auto simp: is_leaf_def create_node_def)

lemma shallow_leaf: "is_leaf t \<Longrightarrow> shallow h t"
  by (cases h) (auto simp: is_leaf_def)

lemma shallow_child_or_new:
  "shallow (Suc h) t \<Longrightarrow> fan n t \<Longrightarrow> k < n \<Longrightarrow> shallow h (child_or_new n t k)"
  by (auto simp: child_or_new_def shallow_leaf dest!: bspec [of _ _ "subt t ! k"] nth_mem [of k "subt t"]
      fan_length split: option.splits)

lemma shallow_set_child:
  "shallow (Suc h) t \<Longrightarrow> shallow h c \<Longrightarrow> shallow (Suc h) (IpNode ((subt t)[k := Some c]) r)"
  by (auto dest: set_update_subset_insert [THEN subsetD] split: option.splits)

lemma shallow_router: "shallow h (IpNode (subt t) r) = shallow h t"
  by (cases h) (auto simp: is_leaf_def)

lemma shallow_upd_path:
  assumes "\<And>t. fan n t \<Longrightarrow> shallow h t \<Longrightarrow> shallow h (f t)"
  shows "fan n t \<Longrightarrow> \<forall>k \<in> set ks. k < n \<Longrightarrow> shallow (length ks + h) t \<Longrightarrow>
    shallow (length ks + h) (upd_path n f ks t)"
proof (induction ks arbitrary: t)
  case (Cons k ks)
  then have "shallow (length ks + h) (upd_path n f ks (child_or_new n t k))"
    by (auto intro!: Cons.IH fan_child_or_new shallow_child_or_new simp del: shallow.simps)
  then show ?case using Cons.prems shallow_set_child by (simp del: shallow.simps)
qed (use assms in auto)

text \<open>The route that reaches the children is the longer of the node's and the one from
  above, when the two are ordered.\<close>

definition handed_down :: "ip_tree \<Rightarrow> route_item option \<Rightarrow> route_item option" where
  "handed_down t p = (if stops_at t p then router t else p)"

definition chain_ordered :: "(nat \<Rightarrow> route_item option) \<Rightarrow> nat \<Rightarrow> bool" where
  "chain_ordered f n \<longleftrightarrow> (\<forall>j k. j < k \<longrightarrow> k \<le> n \<longrightarrow>
     (case f j of None \<Rightarrow> True | Some q \<Rightarrow> (case f k of None \<Rightarrow> True | Some q' \<Rightarrow> route_cmp q q' \<le> 0)))"

lemma push_log_leaf:
  "is_leaf t \<Longrightarrow> fst (push_log t p) = IpNode (subt t) (handed_down t p)"
  by (subst push_log.simps) (cases t, auto simp: handed_down_def)

lemma push_log_child:
  assumes "\<not> is_leaf t" "fan 16 t" "k < 16"
  shows "subt (fst (push_log t p)) ! k =
    Some (fst (push_log (child_or_new 16 t k) (handed_down t p)))"
  using assms
  by (subst push_log.simps)
    (auto simp: Let_def handed_down_def child_or_new_def fan_length split: option.split)

lemma handed_down_chain:
  assumes "chain_ordered (\<lambda>k. case k of 0 \<Rightarrow> p | Suc k \<Rightarrow> f k) (Suc n)" "f 0 = router t"
  shows "handed_down t p = (if router t \<noteq> None then router t else p)"
  using assms(1) [unfolded chain_ordered_def, rule_format, of 0 1] assms(2)
  by (auto simp: handed_down_def stops_at_def split: option.splits)

lemma chain_ordered_down:
  assumes "chain_ordered (\<lambda>k. case k of 0 \<Rightarrow> p | Suc k \<Rightarrow> f k) (Suc n)"
    and "q = (if f 0 \<noteq> None then f 0 else p)"
  shows "chain_ordered (\<lambda>k. case k of 0 \<Rightarrow> q | Suc k \<Rightarrow> f (Suc k)) n"
  unfolding chain_ordered_def
proof (intro allI impI)
  fix j k assume jk: "j < k" "k \<le> n"
  obtain k' where k: "k = Suc k'" using jk by (cases k) auto
  define j' where "j' = (if j = 0 \<and> f 0 = None then 0 else Suc j)"
  have j: "(case j of 0 \<Rightarrow> q | Suc k \<Rightarrow> f (Suc k)) = (case j' of 0 \<Rightarrow> p | Suc k \<Rightarrow> f k)"
    using assms(2) by (cases j) (auto simp: j'_def)
  have "j' < Suc k" "Suc k \<le> Suc n" using jk by (auto simp: j'_def)
  note * = assms(1) [unfolded chain_ordered_def, rule_format, OF this, unfolded nat.case]
  show "case (case j of 0 \<Rightarrow> q | Suc k \<Rightarrow> f (Suc k)) of None \<Rightarrow> True
      | Some x \<Rightarrow> (case (case k of 0 \<Rightarrow> q | Suc k \<Rightarrow> f (Suc k)) of
          None \<Rightarrow> True | Some y \<Rightarrow> route_cmp x y \<le> 0)"
    unfolding j unfolding k nat.case using * unfolding k nat.case .
qed

lemma push_log_lookup:
  "fan 16 t \<Longrightarrow> shallow m t \<Longrightarrow> i + m = 8 \<Longrightarrow>
   chain_ordered (\<lambda>k. case k of 0 \<Rightarrow> p | Suc k \<Rightarrow> router_at t (map (digit 4 ip) [i..<i + k])) (Suc m) \<Longrightarrow>
   advance_lookup_loop (route_keys ip) (4 * i) (fst (push_log t p)) =
     multi_lookup_loop (route_keys ip) (4 * i) t p"
proof (induction m arbitrary: i t p)
  case 0
  have "handed_down t p = (if router t \<noteq> None then router t else p)"
    by (rule handed_down_chain [OF 0(4)]) simp
  then show ?case
    using 0 by (subst advance_lookup_loop.simps, subst multi_lookup_loop.simps) (simp add: push_log_leaf)
next
  case (Suc m)
  let ?f = "\<lambda>k. router_at t (map (digit 4 ip) [i..<i + k])"
  let ?b = "digit 4 ip i"
  have b: "?b < 16" by (simp add: digit_def)
  have i: "i < 8" "\<not> 32 \<le> 4 * i" using Suc.prems by simp_all
  have key: "route_keys ip ! i = ?b"
    using i by (simp add: route_keys_addr_path addr_path_def del: upt_rec_numeral)
  have down: "handed_down t p = (if router t \<noteq> None then router t else p)"
    by (rule handed_down_chain [OF Suc.prems(4)]) simp
  let ?c = "child_or_new 16 t ?b"
  have at: "router_at ?c (map (digit 4 ip) [Suc i..<Suc i + k]) = ?f (Suc k)" for k
    using router_at_child_or_new [OF Suc.prems(1) b] by (simp add: upt_conv_Cons del: upt_Suc)
  have "handed_down t p = (if ?f 0 \<noteq> None then ?f 0 else p)" using down by simp
  note chain0 = chain_ordered_down [OF Suc.prems(4) this]
  have chain: "chain_ordered (\<lambda>k. case k of 0 \<Rightarrow> handed_down t p
      | Suc k \<Rightarrow> router_at ?c (map (digit 4 ip) [Suc i..<Suc i + k])) (Suc m)"
    unfolding at by (rule chain0)
  have IH: "advance_lookup_loop (route_keys ip) (4 * i + 4) (fst (push_log ?c (handed_down t p))) =
      multi_lookup_loop (route_keys ip) (4 * i + 4) ?c (handed_down t p)"
    using Suc.IH [OF fan_child_or_new [OF Suc.prems(1) b] shallow_child_or_new [OF Suc.prems(2,1) b]
        _ chain] Suc.prems(3) by (simp add: add.commute del: upt_Suc)
  have fresh: "multi_lookup_loop (route_keys ip) (4 * i + 4) (create_node 16 None) q = q" for q
  proof -
    have "Suc i \<le> 7 \<Longrightarrow> digit 4 ip (Suc i) < 16" by (simp add: digit_def)
    then show ?thesis
      using i by (subst multi_lookup_loop.simps)
        (auto simp: create_node_def route_keys_addr_path addr_path_def not_le simp del: upt_rec_numeral)
  qed
  show ?case
  proof (cases "is_leaf t")
    case True
    have none: "subt t ! ?b = None"
      using True b Suc.prems(1) nth_mem [of ?b "subt t"] by (auto simp: is_leaf_def fan_length)
    show ?thesis
      using i by (subst advance_lookup_loop.simps, subst multi_lookup_loop.simps)
        (simp add: push_log_leaf [OF True] key none down)
  next
    case False
    have "multi_lookup_loop (route_keys ip) (4 * i) t p =
        multi_lookup_loop (route_keys ip) (4 * i + 4) ?c (handed_down t p)"
      using i fresh by (subst multi_lookup_loop.simps)
        (auto simp: Let_def key down child_or_new_def split: option.split)
    moreover have "advance_lookup_loop (route_keys ip) (4 * i) (fst (push_log t p)) =
        advance_lookup_loop (route_keys ip) (4 * i + 4) (fst (push_log ?c (handed_down t p)))"
      using i by (subst advance_lookup_loop.simps)
        (simp add: key push_log_child [OF False Suc.prems(1) b])
    ultimately show ?thesis using IH by simp
  qed
qed

section \<open>The filled tree\<close>

lemma shallow_multi_set_leaf:
  "fan 16 t \<Longrightarrow> i < 16 \<Longrightarrow> shallow (Suc h) t \<Longrightarrow> shallow (Suc h) (multi_set_leaf r t i)"
  unfolding multi_set_leaf_alt
  by (rule shallow_set_child) (simp_all only: shallow_router shallow_child_or_new)

lemma shallow_multi_fill:
  "fan 16 t \<Longrightarrow> i + n \<le> 16 \<Longrightarrow> shallow (Suc h) t \<Longrightarrow> shallow (Suc h) (multi_fill_leaves r t i n)"
  by (induction n arbitrary: i t)
    (simp_all add: fan_multi_set_leaf shallow_multi_set_leaf del: shallow.simps)

lemma shallow_multi_last_step:
  assumes "fan 16 t" "k + n \<le> 16" "k < 16" "shallow (Suc h) t"
  shows "shallow (Suc h) (multi_last_step r n k t)"
  unfolding multi_last_step_def
  by (rule shallow_multi_fill [OF fan_set_child [OF assms(1) fan_child_or_new [OF assms(1,3)]] assms(2)])
    (rule shallow_set_child [OF assms(4) shallow_child_or_new [OF assms(4,1,3)]])

lemma shallow_multi_put:
  assumes "fan 16 t" "route_ok r" "shallow 8 t"
  shows "shallow 8 (multi_put r t)"
proof -
  let ?d = "multi_level r" and ?P = "get_prefix r" and ?n = "2 ^ (4 * multi_level r - rlen r) :: nat"
  let ?ks = "addr_path 4 (get_prefix r) (multi_level r - 1)" and ?s = "digit 4 (get_prefix r) (multi_level r - 1)"
  have d: "1 \<le> ?d" "?d \<le> 8" using multi_level_bounds [OF assms(2)] by simp_all
  have ks: "\<forall>k \<in> set ?ks. k < 16" using digit_less [of _ 4] by fastforce
  have s: "?s + ?n \<le> 16" "?s < 16"
    using multi_leaf_slots(1) [OF assms(2)] by (simp_all add: digit_def)
  have "addr_path 4 ?P ?d = ?ks @ [?s]"
    using addr_path_Suc [of 4 ?P "?d - 1"] d by simp
  then have eq: "multi_put r t = upd_path 16 (multi_last_step r ?n ?s) ?ks t"
    using assms(2) by (simp add: multi_put_def multi_insert_route_walk multi_insert_walk_upd_path)
  have len: "8 = length ?ks + Suc (8 - ?d)" using d by simp
  have "shallow (length ?ks + Suc (8 - ?d)) (upd_path 16 (multi_last_step r ?n ?s) ?ks t)"
    by (rule shallow_upd_path [OF shallow_multi_last_step assms(1) ks])
      (use s assms(3) len in \<open>simp_all only:\<close>)
  then show ?thesis unfolding eq by (simp only: len [symmetric])
qed

lemma filled_shallow:
  "\<forall>r \<in> set rs. route_ok r \<Longrightarrow> multi_inv t \<Longrightarrow> shallow 8 t \<Longrightarrow> shallow 8 (fold multi_put rs t)"
proof (induction rs arbitrary: t)
  case (Cons r rs)
  have "multi_inv (multi_put r t)" "shallow 8 (multi_put r t)"
    using Cons.prems multi_inv_put shallow_multi_put multi_invD(1)
    by (auto simp del: shallow.simps)
  then show ?case using Cons by simp
qed simp

text \<open>On the path of an address the routes of a filled tree grow longer, so the chain of
  routers that a push meets is ordered.\<close>

lemma multi_inv_chain:
  assumes "multi_inv t"
  shows "chain_ordered (\<lambda>k. case k of 0 \<Rightarrow> None | Suc k \<Rightarrow> router_at t (addr_path 4 ip k)) 9"
  unfolding chain_ordered_def
proof (intro allI impI)
  fix j k :: nat assume jk: "j < k" "k \<le> 9"
  note inv = multi_invD(3) [OF assms]
  show "case (case j of 0 \<Rightarrow> None | Suc k \<Rightarrow> router_at t (addr_path 4 ip k)) of None \<Rightarrow> True
    | Some x \<Rightarrow> (case (case k of 0 \<Rightarrow> None | Suc k \<Rightarrow> router_at t (addr_path 4 ip k)) of
        None \<Rightarrow> True | Some y \<Rightarrow> route_cmp x y \<le> 0)"
  proof (cases j)
    case 0
    then show ?thesis by simp
  next
    case (Suc a)
    then obtain b where b: "k = Suc b" "a < b" "b \<le> 8" using jk by (cases k) auto
    have "route_cmp x y \<le> 0"
      if x: "router_at t (addr_path 4 ip a) = Some x" and y: "router_at t (addr_path 4 ip b) = Some y" for x y
    proof -
      have ix: "covers_block x (4 * a) (high_part (4 * a) ip)" and
        iy: "covers_block y (4 * b) (high_part (4 * b) ip)" "4 * (b - 1) < rlen y" "1 \<le> b"
        using inv [OF _ x] inv [OF _ y] b by simp_all
      have "rlen x \<le> 4 * a" "a \<le> b - 1"
        using ix b by (auto simp: covers_block_def)
      then have "rlen x < rlen y" using iy(2) by linarith
      moreover have "covers_block x (4 * b) (high_part (4 * b) ip)"
        using ix b high_part_high_part [of "rlen x" "4 * a" ip] high_part_high_part [of "rlen x" "4 * b" ip]
        by (simp add: covers_block_def)
      ultimately show ?thesis using route_cmp_covers(1) [OF _ iy(1)] by fastforce
    qed
    then show ?thesis using Suc b by (simp split: option.split)
  qed
qed

lemma push_log_keeps_answers:
  assumes "multi_inv t" "shallow 8 t"
  shows "advance_lookup_loop (route_keys ip) 0 (fst (push_log t None)) = multi_longest_prefix_match t ip"
proof -
  have "chain_ordered (\<lambda>k. case k of 0 \<Rightarrow> None
      | Suc k \<Rightarrow> router_at t (map (digit 4 ip) [0..<0 + k])) (Suc 8)"
    using multi_inv_chain [OF assms(1), of ip]
    unfolding add_0 addr_path_def [symmetric] by (simp only: Suc_numeral semiring_norm)
  from push_log_lookup [OF multi_invD(1) [OF assms(1)] assms(2) _ this]
  show ?thesis by (simp add: multi_longest_prefix_match_def)
qed

section \<open>The size of a tree\<close>

lemma total_size_nodes:
  "136 * tree_nodes t < 2 ^ 31 \<Longrightarrow> total_size t = 136 * int (tree_nodes t)"
proof (induction t)
  case (IpNode cs r)
  let ?n = "\<lambda>c. case c of None \<Rightarrow> 0 | Some t \<Rightarrow> tree_nodes t"
  have "(case c of None \<Rightarrow> 0 | Some t \<Rightarrow> total_size t) = 136 * int (?n c)" if "c \<in> set cs" for c
  proof (cases c)
    case (Some t)
    have "?n c \<le> sum_list (map ?n cs)"
      using that by (induction cs) auto
    then have "136 * tree_nodes t < 2 ^ 31" using IpNode.prems Some by simp
    then show ?thesis using IpNode.IH [OF that, of t] Some by simp
  qed simp
  then have "(\<Sum>c\<leftarrow>cs. case c of None \<Rightarrow> 0 | Some t \<Rightarrow> total_size t) = (\<Sum>c\<leftarrow>cs. 136 * int (?n c))"
    by (simp cong: map_cong)
  also have "\<dots> = 136 * int (sum_list (map ?n cs))"
    by (induction cs) (simp_all add: algebra_simps)
  finally have sum: "(\<Sum>c\<leftarrow>cs. case c of None \<Rightarrow> 0 | Some t \<Rightarrow> total_size t) = \<dots>" .
  have small: "sint (word_of_int (int m) :: u32) = int m" if "m < 2 ^ 31" for m
  proof -
    have m: "unat (of_nat m :: u32) = m" using that by (simp add: unat_of_nat)
    then show ?thesis using sint_small [of "of_nat m"] that by (simp only: of_int_of_nat_eq)
  qed
  have "136 + 136 * int (sum_list (map ?n cs)) = int (136 * tree_nodes (IpNode cs r))"
    by simp
  then show ?case
    unfolding total_size.simps sum using small [OF IpNode.prems] by (simp only:)
qed

section \<open>A push can free a route that is still in use\<close>

text \<open>A route object that covers several slots is shared by their nodes, but the push
  frees it as soon as one of these nodes has handed it to no leaf. With 10.0.0.0/7 and the two
  halves of 10.0.0.0/8 the push frees the first route, and the lookup of 11.0.0.1 returns the
  pointer to it. With the halves of 11.0.0.0/8, too, the push frees it twice.\<close>

lemma leaf_push_frees_live_route:
  "map_option (\<lambda>(t, freed). (freed, advance_lookup_loop (route_keys 0x0b000001) 0 t, advance_longest_prefix_match freed t 0x0b000001))
     (advance_create_tree
       [\<lparr>ri_ip = 0x0a000000, ri_mask_len = 7, ri_port = 1\<rparr>,
        \<lparr>ri_ip = 0x0a000000, ri_mask_len = 9, ri_port = 2\<rparr>,
        \<lparr>ri_ip = 0x0a800000, ri_mask_len = 9, ri_port = 3\<rparr>]) =
   Some ([\<lparr>ri_ip = 0x0a000000, ri_mask_len = 7, ri_port = 1\<rparr>],
         Some \<lparr>ri_ip = 0x0a000000, ri_mask_len = 7, ri_port = 1\<rparr>, None)"
  by code_simp

lemma leaf_push_frees_twice:
  "advance_create_tree
     [\<lparr>ri_ip = 0x0a000000, ri_mask_len = 7, ri_port = 1\<rparr>,
      \<lparr>ri_ip = 0x0a000000, ri_mask_len = 9, ri_port = 2\<rparr>, \<lparr>ri_ip = 0x0a800000, ri_mask_len = 9, ri_port = 3\<rparr>,
      \<lparr>ri_ip = 0x0b000000, ri_mask_len = 9, ri_port = 2\<rparr>, \<lparr>ri_ip = 0x0b800000, ri_mask_len = 9, ri_port = 3\<rparr>] = None"
  by code_simp

end
