(* ===== verification/LeafFree.thy ===== *)
theory LeafFree imports LeafPush begin

text \<open>Which tables the leaf pushing of \<open>advance.h\<close> handles without touching freed memory. The recursion
  with memory does what \<open>push_log\<close> does if no freed route is held by two nodes; in a filled tree
  that is so if a route in several slots is the answer to some address in each of them.\<close>

section \<open>Stored routes\<close>

text \<open>What a slot of a filled tree holds: the longest of its level that covers it.\<close>

lemma filled_slot:
  assumes "\<forall>r \<in> set rs. route_ok r" "k \<le> 8"
  defines "T \<equiv> fold multi_put rs (create_node 16 None)"
  shows "(\<forall>q. router_at T (addr_path 4 ip k) = Some q \<longrightarrow> q \<in> set rs \<and> route_matches q ip \<and> multi_level q = k) \<and>
    (\<forall>r \<in> set rs. route_matches r ip \<longrightarrow> multi_level r = k \<longrightarrow>
       (\<exists>q. router_at T (addr_path 4 ip k) = Some q \<and> rlen r \<le> rlen q))"
  using assms(1) unfolding T_def
proof (induction rs rule: rev_induct)
  case Nil
  then show ?case by simp
next
  case (snoc r rs)
  let ?t = "fold multi_put rs (create_node 16 None)" and ?p = "addr_path 4 ip k"
  have ok: "route_ok r" "\<forall>r \<in> set rs. route_ok r" using snoc.prems by auto
  have fan: "fan 16 ?t" using multi.fill_scan [OF ok(2)] multi_invD(1) by blast
  note IH = snoc.IH [OF ok(2)]
  have eff: "router_at (multi_put r ?t) ?p =
      (if k = multi_level r \<and> route_matches r ip then leaf_route r (router_at ?t ?p) else router_at ?t ?p)"
    by (rule multi_put_effect(2) [OF fan ok(1) assms(2)])
  show ?case
  proof (cases "k = multi_level r \<and> route_matches r ip")
    case False
    then show ?thesis using IH eff by auto
  next
    case True
    have cmp: "route_cmp q r < 0 \<longleftrightarrow> rlen q < rlen r" if "router_at ?t ?p = Some q" for q
    proof (rule route_cmp_covers(1))
      have q: "q \<in> set rs" "route_matches q ip" "multi_level q = k" using IH that by auto
      then show "covers_block q (4 * k) (high_part (4 * k) ip)"
        using ok(2) multi_level_bounds [of q] assms(2) by (intro covers_block_matches) auto
      show "covers_block r (4 * k) (high_part (4 * k) ip)"
        using ok(1) True multi_level_bounds [of r] assms(2) by (intro covers_block_matches) auto
    qed
    show ?thesis
    proof (cases "router_at ?t ?p")
      case None
      then show ?thesis using IH eff True by (auto simp: leaf_route_def)
    next
      case (Some q)
      have at: "router_at (multi_put r ?t) ?p = Some (if rlen q < rlen r then r else q)"
        using eff True Some cmp [OF Some] by (simp add: leaf_route_def)
      have q: "q \<in> set rs" "route_matches q ip" "multi_level q = k" "\<forall>s \<in> set rs. route_matches s ip \<longrightarrow> multi_level s = k \<longrightarrow> rlen s \<le> rlen q"
        using IH Some by auto
      show ?thesis using at q True by (auto split: if_splits intro: order_trans less_imp_le)
    qed
  qed
qed

text \<open>A route with the address and length of a stored one is not stored, in whatever slot.\<close>

lemma same_prefix_not_stored:
  assumes "\<forall>r \<in> set rs. route_ok r" "route_ok r" "q \<in> set rs" "get_prefix q = get_prefix r" "rlen q = rlen r" "k \<le> 8"
  defines "T \<equiv> fold multi_put rs (create_node 16 None)"
  shows "router_at (multi_put r T) (addr_path 4 ip k) = router_at T (addr_path 4 ip k)"
proof (cases "k = multi_level r \<and> route_matches r ip")
  case True
  have fan: "fan 16 T" using multi.fill_scan [OF assms(1)] multi_invD(1) unfolding T_def by blast
  have lens: "ri_mask_len q = ri_mask_len r" using assms(5) by (simp add: rlen_def word_unat_eq_iff)
  then have "route_matches q ip" "multi_level q = k"
    using True assms(4,5) by (simp_all add: route_matches_def multi_level_def)
  then obtain s where s: "router_at T (addr_path 4 ip k) = Some s" "rlen q \<le> rlen s" "s \<in> set rs" "route_matches s ip" "multi_level s = k"
    using filled_slot [OF assms(1,6), of ip] assms(3) unfolding T_def by blast
  have "covers_block s (4 * k) (high_part (4 * k) ip)" "covers_block r (4 * k) (high_part (4 * k) ip)"
    using s True assms(1,2,6) multi_level_bounds [of s] multi_level_bounds [of r]
    by (auto intro!: covers_block_matches)
  then have "\<not> route_cmp s r < 0" using s(2) assms(5) route_cmp_covers(1) by (metis not_less)
  then show ?thesis
    using multi_put_effect(2) [OF fan assms(2,6), of ip]
    by (simp only: s(1) leaf_route_def option.case if_False if_cancel)
next
  case False
  have fan: "fan 16 T" using multi.fill_scan [OF assms(1)] multi_invD(1) unfolding T_def by blast
  show ?thesis using multi_put_effect(2) [OF fan assms(2,6), of ip] False by auto
qed

section \<open>The push with memory follows the log\<close>

lemma push_children_log:
  assumes "\<And>pre c post. cs = pre @ c # post \<Longrightarrow>
    f (node_of c) (freed @ concat (map (\<lambda>c. snd (snd (g (node_of c)))) pre)) =
      Some (fst (g (node_of c)), fst (snd (g (node_of c))),
        freed @ concat (map (\<lambda>c. snd (snd (g (node_of c)))) (pre @ [c])))"
  shows "push_children f cs freed = Some (map (\<lambda>c. Some (fst (g (node_of c)))) cs,
    \<exists>c \<in> set cs. fst (snd (g (node_of c))), freed @ concat (map (\<lambda>c. snd (snd (g (node_of c)))) cs))"
  using assms
proof (induction cs arbitrary: freed)
  case (Cons c cs)
  let ?l = "\<lambda>c. snd (snd (g (node_of c)))"
  have hd: "f (node_of c) freed = Some (fst (g (node_of c)), fst (snd (g (node_of c))), freed @ ?l c)"
    using Cons.prems [of "[]" c cs] by simp
  have "push_children f cs (freed @ ?l c) = Some (map (\<lambda>c. Some (fst (g (node_of c)))) cs,
      \<exists>c \<in> set cs. fst (snd (g (node_of c))), (freed @ ?l c) @ concat (map ?l cs))"
  proof (rule Cons.IH)
    fix pre d post assume "cs = pre @ d # post"
    then show "f (node_of d) ((freed @ ?l c) @ concat (map ?l pre)) =
        Some (fst (g (node_of d)), fst (snd (g (node_of d))), (freed @ ?l c) @ concat (map ?l (pre @ [d])))"
      using Cons.prems [of "c # pre" d post] by simp
  qed
  then show ?case by (simp add: hd)
qed simp

lemma push_log_inner:
  fixes p :: "route_item option"
  assumes "\<not> is_leaf t"
  defines "down \<equiv> (if stops_at t p then router t else p)"
  shows "push_log t p = (IpNode (map (\<lambda>c. Some (fst (push_log (node_of c) down))) (subt t)) (router t),
    \<not> stops_at t p \<and> (\<exists>c \<in> set (subt t). fst (snd (push_log (node_of c) down))),
    concat (map (\<lambda>c. snd (snd (push_log (node_of c) down))) (subt t)) @
      (if stops_at t p \<and> (\<exists>c \<in> set (subt t). fst (snd (push_log (node_of c) down))) then []
       else case router t of None \<Rightarrow> [] | Some q \<Rightarrow> [q]))"
  using assms(1) unfolding down_def
  by (subst push_log.simps) (simp add: Let_def node_of_def comp_def)

lemma push_log_at_leaf: "is_leaf t \<Longrightarrow> push_log t p = (if stops_at t p then (t, False, []) else (IpNode (subt t) p, True, []))"
  by (subst push_log.simps) simp

lemma node_of_routers: "router_at (node_of (subt t ! k)) a = Some x \<Longrightarrow> k < length (subt t) \<Longrightarrow> router_at t (k # a) = Some x"
  by (auto simp: node_of_def split: option.splits)

lemma logged_held: "x \<in> set (snd (snd (push_log t p))) \<Longrightarrow> \<exists>a. router_at t a = Some x"
proof (induction "ip_height t" arbitrary: t p rule: less_induct)
  case less
  show ?case
  proof (cases "is_leaf t")
    case True
    then show ?thesis using less.prems by (simp add: push_log_at_leaf split: if_splits)
  next
    case False
    let ?down = "if stops_at t p then router t else p"
    consider k where "k < length (subt t)" "x \<in> set (snd (snd (push_log (node_of (subt t ! k)) ?down)))" | "router t = Some x"
      using less.prems by (auto simp: push_log_inner [OF False] in_set_conv_nth split: if_splits option.splits) metis+
    then show ?thesis
    proof cases
      case 1
      have "ip_height (node_of (subt t ! k)) < ip_height t"
        using 1(1) False by (auto simp: node_of_def ip_height_inner intro!: ip_height_child split: option.split) (metis nth_mem)
      from less.hyps [OF this 1(2)] show ?thesis using node_of_routers 1(1) by blast
    next
      case 2
      then show ?thesis by (intro exI [of _ "[]"]) simp
    qed
  qed
qed

text \<open>A freed route that is held at one place only is never met again.\<close>

lemma push_defined:
  assumes "\<And>x a a'. x \<in> set (snd (snd (push_log t p))) \<Longrightarrow> router_at t a = Some x \<Longrightarrow> router_at t a' = Some x \<Longrightarrow> a = a'"
    and "\<And>x a. x \<in> set freed \<Longrightarrow> p \<noteq> Some x \<and> router_at t a \<noteq> Some x"
    and "\<And>x. x \<in> set (snd (snd (push_log t p))) \<Longrightarrow> p \<noteq> Some x"
  shows "leaf_push t p freed =
    Some (fst (push_log t p), fst (snd (push_log t p)), freed @ snd (snd (push_log t p)))"
  using assms
proof (induction "ip_height t" arbitrary: t p freed rule: less_induct)
  case less
  note uniq = less.prems(1) and sep = less.prems(2) and notp = less.prems(3)
  have stops: "push_stops t p freed = Some (stops_at t p)"
    using sep [of _ "[]"] by (auto simp: push_stops_def stops_at_def split: option.split)
  show ?case
  proof (cases "is_leaf t")
    case True
    then show ?thesis by (subst leaf_push.simps) (simp add: stops push_log_at_leaf)
  next
    case False
    let ?down = "if stops_at t p then router t else p"
    let ?g = "\<lambda>c. push_log c ?down" and ?l = "\<lambda>c. snd (snd (push_log (node_of c) ?down))"
    let ?any = "\<exists>c \<in> set (subt t). fst (snd (?g (node_of c)))"
    have log: "set (?l (subt t ! k)) \<subseteq> set (snd (snd (push_log t p)))" if "k < length (subt t)" for k
      using nth_mem [OF that] by (auto simp: push_log_inner [OF False])
    have held: "\<exists>a. router_at t (k # a) = Some x" if "x \<in> set (?l (subt t ! k))" "k < length (subt t)" for x k
      using logged_held [OF that(1)] node_of_routers that(2) by blast
    have children: "push_children (\<lambda>c. leaf_push c ?down) (subt t) freed =
        Some (map (\<lambda>c. Some (fst (?g (node_of c)))) (subt t), ?any, freed @ concat (map ?l (subt t)))"
    proof (rule push_children_log)
      fix pre c post assume split: "subt t = pre @ c # post"
      let ?k = "length pre" and ?fr = "freed @ concat (map ?l pre)"
      have k: "?k < length (subt t)" "c = subt t ! ?k" by (simp_all add: split)
      have before: "\<exists>i a. i < ?k \<and> router_at t (i # a) = Some x \<and> x \<in> set (snd (snd (push_log t p)))"
        if x: "x \<in> set (concat (map ?l pre))" for x
      proof -
        obtain d where "d \<in> set pre" "x \<in> set (?l d)" using x by auto
        then obtain i where i: "i < ?k" "x \<in> set (?l (pre ! i))" by (auto simp: in_set_conv_nth [of d])
        then have at: "x \<in> set (?l (subt t ! i))" "i < length (subt t)" by (simp_all add: split nth_append)
        show ?thesis using held [OF at] log [OF at(2)] at(1) i(1) by blast
      qed
      have "leaf_push (node_of c) ?down ?fr = Some (fst (?g (node_of c)), fst (snd (?g (node_of c))), ?fr @ ?l c)"
      proof (rule less.hyps)
        show "ip_height (node_of c) < ip_height t"
          using False k by (auto simp: node_of_def ip_height_inner intro!: ip_height_child split: option.split) (metis nth_mem)
        show "a = a'" if "x \<in> set (?l c)" "router_at (node_of c) a = Some x" "router_at (node_of c) a' = Some x" for x a a'
          using uniq [of x "?k # a" "?k # a'"] that node_of_routers [OF _ k(1)] log [OF k(1)] k(2) by auto
        show "?down \<noteq> Some x" if "x \<in> set (?l c)" for x
        proof -
          have "x \<in> set (?l (subt t ! ?k))" using that k(2) by simp
          then obtain a where "router_at t (?k # a) = Some x" using held k(1) by blast
          moreover have "x \<in> set (snd (snd (push_log t p)))" using that log [OF k(1)] k(2) by auto
          ultimately show ?thesis using uniq [of x "[]" "?k # a"] notp by auto
        qed
        show "?down \<noteq> Some x \<and> router_at (node_of c) a \<noteq> Some x" if "x \<in> set ?fr" for x a
        proof (cases "x \<in> set freed")
          case True
          then show ?thesis using sep [of x "[]"] sep [of x "?k # a"] node_of_routers [OF _ k(1)] k(2) by auto
        next
          case False
          then have "x \<in> set (concat (map ?l pre))" using that by simp
          then obtain i b where "i < ?k" "router_at t (i # b) = Some x" "x \<in> set (snd (snd (push_log t p)))"
            using before by blast
          then show ?thesis using uniq [of x "[]" "i # b"] uniq [of x "?k # a" "i # b"] notp
              node_of_routers [OF _ k(1)] k(2) by auto
        qed
      qed
      then show "leaf_push (node_of c) ?down ?fr = Some (fst (?g (node_of c)), fst (snd (?g (node_of c))),
          freed @ concat (map ?l (pre @ [c])))" by simp
    qed
    have own: "q \<notin> set (freed @ concat (map ?l (subt t)))" if q: "router t = Some q" "\<not> (stops_at t p \<and> ?any)" for q
    proof -
      have "q \<in> set (snd (snd (push_log t p)))" using q by (auto simp: push_log_inner [OF False])
      then have "router_at t (k # a) \<noteq> Some q" for k a using uniq [of q "[]" "k # a"] q(1) by auto
      then have "q \<notin> set (?l (subt t ! k))" if "k < length (subt t)" for k using held that by blast
      then have "q \<notin> set (?l c)" if "c \<in> set (subt t)" for c using that by (metis in_set_conv_nth)
      moreover have "q \<notin> set freed" using sep [of q "[]"] q(1) by auto
      ultimately show ?thesis by simp
    qed
    show ?thesis
      by (subst leaf_push.simps, unfold stops option.case, subst children,
          use False own in \<open>auto simp: push_log_inner [OF False] Let_def split: option.split\<close>) blast+
  qed
qed

section \<open>When a route is freed\<close>

text \<open>The routes on the paths below a node are not shorter than the node's and the one from above.\<close>

definition tree_ordered :: "ip_tree \<Rightarrow> route_item option \<Rightarrow> bool" where
  "tree_ordered t p \<longleftrightarrow>
     (\<forall>a q. router_at t a = Some q \<longrightarrow> (case p of None \<Rightarrow> True | Some pr \<Rightarrow> route_cmp pr q \<le> 0)) \<and>
     (\<forall>a b q q'. router_at t a = Some q \<longrightarrow> b \<noteq> [] \<longrightarrow> router_at t (a @ b) = Some q' \<longrightarrow> route_cmp q q' \<le> 0)"

definition digits16 :: "nat list \<Rightarrow> bool" where
  "digits16 e \<longleftrightarrow> (\<forall>k \<in> set e. k < 16)"

lemma router_at_node_of:
  "fan 16 t \<Longrightarrow> k < 16 \<Longrightarrow> router_at (node_of (subt t ! k)) a = router_at t (k # a)"
  by (auto simp: node_of_def fan_length split: option.split)

lemma shallow_node_of: "shallow (Suc m) t \<Longrightarrow> fan 16 t \<Longrightarrow> k < 16 \<Longrightarrow> shallow m (node_of (subt t ! k))"
  using shallow_child_or_new [of m t 16 k] by (simp add: child_or_new_def node_of_def)

lemma fan_node_of: "fan 16 t \<Longrightarrow> k < 16 \<Longrightarrow> fan 16 (node_of (subt t ! k))"
  using fan_child_or_new [of 16 t k] by (simp add: child_or_new_def node_of_def)

text \<open>Where a path to the bottom meets no route, the route from above reaches a leaf.\<close>

lemma push_replaces:
  "shallow m t \<Longrightarrow> fan 16 t \<Longrightarrow> length e = m \<Longrightarrow> digits16 e \<Longrightarrow> \<forall>j \<le> m. router_at t (take j e) = None \<Longrightarrow>
     fst (snd (push_log t (Some x)))"
proof (induction m arbitrary: t e)
  case 0
  then show ?case by (auto simp: push_log_at_leaf stops_at_def)
next
  case (Suc m)
  then obtain k e' where e: "e = k # e'" "k < 16" "length e' = m" "digits16 e'"
    by (cases e) (auto simp: digits16_def)
  have "router t = None" using Suc.prems(5) [rule_format, of 0] by simp
  then have stops: "\<not> stops_at t (Some x)" by (simp add: stops_at_def)
  show ?case
  proof (cases "is_leaf t")
    case True
    then show ?thesis using stops by (simp add: push_log_at_leaf)
  next
    case False
    have "fst (snd (push_log (node_of (subt t ! k)) (Some x)))"
    proof (rule Suc.IH [OF shallow_node_of [OF Suc.prems(1,2) e(2)] fan_node_of [OF Suc.prems(2) e(2)] e(3,4)])
      show "\<forall>j \<le> m. router_at (node_of (subt t ! k)) (take j e') = None"
      proof (intro allI impI)
        fix j assume "j \<le> m"
        then show "router_at (node_of (subt t ! k)) (take j e') = None"
          using Suc.prems(5) [rule_format, of "Suc j"] unfolding router_at_node_of [OF Suc.prems(2) e(2)]
          by (simp add: e(1) del: router_at.simps)
      qed
    qed
    moreover have "subt t ! k \<in> set (subt t)" using e(2) fan_length [OF Suc.prems(2)] by simp
    ultimately show ?thesis using stops by (auto simp: push_log_inner [OF False])
  qed
qed

text \<open>A freed route is held by a node below which every path to the bottom meets another route.\<close>

lemma logged_covered:
  "shallow m t \<Longrightarrow> fan 16 t \<Longrightarrow> tree_ordered t p \<Longrightarrow> x \<in> set (snd (snd (push_log t p))) \<Longrightarrow>
     \<exists>a. router_at t a = Some x \<and> (\<forall>e. length e = m \<longrightarrow> digits16 e \<longrightarrow> take (length a) e = a \<longrightarrow>
       (\<exists>j. length a < j \<and> j \<le> m \<and> router_at t (take j e) \<noteq> None))"
proof (induction m arbitrary: t p)
  case 0
  then show ?case by (simp add: push_log_at_leaf split: if_splits)
next
  case (Suc m)
  have inner: "\<not> is_leaf t" using Suc.prems(4) by (auto simp: push_log_at_leaf split: if_splits)
  have stops: "stops_at t p" if "router t = Some q" for q
    using Suc.prems(3) [unfolded tree_ordered_def] that
    by (auto simp: stops_at_def split: option.split dest!: spec [of _ "[]"])
  let ?down = "if stops_at t p then router t else p"
  have len: "length (subt t) = 16" using fan_length [OF Suc.prems(2)] .
  consider k where "k < 16" "x \<in> set (snd (snd (push_log (node_of (subt t ! k)) ?down)))"
    | "router t = Some x" "\<not> (\<exists>c \<in> set (subt t). fst (snd (push_log (node_of c) ?down)))"
    using Suc.prems(4) stops len
    by (auto simp: push_log_inner [OF inner] in_set_conv_nth split: if_splits option.splits) metis+
  then show ?case
  proof cases
    case 1
    have "tree_ordered (node_of (subt t ! k)) ?down"
      unfolding tree_ordered_def router_at_node_of [OF Suc.prems(2) 1(1)]
    proof (intro conjI allI impI)
      fix a q assume "router_at t (k # a) = Some q"
      then show "case ?down of None \<Rightarrow> True | Some pr \<Rightarrow> route_cmp pr q \<le> 0"
        using Suc.prems(3) [unfolded tree_ordered_def, THEN conjunct1, rule_format, of "k # a" q]
          Suc.prems(3) [unfolded tree_ordered_def, THEN conjunct2, rule_format, of "[]" _ "k # a" q]
        by (auto split: option.split)
    next
      fix a b q q' assume "router_at t (k # a) = Some q" "b \<noteq> []" "router_at t (k # a @ b) = Some q'"
      then show "route_cmp q q' \<le> 0"
        using Suc.prems(3) [unfolded tree_ordered_def, THEN conjunct2, rule_format, of "k # a" q b q'] by simp
    qed
    from Suc.IH [OF shallow_node_of [OF Suc.prems(1,2) 1(1)] fan_node_of [OF Suc.prems(2) 1(1)] this 1(2)]
    obtain a where a: "router_at t (k # a) = Some x"
      "\<And>e. length e = m \<Longrightarrow> digits16 e \<Longrightarrow> take (length a) e = a \<Longrightarrow>
         \<exists>j. length a < j \<and> j \<le> m \<and> router_at t (k # take j e) \<noteq> None"
      unfolding router_at_node_of [OF Suc.prems(2) 1(1)] by blast
    show ?thesis
    proof (intro exI [of _ "k # a"] conjI allI impI)
      show "router_at t (k # a) = Some x" by (rule a(1))
      fix e assume e: "length e = Suc m" "digits16 e" "take (length (k # a)) e = k # a"
      then obtain e' where e': "e = k # e'" "length e' = m" "digits16 e'" "take (length a) e' = a"
        by (cases e) (auto simp: digits16_def)
      obtain j where "length a < j" "j \<le> m" "router_at t (k # take j e') \<noteq> None" using a(2) [OF e'(2-4)] by blast
      then show "\<exists>j. length (k # a) < j \<and> j \<le> Suc m \<and> router_at t (take j e) \<noteq> None"
        by (intro exI [of _ "Suc j"]) (simp add: e'(1) del: router_at.simps)
    qed
  next
    case 2
    have down: "?down = Some x" using 2(1) stops by simp
    show ?thesis
    proof (intro exI [of _ "[]"] conjI allI impI)
      show "router_at t [] = Some x" using 2(1) by simp
      fix e assume e: "length e = Suc m" "digits16 e"
      then obtain k e' where e': "e = k # e'" "k < 16" "length e' = m" "digits16 e'"
        by (cases e) (auto simp: digits16_def)
      have "\<not> fst (snd (push_log (node_of (subt t ! k)) (Some x)))"
        using 2(2) e'(2) len nth_mem [of k "subt t"] unfolding down by auto
      then obtain j where "j \<le> m" "router_at t (k # take j e') \<noteq> None"
        using push_replaces [OF shallow_node_of [OF Suc.prems(1,2) e'(2)] fan_node_of [OF Suc.prems(2) e'(2)] e'(3,4), of x]
        unfolding router_at_node_of [OF Suc.prems(2) e'(2)] by blast
      then show "\<exists>j. length [] < j \<and> j \<le> Suc m \<and> router_at t (take j e) \<noteq> None"
        by (intro exI [of _ "Suc j"]) (simp add: e'(1) del: router_at.simps)
    qed
  qed
qed

section \<open>Tables that are pushed without a stale pointer\<close>

text \<open>A path is that of some address.\<close>

lemma path_of_address: "digits16 a \<Longrightarrow> length a \<le> 8 \<Longrightarrow> \<exists>ip. addr_path 4 ip (length a) = a"
proof (induction a rule: rev_induct)
  case Nil
  then show ?case by (simp add: addr_path_def)
next
  case (snoc d a)
  let ?n = "length a"
  have n: "4 * Suc ?n \<le> 32" "d < 16" using snoc.prems by (simp_all add: digits16_def)
  obtain ip where ip: "addr_path 4 ip ?n = a" using snoc by (auto simp: digits16_def)
  let ?h = "high_part (4 * ?n) ip * 16 + d" and ?c = "2 ^ (32 - 4 * Suc ?n) :: nat"
  let ?x = "of_nat (?h * ?c) :: u32"
  have "high_part (4 * ?n) ip < 2 ^ (4 * ?n)"
  proof -
    have "unat ip < 2 ^ (4 * ?n) * 2 ^ (32 - 4 * ?n)"
      using unsigned_less [where w = ip] n by (simp flip: power_add)
    then show ?thesis by (simp add: high_part_def less_mult_imp_div_less)
  qed
  moreover have e: "(2 :: nat) ^ (4 * Suc ?n) = 16 * 2 ^ (4 * ?n)" by (simp add: power_add)
  ultimately have "?h < 2 ^ (4 * Suc ?n)" unfolding e using n(2) by linarith
  then have "?h * ?c < 2 ^ (4 * Suc ?n) * ?c" by (simp only: mult_less_cancel2) simp
  also have "\<dots> = 2 ^ 32" using n by (simp only: flip: power_add) simp
  finally have small: "?h * ?c < 2 ^ 32" .
  have "unat (of_nat m :: u32) = m" if "m < 2 ^ 32" for m using that by (simp add: unat_of_nat)
  from this [OF small] have "unat ?x = ?h * ?c" .
  then have h: "high_part (4 * Suc ?n) ?x = ?h" by (simp add: high_part_def del: mult_Suc_right of_nat_mult)
  then have "high_part (4 * ?n) ?x = high_part (4 * ?n) ip"
    using high_part_high_part [of "4 * ?n" "4 * Suc ?n" ?x] n by simp
  then have "addr_path 4 ?x ?n = a" using addr_path_eq_iff [of 4 ?n ?x ip] n ip by simp
  moreover have "digit 4 ?x ?n = d" using h n by (simp add: digit_def)
  ultimately show ?case by (intro exI [of _ ?x]) (simp add: addr_path_Suc del: of_nat_mult)
qed

lemma held_path:
  "fan 16 t \<Longrightarrow> shallow m t \<Longrightarrow> router_at t a = Some x \<Longrightarrow> digits16 a \<and> length a \<le> m"
proof (induction m arbitrary: t a)
  case 0
  then show ?case
    by ((cases a; auto simp: digits16_def is_leaf_def split: if_splits option.splits), metis nth_mem option.distinct(1))
next
  case (Suc m)
  show ?case
  proof (cases a)
    case (Cons k b)
    then have k: "k < 16" "router_at (node_of (subt t ! k)) b = Some x"
      using Suc.prems(1,3) fan_length [OF Suc.prems(1)] router_at_node_of [OF Suc.prems(1), of k b]
      by (auto split: if_splits)
    from Suc.IH [OF fan_node_of [OF Suc.prems(1) k(1)] shallow_node_of [OF Suc.prems(2,1) k(1)] k(2)]
    show ?thesis using Cons k(1) by (simp add: digits16_def)
  qed (simp add: digits16_def)
qed

text \<open>A route is stored in the block of an address if no longer one of its level covers the block; it
  shows in the block if an address there has no longer match. A table is pushed safely if each route
  stored in several blocks shows in each of them.\<close>

definition same_block :: "route_item \<Rightarrow> u32 \<Rightarrow> u32 \<Rightarrow> bool" where
  "same_block r x y \<longleftrightarrow> high_part (4 * multi_level r) x = high_part (4 * multi_level r) y"

definition stored_at :: "route_item list \<Rightarrow> route_item \<Rightarrow> u32 \<Rightarrow> bool" where
  "stored_at rs r ip \<longleftrightarrow> route_matches r ip \<and>
     (\<forall>q \<in> set rs. route_matches q ip \<longrightarrow> rlen q \<le> 4 * multi_level r \<longrightarrow> rlen q \<le> rlen r)"

definition shows_at :: "route_item list \<Rightarrow> route_item \<Rightarrow> u32 \<Rightarrow> bool" where
  "shows_at rs r ip \<longleftrightarrow> (\<exists>x. same_block r x ip \<and> (\<forall>q \<in> set rs. route_matches q x \<longrightarrow> rlen q \<le> rlen r))"

definition pushes_safely :: "route_item list \<Rightarrow> bool" where
  "pushes_safely rs \<longleftrightarrow> (\<forall>r \<in> set rs. \<forall>x y. stored_at rs r x \<and> stored_at rs r y \<and> \<not> same_block r x y \<longrightarrow> shows_at rs r x)"

text \<open>The tree filled from a table, and what the last sections need of it.\<close>

definition filled :: "route_item list \<Rightarrow> ip_tree" where
  "filled rs = fold multi_put rs (create_node 16 None)"

lemma filled_tree:
  assumes "\<forall>r \<in> set rs. route_ok r"
  shows "multi_inv (filled rs)" "fan 16 (filled rs)" "shallow 8 (filled rs)"
  using multi.fill_scan [OF assms] multi_invD(1) filled_shallow [OF assms multi_inv_empty, OF shallow_leaf]
  unfolding filled_def by auto

lemma filled_held:
  assumes "\<forall>r \<in> set rs. route_ok r" "router_at (filled rs) a = Some x"
  obtains ip where "a = addr_path 4 ip (multi_level x)" "stored_at rs x ip" "x \<in> set rs" "multi_level x \<le> 8"
proof -
  have a: "digits16 a" "length a \<le> 8" using held_path [OF filled_tree(2,3) [OF assms(1)] assms(2)] by auto
  then obtain ip where ip: "addr_path 4 ip (length a) = a" using path_of_address by blast
  note slot = filled_slot [OF assms(1) a(2), of ip, folded filled_def, unfolded ip]
  have x: "x \<in> set rs" "route_matches x ip" "multi_level x = length a" using slot assms(2) by auto
  have "rlen q \<le> rlen x" if q: "q \<in> set rs" "route_matches q ip" "rlen q \<le> 4 * multi_level x" for q
  proof (cases "multi_level q = multi_level x")
    case True
    then show ?thesis using slot q x(3) assms(2) by auto
  next
    case False
    have "multi_level q \<le> multi_level x" using q(3) by (simp add: multi_level_def)
    then have "multi_level q \<le> multi_level x - 1" using False by linarith
    moreover have "rlen q \<le> 4 * multi_level q" "4 * (multi_level x - 1) < rlen x"
      using multi_level_bounds assms(1) q(1) x(1) by auto
    ultimately show ?thesis by linarith
  qed
  then have "stored_at rs x ip" using x(2) by (simp add: stored_at_def)
  then show thesis using that [of ip] ip x a(2) by simp
qed

lemma filled_ordered:
  assumes "\<forall>r \<in> set rs. route_ok r"
  shows "tree_ordered (filled rs) None"
  unfolding tree_ordered_def option.case
proof (intro conjI allI impI TrueI)
  fix a b q q' assume at: "router_at (filled rs) a = Some q" "b \<noteq> []" "router_at (filled rs) (a @ b) = Some q'"
  obtain ip where ip: "a @ b = addr_path 4 ip (multi_level q')" "multi_level q' \<le> 8"
    using filled_held [OF assms at(3)] by metis
  have "0 < length b" using at(2) by simp
  moreover have l: "length (a @ b) = multi_level q'" using arg_cong [OF ip(1), of length] by (simp only: length_addr_path)
  ultimately have l: "length a < length (a @ b)" "length (a @ b) = multi_level q'" by (simp_all only: length_append)
  have "a = take (length a) (a @ b)" by simp
  also have "\<dots> = addr_path 4 ip (length a)" unfolding ip(1) using l by (intro take_addr_path) simp
  finally have a: "a = addr_path 4 ip (length a)" .
  have "chain_ordered (\<lambda>k. case k of 0 \<Rightarrow> None | Suc k \<Rightarrow> router_at (filled rs) (addr_path 4 ip k)) 9"
    by (rule multi_inv_chain [OF filled_tree(1) [OF assms]])
  from this [unfolded chain_ordered_def, rule_format, of "Suc (length a)" "Suc (multi_level q')"]
  show "route_cmp q q' \<le> 0" using at l ip a by simp
qed

text \<open>A freed route does not show where it is stored.\<close>

lemma logged_hidden:
  assumes "\<forall>r \<in> set rs. route_ok r" "x \<in> set (snd (snd (push_log (filled rs) None)))"
  obtains ip where "router_at (filled rs) (addr_path 4 ip (multi_level x)) = Some x" "\<not> shows_at rs x ip" "stored_at rs x ip"
proof -
  obtain a where a: "router_at (filled rs) a = Some x"
    and cov: "\<And>e. length e = 8 \<Longrightarrow> digits16 e \<Longrightarrow> take (length a) e = a \<Longrightarrow>
      \<exists>j. length a < j \<and> j \<le> 8 \<and> router_at (filled rs) (take j e) \<noteq> None"
    using logged_covered [OF filled_tree(3,2) [OF assms(1)] filled_ordered [OF assms(1)] assms(2)] by blast
  obtain ip where ip: "a = addr_path 4 ip (multi_level x)" "stored_at rs x ip" "x \<in> set rs" "multi_level x \<le> 8"
    using filled_held [OF assms(1) a] by blast
  have "\<not> shows_at rs x ip"
  proof
    assume "shows_at rs x ip"
    then obtain y where y: "same_block x y ip" "\<And>q. q \<in> set rs \<Longrightarrow> route_matches q y \<Longrightarrow> rlen q \<le> rlen x"
      unfolding shows_at_def by blast
    have "addr_path 4 y (multi_level x) = a"
      using y(1) ip addr_path_eq_iff [of 4 "multi_level x" y ip] by (simp add: same_block_def)
    moreover have "digits16 (addr_path 4 y 8)" using digit_less [of _ 4 y 8] by (auto simp: digits16_def)
    ultimately obtain j q where j: "multi_level x < j" "j \<le> 8" "router_at (filled rs) (addr_path 4 y j) = Some q"
      using cov [of "addr_path 4 y 8"] ip(1,4) by (auto simp del: upt_rec_numeral)
    have q: "q \<in> set rs" "route_matches q y" "multi_level q = j"
      using filled_slot [OF assms(1) j(2), of y, folded filled_def] j(3) by auto
    then have "4 * (j - 1) < rlen q" "rlen x \<le> 4 * multi_level x" "multi_level x \<le> j - 1"
      using multi_level_bounds [of q] multi_level_bounds [of x] assms(1) ip(3) j(1) by auto
    then show False using y(2) [OF q(1,2)] by linarith
  qed
  then show thesis using that [of ip] a ip by blast
qed

lemma push_safe:
  assumes ok: "\<forall>r \<in> set rs. route_ok r" and safe: "pushes_safely rs"
  shows "leaf_push (filled rs) None [] = Some (push_log (filled rs) None)"
    and "lpm_scan rs ip = Some q \<Longrightarrow> q \<notin> set (snd (snd (push_log (filled rs) None)))"
proof -
  have once: "stored_at rs x y \<Longrightarrow> stored_at rs x z \<Longrightarrow> x \<in> set rs \<Longrightarrow> \<not> shows_at rs x y \<Longrightarrow> same_block x y z" for x y z
    using safe unfolding pushes_safely_def by blast
  have block: "addr_path 4 y (multi_level x) = addr_path 4 z (multi_level x)" if "same_block x y z" "multi_level x \<le> 8" for x y z
    using that addr_path_eq_iff [of 4 "multi_level x" y z] by (simp add: same_block_def)
  have uniq: "a = a'" if x: "x \<in> set (snd (snd (push_log (filled rs) None)))"
    and a: "router_at (filled rs) a = Some x" "router_at (filled rs) a' = Some x" for x a a'
  proof -
    obtain h where h: "\<not> shows_at rs x h" "stored_at rs x h" using logged_hidden [OF ok x] by blast
    have "b = addr_path 4 h (multi_level x)" if b: "router_at (filled rs) b = Some x" for b
    proof -
      obtain y where y: "b = addr_path 4 y (multi_level x)" "stored_at rs x y" "x \<in> set rs" "multi_level x \<le> 8"
        using filled_held [OF ok b] by blast
      show ?thesis using once [OF h(2) y(2,3) h(1)] block [of x h y] y by simp
    qed
    then show ?thesis using a by blast
  qed
  have "leaf_push (filled rs) None [] = Some (fst (push_log (filled rs) None), fst (snd (push_log (filled rs) None)),
      [] @ snd (snd (push_log (filled rs) None)))"
    by (rule push_defined) (use uniq in auto)
  then show "leaf_push (filled rs) None [] = Some (push_log (filled rs) None)" by simp
  show "q \<notin> set (snd (snd (push_log (filled rs) None)))" if q: "lpm_scan rs ip = Some q"
  proof
    assume "q \<in> set (snd (snd (push_log (filled rs) None)))"
    then obtain h where h: "\<not> shows_at rs q h" "stored_at rs q h" using logged_hidden [OF ok] by blast
    have best: "q \<in> set rs" "route_matches q ip" "\<forall>r \<in> set rs. route_matches r ip \<longrightarrow> rlen r \<le> rlen q"
      using lpm_scan_SomeD [OF q] by auto
    then have "stored_at rs q ip" by (auto simp: stored_at_def)
    from once [OF h(2) this best(1) h(1)] have "shows_at rs q h"
      using best(3) by (auto simp: shows_at_def same_block_def)
    then show False using h(1) by blast
  qed
qed

lemma advance_scan:
  assumes "\<forall>r \<in> set rs. route_ok r" "pushes_safely rs"
  obtains t freed where "advance_create_tree rs = Some (t, freed)"
    "\<And>ip. advance_longest_prefix_match freed t ip = Some (lpm_scan rs ip)"
proof (rule that)
  let ?l = "push_log (filled rs) None"
  show "advance_create_tree rs = Some (fst ?l, snd (snd ?l))"
    using push_safe(1) [OF assms]
    by (simp add: advance_create_tree_def multi_create_tree_fold [OF assms(1)] filled_def [symmetric] split_beta)
  fix ip
  have "advance_lookup_loop (route_keys ip) 0 (fst ?l) = lpm_scan rs ip"
    using push_log_keeps_answers [OF filled_tree(1,3) [OF assms(1)]] multi.fill_scan [OF assms(1)]
    by (simp add: filled_def)
  then show "advance_longest_prefix_match (snd (snd ?l)) (fst ?l) ip = Some (lpm_scan rs ip)"
    using push_safe(2) [OF assms] by (simp add: advance_longest_prefix_match_def split: option.split)
qed

end
