(* ===== verification/LookupTest.thy ===== *)
theory LookupTest imports LeafFree begin

text \<open>The test programs of \<open>exp7/code\<close> (\<open>tree_test\<close> and \<open>create_tree_by_file\<close> in \<open>naive.h\<close>, \<open>multi.h\<close>,
  \<open>advance.h\<close>, \<open>fscanf_router\<close> in \<open>ip.h\<close>): a table of routes and lists of addresses are read from text
  files, and the addresses that have a route are written. A file is the text not yet read.\<close>

section \<open>Reading numbers\<close>

definition is_space :: "char \<Rightarrow> bool" where
  "is_space c \<longleftrightarrow> of_char c = (32 :: nat) \<or> 9 \<le> (of_char c :: nat) \<and> of_char c \<le> (13 :: nat)"

definition skip_space :: "string \<Rightarrow> string" where
  "skip_space s = dropWhile is_space s"

text \<open>The value of a digit of a base up to sixteen.\<close>

definition digit_val :: "nat \<Rightarrow> char \<Rightarrow> nat option" where
  "digit_val base c =
     (let n = of_char c :: nat;
          d = (if 48 \<le> n \<and> n \<le> 57 then n - 48 else if 97 \<le> n \<and> n \<le> 102 then n - 87
               else if 65 \<le> n \<and> n \<le> 70 then n - 55 else 16)
      in if d < base then Some d else None)"

fun number_val :: "nat \<Rightarrow> nat \<Rightarrow> string \<Rightarrow> nat" where
  "number_val base acc [] = acc"
| "number_val base acc (c # cs) =
     (case digit_val base c of None \<Rightarrow> acc | Some d \<Rightarrow> number_val base (acc * base + d) cs)"

definition is_digit_in :: "nat \<Rightarrow> char \<Rightarrow> bool" where
  "is_digit_in base c \<longleftrightarrow> digit_val base c \<noteq> None"

text \<open>The directives of the formats in use. A sign is allowed before a number, and \<open>0x\<close> before a
  hexadecimal one. The result is the value returned by \<open>fscanf\<close>, -1 for \<open>EOF\<close>, the converted
  numbers and the rest of the file; a number that does not fit 32 bits is undefined.\<close>

datatype directive = Dec | Hex | Exactly char | Space

definition scan_sign :: "string \<Rightarrow> bool \<times> string" where
  "scan_sign s = (case s of [] \<Rightarrow> (False, s)
     | c # cs \<Rightarrow> if c = CHR ''-'' then (True, cs) else if c = CHR ''+'' then (False, cs) else (False, s))"

definition skip_0x :: "string \<Rightarrow> string" where
  "skip_0x s = (case s of a # b # cs \<Rightarrow> if a = CHR ''0'' \<and> (b = CHR ''x'' \<or> b = CHR ''X'') then cs else s | _ \<Rightarrow> s)"

definition scan_number :: "nat \<Rightarrow> string \<Rightarrow> (int \<times> string) option" where
  "scan_number base s =
     (let (neg, s) = scan_sign s;
          s = (if base = 16 then skip_0x s else s);
          ds = takeWhile (is_digit_in base) s;
          v = int (number_val base 0 ds)
      in if ds = [] then None else Some (if neg then - v else v, drop (length ds) s))"

definition fits :: "directive \<Rightarrow> int \<Rightarrow> bool" where
  "fits d v \<longleftrightarrow> (if d = Dec then - (2 ^ 31) \<le> v \<and> v < 2 ^ 31 else - (2 ^ 32) < v \<and> v < 2 ^ 32)"

fun fscanf_loop :: "directive list \<Rightarrow> int list \<Rightarrow> string \<Rightarrow> (int \<times> int list \<times> string) option" where
  "fscanf_loop [] vs f = Some (int (length vs), vs, f)"
| "fscanf_loop (Space # ds) vs f = fscanf_loop ds vs (skip_space f)"
| "fscanf_loop (Exactly c # ds) vs f = (case f of
     [] \<Rightarrow> Some (if vs = [] then - 1 else int (length vs), vs, f)
   | x # xs \<Rightarrow> if x = c then fscanf_loop ds vs xs else Some (int (length vs), vs, f))"
| "fscanf_loop (d # ds) vs f =
     (let f = skip_space f
      in if f = [] then Some (if vs = [] then - 1 else int (length vs), vs, f)
         else (case scan_number (if d = Dec then 10 else 16) f of
             None \<Rightarrow> Some (int (length vs), vs, f)
           | Some (v, f) \<Rightarrow> if fits d v then fscanf_loop ds (vs @ [v]) f else None))"

definition fscanf :: "directive list \<Rightarrow> string \<Rightarrow> (int \<times> int list \<times> string) option" where
  "fscanf fmt f = fscanf_loop fmt [] f"

section \<open>The table\<close>

definition route_format :: "directive list" where
  "route_format = [Dec, Exactly (CHR ''.''), Dec, Exactly (CHR ''.''), Dec, Exactly (CHR ''.''), Dec, Space, Dec, Space, Dec]"

text \<open>The null pointer is \<open>None\<close> inside; a line that does not match leaves fields uninitialised, \<open>None\<close>
  outside.\<close>

definition fscanf_router :: "string \<Rightarrow> (route_item option \<times> string) option" where
  "fscanf_router f = (case fscanf route_format f of
     None \<Rightarrow> None
   | Some (n, vs, f) \<Rightarrow>
       if n = - 1 then Some (None, f)
       else if length vs < 6 then None
       else Some (Some \<lparr>ri_ip = get_ip (take 4 vs), ri_mask_len = word_of_int (vs ! 4), ri_port = word_of_int (vs ! 5)\<rparr>, f))"

lemma scan_number_shorter: "scan_number b s = Some (v, t) \<Longrightarrow> length t < length s"
proof -
  assume a: "scan_number b s = Some (v, t)"
  have "length (snd (scan_sign s)) \<le> length s" by (auto simp: scan_sign_def split: list.split)
  moreover have "length (skip_0x u) \<le> length u" for u by (auto simp: skip_0x_def split: list.split)
  ultimately have l: "length (if b = 16 then skip_0x (snd (scan_sign s)) else snd (scan_sign s)) \<le> length s"
    using order_trans by auto
  let ?u = "if b = 16 then skip_0x (snd (scan_sign s)) else snd (scan_sign s)"
  let ?d = "takeWhile (is_digit_in b) ?u"
  from a have t: "t = drop (length ?d) ?u" "?d \<noteq> []"
    by (auto simp: scan_number_def Let_def split_beta split: if_splits)
  have "length ?d \<le> length ?u" by (rule length_takeWhile_le)
  moreover have "0 < length ?d" using t(2) by simp
  moreover have "length t = length ?u - length ?d" by (simp add: t(1))
  ultimately show ?thesis using l by linarith
qed

lemma skip_space_shorter: "length (skip_space s) \<le> length s"
  by (simp add: skip_space_def length_dropWhile_le)

lemma scan_skipped_shorter: "scan_number b (skip_space s) = Some (v, t) \<Longrightarrow> length t < length s"
  by (rule less_le_trans [OF scan_number_shorter skip_space_shorter])

lemma fscanf_loop_shorter:
  "fscanf_loop ds vs f = Some (n, ws, g) \<Longrightarrow> length g \<le> length f \<and> (length vs < length ws \<longrightarrow> length g < length f)"
proof (induction ds vs f rule: fscanf_loop.induct)
  case (2 ds vs f)
  then show ?case using skip_space_shorter [of f] by auto
next
  case (3 c ds vs f)
  then show ?case by (auto split: list.splits if_splits)
qed (fastforce simp: Let_def split: if_splits option.splits dest!: scan_skipped_shorter intro: skip_space_shorter)+

lemma fscanf_shorter: "fscanf fmt f = Some (n, vs, g) \<Longrightarrow> vs \<noteq> [] \<Longrightarrow> length g < length f"
  using fscanf_loop_shorter [of fmt "[]" f n vs g] by (simp add: fscanf_def)

lemma fscanf_router_shorter: "fscanf_router f = Some (Some r, g) \<Longrightarrow> length g < length f"
  by (auto simp: fscanf_router_def split: option.splits if_splits dest!: fscanf_shorter)

text \<open>The routes that the loop of \<open>create_tree_by_file\<close> inserts, in order.\<close>

function read_routes :: "string \<Rightarrow> route_item list option" where
  "read_routes f = (case fscanf_router f of
     None \<Rightarrow> None
   | Some (None, g) \<Rightarrow> Some []
   | Some (Some r, g) \<Rightarrow> map_option ((#) r) (read_routes g))"
  by pat_completeness auto
termination by (relation "measure length") (auto dest: fscanf_router_shorter)

declare read_routes.simps [simp del]

definition naive_tree_by_file :: "string \<Rightarrow> ip_tree option" where
  "naive_tree_by_file f = map_option naive_create_tree (read_routes f)"

definition multi_tree_by_file :: "string \<Rightarrow> ip_tree option" where
  "multi_tree_by_file f = Option.bind (read_routes f) (multi_create_tree (create_node 16 None))"

text \<open>With the routes that are freed.\<close>

definition advance_tree_by_file :: "string \<Rightarrow> (ip_tree \<times> route_item list) option" where
  "advance_tree_by_file f = Option.bind (read_routes f) advance_create_tree"

section \<open>The test\<close>

text \<open>\<open>fprintf (f, "%x\n", ip)\<close>.\<close>

definition hex_digit :: "nat \<Rightarrow> char" where
  "hex_digit d = char_of (if d < 10 then 48 + d else 87 + d)"

fun hexadecimal :: "nat \<Rightarrow> string" where
  "hexadecimal n = (if n < 16 then [hex_digit n] else hexadecimal (n div 16) @ [hex_digit (n mod 16)])"

declare hexadecimal.simps [simp del]

definition hex_line :: "u32 \<Rightarrow> string" where
  "hex_line ip = hexadecimal (unat ip) @ [CHR 0x0A]"

text \<open>One of the two loops: the addresses of the file that have a route. Where the text is no number
  the loop stays for ever: \<open>None\<close>; so is a lookup that returns a freed route.\<close>

function match_loop :: "(u32 \<Rightarrow> route_item option option) \<Rightarrow> string \<Rightarrow> string option" where
  "match_loop lpm f = (case fscanf [Hex] f of
     None \<Rightarrow> None
   | Some (n, vs, g) \<Rightarrow>
       if n = - 1 then Some []
       else if vs = [] then None
       else let ip = word_of_int (hd vs)
            in (case lpm ip of
                  None \<Rightarrow> None
                | Some router_match \<Rightarrow>
                    map_option (\<lambda>out. (if router_match \<noteq> None then hex_line ip else []) @ out) (match_loop lpm g)))"
  by pat_completeness auto
termination by (relation "measure (\<lambda>(lpm, f). length f)") (auto dest: fscanf_shorter)

declare match_loop.simps [simp del]

text \<open>The two outputs of a test whose files all open.\<close>

definition run_test :: "(u32 \<Rightarrow> route_item option option) option \<Rightarrow> string \<Rightarrow> string \<Rightarrow> (string \<times> string) option" where
  "run_test lpm match_i notmatch_i =
     Option.bind lpm (\<lambda>lpm. Option.bind (match_loop lpm match_i) (\<lambda>mo.
       map_option (Pair mo) (match_loop lpm notmatch_i)))"

definition naive_tree_test :: "string \<Rightarrow> string \<Rightarrow> string \<Rightarrow> (string \<times> string) option" where
  "naive_tree_test table match_i notmatch_i =
     run_test (map_option (\<lambda>t ip. Some (naive_longest_prefix_match t ip)) (naive_tree_by_file table)) match_i notmatch_i"

definition multi_tree_test :: "string \<Rightarrow> string \<Rightarrow> string \<Rightarrow> (string \<times> string) option" where
  "multi_tree_test table match_i notmatch_i =
     run_test (map_option (\<lambda>t ip. Some (multi_longest_prefix_match t ip)) (multi_tree_by_file table)) match_i notmatch_i"

definition advance_tree_test :: "string \<Rightarrow> string \<Rightarrow> string \<Rightarrow> (string \<times> string) option" where
  "advance_tree_test table match_i notmatch_i =
     run_test (map_option (\<lambda>(t, freed). advance_longest_prefix_match freed t) (advance_tree_by_file table)) match_i notmatch_i"

section \<open>Numbers and lines read back\<close>

lemma digit_val_dec: "digit_val 10 c = (if 48 \<le> (of_char c :: nat) \<and> of_char c \<le> (57 :: nat) then Some (of_char c - 48) else None)"
  by (auto simp: digit_val_def Let_def)

lemma dec_digit: "d < 10 \<Longrightarrow> digit_val 10 (char_of (48 + d)) = Some d"
  by (simp add: digit_val_dec)

lemma hex_digit_val: "d < 16 \<Longrightarrow> digit_val 16 (hex_digit d) = Some d"
  by (simp add: hex_digit_def digit_val_def Let_def)

lemma number_val_append:
  "\<forall>c \<in> set cs. is_digit_in b c \<Longrightarrow> number_val b acc (cs @ ds) = number_val b (number_val b acc cs) ds"
  by (induction cs arbitrary: acc) (auto simp: is_digit_in_def)

text \<open>A positional notation: the last digit and, before it, the number without it.\<close>

lemma decimal_read: "(\<forall>c \<in> set (decimal n). is_digit_in 10 c) \<and> number_val 10 0 (decimal n) = n \<and> decimal n \<noteq> []"
proof (induction n rule: decimal.induct)
  case (1 n)
  show ?case
  proof (cases "n < 10")
    case True
    then show ?thesis by (subst (1 2 3) decimal.simps) (simp add: is_digit_in_def dec_digit)
  next
    case False
    with 1 have h: "\<forall>c \<in> set (decimal (n div 10)). is_digit_in 10 c" "number_val 10 0 (decimal (n div 10)) = n div 10" by auto
    have d: "decimal n = decimal (n div 10) @ [char_of (48 + n mod 10)]" using False by (subst decimal.simps) simp
    have l: "digit_val 10 (char_of (48 + n mod 10)) = Some (n mod 10)" by (rule dec_digit) simp
    show ?thesis using h l by (simp add: d number_val_append is_digit_in_def)
  qed
qed

lemma hexadecimal_read:
  "(\<forall>c \<in> set (hexadecimal n). is_digit_in 16 c) \<and> number_val 16 0 (hexadecimal n) = n \<and> hexadecimal n \<noteq> []"
proof (induction n rule: hexadecimal.induct)
  case (1 n)
  show ?case
  proof (cases "n < 16")
    case True
    then show ?thesis by (subst (1 2 3) hexadecimal.simps) (simp add: is_digit_in_def hex_digit_val)
  next
    case False
    with 1 have h: "\<forall>c \<in> set (hexadecimal (n div 16)). is_digit_in 16 c" "number_val 16 0 (hexadecimal (n div 16)) = n div 16"
      by auto
    have d: "hexadecimal n = hexadecimal (n div 16) @ [hex_digit (n mod 16)]" using False by (subst hexadecimal.simps) simp
    have l: "digit_val 16 (hex_digit (n mod 16)) = Some (n mod 16)" by (rule hex_digit_val) simp
    show ?thesis using h l by (simp add: d number_val_append is_digit_in_def)
  qed
qed

text \<open>Digits, then something else: they are scanned as a whole.\<close>

definition ends_number :: "nat \<Rightarrow> string \<Rightarrow> bool" where
  "ends_number b s \<longleftrightarrow> s = [] \<or> \<not> is_digit_in b (hd s)"

lemma digit_no_space: "is_digit_in 16 c \<Longrightarrow> \<not> is_space c \<and> c \<noteq> CHR ''-'' \<and> c \<noteq> CHR ''+''"
  by (auto simp: is_digit_in_def digit_val_def is_space_def Let_def split: if_splits)

lemma dec_is_hex: "is_digit_in 10 c \<Longrightarrow> is_digit_in 16 c"
  by (auto simp: is_digit_in_def digit_val_def Let_def split: if_splits)

lemma take_digits:
  "\<forall>c \<in> set ds. is_digit_in b c \<Longrightarrow> ends_number b t \<Longrightarrow> takeWhile (is_digit_in b) (ds @ t) = ds"
  by (cases t) (simp_all add: ends_number_def takeWhile_append)

lemma scan_dec:
  assumes "ends_number 10 t"
  shows "scan_number 10 (decimal n @ t) = Some (int n, t)"
proof -
  have r: "\<forall>c \<in> set (decimal n). is_digit_in 10 c" "number_val 10 0 (decimal n) = n" "decimal n \<noteq> []"
    using decimal_read [of n] by auto
  then obtain c cs where c: "decimal n = c # cs" "is_digit_in 10 c" by (cases "decimal n") auto
  then have "scan_sign (decimal n @ t) = (False, decimal n @ t)"
    using digit_no_space [OF dec_is_hex] by (auto simp: scan_sign_def)
  then show ?thesis using take_digits [OF r(1) assms] r(2,3) by (simp add: scan_number_def Let_def)
qed

lemma scan_hex:
  assumes "ends_number 16 t" "t = [] \<or> hd t \<noteq> CHR ''x'' \<and> hd t \<noteq> CHR ''X''"
  shows "scan_number 16 (hexadecimal n @ t) = Some (int n, t)"
proof -
  have r: "\<forall>c \<in> set (hexadecimal n). is_digit_in 16 c" "number_val 16 0 (hexadecimal n) = n" "hexadecimal n \<noteq> []"
    using hexadecimal_read [of n] by auto
  then obtain c cs where c: "hexadecimal n = c # cs" "is_digit_in 16 c" "\<forall>c \<in> set cs. is_digit_in 16 c"
    by (cases "hexadecimal n") auto
  then have "scan_sign (hexadecimal n @ t) = (False, hexadecimal n @ t)"
    using digit_no_space by (auto simp: scan_sign_def)
  moreover have "\<not> is_digit_in 16 CHR ''x''" "\<not> is_digit_in 16 CHR ''X''"
    by (simp_all add: is_digit_in_def digit_val_def Let_def)
  then have "skip_0x (hexadecimal n @ t) = hexadecimal n @ t"
    using c assms(2) by (cases cs; cases t) (auto simp: skip_0x_def)
  ultimately show ?thesis using take_digits [OF r(1) assms(1)] r(2,3) by (simp add: scan_number_def Let_def)
qed

section \<open>Tables and addresses read back\<close>

lemma octet_back:
  fixes ip :: u32
  shows "get_ip [int (unat (shr32 (0xff000000 AND ip) 24)), int (unat (shr32 (0x00ff0000 AND ip) 16)),
     int (unat (shr32 (0x0000ff00 AND ip) 8)), int (unat (shr32 (0x000000ff AND ip) 0))] = ip"
proof -
  have m: "(0xff000000 :: u32) = push_bit 24 (mask 8)" "(0x00ff0000 :: u32) = push_bit 16 (mask 8)"
    "(0x0000ff00 :: u32) = push_bit 8 (mask 8)" "(0x000000ff :: u32) = mask 8"
    by (simp_all add: mask_eq_exp_minus_1 push_bit_eq_mult)
  show ?thesis unfolding m
    by (rule bit_word_eqI) (auto simp: get_ip_def shr32_def shl32_def bit_simps)
qed

text \<open>The lines of a table, with the address as \<open>get_ip_human\<close> prints it.\<close>

definition route_line :: "route_item \<Rightarrow> string" where
  "route_line r = get_ip_human (ri_ip r) @ '' '' @ decimal (unat (ri_mask_len r)) @ '' '' @ decimal (unat (ri_port r)) @ [CHR 0x0A]"

definition table_text :: "route_item list \<Rightarrow> string" where
  "table_text rs = concat (map route_line rs)"

definition address_text :: "u32 list \<Rightarrow> string" where
  "address_text ips = concat (map hex_line ips)"

lemma skip_space_digits: "is_digit_in 16 c \<Longrightarrow> skip_space (c # cs) = c # cs"
  by (simp add: skip_space_def digit_no_space)

lemma skip_decimal: "skip_space (decimal n @ t) = decimal n @ t \<and> decimal n @ t \<noteq> []"
  using decimal_read [of n] by (cases "decimal n") (auto simp: skip_space_digits dec_is_hex)

lemma skip_hexadecimal: "skip_space (hexadecimal n @ t) = hexadecimal n @ t \<and> hexadecimal n @ t \<noteq> []"
  using hexadecimal_read [of n] by (cases "hexadecimal n") (auto simp: skip_space_digits)

lemma skip_spaces: "\<forall>c \<in> set w. is_space c \<Longrightarrow> skip_space (w @ s) = skip_space s"
  by (simp add: skip_space_def dropWhile_append)

lemma fscanf_dec:
  "n < 2 ^ 31 \<Longrightarrow> ends_number 10 t \<Longrightarrow>
     fscanf_loop (Dec # ds) vs (decimal n @ t) = fscanf_loop ds (vs @ [int n]) t"
  using skip_decimal [of n t] decimal_read [of n] by (simp add: scan_dec fits_def Let_def)

lemma fscanf_after_spaces:
  "\<forall>c \<in> set w. is_space c \<Longrightarrow> fscanf_loop (Dec # ds) vs (w @ s) = fscanf_loop (Dec # ds) vs s"
  by (simp add: skip_spaces)

lemma fscanf_next_spaces:
  "fscanf_loop (Space # Dec # ds) vs (CHR '' '' # s) = fscanf_loop (Dec # ds) vs s"
  by (simp add: skip_space_def is_space_def)

lemma ends_dec: "ends_number 10 (c # cs) = (of_char c < (48 :: nat) \<or> (57 :: nat) < of_char c)"
  by (auto simp: ends_number_def is_digit_in_def digit_val_dec)

lemma octet_small:
  "unat (shr32 (0xff000000 AND ip) 24) < 2 ^ 31" "unat (shr32 (0x00ff0000 AND ip) 16) < 2 ^ 31"
  "unat (shr32 (0x0000ff00 AND ip) 8) < 2 ^ 31" "unat (shr32 (0x000000ff AND ip) 0) < 2 ^ 31"
proof -
  have a: "unat (255 AND x :: u32) < 2147483648" for x
    using word_and_le2 [of 255 x] by (simp add: word_le_nat_alt)
  show "unat (shr32 (0xff000000 AND ip) 24) < 2 ^ 31" "unat (shr32 (0x00ff0000 AND ip) 16) < 2 ^ 31"
    "unat (shr32 (0x0000ff00 AND ip) 8) < 2 ^ 31" "unat (shr32 (0x000000ff AND ip) 0) < 2 ^ 31"
    using a by (simp_all add: shr32_def)
qed

lemma fscanf_route:
  assumes "\<forall>c \<in> set w. is_space c" "unat (ri_mask_len r) < 2 ^ 31" "unat (ri_port r) < 2 ^ 31"
  shows "fscanf_router (w @ route_line r @ t) = Some (Some r, CHR 0x0A # t)"
  by (simp add: fscanf_router_def route_format_def fscanf_after_spaces [OF assms(1)] route_line_def get_ip_human_def
    fscanf_def fscanf_dec fscanf_next_spaces ends_dec octet_small [simplified] octet_back [simplified] assms(2,3) [simplified] del: fscanf_loop.simps(2,4))

lemma no_route: "\<forall>c \<in> set w. is_space c \<Longrightarrow> fscanf_router w = Some (None, [])"
  using skip_spaces [of w "[]"]
  by (simp add: fscanf_router_def route_format_def fscanf_def skip_space_def)

lemma read_table:
  assumes "\<forall>r \<in> set rs. unat (ri_mask_len r) < 2 ^ 31 \<and> unat (ri_port r) < 2 ^ 31" "\<forall>c \<in> set w. is_space c"
  shows "read_routes (w @ table_text rs) = Some rs"
  using assms
proof (induction rs arbitrary: w)
  case Nil
  then show ?case by (subst read_routes.simps) (simp add: no_route table_text_def)
next
  case (Cons r rs)
  have "fscanf_router (w @ table_text (r # rs)) = Some (Some r, [CHR 0x0A] @ table_text rs)"
    using Cons.prems fscanf_route [of w r "table_text rs"] by (simp add: table_text_def)
  moreover have "read_routes ([CHR 0x0A] @ table_text rs) = Some rs"
    using Cons.prems by (intro Cons.IH) (simp_all add: is_space_def)
  ultimately show ?case by (subst read_routes.simps) simp
qed

text \<open>What the test of a file of addresses writes.\<close>

lemma fscanf_hex_line:
  assumes "\<forall>c \<in> set w. is_space c"
  shows "fscanf [Hex] (w @ hex_line ip @ t) = Some (1, [int (unat ip)], CHR 0x0A # t)"
proof -
  have e: "ends_number 16 (CHR 0x0A # t)" by (simp add: ends_number_def is_digit_in_def digit_val_def Let_def)
  have u: "uint ip < 2 ^ 32" using unsigned_less [where w = ip and 'a = int] by simp
  have "- (2 ^ 32) < uint ip" by (rule less_le_trans [of _ 0]) simp_all
  then show ?thesis using u skip_hexadecimal [of "unat ip" "CHR 0x0A # t"] scan_hex [OF e]
    by (simp add: fscanf_def hex_line_def skip_spaces [OF assms] Let_def fits_def)
qed

lemma match_addresses:
  assumes "\<And>ip. lpm ip = Some (look ip)"
  shows "\<forall>c \<in> set w. is_space c \<Longrightarrow>
     match_loop lpm (w @ address_text ips) = Some (address_text (filter (\<lambda>ip. look ip \<noteq> None) ips))"
proof (induction ips arbitrary: w)
  case Nil
  then have "fscanf [Hex] w = Some (- 1, [], [])"
    using skip_spaces [of w "[]"] by (simp add: fscanf_def skip_space_def Let_def)
  then show ?case by (subst match_loop.simps) (simp add: address_text_def)
next
  case (Cons ip ips)
  have "fscanf [Hex] (w @ address_text (ip # ips)) = Some (1, [int (unat ip)], [CHR 0x0A] @ address_text ips)"
    using fscanf_hex_line [OF Cons.prems, of ip "address_text ips"] by (simp add: address_text_def)
  moreover have "match_loop lpm ([CHR 0x0A] @ address_text ips) = Some (address_text (filter (\<lambda>ip. look ip \<noteq> None) ips))"
    by (rule Cons.IH) (simp add: is_space_def)
  ultimately show ?case by (subst match_loop.simps) (simp add: address_text_def assms)
qed

section \<open>The three programs\<close>

lemma naive_scan:
  "\<forall>r \<in> set rs. route_ok r \<Longrightarrow> naive_longest_prefix_match (naive_create_tree rs) = lpm_scan rs"
  using naive.fill_scan by (intro ext) (simp add: naive_create_tree_fold)

lemma multi_scan:
  assumes "\<forall>r \<in> set rs. route_ok r"
  obtains t where "multi_create_tree (create_node 16 None) rs = Some t" "multi_longest_prefix_match t = lpm_scan rs"
  using multi.fill_scan [OF assms] multi_create_tree_fold [OF assms] that by (metis ext)

lemma read_route_table:
  "\<forall>r \<in> set rs. route_ok r \<and> unat (ri_port r) < 2 ^ 31 \<Longrightarrow> read_routes (table_text rs) = Some rs"
  using read_table [of rs "[]"] by (force simp: route_ok_def rlen_def)

lemma run_test_addresses:
  assumes "\<And>ip. lpm ip = Some (look ip)"
  shows "run_test (Some lpm) (address_text mi) (address_text ni) =
     Some (address_text (filter (\<lambda>ip. look ip \<noteq> None) mi), address_text (filter (\<lambda>ip. look ip \<noteq> None) ni))"
  using match_addresses [OF assms, of "[]"] by (simp add: run_test_def)

text \<open>C37. On a table file with a line per route, of length 1 to 32, and two files with a hexadecimal
  address per line, the test programs of \<open>naive.h\<close> and \<open>multi.h\<close> write the addresses of each file, in
  order, that some route of the table matches. The program of \<open>advance.h\<close> writes the same for a
  table in which each route stored in several blocks is the longest match of some address in each of
  them; for others it may use a route after it is freed.\<close>

theorem tree_tests_agree:
  assumes "\<forall>r \<in> set rs. route_ok r \<and> unat (ri_port r) < 2 ^ 31"
  shows "naive_tree_test (table_text rs) (address_text mi) (address_text ni) =
      Some (address_text (filter (\<lambda>ip. \<exists>r \<in> set rs. route_matches r ip) mi),
        address_text (filter (\<lambda>ip. \<exists>r \<in> set rs. route_matches r ip) ni)) \<and>
    multi_tree_test (table_text rs) (address_text mi) (address_text ni) =
      naive_tree_test (table_text rs) (address_text mi) (address_text ni) \<and>
    (pushes_safely rs \<longrightarrow> advance_tree_test (table_text rs) (address_text mi) (address_text ni) =
      naive_tree_test (table_text rs) (address_text mi) (address_text ni))"
proof -
  have ok: "\<forall>r \<in> set rs. route_ok r" using assms by blast
  have rd: "read_routes (table_text rs) = Some rs" by (rule read_route_table [OF assms])
  have m: "(\<lambda>ip. \<exists>r \<in> set rs. route_matches r ip) = (\<lambda>ip. lpm_scan rs ip \<noteq> None)"
    by (simp add: lpm_scan_None_iff)
  let ?out = "Some (address_text (filter (\<lambda>ip. lpm_scan rs ip \<noteq> None) mi), address_text (filter (\<lambda>ip. lpm_scan rs ip \<noteq> None) ni))"
  have naive: "naive_tree_test (table_text rs) (address_text mi) (address_text ni) = ?out"
    unfolding naive_tree_test_def naive_tree_by_file_def rd option.map
    by (rule run_test_addresses) (simp add: naive_scan [OF ok])
  obtain t where t: "multi_create_tree (create_node 16 None) rs = Some t" "multi_longest_prefix_match t = lpm_scan rs"
    using multi_scan [OF ok] by blast
  have multi: "multi_tree_test (table_text rs) (address_text mi) (address_text ni) = ?out"
    unfolding multi_tree_test_def multi_tree_by_file_def rd bind.bind_lunit t(1) option.map
    by (rule run_test_addresses) (simp add: t(2))
  have "advance_tree_test (table_text rs) (address_text mi) (address_text ni) = ?out" if safe: "pushes_safely rs"
  proof -
    obtain u freed where u: "advance_create_tree rs = Some (u, freed)"
      "\<And>ip. advance_longest_prefix_match freed u ip = Some (lpm_scan rs ip)"
      using advance_scan [OF ok safe] by blast
    show ?thesis
      unfolding advance_tree_test_def advance_tree_by_file_def rd bind.bind_lunit u(1) option.map prod.case
      by (rule run_test_addresses [OF u(2)])
  qed
  from impI [OF this] show ?thesis by (simp only: naive multi m simp_thms)
qed

text \<open>A table with a route in two blocks and a longer one in each of them.\<close>

lemma safe_table:
  defines "rs \<equiv> [\<lparr>ri_ip = 0x0a000000, ri_mask_len = 7, ri_port = 1\<rparr>, \<lparr>ri_ip = 0x0a010000, ri_mask_len = 16, ri_port = 2\<rparr>]"
  shows "(\<forall>r \<in> set rs. route_ok r \<and> unat (ri_port r) < 2 ^ 31) \<and> pushes_safely rs"
proof -
  have "shows_at rs r x" if "r \<in> set rs" "\<not> same_block r x y" "stored_at rs r x" "stored_at rs r y" for r x y
  proof (cases "rlen r = 16")
    case True
    then have "same_block r x y" using that
      by (auto simp: rs_def stored_at_def same_block_def multi_level_def rlen_def route_matches_high_part route_ok_def)
    then show ?thesis using that(2) by simp
  next
    case False
    then have r: "rlen r = 7" using that(1) by (auto simp: rs_def rlen_def)
    let ?z = "x AND prefix_mask (int 8)"
    have z: "unat ?z = high_part 8 x * 2 ^ 24" using unat_and_prefix_mask [of 8 x] by simp
    have shift: "n * 2 ^ 24 div 2 ^ 24 = n" "n * 2 ^ 24 div 2 ^ 16 = 256 * n" for n :: nat by simp_all
    have h: "high_part 8 ?z = high_part 8 x" "high_part 16 ?z = 256 * high_part 8 x"
      using shift [of "high_part 8 x"] by (simp_all only: high_part_def [of _ ?z] z) simp_all
    then have "high_part 16 ?z \<noteq> 2561" by presburger
    then have "rlen q \<le> rlen r" if "q \<in> set rs" "route_matches q ?z" for q
      using that r by (auto simp: rs_def rlen_def route_matches_high_part route_ok_def high_part_def [of _ "0x0a010000"])
    moreover have "same_block r ?z x" using h(1) r by (simp add: same_block_def multi_level_def)
    ultimately show ?thesis by (auto simp: shows_at_def)
  qed
  then show ?thesis by (auto simp: pushes_safely_def rs_def route_ok_def rlen_def)
qed

lemma tree_tests_agree_witness:
  "advance_tree_test (table_text [\<lparr>ri_ip = 0x0a000000, ri_mask_len = 7, ri_port = 1\<rparr>, \<lparr>ri_ip = 0x0a010000, ri_mask_len = 16, ri_port = 2\<rparr>])
     (address_text [0x0b010203]) (address_text []) =
   naive_tree_test (table_text [\<lparr>ri_ip = 0x0a000000, ri_mask_len = 7, ri_port = 1\<rparr>, \<lparr>ri_ip = 0x0a010000, ri_mask_len = 16, ri_port = 2\<rparr>])
     (address_text [0x0b010203]) (address_text [])"
  using tree_tests_agree [OF safe_table [THEN conjunct1], of "[0x0b010203]" "[]"] safe_table by blast

text \<open>At text that is no number nothing is read and the end of the file is not reported, so the loops
  of \<open>tree_test\<close> try the same text again without end.\<close>

lemma not_a_number:
  assumes "\<not> is_digit_in 16 c" "\<not> is_space c" "c \<noteq> CHR ''-''" "c \<noteq> CHR ''+''"
  shows "fscanf [Hex] (c # s) = Some (0, [], c # s) \<and> match_loop lpm (c # s) = None"
proof -
  have "c \<noteq> CHR ''0''" using assms(1) by (auto simp: is_digit_in_def digit_val_def Let_def)
  then have "fscanf [Hex] (c # s) = Some (0, [], c # s)" using assms
    by (cases s) (simp_all add: fscanf_def skip_space_def scan_number_def scan_sign_def skip_0x_def Let_def)
  then show ?thesis by (subst match_loop.simps) simp
qed

end
