(* ===== verification/MacTable.thy ===== *)
theory MacTable imports NetPrelude "HOL-Library.Multiset" begin

text \<open>The learning switch of \<open>exp4/code\<close>: the hash functions of \<open>hash.c\<close>, the table from
  stations to ports of \<open>mac.c\<close> and the forwarding of \<open>main.c\<close> and \<open>packet.c\<close>. The table is
  shown to implement a partial map in which the first port learned for a station stays.\<close>

section \<open>Hashes\<close>

function hash8_loop :: "u8 list \<Rightarrow> int \<Rightarrow> u8 \<Rightarrow> u8" where
  "hash8_loop addr len result =
     (if len > 0 then hash8_loop addr (len - 1) (result XOR addr ! nat (len - 1)) else result)"
  by pat_completeness auto
termination by (relation "measure (\<lambda>(addr, len, result). nat len)") auto

definition hash8 :: "u8 list \<Rightarrow> int \<Rightarrow> u8" where
  "hash8 addr len = hash8_loop addr len 0"

function hash16_loop :: "u8 list \<Rightarrow> int \<Rightarrow> u16 \<Rightarrow> int \<times> u16" where
  "hash16_loop addr len result =
     (if len \<ge> 2 then hash16_loop addr (len - 2) (result XOR ucast (addr ! nat (len - 2)))
      else (len, result))"
  by pat_completeness auto
termination by (relation "measure (\<lambda>(addr, len, result). nat len)") auto

definition hash16 :: "u8 list \<Rightarrow> int \<Rightarrow> u16" where
  "hash16 addr len =
     (let (len, result) = hash16_loop addr len 0
      in if len \<noteq> 0 then result XOR ucast (addr ! 0) else result)"

declare hash8_loop.simps [simp del] hash16_loop.simps [simp del]

section \<open>The table\<close>

text \<open>\<open>mac_port_entry_t\<close>; a port is the index of its \<open>iface_info_t\<close>. A chain of the hash
  table is the list of its entries, and the table has \<open>HASH_8BITS\<close> chains.\<close>

record mac_port_entry =
  me_mac :: mac_addr
  me_iface :: nat
  me_visited :: int

type_synonym mac_port_map = "mac_port_entry list list"

definition init_mac_hash_table :: mac_port_map where
  "init_mac_hash_table = replicate 256 []"

definition slot :: "mac_addr \<Rightarrow> nat" where
  "slot mac = unat (hash8 mac 6)"

text \<open>\<open>lookup_port\<close>: the entry found is refreshed.\<close>

fun lookup_chain :: "mac_addr \<Rightarrow> int \<Rightarrow> mac_port_entry list \<Rightarrow> mac_port_entry list \<times> nat option" where
  "lookup_chain mac now [] = ([], None)"
| "lookup_chain mac now (e # es) =
     (if me_mac e = mac then (e \<lparr>me_visited := now\<rparr> # es, Some (me_iface e))
      else let (es', p) = lookup_chain mac now es in (e # es', p))"

definition lookup_port :: "mac_addr \<Rightarrow> int \<Rightarrow> mac_port_map \<Rightarrow> mac_port_map \<times> nat option" where
  "lookup_port mac now tbl =
     (let (es, p) = lookup_chain mac now (tbl ! slot mac) in (tbl[slot mac := es], p))"

text \<open>\<open>insert_mac_port\<close>: an entry of the station only gets a new time; without one, a new
  entry becomes the chain or its tail.\<close>

fun insert_chain :: "mac_addr \<Rightarrow> nat \<Rightarrow> int \<Rightarrow> mac_port_entry list \<Rightarrow> mac_port_entry list" where
  "insert_chain mac iface now [] = [\<lparr>me_mac = mac, me_iface = iface, me_visited = now\<rparr>]"
| "insert_chain mac iface now (e # es) =
     (if me_mac e = mac then e \<lparr>me_visited := now\<rparr> # es
      else e # insert_chain mac iface now es)"

definition insert_mac_port :: "mac_addr \<Rightarrow> nat \<Rightarrow> int \<Rightarrow> mac_port_map \<Rightarrow> mac_port_map" where
  "insert_mac_port mac iface now tbl =
     tbl[slot mac := insert_chain mac iface now (tbl ! slot mac)]"

text \<open>One pass of \<open>sweep_aged_mac_port_entry\<close> at time \<open>now\<close>. The loop keeps \<open>tail\<close> at the last
  entry it did not free; \<open>kept\<close> is the chain up to it.\<close>

fun sweep_chain :: "int \<Rightarrow> mac_port_entry list \<Rightarrow> mac_port_entry list \<Rightarrow> mac_port_entry list" where
  "sweep_chain now kept [] = kept"
| "sweep_chain now kept (e # es) =
     (if now - me_visited e \<ge> 30 then sweep_chain now kept es
      else sweep_chain now (kept @ [e]) es)"

definition sweep_aged_mac_port_entry :: "int \<Rightarrow> mac_port_map \<Rightarrow> mac_port_map" where
  "sweep_aged_mac_port_entry now tbl = map (sweep_chain now []) tbl"

text \<open>\<open>destory_mac_hash_table\<close>: the entries in the order of their \<open>free\<close>: those behind the
  head of a chain, then the head.\<close>

fun destroy_tail :: "mac_port_entry list \<Rightarrow> mac_port_entry list" where
  "destroy_tail [] = []"
| "destroy_tail (t # ts) = t # destroy_tail ts"

fun destroy_chain :: "mac_port_entry list \<Rightarrow> mac_port_entry list" where
  "destroy_chain [] = []"
| "destroy_chain (e # es) = destroy_tail es @ [e]"

definition destory_mac_hash_table :: "mac_port_map \<Rightarrow> mac_port_entry list" where
  "destory_mac_hash_table tbl = concat (map destroy_chain tbl)"

section \<open>Forwarding\<close>

text \<open>The switch: the list of its interfaces and the table. A frame is its bytes; the headers
  are its first twelve.\<close>

record switch =
  sw_ifaces :: "nat list"
  sw_table :: mac_port_map

type_synonym frame = "u8 list"

definition ether_dhost :: "frame \<Rightarrow> mac_addr" where
  "ether_dhost packet = take 6 packet"

definition ether_shost :: "frame \<Rightarrow> mac_addr" where
  "ether_shost packet = take 6 (drop 6 packet)"

definition broadcast_packet :: "nat \<Rightarrow> frame \<Rightarrow> switch \<Rightarrow> (nat \<times> frame) list" where
  "broadcast_packet iface packet sw = [(i, packet). i \<leftarrow> sw_ifaces sw, i \<noteq> iface]"

definition handle_packet :: "nat \<Rightarrow> frame \<Rightarrow> int \<Rightarrow> switch \<Rightarrow> switch \<times> (nat \<times> frame) list" where
  "handle_packet iface packet now sw =
     (let (t1, d_ift) = lookup_port (ether_dhost packet) now (sw_table sw);
          (t2, s_ift) = lookup_port (ether_shost packet) now t1;
          out = (case d_ift of Some d \<Rightarrow> [(d, packet)] | None \<Rightarrow> broadcast_packet iface packet sw);
          t3 = (if s_ift = None then insert_mac_port (ether_shost packet) iface now t2 else t2)
      in (sw \<lparr>sw_table := t3\<rparr>, out))"

section \<open>The table as a partial map\<close>

definition find_entry :: "mac_addr \<Rightarrow> mac_port_entry list \<Rightarrow> mac_port_entry option" where
  "find_entry mac es = find (\<lambda>e. me_mac e = mac) es"

definition port_of :: "mac_port_map \<Rightarrow> mac_addr \<Rightarrow> nat option" where
  "port_of tbl mac = map_option me_iface (find_entry mac (tbl ! slot mac))"

definition table_inv :: "mac_port_map \<Rightarrow> bool" where
  "table_inv tbl \<longleftrightarrow> length tbl = 256 \<and>
     (\<forall>i < 256. distinct (map me_mac (tbl ! i)) \<and> (\<forall>e \<in> set (tbl ! i). slot (me_mac e) = i))"

lemma slot_less [simp]: "slot mac < 256"
  using unsigned_less [of "hash8 mac 6", where 'a = nat] by (simp add: slot_def)

lemma table_inv_length [layout]: "table_inv tbl \<Longrightarrow> length tbl = 256"
  by (simp add: table_inv_def)

lemma lookup_chain_macs [simp]: "map me_mac (fst (lookup_chain mac now es)) = map me_mac es"
  by (induction es) (auto simp: split_beta)

lemma find_lookup_chain:
  "map_option me_iface (find_entry m (fst (lookup_chain mac now es))) =
     map_option me_iface (find_entry m es)"
  by (induction es) (auto simp: find_entry_def split_beta)

lemma snd_lookup_chain: "snd (lookup_chain mac now es) = map_option me_iface (find_entry mac es)"
  by (induction es) (auto simp: find_entry_def split_beta)

lemma set_lookup_chain_macs: "me_mac ` set (fst (lookup_chain mac now es)) = me_mac ` set es"
  by (metis list.set_map lookup_chain_macs)

lemma insert_chain_macs:
  "map me_mac (insert_chain mac iface now es) =
     (if mac \<in> me_mac ` set es then map me_mac es else map me_mac es @ [mac])"
  by (induction es) auto

lemma find_insert_chain:
  "map_option me_iface (find_entry m (insert_chain mac iface now es)) =
     (if m = mac \<and> find_entry mac es = None then Some iface else map_option me_iface (find_entry m es))"
  by (induction es) (auto simp: find_entry_def)

text \<open>The contract of a learning table, and what a history of frames leaves in it.\<close>

locale learning_table =
  fixes inv :: "'t \<Rightarrow> bool"
    and port :: "'t \<Rightarrow> 'm \<Rightarrow> nat option"
    and touch :: "'m \<Rightarrow> int \<Rightarrow> 't \<Rightarrow> 't"
    and learn :: "'m \<Rightarrow> nat \<Rightarrow> int \<Rightarrow> 't \<Rightarrow> 't"
  assumes inv_touch: "inv t \<Longrightarrow> inv (touch m now t)"
    and inv_learn: "inv t \<Longrightarrow> inv (learn m p now t)"
    and port_touch: "inv t \<Longrightarrow> port (touch m now t) m' = port t m'"
    and port_learn: "inv t \<Longrightarrow> port (learn m p now t) m' =
      (if m' = m \<and> port t m = None then Some p else port t m')"
begin

definition see :: "'m \<times> 'm \<times> nat \<times> int \<Rightarrow> 't \<Rightarrow> 't" where
  "see = (\<lambda>(d, s, p, now) t. let t = touch s now (touch d now t)
     in if port t s = None then learn s p now t else t)"

lemma inv_see: "inv t \<Longrightarrow> inv (see f t)"
  by (auto simp: see_def inv_touch inv_learn Let_def split: prod.split)

lemma port_see:
  "inv t \<Longrightarrow> port (see (d, s, p, now) t) m = (if m = s \<and> port t s = None then Some p else port t m)"
  by (simp add: see_def Let_def inv_touch port_touch port_learn)

text \<open>The port of a station is the one it was first seen on.\<close>

lemma port_history:
  "inv t \<Longrightarrow> port (fold see fs t) m =
     (case port t m of Some p \<Rightarrow> Some p
      | None \<Rightarrow> map_option (\<lambda>(d, s, p, now). p) (find (\<lambda>(d, s, p, now). s = m) fs))"
proof (induction fs arbitrary: t)
  case Nil
  then show ?case by (simp split: option.split)
next
  case (Cons f fs)
  obtain d s p now where f: "f = (d, s, p, now)" by (cases f) auto
  show ?case
    using Cons.IH [OF inv_see [OF Cons.prems], of f] port_see [OF Cons.prems]
    by (auto simp: f split: option.split)
qed

end

definition touch_mac :: "mac_addr \<Rightarrow> int \<Rightarrow> mac_port_map \<Rightarrow> mac_port_map" where
  "touch_mac m now tbl = fst (lookup_port m now tbl)"

lemma table_inv_update:
  assumes "table_inv tbl" "distinct (map me_mac es)" "\<forall>m \<in> me_mac ` set es. slot m = i"
  shows "table_inv (tbl[i := es])"
  using assms by (cases "i < 256") (auto simp: table_inv_def nth_list_update list_update_beyond)

lemma table_inv_chain:
  assumes "table_inv tbl"
  shows "distinct (map me_mac (tbl ! slot mac))" "\<forall>m \<in> me_mac ` set (tbl ! slot mac). slot m = slot mac"
  using assms by (auto simp: table_inv_def)

lemma table_inv_touch:
  assumes "table_inv tbl"
  shows "table_inv (touch_mac m now tbl)"
  unfolding touch_mac_def lookup_port_def split_beta Let_def fst_conv
  by (rule table_inv_update [OF assms])
    (use table_inv_chain [OF assms] in \<open>simp_all only: lookup_chain_macs set_lookup_chain_macs\<close>)

lemma insert_chain_mac_set:
  "me_mac ` set (insert_chain mac p now es) = insert mac (me_mac ` set es)"
  by (induction es) auto

lemma table_inv_insert:
  assumes "table_inv tbl"
  shows "table_inv (insert_mac_port m p now tbl)"
  unfolding insert_mac_port_def
proof (rule table_inv_update [OF assms])
  show "distinct (map me_mac (insert_chain m p now (tbl ! slot m)))"
    using table_inv_chain(1) [OF assms, of m] by (simp add: insert_chain_macs)
  show "\<forall>m' \<in> me_mac ` set (insert_chain m p now (tbl ! slot m)). slot m' = slot m"
    using table_inv_chain(2) [OF assms, of m] unfolding insert_chain_mac_set by blast
qed

lemma port_of_update:
  "table_inv tbl \<Longrightarrow> port_of (tbl[slot mac := es]) m =
     (if slot m = slot mac then map_option me_iface (find_entry m es) else port_of tbl m)"
  by (simp add: port_of_def table_inv_length)

lemma port_of_touch: "table_inv tbl \<Longrightarrow> port_of (touch_mac m now tbl) m' = port_of tbl m'"
  by (auto simp: touch_mac_def lookup_port_def split_beta Let_def port_of_update find_lookup_chain)
    (simp add: port_of_def)

lemma port_of_insert:
  "table_inv tbl \<Longrightarrow> port_of (insert_mac_port m p now tbl) m' =
     (if m' = m \<and> port_of tbl m = None then Some p else port_of tbl m')"
  by (auto simp: insert_mac_port_def port_of_update find_insert_chain) (auto simp: port_of_def)

interpretation mac: learning_table table_inv port_of touch_mac insert_mac_port
  by unfold_locales (simp_all add: table_inv_touch table_inv_insert port_of_touch port_of_insert)

lemma lookup_port_eq: "lookup_port m now tbl = (touch_mac m now tbl, port_of tbl m)"
  by (simp add: touch_mac_def lookup_port_def split_beta Let_def port_of_def snd_lookup_chain)

lemma table_inv_init: "table_inv init_mac_hash_table"
  by (simp add: table_inv_def init_mac_hash_table_def)

section \<open>The switch\<close>

lemma handle_packet_see:
  "table_inv (sw_table sw) \<Longrightarrow>
   sw_table (fst (handle_packet iface packet now sw)) =
     mac.see (ether_dhost packet, ether_shost packet, iface, now) (sw_table sw)"
  by (simp add: handle_packet_def lookup_port_eq Let_def mac.see_def port_of_touch table_inv_touch)

lemma handle_packet_out:
  "table_inv (sw_table sw) \<Longrightarrow> snd (handle_packet iface packet now sw) =
     (case port_of (sw_table sw) (ether_dhost packet) of
        Some d \<Rightarrow> [(d, packet)]
      | None \<Rightarrow> map (\<lambda>i. (i, packet)) (filter (\<lambda>i. i \<noteq> iface) (sw_ifaces sw)))"
proof -
  have "concat (map (\<lambda>i. if i \<noteq> iface then [(i, packet)] else []) is) =
      map (\<lambda>i. (i, packet)) (filter (\<lambda>i. i \<noteq> iface) is)" for "is"
    by (induction "is") auto
  then show ?thesis
    by (simp add: handle_packet_def lookup_port_eq Let_def broadcast_packet_def split: option.split)
qed

lemma handle_packet_ifaces [frame]: "sw_ifaces (fst (handle_packet iface packet now sw)) = sw_ifaces sw"
  by (simp add: handle_packet_def Let_def split_beta)

text \<open>C22. Forwarding. A frame whose destination has a learned port is sent there and nowhere
  else; any other frame goes to every interface but the one it came from. The port of the
  source is learned when it was unknown, no other port changes, and the table stays well
  formed.\<close>

theorem handle_packet_forwards:
  assumes "table_inv (sw_table sw)"
  shows "snd (handle_packet iface packet now sw) =
      (case port_of (sw_table sw) (ether_dhost packet) of
         Some d \<Rightarrow> [(d, packet)]
       | None \<Rightarrow> map (\<lambda>i. (i, packet)) (filter (\<lambda>i. i \<noteq> iface) (sw_ifaces sw))) \<and>
    port_of (sw_table (fst (handle_packet iface packet now sw))) m =
      (if m = ether_shost packet \<and> port_of (sw_table sw) m = None then Some iface
       else port_of (sw_table sw) m) \<and>
    table_inv (sw_table (fst (handle_packet iface packet now sw)))"
  unfolding handle_packet_out [OF assms] handle_packet_see [OF assms] mac.port_see [OF assms]
  using mac.inv_see [OF assms] by auto

lemma handle_packet_forwards_witness:
  "snd (handle_packet 1 (replicate 14 0) 5 \<lparr>sw_ifaces = [0, 1, 2], sw_table = init_mac_hash_table\<rparr>) =
     [(0, replicate 14 0), (2, replicate 14 0)]"
proof -
  have "port_of init_mac_hash_table m = None" for m
    by (simp add: port_of_def init_mac_hash_table_def find_entry_def)
  then show ?thesis
    using handle_packet_forwards [of "\<lparr>sw_ifaces = [0, 1, 2], sw_table = init_mac_hash_table\<rparr>" 1
        "replicate 14 0" 5 "[]"]
    by (simp add: table_inv_init)
qed

text \<open>A history of frames, each with its interface and time.\<close>

definition switch_run :: "(nat \<times> frame \<times> int) list \<Rightarrow> switch \<Rightarrow> switch" where
  "switch_run fs sw = fold (\<lambda>(iface, packet, now) sw. fst (handle_packet iface packet now sw)) fs sw"

lemma switch_run_see:
  "table_inv (sw_table sw) \<Longrightarrow>
   sw_table (switch_run fs sw) = fold mac.see
     (map (\<lambda>(iface, packet, now). (ether_dhost packet, ether_shost packet, iface, now)) fs) (sw_table sw)"
  unfolding switch_run_def
  by (induction fs arbitrary: sw) (auto simp: handle_packet_see mac.inv_see split: prod.split)

text \<open>A station keeps the port of its first frame: after any history of frames without a
  sweep, the port of a station is the interface of the first frame it sent, whatever interface
  its later frames came from. A station that moves is not learned again.\<close>

theorem station_keeps_first_port:
  assumes "table_inv (sw_table sw)" "port_of (sw_table sw) m = None"
  shows "port_of (sw_table (switch_run fs sw)) m =
    map_option fst (find (\<lambda>(iface, packet, now). ether_shost packet = m) fs)"
proof -
  have "map_option (\<lambda>(d, s, p, now). p) (find (\<lambda>(d, s, p, now). s = m)
      (map (\<lambda>(iface, packet, now). (ether_dhost packet, ether_shost packet, iface, now)) fs)) =
      map_option fst (find (\<lambda>(iface, packet, now). ether_shost packet = m) fs)" for fs :: "(nat \<times> frame \<times> int) list"
    by (induction fs) (auto split: prod.split)
  then show ?thesis
    using switch_run_see [OF assms(1), of fs] mac.port_history [OF assms(1)] assms(2) by simp
qed

lemma station_keeps_first_port_witness:
  "port_of (sw_table (switch_run [(1, replicate 14 0, 5), (2, replicate 14 0, 6)]
     \<lparr>sw_ifaces = [0, 1, 2], sw_table = init_mac_hash_table\<rparr>)) (replicate 6 0) = Some 1"
proof -
  have "port_of init_mac_hash_table m = None" for m
    by (simp add: port_of_def init_mac_hash_table_def find_entry_def)
  moreover have "ether_shost (replicate 14 0) = replicate 6 0"
    by (simp add: ether_shost_def eval_nat_numeral)
  ultimately show ?thesis
    using station_keeps_first_port [of "\<lparr>sw_ifaces = [0, 1, 2], sw_table = init_mac_hash_table\<rparr>"
        "replicate 6 0" "[(1, replicate 14 0, 5), (2, replicate 14 0, 6)]"]
    by (simp add: table_inv_init)
qed

section \<open>Aging\<close>

lemma sweep_chain_filter:
  "sweep_chain now kept es = kept @ filter (\<lambda>e. now - me_visited e < 30) es"
  by (induction es arbitrary: kept) auto

lemma map_me_mac_filter_distinct:
  "distinct (map me_mac es) \<Longrightarrow> distinct (map me_mac (filter P es))"
  by (induction es) auto

text \<open>A sweep removes exactly the entries that were not used for 30 seconds: every chain
  keeps its younger entries in their order, the table stays well formed, and a station that was
  used within 30 seconds keeps its port.\<close>

theorem sweep_removes_aged:
  assumes "table_inv tbl"
  shows "sweep_aged_mac_port_entry now tbl = map (filter (\<lambda>e. now - me_visited e < 30)) tbl \<and>
    table_inv (sweep_aged_mac_port_entry now tbl) \<and>
    (\<forall>e \<in> set (tbl ! slot m). me_mac e = m \<and> now - me_visited e < 30 \<longrightarrow>
       port_of (sweep_aged_mac_port_entry now tbl) m = Some (me_iface e))"
proof -
  have eq: "sweep_aged_mac_port_entry now tbl = map (filter (\<lambda>e. now - me_visited e < 30)) tbl"
    by (simp add: sweep_aged_mac_port_entry_def sweep_chain_filter)
  have inv: "table_inv (map (filter (\<lambda>e. now - me_visited e < 30)) tbl)"
    using assms by (auto simp: table_inv_def map_me_mac_filter_distinct)
  have "find_entry m (filter (\<lambda>e. now - me_visited e < 30) es) = Some e"
    if "distinct (map me_mac es)" "e \<in> set es" "me_mac e = m" "now - me_visited e < 30" for es e
    using that by (induction es) (auto simp: find_entry_def image_iff)
  then show ?thesis
    unfolding eq using inv table_inv_chain(1) [OF assms] table_inv_length [OF assms]
    by (simp add: port_of_def)
qed

lemma sweep_removes_aged_witness:
  "table_inv (sweep_aged_mac_port_entry 100
     (insert_mac_port (replicate 6 7) 3 80 init_mac_hash_table))"
  using sweep_removes_aged [OF table_inv_insert [OF table_inv_init], of 100 "replicate 6 7" 3 80] by blast

text \<open>Tearing the table down frees each entry once.\<close>

lemma destory_frees_all: "mset (destory_mac_hash_table tbl) = mset (concat tbl)"
proof -
  have "destroy_tail es = es" for es by (induction es) auto
  then have "mset (destroy_chain es) = mset es" for es by (cases es) auto
  then show ?thesis by (induction tbl) (auto simp: destory_mac_hash_table_def)
qed

end
