(* ===== verification/Stp.thy ===== *)
theory Stp imports NetPrelude "HOL-Library.Product_Lexorder" begin

text \<open>The spanning tree protocol of \<open>exp5/code\<close> (\<open>stp.c\<close>, \<open>stp_timer.c\<close>): the state of a
  switch and its ports, the comparison of priority vectors, the handling of configuration
  messages and the hello timer. The theory relates the comparisons to the lexicographic
  order and shows which invariant of the ports every message keeps.\<close>

section \<open>Data\<close>

text \<open>The C ints of the structures are the 32-bit words of their bit patterns. The pointer
  \<open>root_port\<close> is an index into \<open>ports\<close>; every \<open>p->stp\<close> is the one switch.\<close>

record stp_port =
  port_id :: u32
  path_cost :: u32
  designated_root :: u64
  designated_switch :: u64
  designated_port :: u32
  designated_cost :: u32

record stp_timer =
  tm_active :: bool
  tm_time :: int
  tm_timeout :: int

record stp =
  switch_id :: u64
  stp_designated_root :: u64
  root_path_cost :: u32
  root_port :: "nat option"
  hello_timer :: stp_timer
  ports :: "stp_port list"
  port_macs :: "mac_addr list"

text \<open>The packets; the fields of \<open>stp_config\<close> are as they lie in memory, in network order.\<close>

record stp_config =
  c_proto_id :: u16
  c_version :: u8
  c_msg_type :: u8
  c_flags :: u8
  c_root_id :: u64
  c_root_path_cost :: u32
  c_switch_id :: u64
  c_port_id :: u16
  c_msg_age :: u16
  c_max_age :: u16
  c_hello_time :: u16
  c_fwd_delay :: u16

record stp_frame =
  f_dhost :: mac_addr
  f_shost :: mac_addr
  f_ether_type :: u16
  f_dsap :: u8
  f_ssap :: u8
  f_cntl :: u8
  f_msg :: stp_config

definition STP_MAX_AGE :: int where "STP_MAX_AGE = 20000 * 256 div 1000"
definition STP_HELLO_TIME :: int where "STP_HELLO_TIME = 2000 * 256 div 1000"
definition STP_FWD_DELAY :: int where "STP_FWD_DELAY = 15000 * 256 div 1000"

definition eth_stp_addr :: mac_addr where
  "eth_stp_addr = [0x01, 0x80, 0xC2, 0x00, 0x00, 0x01]"

definition htonll :: "u64 \<Rightarrow> u64" where
  "htonll x = push_bit 32 (ucast (htonl (ucast (x AND 0xFFFFFFFF)))) OR
     ucast (htonl (ucast (drop_bit 32 x)))"

definition get_switch_id :: "u64 \<Rightarrow> u64" where
  "get_switch_id i = i AND 0xFFFF"

definition get_port_id :: "u32 \<Rightarrow> u16" where
  "get_port_id i = ucast (i AND 0xFF)"

section \<open>Timers\<close>

definition stp_init_timer :: "int \<Rightarrow> stp_timer" where
  "stp_init_timer timeout = \<lparr>tm_active = False, tm_time = 0, tm_timeout = timeout\<rparr>"

definition stp_start_timer :: "stp_timer \<Rightarrow> int \<Rightarrow> stp_timer" where
  "stp_start_timer timer time = timer \<lparr>tm_active := True, tm_time := time\<rparr>"

definition stp_stop_timer :: "stp_timer \<Rightarrow> stp_timer" where
  "stp_stop_timer timer = timer \<lparr>tm_active := False\<rparr>"

definition stp_check_timer :: "stp_timer \<Rightarrow> int \<Rightarrow> stp_timer \<times> bool" where
  "stp_check_timer timer now =
     (if tm_active timer \<and> now \<ge> tm_time timer + tm_timeout timer
      then (timer \<lparr>tm_active := False\<rparr>, True) else (timer, False))"

section \<open>Sending\<close>

definition stp_is_root_switch :: "stp \<Rightarrow> bool" where
  "stp_is_root_switch s \<longleftrightarrow> stp_designated_root s = switch_id s"

definition stp_port_is_designated :: "stp \<Rightarrow> stp_port \<Rightarrow> bool" where
  "stp_port_is_designated s p \<longleftrightarrow>
     designated_switch p = switch_id s \<and> designated_port p = port_id p"

definition stp_port_state :: "stp \<Rightarrow> stp_port \<Rightarrow> string" where
  "stp_port_state s p =
     (if (case root_port s of None \<Rightarrow> False | Some r \<Rightarrow> port_id p = port_id (ports s ! r)) then ''ROOT''
      else if designated_switch p = switch_id s \<and> designated_port p = port_id p then ''DESIGNATED''
      else ''ALTERNATE'')"

text \<open>\<open>sizeof (struct stp_config)\<close> is 35 bytes, and the length field of the Ethernet header
  counts the LLC header and the message.\<close>

definition stp_port_send_packet :: "stp \<Rightarrow> nat \<Rightarrow> stp_config \<Rightarrow> nat \<times> stp_frame" where
  "stp_port_send_packet s i msg =
     (i, \<lparr>f_dhost = eth_stp_addr, f_shost = port_macs s ! i,
          f_ether_type = htons (word_of_int (14 + 3 + 35 - 14)),
          f_dsap = 0x42, f_ssap = 0x42, f_cntl = 3, f_msg = msg\<rparr>)"

definition stp_config_of :: "stp \<Rightarrow> stp_port \<Rightarrow> stp_config" where
  "stp_config_of s p =
     \<lparr>c_proto_id = htons 0, c_version = 0, c_msg_type = 0, c_flags = 0,
      c_root_id = htonll (stp_designated_root s),
      c_root_path_cost = htonl (root_path_cost s),
      c_switch_id = htonll (switch_id s),
      c_port_id = htons (ucast (port_id p)),
      c_msg_age = htons 0,
      c_max_age = htons (word_of_int STP_MAX_AGE),
      c_hello_time = htons (word_of_int STP_HELLO_TIME),
      c_fwd_delay = htons (word_of_int STP_FWD_DELAY)\<rparr>"

definition stp_port_send_config :: "stp \<Rightarrow> nat \<Rightarrow> (nat \<times> stp_frame) list" where
  "stp_port_send_config s i =
     (if \<not> stp_is_root_switch s \<and> root_port s = None then []
      else [stp_port_send_packet s i (stp_config_of s (ports s ! i))])"

definition stp_send_config :: "stp \<Rightarrow> (nat \<times> stp_frame) list" where
  "stp_send_config s =
     concat (map (\<lambda>i. if stp_port_is_designated s (ports s ! i) then stp_port_send_config s i else [])
       [0..<length (ports s)])"

definition stp_handle_hello_timeout :: "int \<Rightarrow> stp \<Rightarrow> stp \<times> (nat \<times> stp_frame) list" where
  "stp_handle_hello_timeout now s =
     (s \<lparr>hello_timer := stp_start_timer (hello_timer s) now\<rparr>, stp_send_config s)"

text \<open>\<open>stp_timer_run_once\<close>: the timer list holds the hello timer alone. The handler reads the
  clock again, at time \<open>tick\<close>.\<close>

definition stp_timer_run_once :: "int \<Rightarrow> int \<Rightarrow> stp \<Rightarrow> stp \<times> (nat \<times> stp_frame) list" where
  "stp_timer_run_once now tick s =
     (let (timer, fired) = stp_check_timer (hello_timer s) now;
          s = s \<lparr>hello_timer := timer\<rparr>
      in if fired then stp_handle_hello_timeout tick s else (s, []))"

section \<open>Priority vectors\<close>

definition config_cmp_port_port :: "stp_port \<Rightarrow> stp_port \<Rightarrow> int" where
  "config_cmp_port_port p1 p2 =
     (let p1_root = designated_root p1; p2_root = designated_root p2;
          p1_cost = designated_cost p1; p2_cost = designated_cost p2;
          p1_switch = get_switch_id (designated_switch p1); p2_switch = get_switch_id (designated_switch p2);
          p1_port = get_port_id (designated_port p1); p2_port = get_port_id (designated_port p2)
      in if p1_root \<noteq> p2_root then (if p1_root < p2_root then 1 else - 1)
         else if p1_cost \<noteq> p2_cost then (if p1_cost < p2_cost then 1 else - 1)
         else if p1_switch \<noteq> p2_switch then (if p1_switch < p2_switch then 1 else - 1)
         else if p1_port \<noteq> p2_port then (if p1_port < p2_port then 1 else - 1)
         else 0)"

definition config_cmp_port_msg :: "stp_port \<Rightarrow> stp_config \<Rightarrow> int" where
  "config_cmp_port_msg p1 config =
     (let config_root_id = htonll (c_root_id config);
          config_root_path_cost = ntohl (c_root_path_cost config);
          config_switch_id = get_switch_id (htonll (c_switch_id config));
          config_port_id = get_port_id (ucast (ntohs (c_port_id config)));
          p1_root = designated_root p1; p1_cost = designated_cost p1;
          p1_switch = get_switch_id (designated_switch p1);
          p1_port = get_port_id (designated_port p1)
      in if p1_root \<noteq> config_root_id then (if p1_root < config_root_id then 1 else - 1)
         else if p1_cost \<noteq> config_root_path_cost then (if p1_cost < config_root_path_cost then 1 else - 1)
         else if p1_switch \<noteq> config_switch_id then (if p1_switch < config_switch_id then 1 else - 1)
         else if p1_port \<noteq> config_port_id then (if p1_port < config_port_id then 1 else - 1)
         else 0)"

definition config_cmp_port_stp :: "stp_port \<Rightarrow> stp \<Rightarrow> int" where
  "config_cmp_port_stp p1 s =
     (let stp_root_id = stp_designated_root s;
          stp_root_path_cost = root_path_cost s;
          stp_switch_id = get_switch_id (switch_id s);
          stp_port_id = get_port_id (port_id p1);
          p1_root = designated_root p1; p1_cost = designated_cost p1;
          p1_switch = get_switch_id (designated_switch p1);
          p1_port = get_port_id (designated_port p1)
      in if p1_root \<noteq> stp_root_id then (if p1_root < stp_root_id then 1 else - 1)
         else if p1_cost \<noteq> stp_root_path_cost then (if p1_cost < stp_root_path_cost then 1 else - 1)
         else if p1_switch \<noteq> stp_switch_id then (if p1_switch < stp_switch_id then 1 else - 1)
         else if p1_port \<noteq> stp_port_id then (if p1_port < stp_port_id then 1 else - 1)
         else 0)"

definition undesigned_port :: "stp_config \<Rightarrow> stp_port \<Rightarrow> stp_port" where
  "undesigned_port config p =
     p \<lparr>designated_root := htonll (c_root_id config),
        designated_cost := ntohl (c_root_path_cost config),
        designated_switch := htonll (c_switch_id config),
        designated_port := ucast (ntohs (c_port_id config))\<rparr>"

section \<open>Messages\<close>

text \<open>The first loop of \<open>stp_update\<close>: the root port among the ports from index \<open>i\<close> on.\<close>

fun choose_root_port :: "stp \<Rightarrow> nat list \<Rightarrow> nat option \<Rightarrow> nat option" where
  "choose_root_port s [] rp = rp"
| "choose_root_port s (i # is) rp =
     (let better = (case rp of
          Some r \<Rightarrow> \<not> stp_port_is_designated s (ports s ! i) \<and>
                    config_cmp_port_port (ports s ! i) (ports s ! r) > 0
        | None \<Rightarrow> \<not> stp_port_is_designated s (ports s ! i))
      in choose_root_port s is (if better then Some i else rp))"

text \<open>The body of its last loop.\<close>

definition refresh_port :: "stp \<Rightarrow> stp_port \<Rightarrow> stp_port" where
  "refresh_port s p =
     (if stp_port_is_designated s p then
        p \<lparr>designated_root := stp_designated_root s, designated_cost := root_path_cost s\<rparr>
      else if config_cmp_port_stp p s < 0 then
        p \<lparr>designated_root := stp_designated_root s, designated_cost := root_path_cost s,
           designated_switch := switch_id s, designated_port := port_id p\<rparr>
      else p)"

definition stp_update :: "stp \<Rightarrow> stp" where
  "stp_update s =
     (let s = s \<lparr>root_port := choose_root_port s [0..<length (ports s)] None\<rparr>;
          s = (case root_port s of
                 None \<Rightarrow> s \<lparr>stp_designated_root := switch_id s, root_path_cost := 0\<rparr>
               | Some r \<Rightarrow> s \<lparr>stp_designated_root := designated_root (ports s ! r),
                   root_path_cost := designated_cost (ports s ! r) + path_cost (ports s ! r)\<rparr>)
      in s \<lparr>ports := map (refresh_port s) (ports s)\<rparr>)"

definition stp_handle_config_packet ::
    "stp \<Rightarrow> nat \<Rightarrow> stp_config \<Rightarrow> stp \<times> (nat \<times> stp_frame) list" where
  "stp_handle_config_packet s i config =
     (if config_cmp_port_msg (ports s ! i) config < 0 then
        let used_to_be_root = stp_is_root_switch s;
            s = s \<lparr>ports := (ports s)[i := undesigned_port config (ports s ! i)]\<rparr>;
            s = stp_update s;
            s = (if used_to_be_root then s \<lparr>hello_timer := stp_stop_timer (hello_timer s)\<rparr> else s)
        in (s, stp_send_config s)
      else (s, stp_port_send_config s i))"

definition stp_port_handle_packet ::
    "stp \<Rightarrow> nat \<Rightarrow> stp_frame \<Rightarrow> stp \<times> (nat \<times> stp_frame) list" where
  "stp_port_handle_packet s i packet =
     (if c_msg_type (f_msg packet) = 0 then stp_handle_config_packet s i (f_msg packet)
      else (s, []))"

text \<open>\<open>handle_packet\<close> of \<open>main.c\<close>: the size passed to \<open>memcmp\<close> is that of one element of the
  array, so a single byte of the destination is compared.\<close>

definition stp_handle_packet :: "stp \<Rightarrow> nat \<Rightarrow> stp_frame \<Rightarrow> stp \<times> (nat \<times> stp_frame) list" where
  "stp_handle_packet s i packet =
     (if take 1 (f_dhost packet) \<noteq> take 1 eth_stp_addr then (s, [])
      else stp_port_handle_packet s i packet)"

section \<open>Initialisation\<close>

definition stp_port_init :: "stp \<Rightarrow> stp_port \<Rightarrow> stp_port" where
  "stp_port_init s p =
     p \<lparr>designated_root := stp_designated_root s, designated_switch := switch_id s,
        designated_port := port_id p, designated_cost := root_path_cost s\<rparr>"

definition stp_port_new :: "stp \<Rightarrow> nat \<Rightarrow> stp_port" where
  "stp_port_new s nports =
     stp_port_init s \<lparr>port_id = push_bit 8 128 OR (of_nat nports + 1), path_cost = 1,
       designated_root = 0, designated_switch = 0, designated_port = 0, designated_cost = 0\<rparr>"

definition stp_init :: "mac_addr list \<Rightarrow> int \<Rightarrow> stp" where
  "stp_init macs now =
     (let mac = fold (\<lambda>b m. push_bit 8 m + ucast b) (hd macs) (0 :: u64);
          sid = mac OR push_bit 48 32768;
          s = \<lparr>switch_id = sid, stp_designated_root = sid, root_path_cost = 0, root_port = None,
               hello_timer = stp_start_timer (stp_init_timer STP_HELLO_TIME) now,
               ports = [], port_macs = macs\<rparr>
      in s \<lparr>ports := map (stp_port_new s) [0..<length macs]\<rparr>)"

section \<open>The comparisons are lexicographic\<close>

text \<open>A priority vector: root, cost, the low 16 bits of the switch and the low 8 bits of the
  port. A smaller vector is better.\<close>

type_synonym prio = "u64 \<times> u32 \<times> u64 \<times> u16"

definition port_prio :: "stp_port \<Rightarrow> prio" where
  "port_prio p = (designated_root p, designated_cost p, get_switch_id (designated_switch p),
     get_port_id (designated_port p))"

definition own_prio :: "stp \<Rightarrow> stp_port \<Rightarrow> prio" where
  "own_prio s p = (stp_designated_root s, root_path_cost s, get_switch_id (switch_id s),
     get_port_id (port_id p))"

definition msg_prio :: "stp_config \<Rightarrow> prio" where
  "msg_prio c = (htonll (c_root_id c), ntohl (c_root_path_cost c),
     get_switch_id (htonll (c_switch_id c)), get_port_id (ucast (ntohs (c_port_id c))))"

definition cmp_prio :: "prio \<Rightarrow> prio \<Rightarrow> int" where
  "cmp_prio a b = (if a = b then 0 else if a < b then 1 else - 1)"

lemma config_cmp_port_port: "config_cmp_port_port p q = cmp_prio (port_prio p) (port_prio q)"
  by (auto simp: config_cmp_port_port_def Let_def cmp_prio_def port_prio_def less_prod_def')

lemma config_cmp_port_msg: "config_cmp_port_msg p c = cmp_prio (port_prio p) (msg_prio c)"
  by (auto simp: config_cmp_port_msg_def Let_def cmp_prio_def port_prio_def msg_prio_def less_prod_def')

lemma config_cmp_port_stp: "config_cmp_port_stp p s = cmp_prio (port_prio p) (own_prio s p)"
  by (auto simp: config_cmp_port_stp_def Let_def cmp_prio_def port_prio_def own_prio_def less_prod_def')

lemma cmp_prio_pos [simp]: "0 < cmp_prio a b \<longleftrightarrow> a < b"
  by (simp add: cmp_prio_def)

lemma cmp_prio_neg [simp]: "cmp_prio a b < 0 \<longleftrightarrow> b < a"
  by (auto simp: cmp_prio_def)

lemma prio_root_mono: "port_prio p \<le> port_prio q \<Longrightarrow> designated_root p \<le> designated_root q"
  by (auto simp: port_prio_def less_eq_prod_def)

lemma halves_eqI:
  fixes x y :: u64
  assumes "ucast x = (ucast y :: u32)" "ucast (drop_bit 32 x) = (ucast (drop_bit 32 y) :: u32)"
  shows "x = y"
proof (rule bit_word_eqI)
  fix n assume "n < LENGTH(64)"
  then have n: "n < 64" by simp
  show "bit x n \<longleftrightarrow> bit y n"
  proof (cases "n < 32")
    case True
    then show ?thesis using arg_cong [OF assms(1), of "\<lambda>w. bit w n"] by (simp add: bit_simps)
  next
    case False
    then have "n - 32 < 32" using n by simp
    then show ?thesis
      using False arg_cong [OF assms(2), of "\<lambda>w. bit w (n - 32)"] by (simp add: bit_simps)
  qed
qed

lemma htonll_halves:
  "ucast (htonll x) = htonl (ucast (drop_bit 32 x))"
  "ucast (drop_bit 32 (htonll x)) = htonl (ucast x)"
proof -
  have m: "(0xFFFFFFFF :: u64) = mask 32" by (simp add: mask_eq_exp_minus_1)
  have low: "(ucast (x AND 0xFFFFFFFF) :: u32) = ucast x"
    unfolding m by (rule bit_word_eqI) (simp add: bit_simps)
  show "ucast (htonll x) = htonl (ucast (drop_bit 32 x))"
    by (rule bit_word_eqI) (auto simp: htonll_def bit_simps)
  show "ucast (drop_bit 32 (htonll x)) = htonl (ucast x)"
    unfolding htonll_def low
    by (rule bit_word_eqI) (auto simp: bit_simps dest: bit_imp_le_length)
qed

lemma htonll_involutive [simp]: "htonll (htonll x) = x"
  by (rule halves_eqI) (simp_all only: htonll_halves bswap32_involutive)

lemma get_port_id_u16: "get_port_id (ucast (ucast x :: u16)) = get_port_id x"
proof -
  have m: "(0xFF :: u32) = mask 8" by (simp add: mask_eq_exp_minus_1)
  show ?thesis unfolding get_port_id_def m by (rule bit_word_eqI) (auto simp: bit_simps)
qed

lemma msg_prio_config_of: "msg_prio (stp_config_of s p) = own_prio s p"
  by (simp add: msg_prio_def stp_config_of_def own_prio_def get_port_id_u16)

section \<open>The invariant of the ports\<close>

text \<open>All ports agree with the switch on the root. A designated port carries the cost of the
  switch, any other is at least as good as the vector that the switch would send on it. The
  root port is the best of the ports that are not designated; without one the switch is the
  root.\<close>

definition root_port_inv :: "stp \<Rightarrow> bool" where
  "root_port_inv s \<longleftrightarrow> (case root_port s of
     None \<Rightarrow> (\<forall>p \<in> set (ports s). stp_port_is_designated s p) \<and>
       stp_designated_root s = switch_id s \<and> root_path_cost s = 0
   | Some r \<Rightarrow> r < length (ports s) \<and> \<not> stp_port_is_designated s (ports s ! r) \<and>
       stp_designated_root s = designated_root (ports s ! r) \<and>
       root_path_cost s = designated_cost (ports s ! r) + 1 \<and>
       (\<forall>p \<in> set (ports s). \<not> stp_port_is_designated s p \<longrightarrow> port_prio (ports s ! r) \<le> port_prio p))"

definition stp_inv :: "stp \<Rightarrow> bool" where
  "stp_inv s \<longleftrightarrow>
     (\<forall>p \<in> set (ports s). path_cost p = 1 \<and> designated_root p = stp_designated_root s \<and>
        (if stp_port_is_designated s p then designated_cost p = root_path_cost s
         else port_prio p \<le> own_prio s p \<and> designated_cost p < 0xFFFFFFFF)) \<and>
     root_port_inv s"

text \<open>A message whose cost the switch can add one to.\<close>

definition msg_ok :: "stp_config \<Rightarrow> bool" where
  "msg_ok c \<longleftrightarrow> ntohl (c_root_path_cost c) < 0xFFFFFFFF"

definition nondesignated :: "stp \<Rightarrow> nat set" where
  "nondesignated s = {i. i < length (ports s) \<and> \<not> stp_port_is_designated s (ports s ! i)}"

lemma choose_root_port:
  "set is \<subseteq> {..<length (ports s)} \<Longrightarrow> (\<And>r. rp = Some r \<Longrightarrow> r \<in> nondesignated s) \<Longrightarrow>
   (case choose_root_port s is rp of
      None \<Rightarrow> rp = None \<and> set is \<inter> nondesignated s = {}
    | Some r \<Rightarrow> r \<in> nondesignated s \<and> (\<forall>q. rp = Some q \<longrightarrow> port_prio (ports s ! r) \<le> port_prio (ports s ! q)) \<and>
        (\<forall>i \<in> set is \<inter> nondesignated s. port_prio (ports s ! r) \<le> port_prio (ports s ! i)))"
proof (induction "is" arbitrary: rp)
  case Nil
  then show ?case by (auto split: option.split)
next
  case (Cons i "is")
  define better where "better = (case rp of
      Some r \<Rightarrow> \<not> stp_port_is_designated s (ports s ! i) \<and> config_cmp_port_port (ports s ! i) (ports s ! r) > 0
    | None \<Rightarrow> \<not> stp_port_is_designated s (ports s ! i))"
  define rp' where "rp' = (if better then Some i else rp)"
  have step: "choose_root_port s (i # is) rp = choose_root_port s is rp'"
    by (simp add: better_def rp'_def Let_def cong: option.case_cong)
  have i: "i < length (ports s)" "set is \<subseteq> {..<length (ports s)}" using Cons.prems(1) by auto
  have rp': "r \<in> nondesignated s" if "rp' = Some r" for r
    using that Cons.prems(2) i by (auto simp: rp'_def better_def nondesignated_def split: if_splits option.splits)
  have le: "\<exists>r. rp' = Some r \<and> port_prio (ports s ! r) \<le> port_prio (ports s ! q)"
    if "rp = Some q \<or> q = i \<and> i \<in> nondesignated s" for q
    using that by (auto simp: rp'_def better_def config_cmp_port_port nondesignated_def not_less
        split: option.splits)
  note IH = Cons.IH [OF i(2), of rp', OF rp', folded step]
  show ?case
  proof (cases "choose_root_port s (i # is) rp")
    case None
    then have "rp' = None" "set is \<inter> nondesignated s = {}"
      using IH by (simp_all del: choose_root_port.simps)
    then have "rp = None" "i \<notin> nondesignated s" using le by (cases rp; fastforce)+
    then show ?thesis using None \<open>set is \<inter> nondesignated s = {}\<close>
      by (simp del: choose_root_port.simps)
  next
    case (Some r)
    have r: "r \<in> nondesignated s"
      and old: "\<And>q. rp' = Some q \<Longrightarrow> port_prio (ports s ! r) \<le> port_prio (ports s ! q)"
      and new: "\<And>j. j \<in> set is \<inter> nondesignated s \<Longrightarrow> port_prio (ports s ! r) \<le> port_prio (ports s ! j)"
      using IH Some by (auto simp del: choose_root_port.simps)
    have "port_prio (ports s ! r) \<le> port_prio (ports s ! q)"
      if "rp = Some q \<or> q = i \<and> i \<in> nondesignated s" for q
      using le [OF that] old by (blast intro: order_trans)
    then show ?thesis using Some r new by (auto simp del: choose_root_port.simps)
  qed
qed

text \<open>\<open>stp_update\<close> in two steps: the switch's own vector, then the ports.\<close>

definition stp_elect :: "stp \<Rightarrow> stp" where
  "stp_elect s =
     (case choose_root_port s [0..<length (ports s)] None of
        None \<Rightarrow> s \<lparr>root_port := None, stp_designated_root := switch_id s, root_path_cost := 0\<rparr>
      | Some r \<Rightarrow> s \<lparr>root_port := Some r, stp_designated_root := designated_root (ports s ! r),
          root_path_cost := designated_cost (ports s ! r) + path_cost (ports s ! r)\<rparr>)"

lemma stp_update_elect:
  "stp_update s = stp_elect s \<lparr>ports := map (refresh_port (stp_elect s)) (ports (stp_elect s))\<rparr>"
  by (simp add: stp_update_def stp_elect_def Let_def split: option.split)

lemma stp_elect_frame [frame]:
  "ports (stp_elect s) = ports s" "switch_id (stp_elect s) = switch_id s"
  by (auto simp: stp_elect_def split: option.split)

lemma designated_cong:
  "switch_id s = switch_id s' \<Longrightarrow> stp_port_is_designated s p = stp_port_is_designated s' p"
  by (simp add: stp_port_is_designated_def)

lemma elect_designated [simp]: "stp_port_is_designated (stp_elect s) p = stp_port_is_designated s p"
  by (rule designated_cong) (simp add: frame)

lemma stp_elect_cases:
  obtains (root) "root_port (stp_elect s) = None" "nondesignated s = {}"
      "stp_designated_root (stp_elect s) = switch_id s" "root_path_cost (stp_elect s) = 0"
  | (port) r where "root_port (stp_elect s) = Some r" "r \<in> nondesignated s"
      "stp_designated_root (stp_elect s) = designated_root (ports s ! r)"
      "root_path_cost (stp_elect s) = designated_cost (ports s ! r) + path_cost (ports s ! r)"
      "\<And>i. i \<in> nondesignated s \<Longrightarrow> port_prio (ports s ! r) \<le> port_prio (ports s ! i)"
proof -
  have all: "set [0..<length (ports s)] \<inter> nondesignated s = nondesignated s"
    by (auto simp: nondesignated_def)
  have *: "set [0..<length (ports s)] \<subseteq> {..<length (ports s)}" by auto
  note sel = choose_root_port [OF *, of None, unfolded all]
  show thesis
  proof (cases "choose_root_port s [0..<length (ports s)] None")
    case None
    show thesis by (rule root) (use sel None in \<open>simp_all add: stp_elect_def\<close>)
  next
    case (Some r)
    show thesis by (rule port [of r]) (use sel Some in \<open>simp_all add: stp_elect_def\<close>)
  qed
qed

text \<open>What a refresh does to a port: a designated port takes the root and the cost of the
  switch; another one does so, and becomes designated, when it is worse.\<close>

lemma refresh_port_frame [frame]:
  "path_cost (refresh_port s p) = path_cost p" "port_id (refresh_port s p) = port_id p"
  by (simp_all add: refresh_port_def)

lemma refresh_designated:
  "stp_port_is_designated s (refresh_port s p) \<Longrightarrow>
     designated_root (refresh_port s p) = stp_designated_root s \<and>
     designated_cost (refresh_port s p) = root_path_cost s"
  by (auto simp: refresh_port_def stp_port_is_designated_def split: if_splits)

lemma refresh_nondesignated:
  "\<not> stp_port_is_designated s (refresh_port s p) \<Longrightarrow>
     refresh_port s p = p \<and> \<not> stp_port_is_designated s p \<and> port_prio p \<le> own_prio s p"
  by (auto simp: refresh_port_def stp_port_is_designated_def config_cmp_port_stp split: if_splits)

lemma refresh_keeps_better:
  "\<not> stp_port_is_designated s p \<Longrightarrow> port_prio p \<le> own_prio s p \<Longrightarrow> refresh_port s p = p"
  by (auto simp: refresh_port_def config_cmp_port_stp)

text \<open>An update establishes the invariant, whatever the ports hold, as long as the costs of the
  ports that are not designated stay below the largest \<open>int\<close>.\<close>

definition costs_ok :: "stp \<Rightarrow> bool" where
  "costs_ok s \<longleftrightarrow> (\<forall>p \<in> set (ports s). path_cost p = 1 \<and>
     (\<not> stp_port_is_designated s p \<longrightarrow> designated_cost p < 0xFFFFFFFF))"

lemma stp_update_inv:
  assumes "costs_ok s"
  shows "stp_inv (stp_update s)"
proof -
  let ?e = "stp_elect s" and ?u = "stp_update s"
  have u: "ports ?u = map (refresh_port ?e) (ports s)" "root_port ?u = root_port ?e"
    "stp_designated_root ?u = stp_designated_root ?e" "root_path_cost ?u = root_path_cost ?e"
    "switch_id ?u = switch_id s"
    by (simp_all add: stp_update_elect frame)
  have des: "stp_port_is_designated ?u p = stp_port_is_designated ?e p" for p
    by (rule designated_cong) (simp add: u frame)
  have own: "own_prio ?u p = own_prio ?e p" for p
    by (simp add: own_prio_def u frame)
  have nd: "refresh_port ?e p = p \<and> \<not> stp_port_is_designated s p \<and> port_prio p \<le> own_prio ?e p"
    if "\<not> stp_port_is_designated ?e (refresh_port ?e p)" for p
    using refresh_nondesignated [OF that] by simp
  have agree: "designated_root p = stp_designated_root ?e"
    if "p \<in> set (ports s)" "\<not> stp_port_is_designated s p" "port_prio p \<le> own_prio ?e p" for p
  proof -
    note p = that
    have "designated_root p \<le> stp_designated_root ?e"
      using p(3) by (auto simp: port_prio_def own_prio_def less_eq_prod_def)
    moreover have "stp_designated_root ?e \<le> designated_root p"
    proof (rule stp_elect_cases [of s])
      assume "nondesignated s = {}"
      then show ?thesis using p by (auto simp: nondesignated_def in_set_conv_nth)
    next
      fix r assume r: "stp_designated_root ?e = designated_root (ports s ! r)"
        "\<And>i. i \<in> nondesignated s \<Longrightarrow> port_prio (ports s ! r) \<le> port_prio (ports s ! i)"
      obtain i where "i \<in> nondesignated s" "p = ports s ! i"
        using p by (auto simp: nondesignated_def in_set_conv_nth)
      then show ?thesis using r prio_root_mono by auto
    qed
    ultimately show ?thesis by simp
  qed
  have ports: "\<forall>p \<in> set (ports ?u). path_cost p = 1 \<and> designated_root p = stp_designated_root ?u \<and>
      (if stp_port_is_designated ?u p then designated_cost p = root_path_cost ?u
       else port_prio p \<le> own_prio ?u p \<and> designated_cost p < 0xFFFFFFFF)"
    (is "\<forall>p \<in> _. ?P p")
  proof
    fix p assume "p \<in> set (ports ?u)"
    then obtain q where q: "q \<in> set (ports s)" "p = refresh_port ?e q" by (auto simp: u)
    show "?P p"
    proof (cases "stp_port_is_designated ?e p")
      case True
      then show ?thesis
        using refresh_designated [of ?e q] q assms by (simp add: des u frame costs_ok_def)
    next
      case False
      then show ?thesis
        using nd [of q] q agree [of q] assms by (simp add: des own u frame costs_ok_def)
    qed
  qed
  have "root_port_inv ?u"
  proof (rule stp_elect_cases [of s])
    assume *: "root_port ?e = None" "nondesignated s = {}" "stp_designated_root ?e = switch_id s"
      "root_path_cost ?e = 0"
    have "stp_port_is_designated ?u p" if "p \<in> set (ports ?u)" for p
    proof -
      obtain q where q: "q \<in> set (ports s)" "p = refresh_port ?e q" using \<open>p \<in> _\<close> by (auto simp: u)
      have "stp_port_is_designated s q" using * q by (auto simp: nondesignated_def in_set_conv_nth)
      then show ?thesis using nd [of q] q by (auto simp: des)
    qed
    then show ?thesis using * by (simp add: root_port_inv_def u)
  next
    fix r assume *: "root_port ?e = Some r" "r \<in> nondesignated s"
      "stp_designated_root ?e = designated_root (ports s ! r)"
      "root_path_cost ?e = designated_cost (ports s ! r) + path_cost (ports s ! r)"
      "\<And>i. i \<in> nondesignated s \<Longrightarrow> port_prio (ports s ! r) \<le> port_prio (ports s ! i)"
    let ?r = "ports s ! r"
    have r: "r < length (ports s)" "\<not> stp_port_is_designated s ?r" using * by (simp_all add: nondesignated_def)
    have c: "path_cost ?r = 1" "designated_cost ?r < 0xFFFFFFFF" using assms r by (simp_all add: costs_ok_def)
    have "unat (designated_cost ?r) + unat (1 :: u32) < 2 ^ LENGTH(32)"
      using c(2) by (simp add: word_less_nat_alt)
    then have "unat (designated_cost ?r + 1) = unat (designated_cost ?r) + 1"
      unfolding unat_add_lem by simp
    then have "designated_cost ?r < root_path_cost ?e"
      unfolding *(4) c(1) by (simp add: word_less_nat_alt)
    then have "port_prio ?r \<le> own_prio ?e ?r"
      by (simp add: port_prio_def own_prio_def less_eq_prod_def *(3))
    then have keep: "refresh_port ?e ?r = ?r" by (intro refresh_keeps_better) (simp add: r)
    have "port_prio ?r \<le> port_prio p" if "p \<in> set (ports ?u)" "\<not> stp_port_is_designated ?u p" for p
    proof -
      obtain i where i: "i < length (ports s)" "p = refresh_port ?e (ports s ! i)"
        using \<open>p \<in> _\<close> by (auto simp: u in_set_conv_nth)
      then have "p = ports s ! i" "i \<in> nondesignated s"
        using nd [of "ports s ! i"] that(2) by (auto simp: des nondesignated_def)
      then show ?thesis using *(5) by simp
    qed
    moreover have "ports ?u ! r = ?r" using r keep by (simp add: u)
    ultimately show ?thesis using * r c by (simp add: root_port_inv_def u des)
  qed
  then show ?thesis using ports by (simp add: stp_inv_def)
qed

section \<open>Runs of a switch\<close>

lemma stp_inv_timer [simp]: "stp_inv (s \<lparr>hello_timer := t\<rparr>) = stp_inv s"
proof -
  have "stp_port_is_designated (s \<lparr>hello_timer := t\<rparr>) p = stp_port_is_designated s p" for p
    by (rule designated_cong) simp
  moreover have "own_prio (s \<lparr>hello_timer := t\<rparr>) p = own_prio s p" for p
    by (simp add: own_prio_def)
  ultimately show ?thesis by (simp add: stp_inv_def root_port_inv_def cong: option.case_cong)
qed

lemma costs_ok_message:
  assumes "stp_inv s" "msg_ok c"
  shows "costs_ok (s \<lparr>ports := (ports s)[i := undesigned_port c (ports s ! i)]\<rparr>)"
proof (cases "i < length (ports s)")
  case True
  let ?s = "s \<lparr>ports := (ports s)[i := undesigned_port c (ports s ! i)]\<rparr>"
  have des: "stp_port_is_designated ?s p = stp_port_is_designated s p" for p
    by (rule designated_cong) simp
  have "path_cost p = 1 \<and> (\<not> stp_port_is_designated s p \<longrightarrow> designated_cost p < 0xFFFFFFFF)"
    if "p \<in> set (ports ?s)" for p
  proof -
    have "p = undesigned_port c (ports s ! i) \<or> p \<in> set (ports s)"
      using \<open>p \<in> _\<close> by (auto dest: set_update_subset_insert [THEN subsetD])
    then show ?thesis
      using assms True by (auto simp: undesigned_port_def msg_ok_def stp_inv_def split: if_splits)
  qed
  then show ?thesis unfolding costs_ok_def des by blast
next
  case False
  then show ?thesis
    using assms by (auto simp: list_update_beyond costs_ok_def stp_inv_def split: if_splits)
qed

lemma stp_handle_config_inv:
  "stp_inv s \<Longrightarrow> msg_ok c \<Longrightarrow> stp_inv (fst (stp_handle_config_packet s i c))"
  by (simp add: stp_handle_config_packet_def Let_def stp_update_inv costs_ok_message)

lemma stp_timer_inv: "stp_inv (fst (stp_timer_run_once now tick s)) = stp_inv s"
  by (simp add: stp_timer_run_once_def stp_handle_hello_timeout_def Let_def split_beta)

lemma stp_init_inv: "stp_inv (stp_init macs now)"
  by (auto simp: stp_init_def Let_def stp_inv_def root_port_inv_def stp_port_new_def stp_port_init_def
      stp_port_is_designated_def)

text \<open>The states a switch can be in after any configuration messages on its ports, as long as their
  cost is not the largest number of 32 bits, to which the switch cannot add one, and any timer
  ticks.\<close>

inductive stp_reachable :: "mac_addr list \<Rightarrow> int \<Rightarrow> stp \<Rightarrow> bool" for macs now where
  start: "stp_reachable macs now (stp_init macs now)"
| config: "stp_reachable macs now s \<Longrightarrow> i < length (ports s) \<Longrightarrow> msg_ok (f_msg f) \<Longrightarrow>
    stp_reachable macs now (fst (stp_handle_packet s i f))"
| tick: "stp_reachable macs now s \<Longrightarrow> stp_reachable macs now (fst (stp_timer_run_once t t' s))"

lemma stp_reachable_inv: "stp_reachable macs now s \<Longrightarrow> stp_inv s"
  by (induction rule: stp_reachable.induct)
    (auto simp: stp_init_inv stp_timer_inv stp_handle_config_inv stp_handle_packet_def
      stp_port_handle_packet_def)

text \<open>C13. In every state a switch reaches by timer ticks and messages with a cost below \<open>0xFFFFFFFF\<close>,
  all its ports agree with it on the root; a designated port carries the root path cost of the
  switch and every other port knows a vector at least as good as the one the switch would send on it. With no root port the switch is the
  root at cost 0 and all its ports are designated; otherwise the root port is a best one among
  those not designated, and the switch's cost is that port's cost plus one.\<close>

theorem stp_ports_consistent:
  assumes "stp_reachable macs now s" "p \<in> set (ports s)"
  shows "designated_root p = stp_designated_root s \<and>
    (if stp_port_is_designated s p then designated_cost p = root_path_cost s
     else port_prio p \<le> own_prio s p) \<and>
    (case root_port s of
       None \<Rightarrow> stp_port_is_designated s p \<and> stp_is_root_switch s \<and> root_path_cost s = 0
     | Some r \<Rightarrow> r < length (ports s) \<and> \<not> stp_port_is_designated s (ports s ! r) \<and>
         root_path_cost s = designated_cost (ports s ! r) + 1 \<and>
         (\<not> stp_port_is_designated s p \<longrightarrow> port_prio (ports s ! r) \<le> port_prio p))"
proof -
  have inv: "stp_inv s" using stp_reachable_inv [OF assms(1)] .
  then have "root_port_inv s" by (simp add: stp_inv_def)
  moreover have "designated_root p = stp_designated_root s \<and>
      (if stp_port_is_designated s p then designated_cost p = root_path_cost s
       else port_prio p \<le> own_prio s p)"
    using inv assms(2) by (simp add: stp_inv_def)
  ultimately show ?thesis
    using assms(2)
    by (cases "root_port s") (simp_all add: root_port_inv_def stp_is_root_switch_def)
qed

text \<open>A configuration message of another switch never raises the root that this switch
  believes in.\<close>

theorem stp_root_never_rises:
  assumes "stp_reachable macs now s" "i < length (ports s)" "msg_ok c"
    and "htonll (c_switch_id c) \<noteq> switch_id s"
  shows "stp_designated_root (fst (stp_handle_config_packet s i c)) \<le> stp_designated_root s"
proof (cases "config_cmp_port_msg (ports s ! i) c < 0")
  case False
  then show ?thesis by (simp add: stp_handle_config_packet_def)
next
  case True
  let ?s = "s \<lparr>ports := (ports s)[i := undesigned_port c (ports s ! i)]\<rparr>"
  have inv: "stp_inv s" using stp_reachable_inv [OF assms(1)] .
  have old: "designated_root (ports s ! i) = stp_designated_root s"
    using inv assms(2) by (simp add: stp_inv_def)
  have better: "htonll (c_root_id c) \<le> designated_root (ports s ! i)"
    using True by (auto simp: config_cmp_port_msg msg_prio_def port_prio_def less_prod_def)
  have i: "i \<in> nondesignated ?s"
    using assms(2,4) by (simp add: nondesignated_def stp_port_is_designated_def undesigned_port_def)
  have "stp_designated_root (stp_elect ?s) \<le> htonll (c_root_id c)"
  proof (rule stp_elect_cases [of ?s])
    assume "nondesignated ?s = {}"
    then show ?thesis using i by simp
  next
    fix r assume r: "stp_designated_root (stp_elect ?s) = designated_root (ports ?s ! r)"
      "\<And>i. i \<in> nondesignated ?s \<Longrightarrow> port_prio (ports ?s ! r) \<le> port_prio (ports ?s ! i)"
    have "designated_root (ports ?s ! r) \<le> designated_root (ports ?s ! i)"
      using prio_root_mono [OF r(2) [OF i]] .
    then show ?thesis using r(1) assms(2) by (simp add: undesigned_port_def)
  qed
  moreover have "stp_designated_root (fst (stp_handle_config_packet s i c)) =
      stp_designated_root (stp_elect ?s)"
    using True by (simp add: stp_handle_config_packet_def Let_def stp_update_elect)
  ultimately show ?thesis using better old by simp
qed

text \<open>A message carries the sender's vector: the receiver's comparison with a message that
  a switch \<open>t\<close> sends on its port \<open>q\<close> is the lexicographic comparison of the port's vector with
  the root, the cost, the low 16 bits of the switch and the low 8 bits of the port of the
  sender.\<close>

theorem config_message_comparison:
  "config_cmp_port_msg p (stp_config_of t q) =
     (let a = (designated_root p, designated_cost p, designated_switch p AND 0xFFFF,
               get_port_id (designated_port p));
          b = (stp_designated_root t, root_path_cost t, switch_id t AND 0xFFFF, get_port_id (port_id q))
      in if a = b then 0 else if a < b then 1 else - 1)"
  by (simp only: config_cmp_port_msg msg_prio_config_of cmp_prio_def port_prio_def own_prio_def
      get_switch_id_def Let_def)

text \<open>A root switch whose two ports are on one segment: its first state, the message of its
  first port, and the state after its second port has heard it.\<close>

definition loop_start :: stp where
  "loop_start = \<lparr>switch_id = 9223372036854775809, stp_designated_root = 9223372036854775809,
     root_path_cost = 0, root_port = None,
     hello_timer = \<lparr>tm_active = True, tm_time = 0, tm_timeout = 512\<rparr>,
     ports =
       [\<lparr>port_id = 32769, path_cost = 1, designated_root = 9223372036854775809, designated_switch = 9223372036854775809, designated_port = 32769, designated_cost = 0\<rparr>,
        \<lparr>port_id = 32770, path_cost = 1, designated_root = 9223372036854775809, designated_switch = 9223372036854775809, designated_port = 32770, designated_cost = 0\<rparr>],
     port_macs = [[0, 0, 0, 0, 0, 1], [0, 0, 0, 0, 0, 2]]\<rparr>"

definition loop_frame :: stp_frame where
  "loop_frame = \<lparr>f_dhost = [1, 128, 194, 0, 0, 1], f_shost = [0, 0, 0, 0, 0, 1],
     f_ether_type = 9728, f_dsap = 66, f_ssap = 66, f_cntl = 3,
     f_msg = \<lparr>c_proto_id = 0, c_version = 0, c_msg_type = 0, c_flags = 0,
       c_root_id = 72057594037928064, c_root_path_cost = 0, c_switch_id = 72057594037928064,
       c_port_id = 384, c_msg_age = 0, c_max_age = 20, c_hello_time = 2, c_fwd_delay = 15\<rparr>\<rparr>"

definition loop_end :: stp where
  "loop_end = \<lparr>switch_id = 9223372036854775809, stp_designated_root = 9223372036854775809,
     root_path_cost = 1, root_port = Some 1,
     hello_timer = \<lparr>tm_active = False, tm_time = 0, tm_timeout = 512\<rparr>,
     ports =
       [\<lparr>port_id = 32769, path_cost = 1, designated_root = 9223372036854775809, designated_switch = 9223372036854775809, designated_port = 32769, designated_cost = 1\<rparr>,
        \<lparr>port_id = 32770, path_cost = 1, designated_root = 9223372036854775809, designated_switch = 9223372036854775809, designated_port = 32769, designated_cost = 0\<rparr>],
     port_macs = [[0, 0, 0, 0, 0, 1], [0, 0, 0, 0, 0, 2]]\<rparr>"

lemma loop_start_init: "stp_init [[0, 0, 0, 0, 0, 1], [0, 0, 0, 0, 0, 2]] 0 = loop_start"
  by code_simp

lemma loop_frame_sent: "stp_port_send_config loop_start 0 = [(0, loop_frame)]"
  by code_simp

lemma loop_frame_first: "hd (stp_send_config loop_start) = (0, loop_frame)"
proof -
  have "[0..<length (ports loop_start)] = [0, 1]" "stp_port_is_designated loop_start (ports loop_start ! 0)"
    by (simp_all add: loop_start_def stp_port_is_designated_def)
  then show ?thesis by (simp add: stp_send_config_def loop_frame_sent)
qed

lemma loop_frame_better: "config_cmp_port_msg (ports loop_start ! 1) (f_msg loop_frame) < 0"
  by code_simp

lemma loop_frame_port:
  "undesigned_port (f_msg loop_frame) (ports loop_start ! 1) = ports loop_end ! 1"
  by code_simp

lemma loop_update:
  "stp_update (loop_start \<lparr>ports := [ports loop_start ! 0, ports loop_end ! 1]\<rparr>) =
     loop_end \<lparr>hello_timer := hello_timer loop_start\<rparr>"
  by code_simp

lemma loop_step: "fst (stp_handle_packet loop_start 1 loop_frame) = loop_end"
proof -
  have "(ports loop_start)[1 := p] = [ports loop_start ! 0, p]" for p
    by (simp add: loop_start_def)
  moreover have "stp_is_root_switch loop_start" by (simp add: loop_start_def stp_is_root_switch_def)
  moreover have "take 1 (f_dhost loop_frame) = take 1 eth_stp_addr" "c_msg_type (f_msg loop_frame) = 0"
    by (simp_all add: loop_frame_def eth_stp_addr_def)
  moreover have "loop_end \<lparr>hello_timer := stp_stop_timer (hello_timer loop_start)\<rparr> = loop_end"
    by (simp add: loop_end_def loop_start_def stp_stop_timer_def)
  ultimately show ?thesis
    using loop_frame_better
    by (simp add: stp_handle_packet_def stp_port_handle_packet_def stp_handle_config_packet_def Let_def
        loop_frame_port loop_update del: One_nat_def)
qed

text \<open>The state after the message has a root port.\<close>

lemma loop_reached: "stp_reachable [[0, 0, 0, 0, 0, 1], [0, 0, 0, 0, 0, 2]] 0 loop_end"
proof -
  have "stp_reachable [[0, 0, 0, 0, 0, 1], [0, 0, 0, 0, 0, 2]] 0 loop_start"
    using stp_reachable.start [of "[[0, 0, 0, 0, 0, 1], [0, 0, 0, 0, 0, 2]]" 0] by (simp only: loop_start_init)
  moreover have "1 < length (ports loop_start)" by (simp add: loop_start_def)
  moreover have "msg_ok (f_msg loop_frame)" by code_simp
  ultimately have "stp_reachable [[0, 0, 0, 0, 0, 1], [0, 0, 0, 0, 0, 2]] 0 (fst (stp_handle_packet loop_start 1 loop_frame))"
    by (rule stp_reachable.config)
  then show ?thesis by (simp only: loop_step)
qed

lemma stp_ports_consistent_witness:
  "root_port loop_end = Some 1 \<and> \<not> stp_port_is_designated loop_end (ports loop_end ! 1) \<and>
   root_path_cost loop_end = designated_cost (ports loop_end ! 1) + 1 \<and>
   port_prio (ports loop_end ! 1) \<le> own_prio loop_end (ports loop_end ! 1)"
proof -
  have p: "ports loop_end ! 1 \<in> set (ports loop_end)" "root_port loop_end = Some 1" by (simp_all add: loop_end_def)
  from stp_ports_consistent [OF loop_reached p(1)] p(2) show ?thesis by (simp split: if_splits)
qed

lemma stp_root_never_rises_witness:
  "stp_designated_root (fst (stp_handle_config_packet loop_start 1
     (f_msg loop_frame \<lparr>c_switch_id := 0\<rparr>))) \<le> 9223372036854775809"
proof -
  have reach: "stp_reachable [[0, 0, 0, 0, 0, 1], [0, 0, 0, 0, 0, 2]] 0 loop_start"
    using stp_reachable.start [of "[[0, 0, 0, 0, 0, 1], [0, 0, 0, 0, 0, 2]]" 0]
    by (simp only: loop_start_init)
  have ok: "msg_ok (f_msg loop_frame \<lparr>c_switch_id := 0\<rparr>)" by code_simp
  have other: "htonll (c_switch_id (f_msg loop_frame \<lparr>c_switch_id := 0\<rparr>)) \<noteq> switch_id loop_start"
    by code_simp
  have "1 < length (ports loop_start)" by (simp add: loop_start_def)
  from stp_root_never_rises [OF reach this ok other] show ?thesis
    by (simp add: loop_start_def)
qed

text \<open>A root switch with two ports on one segment silences itself: when its second port
  hears the message that its first port sends, the switch is still the root, but it stops its
  hello timer and raises its own root path cost to 1.\<close>

theorem root_stops_hello_on_own_message:
  "let s = stp_init [[0, 0, 0, 0, 0, 1], [0, 0, 0, 0, 0, 2]] 0;
       (i, f) = hd (stp_send_config s);
       s' = fst (stp_handle_packet s 1 f)
   in i = 0 \<and> stp_is_root_switch s' \<and> root_path_cost s' = 1 \<and>
      (\<forall>now tick. snd (stp_timer_run_once now tick s') = [])"
  unfolding loop_start_init loop_frame_first Let_def split_def fst_conv snd_conv loop_step
  by (simp add: loop_end_def stp_is_root_switch_def stp_timer_run_once_def stp_check_timer_def)

text \<open>The hello timer: a run of the timers at \<open>now\<close> sends a message on every designated
  port and rearms the timer exactly when the timer is active and its timeout has passed, and
  changes nothing otherwise.\<close>

theorem hello_timer_run:
  "stp_timer_run_once now tick s =
     (if tm_active (hello_timer s) \<and> tm_time (hello_timer s) + tm_timeout (hello_timer s) \<le> now
      then (s \<lparr>hello_timer := (hello_timer s) \<lparr>tm_active := True, tm_time := tick\<rparr>\<rparr>, stp_send_config s)
      else (s, []))"
proof -
  have "stp_port_send_config (s \<lparr>hello_timer := t\<rparr>) i = stp_port_send_config s i" for t i
    by (simp add: stp_port_send_config_def stp_is_root_switch_def stp_port_send_packet_def stp_config_of_def)
  then have "stp_send_config (s \<lparr>hello_timer := t\<rparr>) = stp_send_config s" for t
    by (simp add: stp_send_config_def stp_port_is_designated_def cong: if_cong)
  then show ?thesis
    by (simp add: stp_timer_run_once_def stp_check_timer_def Let_def stp_handle_hello_timeout_def
        stp_start_timer_def)
qed

end
