(* ===== verification/Bytes.thy ===== *)
theory Bytes imports NetPrelude begin

text \<open>Memory of the packet buffers: loads and stores of 16- and 32-bit fields in a list of
  bytes, as a little-endian host performs them, the Internet checksum of \<open>checksum.h\<close>, and
  its relation to the one's complement sum of RFC 1071.\<close>

type_synonym bytes = "u8 list"

section \<open>Loads and stores\<close>

definition ld8 :: "bytes \<Rightarrow> nat \<Rightarrow> u8" where
  "ld8 p i = p ! i"

definition st8 :: "bytes \<Rightarrow> nat \<Rightarrow> u8 \<Rightarrow> bytes" where
  "st8 p i v = p[i := v]"

definition ld16 :: "bytes \<Rightarrow> nat \<Rightarrow> u16" where
  "ld16 p i = ucast (p ! i) OR push_bit 8 (ucast (p ! (i + 1)))"

definition st16 :: "bytes \<Rightarrow> nat \<Rightarrow> u16 \<Rightarrow> bytes" where
  "st16 p i v = p[i := ucast v, i + 1 := ucast (drop_bit 8 v)]"

definition ld32 :: "bytes \<Rightarrow> nat \<Rightarrow> u32" where
  "ld32 p i = ucast (ld16 p i) OR push_bit 16 (ucast (ld16 p (i + 2)))"

definition st32 :: "bytes \<Rightarrow> nat \<Rightarrow> u32 \<Rightarrow> bytes" where
  "st32 p i v = st16 (st16 p i (ucast v)) (i + 2) (ucast (drop_bit 16 v))"

text \<open>\<open>memcpy\<close> of the bytes \<open>b\<close> to offset \<open>i\<close>, and reading \<open>n\<close> bytes at an offset.\<close>

definition blit :: "bytes \<Rightarrow> nat \<Rightarrow> bytes \<Rightarrow> bytes" where
  "blit p i b = take i p @ b @ drop (i + length b) p"

definition slice :: "nat \<Rightarrow> nat \<Rightarrow> bytes \<Rightarrow> bytes" where
  "slice i n p = take n (drop i p)"

lemma length_st [layout, simp]:
  "length (st8 p i a) = length p" "length (st16 p i b) = length p" "length (st32 p i c) = length p"
  by (simp_all add: st8_def st16_def st32_def)

lemma length_blit [layout]: "i + length b \<le> length p \<Longrightarrow> length (blit p i b) = length p"
  by (simp add: blit_def)

lemma length_slice [layout]: "i + n \<le> length p \<Longrightarrow> length (slice i n p) = n"
  by (simp add: slice_def)

text \<open>The fields of the headers lie at distinct offsets: a load sees the store to its own
  field and no other.\<close>

lemma nth_list_update_if: "xs[i := v] ! j = (if i = j \<and> i < length xs then v else xs ! j)"
  by (cases "i < length xs") (auto simp: nth_list_update list_update_beyond)

lemma nth_st8: "st8 p i v ! j = (if j = i \<and> i < length p then v else p ! j)"
  by (simp add: st8_def nth_list_update_if)

lemma nth_st16:
  "st16 p i v ! j = (if j = i + 1 \<and> i + 1 < length p then ucast (drop_bit 8 v)
     else if j = i \<and> i < length p then ucast v else p ! j)"
  by (auto simp: st16_def nth_list_update_if)

lemma nth_st16_other: "j \<noteq> i \<Longrightarrow> j \<noteq> i + 1 \<Longrightarrow> st16 p i v ! j = p ! j"
  by (simp add: nth_st16)

lemma nth_st32_other: "j < i \<or> i + 3 < j \<Longrightarrow> st32 p i v ! j = p ! j"
  by (auto simp: st32_def nth_st16)

lemma ld16_st16 [simp]: "i + 1 < length p \<Longrightarrow> ld16 (st16 p i v) i = v"
  by (auto simp: ld16_def nth_st16 intro!: bit_word_eqI) (auto simp: bit_simps)

lemma ld32_st32 [simp]:
  assumes "i + 3 < length p"
  shows "ld32 (st32 p i v) i = v"
proof -
  have a: "ld16 (st32 p i v) i = ucast v"
  proof -
    have "ld16 (st32 p i v) i = ld16 (st16 p i (ucast v)) i"
      by (simp add: ld16_def st32_def nth_st16_other)
    then show ?thesis using assms by simp
  qed
  have b: "ld16 (st32 p i v) (i + 2) = ucast (drop_bit 16 v)"
    using assms unfolding st32_def by (subst ld16_st16) simp_all
  show ?thesis
    unfolding ld32_def a b by (rule bit_word_eqI) (auto simp: bit_simps)
qed

lemma ld8_st8 [simp]: "i < length p \<Longrightarrow> ld8 (st8 p i v) i = v"
  by (simp add: ld8_def nth_st8)

text \<open>Two fields \<open>(i, n)\<close> and \<open>(j, m)\<close> of the given sizes are apart.\<close>

definition apart :: "nat \<Rightarrow> nat \<Rightarrow> nat \<Rightarrow> nat \<Rightarrow> bool" where
  "apart i n j m \<longleftrightarrow> i + n \<le> j \<or> j + m \<le> i"

lemma ld_st_apart:
  "apart i 1 j 1 \<Longrightarrow> ld8 (st8 p i a) j = ld8 p j"
  "apart i 2 j 1 \<Longrightarrow> ld8 (st16 p i b) j = ld8 p j"
  "apart i 4 j 1 \<Longrightarrow> ld8 (st32 p i c) j = ld8 p j"
  "apart i 1 j 2 \<Longrightarrow> ld16 (st8 p i a) j = ld16 p j"
  "apart i 2 j 2 \<Longrightarrow> ld16 (st16 p i b) j = ld16 p j"
  "apart i 4 j 2 \<Longrightarrow> ld16 (st32 p i c) j = ld16 p j"
  "apart i 1 j 4 \<Longrightarrow> ld32 (st8 p i a) j = ld32 p j"
  "apart i 2 j 4 \<Longrightarrow> ld32 (st16 p i b) j = ld32 p j"
  "apart i 4 j 4 \<Longrightarrow> ld32 (st32 p i c) j = ld32 p j"
  by (auto simp: apart_def ld8_def ld16_def ld32_def nth_st8 nth_st16_other nth_st32_other)

lemma nth_blit:
  assumes "i + length b \<le> length p"
  shows "blit p i b ! j = (if i \<le> j \<and> j < i + length b then b ! (j - i) else p ! j)"
  using assms by (auto simp: blit_def nth_append)

lemma ld_blit_apart:
  assumes "i + length b \<le> length p"
  shows "apart i (length b) j 1 \<Longrightarrow> ld8 (blit p i b) j = ld8 p j"
    and "apart i (length b) j 2 \<Longrightarrow> ld16 (blit p i b) j = ld16 p j"
    and "apart i (length b) j 4 \<Longrightarrow> ld32 (blit p i b) j = ld32 p j"
  using assms by (auto simp: apart_def ld8_def ld16_def ld32_def nth_blit)

lemma slice_blit:
  assumes "i + length b \<le> length p"
  shows "slice i (length b) (blit p i b) = b"
  using assms by (simp add: slice_def blit_def)

lemma slice_st_apart:
  "apart i 1 j n \<Longrightarrow> slice j n (st8 p i u) = slice j n p"
  "apart i 2 j n \<Longrightarrow> slice j n (st16 p i v) = slice j n p"
  "apart i 4 j n \<Longrightarrow> slice j n (st32 p i w) = slice j n p"
  by (auto simp: slice_def apart_def nth_st8 nth_st16_other nth_st32_other intro!: nth_equalityI)

lemma slice_blit_apart:
  "i + length b \<le> length p \<Longrightarrow> apart i (length b) j n \<Longrightarrow> slice j n (blit p i b) = slice j n p"
  by (rule nth_equalityI) (auto simp: slice_def apart_def nth_blit length_blit)

text \<open>The rest of a packet after its headers.\<close>

lemma drop_st:
  "i + 1 \<le> k \<Longrightarrow> drop k (st8 p i u) = drop k p"
  "i + 2 \<le> k \<Longrightarrow> drop k (st16 p i v) = drop k p"
  "i + 4 \<le> k \<Longrightarrow> drop k (st32 p i w) = drop k p"
  by (auto simp: nth_st8 nth_st16_other nth_st32_other intro!: nth_equalityI)

lemma drop_blit:
  "i + length b \<le> length p \<Longrightarrow> i + length b \<le> k \<Longrightarrow> drop k (blit p i b) = drop k p"
  by (rule nth_equalityI) (auto simp: nth_blit length_blit)

lemma ld8_drop: "k \<le> i \<Longrightarrow> k \<le> length p \<Longrightarrow> ld8 p i = ld8 (drop k p) (i - k)"
  by (simp add: ld8_def)

lemma ld16_drop: "k \<le> i \<Longrightarrow> k \<le> length p \<Longrightarrow> ld16 p i = ld16 (drop k p) (i - k)"
  by (simp add: ld16_def)

lemma ld32_drop: "k \<le> i \<Longrightarrow> k \<le> length p \<Longrightarrow> ld32 p i = ld32 (drop k p) (i - k)"
  by (simp add: ld32_def ld16_def)

section \<open>The checksum\<close>

text \<open>\<open>checksum (buf, nbytes, sum)\<close>: an odd last byte is added after the fold.\<close>

definition checksum :: "bytes \<Rightarrow> nat \<Rightarrow> u32 \<Rightarrow> u16" where
  "checksum buf nbytes init =
     (let s = fold (\<lambda>i s. s + ucast (ld16 buf (2 * i))) [0..<nbytes div 2] init;
          s = drop_bit 16 s + (s AND 0xffff);
          s = s + drop_bit 16 s;
          s = (if nbytes mod 2 \<noteq> 0 then s + ucast (ld8 buf (nbytes - 1)) else s)
      in ucast (NOT s))"

text \<open>RFC 1071: the sum of the 16-bit words with end-around carries, complemented; a last odd
  byte is padded with zero.\<close>

function ones_fold :: "nat \<Rightarrow> nat" where
  "ones_fold s = (if s < 65536 then s else ones_fold (s div 65536 + s mod 65536))"
  by pat_completeness auto
termination
proof (relation "measure id")
  fix s :: nat assume "\<not> s < 65536"
  then have "1 \<le> s div 65536" by (simp add: div_greater_zero_iff Suc_leI)
  moreover have "s = s div 65536 * 65536 + s mod 65536" by (simp only: div_mult_mod_eq)
  ultimately show "(s div 65536 + s mod 65536, s) \<in> measure id"
    unfolding in_measure id_apply by linarith
qed simp

declare ones_fold.simps [simp del]

definition word_sum :: "bytes \<Rightarrow> nat \<Rightarrow> nat" where
  "word_sum buf n = (\<Sum>i\<leftarrow>[0..<n]. unat (ld16 buf (2 * i)))"

definition inet_checksum :: "bytes \<Rightarrow> nat \<Rightarrow> nat" where
  "inet_checksum buf nbytes = 65535 - ones_fold
     (word_sum buf (nbytes div 2) + (if nbytes mod 2 \<noteq> 0 then unat (ld8 buf (nbytes - 1)) else 0))"

lemma word_sum_Suc: "word_sum buf (Suc n) = word_sum buf n + unat (ld16 buf (2 * n))"
  by (simp add: word_sum_def)

lemma word_sum_bound: "word_sum buf n \<le> n * 65535"
proof (induction n)
  case (Suc n)
  have "unat (ld16 buf (2 * n)) \<le> 65535"
    using unsigned_less [of "ld16 buf (2 * n)", where 'a = nat] by simp
  then show ?case using Suc by (simp add: word_sum_Suc)
qed (simp add: word_sum_def)

lemma unat_ucast_16_32: "unat (ucast (w :: u16) :: u32) = unat w"
proof -
  have "unat w < 2 ^ 16" using unsigned_less [of w, where 'a = nat] by simp
  then show ?thesis by (simp add: unsigned_ucast_eq take_bit_nat_eq_self)
qed

lemma fold_sum_word:
  "n < 65536 \<Longrightarrow>
   unat (fold (\<lambda>i s. s + ucast (ld16 buf (2 * i))) [0..<n] (0 :: u32)) = word_sum buf n"
proof (induction n)
  case (Suc n)
  let ?f = "fold (\<lambda>i s. s + ucast (ld16 buf (2 * i))) [0..<n] (0 :: u32)"
  have IH: "unat ?f = word_sum buf n" using Suc by simp
  have "word_sum buf (Suc n) \<le> Suc n * 65535" by (rule word_sum_bound)
  also have "\<dots> < 2 ^ 32" using Suc.prems by simp
  finally have "unat ?f + unat (ucast (ld16 buf (2 * n)) :: u32) < 2 ^ LENGTH(32)"
    using IH by (simp add: word_sum_Suc unat_ucast_16_32)
  then have "unat (?f + ucast (ld16 buf (2 * n))) = word_sum buf (Suc n)"
    unfolding unat_add_lem using IH by (simp add: word_sum_Suc unat_ucast_16_32)
  then show ?case by simp
qed (simp add: word_sum_def)

text \<open>On an even number of bytes, at most 65535 words, \<open>checksum\<close> is the RFC 1071 checksum.\<close>

lemma fold_two_rounds:
  assumes "S < 2 ^ 32"
  defines "a \<equiv> S div 65536 + S mod 65536"
  shows "ones_fold S = (a + a div 65536) mod 65536" "a + a div 65536 < 2 ^ 32"
proof -
  have "S div 65536 < 65536" using assms(1) by (simp add: less_mult_imp_div_less)
  moreover have "S mod 65536 < 65536" by simp
  ultimately have a: "a \<le> 131070" by (simp add: a_def)
  then show "a + a div 65536 < 2 ^ 32" by simp
  have small: "ones_fold n = n" if "n < 65536" for n
    using that by (subst ones_fold.simps) simp
  have fa: "ones_fold a = (a + a div 65536) mod 65536"
  proof (cases "a < 65536")
    case True
    then show ?thesis by (simp add: small)
  next
    case False
    then obtain b where b: "a = 65536 + b" using le_Suc_ex by (metis not_le)
    have "b < 65535" using a b by simp
    then have "ones_fold a = 1 + b" unfolding b
      by (subst ones_fold.simps) (simp add: small)
    moreover have "(65536 + b) div 65536 = 1" using \<open>b < 65535\<close> by (simp add: div_nat_eqI)
    moreover have "(65536 + b + 1) mod 65536 = b + 1" using \<open>b < 65535\<close> by (simp add: mod_nat_eqI)
    ultimately show ?thesis by (simp add: b)
  qed
  show "ones_fold S = (a + a div 65536) mod 65536"
  proof (cases "S < 65536")
    case True
    then show ?thesis by (simp add: small a_def)
  next
    case False
    then have "ones_fold S = ones_fold a" by (subst ones_fold.simps) (simp add: a_def)
    then show ?thesis using fa by simp
  qed
qed

lemma unat_fold_round:
  fixes s :: u32
  defines "t \<equiv> drop_bit 16 s + (s AND 0xffff)"
  shows "unat t = unat s div 65536 + unat s mod 65536"
    and "unat (t + drop_bit 16 t) = unat t + unat t div 65536"
proof -
  have m: "(0xffff :: u32) = mask 16" by (simp add: mask_eq_exp_minus_1)
  have hi: "unat (drop_bit 16 x) = unat x div 65536" for x :: u32
    by (simp only: unat_drop_bit_eq) (simp add: drop_bit_eq_div)
  have lo: "unat (s AND 0xffff) = unat s mod 65536"
    unfolding m take_bit_eq_mask [symmetric]
    by (simp only: unsigned_take_bit_eq) (simp add: take_bit_eq_mod)
  have s: "unat s < 65536 * 65536" using unsigned_less [of s, where 'a = nat] by simp
  then have q: "unat s div 65536 < 65536" by (simp add: less_mult_imp_div_less)
  have r: "unat s mod 65536 < 65536" by simp
  have "unat (drop_bit 16 s) + unat (s AND 0xffff) < 2 ^ LENGTH(32)"
    unfolding hi lo using q r by simp
  then show t: "unat t = unat s div 65536 + unat s mod 65536"
    unfolding t_def unat_add_lem unfolding hi lo .
  have tb: "unat t < 131072" unfolding t using q r by linarith
  then have "unat t div 65536 < 2" by (simp add: less_mult_imp_div_less)
  then have "unat t + unat (drop_bit 16 t) < 2 ^ LENGTH(32)"
    unfolding hi using tb by simp
  then show "unat (t + drop_bit 16 t) = unat t + unat t div 65536"
    unfolding unat_add_lem unfolding hi .
qed

lemma unat_ucast_not:
  fixes s :: u32
  shows "unat (ucast (NOT s) :: u16) = 65535 - unat s mod 65536"
proof -
  have "(ucast (NOT s) :: u16) = NOT (ucast s)"
    by (rule bit_word_eqI) (simp add: bit_simps)
  also have "\<dots> = - 1 - ucast s" by (simp add: not_eq_complement)
  finally have "unat (ucast (NOT s) :: u16) = unat (- 1 - ucast s :: u16)" by simp
  also have "\<dots> = unat (- 1 :: u16) - unat (ucast s :: u16)"
    by (rule unat_sub) (rule word_n1_ge)
  also have "unat (ucast s :: u16) = unat s mod 65536"
    by (simp only: unsigned_ucast_eq) (simp add: take_bit_eq_mod)
  moreover have "unat (- 1 :: u16) = 65535" by (simp add: unsigned_minus_1_eq_mask mask_eq_exp_minus_1)
  ultimately show ?thesis by simp
qed

lemma checksum_inet:
  assumes "nbytes mod 2 = 0" "nbytes < 131072"
  shows "unat (checksum buf nbytes 0) = inet_checksum buf nbytes"
proof -
  let ?S = "word_sum buf (nbytes div 2)"
  have n: "nbytes div 2 < 65536" using assms(2) by (simp add: less_mult_imp_div_less)
  have "?S \<le> (nbytes div 2) * 65535" by (rule word_sum_bound)
  also have "\<dots> < 2 ^ 32" using n by simp
  finally have S: "?S < 2 ^ 32" .
  show ?thesis
    using assms(1) fold_two_rounds(1) [OF S]
    unfolding checksum_def inet_checksum_def Let_def unat_ucast_not unat_fold_round
      fold_sum_word [OF n] by (simp add: unat_ucast_not unat_fold_round fold_sum_word [OF n])
qed

section \<open>A checksum verifies\<close>

lemma ones_fold_bounds:
  "ones_fold s < 65536" "ones_fold s mod 65535 = s mod 65535" "0 < s \<Longrightarrow> 0 < ones_fold s"
proof (induction s rule: ones_fold.induct)
  case (1 s)
  let ?r = "s div 65536 + s mod 65536"
  have r: "?r mod 65535 = s mod 65535"
  proof -
    have "s = ?r + 65535 * (s div 65536)" by (simp add: algebra_simps)
    then show ?thesis by (metis mod_mult_self2)
  qed
  { case 1 show ?case using "1.IH"(1) by (subst ones_fold.simps) simp }
  { case 2 show ?case using "1.IH"(2) r by (subst ones_fold.simps) simp }
  { case 3
    have "\<not> s < 65536 \<Longrightarrow> 0 < ?r" by (simp add: div_greater_zero_iff)
    then show ?case using "1.IH"(3) 3 by (subst ones_fold.simps) simp }
qed

lemma ones_fold_complement: "ones_fold (s + (65535 - ones_fold s)) = 65535"
proof (cases "s = 0")
  case True
  then show ?thesis by (simp add: ones_fold.simps)
next
  case False
  let ?t = "s + (65535 - ones_fold s)"
  have F: "ones_fold s \<le> 65535" using ones_fold_bounds(1) [of s] by simp
  have "?t mod 65535 = (s mod 65535 + (65535 - ones_fold s) mod 65535) mod 65535"
    by (simp add: mod_add_eq)
  also have "\<dots> = (ones_fold s + (65535 - ones_fold s)) mod 65535"
    using ones_fold_bounds(2) [of s] by (metis mod_add_eq)
  also have "\<dots> = 0" using F by simp
  finally have "ones_fold ?t mod 65535 = 0" using ones_fold_bounds(2) [of ?t] by simp
  moreover have "0 < ones_fold ?t" "ones_fold ?t \<le> 65535"
    using ones_fold_bounds(1,3) [of ?t] False by simp_all
  ultimately show ?thesis by (metis dvd_imp_le le_antisym mod_0_imp_dvd)
qed

lemma word_sum_st16:
  "k < n \<Longrightarrow> 2 * k + 1 < length buf \<Longrightarrow>
     word_sum (st16 buf (2 * k) v) n = word_sum (st16 buf (2 * k) 0) n + unat v"
proof (induction n)
  case (Suc n)
  have other: "ld16 (st16 buf (2 * k) w) (2 * i) = ld16 buf (2 * i)" if "i \<noteq> k" for i w
    using that by (intro ld_st_apart) (auto simp: apart_def)
  show ?case
  proof (cases "k = n")
    case True
    have "word_sum (st16 buf (2 * k) w) n = word_sum buf n" for w
      unfolding word_sum_def using True
      by (intro arg_cong [where f = sum_list] map_cong refl arg_cong [where f = unat] other) auto
    then show ?thesis using True Suc.prems by (simp add: word_sum_Suc)
  next
    case False
    then show ?thesis using Suc by (simp add: word_sum_Suc other)
  qed
qed simp

lemma checksum_verifies:
  assumes "k < n" "n < 65536" "2 * k + 1 < length buf"
  shows "checksum (st16 buf (2 * k) (checksum (st16 buf (2 * k) 0) (2 * n) 0)) (2 * n) 0 = 0"
proof -
  let ?z = "st16 buf (2 * k) 0" and ?c = "checksum (st16 buf (2 * k) 0) (2 * n) 0"
  have eq: "unat (checksum b (2 * n) 0) = 65535 - ones_fold (word_sum b n)" for b
    using assms(2) checksum_inet [of "2 * n" b] by (simp add: inet_checksum_def)
  have "word_sum (st16 buf (2 * k) ?c) n = word_sum ?z n + unat ?c"
    using assms(1,3) by (rule word_sum_st16)
  then have "word_sum (st16 buf (2 * k) ?c) n = word_sum ?z n + (65535 - ones_fold (word_sum ?z n))"
    by (simp only: eq)
  then have "unat (checksum (st16 buf (2 * k) ?c) (2 * n) 0) = 0"
    by (simp add: eq ones_fold_complement)
  then show ?thesis by (simp add: unat_eq_0)
qed

lemma drop_st16: "k \<le> i \<Longrightarrow> drop k (st16 p i v) = st16 (drop k p) (i - k) v"
  by (simp add: st16_def drop_update_swap Suc_diff_le)

text \<open>The same for a field of the header that starts at offset \<open>t\<close> of a packet.\<close>

lemma checksum_field_verifies:
  assumes "k < n" "n < 65536" "t + 2 * k + 1 < length p"
  shows "checksum (drop t (st16 p (t + 2 * k) (checksum (drop t (st16 p (t + 2 * k) 0)) (2 * n) 0)))
    (2 * n) 0 = 0"
  using checksum_verifies [of k n "drop t p"] assms by (simp add: drop_st16)

section \<open>Against RFC 1071\<close>

text \<open>C25. On every buffer of an even number of bytes, up to 131070 of them, \<open>checksum\<close>
  with initial value 0 is the RFC 1071 checksum of the buffer.\<close>

theorem checksum_is_rfc1071:
  assumes "nbytes mod 2 = 0" "nbytes < 131072"
  shows "unat (checksum buf nbytes 0) = inet_checksum buf nbytes"
  using assms by (rule checksum_inet)

lemma checksum_is_rfc1071_witness:
  "unat (checksum [0x45, 0, 0, 40] 4 0) = inet_checksum [0x45, 0, 0, 40] 4"
  by (rule checksum_is_rfc1071) simp_all

text \<open>On an odd number of bytes it can differ from it: the last byte is added after the
  carries have been folded, and the carry it causes is cut off.\<close>

theorem checksum_odd_differs:
  "checksum [0xff, 0xff, 0xff] 3 0 = 0xff01 \<and> inet_checksum [0xff, 0xff, 0xff] 3 = 0xff00"
proof
  show "checksum [0xff, 0xff, 0xff] 3 0 = 0xff01" by code_simp
  have small: "ones_fold n = n" if "n < 65536" for n
    using that by (subst ones_fold.simps) simp
  have "ld16 [0xff, 0xff, 0xff] 0 = 0xffff" by code_simp
  then have "word_sum [0xff, 0xff, 0xff] 1 = 65535" "unat (ld8 [0xff, 0xff, 0xff] 2) = 255"
    by (simp_all add: word_sum_def ld8_def)
  moreover have "ones_fold 65790 = 255" by (subst ones_fold.simps) (simp add: small)
  ultimately show "inet_checksum [0xff, 0xff, 0xff] 3 = 0xff00" by (simp add: inet_checksum_def)
qed

end
