(* ===== verification/IpPacket.thy ===== *)
theory IpPacket imports Bytes begin

text \<open>The Ethernet, IP and TCP headers of a packet buffer (\<open>include/ether.h\<close>, \<open>ip.h\<close>, \<open>tcp.h\<close>):
  offsets of the fields, the header checksums and \<open>ip_init_hdr\<close>. The loads return a field as
  it lies in memory, in network order, as in the code.\<close>

section \<open>Ethernet\<close>

definition ETHER_HDR_SIZE :: nat where "ETHER_HDR_SIZE = 14"
definition ETH_P_IP :: u16 where "ETH_P_IP = 0x0800"
definition ETH_P_ARP :: u16 where "ETH_P_ARP = 0x0806"

definition eth_dhost :: "bytes \<Rightarrow> mac_addr" where "eth_dhost p = slice 0 6 p"
definition eth_shost :: "bytes \<Rightarrow> mac_addr" where "eth_shost p = slice 6 6 p"
definition eth_type :: "bytes \<Rightarrow> u16" where "eth_type p = ld16 p 12"

definition set_eth :: "mac_addr \<Rightarrow> mac_addr \<Rightarrow> bytes \<Rightarrow> bytes" where
  "set_eth dhost shost p = blit (blit p 6 shost) 0 dhost"

section \<open>IP\<close>

definition IPPROTO_ICMP :: u8 where "IPPROTO_ICMP = 1"
definition IPPROTO_TCP :: u8 where "IPPROTO_TCP = 6"
definition IPPROTO_MOSPF :: u8 where "IPPROTO_MOSPF = 90"
definition DEFAULT_TTL :: u8 where "DEFAULT_TTL = 64"
definition IP_DF :: u16 where "IP_DF = 0x4000"
definition IP_BASE_HDR_SIZE :: nat where "IP_BASE_HDR_SIZE = 20"

definition ip_ihl :: "bytes \<Rightarrow> nat" where "ip_ihl p = unat (ld8 p 14 AND 0xf)"
definition ip_tot_len :: "bytes \<Rightarrow> u16" where "ip_tot_len p = ld16 p 16"
definition ip_ttl :: "bytes \<Rightarrow> u8" where "ip_ttl p = ld8 p 22"
definition ip_protocol :: "bytes \<Rightarrow> u8" where "ip_protocol p = ld8 p 23"
definition ip_cksum :: "bytes \<Rightarrow> u16" where "ip_cksum p = ld16 p 24"
definition ip_saddr :: "bytes \<Rightarrow> u32" where "ip_saddr p = ld32 p 26"
definition ip_daddr :: "bytes \<Rightarrow> u32" where "ip_daddr p = ld32 p 30"

definition IP_HDR_SIZE :: "bytes \<Rightarrow> nat" where "IP_HDR_SIZE p = ip_ihl p * 4"

text \<open>The offset of \<open>IP_DATA\<close> in the packet.\<close>

definition ip_data :: "bytes \<Rightarrow> nat" where
  "ip_data p = ETHER_HDR_SIZE + IP_HDR_SIZE p"

text \<open>\<open>ip_checksum\<close> clears the checksum field, sums the header and restores the field.\<close>

definition ip_checksum :: "bytes \<Rightarrow> u16" where
  "ip_checksum p = checksum (drop ETHER_HDR_SIZE (st16 p 24 0)) (ip_ihl p * 4) 0"

definition set_ip_checksum :: "bytes \<Rightarrow> bytes" where
  "set_ip_checksum p = st16 p 24 (ip_checksum p)"

text \<open>\<open>ip_init_hdr\<close>, with the value that \<open>rand ()\<close> returns.\<close>

definition ip_init_hdr :: "u32 \<Rightarrow> u32 \<Rightarrow> u16 \<Rightarrow> u8 \<Rightarrow> u32 \<Rightarrow> bytes \<Rightarrow> bytes" where
  "ip_init_hdr saddr daddr len proto rand p =
     (let p = st8 p 14 0x45;
          p = st8 p 15 0;
          p = st16 p 16 (htons len);
          p = st16 p 18 (ucast rand);
          p = st16 p 20 (htons IP_DF);
          p = st8 p 22 DEFAULT_TTL;
          p = st8 p 23 proto;
          p = st32 p 26 (htonl saddr);
          p = st32 p 30 (htonl daddr)
      in set_ip_checksum p)"

section \<open>TCP\<close>

definition TCP_FIN :: u8 where "TCP_FIN = 0x01"
definition TCP_SYN :: u8 where "TCP_SYN = 0x02"
definition TCP_RST :: u8 where "TCP_RST = 0x04"
definition TCP_PSH :: u8 where "TCP_PSH = 0x08"
definition TCP_ACK :: u8 where "TCP_ACK = 0x10"

text \<open>\<open>t\<close> is the offset of the TCP header.\<close>

definition th_sport :: "bytes \<Rightarrow> nat \<Rightarrow> u16" where "th_sport p t = ld16 p t"
definition th_dport :: "bytes \<Rightarrow> nat \<Rightarrow> u16" where "th_dport p t = ld16 p (t + 2)"
definition th_seq :: "bytes \<Rightarrow> nat \<Rightarrow> u32" where "th_seq p t = ld32 p (t + 4)"
definition th_ack :: "bytes \<Rightarrow> nat \<Rightarrow> u32" where "th_ack p t = ld32 p (t + 8)"
definition th_off :: "bytes \<Rightarrow> nat \<Rightarrow> nat" where "th_off p t = unat (drop_bit 4 (ld8 p (t + 12)))"
definition th_flags :: "bytes \<Rightarrow> nat \<Rightarrow> u8" where "th_flags p t = ld8 p (t + 13)"
definition th_rwnd :: "bytes \<Rightarrow> nat \<Rightarrow> u16" where "th_rwnd p t = ld16 p (t + 14)"
definition th_cksum :: "bytes \<Rightarrow> nat \<Rightarrow> u16" where "th_cksum p t = ld16 p (t + 16)"

definition TCP_HDR_SIZE :: "bytes \<Rightarrow> nat \<Rightarrow> nat" where "TCP_HDR_SIZE p t = th_off p t * 4"

definition tcp_checksum :: "bytes \<Rightarrow> u16" where
  "tcp_checksum p =
     (let t = ip_data p;
          reserv_proto = ucast (ip_protocol p) :: u16;
          tcp_len = ntohs (ip_tot_len p) - of_nat (IP_HDR_SIZE p);
          s = ip_saddr p + ip_daddr p + ucast (htons reserv_proto) + ucast (htons tcp_len)
      in checksum (drop t (st16 p (t + 16) 0)) (unat tcp_len) s)"

definition set_tcp_checksum :: "bytes \<Rightarrow> bytes" where
  "set_tcp_checksum p = st16 p (ip_data p + 16) (tcp_checksum p)"

section \<open>Fields after stores\<close>

lemmas ip_field_defs = eth_type_def ip_ihl_def ip_tot_len_def ip_ttl_def ip_protocol_def ip_cksum_def
  ip_saddr_def ip_daddr_def

lemma length_set_ip_checksum [layout, simp]: "length (set_ip_checksum p) = length p"
  by (simp add: set_ip_checksum_def)

lemma length_set_tcp_checksum [layout, simp]: "length (set_tcp_checksum p) = length p"
  by (simp add: set_tcp_checksum_def)

lemma length_ip_init_hdr [layout, simp]: "length (ip_init_hdr s d l pr r p) = length p"
  by (simp add: ip_init_hdr_def Let_def)

lemma set_ip_checksum_fields [frame, simp]:
  "eth_type (set_ip_checksum p) = eth_type p" "ip_ihl (set_ip_checksum p) = ip_ihl p"
  "ip_tot_len (set_ip_checksum p) = ip_tot_len p" "ip_ttl (set_ip_checksum p) = ip_ttl p"
  "ip_protocol (set_ip_checksum p) = ip_protocol p" "ip_saddr (set_ip_checksum p) = ip_saddr p"
  "ip_daddr (set_ip_checksum p) = ip_daddr p"
  by (simp_all add: set_ip_checksum_def ip_field_defs ld_st_apart apart_def)

lemma st16_st16 [simp]: "st16 (st16 p i v) i w = st16 p i w"
  by (rule nth_equalityI) (simp_all add: nth_st16)

text \<open>A header whose checksum was just set verifies: summed as it is, it gives zero.\<close>

definition ip_hdr_ok :: "bytes \<Rightarrow> bool" where
  "ip_hdr_ok p \<longleftrightarrow> 5 \<le> ip_ihl p \<and> ETHER_HDR_SIZE + IP_HDR_SIZE p \<le> length p"

definition ip_verifies :: "bytes \<Rightarrow> bool" where
  "ip_verifies p \<longleftrightarrow> checksum (drop ETHER_HDR_SIZE p) (IP_HDR_SIZE p) 0 = 0"

lemma ip_ihl_less: "ip_ihl p < 16"
proof -
  have m: "(0xf :: u8) = mask 4" by (simp add: mask_eq_exp_minus_1)
  have "ip_ihl p = take_bit 4 (unat (ld8 p 14))"
    unfolding ip_ihl_def m take_bit_eq_mask [symmetric] by (simp only: unsigned_take_bit_eq)
  then show ?thesis using take_bit_nat_less_exp [of 4 "unat (ld8 p 14)"] by simp
qed

lemma set_ip_checksum_verifies:
  assumes "ip_hdr_ok p"
  shows "ip_verifies (set_ip_checksum p)"
proof -
  have l: "5 \<le> ip_ihl p" "ip_ihl p < 16" "14 + ip_ihl p * 4 \<le> length p"
    using assms ip_ihl_less by (simp_all add: ip_hdr_ok_def ETHER_HDR_SIZE_def IP_HDR_SIZE_def)
  have "2 * (2 * n) = n * 4" for n :: nat by simp
  then have "checksum (drop 14 (st16 p 24 (checksum (drop 14 (st16 p 24 0)) (ip_ihl p * 4) 0))) (ip_ihl p * 4) 0 = 0"
    using checksum_field_verifies [of 5 "2 * ip_ihl p" 14 p] l by (simp add: mult.commute)
  then show ?thesis
    unfolding ip_verifies_def set_ip_checksum_def ETHER_HDR_SIZE_def IP_HDR_SIZE_def ip_checksum_def
    by (simp add: ip_ihl_def ld_st_apart apart_def)
qed

text \<open>What the IP layer sees of a frame is the frame after its Ethernet header.\<close>

lemma ip_fields_cong:
  assumes "drop 14 p = drop 14 q" "14 \<le> length p" "14 \<le> length q"
  shows "ip_ihl p = ip_ihl q" "ip_tot_len p = ip_tot_len q" "ip_ttl p = ip_ttl q"
    "ip_protocol p = ip_protocol q" "ip_saddr p = ip_saddr q" "ip_daddr p = ip_daddr q"
    "ip_verifies p = ip_verifies q"
  using assms
  by (simp_all add: ip_field_defs ip_verifies_def IP_HDR_SIZE_def ETHER_HDR_SIZE_def
      ld8_drop [of 14] ld16_drop [of 14] ld32_drop [of 14])

lemma set_eth_out:
  assumes "length d = 6" "length h = 6" "14 \<le> length p"
  shows "length (set_eth d h p) = length p" "eth_dhost (set_eth d h p) = d"
    "eth_shost (set_eth d h p) = h" "eth_type (set_eth d h p) = eth_type p"
    "12 \<le> k \<Longrightarrow> drop k (set_eth d h p) = drop k p"
  using assms slice_blit [of 0 d "blit p 6 h"] slice_blit [of 6 h p]
  by (simp_all add: set_eth_def eth_dhost_def eth_shost_def eth_type_def length_blit drop_blit
      ld_blit_apart slice_blit_apart apart_def)

text \<open>A header made by \<open>ip_init_hdr\<close>.\<close>

lemma ip_init_hdr_fields:
  assumes "34 \<le> length p"
  shows "ip_ihl (ip_init_hdr sa da l pr x p) = 5" "ip_tot_len (ip_init_hdr sa da l pr x p) = htons l"
    "ip_ttl (ip_init_hdr sa da l pr x p) = DEFAULT_TTL" "ip_protocol (ip_init_hdr sa da l pr x p) = pr"
    "ip_saddr (ip_init_hdr sa da l pr x p) = htonl sa" "ip_daddr (ip_init_hdr sa da l pr x p) = htonl da"
    "34 \<le> k \<Longrightarrow> drop k (ip_init_hdr sa da l pr x p) = drop k p"
  using assms
  by (simp_all add: ip_init_hdr_def Let_def ip_field_defs set_ip_checksum_def ld_st_apart apart_def drop_st)

lemma ip_init_hdr_verifies:
  "34 \<le> length p \<Longrightarrow> ip_verifies (ip_init_hdr sa da l pr x p)"
  unfolding ip_init_hdr_def Let_def
  by (rule set_ip_checksum_verifies)
    (simp add: ip_hdr_ok_def IP_HDR_SIZE_def ETHER_HDR_SIZE_def ip_ihl_def ld_st_apart apart_def)

section \<open>The pseudo header\<close>

text \<open>RFC 793: the TCP checksum covers the addresses, the protocol and the TCP length before
  the segment.\<close>

definition tcp_rfc_bytes :: "bytes \<Rightarrow> bytes" where
  "tcp_rfc_bytes p =
     (let t = ip_data p; n = unat (ntohs (ip_tot_len p)) - IP_HDR_SIZE p
      in slice 26 8 p @ [0, ip_protocol p, of_nat (n div 256), of_nat n] @
         take n (drop t (st16 p (t + 16) 0)))"

text \<open>A segment without data from 192.168.1.200 to 10.0.0.100.\<close>

definition carry_segment :: bytes where
  "carry_segment = replicate 12 0 @ [8, 0, 0x45, 0, 0, 40, 0, 0, 0x40, 0, 64, 6, 0, 0,
     192, 168, 1, 200, 10, 0, 0, 100,
     0, 80, 0, 1, 0, 0, 0, 0, 0, 0, 0, 0, 0x50, 0x10, 255, 255, 0, 0, 0, 0]"

text \<open>\<open>tcp_checksum\<close> adds the addresses as 32-bit numbers and loses the carry out of them:
  for a segment from 192.168.1.200 to 10.0.0.100 it is not the RFC 793 checksum, which the
  checksum of the same bytes laid out as one buffer is.\<close>

theorem tcp_checksum_loses_carry:
  "tcp_checksum carry_segment \<noteq> checksum (tcp_rfc_bytes carry_segment) 32 0 \<and>
   length (tcp_rfc_bytes carry_segment) = 32 \<and>
   unat (checksum (tcp_rfc_bytes carry_segment) 32 0) = inet_checksum (tcp_rfc_bytes carry_segment) 32"
proof (intro conjI)
  show "tcp_checksum carry_segment \<noteq> checksum (tcp_rfc_bytes carry_segment) 32 0" by code_simp
  show "length (tcp_rfc_bytes carry_segment) = 32" by code_simp
  show "unat (checksum (tcp_rfc_bytes carry_segment) 32 0) = inet_checksum (tcp_rfc_bytes carry_segment) 32"
    by (rule checksum_inet) simp_all
qed

end
