(* ===== verification/RouterState.thy ===== *)
theory RouterState imports IpPacket begin

text \<open>The state of the router of \<open>exp10/code\<close>: interfaces, routing table (\<open>rtable.c\<close>), ARP
  cache, mOSPF data, and what the program takes from its surroundings: the clock, \<open>rand ()\<close> and
  the contents of fresh memory. A pointer to an interface is its position in the interface
  list. Emitted frames are recorded in order.\<close>

section \<open>Data\<close>

record mospf_nbr =
  nbr_id :: u32
  nbr_ip :: u32
  nbr_mask :: u32
  nbr_alive :: u8

record iface_info =
  if_index :: int
  if_mac :: mac_addr
  if_ip :: u32
  if_mask :: u32
  if_name :: string
  if_helloint :: int
  if_num_nbr :: int
  if_nbr_list :: "mospf_nbr list"

record rt_entry =
  rt_dest :: u32
  rt_mask :: u32
  rt_gw :: u32
  rt_flags :: int
  rt_if_name :: string
  rt_iface :: nat

record arp_req =
  rq_iface :: nat
  rq_ip4 :: u32
  rq_sent :: int
  rq_retries :: int
  rq_packets :: "bytes list"

record arp_cache_entry =
  ac_ip4 :: u32
  ac_mac :: mac_addr
  ac_added :: int
  ac_valid :: bool

record mospf_lsa =
  lsa_subnet :: u32
  lsa_mask :: u32
  lsa_rid :: u32

record mospf_db_entry =
  db_rid :: u32
  db_seq :: u16
  db_nadv :: int
  db_array :: "mospf_lsa list"

record router =
  r_ifaces :: "iface_info list"
  r_rtable :: "rt_entry list"
  r_entries :: "arp_cache_entry list"
  r_reqs :: "arp_req list"
  r_area_id :: u32
  r_router_id :: u32
  r_sequence_num :: u16
  r_lsuint :: int
  r_db :: "mospf_db_entry list"
  r_now :: int
  r_rand :: "nat \<Rightarrow> u32"
  r_rands :: nat
  r_heap :: "nat \<Rightarrow> nat \<Rightarrow> u8"
  r_mallocs :: nat
  r_out :: "(nat \<times> bytes) list"

text \<open>\<open>malloc (n)\<close> returns memory of unknown contents; \<open>rand ()\<close> the next value of its stream.\<close>

definition malloc :: "nat \<Rightarrow> router \<Rightarrow> bytes \<times> router" where
  "malloc n s = (map (r_heap s (r_mallocs s)) [0..<n], s \<lparr>r_mallocs := r_mallocs s + 1\<rparr>)"

definition rand :: "router \<Rightarrow> u32 \<times> router" where
  "rand s = (r_rand s (r_rands s), s \<lparr>r_rands := r_rands s + 1\<rparr>)"

section \<open>Links\<close>

definition iface_send_packet :: "nat \<Rightarrow> bytes \<Rightarrow> router \<Rightarrow> router" where
  "iface_send_packet i packet s = s \<lparr>r_out := r_out s @ [(i, packet)]\<rparr>"

fun broadcast_loop :: "int \<Rightarrow> bytes \<Rightarrow> nat list \<Rightarrow> router \<Rightarrow> router" where
  "broadcast_loop index packet [] s = s"
| "broadcast_loop index packet (i # is) s =
     broadcast_loop index packet is
       (if if_index (r_ifaces s ! i) = index then s else iface_send_packet i packet s)"

definition router_broadcast_packet :: "nat \<Rightarrow> bytes \<Rightarrow> router \<Rightarrow> router" where
  "router_broadcast_packet in_iface packet s =
     broadcast_loop (if_index (r_ifaces s ! in_iface)) packet [0..<length (r_ifaces s)] s"

section \<open>The routing table\<close>

definition new_rt_entry :: "u32 \<Rightarrow> u32 \<Rightarrow> u32 \<Rightarrow> nat \<Rightarrow> router \<Rightarrow> rt_entry" where
  "new_rt_entry dest msk gw iface s =
     \<lparr>rt_dest = dest, rt_mask = msk, rt_gw = gw, rt_flags = 0,
      rt_if_name = if_name (r_ifaces s ! iface), rt_iface = iface\<rparr>"

definition add_rt_entry :: "rt_entry \<Rightarrow> router \<Rightarrow> router" where
  "add_rt_entry e s = s \<lparr>r_rtable := r_rtable s @ [e]\<rparr>"

definition remove_rt_entry :: "nat \<Rightarrow> router \<Rightarrow> router" where
  "remove_rt_entry i s = s \<lparr>r_rtable := take i (r_rtable s) @ drop (i + 1) (r_rtable s)\<rparr>"

function clear_rtable :: "router \<Rightarrow> router" where
  "clear_rtable s = (if r_rtable s \<noteq> [] then clear_rtable (s \<lparr>r_rtable := tl (r_rtable s)\<rparr>) else s)"
  by pat_completeness auto
termination by (relation "measure (\<lambda>s. length (r_rtable s))") auto

declare clear_rtable.simps [simp del]

definition get_next_hop :: "rt_entry \<Rightarrow> u32 \<Rightarrow> u32" where
  "get_next_hop e dst = (if rt_gw e \<noteq> 0 then rt_gw e else dst)"

fun lpm_loop :: "u32 \<Rightarrow> rt_entry list \<Rightarrow> rt_entry option \<Rightarrow> rt_entry option" where
  "lpm_loop dst [] selected = selected"
| "lpm_loop dst (e # es) selected =
     lpm_loop dst es
       (if dst AND rt_mask e = rt_dest e AND rt_mask e then
          (case selected of
             None \<Rightarrow> Some e
           | Some q \<Rightarrow> if rt_mask q < rt_mask e then Some e else selected)
        else selected)"

definition longest_prefix_match :: "u32 \<Rightarrow> router \<Rightarrow> rt_entry option" where
  "longest_prefix_match dst s = lpm_loop dst (r_rtable s) None"

section \<open>Facts\<close>

definition rt_matches :: "u32 \<Rightarrow> rt_entry \<Rightarrow> bool" where
  "rt_matches dst e \<longleftrightarrow> dst AND rt_mask e = rt_dest e AND rt_mask e"

lemma lpm_loop_spec:
  "case lpm_loop dst es sel of
     None \<Rightarrow> sel = None \<and> (\<forall>e \<in> set es. \<not> rt_matches dst e)
   | Some q \<Rightarrow> (sel = Some q \<or> q \<in> set es \<and> rt_matches dst q) \<and>
       (\<forall>p. sel = Some p \<longrightarrow> rt_mask p \<le> rt_mask q) \<and>
       (\<forall>e \<in> set es. rt_matches dst e \<longrightarrow> rt_mask e \<le> rt_mask q)"
proof (induction es arbitrary: sel)
  case Nil
  then show ?case by (simp split: option.split)
next
  case (Cons e es)
  define sel' where "sel' = (if rt_matches dst e then
      (case sel of None \<Rightarrow> Some e | Some q \<Rightarrow> if rt_mask q < rt_mask e then Some e else sel) else sel)"
  have step: "lpm_loop dst (e # es) sel = lpm_loop dst es sel'"
    by (simp add: sel'_def rt_matches_def)
  have new: "\<exists>q. sel' = Some q \<and> rt_mask e \<le> rt_mask q" if "rt_matches dst e"
    using that by (auto simp: sel'_def split: option.split)
  have old: "\<exists>q. sel' = Some q \<and> rt_mask p \<le> rt_mask q" if "sel = Some p" for p
    using that by (auto simp: sel'_def)
  have from_sel: "sel = Some q \<or> q = e \<and> rt_matches dst e" if "sel' = Some q" for q
    using that by (auto simp: sel'_def split: if_splits option.splits)
  show ?case
  proof (cases "lpm_loop dst es sel'")
    case None
    then have "sel' = None" "\<forall>e \<in> set es. \<not> rt_matches dst e" using Cons.IH [of sel'] by simp_all
    then show ?thesis unfolding step using None new old by (cases sel) auto
  next
    case (Some q)
    then have *: "sel' = Some q \<or> q \<in> set es \<and> rt_matches dst q"
      "\<And>p. sel' = Some p \<Longrightarrow> rt_mask p \<le> rt_mask q"
      "\<And>e. e \<in> set es \<Longrightarrow> rt_matches dst e \<Longrightarrow> rt_mask e \<le> rt_mask q"
      using Cons.IH [of sel'] by simp_all
    have "rt_mask e \<le> rt_mask q" if "rt_matches dst e"
      using new [OF that] *(2) by (blast intro: order_trans)
    moreover have "rt_mask p \<le> rt_mask q" if "sel = Some p" for p
      using old [OF that] *(2) by (blast intro: order_trans)
    moreover have "sel = Some q \<or> (q = e \<or> q \<in> set es) \<and> rt_matches dst q"
      using *(1) from_sel by blast
    ultimately show ?thesis unfolding step using Some *(3) by auto
  qed
qed

lemma longest_prefix_match_spec:
  "case longest_prefix_match dst s of
     None \<Rightarrow> \<forall>e \<in> set (r_rtable s). \<not> rt_matches dst e
   | Some q \<Rightarrow> q \<in> set (r_rtable s) \<and> rt_matches dst q \<and>
       (\<forall>e \<in> set (r_rtable s). rt_matches dst e \<longrightarrow> rt_mask e \<le> rt_mask q)"
  using lpm_loop_spec [where dst = dst and es = "r_rtable s" and sel = None]
  by (simp add: longest_prefix_match_def split: option.splits)

lemma clear_rtable_empty: "clear_rtable s = s \<lparr>r_rtable := []\<rparr>"
  by (induction s rule: clear_rtable.induct) (subst clear_rtable.simps, simp)

text \<open>Emission and the environment leave the tables alone.\<close>

lemma iface_send_packet_frame [frame, simp]:
  "r_ifaces (iface_send_packet i p s) = r_ifaces s" "r_rtable (iface_send_packet i p s) = r_rtable s"
  "r_entries (iface_send_packet i p s) = r_entries s" "r_reqs (iface_send_packet i p s) = r_reqs s"
  "r_db (iface_send_packet i p s) = r_db s" "r_now (iface_send_packet i p s) = r_now s"
  "r_out (iface_send_packet i p s) = r_out s @ [(i, p)]"
  by (simp_all add: iface_send_packet_def)

lemma malloc_frame [frame, simp]:
  "r_ifaces (snd (malloc n s)) = r_ifaces s" "r_rtable (snd (malloc n s)) = r_rtable s"
  "r_entries (snd (malloc n s)) = r_entries s" "r_reqs (snd (malloc n s)) = r_reqs s"
  "r_db (snd (malloc n s)) = r_db s" "r_now (snd (malloc n s)) = r_now s"
  "r_out (snd (malloc n s)) = r_out s" "length (fst (malloc n s)) = n"
  by (simp_all add: malloc_def)

lemma rand_frame [frame, simp]:
  "r_ifaces (snd (rand s)) = r_ifaces s" "r_rtable (snd (rand s)) = r_rtable s"
  "r_entries (snd (rand s)) = r_entries s" "r_reqs (snd (rand s)) = r_reqs s"
  "r_db (snd (rand s)) = r_db s" "r_now (snd (rand s)) = r_now s" "r_out (snd (rand s)) = r_out s"
  by (simp_all add: rand_def)

section \<open>An instance\<close>

text \<open>A router with the interface 10.0.0.1/8, its route, and 10.0.0.9 in the ARP cache.\<close>

definition demo_mac :: mac_addr where "demo_mac = [2, 0, 0, 0, 0, 9]"

definition demo_route :: rt_entry where
  "demo_route = \<lparr>rt_dest = 0x0a000000, rt_mask = 0xff000000, rt_gw = 0, rt_flags = 0,
     rt_if_name = ''r1-eth0'', rt_iface = 0\<rparr>"

definition demo_router :: router where
  "demo_router =
     \<lparr>r_ifaces = [\<lparr>if_index = 1, if_mac = [2, 0, 0, 0, 0, 1], if_ip = 0x0a000001,
        if_mask = 0xff000000, if_name = ''r1-eth0'', if_helloint = 5, if_num_nbr = 0, if_nbr_list = []\<rparr>],
      r_rtable = [demo_route],
      r_entries = \<lparr>ac_ip4 = 0x0a000009, ac_mac = demo_mac, ac_added = 0, ac_valid = True\<rparr> #
        replicate 31 \<lparr>ac_ip4 = 0, ac_mac = replicate 6 0, ac_added = 0, ac_valid = False\<rparr>,
      r_reqs = [], r_area_id = 0, r_router_id = 0x0a000001, r_sequence_num = 0, r_lsuint = 30,
      r_db = [], r_now = 0, r_rand = (\<lambda>_. 7), r_rands = 0, r_heap = (\<lambda>_ _. 0x45), r_mallocs = 0,
      r_out = []\<rparr>"

end
