(* ===== verification/ArpCache.thy ===== *)
theory ArpCache imports RouterState begin

text \<open>ARP of \<open>exp10/code\<close> (\<open>arp.c\<close>, \<open>arpcache.c\<close>): requests and replies, the cache of 32
  entries, the packets that wait for an answer and the periodic sweep.\<close>

section \<open>ARP packets\<close>

definition ARPHRD_ETHER :: u16 where "ARPHRD_ETHER = 1"
definition ARPOP_REQUEST :: u16 where "ARPOP_REQUEST = 1"
definition ARPOP_REPLY :: u16 where "ARPOP_REPLY = 2"

definition arp_op :: "bytes \<Rightarrow> u16" where "arp_op p = ld16 p 20"
definition arp_sha :: "bytes \<Rightarrow> mac_addr" where "arp_sha p = slice 22 6 p"
definition arp_spa :: "bytes \<Rightarrow> u32" where "arp_spa p = ld32 p 28"
definition arp_tha :: "bytes \<Rightarrow> mac_addr" where "arp_tha p = slice 32 6 p"
definition arp_tpa :: "bytes \<Rightarrow> u32" where "arp_tpa p = ld32 p 38"

definition arp_send_request :: "nat \<Rightarrow> u32 \<Rightarrow> router \<Rightarrow> router" where
  "arp_send_request i dst_ip s =
     (let (p, s) = malloc 42 s;
          iface = r_ifaces s ! i;
          p = blit p 14 (replicate 28 0);
          p = st16 p 14 (htons ARPHRD_ETHER);
          p = st16 p 16 (htons ETH_P_IP);
          p = st8 p 18 6;
          p = st8 p 19 4;
          p = st16 p 20 (htons ARPOP_REQUEST);
          p = blit p 22 (if_mac iface);
          p = st32 p 28 (htonl (if_ip iface));
          p = st32 p 38 (htonl dst_ip);
          p = blit p 0 (replicate 6 255);
          p = blit p 6 (if_mac iface);
          p = st16 p 12 (htons ETH_P_ARP)
      in iface_send_packet i p s)"

definition arp_send_reply :: "nat \<Rightarrow> bytes \<Rightarrow> router \<Rightarrow> router" where
  "arp_send_reply i req s =
     (let (p, s) = malloc 42 s;
          iface = r_ifaces s ! i;
          p = blit p 14 (replicate 28 0);
          p = st16 p 14 (htons ARPHRD_ETHER);
          p = st16 p 16 (htons ETH_P_IP);
          p = st8 p 18 6;
          p = st8 p 19 4;
          p = st16 p 20 (htons ARPOP_REPLY);
          p = blit p 22 (if_mac iface);
          p = st32 p 28 (htonl (if_ip iface));
          p = blit p 32 (arp_sha req);
          p = st32 p 38 (arp_spa req);
          p = blit p 0 (arp_sha req);
          p = blit p 6 (if_mac iface);
          p = st16 p 12 (htons ETH_P_ARP)
      in iface_send_packet i p s)"

section \<open>The cache\<close>

fun lookup_entries :: "u32 \<Rightarrow> arp_cache_entry list \<Rightarrow> mac_addr option" where
  "lookup_entries ip4 [] = None"
| "lookup_entries ip4 (e # es) =
     (if ac_valid e \<and> ac_ip4 e = ip4 then Some (ac_mac e) else lookup_entries ip4 es)"

definition arpcache_lookup :: "u32 \<Rightarrow> router \<Rightarrow> mac_addr option" where
  "arpcache_lookup ip4 s = lookup_entries ip4 (r_entries s)"

text \<open>The search of the pending requests for one of the interface and address.\<close>

fun append_to_req :: "router \<Rightarrow> nat \<Rightarrow> u32 \<Rightarrow> bytes \<Rightarrow> arp_req list \<Rightarrow> arp_req list option" where
  "append_to_req s i ip4 packet [] = None"
| "append_to_req s i ip4 packet (q # qs) =
     (if if_index (r_ifaces s ! rq_iface q) = if_index (r_ifaces s ! i) \<and> rq_ip4 q = ip4
      then Some (q \<lparr>rq_packets := rq_packets q @ [packet]\<rparr> # qs)
      else map_option ((#) q) (append_to_req s i ip4 packet qs))"

definition arpcache_append_packet :: "nat \<Rightarrow> u32 \<Rightarrow> bytes \<Rightarrow> router \<Rightarrow> router" where
  "arpcache_append_packet i ip4 packet s =
     (case append_to_req s i ip4 packet (r_reqs s) of
        Some qs \<Rightarrow> s \<lparr>r_reqs := qs\<rparr>
      | None \<Rightarrow>
          let q = \<lparr>rq_iface = i, rq_ip4 = ip4, rq_sent = r_now s, rq_retries = 1, rq_packets = [packet]\<rparr>;
              s = s \<lparr>r_reqs := q # r_reqs s\<rparr>
          in arp_send_request i ip4 s)"

text \<open>The first loop of \<open>arpcache_insert\<close>: the entries with the address are refreshed, \<open>found\<close>
  tells whether there was one and \<open>pos\<close> is the last invalid entry, or -1.\<close>

fun insert_scan :: "u32 \<Rightarrow> mac_addr \<Rightarrow> int \<Rightarrow> arp_cache_entry list \<Rightarrow> int \<Rightarrow> int \<Rightarrow> bool
    \<Rightarrow> arp_cache_entry list \<times> int \<times> bool" where
  "insert_scan ip4 mac now [] i pos found = ([], pos, found)"
| "insert_scan ip4 mac now (e # es) i pos found =
     (let hit = (ac_valid e \<and> ac_ip4 e = ip4);
          e' = (if hit then e \<lparr>ac_mac := mac, ac_added := now\<rparr> else e);
          (es', pos', found') = insert_scan ip4 mac now es (i + 1)
             (if \<not> ac_valid e then i else pos) (found \<or> hit)
      in (e' # es', pos', found'))"

text \<open>The packets of the first pending request of the address, sent; the request goes.\<close>

fun send_pending :: "nat \<Rightarrow> mac_addr \<Rightarrow> bytes list \<Rightarrow> router \<Rightarrow> router" where
  "send_pending i mac [] s = s"
| "send_pending i mac (p # ps) s =
     send_pending i mac ps (iface_send_packet i (set_eth mac (if_mac (r_ifaces s ! i)) p) s)"

fun take_req :: "u32 \<Rightarrow> arp_req list \<Rightarrow> (arp_req \<times> arp_req list) option" where
  "take_req ip4 [] = None"
| "take_req ip4 (q # qs) =
     (if rq_ip4 q = ip4 then Some (q, qs)
      else map_option (\<lambda>(q', qs'). (q', q # qs')) (take_req ip4 qs))"

text \<open>\<open>arpcache_insert\<close>. When no entry is free, \<open>pos\<close> stays -1 and the code writes before the
  array: \<open>None\<close>.\<close>

definition arpcache_insert :: "u32 \<Rightarrow> mac_addr \<Rightarrow> router \<Rightarrow> router option" where
  "arpcache_insert ip4 mac s =
     (let (es, pos, found) = insert_scan ip4 mac (r_now s) (r_entries s) 0 (- 1) False;
          s = s \<lparr>r_entries := es\<rparr>;
          stored =
            (if found then Some s
             else
               let (pos, s) = (if pos \<noteq> - 1 then let (x, s) = rand s in (int (unat x mod 32), s) else (pos, s))
               in if pos < 0 then None
                  else Some (s \<lparr>r_entries := (r_entries s)[nat pos :=
                    \<lparr>ac_ip4 = ip4, ac_mac = mac, ac_added = r_now s, ac_valid = True\<rparr>]\<rparr>))
      in case stored of
           None \<Rightarrow> None
         | Some s \<Rightarrow>
             (case take_req ip4 (r_reqs s) of
                None \<Rightarrow> Some s
              | Some (q, qs) \<Rightarrow> Some ((send_pending (rq_iface q) mac (rq_packets q) s) \<lparr>r_reqs := qs\<rparr>)))"

definition handle_arp_packet :: "nat \<Rightarrow> bytes \<Rightarrow> router \<Rightarrow> router option" where
  "handle_arp_packet i packet s =
     (let src_ip = ntohl (arp_spa packet); dst_ip = ntohl (arp_tpa packet)
      in if if_ip (r_ifaces s ! i) = dst_ip then
           if ntohs (arp_op packet) = ARPOP_REQUEST then
             arpcache_insert src_ip (arp_sha packet) (arp_send_reply i packet s)
           else if ntohs (arp_op packet) = ARPOP_REPLY then
             arpcache_insert src_ip (arp_sha packet) s
           else Some s
         else Some s)"

definition iface_send_packet_by_arp :: "nat \<Rightarrow> u32 \<Rightarrow> bytes \<Rightarrow> router \<Rightarrow> router" where
  "iface_send_packet_by_arp i dst_ip packet s =
     (let packet = st16 packet 12 (htons ETH_P_IP)
      in case arpcache_lookup dst_ip s of
           Some mac \<Rightarrow> iface_send_packet i (set_eth mac (if_mac (r_ifaces s ! i)) packet) s
         | None \<Rightarrow> arpcache_append_packet i dst_ip packet s)"

text \<open>The part of \<open>arpcache_sweep\<close> under the lock: entries older than 15 seconds become invalid;
  a request of the last second stays, one with tries left is sent again, and the packets of
  the others are collected.\<close>

definition age_entry :: "int \<Rightarrow> arp_cache_entry \<Rightarrow> arp_cache_entry" where
  "age_entry now e = (if ac_valid e \<and> now - ac_added e \<ge> 15 then e \<lparr>ac_valid := False\<rparr> else e)"

fun sweep_reqs :: "arp_req list \<Rightarrow> router \<Rightarrow> arp_req list \<times> bytes list \<times> router" where
  "sweep_reqs [] s = ([], [], s)"
| "sweep_reqs (q # qs) s =
     (if r_now s - rq_sent q < 1 then
        let (qs', ps, s) = sweep_reqs qs s in (q # qs', ps, s)
      else if rq_retries q < 5 then
        let s = arp_send_request (rq_iface q) (rq_ip4 q) s;
            (qs', ps, s) = sweep_reqs qs s
        in (q \<lparr>rq_retries := rq_retries q + 1\<rparr> # qs', ps, s)
      else
        let (qs', ps, s) = sweep_reqs qs s in (qs', rq_packets q @ ps, s))"

definition arpcache_sweep_locked :: "router \<Rightarrow> bytes list \<times> router" where
  "arpcache_sweep_locked s =
     (let s = s \<lparr>r_entries := map (age_entry (r_now s)) (r_entries s)\<rparr>;
          (qs, dropped, s) = sweep_reqs (r_reqs s) s
      in (dropped, s \<lparr>r_reqs := qs\<rparr>))"

definition arpcache_init :: "router \<Rightarrow> router" where
  "arpcache_init s = s \<lparr>r_reqs := [], r_entries :=
     replicate 32 \<lparr>ac_ip4 = 0, ac_mac = replicate 6 0, ac_added = 0, ac_valid = False\<rparr>\<rparr>"

text \<open>\<open>arpcache_destroy\<close> frees every pending packet and request.\<close>

definition arpcache_destroy :: "router \<Rightarrow> router \<times> bytes list" where
  "arpcache_destroy s = (s \<lparr>r_reqs := []\<rparr>, concat (map rq_packets (r_reqs s)))"

section \<open>Facts\<close>

definition refresh_entry :: "u32 \<Rightarrow> mac_addr \<Rightarrow> int \<Rightarrow> arp_cache_entry \<Rightarrow> arp_cache_entry" where
  "refresh_entry ip4 mac now e =
     (if ac_valid e \<and> ac_ip4 e = ip4 then e \<lparr>ac_mac := mac, ac_added := now\<rparr> else e)"

definition cached :: "u32 \<Rightarrow> arp_cache_entry list \<Rightarrow> bool" where
  "cached ip4 es \<longleftrightarrow> (\<exists>e \<in> set es. ac_valid e \<and> ac_ip4 e = ip4)"

lemma insert_scan_entries: "fst (insert_scan ip4 mac now es i pos found) = map (refresh_entry ip4 mac now) es"
  by (induction es arbitrary: i pos found) (auto simp: Let_def split_beta refresh_entry_def)

lemma insert_scan_found: "snd (snd (insert_scan ip4 mac now es i pos found)) \<longleftrightarrow> found \<or> cached ip4 es"
  by (induction es arbitrary: i pos found) (auto simp: Let_def split_beta cached_def)

lemma insert_scan_pos:
  "0 \<le> i \<Longrightarrow> fst (snd (insert_scan ip4 mac now es i pos found)) = - 1 \<longleftrightarrow>
     pos = - 1 \<and> (\<forall>e \<in> set es. ac_valid e)"
  by (induction es arbitrary: i pos found) (auto simp: Let_def split_beta)

lemma lookup_entries_None: "lookup_entries ip4 es = None \<longleftrightarrow> \<not> cached ip4 es"
  by (induction es) (auto simp: cached_def)

lemma lookup_refreshed:
  "cached ip4 es \<Longrightarrow> lookup_entries ip4 (map (refresh_entry ip4 mac now) es) = Some mac"
  by (induction es) (auto simp: cached_def refresh_entry_def)

lemma lookup_stored:
  "\<not> cached ip4 es \<Longrightarrow> j < length es \<Longrightarrow> ac_valid e \<Longrightarrow> ac_ip4 e = ip4 \<Longrightarrow> ac_mac e = mac \<Longrightarrow>
   lookup_entries ip4 (es[j := e]) = Some mac"
  by (induction es arbitrary: j) (auto simp: cached_def split: nat.split)

lemma refresh_not_cached: "\<not> cached ip4 es \<Longrightarrow> map (refresh_entry ip4 mac now) es = es"
  by (auto simp: cached_def refresh_entry_def intro!: map_idI)

lemma send_pending_out:
  "send_pending i mac ps s =
     s \<lparr>r_out := r_out s @ map (\<lambda>p. (i, set_eth mac (if_mac (r_ifaces s ! i)) p)) ps\<rparr>"
  by (induction ps arbitrary: s) (simp_all add: iface_send_packet_def)

lemma take_req_None: "take_req ip4 qs = None \<longleftrightarrow> (\<forall>q \<in> set qs. rq_ip4 q \<noteq> ip4)"
  by (induction qs) auto

text \<open>\<open>arpcache_insert\<close> in one equation.\<close>

definition store_entry :: "u32 \<Rightarrow> mac_addr \<Rightarrow> router \<Rightarrow> router option" where
  "store_entry ip4 mac s =
     (if cached ip4 (r_entries s) then
        Some (s \<lparr>r_entries := map (refresh_entry ip4 mac (r_now s)) (r_entries s)\<rparr>)
      else if \<forall>e \<in> set (r_entries s). ac_valid e then None
      else let (x, s) = rand s in Some (s \<lparr>r_entries := (r_entries s)[unat x mod 32 :=
        \<lparr>ac_ip4 = ip4, ac_mac = mac, ac_added = r_now s, ac_valid = True\<rparr>]\<rparr>))"

lemma arpcache_insert_store:
  "arpcache_insert ip4 mac s =
     map_option (\<lambda>s. case take_req ip4 (r_reqs s) of None \<Rightarrow> s
       | Some (q, qs) \<Rightarrow> (send_pending (rq_iface q) mac (rq_packets q) s) \<lparr>r_reqs := qs\<rparr>)
     (store_entry ip4 mac s)"
proof -
  obtain es pos found where scan:
    "insert_scan ip4 mac (r_now s) (r_entries s) 0 (- 1) False = (es, pos, found)"
    by (cases "insert_scan ip4 mac (r_now s) (r_entries s) 0 (- 1) False") auto
  have es: "es = map (refresh_entry ip4 mac (r_now s)) (r_entries s)"
    using insert_scan_entries [of ip4 mac "r_now s" "r_entries s" 0 "- 1" False] by (simp add: scan)
  have found: "found \<longleftrightarrow> cached ip4 (r_entries s)"
    using insert_scan_found [of ip4 mac "r_now s" "r_entries s" 0 "- 1" False] by (simp add: scan)
  have pos: "pos = - 1 \<longleftrightarrow> (\<forall>e \<in> set (r_entries s). ac_valid e)"
    using insert_scan_pos [of 0 ip4 mac "r_now s" "r_entries s" "- 1" False] by (simp add: scan)
  have nat: "nat (int n mod 32) = n mod 32" for n by (simp add: nat_mod_distrib)
  show ?thesis
  proof (cases found)
    case True
    then show ?thesis using found
      by (simp add: arpcache_insert_def scan store_entry_def es Let_def split: option.split)
  next
    case False
    then have "es = r_entries s" using found refresh_not_cached es by simp
    then have s: "s \<lparr>r_entries := es\<rparr> = s" by simp
    show ?thesis
    proof (cases "pos = - 1")
      case True
      then show ?thesis using False found pos
        by (simp add: arpcache_insert_def scan store_entry_def s Let_def)
    next
      case False
      have r: "rand (s \<lparr>r_entries := es\<rparr>) = rand s" using s by simp
      show ?thesis
        using False \<open>\<not> found\<close> found pos
        by (auto simp: arpcache_insert_def scan store_entry_def Let_def s nat split_beta split: option.split)
    qed
  qed
qed

section \<open>Requests\<close>

definition arp_request :: "iface_info \<Rightarrow> u32 \<Rightarrow> bytes \<Rightarrow> bool" where
  "arp_request iface dst p \<longleftrightarrow> length p = 42 \<and> eth_dhost p = replicate 6 255 \<and>
     eth_shost p = if_mac iface \<and> eth_type p = htons ETH_P_ARP \<and> arp_op p = htons ARPOP_REQUEST \<and>
     arp_sha p = if_mac iface \<and> arp_spa p = htonl (if_ip iface) \<and> arp_tpa p = htonl dst"

lemma arp_send_request_out:
  assumes "length (if_mac (r_ifaces s ! i)) = 6"
  shows "\<exists>p m. arp_request (r_ifaces s ! i) dst p \<and>
    arp_send_request i dst s = s \<lparr>r_mallocs := m, r_out := r_out s @ [(i, p)]\<rparr>"
proof -
  let ?mac = "if_mac (r_ifaces s ! i)" and ?ip = "if_ip (r_ifaces s ! i)"
  define p0 where "p0 = st16 (st8 (st8 (st16 (st16 (blit (fst (malloc 42 s)) 14 (replicate 28 0)) 14
    (htons ARPHRD_ETHER)) 16 (htons ETH_P_IP)) 18 6) 19 4) 20 (htons ARPOP_REQUEST)"
  define p1 where "p1 = st32 (st32 (blit p0 22 ?mac) 28 (htonl ?ip)) 38 (htonl dst)"
  define p where "p = st16 (blit (blit p1 0 (replicate 6 255)) 6 ?mac) 12 (htons ETH_P_ARP)"
  have l: "length ?mac = 6" by (rule assms)
  have l0: "length p0 = 42" by (simp add: p0_def length_blit)
  have l1: "length p1 = 42" by (simp add: p1_def length_blit l0 l)
  have lp: "length p = 42" by (simp add: p_def length_blit l1 l)
  have "arp_op p0 = htons ARPOP_REQUEST" by (simp add: p0_def arp_op_def length_blit)
  then have f1: "arp_op p1 = htons ARPOP_REQUEST" "arp_sha p1 = ?mac" "arp_spa p1 = htonl ?ip"
    "arp_tpa p1 = htonl dst"
    using slice_blit [of 22 ?mac p0] l0 l
    by (simp_all add: p1_def arp_op_def arp_sha_def arp_spa_def arp_tpa_def ld_st_apart ld_blit_apart
        slice_st_apart apart_def length_blit)
  have b: "length (blit p1 0 (replicate 6 255)) = 42" by (simp add: length_blit l1)
  have "arp_request (r_ifaces s ! i) dst p"
    using f1 l0 l1 lp l b slice_blit [of 6 ?mac "blit p1 0 (replicate 6 255)"]
      slice_blit [of 0 "replicate 6 255" p1]
    by (simp add: arp_request_def p_def eth_dhost_def eth_shost_def eth_type_def arp_op_def arp_sha_def
        arp_spa_def arp_tpa_def ld_st_apart ld_blit_apart slice_st_apart slice_blit_apart apart_def length_blit)
  moreover have "arp_send_request i dst s = iface_send_packet i p (snd (malloc 42 s))"
    by (simp add: arp_send_request_def Let_def split_beta p_def p1_def p0_def)
  ultimately show ?thesis by (auto simp: iface_send_packet_def malloc_def)
qed

lemma append_to_req_None:
  "\<forall>q \<in> set qs. rq_ip4 q \<noteq> ip4 \<Longrightarrow> append_to_req s i ip4 p qs = None"
  by (induction qs) auto

text \<open>C23. Resolution delivers: a packet for an address that is neither cached nor being
  resolved makes the router send one ARP request for it, on the packet's interface, to the
  broadcast address; when the address is then learned, the packet leaves on that interface
  with the learned MAC address, and no request stays pending for it.\<close>

theorem arp_resolution_delivers:
  assumes "arpcache_lookup ip4 s = None" "\<forall>q \<in> set (r_reqs s). rq_ip4 q \<noteq> ip4"
    and "length (if_mac (r_ifaces s ! i)) = 6"
    and "arpcache_insert ip4 mac (iface_send_packet_by_arp i ip4 p s) = Some s'"
  shows "\<exists>req. arp_request (r_ifaces s ! i) ip4 req \<and>
    r_out s' = r_out s @ [(i, req),
      (i, set_eth mac (if_mac (r_ifaces s ! i)) (st16 p 12 (htons ETH_P_IP)))] \<and>
    r_reqs s' = r_reqs s"
proof -
  let ?p = "st16 p 12 (htons ETH_P_IP)"
  let ?q = "\<lparr>rq_iface = i, rq_ip4 = ip4, rq_sent = r_now s, rq_retries = 1, rq_packets = [?p]\<rparr>"
  let ?s = "s \<lparr>r_reqs := ?q # r_reqs s\<rparr>"
  obtain req m where req: "arp_request (r_ifaces s ! i) ip4 req"
    and send: "arp_send_request i ip4 ?s = ?s \<lparr>r_mallocs := m, r_out := r_out s @ [(i, req)]\<rparr>"
    using arp_send_request_out [of ?s i ip4] assms(3) by auto
  have s1: "iface_send_packet_by_arp i ip4 p s = ?s \<lparr>r_mallocs := m, r_out := r_out s @ [(i, req)]\<rparr>"
    using assms(1) append_to_req_None [OF assms(2), of s i ?p] send
    by (simp add: iface_send_packet_by_arp_def arpcache_append_packet_def Let_def)
  obtain s2 where s2: "store_entry ip4 mac (iface_send_packet_by_arp i ip4 p s) = Some s2"
      "s' = (case take_req ip4 (r_reqs s2) of None \<Rightarrow> s2
       | Some (q, qs) \<Rightarrow> (send_pending (rq_iface q) mac (rq_packets q) s2) \<lparr>r_reqs := qs\<rparr>)"
    using assms(4) by (auto simp: arpcache_insert_store)
  have keep: "r_reqs s2 = ?q # r_reqs s" "r_out s2 = r_out s @ [(i, req)]" "r_ifaces s2 = r_ifaces s"
    using s2(1) by (auto simp: s1 store_entry_def split_beta Let_def split: if_splits)
  show ?thesis
    using req s2(2) keep by (auto simp: send_pending_out)
qed

lemma arp_resolution_delivers_witness:
  "\<exists>s' req. arpcache_insert 0x0a000005 demo_mac
      (iface_send_packet_by_arp 0 0x0a000005 (replicate 60 0) demo_router) = Some s' \<and>
    arp_request (r_ifaces demo_router ! 0) 0x0a000005 req \<and>
    r_out s' = [(0, req), (0, set_eth demo_mac (if_mac (r_ifaces demo_router ! 0))
      (st16 (replicate 60 0) 12 (htons ETH_P_IP)))] \<and> r_reqs s' = []"
proof -
  have miss: "arpcache_lookup 0x0a000005 demo_router = None" by code_simp
  have rest: "r_reqs demo_router = []" "r_out demo_router = []"
    "length (if_mac (r_ifaces demo_router ! 0)) = 6"
    by (simp_all add: demo_router_def)
  have "\<not> Option.is_none (arpcache_insert 0x0a000005 demo_mac
      (iface_send_packet_by_arp 0 0x0a000005 (replicate 60 0) demo_router))" by code_simp
  then obtain s' where s': "arpcache_insert 0x0a000005 demo_mac
      (iface_send_packet_by_arp 0 0x0a000005 (replicate 60 0) demo_router) = Some s'"
    by (auto simp: Option.is_none_def)
  show ?thesis
    using arp_resolution_delivers [OF miss _ rest(3) s'] s' rest by auto
qed

text \<open>What an insertion does to the cache: it is undefined exactly when the address is
  not cached and all entries are valid (the code then writes before the array); otherwise the
  address is found with its new MAC afterwards, and the cache keeps its size.\<close>

theorem arpcache_insert_lookup:
  assumes "length (r_entries s) = 32"
  shows "case arpcache_insert ip4 mac s of
      None \<Rightarrow> arpcache_lookup ip4 s = None \<and> (\<forall>e \<in> set (r_entries s). ac_valid e)
    | Some s' \<Rightarrow> arpcache_lookup ip4 s' = Some mac \<and> length (r_entries s') = 32 \<and>
        \<not> (arpcache_lookup ip4 s = None \<and> (\<forall>e \<in> set (r_entries s). ac_valid e))"
proof (cases "store_entry ip4 mac s")
  case None
  then show ?thesis
    by (auto simp: arpcache_insert_store store_entry_def arpcache_lookup_def lookup_entries_None
        split_beta Let_def split: if_splits)
next
  case (Some s2)
  have rand: "r_entries (snd (rand s)) = r_entries s" by simp
  have "lookup_entries ip4 (r_entries s2) = Some mac \<and> length (r_entries s2) = 32 \<and>
      \<not> (arpcache_lookup ip4 s = None \<and> (\<forall>e \<in> set (r_entries s). ac_valid e))"
  proof (cases "cached ip4 (r_entries s)")
    case True
    then have "s2 = s \<lparr>r_entries := map (refresh_entry ip4 mac (r_now s)) (r_entries s)\<rparr>"
      using Some by (simp add: store_entry_def)
    then show ?thesis
      using True assms lookup_refreshed [OF True] by (simp add: arpcache_lookup_def lookup_entries_None)
  next
    case False
    let ?e = "\<lparr>ac_ip4 = ip4, ac_mac = mac, ac_added = r_now (snd (rand s)), ac_valid = True\<rparr>"
    define j where "j = unat (fst (rand s)) mod 32"
    have j: "j < 32" "r_entries s2 = (r_entries s)[j := ?e]"
      "\<not> (\<forall>e \<in> set (r_entries s). ac_valid e)"
      using Some False rand by (auto simp: j_def store_entry_def split_beta Let_def split: if_splits)
    show ?thesis
      using lookup_stored [OF False, of j ?e mac] j assms by simp
  qed
  moreover have "r_entries ((send_pending i mac ps s2) \<lparr>r_reqs := qs\<rparr>) = r_entries s2" for i ps qs
    by (simp add: send_pending_out)
  ultimately show ?thesis
    using Some by (auto simp: arpcache_insert_store arpcache_lookup_def split: option.split prod.split)
qed

lemma arpcache_insert_lookup_witness:
  "\<exists>s'. arpcache_insert 0x0a000005 demo_mac demo_router = Some s' \<and>
    arpcache_lookup 0x0a000005 s' = Some demo_mac \<and> length (r_entries s') = 32"
proof -
  have "\<not> Option.is_none (arpcache_insert 0x0a000005 demo_mac demo_router)" by code_simp
  moreover have "length (r_entries demo_router) = 32" by (simp add: demo_router_def)
  ultimately show ?thesis
    using arpcache_insert_lookup [of demo_router "0x0a000005" demo_mac]
    by (auto simp: Option.is_none_def split: option.splits)
qed

end
