(* ===== verification/IpForward.thy ===== *)
theory IpForward imports ArpCache begin

text \<open>ICMP and the forwarding of IP packets (\<open>icmp.c\<close>, \<open>ip.c\<close> of \<open>exp10/code\<close>), and the whole
  round of the ARP sweep, which reports unreachable hosts. An access outside a packet buffer is
  \<open>None\<close>; memory is not released in the model.\<close>

section \<open>ICMP\<close>

definition ICMP_HDR_SIZE :: nat where "ICMP_HDR_SIZE = 8"
definition ICMP_COPIED_DATA_LEN :: nat where "ICMP_COPIED_DATA_LEN = 8"
definition ICMP_ECHOREQUEST :: u8 where "ICMP_ECHOREQUEST = 8"
definition ICMP_ECHOREPLY :: u8 where "ICMP_ECHOREPLY = 0"
definition ICMP_DEST_UNREACH :: u8 where "ICMP_DEST_UNREACH = 3"
definition ICMP_TIME_EXCEEDED :: u8 where "ICMP_TIME_EXCEEDED = 11"
definition ICMP_NET_UNREACH :: u8 where "ICMP_NET_UNREACH = 0"
definition ICMP_HOST_UNREACH :: u8 where "ICMP_HOST_UNREACH = 1"
definition ICMP_EXC_TTL :: u8 where "ICMP_EXC_TTL = 0"

text \<open>The fields of the ICMP header at offset \<open>t\<close>.\<close>

definition icmp_type :: "bytes \<Rightarrow> nat \<Rightarrow> u8" where "icmp_type p t = ld8 p t"
definition icmp_code :: "bytes \<Rightarrow> nat \<Rightarrow> u8" where "icmp_code p t = ld8 p (t + 1)"
definition icmp_identifier :: "bytes \<Rightarrow> nat \<Rightarrow> u16" where "icmp_identifier p t = ld16 p (t + 4)"
definition icmp_sequence :: "bytes \<Rightarrow> nat \<Rightarrow> u16" where "icmp_sequence p t = ld16 p (t + 6)"

definition icmp_checksum :: "bytes \<Rightarrow> nat \<Rightarrow> nat \<Rightarrow> u16" where
  "icmp_checksum p t len = checksum (drop t (st16 p (t + 2) 0)) len 0"

text \<open>The lengths that \<open>icmp_send_packet\<close> computes. In the code they are signed; a negative
  length and a length below 8 both end in a copy of nearly \<open>2\<^sup>6\<^sup>4\<close> bytes, so the truncated
  difference loses nothing.\<close>

definition icmp_lens :: "bytes \<Rightarrow> u8 \<Rightarrow> nat \<times> nat" where
  "icmp_lens in_pkt type =
     (if type = ICMP_ECHOREPLY then
        (unat (ntohs (ip_tot_len in_pkt)) - IP_HDR_SIZE in_pkt, length in_pkt)
      else
        let icmp_len = ICMP_HDR_SIZE + IP_HDR_SIZE in_pkt + ICMP_COPIED_DATA_LEN
        in (icmp_len, ETHER_HDR_SIZE + IP_BASE_HDR_SIZE + icmp_len))"

text \<open>Whether the reads from \<open>in_pkt\<close> and the writes to the new packet stay in bounds.\<close>

definition icmp_in_bounds :: "bytes \<Rightarrow> u8 \<Rightarrow> bool" where
  "icmp_in_bounds in_pkt type =
     (let (icmp_len, out_len) = icmp_lens in_pkt type;
          from = (if type = ICMP_ECHOREPLY then ip_data in_pkt + ICMP_HDR_SIZE else ETHER_HDR_SIZE)
      in ETHER_HDR_SIZE + IP_BASE_HDR_SIZE \<le> length in_pkt \<and> ICMP_HDR_SIZE \<le> icmp_len \<and>
         34 + icmp_len \<le> out_len \<and> from + (icmp_len - ICMP_HDR_SIZE) \<le> length in_pkt)"

text \<open>The new packet up to its IP header.\<close>

definition icmp_fill :: "bytes \<Rightarrow> u8 \<Rightarrow> u8 \<Rightarrow> bytes \<Rightarrow> bytes" where
  "icmp_fill in_pkt type code p =
     (let icmp_len = fst (icmp_lens in_pkt type);
          in_icmp = ip_data in_pkt;
          p = blit p 0 (replicate (length p) 0);
          p = st8 p 34 type;
          p = st8 p 35 code;
          p = (if type = ICMP_ECHOREPLY then
                 let p = st16 p 38 (icmp_identifier in_pkt in_icmp);
                     p = st16 p 40 (icmp_sequence in_pkt in_icmp)
                 in blit p 42 (slice (in_icmp + ICMP_HDR_SIZE) (icmp_len - ICMP_HDR_SIZE) in_pkt)
               else blit p 42 (slice ETHER_HDR_SIZE (icmp_len - ICMP_HDR_SIZE) in_pkt))
      in st16 p 36 (icmp_checksum p 34 icmp_len))"

text \<open>\<open>ip_send_packet\<close> sends a packet of the router itself; without a route it is dropped.\<close>

definition ip_send_packet :: "bytes \<Rightarrow> router \<Rightarrow> router" where
  "ip_send_packet packet s =
     (let dst = ntohl (ip_daddr packet)
      in case longest_prefix_match dst s of
           None \<Rightarrow> s
         | Some e \<Rightarrow> iface_send_packet_by_arp (rt_iface e) (get_next_hop e dst) packet s)"

definition icmp_send_packet :: "bytes \<Rightarrow> u8 \<Rightarrow> u8 \<Rightarrow> router \<Rightarrow> router option" where
  "icmp_send_packet in_pkt type code s =
     (if \<not> icmp_in_bounds in_pkt type then None
      else
        let (icmp_len, out_len) = icmp_lens in_pkt type;
            (p, s) = malloc out_len s;
            p = icmp_fill in_pkt type code p;
            out_ip_len = of_nat (IP_BASE_HDR_SIZE + icmp_len);
            daddr = ntohl (ip_saddr in_pkt)
        in if type = ICMP_ECHOREPLY then
             let saddr = ntohl (ip_daddr in_pkt);
                 (x, s) = rand s
             in Some (ip_send_packet (ip_init_hdr saddr daddr out_ip_len IPPROTO_ICMP x p) s)
           else
             (case longest_prefix_match daddr s of
                None \<Rightarrow> Some s
              | Some e \<Rightarrow>
                  let saddr = if_ip (r_ifaces s ! rt_iface e);
                      (x, s) = rand s;
                      p = ip_init_hdr saddr daddr out_ip_len IPPROTO_ICMP x p
                  in Some (iface_send_packet_by_arp (rt_iface e) (get_next_hop e daddr) p s)))"

section \<open>Forwarding\<close>

definition ip_forward_packet :: "u32 \<Rightarrow> bytes \<Rightarrow> router \<Rightarrow> router option" where
  "ip_forward_packet ip_dst packet s =
     (if ip_ttl packet \<le> 1 then icmp_send_packet packet ICMP_TIME_EXCEEDED ICMP_EXC_TTL s
      else
        let packet = st8 packet 22 (ip_ttl packet - 1);
            packet = st16 packet 24 (ip_checksum packet)
        in case longest_prefix_match ip_dst s of
             None \<Rightarrow> icmp_send_packet packet ICMP_DEST_UNREACH ICMP_NET_UNREACH s
           | Some e \<Rightarrow>
               Some (iface_send_packet_by_arp (rt_iface e) (get_next_hop e ip_dst) packet s))"

section \<open>The ARP sweep\<close>

text \<open>After the lock is released, each packet that waited in vain is answered by a host
  unreachable message.\<close>

fun report_dropped :: "bytes list \<Rightarrow> router \<Rightarrow> router option" where
  "report_dropped [] s = Some s"
| "report_dropped (p # ps) s =
     (case icmp_send_packet p ICMP_DEST_UNREACH ICMP_HOST_UNREACH s of
        None \<Rightarrow> None
      | Some s \<Rightarrow> report_dropped ps s)"

definition arpcache_sweep :: "router \<Rightarrow> router option" where
  "arpcache_sweep s = (let (dropped, s) = arpcache_sweep_locked s in report_dropped dropped s)"

section \<open>Facts\<close>

text \<open>What leaves the router when the next hop's MAC address is cached.\<close>

definition framed :: "mac_addr \<Rightarrow> iface_info \<Rightarrow> bytes \<Rightarrow> bytes \<Rightarrow> bool" where
  "framed mac iface p q \<longleftrightarrow> length q = length p \<and> eth_dhost q = mac \<and> eth_shost q = if_mac iface \<and>
     eth_type q = htons ETH_P_IP \<and> drop 14 q = drop 14 p"

lemma send_by_arp_hit:
  assumes "arpcache_lookup ip4 s = Some mac" "length mac = 6" "length (if_mac (r_ifaces s ! i)) = 6"
    and "14 \<le> length p"
  shows "\<exists>q. framed mac (r_ifaces s ! i) p q \<and>
    iface_send_packet_by_arp i ip4 p s = s \<lparr>r_out := r_out s @ [(i, q)]\<rparr>"
proof -
  let ?q = "set_eth mac (if_mac (r_ifaces s ! i)) (st16 p 12 (htons ETH_P_IP))"
  have "framed mac (r_ifaces s ! i) p ?q"
    using assms by (simp add: framed_def set_eth_out drop_st) (simp add: eth_type_def)
  moreover have "iface_send_packet_by_arp i ip4 p s = s \<lparr>r_out := r_out s @ [(i, ?q)]\<rparr>"
    using assms(1) by (simp add: iface_send_packet_by_arp_def iface_send_packet_def)
  ultimately show ?thesis by blast
qed

lemma framed_ip:
  assumes "framed mac iface p q" "14 \<le> length p"
  shows "ip_ihl q = ip_ihl p" "ip_tot_len q = ip_tot_len p" "ip_ttl q = ip_ttl p"
    "ip_protocol q = ip_protocol p" "ip_saddr q = ip_saddr p" "ip_daddr q = ip_daddr p"
    "ip_verifies q = ip_verifies p"
  using assms ip_fields_cong [of q p] by (simp_all add: framed_def)

lemma framed_drop: "framed mac iface p q \<Longrightarrow> 14 \<le> k \<Longrightarrow> drop k q = drop k p"
  unfolding framed_def by (metis drop_drop le_add_diff_inverse2)

definition best_route :: "u32 \<Rightarrow> rt_entry \<Rightarrow> router \<Rightarrow> bool" where
  "best_route dst e s \<longleftrightarrow> e \<in> set (r_rtable s) \<and> rt_matches dst e \<and>
     (\<forall>e' \<in> set (r_rtable s). rt_matches dst e' \<longrightarrow> rt_mask e' \<le> rt_mask e)"

lemma lpm_best: "longest_prefix_match dst s = Some e \<Longrightarrow> best_route dst e s"
  using longest_prefix_match_spec [where dst = dst and s = s] by (simp add: best_route_def)

lemma icmp_fill_facts:
  fixes in_pkt p :: bytes and ty code :: u8
  assumes "icmp_in_bounds in_pkt ty" "length p = snd (icmp_lens in_pkt ty)"
  defines "n \<equiv> fst (icmp_lens in_pkt ty)"
  defines "q \<equiv> icmp_fill in_pkt ty code p"
  shows "length q = length p" "icmp_type q 34 = ty" "icmp_code q 34 = code"
    "even n \<Longrightarrow> n < 131072 \<Longrightarrow> checksum (drop 34 q) n 0 = 0"
    "ty \<noteq> ICMP_ECHOREPLY \<Longrightarrow> slice 42 (n - 8) q = slice 14 (n - 8) in_pkt"
    "ty = ICMP_ECHOREPLY \<Longrightarrow> icmp_identifier q 34 = icmp_identifier in_pkt (ip_data in_pkt) \<and>
       icmp_sequence q 34 = icmp_sequence in_pkt (ip_data in_pkt) \<and>
       slice 42 (n - 8) q = slice (ip_data in_pkt + 8) (n - 8) in_pkt"
proof -
  define p1 where "p1 = st8 (st8 (blit p 0 (replicate (length p) 0)) 34 ty) 35 code"
  define p2 where "p2 = (if ty = ICMP_ECHOREPLY then st16 (st16 p1 38
    (icmp_identifier in_pkt (ip_data in_pkt))) 40 (icmp_sequence in_pkt (ip_data in_pkt)) else p1)"
  define d where "d = (if ty = ICMP_ECHOREPLY then slice (ip_data in_pkt + 8) (n - 8) in_pkt
    else slice 14 (n - 8) in_pkt)"
  have b: "34 + n \<le> length p" "8 \<le> n" "length d = n - 8"
    using assms(1,2) by (auto simp: icmp_in_bounds_def n_def d_def Let_def split_beta
        ICMP_HDR_SIZE_def ETHER_HDR_SIZE_def length_slice)
  have q: "q = st16 (blit p2 42 d) 36 (icmp_checksum (blit p2 42 d) 34 n)"
    by (simp add: q_def icmp_fill_def Let_def n_def d_def p2_def p1_def ICMP_HDR_SIZE_def ETHER_HDR_SIZE_def)
  have l: "length p1 = length p" "length p2 = length p" "length (blit p2 42 d) = length p"
    using b by (simp_all add: p1_def p2_def length_blit)
  note offs = ld_st_apart ld_blit_apart slice_st_apart apart_def
  show "length q = length p" by (simp add: q l)
  show "icmp_type q 34 = ty" "icmp_code q 34 = code"
    using b l by (simp_all add: q icmp_type_def icmp_code_def p2_def p1_def offs length_blit)
  show "checksum (drop 34 q) n 0 = 0" if "even n" "n < 131072"
    using checksum_field_verifies [of 1 "n div 2" 34 "blit p2 42 d"] that b l
    by (simp add: q icmp_checksum_def)
  show "slice 42 (n - 8) q = slice 14 (n - 8) in_pkt" if "ty \<noteq> ICMP_ECHOREPLY"
    using b l slice_blit [of 42 d p2] that by (simp add: q offs d_def)
  show "icmp_identifier q 34 = icmp_identifier in_pkt (ip_data in_pkt) \<and>
       icmp_sequence q 34 = icmp_sequence in_pkt (ip_data in_pkt) \<and>
       slice 42 (n - 8) q = slice (ip_data in_pkt + 8) (n - 8) in_pkt" if "ty = ICMP_ECHOREPLY"
    using b l slice_blit [of 42 d p2] that
    by (simp add: q offs d_def p2_def icmp_identifier_def icmp_sequence_def)
qed

text \<open>C10. A packet whose TTL allows it is forwarded: it leaves on the interface of a matching
  route of the largest mask, framed for the next hop, with the TTL one less, a header checksum
  that verifies, and every other byte behind the Ethernet header unchanged.\<close>

theorem ip_forward_delivers:
  assumes "ip_hdr_ok p" "1 < ip_ttl p" "longest_prefix_match dst s = Some e"
    and "arpcache_lookup (get_next_hop e dst) s = Some mac" "length mac = 6"
    and "length (if_mac (r_ifaces s ! rt_iface e)) = 6"
  shows "\<exists>q. ip_forward_packet dst p s = Some (s \<lparr>r_out := r_out s @ [(rt_iface e, q)]\<rparr>) \<and>
    best_route dst e s \<and> eth_dhost q = mac \<and> eth_shost q = if_mac (r_ifaces s ! rt_iface e) \<and>
    eth_type q = htons ETH_P_IP \<and> ip_ttl q = ip_ttl p - 1 \<and> ip_verifies q \<and>
    length q = length p \<and> slice 14 8 q = slice 14 8 p \<and> ip_protocol q = ip_protocol p \<and> drop 26 q = drop 26 p"
proof -
  define p' where "p' = set_ip_checksum (st8 p 22 (ip_ttl p - 1))"
  have l: "34 \<le> length p" using assms(1) by (simp add: ip_hdr_ok_def IP_HDR_SIZE_def ETHER_HDR_SIZE_def)
  have p': "length p' = length p" "ip_ttl p' = ip_ttl p - 1" "drop 26 p' = drop 26 p"
    using l by (simp_all add: p'_def) (simp_all add: set_ip_checksum_def ip_ttl_def drop_st)
  have same: "slice 14 8 p' = slice 14 8 p" "ip_protocol p' = ip_protocol p"
    by (simp_all add: p'_def set_ip_checksum_def ip_protocol_def slice_st_apart ld_st_apart apart_def)
  have v: "ip_verifies p'"
    unfolding p'_def using assms(1)
    by (intro set_ip_checksum_verifies) (simp add: ip_hdr_ok_def IP_HDR_SIZE_def ip_ihl_def ld_st_apart apart_def)
  have run: "ip_forward_packet dst p s =
      Some (iface_send_packet_by_arp (rt_iface e) (get_next_hop e dst) p' s)"
    using assms(3) linorder_not_le [THEN iffD2, OF assms(2)] by (simp add: ip_forward_packet_def p'_def set_ip_checksum_def Let_def)
  obtain q where q: "framed mac (r_ifaces s ! rt_iface e) p' q"
    "iface_send_packet_by_arp (rt_iface e) (get_next_hop e dst) p' s =
     s \<lparr>r_out := r_out s @ [(rt_iface e, q)]\<rparr>"
    using send_by_arp_hit [OF assms(4-6), of p'] l p'(1) by auto
  have "slice 14 8 q = slice 14 8 p" using framed_drop [OF q(1), of 14] same(1) by (simp add: slice_def)
  then show ?thesis
    using run q(2) lpm_best [OF assms(3)] framed_ip [OF q(1)] framed_drop [OF q(1), of 26] p' same(2) v l q(1)
    by (intro exI [of _ q]) (simp add: framed_def)
qed

text \<open>The ICMP part of a frame lies after its IP header of 20 bytes.\<close>

lemma icmp_fields_cong:
  assumes "drop 34 p = drop 34 q" "34 \<le> length p" "34 \<le> length q"
  shows "icmp_type p 34 = icmp_type q 34" "icmp_code p 34 = icmp_code q 34"
    "icmp_identifier p 34 = icmp_identifier q 34" "icmp_sequence p 34 = icmp_sequence q 34"
    "slice 42 n p = slice 42 n q"
proof -
  have "drop 8 (drop 34 p) = drop 8 (drop 34 q)" by (simp only: assms(1))
  then show "slice 42 n p = slice 42 n q" by (simp add: slice_def)
qed (use assms in \<open>simp_all add: icmp_type_def icmp_code_def icmp_identifier_def icmp_sequence_def
      ld8_drop [of 34] ld16_drop [of 34]\<close>)

text \<open>An ICMP message of the given type about the packet \<open>p\<close>: sent to its source, valid, and
  with its IP header and the eight bytes after it inside.\<close>

definition reports :: "bytes \<Rightarrow> u8 \<Rightarrow> u8 \<Rightarrow> u32 \<Rightarrow> bytes \<Rightarrow> bool" where
  "reports p type code saddr q \<longleftrightarrow>
     (let n = IP_HDR_SIZE p + 8
      in length q = 42 + n \<and> ip_ihl q = 5 \<and> ip_tot_len q = htons (of_nat (28 + n)) \<and>
         ip_protocol q = IPPROTO_ICMP \<and> ip_ttl q = DEFAULT_TTL \<and>
         ip_saddr q = htonl saddr \<and> ip_daddr q = ip_saddr p \<and> ip_verifies q \<and>
         icmp_type q 34 = type \<and> icmp_code q 34 = code \<and> checksum (drop 34 q) (8 + n) 0 = 0 \<and>
         slice 42 n q = slice 14 n p)"

definition reachable_via :: "u32 \<Rightarrow> rt_entry \<Rightarrow> mac_addr \<Rightarrow> router \<Rightarrow> bool" where
  "reachable_via dst e mac s \<longleftrightarrow> longest_prefix_match dst s = Some e \<and>
     arpcache_lookup (get_next_hop e dst) s = Some mac \<and> length mac = 6 \<and>
     length (if_mac (r_ifaces s ! rt_iface e)) = 6"

lemma icmp_error_sent:
  assumes "ip_hdr_ok p" "22 + IP_HDR_SIZE p \<le> length p" "type \<noteq> ICMP_ECHOREPLY"
    and "reachable_via (ntohl (ip_saddr p)) e mac s"
  shows "\<exists>q s'. icmp_send_packet p type code s = Some s' \<and> r_out s' = r_out s @ [(rt_iface e, q)] \<and>
    eth_dhost q = mac \<and> reports p type code (if_ip (r_ifaces s ! rt_iface e)) q"
proof -
  let ?n = "IP_HDR_SIZE p + 16" and ?da = "ntohl (ip_saddr p)"
  have lens: "icmp_lens p type = (?n, 34 + ?n)"
    using assms(3) by (simp add: icmp_lens_def Let_def ICMP_HDR_SIZE_def ICMP_COPIED_DATA_LEN_def
        ETHER_HDR_SIZE_def IP_BASE_HDR_SIZE_def)
  have n: "20 \<le> IP_HDR_SIZE p" "IP_HDR_SIZE p < 64" "even ?n"
    using assms(1) ip_ihl_less [of p] by (simp_all add: ip_hdr_ok_def IP_HDR_SIZE_def)
  have bounds: "icmp_in_bounds p type"
    using assms(2,3) n by (simp add: icmp_in_bounds_def lens ICMP_HDR_SIZE_def ETHER_HDR_SIZE_def IP_BASE_HDR_SIZE_def)
  define m where "m = fst (malloc (34 + ?n) s)"
  define s1 where "s1 = snd (rand (snd (malloc (34 + ?n) s)))"
  define x where "x = fst (rand (snd (malloc (34 + ?n) s)))"
  define f where "f = icmp_fill p type code m"
  define h where "h = ip_init_hdr (if_ip (r_ifaces s ! rt_iface e)) ?da (of_nat (36 + IP_HDR_SIZE p)) IPPROTO_ICMP x f"
  have keep: "arpcache_lookup a s1 = arpcache_lookup a s" "r_ifaces s1 = r_ifaces s" "r_out s1 = r_out s"
    "longest_prefix_match a (snd (malloc k s)) = longest_prefix_match a s" for a k
    by (simp_all add: s1_def arpcache_lookup_def longest_prefix_match_def)
  note fill = icmp_fill_facts [OF bounds, of m code, unfolded lens fst_conv snd_conv, folded f_def]
  have lf: "length f = 34 + ?n" using fill(1) by (simp add: m_def)
  have run: "icmp_send_packet p type code s =
      Some (iface_send_packet_by_arp (rt_iface e) (get_next_hop e ?da) h s1)"
    using bounds assms(3,4)
    by (simp add: icmp_send_packet_def lens split_beta Let_def reachable_via_def keep m_def f_def h_def
        s1_def x_def IP_BASE_HDR_SIZE_def)
  have lh: "length h = 34 + ?n" "drop 34 h = drop 34 f"
    using lf by (simp_all add: h_def ip_init_hdr_fields(7))
  obtain q where q: "framed mac (r_ifaces s ! rt_iface e) h q"
    "iface_send_packet_by_arp (rt_iface e) (get_next_hop e ?da) h s1 =
     s1 \<lparr>r_out := r_out s @ [(rt_iface e, q)]\<rparr>"
    using send_by_arp_hit [of "get_next_hop e ?da" s1 mac "rt_iface e" h] assms(4) lh
    by (auto simp: reachable_via_def keep)
  have dq: "drop 34 q = drop 34 f" "length q = 34 + ?n"
    using framed_drop [OF q(1), of 34] lh q(1) by (simp_all add: framed_def)
  have ipq: "ip_ihl q = 5" "ip_tot_len q = htons (of_nat (36 + IP_HDR_SIZE p))"
    "ip_ttl q = DEFAULT_TTL" "ip_protocol q = IPPROTO_ICMP"
    "ip_saddr q = htonl (if_ip (r_ifaces s ! rt_iface e))" "ip_daddr q = ip_saddr p" "ip_verifies q"
    using framed_ip [OF q(1)] lh lf
    by (simp_all add: h_def ip_init_hdr_fields ip_init_hdr_verifies)
  have "reports p type code (if_ip (r_ifaces s ! rt_iface e)) q"
    using ipq dq icmp_fields_cong [OF dq(1)] fill lf n assms(3)
    by (simp add: reports_def Let_def m_def add.commute)
  then show ?thesis using run q by (auto simp: framed_def)
qed

text \<open>C26. A packet that cannot be forwarded is reported to its source: with a TTL of at most 1
  by an ICMP time exceeded message, without a route by a network unreachable message that
  carries the header as it is after the TTL was lowered. The message is valid: both checksums
  verify, and it holds the IP header and the eight bytes after it.\<close>

theorem ip_forward_reports:
  assumes "ip_hdr_ok p" "22 + IP_HDR_SIZE p \<le> length p"
    and "reachable_via (ntohl (ip_saddr p)) e mac s"
    and "ip_ttl p \<le> 1 \<or> longest_prefix_match dst s = None"
  shows "\<exists>q s'. ip_forward_packet dst p s = Some s' \<and> r_out s' = r_out s @ [(rt_iface e, q)] \<and>
    eth_dhost q = mac \<and>
    (if ip_ttl p \<le> 1 then reports p ICMP_TIME_EXCEEDED ICMP_EXC_TTL (if_ip (r_ifaces s ! rt_iface e)) q
     else reports (set_ip_checksum (st8 p 22 (ip_ttl p - 1))) ICMP_DEST_UNREACH ICMP_NET_UNREACH
       (if_ip (r_ifaces s ! rt_iface e)) q)"
proof -
  let ?p = "set_ip_checksum (st8 p 22 (ip_ttl p - 1))"
  have p: "ip_ihl ?p = ip_ihl p" "IP_HDR_SIZE ?p = IP_HDR_SIZE p" "ip_saddr ?p = ip_saddr p" "length ?p = length p"
    by (simp_all add: IP_HDR_SIZE_def) (simp_all add: ip_field_defs ld_st_apart apart_def)
  have "ip_hdr_ok ?p" using assms(1) p by (simp add: ip_hdr_ok_def)
  then show ?thesis
    using icmp_error_sent [OF assms(1,2) _ assms(3), of ICMP_TIME_EXCEEDED ICMP_EXC_TTL]
      icmp_error_sent [of ?p ICMP_DEST_UNREACH e mac s ICMP_NET_UNREACH] assms p
    by (auto simp: ip_forward_packet_def Let_def set_ip_checksum_def [symmetric]
        ICMP_TIME_EXCEEDED_def ICMP_DEST_UNREACH_def ICMP_ECHOREPLY_def)
qed

text \<open>An echo request is answered by its replica: the reply goes from the requested address
  to the asking one, with the identifier, the sequence number and the data of the request, and
  both checksums verify (for an even number of bytes).\<close>

theorem echo_reply_replicates:
  fixes p :: bytes
  defines "n \<equiv> unat (ntohs (ip_tot_len p)) - IP_HDR_SIZE p"
  assumes "icmp_in_bounds p ICMP_ECHOREPLY" "even n"
    and "reachable_via (ntohl (ip_saddr p)) e mac s"
  shows "\<exists>q s'. icmp_send_packet p ICMP_ECHOREPLY 0 s = Some s' \<and>
    r_out s' = r_out s @ [(rt_iface e, q)] \<and> eth_dhost q = mac \<and> length q = length p \<and>
    ip_saddr q = ip_daddr p \<and> ip_daddr q = ip_saddr p \<and> ip_verifies q \<and>
    ip_tot_len q = htons (of_nat (20 + n)) \<and>
    icmp_type q 34 = ICMP_ECHOREPLY \<and> icmp_identifier q 34 = icmp_identifier p (ip_data p) \<and>
    icmp_sequence q 34 = icmp_sequence p (ip_data p) \<and>
    slice 42 (n - 8) q = slice (ip_data p + 8) (n - 8) p \<and> checksum (drop 34 q) n 0 = 0"
proof -
  let ?da = "ntohl (ip_saddr p)"
  have lens: "icmp_lens p ICMP_ECHOREPLY = (n, length p)"
    by (simp add: icmp_lens_def n_def)
  have n: "n < 131072" using unsigned_less [of "ntohs (ip_tot_len p)", where 'a = nat] by (simp add: n_def)
  have l: "34 + n \<le> length p"
    using assms(2) by (simp add: icmp_in_bounds_def lens)
  define m where "m = fst (malloc (length p) s)"
  define s1 where "s1 = snd (rand (snd (malloc (length p) s)))"
  define x where "x = fst (rand (snd (malloc (length p) s)))"
  define f where "f = icmp_fill p ICMP_ECHOREPLY 0 m"
  define h where "h = ip_init_hdr (ntohl (ip_daddr p)) ?da (of_nat (20 + n)) IPPROTO_ICMP x f"
  have keep: "arpcache_lookup a s1 = arpcache_lookup a s" "r_ifaces s1 = r_ifaces s" "r_out s1 = r_out s"
    "longest_prefix_match a s1 = longest_prefix_match a s" for a
    by (simp_all add: s1_def arpcache_lookup_def longest_prefix_match_def)
  note fill = icmp_fill_facts [OF assms(2), of m 0, unfolded lens fst_conv snd_conv, folded f_def]
  have lf: "length f = length p" using fill(1) by (simp add: m_def)
  have lh: "length h = length p" "drop 34 h = drop 34 f" "ip_daddr h = ip_saddr p"
    using lf l by (simp_all add: h_def ip_init_hdr_fields)
  have run: "icmp_send_packet p ICMP_ECHOREPLY 0 s =
      Some (iface_send_packet_by_arp (rt_iface e) (get_next_hop e ?da) h s1)"
    using assms(2,4) lh(3)
    by (simp add: icmp_send_packet_def lens split_beta Let_def reachable_via_def keep m_def [symmetric]
        f_def [symmetric] s1_def [symmetric] x_def [symmetric] IP_BASE_HDR_SIZE_def ip_send_packet_def h_def)
  obtain q where q: "framed mac (r_ifaces s ! rt_iface e) h q"
    "iface_send_packet_by_arp (rt_iface e) (get_next_hop e ?da) h s1 =
     s1 \<lparr>r_out := r_out s @ [(rt_iface e, q)]\<rparr>"
    using send_by_arp_hit [of "get_next_hop e ?da" s1 mac "rt_iface e" h] assms(4) lh l
    by (auto simp: reachable_via_def keep)
  have dq: "drop 34 q = drop 34 f" "length q = length p"
    using framed_drop [OF q(1), of 34] lh q(1) by (simp_all add: framed_def)
  have "ip_saddr q = ip_daddr p \<and> ip_daddr q = ip_saddr p \<and> ip_verifies q \<and>
      ip_tot_len q = htons (of_nat (20 + n))"
    using framed_ip [OF q(1)] lh lf l by (simp add: h_def ip_init_hdr_fields ip_init_hdr_verifies)
  moreover have "icmp_type q 34 = ICMP_ECHOREPLY \<and>
      icmp_identifier q 34 = icmp_identifier p (ip_data p) \<and>
      icmp_sequence q 34 = icmp_sequence p (ip_data p) \<and>
      slice 42 (n - 8) q = slice (ip_data p + 8) (n - 8) p \<and> checksum (drop 34 q) n 0 = 0"
    using dq icmp_fields_cong [OF dq(1)] fill lf l n assms(3) by (simp add: m_def)
  ultimately show ?thesis using run q dq by (auto simp: framed_def)
qed

section \<open>Instances\<close>

text \<open>An echo request from 10.0.0.9 to 10.0.0.1, of 4 data bytes.\<close>

definition demo_echo :: bytes where
  "demo_echo = replicate 12 0 @ [8, 0, 0x45, 0, 0, 32, 0, 1, 0x40, 0, 64, 1, 0, 0,
     10, 0, 0, 9, 10, 0, 0, 1, 8, 0, 0, 0, 0, 7, 0, 1, 1, 2, 3, 4]"

lemma demo_facts:
  "ip_hdr_ok demo_echo" "1 < ip_ttl demo_echo" "22 + IP_HDR_SIZE demo_echo \<le> length demo_echo"
  "longest_prefix_match 0x0a000009 demo_router = Some demo_route"
  "arpcache_lookup (get_next_hop demo_route 0x0a000009) demo_router = Some demo_mac"
  "length demo_mac = 6" "length (if_mac (r_ifaces demo_router ! rt_iface demo_route)) = 6"
  "ntohl (ip_saddr demo_echo) = 0x0a000009" "longest_prefix_match 0x0b000001 demo_router = None"
  "icmp_in_bounds demo_echo ICMP_ECHOREPLY"
  "even (unat (ntohs (ip_tot_len demo_echo)) - IP_HDR_SIZE demo_echo)"
  by code_simp+

lemma ip_forward_delivers_witness:
  "\<exists>q. ip_forward_packet 0x0a000009 demo_echo demo_router =
      Some (demo_router \<lparr>r_out := [(0, q)]\<rparr>) \<and> ip_verifies q \<and> drop 26 q = drop 26 demo_echo"
  using ip_forward_delivers [OF demo_facts(1,2,4-7)] by (auto simp: demo_route_def demo_router_def)

lemma ip_forward_reports_witness:
  "\<exists>q s'. ip_forward_packet 0x0b000001 demo_echo demo_router = Some s' \<and> r_out s' = [(0, q)] \<and>
    reports (set_ip_checksum (st8 demo_echo 22 63)) ICMP_DEST_UNREACH ICMP_NET_UNREACH 0x0a000001 q"
proof -
  have via: "reachable_via (ntohl (ip_saddr demo_echo)) demo_route demo_mac demo_router"
    using demo_facts by (simp add: reachable_via_def)
  have vals: "(ip_ttl demo_echo \<le> 1) = False" "ip_ttl demo_echo - 1 = 63" "rt_iface demo_route = 0"
    "r_out demo_router = []" "if_ip (r_ifaces demo_router ! 0) = 0x0a000001"
    by code_simp+
  show ?thesis
    using ip_forward_reports [OF demo_facts(1,3) via disjI2 [OF demo_facts(9)]]
    unfolding vals if_False append_Nil by blast
qed

lemma echo_reply_replicates_witness:
  "\<exists>q s'. icmp_send_packet demo_echo ICMP_ECHOREPLY 0 demo_router = Some s' \<and> r_out s' = [(0, q)] \<and>
    ip_saddr q = ip_daddr demo_echo \<and> ip_daddr q = ip_saddr demo_echo \<and> ip_verifies q"
proof -
  have via: "reachable_via (ntohl (ip_saddr demo_echo)) demo_route demo_mac demo_router"
    using demo_facts by (simp add: reachable_via_def)
  show ?thesis
    using echo_reply_replicates [OF demo_facts(10,11) via]
    by (auto simp: demo_route_def demo_router_def)
qed

end
