(* ===== verification/Dijkstra.thy ===== *)
theory Dijkstra imports RouterState begin

text \<open>The route computation of \<open>exp10/code/mospf_daemon.c\<close> (\<open>router_update\<close> and its helpers):
  the graph of the link-state database, the search of the nearest router, the relaxation of
  the links, and the new routing table. A pointer to a node is its position in the array.\<close>

section \<open>The model\<close>

record graph_node =
  gn_db :: mospf_db_entry
  gn_gw :: u32
  gn_iface :: "nat option"
  gn_cost :: u32
  gn_joined :: bool

definition no_cost :: u32 where "no_cost = 0xffffffff"

definition delete_dynamic_routers :: "router \<Rightarrow> router" where
  "delete_dynamic_routers s = s \<lparr>r_rtable := filter (\<lambda>rt. \<not> rt_gw rt \<noteq> 0) (r_rtable s)\<rparr>"

fun find_node :: "graph_node list \<Rightarrow> nat \<Rightarrow> u32 \<Rightarrow> nat option" where
  "find_node [] i rid = None"
| "find_node (nd # nodes) i rid =
     (if db_rid (gn_db nd) = rid then Some i else find_node nodes (i + 1) rid)"

text \<open>The scan of \<open>find_node_nearest\<close> over the positions \<open>is\<close>, and its final test.\<close>

fun nearest_loop :: "graph_node list \<Rightarrow> nat list \<Rightarrow> nat option \<Rightarrow> nat option" where
  "nearest_loop nodes [] nearest = nearest"
| "nearest_loop nodes (i # is) nearest =
     nearest_loop nodes is
       (if (case nearest of None \<Rightarrow> True | Some n \<Rightarrow> gn_cost (nodes ! i) < gn_cost (nodes ! n)) \<and>
           \<not> gn_joined (nodes ! i)
        then Some i else nearest)"

definition find_node_nearest :: "graph_node list \<Rightarrow> nat option" where
  "find_node_nearest nodes =
     (case nearest_loop nodes [0..<length nodes] None of
        None \<Rightarrow> None
      | Some n \<Rightarrow> if gn_joined (nodes ! n) \<or> gn_cost (nodes ! n) = no_cost then None else Some n)"

definition router_exist :: "u32 \<Rightarrow> u32 \<Rightarrow> router \<Rightarrow> bool" where
  "router_exist subnet msk s \<longleftrightarrow>
     (\<exists>rt \<in> set (r_rtable s). rt_dest rt AND rt_mask rt = subnet AND msk)"

definition init_node :: "mospf_db_entry \<Rightarrow> graph_node" where
  "init_node db = \<lparr>gn_db = db, gn_gw = 0, gn_iface = None, gn_cost = no_cost, gn_joined = False\<rparr>"

text \<open>The first round: the routers that are neighbours.\<close>

definition first_node :: "nat \<Rightarrow> mospf_nbr \<Rightarrow> graph_node list \<Rightarrow> graph_node list" where
  "first_node i nbr nodes =
     (case find_node nodes 0 (nbr_id nbr) of
        None \<Rightarrow> nodes
      | Some k \<Rightarrow> nodes[k := (nodes ! k) \<lparr>gn_iface := Some i, gn_gw := nbr_ip nbr, gn_cost := 1\<rparr>])"

definition first_round :: "iface_info list \<Rightarrow> graph_node list \<Rightarrow> graph_node list" where
  "first_round ifaces nodes =
     fold (\<lambda>i nodes. fold (first_node i) (if_nbr_list (ifaces ! i)) nodes) [0..<length ifaces] nodes"

text \<open>One link of the router at \<open>n\<close>, then all of them.\<close>

definition db_lsas :: "mospf_db_entry \<Rightarrow> mospf_lsa list" where
  "db_lsas db = take (nat (db_nadv db)) (db_array db)"

definition relax_link :: "nat \<Rightarrow> mospf_lsa \<Rightarrow> graph_node list \<Rightarrow> graph_node list" where
  "relax_link n lsa nodes =
     (if lsa_rid lsa = 0 then nodes
      else case find_node nodes 0 (lsa_rid lsa) of
        None \<Rightarrow> nodes
      | Some k \<Rightarrow>
          if gn_cost (nodes ! n) + 1 < gn_cost (nodes ! k) then
            nodes[k := (nodes ! k) \<lparr>gn_cost := gn_cost (nodes ! n) + 1, gn_gw := gn_gw (nodes ! n),
              gn_iface := gn_iface (nodes ! n)\<rparr>]
          else nodes)"

definition relax :: "nat \<Rightarrow> graph_node list \<Rightarrow> graph_node list" where
  "relax n nodes = fold (relax_link n) (db_lsas (gn_db (nodes ! n))) nodes"

definition join :: "nat \<Rightarrow> graph_node list \<Rightarrow> graph_node list" where
  "join n nodes = nodes[n := (nodes ! n) \<lparr>gn_joined := True\<rparr>]"

lemma length_relax_link [layout, simp]: "length (relax_link n lsa nodes) = length nodes"
  by (simp add: relax_link_def split: option.split)

lemma length_relax [layout, simp]: "length (relax n nodes) = length nodes"
proof -
  have "length (fold (relax_link n) ls nodes) = length nodes" for ls
    by (induction ls arbitrary: nodes) simp_all
  then show ?thesis by (simp add: relax_def)
qed

lemma length_join [layout, simp]: "length (join n nodes) = length nodes"
  by (simp add: join_def)

lemma relax_link_frame [frame, simp]:
  "k < length nodes \<Longrightarrow> gn_joined (relax_link n lsa nodes ! k) = gn_joined (nodes ! k)"
  "k < length nodes \<Longrightarrow> gn_db (relax_link n lsa nodes ! k) = gn_db (nodes ! k)"
  by (auto simp: relax_link_def nth_list_update_if split: option.split)

lemma relax_frame [frame, simp]:
  assumes "k < length nodes"
  shows "gn_joined (relax n nodes ! k) = gn_joined (nodes ! k)"
    "gn_db (relax n nodes ! k) = gn_db (nodes ! k)"
proof -
  have "k < length nodes \<Longrightarrow> gn_joined (fold (relax_link n) ls nodes ! k) = gn_joined (nodes ! k) \<and>
      gn_db (fold (relax_link n) ls nodes ! k) = gn_db (nodes ! k)" for ls
    by (induction ls arbitrary: nodes) simp_all
  then show "gn_joined (relax n nodes ! k) = gn_joined (nodes ! k)"
    "gn_db (relax n nodes ! k) = gn_db (nodes ! k)"
    using assms by (simp_all add: relax_def)
qed

lemma nearest_loop_spec:
  assumes "nearest_loop nodes is nr = Some n" "\<forall>m. nr = Some m \<longrightarrow> \<not> gn_joined (nodes ! m)"
  shows "(nr = Some n \<or> n \<in> set is) \<and> \<not> gn_joined (nodes ! n) \<and>
    (\<forall>m. nr = Some m \<longrightarrow> gn_cost (nodes ! n) \<le> gn_cost (nodes ! m)) \<and>
    (\<forall>i \<in> set is. \<not> gn_joined (nodes ! i) \<longrightarrow> gn_cost (nodes ! n) \<le> gn_cost (nodes ! i))"
  using assms
proof (induction "is" arbitrary: nr)
  case (Cons i js)
  define nr' where "nr' = (if (case nr of None \<Rightarrow> True | Some m \<Rightarrow> gn_cost (nodes ! i) < gn_cost (nodes ! m)) \<and>
    \<not> gn_joined (nodes ! i) then Some i else nr)"
  have "nearest_loop nodes js nr' = Some n" "\<forall>m. nr' = Some m \<longrightarrow> \<not> gn_joined (nodes ! m)"
    using Cons.prems by (simp_all add: nr'_def split: if_splits)
  note IH = Cons.IH [OF this]
  show ?case
    using IH Cons.prems by (fastforce simp: nr'_def split: if_splits option.splits)
qed simp

lemma find_node_nearest_SomeD:
  assumes "find_node_nearest nodes = Some n"
  shows "n < length nodes" "\<not> gn_joined (nodes ! n)" "gn_cost (nodes ! n) \<noteq> no_cost"
    "\<And>i. i < length nodes \<Longrightarrow> \<not> gn_joined (nodes ! i) \<Longrightarrow> gn_cost (nodes ! n) \<le> gn_cost (nodes ! i)"
proof -
  have *: "nearest_loop nodes [0..<length nodes] None = Some n" "gn_cost (nodes ! n) \<noteq> no_cost"
    using assms by (auto simp: find_node_nearest_def split: option.splits if_splits)
  show "n < length nodes" "\<not> gn_joined (nodes ! n)" "gn_cost (nodes ! n) \<noteq> no_cost"
    "\<And>i. i < length nodes \<Longrightarrow> \<not> gn_joined (nodes ! i) \<Longrightarrow> gn_cost (nodes ! n) \<le> gn_cost (nodes ! i)"
    using nearest_loop_spec [OF *(1)] *(2) by auto
qed

text \<open>The \<open>while (1)\<close> loop ends because each round joins one more node.\<close>

definition unjoined :: "graph_node list \<Rightarrow> nat set" where
  "unjoined nodes = {k. k < length nodes \<and> \<not> gn_joined (nodes ! k)}"

lemma unjoined_relax [simp]: "unjoined (relax n nodes) = unjoined nodes"
  by (auto simp: unjoined_def)

lemma unjoined_join: "n < length nodes \<Longrightarrow> unjoined (join n nodes) = unjoined nodes - {n}"
  by (auto simp: unjoined_def join_def nth_list_update split: if_splits)

lemma finite_unjoined [simp]: "finite (unjoined nodes)"
  by (simp add: unjoined_def)

function dijkstra :: "graph_node list \<Rightarrow> nat list \<Rightarrow> graph_node list \<times> nat list" where
  "dijkstra nodes order =
     (case find_node_nearest nodes of
        None \<Rightarrow> (nodes, order)
      | Some n \<Rightarrow> dijkstra (relax n (join n nodes)) (order @ [n]))"
  by pat_completeness auto
termination
proof (relation "measure (\<lambda>(nodes, order). card (unjoined nodes))")
  fix nodes :: "graph_node list" and order :: "nat list" and n
  assume n: "find_node_nearest nodes = Some n"
  have "n \<in> unjoined nodes" using find_node_nearest_SomeD [OF n] by (simp add: unjoined_def)
  then show "((relax n (join n nodes), order @ [n]), nodes, order)
      \<in> measure (\<lambda>(nodes, order). card (unjoined nodes))"
    using find_node_nearest_SomeD(1) [OF n] card_Diff1_less [OF finite_unjoined, of n nodes]
    by (simp add: unjoined_join del: card_Diff_insert)
qed simp

declare dijkstra.simps [simp del]

text \<open>The routes of one router; a node without an interface is a null pointer for
  \<open>new_rt_entry\<close>: \<open>None\<close>.\<close>

fun add_routes :: "graph_node \<Rightarrow> mospf_lsa list \<Rightarrow> router \<Rightarrow> router option" where
  "add_routes nd [] s = Some s"
| "add_routes nd (lsa # ls) s =
     (if \<not> router_exist (lsa_subnet lsa) (lsa_mask lsa) s then
        (case gn_iface nd of
           None \<Rightarrow> None
         | Some i \<Rightarrow> add_routes nd ls
             (add_rt_entry (new_rt_entry (lsa_subnet lsa) (lsa_mask lsa) (gn_gw nd) i s) s))
      else add_routes nd ls s)"

fun add_all_routes :: "graph_node list \<Rightarrow> nat list \<Rightarrow> router \<Rightarrow> router option" where
  "add_all_routes nodes [] s = Some s"
| "add_all_routes nodes (k # ks) s =
     (case (if gn_joined (nodes ! k) then add_routes (nodes ! k) (db_lsas (gn_db (nodes ! k))) s
            else Some s) of
        None \<Rightarrow> None
      | Some s \<Rightarrow> add_all_routes nodes ks s)"

definition router_update :: "router \<Rightarrow> router option" where
  "router_update s =
     (let nodes = map init_node (r_db s);
          nodes = first_round (r_ifaces s) nodes;
          (nodes, order) = dijkstra nodes [];
          s = delete_dynamic_routers s
      in add_all_routes nodes order s)"

section \<open>Relaxation\<close>

definition rids :: "graph_node list \<Rightarrow> u32 list" where
  "rids nodes = map (\<lambda>nd. db_rid (gn_db nd)) nodes"

lemma find_node_shift: "find_node nodes i rid = map_option (\<lambda>k. k + i) (find_node nodes 0 rid)"
proof (induction nodes arbitrary: i)
  case (Cons nd nodes)
  show ?case
    by (simp, subst (1 2) Cons.IH) (simp add: option.map_comp comp_def)
qed simp

lemma find_node_iff:
  "distinct (rids nodes) \<Longrightarrow>
     find_node nodes 0 rid = Some k \<longleftrightarrow> k < length nodes \<and> db_rid (gn_db (nodes ! k)) = rid"
proof (induction nodes arbitrary: k)
  case (Cons nd nodes)
  have nd: "db_rid (gn_db nd) \<notin> set (rids nodes)" using Cons.prems by (simp add: rids_def)
  have "j < length nodes \<Longrightarrow> db_rid (gn_db (nodes ! j)) \<in> set (rids nodes)" for j
    by (simp add: rids_def)
  then have mem: "j < length nodes \<Longrightarrow> db_rid (gn_db (nodes ! j)) \<noteq> db_rid (gn_db nd)" for j
    using nd by metis
  show ?case
    using Cons.IH [of "k - 1"] Cons.prems mem [of "k - 1"]
    by (cases k) (auto simp: rids_def find_node_shift [of nodes "Suc 0"])
qed simp

lemma rids_relax_link [simp]: "rids (relax_link n lsa nodes) = rids nodes"
  by (rule nth_equalityI) (simp_all add: rids_def)

definition via_node :: "graph_node \<Rightarrow> graph_node \<Rightarrow> graph_node" where
  "via_node nd k = k \<lparr>gn_cost := gn_cost nd + 1, gn_gw := gn_gw nd, gn_iface := gn_iface nd\<rparr>"

lemma relax_link_nth:
  assumes "distinct (rids nodes)" "k < length nodes"
  shows "relax_link n lsa nodes ! k =
    (if lsa_rid lsa \<noteq> 0 \<and> lsa_rid lsa = db_rid (gn_db (nodes ! k)) \<and>
        gn_cost (nodes ! n) + 1 < gn_cost (nodes ! k)
     then via_node (nodes ! n) (nodes ! k) else nodes ! k)"
proof (cases "find_node nodes 0 (lsa_rid lsa)")
  case None
  then have "lsa_rid lsa \<noteq> db_rid (gn_db (nodes ! k))"
    using find_node_iff [OF assms(1), of "lsa_rid lsa" k] assms(2) by auto
  then show ?thesis by (simp add: relax_link_def None)
next
  case (Some j)
  then have j: "j < length nodes" "db_rid (gn_db (nodes ! j)) = lsa_rid lsa"
    using find_node_iff [OF assms(1)] by auto
  have "lsa_rid lsa = db_rid (gn_db (nodes ! k)) \<longleftrightarrow> k = j"
    using find_node_iff [OF assms(1), of "lsa_rid lsa" k] assms(2) Some by auto
  then show ?thesis
    by (auto simp: relax_link_def Some nth_list_update_if via_node_def j)
qed

lemma unat_cost_Suc: "c \<noteq> no_cost \<Longrightarrow> unat (c + 1) = unat c + 1"
proof -
  assume "c \<noteq> no_cost"
  moreover have "c = - 1" if "1 + c = 0" using that by (simp only: add_eq_0_iff)
  ultimately have "1 + c \<noteq> 0" by (auto simp: no_cost_def)
  then show ?thesis using unatSuc [of c] by (simp add: add.commute)
qed

lemma relax_links_nth:
  assumes "distinct (rids nodes)" "k < length nodes" "n < length nodes" "gn_cost (nodes ! n) \<noteq> no_cost"
  shows "fold (relax_link n) ls nodes ! k =
    (if (\<exists>lsa \<in> set ls. lsa_rid lsa \<noteq> 0 \<and> lsa_rid lsa = db_rid (gn_db (nodes ! k))) \<and>
        gn_cost (nodes ! n) + 1 < gn_cost (nodes ! k)
     then via_node (nodes ! n) (nodes ! k) else nodes ! k)"
  using assms
proof (induction ls arbitrary: nodes)
  case (Cons lsa ls)
  define n1 where "n1 = relax_link n lsa nodes"
  have c: "\<not> gn_cost (nodes ! n) + 1 < gn_cost (nodes ! n)"
    using Cons.prems(4) by (simp add: unat_cost_Suc word_less_nat_alt)
  have n1: "n1 ! n = nodes ! n" "gn_db (n1 ! k) = gn_db (nodes ! k)" "length n1 = length nodes"
    "distinct (rids n1)"
    using Cons.prems c by (simp_all add: n1_def relax_link_nth via_node_def)
  have k: "n1 ! k = (if lsa_rid lsa \<noteq> 0 \<and> lsa_rid lsa = db_rid (gn_db (nodes ! k)) \<and>
      gn_cost (nodes ! n) + 1 < gn_cost (nodes ! k) then via_node (nodes ! n) (nodes ! k) else nodes ! k)"
    unfolding n1_def using Cons.prems(1,2) by (rule relax_link_nth)
  have IH: "fold (relax_link n) ls n1 ! k =
    (if (\<exists>lsa \<in> set ls. lsa_rid lsa \<noteq> 0 \<and> lsa_rid lsa = db_rid (gn_db (nodes ! k))) \<and>
        gn_cost (nodes ! n) + 1 < gn_cost (n1 ! k)
     then via_node (nodes ! n) (n1 ! k) else n1 ! k)"
    using Cons.IH [of n1] Cons.prems by (simp only: n1 simp_thms)
  have eq: "fold (relax_link n) (lsa # ls) nodes = fold (relax_link n) ls n1" by (simp add: n1_def)
  show ?case
    unfolding eq IH using k by (auto simp: via_node_def split: if_splits)
qed simp

section \<open>Shortest paths\<close>

text \<open>The router \<open>k\<close> is reached over \<open>d\<close> routers, first through the neighbour with address \<open>g\<close>
  on interface \<open>i\<close>.\<close>

inductive reach :: "iface_info list \<Rightarrow> mospf_db_entry list \<Rightarrow> nat \<Rightarrow> nat \<Rightarrow> nat \<Rightarrow> u32 \<Rightarrow> bool"
  for ifaces :: "iface_info list" and db :: "mospf_db_entry list" where
  direct: "reach ifaces db (Suc 0) k i (nbr_ip nbr)"
    if "i < length ifaces" "nbr \<in> set (if_nbr_list (ifaces ! i))" "k < length db"
      "db_rid (db ! k) = nbr_id nbr"
| link: "reach ifaces db (Suc d) k i g"
    if "reach ifaces db d j i g" "lsa \<in> set (db_lsas (db ! j))" "lsa_rid lsa \<noteq> 0" "k < length db"
      "db_rid (db ! k) = lsa_rid lsa"

inductive_cases reach_oneE: "reach ifaces db (Suc 0) k i g"

definition linked :: "mospf_db_entry list \<Rightarrow> nat \<Rightarrow> nat \<Rightarrow> bool" where
  "linked db j k \<longleftrightarrow> k < length db \<and> (\<exists>lsa \<in> set (db_lsas (db ! j)). lsa_rid lsa \<noteq> 0 \<and> lsa_rid lsa = db_rid (db ! k))"

definition direct_nbr :: "iface_info list \<Rightarrow> mospf_db_entry list \<Rightarrow> nat \<Rightarrow> bool" where
  "direct_nbr ifaces db k \<longleftrightarrow> (\<exists>i < length ifaces. \<exists>nbr \<in> set (if_nbr_list (ifaces ! i)).
     k < length db \<and> db_rid (db ! k) = nbr_id nbr)"

lemma reach_bounds: "reach ifaces db d k i g \<Longrightarrow> 1 \<le> d \<and> k < length db \<and> i < length ifaces"
  by (induction rule: reach.induct) auto

text \<open>What holds before each round of the loop.\<close>

definition joined :: "graph_node list \<Rightarrow> nat set" where
  "joined nodes = {k. k < length nodes \<and> gn_joined (nodes ! k)}"

definition graph_ok :: "iface_info list \<Rightarrow> mospf_db_entry list \<Rightarrow> graph_node list \<Rightarrow> bool" where
  "graph_ok ifaces db nodes \<longleftrightarrow> map gn_db nodes = db \<and>
     (\<forall>k < length db. gn_cost (nodes ! k) \<noteq> no_cost \<longrightarrow>
        unat (gn_cost (nodes ! k)) \<le> 1 + card (joined nodes) \<and>
        (\<exists>i. gn_iface (nodes ! k) = Some i \<and>
          reach ifaces db (unat (gn_cost (nodes ! k))) k i (gn_gw (nodes ! k))))"

definition joined_ok :: "iface_info list \<Rightarrow> mospf_db_entry list \<Rightarrow> graph_node list \<Rightarrow> bool" where
  "joined_ok ifaces db nodes \<longleftrightarrow>
     (\<forall>k < length db. direct_nbr ifaces db k \<longrightarrow> gn_cost (nodes ! k) \<le> 1) \<and>
     (\<forall>j < length db. gn_joined (nodes ! j) \<longrightarrow> gn_cost (nodes ! j) \<noteq> no_cost \<and>
        (\<forall>k. linked db j k \<longrightarrow> gn_cost (nodes ! k) \<le> gn_cost (nodes ! j) + 1) \<and>
        (\<forall>k < length db. \<not> gn_joined (nodes ! k) \<longrightarrow> gn_cost (nodes ! j) \<le> gn_cost (nodes ! k)))"

lemma rids_graph: "map gn_db nodes = db \<Longrightarrow> rids nodes = map db_rid db"
  by (auto simp: rids_def)

lemma relax_nth:
  assumes "map gn_db nodes = db" "distinct (map db_rid db)" "k < length db" "n < length db"
    and "gn_cost (nodes ! n) \<noteq> no_cost"
  shows "relax n nodes ! k =
    (if linked db n k \<and> gn_cost (nodes ! n) + 1 < gn_cost (nodes ! k)
     then via_node (nodes ! n) (nodes ! k) else nodes ! k)"
proof -
  have len: "length nodes = length db" using assms(1) by auto
  have db: "gn_db (nodes ! j) = db ! j" if "j < length db" for j
    using assms(1) that by (metis nth_map len)
  have "distinct (rids nodes)" using assms(1,2) by (metis rids_graph)
  then show ?thesis
    using relax_links_nth [of nodes k n "db_lsas (gn_db (nodes ! n))"] assms(3-5) len
    by (simp add: relax_def db linked_def)
qed

text \<open>One round, in terms of the costs.\<close>

lemma round_nth:
  assumes "graph_ok ifaces db nodes" "joined_ok ifaces db nodes" "distinct (map db_rid db)"
    and n: "find_node_nearest nodes = Some n" and k: "k < length db"
  defines "c \<equiv> gn_cost (nodes ! n)" and "nodes' \<equiv> relax n (join n nodes)"
  shows "gn_joined (nodes' ! k) \<longleftrightarrow> gn_joined (nodes ! k) \<or> k = n"
    "gn_cost (nodes' ! k) = (if linked db n k \<and> c + 1 < gn_cost (nodes ! k) then c + 1 else gn_cost (nodes ! k))"
    "\<not> (linked db n k \<and> c + 1 < gn_cost (nodes ! k)) \<Longrightarrow>
       gn_gw (nodes' ! k) = gn_gw (nodes ! k) \<and> gn_iface (nodes' ! k) = gn_iface (nodes ! k)"
    "linked db n k \<and> c + 1 < gn_cost (nodes ! k) \<Longrightarrow>
       gn_gw (nodes' ! k) = gn_gw (nodes ! n) \<and> gn_iface (nodes' ! k) = gn_iface (nodes ! n)"
proof -
  have map: "map gn_db nodes = db" using assms(1) by (simp add: graph_ok_def)
  then have len: "length nodes = length db" by auto
  have n': "n < length db" "c \<noteq> no_cost" using find_node_nearest_SomeD [OF n] len by (simp_all add: c_def)
  have j: "join n nodes ! i = (if i = n then (nodes ! n) \<lparr>gn_joined := True\<rparr> else nodes ! i)" if "i < length db" for i
    using that len by (simp add: join_def nth_list_update_if)
  have "gn_db (join n nodes ! i) = gn_db (nodes ! i)" if "i < length db" for i
    using j [OF that] by simp
  then have "map gn_db (join n nodes) = db"
    unfolding map [symmetric] using len by (intro nth_equalityI) simp_all
  then have *: "nodes' ! k = (if linked db n k \<and> c + 1 < gn_cost (join n nodes ! k)
      then via_node (join n nodes ! n) (join n nodes ! k) else join n nodes ! k)"
    using relax_nth [of "join n nodes" db k n] assms(3) k n' j [OF n'(1)] by (simp add: nodes'_def c_def)
  show "gn_joined (nodes' ! k) \<longleftrightarrow> gn_joined (nodes ! k) \<or> k = n"
    "gn_cost (nodes' ! k) = (if linked db n k \<and> c + 1 < gn_cost (nodes ! k) then c + 1 else gn_cost (nodes ! k))"
    "\<not> (linked db n k \<and> c + 1 < gn_cost (nodes ! k)) \<Longrightarrow>
       gn_gw (nodes' ! k) = gn_gw (nodes ! k) \<and> gn_iface (nodes' ! k) = gn_iface (nodes ! k)"
    "linked db n k \<and> c + 1 < gn_cost (nodes ! k) \<Longrightarrow>
       gn_gw (nodes' ! k) = gn_gw (nodes ! n) \<and> gn_iface (nodes' ! k) = gn_iface (nodes ! n)"
    unfolding * j [OF k] j [OF n'(1)] by (auto simp: via_node_def c_def)
qed

lemma joined_round:
  assumes "n < length nodes" "\<not> gn_joined (nodes ! n)"
  shows "card (joined (relax n (join n nodes))) = Suc (card (joined nodes))"
proof -
  have "gn_joined (relax n (join n nodes) ! k) \<longleftrightarrow> gn_joined (nodes ! k) \<or> k = n" if "k < length nodes" for k
    using that by (simp add: join_def nth_list_update_if)
  then have "joined (relax n (join n nodes)) = insert n (joined nodes)"
    using assms by (auto simp: joined_def)
  moreover have "n \<notin> joined nodes" "finite (joined nodes)" using assms by (simp_all add: joined_def)
  ultimately show ?thesis by simp
qed

lemma round_graph_ok:
  assumes "graph_ok ifaces db nodes" "joined_ok ifaces db nodes" "distinct (map db_rid db)"
    and n: "find_node_nearest nodes = Some n"
  shows "graph_ok ifaces db (relax n (join n nodes))"
proof -
  note step = round_nth [OF assms]
  let ?N = "relax n (join n nodes)" and ?c = "gn_cost (nodes ! n)"
  have map: "map gn_db nodes = db" using assms(1) by (simp add: graph_ok_def)
  then have len: "length nodes = length db" by auto
  note n' = find_node_nearest_SomeD [OF n, unfolded len]
  have "gn_db (join n nodes ! i) = gn_db (nodes ! i)" if "i < length db" for i
    using that len by (simp add: join_def nth_list_update_if)
  then have "map gn_db ?N = db"
    unfolding map [symmetric] using len by (intro nth_equalityI) simp_all
  moreover have "unat (gn_cost (?N ! k)) \<le> 1 + card (joined ?N) \<and>
      (\<exists>i. gn_iface (?N ! k) = Some i \<and> reach ifaces db (unat (gn_cost (?N ! k))) k i (gn_gw (?N ! k)))"
    if k: "k < length db" and fin: "gn_cost (?N ! k) \<noteq> no_cost" for k
  proof (cases "linked db n k \<and> ?c + 1 < gn_cost (nodes ! k)")
    case True
    obtain i where i: "gn_iface (nodes ! n) = Some i" "unat ?c \<le> 1 + card (joined nodes)"
      "reach ifaces db (unat ?c) n i (gn_gw (nodes ! n))"
      using assms(1) n'(1,3) by (auto simp: graph_ok_def)
    obtain lsa where "lsa \<in> set (db_lsas (db ! n))" "lsa_rid lsa \<noteq> 0" "k < length db"
      "db_rid (db ! k) = lsa_rid lsa"
      using True by (auto simp: linked_def)
    then have "reach ifaces db (Suc (unat ?c)) k i (gn_gw (nodes ! n))"
      by (rule reach.link [OF i(3)])
    then show ?thesis
      using True i step(2,4) [OF k] joined_round [of n nodes] n' len by (simp add: unat_cost_Suc)
  next
    case False
    then have eq: "gn_cost (?N ! k) = gn_cost (nodes ! k)" "gn_gw (?N ! k) = gn_gw (nodes ! k)"
      "gn_iface (?N ! k) = gn_iface (nodes ! k)"
      using step(2,3) [OF k] by auto
    have "unat (gn_cost (nodes ! k)) \<le> 1 + card (joined nodes) \<and>
      (\<exists>i. gn_iface (nodes ! k) = Some i \<and> reach ifaces db (unat (gn_cost (nodes ! k))) k i (gn_gw (nodes ! k)))"
      using assms(1) k fin unfolding graph_ok_def eq by blast
    moreover have "card (joined ?N) = Suc (card (joined nodes))"
      using joined_round [of n nodes] n' len by simp
    ultimately show ?thesis unfolding eq by (metis le_SucI add_Suc_right)
  qed
  ultimately show ?thesis by (simp add: graph_ok_def)
qed

lemma round_joined_ok:
  assumes "graph_ok ifaces db nodes" "joined_ok ifaces db nodes" "distinct (map db_rid db)"
    and n: "find_node_nearest nodes = Some n"
  shows "joined_ok ifaces db (relax n (join n nodes))"
proof -
  note step = round_nth [OF assms]
  let ?N = "relax n (join n nodes)" and ?c = "gn_cost (nodes ! n)"
  have "map gn_db nodes = db" using assms(1) by (simp add: graph_ok_def)
  then have len: "length nodes = length db" by auto
  note n' = find_node_nearest_SomeD [OF n, unfolded len]
  have up: "?c < ?c + 1" using n'(3) by (simp add: word_less_nat_alt unat_cost_Suc)
  have before: "gn_cost (nodes ! j) \<le> ?c" if "gn_joined (nodes ! j) \<or> j = n" "j < length db" for j
    using that assms(2) n'(1,2) by (auto simp: joined_ok_def)
  have less: "gn_cost (?N ! k) \<le> gn_cost (nodes ! k)" if "k < length db" for k
    using step(2) [OF that] by auto
  have same: "gn_cost (?N ! j) = gn_cost (nodes ! j)" if "gn_joined (nodes ! j) \<or> j = n" "j < length db" for j
  proof -
    have "\<not> ?c + 1 < gn_cost (nodes ! j)" using before [OF that] up by (meson leD le_less_trans less_imp_le)
    then show ?thesis using step(2) [OF that(2)] by auto
  qed
  have "gn_cost (?N ! k) \<le> 1" if "k < length db" "direct_nbr ifaces db k" for k
    using assms(2) that less [OF that(1)] by (auto simp: joined_ok_def intro: order_trans)
  moreover have "gn_cost (?N ! j) \<noteq> no_cost \<and>
      (\<forall>k. linked db j k \<longrightarrow> gn_cost (?N ! k) \<le> gn_cost (?N ! j) + 1) \<and>
      (\<forall>k < length db. \<not> gn_joined (?N ! k) \<longrightarrow> gn_cost (?N ! j) \<le> gn_cost (?N ! k))"
    if j: "j < length db" and J: "gn_joined (?N ! j)" for j
  proof -
    have old: "gn_joined (nodes ! j) \<or> j = n" using J step(1) [OF j] by simp
    have "gn_cost (?N ! k) \<le> gn_cost (nodes ! j) + 1" if k: "linked db j k" for k
    proof (cases "j = n")
      case True
      then show ?thesis using k step(2) [of k] by (auto simp: linked_def not_less)
    next
      case False
      then have "gn_cost (nodes ! k) \<le> gn_cost (nodes ! j) + 1"
        using old k j assms(2) by (simp add: joined_ok_def)
      then show ?thesis using less [of k] k by (auto simp: linked_def intro: order_trans)
    qed
    moreover have "gn_cost (nodes ! j) \<le> gn_cost (?N ! k)" if k: "k < length db" "\<not> gn_joined (?N ! k)" for k
    proof -
      have "?c \<le> gn_cost (nodes ! k)" using n'(4) [OF k(1)] k(2) step(1) [OF k(1)] by simp
      then have "?c \<le> gn_cost (?N ! k)" using step(2) [OF k(1)] up by (auto intro: less_imp_le)
      then show ?thesis using before [OF old j] by (rule order_trans [rotated])
    qed
    moreover have "gn_cost (nodes ! j) \<noteq> no_cost"
      using old n'(3) j assms(2) by (auto simp: joined_ok_def)
    ultimately show ?thesis by (simp only: same [OF old j]) blast
  qed
  ultimately show ?thesis by (auto simp: joined_ok_def)
qed

text \<open>The first round.\<close>

definition first_ok :: "iface_info list \<Rightarrow> mospf_db_entry list \<Rightarrow> graph_node list \<Rightarrow> bool" where
  "first_ok ifaces db nodes \<longleftrightarrow> map gn_db nodes = db \<and>
     (\<forall>k < length db. \<not> gn_joined (nodes ! k) \<and> (gn_cost (nodes ! k) = no_cost \<or>
        gn_cost (nodes ! k) = 1 \<and> (\<exists>i. gn_iface (nodes ! k) = Some i \<and> reach ifaces db 1 k i (gn_gw (nodes ! k)))))"

lemma first_node_nth:
  assumes "map gn_db nodes = db" "distinct (map db_rid db)" "k < length db"
  shows "first_node i nbr nodes ! k = (if db_rid (db ! k) = nbr_id nbr
    then (nodes ! k) \<lparr>gn_iface := Some i, gn_gw := nbr_ip nbr, gn_cost := 1\<rparr> else nodes ! k)"
proof -
  have len: "length nodes = length db" using assms(1) by auto
  have db: "gn_db (nodes ! j) = db ! j" if "j < length db" for j
    using assms(1) that by (metis nth_map len)
  have d: "distinct (rids nodes)" using assms(1,2) by (metis rids_graph)
  show ?thesis
  proof (cases "find_node nodes 0 (nbr_id nbr)")
    case None
    then have "db_rid (db ! k) \<noteq> nbr_id nbr"
      using find_node_iff [OF d, of "nbr_id nbr" k] assms(3) len db by auto
    then show ?thesis by (simp add: first_node_def None)
  next
    case (Some j)
    then have "j < length db" "db_rid (db ! j) = nbr_id nbr"
      using find_node_iff [OF d] len db by auto
    moreover have "db_rid (db ! k) = nbr_id nbr \<longleftrightarrow> k = j"
      using find_node_iff [OF d, of "nbr_id nbr" k] assms(3) Some len db by auto
    ultimately show ?thesis by (auto simp: first_node_def Some nth_list_update_if len)
  qed
qed

lemma length_first_node [layout, simp]: "length (first_node i nbr nodes) = length nodes"
  by (simp add: first_node_def split: option.split)

lemma map_db_first_node: "map gn_db (first_node i nbr nodes) = map gn_db nodes"
  by (rule nth_equalityI) (auto simp: first_node_def nth_list_update_if split: option.split)

lemma first_pairs_ok:
  assumes "first_ok ifaces db nodes" "distinct (map db_rid db)"
    and "\<forall>(i, nbr) \<in> set ps. i < length ifaces \<and> nbr \<in> set (if_nbr_list (ifaces ! i))"
  defines "nodes' \<equiv> fold (\<lambda>(i, nbr). first_node i nbr) ps nodes"
  shows "first_ok ifaces db nodes' \<and> (\<forall>k < length db.
    (gn_cost (nodes ! k) = 1 \<or> (\<exists>(i, nbr) \<in> set ps. db_rid (db ! k) = nbr_id nbr)) \<longrightarrow> gn_cost (nodes' ! k) = 1)"
  using assms(1,3) unfolding nodes'_def
proof (induction ps arbitrary: nodes)
  case (Cons p ps)
  obtain i nbr where p: "p = (i, nbr)" by (cases p)
  have map: "map gn_db nodes = db" using Cons.prems(1) by (simp add: first_ok_def)
  note nth = first_node_nth [OF map assms(2)]
  have one: "first_ok ifaces db (first_node i nbr nodes)"
    using Cons.prems nth map by (auto simp: first_ok_def map_db_first_node p intro: reach.direct)
  have "\<forall>k < length db. gn_cost (nodes ! k) = 1 \<or> db_rid (db ! k) = nbr_id nbr \<longrightarrow>
      gn_cost (first_node i nbr nodes ! k) = 1"
    using nth by simp
  then show ?case using Cons.IH [OF one] Cons.prems(2) by (auto simp: p)
qed simp

lemma fold_pairs:
  "fold (\<lambda>i. fold (f i) (g i)) is x = fold (\<lambda>(i, y). f i y) (concat (map (\<lambda>i. map (Pair i) (g i)) is)) x"
proof (induction "is" arbitrary: x)
  case (Cons i js)
  have "fold (\<lambda>(i, y). f i y) (map (Pair i) ys) x = fold (f i) ys x" for ys
    by (induction ys arbitrary: x) simp_all
  then show ?case using Cons by simp
qed simp

lemma first_round_ok:
  fixes ifaces :: "iface_info list" and db :: "mospf_db_entry list"
  assumes "distinct (map db_rid db)"
  defines "nodes \<equiv> first_round ifaces (map init_node db)"
  shows "graph_ok ifaces db nodes" "joined_ok ifaces db nodes" "joined nodes = {}"
proof -
  let ?ps = "concat (map (\<lambda>i. map (Pair i) (if_nbr_list (ifaces ! i))) [0..<length ifaces])"
  have nodes: "nodes = fold (\<lambda>(i, nbr). first_node i nbr) ?ps (map init_node db)"
    by (simp add: nodes_def first_round_def fold_pairs)
  have init: "first_ok ifaces db (map init_node db)"
    by (auto simp: first_ok_def init_node_def comp_def)
  have ps: "\<forall>(i, nbr) \<in> set ?ps. i < length ifaces \<and> nbr \<in> set (if_nbr_list (ifaces ! i))" by auto
  have ok: "first_ok ifaces db nodes" and one: "\<And>k. k < length db \<Longrightarrow>
      \<exists>(i, nbr) \<in> set ?ps. db_rid (db ! k) = nbr_id nbr \<Longrightarrow> gn_cost (nodes ! k) = 1"
    using first_pairs_ok [OF init assms(1) ps] unfolding nodes by blast+
  have len: "length nodes = length db" using ok by (auto simp: first_ok_def)
  have d: "gn_cost (nodes ! k) = 1" if dn: "direct_nbr ifaces db k" for k
  proof -
    obtain i nbr where "i < length ifaces" "nbr \<in> set (if_nbr_list (ifaces ! i))" "k < length db"
      "db_rid (db ! k) = nbr_id nbr"
      using dn by (auto simp: direct_nbr_def)
    moreover from this have "(i, nbr) \<in> set ?ps" by auto
    ultimately show ?thesis by (intro one) auto
  qed
  show "graph_ok ifaces db nodes"
    using ok by (fastforce simp: first_ok_def graph_ok_def)
  show "joined_ok ifaces db nodes"
    using ok d by (auto simp: first_ok_def joined_ok_def)
  show "joined nodes = {}" using ok len by (auto simp: first_ok_def joined_def)
qed

text \<open>The whole loop. The nodes are visited in the order of their costs.\<close>

definition order_ok :: "graph_node list \<Rightarrow> nat list \<Rightarrow> bool" where
  "order_ok nodes order \<longleftrightarrow> distinct order \<and> set order = joined nodes \<and>
     sorted (map (\<lambda>k. gn_cost (nodes ! k)) order)"

lemma round_order_ok:
  assumes "graph_ok ifaces db nodes" "joined_ok ifaces db nodes" "distinct (map db_rid db)"
    and n: "find_node_nearest nodes = Some n" and order: "order_ok nodes order"
  shows "order_ok (relax n (join n nodes)) (order @ [n])"
proof -
  let ?N = "relax n (join n nodes)"
  note step = round_nth [OF assms(1-4)]
  have "map gn_db nodes = db" using assms(1) by (simp add: graph_ok_def)
  then have len: "length nodes = length db" by auto
  note n' = find_node_nearest_SomeD [OF n, unfolded len]
  have up: "gn_cost (nodes ! n) < gn_cost (nodes ! n) + 1"
    using n'(3) by (simp add: word_less_nat_alt unat_cost_Suc)
  have old: "j < length db \<and> gn_cost (nodes ! j) \<le> gn_cost (nodes ! n)" if "j \<in> set order \<or> j = n" for j
    using that order assms(2) n' len by (auto simp: order_ok_def joined_def joined_ok_def)
  have same: "gn_cost (?N ! j) = gn_cost (nodes ! j)" if "j \<in> set order \<or> j = n" for j
  proof -
    have "\<not> gn_cost (nodes ! n) + 1 < gn_cost (nodes ! j)"
      using old [OF that] up by (meson leD le_less_trans less_imp_le)
    then show ?thesis using step(2) [of j] old [OF that] by auto
  qed
  have "joined ?N = insert n (joined nodes)"
    using step(1) n'(1) len by (auto simp: joined_def)
  moreover have "n \<notin> set order" using order n' by (auto simp: order_ok_def joined_def)
  moreover have "map (\<lambda>k. gn_cost (?N ! k)) order = map (\<lambda>k. gn_cost (nodes ! k)) order"
    using same by simp
  ultimately show ?thesis
    using order same old by (auto simp: order_ok_def sorted_append simp del: map_eq_conv)
qed

lemma dijkstra_ok:
  assumes "graph_ok ifaces db nodes" "joined_ok ifaces db nodes" "distinct (map db_rid db)"
    and "order_ok nodes order"
  shows "case dijkstra nodes order of (nodes', order') \<Rightarrow>
    graph_ok ifaces db nodes' \<and> joined_ok ifaces db nodes' \<and> order_ok nodes' order' \<and>
    find_node_nearest nodes' = None"
  using assms
proof (induction nodes order rule: dijkstra.induct)
  case (1 nodes order)
  show ?case
  proof (cases "find_node_nearest nodes")
    case None
    then show ?thesis using 1 by (simp add: dijkstra.simps)
  next
    case (Some n)
    note ok = "1.prems"(1-3) Some
    show ?thesis
      using "1.IH" [OF Some round_graph_ok [OF ok] round_joined_ok [OF ok] assms(3)
          round_order_ok [OF ok "1.prems"(4)]]
      by (subst dijkstra.simps) (simp add: Some)
  qed
qed

lemma nearest_loop_None:
  "nearest_loop nodes is nr = None \<Longrightarrow> nr = None \<and> (\<forall>i \<in> set is. gn_joined (nodes ! i))"
  by (induction "is" arbitrary: nr) (auto split: if_splits option.splits)

lemma find_node_nearest_NoneD:
  assumes "find_node_nearest nodes = None" "i < length nodes" "\<not> gn_joined (nodes ! i)"
  shows "gn_cost (nodes ! i) = no_cost"
proof (cases "nearest_loop nodes [0..<length nodes] None")
  case None
  then show ?thesis using nearest_loop_None [OF None] assms by simp
next
  case (Some n)
  then have n: "\<not> gn_joined (nodes ! n)" "gn_cost (nodes ! n) \<le> gn_cost (nodes ! i)"
    using nearest_loop_spec [OF Some] assms by auto
  then have "gn_cost (nodes ! n) = no_cost"
    using assms(1) Some by (simp add: find_node_nearest_def split: if_splits)
  then have "no_cost \<le> gn_cost (nodes ! i)" using n by simp
  moreover have "no_cost = - 1" by (simp add: no_cost_def)
  ultimately show ?thesis using word_n1_ge [of "gn_cost (nodes ! i)"] by (metis order.antisym)
qed

text \<open>At the end every reachable router has been joined, at its least cost.\<close>

lemma reach_complete:
  assumes "graph_ok ifaces db nodes" "joined_ok ifaces db nodes" "find_node_nearest nodes = None"
    and small: "length db < 2 ^ 32 - 3"
  shows "reach ifaces db d k i g \<Longrightarrow> gn_joined (nodes ! k) \<and> unat (gn_cost (nodes ! k)) \<le> d"
proof (induction rule: reach.induct)
  have "map gn_db nodes = db" using assms(1) by (simp add: graph_ok_def)
  then have len: "length nodes = length db" by auto
  have fin: "gn_joined (nodes ! k)" if "k < length db" "gn_cost (nodes ! k) \<noteq> no_cost" for k
    using find_node_nearest_NoneD [OF assms(3), of k] that len by auto
  have no: "unat no_cost = 2 ^ 32 - 1" by (simp add: no_cost_def)
  {
    case (direct i nbr k)
    then have "gn_cost (nodes ! k) \<le> 1"
      using assms(2) by (auto simp: joined_ok_def direct_nbr_def)
    then have "unat (gn_cost (nodes ! k)) \<le> 1" by (simp add: word_le_nat_alt)
    then show ?case using fin [of k] direct no by force
  next
    case (link d j i g lsa k)
    have j: "j < length db" "gn_joined (nodes ! j)" "unat (gn_cost (nodes ! j)) \<le> d"
      using link reach_bounds by blast+
    then have fj: "gn_cost (nodes ! j) \<noteq> no_cost" using assms(2) by (simp add: joined_ok_def)
    have "unat (gn_cost (nodes ! j)) \<le> 1 + card (joined nodes)"
      using assms(1) j fj by (simp add: graph_ok_def)
    moreover have "card (joined nodes) \<le> length db"
      using card_mono [of "{..< length db}" "joined nodes"] len by (auto simp: joined_def)
    ultimately have b: "unat (gn_cost (nodes ! j)) + 1 < 2 ^ 32 - 1"
      using small by simp
    have "linked db j k" using link by (auto simp: linked_def)
    then have "gn_cost (nodes ! k) \<le> gn_cost (nodes ! j) + 1"
      using assms(2) j by (simp add: joined_ok_def)
    then have "unat (gn_cost (nodes ! k)) \<le> unat (gn_cost (nodes ! j)) + 1"
      using unat_cost_Suc [OF fj] by (simp add: word_le_nat_alt)
    then show ?case using fin [of k] link b no j(3) by force
  }
qed

lemma dijkstra_result:
  assumes "distinct (map db_rid db)"
    and "dijkstra (first_round ifaces (map init_node db)) [] = (nodes, order)"
  shows "graph_ok ifaces db nodes" "joined_ok ifaces db nodes" "order_ok nodes order"
    "find_node_nearest nodes = None"
proof -
  have "order_ok (first_round ifaces (map init_node db)) []"
    using first_round_ok(3) [OF assms(1)] by (simp add: order_ok_def)
  from dijkstra_ok [OF first_round_ok(1,2) [OF assms(1)] assms(1) this]
  show "graph_ok ifaces db nodes" "joined_ok ifaces db nodes" "order_ok nodes order"
    "find_node_nearest nodes = None"
    by (simp_all add: assms(2))
qed

definition shortest :: "iface_info list \<Rightarrow> mospf_db_entry list \<Rightarrow> nat \<Rightarrow> nat \<Rightarrow> nat \<Rightarrow> u32 \<Rightarrow> bool" where
  "shortest ifaces db d k i g \<longleftrightarrow>
     reach ifaces db d k i g \<and> (\<forall>d' i' g'. reach ifaces db d' k i' g' \<longrightarrow> d \<le> d')"

lemma dijkstra_order:
  assumes "distinct (map db_rid db)" "length db < 2 ^ 32 - 3"
    and "dijkstra (first_round ifaces (map init_node db)) [] = (nodes, order)"
  shows "k \<in> set order \<longleftrightarrow> (\<exists>d i g. reach ifaces db d k i g)"
    "k \<in> set order \<Longrightarrow> \<exists>i. gn_iface (nodes ! k) = Some i \<and>
       shortest ifaces db (unat (gn_cost (nodes ! k))) k i (gn_gw (nodes ! k))"
    "sorted (map (\<lambda>k. unat (gn_cost (nodes ! k))) order)" "distinct order"
    "k \<in> set order \<Longrightarrow> k < length db \<and> gn_joined (nodes ! k) \<and> gn_db (nodes ! k) = db ! k"
proof -
  note res = dijkstra_result [OF assms(1,3)]
  have map: "map gn_db nodes = db" using res(1) by (simp add: graph_ok_def)
  then have len: "length nodes = length db" by auto
  have complete: "reach ifaces db d k i g \<Longrightarrow> gn_joined (nodes ! k) \<and> unat (gn_cost (nodes ! k)) \<le> d" for d k i g
    using reach_complete [OF res(1,2,4) assms(2)] .
  show mem: "k \<in> set order \<Longrightarrow> k < length db \<and> gn_joined (nodes ! k) \<and> gn_db (nodes ! k) = db ! k" for k
  proof -
    assume "k \<in> set order"
    then have "k < length nodes" "gn_joined (nodes ! k)"
      using res(3) by (simp_all add: order_ok_def joined_def)
    moreover have "gn_db (nodes ! k) = db ! k" if "k < length nodes"
      using that map nth_map by metis
    ultimately show ?thesis using len by simp
  qed
  show sh: "k \<in> set order \<Longrightarrow> \<exists>i. gn_iface (nodes ! k) = Some i \<and>
       shortest ifaces db (unat (gn_cost (nodes ! k))) k i (gn_gw (nodes ! k))" for k
  proof -
    assume k: "k \<in> set order"
    then have "gn_cost (nodes ! k) \<noteq> no_cost" using mem res(2) by (simp add: joined_ok_def)
    then obtain i where "gn_iface (nodes ! k) = Some i"
      "reach ifaces db (unat (gn_cost (nodes ! k))) k i (gn_gw (nodes ! k))"
      using res(1) mem [OF k] unfolding graph_ok_def by blast
    then show ?thesis using complete unfolding shortest_def by blast
  qed
  have "k \<in> set order" if "reach ifaces db d k i g" for d i g
    using complete [OF that] reach_bounds [OF that] res(3) len by (simp add: order_ok_def joined_def)
  then show "k \<in> set order \<longleftrightarrow> (\<exists>d i g. reach ifaces db d k i g)"
    using sh [of k] unfolding shortest_def by blast
  show "distinct order" using res(3) by (simp add: order_ok_def)
  show "sorted (map (\<lambda>k. unat (gn_cost (nodes ! k))) order)"
    using res(3) by (simp add: order_ok_def sorted_map word_le_nat_alt)
qed

section \<open>The routing table\<close>

definition net :: "rt_entry \<Rightarrow> u32" where "net rt = rt_dest rt AND rt_mask rt"
definition lsa_net :: "mospf_lsa \<Rightarrow> u32" where "lsa_net lsa = lsa_subnet lsa AND lsa_mask lsa"

lemma router_exist_net: "router_exist (lsa_subnet lsa) (lsa_mask lsa) s \<longleftrightarrow> lsa_net lsa \<in> net ` set (r_rtable s)"
  unfolding router_exist_def net_def lsa_net_def image_iff by (metis (mono_tags))

lemma new_rt_entry_fields:
  "rt_dest (new_rt_entry d m g i s) = d" "rt_mask (new_rt_entry d m g i s) = m"
  "rt_gw (new_rt_entry d m g i s) = g" "rt_iface (new_rt_entry d m g i s) = i"
  by (simp_all add: new_rt_entry_def)

lemma add_routes_spec:
  assumes "gn_iface nd = Some i"
  shows "\<exists>new. add_routes nd ls s = Some (s \<lparr>r_rtable := r_rtable s @ new\<rparr>) \<and>
    (\<forall>e \<in> set new. \<exists>lsa \<in> set ls. rt_dest e = lsa_subnet lsa \<and> rt_mask e = lsa_mask lsa \<and>
       rt_gw e = gn_gw nd \<and> rt_iface e = i \<and> lsa_net lsa \<notin> net ` set (r_rtable s)) \<and>
    (\<forall>lsa \<in> set ls. lsa_net lsa \<in> net ` set (r_rtable s @ new))"
proof (induction ls arbitrary: s)
  case Nil
  show ?case by (rule exI [of _ "[]"]) simp
next
  case (Cons lsa ls)
  show ?case
  proof (cases "lsa_net lsa \<in> net ` set (r_rtable s)")
    case True
    then show ?thesis using Cons [of s] router_exist_net [of lsa s] by auto
  next
    case False
    let ?e = "new_rt_entry (lsa_subnet lsa) (lsa_mask lsa) (gn_gw nd) i s"
    obtain new where new: "add_routes nd ls (add_rt_entry ?e s) = Some (s \<lparr>r_rtable := r_rtable s @ ?e # new\<rparr>)"
      "\<forall>e \<in> set new. \<exists>lsa \<in> set ls. rt_dest e = lsa_subnet lsa \<and> rt_mask e = lsa_mask lsa \<and>
         rt_gw e = gn_gw nd \<and> rt_iface e = i \<and> lsa_net lsa \<notin> net ` set (r_rtable s @ [?e])"
      "\<forall>lsa \<in> set ls. lsa_net lsa \<in> net ` set (r_rtable s @ ?e # new)"
      using Cons [of "add_rt_entry ?e s"] by (auto simp: add_rt_entry_def)
    have "lsa_net lsa = net ?e" by (simp add: net_def lsa_net_def new_rt_entry_fields)
    then show ?thesis
      using new False assms router_exist_net [of lsa s]
      by (intro exI [of _ "?e # new"]) (auto simp: new_rt_entry_fields)
  qed
qed

text \<open>The route \<open>e\<close> is one of the node \<open>k\<close>, the nearest of \<open>ks\<close> that advertises its network.\<close>

definition route_of :: "graph_node list \<Rightarrow> nat list \<Rightarrow> rt_entry \<Rightarrow> nat \<Rightarrow> bool" where
  "route_of nodes ks e k \<longleftrightarrow> k \<in> set ks \<and>
     (\<exists>lsa \<in> set (db_lsas (gn_db (nodes ! k))). rt_dest e = lsa_subnet lsa \<and> rt_mask e = lsa_mask lsa) \<and>
     rt_gw e = gn_gw (nodes ! k) \<and> gn_iface (nodes ! k) = Some (rt_iface e) \<and>
     (\<forall>k' \<in> set ks. \<forall>lsa \<in> set (db_lsas (gn_db (nodes ! k'))).
        lsa_net lsa = net e \<longrightarrow> unat (gn_cost (nodes ! k)) \<le> unat (gn_cost (nodes ! k')))"

lemma add_all_routes_spec:
  assumes "\<forall>k \<in> set ks. gn_joined (nodes ! k) \<and> gn_iface (nodes ! k) \<noteq> None"
    and "sorted (map (\<lambda>k. unat (gn_cost (nodes ! k))) ks)"
  shows "\<exists>new. add_all_routes nodes ks s = Some (s \<lparr>r_rtable := r_rtable s @ new\<rparr>) \<and>
    (\<forall>e \<in> set new. net e \<notin> net ` set (r_rtable s) \<and> (\<exists>k. route_of nodes ks e k)) \<and>
    (\<forall>k \<in> set ks. \<forall>lsa \<in> set (db_lsas (gn_db (nodes ! k))). lsa_net lsa \<in> net ` set (r_rtable s @ new))"
  using assms
proof (induction ks arbitrary: s)
  case Nil
  show ?case by (rule exI [of _ "[]"]) simp
next
  case (Cons k ks)
  let ?ls = "db_lsas (gn_db (nodes ! k))"
  obtain i where i: "gn_iface (nodes ! k) = Some i" and J: "gn_joined (nodes ! k)"
    using Cons.prems(1) by auto
  obtain new1 where new1: "add_routes (nodes ! k) ?ls s = Some (s \<lparr>r_rtable := r_rtable s @ new1\<rparr>)"
    "\<And>e. e \<in> set new1 \<Longrightarrow> \<exists>lsa \<in> set ?ls. rt_dest e = lsa_subnet lsa \<and> rt_mask e = lsa_mask lsa \<and>
       rt_gw e = gn_gw (nodes ! k) \<and> rt_iface e = i \<and> lsa_net lsa \<notin> net ` set (r_rtable s)"
    "\<And>lsa. lsa \<in> set ?ls \<Longrightarrow> lsa_net lsa \<in> net ` set (r_rtable s @ new1)"
    using add_routes_spec [OF i, of ?ls s] by auto
  let ?s1 = "s \<lparr>r_rtable := r_rtable s @ new1\<rparr>"
  obtain new2 where new2: "add_all_routes nodes ks ?s1 = Some (?s1 \<lparr>r_rtable := (r_rtable s @ new1) @ new2\<rparr>)"
    "\<And>e. e \<in> set new2 \<Longrightarrow> net e \<notin> net ` set (r_rtable s @ new1) \<and> (\<exists>k. route_of nodes ks e k)"
    "\<And>k lsa. k \<in> set ks \<Longrightarrow> lsa \<in> set (db_lsas (gn_db (nodes ! k))) \<Longrightarrow>
       lsa_net lsa \<in> net ` set ((r_rtable s @ new1) @ new2)"
    using Cons.IH [of ?s1] Cons.prems by auto
  have le: "unat (gn_cost (nodes ! k)) \<le> unat (gn_cost (nodes ! k'))" if "k' \<in> set (k # ks)" for k'
    using Cons.prems(2) that by auto
  have one: "net e \<notin> net ` set (r_rtable s) \<and> route_of nodes (k # ks) e k" if e: "e \<in> set new1" for e
  proof -
    obtain lsa where lsa: "lsa \<in> set ?ls" "rt_dest e = lsa_subnet lsa" "rt_mask e = lsa_mask lsa"
      "rt_gw e = gn_gw (nodes ! k)" "rt_iface e = i" "lsa_net lsa \<notin> net ` set (r_rtable s)"
      using new1(2) [OF e] by blast
    then have "net e = lsa_net lsa" by (simp add: net_def lsa_net_def)
    then show ?thesis using lsa i le unfolding route_of_def by auto
  qed
  have two: "net e \<notin> net ` set (r_rtable s) \<and> (\<exists>j. route_of nodes (k # ks) e j)" if e: "e \<in> set new2" for e
  proof -
    obtain j where j: "route_of nodes ks e j" using new2(2) [OF e] by blast
    have "lsa_net lsa \<noteq> net e" if "lsa \<in> set ?ls" for lsa
      using new1(3) [OF that] new2(2) [OF e] by metis
    then have "route_of nodes (k # ks) e j" using j by (auto simp: route_of_def)
    then show ?thesis using new2(2) [OF e] by auto
  qed
  have run: "add_all_routes nodes (k # ks) s = Some (s \<lparr>r_rtable := r_rtable s @ new1 @ new2\<rparr>)"
    using new1(1) new2(1) J by simp
  have all: "lsa_net lsa \<in> net ` set (r_rtable s @ new1 @ new2)"
    if "j \<in> set (k # ks)" "lsa \<in> set (db_lsas (gn_db (nodes ! j)))" for j lsa
    using that new1(3) [of lsa] new2(3) [of j lsa] by auto
  show ?case
    using run one two all by (intro exI [of _ "new1 @ new2"]) auto
qed

section \<open>Properties\<close>

text \<open>C2. The route computation finds shortest paths: when its loop ends, a router of the
  database has been visited exactly if some path over the advertised links leads to it, and
  then its cost is the least number of hops, its gateway and interface are those of a neighbour
  on such a path, and routers are visited in the order of their distance.\<close>

theorem dijkstra_shortest:
  assumes "distinct (map db_rid db)" "length db < 2 ^ 32 - 3"
    and "dijkstra (first_round ifaces (map init_node db)) [] = (nodes, order)"
  shows "(k \<in> set order \<longleftrightarrow> (\<exists>d i g. reach ifaces db d k i g)) \<and>
    (k \<in> set order \<longrightarrow> (\<exists>i. gn_iface (nodes ! k) = Some i \<and>
       shortest ifaces db (unat (gn_cost (nodes ! k))) k i (gn_gw (nodes ! k)))) \<and>
    distinct order \<and> sorted (map (\<lambda>k. unat (gn_cost (nodes ! k))) order)"
  using dijkstra_order [OF assms] by blast

text \<open>C18. The new routing table: \<open>router_update\<close> never follows a null interface; the routes
  without a gateway stay, in front; each new route leads to a network that no kept route
  covers, by a shortest path to the nearest router that advertises it; and every network that
  a reachable router advertises has a route.\<close>

theorem router_update_table:
  assumes "distinct (map db_rid (r_db s))" "length (r_db s) < 2 ^ 32 - 3"
  shows "\<exists>new. router_update s =
      Some (s \<lparr>r_rtable := filter (\<lambda>rt. rt_gw rt = 0) (r_rtable s) @ new\<rparr>) \<and>
    (\<forall>e \<in> set new. net e \<notin> net ` {rt \<in> set (r_rtable s). rt_gw rt = 0} \<and>
       (\<exists>d k. \<exists>lsa \<in> set (db_lsas (r_db s ! k)).
          rt_dest e = lsa_subnet lsa \<and> rt_mask e = lsa_mask lsa \<and>
          shortest (r_ifaces s) (r_db s) d k (rt_iface e) (rt_gw e) \<and>
          (\<forall>k' d' i g. \<forall>lsa' \<in> set (db_lsas (r_db s ! k')). lsa_net lsa' = net e \<longrightarrow>
             reach (r_ifaces s) (r_db s) d' k' i g \<longrightarrow> d \<le> d'))) \<and>
    (\<forall>k d i g. reach (r_ifaces s) (r_db s) d k i g \<longrightarrow> (\<forall>lsa \<in> set (db_lsas (r_db s ! k)).
       \<exists>rt \<in> set (filter (\<lambda>rt. rt_gw rt = 0) (r_rtable s) @ new). net rt = lsa_net lsa))"
proof -
  obtain nodes order where run: "dijkstra (first_round (r_ifaces s) (map init_node (r_db s))) [] = (nodes, order)"
    by (cases "dijkstra (first_round (r_ifaces s) (map init_node (r_db s))) []") auto
  note order = dijkstra_order [OF assms run]
  let ?static = "filter (\<lambda>rt. rt_gw rt = 0) (r_rtable s)"
  have "\<forall>k \<in> set order. gn_joined (nodes ! k) \<and> gn_iface (nodes ! k) \<noteq> None"
    using order(2,5) by fastforce
  from add_all_routes_spec [OF this order(3), of "delete_dynamic_routers s"]
  obtain new where new: "router_update s = Some (s \<lparr>r_rtable := ?static @ new\<rparr>)"
    "\<And>e. e \<in> set new \<Longrightarrow> net e \<notin> net ` set ?static \<and> (\<exists>k. route_of nodes order e k)"
    "\<And>k lsa. k \<in> set order \<Longrightarrow> lsa \<in> set (db_lsas (gn_db (nodes ! k))) \<Longrightarrow>
       lsa_net lsa \<in> net ` set (?static @ new)"
    by (auto simp: router_update_def run delete_dynamic_routers_def)
  have dyn: "\<exists>d k. \<exists>lsa \<in> set (db_lsas (r_db s ! k)).
        rt_dest e = lsa_subnet lsa \<and> rt_mask e = lsa_mask lsa \<and>
        shortest (r_ifaces s) (r_db s) d k (rt_iface e) (rt_gw e) \<and>
        (\<forall>k' d' i g. \<forall>lsa' \<in> set (db_lsas (r_db s ! k')). lsa_net lsa' = net e \<longrightarrow>
           reach (r_ifaces s) (r_db s) d' k' i g \<longrightarrow> d \<le> d')" if e: "e \<in> set new" for e
  proof -
    obtain k where k: "route_of nodes order e k" using new(2) [OF e] by blast
    then have mem: "k \<in> set order" by (simp add: route_of_def)
    obtain lsa where lsa: "lsa \<in> set (db_lsas (r_db s ! k))" "rt_dest e = lsa_subnet lsa" "rt_mask e = lsa_mask lsa"
      using k order(5) [OF mem] by (auto simp: route_of_def)
    have sh: "shortest (r_ifaces s) (r_db s) (unat (gn_cost (nodes ! k))) k (rt_iface e) (rt_gw e)"
      using order(2) [OF mem] k by (auto simp: route_of_def)
    have "unat (gn_cost (nodes ! k)) \<le> d'"
      if r: "reach (r_ifaces s) (r_db s) d' k' i g" and "lsa' \<in> set (db_lsas (r_db s ! k'))" "lsa_net lsa' = net e"
      for k' d' i g lsa'
    proof -
      have mem': "k' \<in> set order" using r order(1) [of k'] by blast
      then have "unat (gn_cost (nodes ! k)) \<le> unat (gn_cost (nodes ! k'))"
        using k that order(5) [OF mem'] by (auto simp: route_of_def)
      also have "\<dots> \<le> d'" using order(2) [OF mem'] r by (auto simp: shortest_def)
      finally show ?thesis .
    qed
    then show ?thesis using lsa sh by blast
  qed
  have covered: "\<exists>rt \<in> set (?static @ new). net rt = lsa_net lsa"
    if "reach (r_ifaces s) (r_db s) d k i g" "lsa \<in> set (db_lsas (r_db s ! k))" for k d i g lsa
  proof -
    have mem: "k \<in> set order" using that(1) order(1) [of k] by blast
    then have "lsa_net lsa \<in> net ` set (?static @ new)" using new(3) [OF mem] order(5) [OF mem] that(2) by simp
    then show ?thesis by (elim imageE) (rule bexI, erule sym)
  qed
  have static: "net e \<notin> net ` {rt \<in> set (r_rtable s). rt_gw rt = 0}" if "e \<in> set new" for e
    using new(2) [OF that] by simp
  show ?thesis
    by (rule exI [of _ new], rule conjI, rule new(1), rule conjI, rule ballI, rule conjI, erule static,
        erule dyn, intro allI impI ballI, rule covered)
qed

section \<open>Instances\<close>

text \<open>Two routers in a line behind the interface: the neighbour 10.0.0.2, which knows the second
  router, which advertises 20.0.0.0/8.\<close>

definition line_db :: "mospf_db_entry list" where
  "line_db =
     [\<lparr>db_rid = 0x14000001, db_seq = 0, db_nadv = 1, db_array =
        [\<lparr>lsa_subnet = 0x14000000, lsa_mask = 0xff000000, lsa_rid = 0\<rparr>]\<rparr>,
      \<lparr>db_rid = 0x0a000002, db_seq = 0, db_nadv = 1, db_array =
        [\<lparr>lsa_subnet = 0x0b000000, lsa_mask = 0xff000000, lsa_rid = 0x14000001\<rparr>]\<rparr>]"

definition line_router :: router where
  "line_router = demo_router \<lparr>r_db := line_db, r_ifaces := map (\<lambda>i. i \<lparr>if_nbr_list :=
     [\<lparr>nbr_id = 0x0a000002, nbr_ip = 0x0a000002, nbr_mask = 0xff000000, nbr_alive = 15\<rparr>]\<rparr>)
     (r_ifaces demo_router)\<rparr>"

lemma dijkstra_shortest_witness:
  "snd (dijkstra (first_round (r_ifaces line_router) (map init_node line_db)) []) = [1, 0] \<and>
   (\<exists>i. shortest (r_ifaces line_router) line_db 2 0 i 0x0a000002)"
proof -
  let ?r = "dijkstra (first_round (r_ifaces line_router) (map init_node line_db)) []"
  have eval: "gn_cost (fst ?r ! 0) = 2" "gn_gw (fst ?r ! 0) = 0x0a000002" "snd ?r = [1, 0]"
    by code_simp+
  have db: "distinct (map db_rid line_db)" "length line_db < 2 ^ 32 - 3"
    by (simp_all add: line_db_def)
  have "?r = (fst ?r, snd ?r)" by simp
  from dijkstra_shortest [OF db this, of 0]
  have "\<exists>i. shortest (r_ifaces line_router) line_db (unat (2 :: u32)) 0 i 0x0a000002"
    unfolding eval by auto
  then show ?thesis using eval(3) by simp
qed

lemma router_update_table_witness:
  "\<exists>new. router_update line_router = Some (line_router \<lparr>r_rtable :=
     filter (\<lambda>rt. rt_gw rt = 0) (r_rtable line_router) @ new\<rparr>)"
proof -
  have "distinct (map db_rid (r_db line_router))" "length (r_db line_router) < 2 ^ 32 - 3"
    by (simp_all add: line_router_def line_db_def)
  from router_update_table [OF this] show ?thesis by blast
qed

end
