(* ===== verification/Mospf.thy ===== *)
theory Mospf imports IpForward Dijkstra begin

text \<open>The link-state protocol of \<open>exp10/code\<close> (\<open>mospf_daemon.c\<close>, \<open>mospf_proto.c\<close>) and the packet
  dispatch of \<open>ip.c\<close> and \<open>main.c\<close>: hello messages and neighbours, link-state updates and their
  database, flooding, the periodic threads as single rounds. An access outside a buffer or a
  failed assertion is \<open>None\<close>.\<close>

section \<open>Messages\<close>

definition MOSPF_VERSION :: u8 where "MOSPF_VERSION = 2"
definition MOSPF_ALLSPFRouters :: u32 where "MOSPF_ALLSPFRouters = 0xe0000005"
definition MOSPF_TYPE_HELLO :: u8 where "MOSPF_TYPE_HELLO = 1"
definition MOSPF_TYPE_LSU :: u8 where "MOSPF_TYPE_LSU = 4"
definition MOSPF_DEFAULT_HELLOINT :: nat where "MOSPF_DEFAULT_HELLOINT = 5"
definition MOSPF_DEFAULT_LSUINT :: int where "MOSPF_DEFAULT_LSUINT = 30"
definition MOSPF_NEIGHBOR_TIMEOUT :: nat where "MOSPF_NEIGHBOR_TIMEOUT = 20"
definition MOSPF_MAX_LSU_TTL :: u8 where "MOSPF_MAX_LSU_TTL = 255"

text \<open>The header at offset \<open>m\<close> of the packet; a hello or LSU part follows it at \<open>m + 16\<close>, the
  LSA array of an LSU at \<open>m + 24\<close>.\<close>

definition mh_version :: "bytes \<Rightarrow> nat \<Rightarrow> u8" where "mh_version p m = ld8 p m"
definition mh_type :: "bytes \<Rightarrow> nat \<Rightarrow> u8" where "mh_type p m = ld8 p (m + 1)"
definition mh_len :: "bytes \<Rightarrow> nat \<Rightarrow> u16" where "mh_len p m = ld16 p (m + 2)"
definition mh_rid :: "bytes \<Rightarrow> nat \<Rightarrow> u32" where "mh_rid p m = ld32 p (m + 4)"
definition mh_aid :: "bytes \<Rightarrow> nat \<Rightarrow> u32" where "mh_aid p m = ld32 p (m + 8)"
definition mh_checksum :: "bytes \<Rightarrow> nat \<Rightarrow> u16" where "mh_checksum p m = ld16 p (m + 12)"

definition hello_mask :: "bytes \<Rightarrow> nat \<Rightarrow> u32" where "hello_mask p h = ld32 p h"
definition lsu_seq :: "bytes \<Rightarrow> nat \<Rightarrow> u16" where "lsu_seq p l = ld16 p l"
definition lsu_ttl :: "bytes \<Rightarrow> nat \<Rightarrow> u8" where "lsu_ttl p l = ld8 p (l + 2)"
definition lsu_nadv :: "bytes \<Rightarrow> nat \<Rightarrow> u32" where "lsu_nadv p l = ld32 p (l + 4)"

definition mospf_checksum :: "bytes \<Rightarrow> nat \<Rightarrow> u16" where
  "mospf_checksum p m = checksum (drop m (st16 p (m + 12) 0)) (unat (ntohs (mh_len p m))) 0"

definition mospf_init_hdr :: "nat \<Rightarrow> u8 \<Rightarrow> u16 \<Rightarrow> u32 \<Rightarrow> u32 \<Rightarrow> bytes \<Rightarrow> bytes" where
  "mospf_init_hdr m type len rid aid p =
     (let p = st8 p m MOSPF_VERSION;
          p = st8 p (m + 1) type;
          p = st16 p (m + 2) (htons len);
          p = st32 p (m + 4) (htonl rid);
          p = st32 p (m + 8) (htonl aid)
      in st16 p (m + 14) 0)"

definition mospf_init_hello :: "nat \<Rightarrow> u32 \<Rightarrow> bytes \<Rightarrow> bytes" where
  "mospf_init_hello h msk p =
     (let p = st32 p h (htonl msk);
          p = st16 p (h + 4) (htons (of_nat MOSPF_DEFAULT_HELLOINT))
      in st16 p (h + 6) 0)"

definition mospf_init_lsu :: "nat \<Rightarrow> u32 \<Rightarrow> u16 \<Rightarrow> bytes \<Rightarrow> bytes" where
  "mospf_init_lsu l nadv seq p =
     (let p = st16 p l (htons seq);
          p = st8 p (l + 3) 0;
          p = st8 p (l + 2) MOSPF_MAX_LSU_TTL
      in st32 p (l + 4) (htonl nadv))"

text \<open>\<open>packet_analize\<close>: where the mOSPF header of a packet begins. It reads the header length
  of the IP header.\<close>

definition packet_analize :: "bytes \<Rightarrow> nat" where
  "packet_analize p = ETHER_HDR_SIZE + IP_HDR_SIZE p"

section \<open>Start\<close>

definition mospf_init :: "router \<Rightarrow> router" where
  "mospf_init s = s \<lparr>r_area_id := 0, r_router_id := if_ip (hd (r_ifaces s)), r_sequence_num := 0,
     r_lsuint := MOSPF_DEFAULT_LSUINT,
     r_ifaces := map (\<lambda>i. i \<lparr>if_helloint := int MOSPF_DEFAULT_HELLOINT, if_nbr_list := []\<rparr>) (r_ifaces s),
     r_db := []\<rparr>"

section \<open>Hello messages\<close>

text \<open>The hello for one interface. The offset of the mOSPF header is computed from the fresh,
  uninitialised buffer, before \<open>ip_init_hdr\<close> writes the header length.\<close>

definition hello_len :: nat where "hello_len = ETHER_HDR_SIZE + IP_BASE_HDR_SIZE + 16 + 8"

definition all_spf_mac :: mac_addr where "all_spf_mac = [0x01, 0x00, 0x5E, 0x00, 0x00, 0x05]"

definition send_hello :: "nat \<Rightarrow> router \<Rightarrow> router option" where
  "send_hello i s =
     (let (p, s) = malloc hello_len s;
          iface = r_ifaces s ! i;
          m = packet_analize p
      in if hello_len < m + 24 then None
         else
           let p = mospf_init_hello (m + 16) (if_mask iface) p;
               p = mospf_init_hdr m MOSPF_TYPE_HELLO (16 + 8) (r_router_id s) (r_area_id s) p;
               p = st16 p (m + 12) (mospf_checksum p m);
               (x, s) = rand s;
               p = ip_init_hdr (if_ip iface) MOSPF_ALLSPFRouters
                     (of_nat (hello_len - ETHER_HDR_SIZE)) IPPROTO_MOSPF x p;
               p = blit p 6 (if_mac iface);
               p = blit p 0 all_spf_mac;
               p = st16 p 12 (htons ETH_P_IP)
           in Some (iface_send_packet i p s))"

text \<open>One round of \<open>sending_mospf_hello_thread\<close>.\<close>

fun send_hellos :: "nat list \<Rightarrow> router \<Rightarrow> router option" where
  "send_hellos [] s = Some s"
| "send_hellos (i # is) s = (case send_hello i s of None \<Rightarrow> None | Some s \<Rightarrow> send_hellos is s)"

definition sending_mospf_hello :: "router \<Rightarrow> router option" where
  "sending_mospf_hello s = send_hellos [0..<length (r_ifaces s)] s"

definition update_iface :: "nat \<Rightarrow> (iface_info \<Rightarrow> iface_info) \<Rightarrow> router \<Rightarrow> router" where
  "update_iface i f s = s \<lparr>r_ifaces := (r_ifaces s)[i := f (r_ifaces s ! i)]\<rparr>"

fun refresh_nbr :: "u32 \<Rightarrow> mospf_nbr list \<Rightarrow> mospf_nbr list option" where
  "refresh_nbr rid [] = None"
| "refresh_nbr rid (nbr # nbrs) =
     (if nbr_id nbr = rid then Some (nbr \<lparr>nbr_alive := of_nat (MOSPF_DEFAULT_HELLOINT * 3)\<rparr> # nbrs)
      else map_option ((#) nbr) (refresh_nbr rid nbrs))"

definition handle_mospf_hello :: "nat \<Rightarrow> bytes \<Rightarrow> router \<Rightarrow> router option" where
  "handle_mospf_hello i packet s =
     (let m = packet_analize packet; rid = ntohl (mh_rid packet m)
      in case refresh_nbr rid (if_nbr_list (r_ifaces s ! i)) of
           Some nbrs \<Rightarrow> Some (update_iface i (\<lambda>f. f \<lparr>if_nbr_list := nbrs\<rparr>) s)
         | None \<Rightarrow>
             if length packet < m + 20 then None
             else Some (update_iface i (\<lambda>f. f \<lparr>
               if_nbr_list := if_nbr_list f @
                 [\<lparr>nbr_id = rid, nbr_ip = ntohl (ip_saddr packet), nbr_mask = ntohl (hello_mask packet (m + 16)),
                   nbr_alive = of_nat (MOSPF_DEFAULT_HELLOINT * 3)\<rparr>],
               if_num_nbr := if_num_nbr f + 1\<rparr>) s))"

section \<open>Link-state updates\<close>

definition write_lsa :: "nat \<Rightarrow> u32 \<Rightarrow> u32 \<Rightarrow> u32 \<Rightarrow> bytes \<Rightarrow> bytes" where
  "write_lsa i subnet msk rid buf =
     (let buf = st32 buf (12 * i) (htonl subnet);
          buf = st32 buf (12 * i + 4) (htonl msk)
      in st32 buf (12 * i + 8) (htonl rid))"

text \<open>The array \<open>lsa_buf\<close> has one element per interface; an element more is an overflow: \<open>None\<close>.\<close>

fun fill_lsas :: "router \<Rightarrow> nat \<Rightarrow> rt_entry list \<Rightarrow> nat \<Rightarrow> bytes \<Rightarrow> bytes option" where
  "fill_lsas s nadv [] i buf = Some buf"
| "fill_lsas s nadv (rt # rts) i buf =
     (if rt_gw rt = 0 then
        if nadv \<le> i then None
        else
          let buf = write_lsa i (rt_dest rt) (rt_mask rt) (rt_gw rt) buf;
              buf = fold (\<lambda>nbr. write_lsa i (nbr_ip nbr) (nbr_mask nbr) (nbr_id nbr))
                      (if_nbr_list (r_ifaces s ! rt_iface rt)) buf
          in fill_lsas s nadv rts (i + 1) buf
      else fill_lsas s nadv rts i buf)"

text \<open>One update to one neighbour. As for the hello, the offset of the header comes from the
  uninitialised buffer.\<close>

definition send_lsu :: "nat \<Rightarrow> bytes \<Rightarrow> nat \<Rightarrow> mospf_nbr \<Rightarrow> router \<Rightarrow> router option" where
  "send_lsu nadv lsa_buf i nbr s =
     (let pkt_len = ETHER_HDR_SIZE + IP_BASE_HDR_SIZE + 16 + 8 + nadv * 12;
          (p, s) = malloc pkt_len s;
          m = packet_analize p
      in if pkt_len < m + 24 + nadv * 12 then None
         else
           let p = blit p (m + 24) lsa_buf;
               p = mospf_init_lsu (m + 16) (of_nat nadv) (r_sequence_num s) p;
               p = mospf_init_hdr m MOSPF_TYPE_LSU (of_nat (pkt_len - ETHER_HDR_SIZE - IP_BASE_HDR_SIZE))
                     (r_router_id s) (r_area_id s) p;
               p = st16 p (m + 12) (mospf_checksum p m);
               (x, s) = rand s;
               p = ip_init_hdr (if_ip (r_ifaces s ! i)) (nbr_ip nbr)
                     (of_nat (pkt_len - ETHER_HDR_SIZE)) IPPROTO_MOSPF x p;
               s = ip_send_packet p s
           in Some (s \<lparr>r_sequence_num := r_sequence_num s + 1, r_lsuint := 10\<rparr>))"

fun send_lsus :: "nat \<Rightarrow> bytes \<Rightarrow> (nat \<times> mospf_nbr) list \<Rightarrow> router \<Rightarrow> router option" where
  "send_lsus nadv lsa_buf [] s = Some s"
| "send_lsus nadv lsa_buf ((i, nbr) # ps) s =
     (case send_lsu nadv lsa_buf i nbr s of None \<Rightarrow> None | Some s \<Rightarrow> send_lsus nadv lsa_buf ps s)"

text \<open>The two nested loops over interfaces and their neighbours, as pairs in their order.\<close>

definition all_nbrs :: "nat list \<Rightarrow> router \<Rightarrow> (nat \<times> mospf_nbr) list" where
  "all_nbrs is s = concat (map (\<lambda>i. map (Pair i) (if_nbr_list (r_ifaces s ! i))) is)"

text \<open>The elements of \<open>lsa_buf\<close> are uninitialised too: the array is taken like a fresh block.\<close>

definition broadcast_lsu :: "router \<Rightarrow> router option" where
  "broadcast_lsu s =
     (let nadv = length (r_ifaces s);
          (buf, s) = malloc (nadv * 12) s
      in case fill_lsas s nadv (r_rtable s) 0 buf of
           None \<Rightarrow> None
         | Some buf \<Rightarrow> send_lsus nadv buf (all_nbrs [0..<length (r_ifaces s)] s) s)"

text \<open>One round of \<open>checking_nbr_thread\<close>: the neighbours of an interface from position \<open>k\<close>.\<close>

fun check_nbrs :: "nat \<Rightarrow> nat \<Rightarrow> nat \<Rightarrow> router \<Rightarrow> router option" where
  "check_nbrs i k 0 s = Some s"
| "check_nbrs i k (Suc n) s =
     (let nbrs = if_nbr_list (r_ifaces s ! i);
          nbr = (nbrs ! k) \<lparr>nbr_alive := nbr_alive (nbrs ! k) - 1\<rparr>
      in if nbr_alive nbr \<le> 0 then
           (case broadcast_lsu (update_iface i (\<lambda>f. f \<lparr>if_num_nbr := if_num_nbr f - 1,
                   if_nbr_list := take k nbrs @ drop (k + 1) nbrs\<rparr>) s) of
              None \<Rightarrow> None
            | Some s \<Rightarrow> check_nbrs i k n s)
         else check_nbrs i (k + 1) n (update_iface i (\<lambda>f. f \<lparr>if_nbr_list := nbrs[k := nbr]\<rparr>) s))"

fun check_ifaces :: "nat list \<Rightarrow> router \<Rightarrow> router option" where
  "check_ifaces [] s = Some s"
| "check_ifaces (i # is) s =
     (case check_nbrs i 0 (length (if_nbr_list (r_ifaces s ! i))) s of
        None \<Rightarrow> None
      | Some s \<Rightarrow> check_ifaces is s)"

definition checking_nbr :: "router \<Rightarrow> router option" where
  "checking_nbr s = check_ifaces [0..<length (r_ifaces s)] s"

text \<open>One round of \<open>sending_mospf_lsu_thread\<close>.\<close>

definition sending_mospf_lsu :: "router \<Rightarrow> router option" where
  "sending_mospf_lsu s =
     (let s = s \<lparr>r_lsuint := r_lsuint s - 1\<rparr>
      in if r_lsuint s \<le> 0 then broadcast_lsu s else Some s)"

text \<open>The first \<open>n\<close> rounds of \<open>checking_nbr_thread\<close>.\<close>

fun checking_nbr_rounds :: "nat \<Rightarrow> router \<Rightarrow> router option" where
  "checking_nbr_rounds 0 s = Some s"
| "checking_nbr_rounds (Suc n) s =
     (case checking_nbr s of None \<Rightarrow> None | Some s \<Rightarrow> checking_nbr_rounds n s)"

section \<open>Receiving an update\<close>

definition copy_lsas :: "bytes \<Rightarrow> nat \<Rightarrow> nat \<Rightarrow> mospf_lsa list" where
  "copy_lsas p a n =
     map (\<lambda>i. \<lparr>lsa_subnet = ntohl (ld32 p (a + 12 * i)), lsa_mask = ntohl (ld32 p (a + 12 * i + 4)),
       lsa_rid = ntohl (ld32 p (a + 12 * i + 8))\<rparr>) [0..<n]"

text \<open>\<open>seq\<close> is the 16-bit field, widened and then byte-swapped as a 32-bit number, as in the code.\<close>

definition lsu_seq_read :: "bytes \<Rightarrow> nat \<Rightarrow> u32" where
  "lsu_seq_read p l = ntohl (ucast (lsu_seq p l))"

fun find_db :: "u32 \<Rightarrow> mospf_db_entry list \<Rightarrow> mospf_db_entry option" where
  "find_db rid [] = None"
| "find_db rid (d # ds) = (if db_rid d = rid then Some d else find_db rid ds)"

fun store_lsas :: "u32 \<Rightarrow> mospf_lsa list \<Rightarrow> int \<Rightarrow> mospf_db_entry list \<Rightarrow> mospf_db_entry list" where
  "store_lsas rid lsas nadv [] = [\<lparr>db_rid = rid, db_seq = 0, db_nadv = nadv, db_array = lsas\<rparr>]"
| "store_lsas rid lsas nadv (d # ds) =
     (if db_rid d = rid then d \<lparr>db_nadv := nadv, db_array := lsas\<rparr> # ds
      else d # store_lsas rid lsas nadv ds)"

definition lsu_accepted :: "u32 \<Rightarrow> u32 \<Rightarrow> mospf_db_entry list \<Rightarrow> bool" where
  "lsu_accepted rid seq db = (case find_db rid db of None \<Rightarrow> True | Some d \<Rightarrow> ucast (db_seq d) < seq)"

text \<open>The packet to one neighbour of another interface.\<close>

definition forward_lsu :: "bytes \<Rightarrow> nat \<Rightarrow> nat \<Rightarrow> mospf_nbr \<Rightarrow> router \<Rightarrow> router" where
  "forward_lsu packet m i nbr s =
     (let (buf, s) = malloc (length packet) s;
          p = blit buf 0 packet;
          p = st16 p (m + 12) (mospf_checksum p m);
          (x, s) = rand s;
          p = ip_init_hdr (if_ip (r_ifaces s ! i)) (nbr_ip nbr) (of_nat (length packet - ETHER_HDR_SIZE))
                IPPROTO_MOSPF x p
      in ip_send_packet p s)"

fun forward_lsus :: "bytes \<Rightarrow> nat \<Rightarrow> (nat \<times> mospf_nbr) list \<Rightarrow> router \<Rightarrow> router" where
  "forward_lsus packet m [] s = s"
| "forward_lsus packet m ((i, nbr) # ps) s = forward_lsus packet m ps (forward_lsu packet m i nbr s)"

definition handle_mospf_lsu :: "nat \<Rightarrow> bytes \<Rightarrow> router \<Rightarrow> router option" where
  "handle_mospf_lsu i packet s =
     (let m = packet_analize packet;
          l = m + 16;
          rid = ntohl (mh_rid packet m);
          seq = lsu_seq_read packet l;
          nadv = ntohl (lsu_nadv packet l)
      in if rid = r_router_id s then Some s
         else
           let accepted = lsu_accepted rid seq (r_db s)
           in if length packet < m + 24 \<or> accepted \<and> length packet < m + 24 + 12 * unat nadv then None
              else
                let s = (if accepted then
                           s \<lparr>r_db := store_lsas rid (copy_lsas packet (m + 24) (unat nadv)) (sint nadv) (r_db s)\<rparr>
                         else s);
                    ttl = lsu_ttl packet l - 1;
                    packet = st8 packet (l + 2) ttl;
                    s = (if ttl \<le> 0 then s
                         else forward_lsus packet m
                           (all_nbrs (filter (\<lambda>j. j \<noteq> i) [0..<length (r_ifaces s)]) s) s)
                in router_update s)"

definition handle_mospf_packet :: "nat \<Rightarrow> bytes \<Rightarrow> router \<Rightarrow> router option" where
  "handle_mospf_packet i packet s =
     (let m = packet_analize packet
      in if length packet < m + 16 then None
         else if mh_version packet m \<noteq> MOSPF_VERSION then Some s
         else if length packet < m + unat (ntohs (mh_len packet m)) then None
         else if mh_checksum packet m \<noteq> mospf_checksum packet m then Some s
         else if ntohl (mh_aid packet m) \<noteq> r_area_id s then Some s
         else if mh_type packet m = MOSPF_TYPE_HELLO then handle_mospf_hello i packet s
         else if mh_type packet m = MOSPF_TYPE_LSU then handle_mospf_lsu i packet s
         else Some s)"

section \<open>Dispatch\<close>

definition handle_ip_packet :: "nat \<Rightarrow> bytes \<Rightarrow> router \<Rightarrow> router option" where
  "handle_ip_packet i packet s =
     (let daddr = ntohl (ip_daddr packet)
      in if length packet < ETHER_HDR_SIZE + IP_BASE_HDR_SIZE then None
         else if daddr = if_ip (r_ifaces s ! i) then
           if ip_protocol packet = IPPROTO_ICMP then
             if length packet \<le> ip_data packet then None
             else if icmp_type packet (ip_data packet) = ICMP_ECHOREQUEST
             then icmp_send_packet packet ICMP_ECHOREPLY 0 s
             else Some s
           else if ip_protocol packet = IPPROTO_MOSPF then handle_mospf_packet i packet s
           else Some s
         else if ip_daddr packet = htonl MOSPF_ALLSPFRouters then
           if ip_protocol packet = IPPROTO_MOSPF then handle_mospf_packet i packet s else None
         else ip_forward_packet daddr packet s)"

definition router_handle_packet :: "nat \<Rightarrow> bytes \<Rightarrow> router \<Rightarrow> router option" where
  "router_handle_packet i packet s =
     (let type = ntohs (eth_type packet)
      in if type = ETH_P_IP then handle_ip_packet i packet s
         else if type = ETH_P_ARP then handle_arp_packet i packet s
         else Some s)"

section \<open>Hello messages arrive\<close>

lemmas mh_defs = mh_version_def mh_type_def mh_len_def mh_rid_def mh_aid_def mh_checksum_def

lemma mospf_fields_cong:
  assumes "drop 34 p = drop 34 q" "34 \<le> length p" "34 \<le> length q"
  shows "mh_version p 34 = mh_version q 34" "mh_type p 34 = mh_type q 34" "mh_len p 34 = mh_len q 34"
    "mh_rid p 34 = mh_rid q 34" "mh_aid p 34 = mh_aid q 34" "mh_checksum p 34 = mh_checksum q 34"
    "mospf_checksum p 34 = mospf_checksum q 34" "hello_mask p 50 = hello_mask q 50"
  using assms
  by (simp_all add: mh_defs hello_mask_def mospf_checksum_def drop_st16 ld8_drop [of 34] ld16_drop [of 34]
      ld32_drop [of 34])

text \<open>The frame that \<open>send_hello\<close> emits, with the part after the IP header, for a buffer with a
  header length of five words.\<close>

definition hello_frame :: "iface_info \<Rightarrow> router \<Rightarrow> bytes \<Rightarrow> bool" where
  "hello_frame iface s q \<longleftrightarrow> length q = 58 \<and> eth_dhost q = all_spf_mac \<and> eth_type q = htons ETH_P_IP \<and>
     ip_ihl q = 5 \<and> ip_protocol q = IPPROTO_MOSPF \<and> ip_saddr q = htonl (if_ip iface) \<and>
     ip_daddr q = htonl MOSPF_ALLSPFRouters \<and> mh_version q 34 = MOSPF_VERSION \<and>
     mh_type q 34 = MOSPF_TYPE_HELLO \<and> mh_len q 34 = htons 24 \<and> mh_rid q 34 = htonl (r_router_id s) \<and>
     mh_aid q 34 = htonl (r_area_id s) \<and> mh_checksum q 34 = mospf_checksum q 34 \<and>
     hello_mask q 50 = htonl (if_mask iface)"

text \<open>The last stores of \<open>send_hello\<close>.\<close>

definition seal_hello :: "iface_info \<Rightarrow> u32 \<Rightarrow> bytes \<Rightarrow> bytes" where
  "seal_hello iface x p = st16 (blit (blit (ip_init_hdr (if_ip iface) MOSPF_ALLSPFRouters 44 IPPROTO_MOSPF x p)
     6 (if_mac iface)) 0 all_spf_mac) 12 (htons ETH_P_IP)"

lemma seal_hello_fields:
  assumes "length p = 58" "length (if_mac iface) = 6"
  shows "length (seal_hello iface x p) = 58" "eth_dhost (seal_hello iface x p) = all_spf_mac"
    "eth_type (seal_hello iface x p) = htons ETH_P_IP" "ip_ihl (seal_hello iface x p) = 5"
    "ip_protocol (seal_hello iface x p) = IPPROTO_MOSPF" "ip_saddr (seal_hello iface x p) = htonl (if_ip iface)"
    "ip_daddr (seal_hello iface x p) = htonl MOSPF_ALLSPFRouters"
    "drop 34 (seal_hello iface x p) = drop 34 p"
proof -
  let ?h = "ip_init_hdr (if_ip iface) MOSPF_ALLSPFRouters 44 IPPROTO_MOSPF x p"
  let ?q = "seal_hello iface x p"
  have mac: "length all_spf_mac = 6" by (simp add: all_spf_mac_def)
  have h: "length ?h = 58" using assms by simp
  show len: "length ?q = 58" using h mac assms by (simp add: seal_hello_def length_blit)
  show "eth_dhost ?q = all_spf_mac"
    using h mac assms slice_blit [of 0 all_spf_mac "blit ?h 6 (if_mac iface)"]
    by (simp add: seal_hello_def eth_dhost_def slice_st_apart apart_def length_blit)
  show "eth_type ?q = htons ETH_P_IP" using h mac assms by (simp add: seal_hello_def eth_type_def length_blit)
  have d: "drop k ?q = drop k ?h" if "14 \<le> k" for k
    using h mac assms that by (simp add: seal_hello_def drop_st drop_blit length_blit)
  show "drop 34 ?q = drop 34 p" using d [of 34] assms by (simp add: ip_init_hdr_fields(7))
  show "ip_ihl ?q = 5" "ip_protocol ?q = IPPROTO_MOSPF" "ip_saddr ?q = htonl (if_ip iface)"
    "ip_daddr ?q = htonl MOSPF_ALLSPFRouters"
    using ip_fields_cong [of ?q ?h] d [of 14] len h ip_init_hdr_fields(1,4,5,6) [of p] assms(1) by simp_all
qed

lemma hello_bound [simp]: "hello_len = 58"
  by (simp add: hello_len_def ETHER_HDR_SIZE_def IP_BASE_HDR_SIZE_def)

lemma send_hello_out:
  fixes s :: router and i :: nat
  assumes "ip_ihl (fst (malloc 58 s)) \<le> 5"
  defines "p \<equiv> fst (malloc 58 s)"
  defines "m \<equiv> packet_analize p"
  defines "p2 \<equiv> mospf_init_hdr m MOSPF_TYPE_HELLO 24 (r_router_id s) (r_area_id s)
     (mospf_init_hello (m + 16) (if_mask (r_ifaces s ! i)) p)"
  shows "\<exists>s' x. send_hello i s = Some s' \<and> r_out s' = r_out s @
    [(i, seal_hello (r_ifaces s ! i) x (st16 p2 (m + 12) (mospf_checksum p2 m)))]"
proof -
  have "\<not> 58 < m + 24"
    using assms(1) by (simp add: m_def p_def packet_analize_def ETHER_HDR_SIZE_def IP_HDR_SIZE_def)
  moreover have "r_router_id (snd (malloc 58 s)) = r_router_id s" "r_area_id (snd (malloc 58 s)) = r_area_id s"
    by (simp_all add: malloc_def)
  ultimately show ?thesis
    by (simp add: send_hello_def Let_def split_beta p_def [symmetric] m_def [symmetric] p2_def
        seal_hello_def ETHER_HDR_SIZE_def) (rule exI, rule refl)
qed

lemma send_hello_frame:
  assumes "ip_ihl (fst (malloc 58 s)) = 5" "length (if_mac (r_ifaces s ! i)) = 6"
  shows "\<exists>s' q. send_hello i s = Some s' \<and> r_out s' = r_out s @ [(i, q)] \<and> hello_frame (r_ifaces s ! i) s q"
proof -
  let ?iface = "r_ifaces s ! i"
  define p where "p = fst (malloc 58 s)"
  define p1 where "p1 = mospf_init_hello 50 (if_mask ?iface) p"
  define p2 where "p2 = mospf_init_hdr 34 MOSPF_TYPE_HELLO 24 (r_router_id s) (r_area_id s) p1"
  define p3 where "p3 = st16 p2 46 (mospf_checksum p2 34)"
  have m: "packet_analize p = 34"
    using assms(1) by (simp add: packet_analize_def p_def ETHER_HDR_SIZE_def IP_HDR_SIZE_def)
  have l: "length p = 58" "length p1 = 58" "length p2 = 58" "length p3 = 58"
    by (simp_all add: p_def p1_def p2_def p3_def mospf_init_hello_def mospf_init_hdr_def Let_def)
  obtain s' x where run: "send_hello i s = Some s'" "r_out s' = r_out s @ [(i, seal_hello ?iface x p3)]"
    using send_hello_out [of s i] assms(1) m by (auto simp: p_def [symmetric] p1_def p2_def p3_def)
  let ?q = "seal_hello ?iface x p3"
  note q = seal_hello_fields [OF l(4) assms(2)]
  have f: "mh_version p3 34 = MOSPF_VERSION" "mh_type p3 34 = MOSPF_TYPE_HELLO" "mh_len p3 34 = htons 24"
    "mh_rid p3 34 = htonl (r_router_id s)" "mh_aid p3 34 = htonl (r_area_id s)"
    "hello_mask p3 50 = htonl (if_mask ?iface)" "mh_len p2 34 = htons 24"
    using l by (simp_all add: p3_def p2_def p1_def mospf_init_hdr_def mospf_init_hello_def Let_def mh_defs
        hello_mask_def ld_st_apart apart_def)
  have c: "mh_checksum p3 34 = mospf_checksum p3 34"
    using l f(3,7) by (simp add: mospf_checksum_def) (simp add: p3_def mh_checksum_def mospf_checksum_def f(7))
  have "hello_frame ?iface s ?q"
    using q f c mospf_fields_cong [of ?q p3] l by (simp add: hello_frame_def)
  then show ?thesis using run by blast
qed

lemma to_all_spf:
  assumes "eth_type q = htons ETH_P_IP" "ip_daddr q = htonl MOSPF_ALLSPFRouters" "ip_protocol q = IPPROTO_MOSPF"
    and "34 \<le> length q" "if_ip (r_ifaces r ! j) \<noteq> MOSPF_ALLSPFRouters"
  shows "router_handle_packet j q r = handle_mospf_packet j q r"
  using assms by (simp add: router_handle_packet_def handle_ip_packet_def Let_def ETHER_HDR_SIZE_def IP_BASE_HDR_SIZE_def)

lemma refresh_nbr_SomeD:
  "refresh_nbr rid nbrs = Some nbrs' \<Longrightarrow> \<exists>nbr \<in> set nbrs'. nbr_id nbr = rid \<and> nbr_alive nbr = 15"
proof (induction nbrs arbitrary: nbrs')
  case (Cons nbr nbrs)
  then show ?case by (cases "nbr_id nbr = rid") (auto simp: MOSPF_DEFAULT_HELLOINT_def)
qed simp

lemma hello_received:
  assumes "hello_frame iface s q" "j < length (r_ifaces r)" "r_area_id r = r_area_id s"
    and "if_ip (r_ifaces r ! j) \<noteq> MOSPF_ALLSPFRouters"
  shows "\<exists>r'. router_handle_packet j q r = Some r' \<and>
    (\<exists>nbr \<in> set (if_nbr_list (r_ifaces r' ! j)). nbr_id nbr = r_router_id s \<and> nbr_alive nbr = 15) \<and>
    (refresh_nbr (r_router_id s) (if_nbr_list (r_ifaces r ! j)) = None \<longrightarrow>
       if_nbr_list (r_ifaces r' ! j) = if_nbr_list (r_ifaces r ! j) @
         [\<lparr>nbr_id = r_router_id s, nbr_ip = if_ip iface, nbr_mask = if_mask iface, nbr_alive = 15\<rparr>])"
proof -
  have m: "packet_analize q = 34"
    using assms(1) by (simp add: hello_frame_def packet_analize_def IP_HDR_SIZE_def ETHER_HDR_SIZE_def)
  have bswap: "unat (bswap16 (bswap16 24)) = 24" by simp
  have "router_handle_packet j q r = handle_mospf_packet j q r"
    using assms(1,4) by (intro to_all_spf) (simp_all add: hello_frame_def)
  also have "\<dots> = handle_mospf_hello j q r"
    using assms(1,3) by (simp add: handle_mospf_packet_def m hello_frame_def bswap)
  finally have run: "router_handle_packet j q r = handle_mospf_hello j q r" .
  have q: "mh_rid q 34 = htonl (r_router_id s)" "ip_saddr q = htonl (if_ip iface)"
    "hello_mask q 50 = htonl (if_mask iface)" "\<not> length q < 54"
    using assms(1) by (simp_all add: hello_frame_def)
  show ?thesis
    using assms(2) refresh_nbr_SomeD [of "r_router_id s" "if_nbr_list (r_ifaces r ! j)"]
    by (cases "refresh_nbr (r_router_id s) (if_nbr_list (r_ifaces r ! j))")
      (simp_all add: run handle_mospf_hello_def Let_def m q update_iface_def MOSPF_DEFAULT_HELLOINT_def)
qed

text \<open>C19. Hello messages make neighbours: if the buffer for the hello happens to hold a header
  length of five words, the frame that a router sends makes every router of the area that
  receives it know the sender, with its interface's address and mask, alive for 15 seconds.\<close>

theorem hello_makes_neighbour:
  assumes "ip_ihl (fst (malloc hello_len s)) = 5" "length (if_mac (r_ifaces s ! i)) = 6"
  shows "\<exists>s' q. send_hello i s = Some s' \<and> r_out s' = r_out s @ [(i, q)] \<and> eth_dhost q = all_spf_mac \<and>
    (\<forall>r j. j < length (r_ifaces r) \<and> r_area_id r = r_area_id s \<and>
       if_ip (r_ifaces r ! j) \<noteq> MOSPF_ALLSPFRouters \<longrightarrow>
       (\<exists>r'. router_handle_packet j q r = Some r' \<and>
          (\<exists>nbr \<in> set (if_nbr_list (r_ifaces r' ! j)). nbr_id nbr = r_router_id s \<and> nbr_alive nbr = 15) \<and>
          (refresh_nbr (r_router_id s) (if_nbr_list (r_ifaces r ! j)) = None \<longrightarrow>
             if_nbr_list (r_ifaces r' ! j) = if_nbr_list (r_ifaces r ! j) @
               [\<lparr>nbr_id = r_router_id s, nbr_ip = if_ip (r_ifaces s ! i),
                 nbr_mask = if_mask (r_ifaces s ! i), nbr_alive = 15\<rparr>])))"
proof -
  obtain s' q where "send_hello i s = Some s'" "r_out s' = r_out s @ [(i, q)]"
    "hello_frame (r_ifaces s ! i) s q"
    using send_hello_frame [of s i] assms by auto
  then show ?thesis using hello_received by (auto simp: hello_frame_def)
qed

lemma hello_makes_neighbour_witness:
  "\<exists>s' q. send_hello 0 demo_router = Some s' \<and> r_out s' = [(0, q)] \<and> eth_dhost q = all_spf_mac \<and>
    (\<exists>r'. router_handle_packet 0 q line_router = Some r')"
proof -
  have h: "ip_ihl (fst (malloc hello_len demo_router)) = 5" "length (if_mac (r_ifaces demo_router ! 0)) = 6"
    by code_simp+
  have r: "0 < length (r_ifaces line_router) \<and> r_area_id line_router = r_area_id demo_router \<and>
      if_ip (r_ifaces line_router ! 0) \<noteq> MOSPF_ALLSPFRouters" "r_out demo_router = []"
    by (simp_all add: line_router_def demo_router_def MOSPF_ALLSPFRouters_def)
  show ?thesis using hello_makes_neighbour [OF h] r by fastforce
qed

text \<open>On fresh memory filled with zeros they do not: the mOSPF header is then placed over
  the IP header, which overwrites it, and every receiver ignores the frame.\<close>

theorem hello_lost_on_zeroed_memory:
  assumes "ip_ihl (fst (malloc hello_len s)) = 0" "length (if_mac (r_ifaces s ! i)) = 6"
  shows "\<exists>s' q. send_hello i s = Some s' \<and> r_out s' = r_out s @ [(i, q)] \<and>
    (\<forall>r j. if_ip (r_ifaces r ! j) \<noteq> MOSPF_ALLSPFRouters \<longrightarrow> router_handle_packet j q r = Some r)"
proof -
  let ?iface = "r_ifaces s ! i"
  define p where "p = fst (malloc 58 s)"
  define p2 where "p2 = mospf_init_hdr 14 MOSPF_TYPE_HELLO 24 (r_router_id s) (r_area_id s)
    (mospf_init_hello 30 (if_mask ?iface) p)"
  define p3 where "p3 = st16 p2 26 (mospf_checksum p2 14)"
  have m: "packet_analize p = 14"
    using assms(1) by (simp add: packet_analize_def p_def ETHER_HDR_SIZE_def IP_HDR_SIZE_def)
  have l: "length p = 58" "length p3 = 58"
    by (simp_all add: p_def p2_def p3_def mospf_init_hello_def mospf_init_hdr_def Let_def)
  obtain s' x where run: "send_hello i s = Some s'" "r_out s' = r_out s @ [(i, seal_hello ?iface x p3)]"
    using send_hello_out [of s i] assms(1) m by (auto simp: p_def [symmetric] p2_def p3_def)
  let ?q = "seal_hello ?iface x p3"
  note q = seal_hello_fields [OF l(2) assms(2)]
  have "p3 ! 34 = 0"
    using l by (simp add: p3_def p2_def mospf_init_hdr_def mospf_init_hello_def Let_def nth_st16 nth_st8
        nth_st32_other MOSPF_DEFAULT_HELLOINT_def) code_simp
  then have "mh_version p3 34 = 0" by (simp add: mh_version_def ld8_def)
  then have v: "mh_version ?q 34 \<noteq> MOSPF_VERSION"
    using mospf_fields_cong(1) [of ?q p3] q l by (simp add: MOSPF_VERSION_def)
  have "router_handle_packet j ?q r = Some r" if "if_ip (r_ifaces r ! j) \<noteq> MOSPF_ALLSPFRouters" for r j
    using to_all_spf [of ?q r j] that q v
    by (simp add: handle_mospf_packet_def packet_analize_def IP_HDR_SIZE_def ETHER_HDR_SIZE_def)
  then show ?thesis using run by blast
qed

lemma hello_lost_on_zeroed_memory_witness:
  "\<exists>s' q. send_hello 0 (demo_router \<lparr>r_heap := \<lambda>_ _. 0\<rparr>) = Some s' \<and> r_out s' = [(0, q)] \<and>
    router_handle_packet 0 q line_router = Some line_router"
proof -
  let ?s = "demo_router \<lparr>r_heap := \<lambda>_ _. 0\<rparr>"
  have h: "ip_ihl (fst (malloc hello_len ?s)) = 0" "length (if_mac (r_ifaces ?s ! 0)) = 6"
    by code_simp+
  have r: "if_ip (r_ifaces line_router ! 0) \<noteq> MOSPF_ALLSPFRouters" "r_out ?s = []"
    by (simp_all add: line_router_def demo_router_def MOSPF_ALLSPFRouters_def)
  show ?thesis using hello_lost_on_zeroed_memory [OF h] r by fastforce
qed

section \<open>The database\<close>

text \<open>Sending leaves the link-state data alone.\<close>

lemma iface_send_packet_by_arp_frame [frame, simp]:
  "r_db (iface_send_packet_by_arp i a p s) = r_db s"
  "r_ifaces (iface_send_packet_by_arp i a p s) = r_ifaces s"
  "r_router_id (iface_send_packet_by_arp i a p s) = r_router_id s"
  by (simp_all add: iface_send_packet_by_arp_def arpcache_append_packet_def arp_send_request_def
      iface_send_packet_def malloc_def Let_def split: option.split)

lemma ip_send_packet_frame [frame, simp]:
  "r_db (ip_send_packet p s) = r_db s" "r_ifaces (ip_send_packet p s) = r_ifaces s"
  "r_router_id (ip_send_packet p s) = r_router_id s"
  by (simp_all add: ip_send_packet_def Let_def split: option.split)

lemma forward_lsus_frame [frame, simp]:
  "r_db (forward_lsus p m ps s) = r_db s" "r_ifaces (forward_lsus p m ps s) = r_ifaces s"
  "r_router_id (forward_lsus p m ps s) = r_router_id s"
proof (induction p m ps s rule: forward_lsus.induct)
  case (2 packet m i nbr ps s)
  { case 1 show ?case using 2(1) by (simp add: forward_lsu_def malloc_def rand_def Let_def) }
  { case 2 show ?case using "2.IH"(2) by (simp add: forward_lsu_def malloc_def rand_def Let_def) }
  { case 3 show ?case using "2.IH"(3) by (simp add: forward_lsu_def malloc_def rand_def Let_def) }
qed simp_all

text \<open>The database has one element per router, never the router itself, and no sequence number
  is ever recorded in it.\<close>

definition db_ok :: "router \<Rightarrow> bool" where
  "db_ok s \<longleftrightarrow> distinct (map db_rid (r_db s)) \<and>
     (\<forall>d \<in> set (r_db s). db_seq d = 0 \<and> db_rid d \<noteq> r_router_id s)"

lemma store_lsas_rids: "db_rid ` set (store_lsas rid ls n db) = insert rid (db_rid ` set db)"
  by (induction db) auto

lemma store_lsas_distinct: "distinct (map db_rid db) \<Longrightarrow> distinct (map db_rid (store_lsas rid ls n db))"
  by (induction db) (auto simp: store_lsas_rids)

lemma store_lsas_seq:
  "\<forall>d \<in> set db. db_seq d = 0 \<Longrightarrow> \<forall>d \<in> set (store_lsas rid ls n db). db_seq d = 0"
  by (induction db) auto

lemma store_lsas_length: "length (store_lsas rid ls n db) \<le> length db + 1"
  by (induction db) auto

lemma find_store_lsas:
  "find_db r (store_lsas rid ls n db) =
     (if r = rid then Some (case find_db rid db of
        None \<Rightarrow> \<lparr>db_rid = rid, db_seq = 0, db_nadv = n, db_array = ls\<rparr>
      | Some d \<Rightarrow> d \<lparr>db_nadv := n, db_array := ls\<rparr>) else find_db r db)"
  by (induction db) auto

lemma find_db_SomeD: "find_db rid db = Some d \<Longrightarrow> d \<in> set db \<and> db_rid d = rid"
  by (induction db) (auto split: if_splits)

lemma lsu_seq_read_pos: "lsu_seq p l \<noteq> 0 \<Longrightarrow> 0 < lsu_seq_read p l"
proof -
  assume "lsu_seq p l \<noteq> 0"
  then have "(ucast (lsu_seq p l) :: u32) \<noteq> 0"
    using unat_ucast_16_32 [of "lsu_seq p l"] by (metis unat_0 unat_eq_zero)
  then have "bswap32 (ucast (lsu_seq p l)) \<noteq> bswap32 0" by simp
  moreover have "bswap32 0 = 0" by code_simp
  ultimately show "0 < lsu_seq_read p l" by (simp add: lsu_seq_read_def word_gt_0)
qed

lemma add_routes_db: "add_routes nd ls s = Some s' \<Longrightarrow> r_db s' = r_db s \<and> r_router_id s' = r_router_id s"
  by (induction nd ls s rule: add_routes.induct) (auto simp: add_rt_entry_def split: if_splits option.splits)

lemma db_okD: "db_ok s \<Longrightarrow> distinct (map db_rid (r_db s))"
  by (simp add: db_ok_def)

lemma router_update_db:
  assumes "db_ok s" "length (r_db s) < 2 ^ 32 - 3"
  shows "\<exists>s'. router_update s = Some s' \<and> r_db s' = r_db s \<and> r_router_id s' = r_router_id s"
  using router_update_table [OF db_okD [OF assms(1)] assms(2)] by auto

text \<open>C20. What an update does to the database: it keeps one element per other router and the
  recorded sequence numbers at zero; an update of an unknown router, or one whose sequence
  number is not zero, replaces the links of its router and their number, whatever updates came before, so
  that a stale update undoes a newer one; the other routers keep their links. Any other update
  leaves the database as it is.\<close>

theorem lsu_updates_database:
  fixes p :: bytes
  defines "m \<equiv> packet_analize p"
  defines "rid \<equiv> ntohl (mh_rid p m)" and "n \<equiv> unat (ntohl (lsu_nadv p (m + 16)))"
  assumes "db_ok s" "length (r_db s) < 2 ^ 32 - 4" "m + 24 + 12 * n \<le> length p" "rid \<noteq> r_router_id s"
  shows "\<exists>s'. handle_mospf_lsu i p s = Some s' \<and> db_ok s' \<and>
    (if find_db rid (r_db s) = None \<or> lsu_seq p (m + 16) \<noteq> 0
     then (\<exists>d. find_db rid (r_db s') = Some d \<and> db_array d = copy_lsas p (m + 24) n \<and>
         db_nadv d = sint (ntohl (lsu_nadv p (m + 16))) \<and> db_seq d = 0) \<and>
       (\<forall>r. r \<noteq> rid \<longrightarrow> find_db r (r_db s') = find_db r (r_db s))
     else r_db s' = r_db s)"
proof -
  define acc where "acc = lsu_accepted rid (lsu_seq_read p (m + 16)) (r_db s)"
  have seq0: "db_seq d = 0" if "find_db rid (r_db s) = Some d" for d
    using find_db_SomeD [OF that] assms(4) by (simp add: db_ok_def)
  have acc: "acc \<longleftrightarrow> find_db rid (r_db s) = None \<or> lsu_seq p (m + 16) \<noteq> 0"
  proof (cases "find_db rid (r_db s)")
    case (Some d)
    have "bswap32 0 = 0" by code_simp
    then have "lsu_seq p (m + 16) = 0 \<Longrightarrow> lsu_seq_read p (m + 16) = 0" by (simp add: lsu_seq_read_def)
    then show ?thesis
      using Some seq0 [OF Some] lsu_seq_read_pos [of p "m + 16"] by (auto simp: acc_def lsu_accepted_def)
  qed (simp add: acc_def lsu_accepted_def)
  define s1 where "s1 = (if acc then s \<lparr>r_db := store_lsas rid (copy_lsas p (m + 24) n)
    (sint (ntohl (lsu_nadv p (m + 16)))) (r_db s)\<rparr> else s)"
  have s1: "r_router_id s1 = r_router_id s" by (simp add: s1_def)
  have ok1: "db_ok s1"
  proof (cases acc)
    case True
    then have db1: "r_db s1 = store_lsas rid (copy_lsas p (m + 24) n) (sint (ntohl (lsu_nadv p (m + 16)))) (r_db s)"
      by (simp add: s1_def)
    have ds: "distinct (map db_rid (r_db s))" "\<forall>d \<in> set (r_db s). db_seq d = 0"
      using assms(4) by (simp_all add: db_ok_def)
    have "distinct (map db_rid (r_db s1))" unfolding db1 using ds(1) by (rule store_lsas_distinct)
    moreover have "\<forall>d \<in> set (r_db s1). db_seq d = 0" unfolding db1 using ds(2) by (rule store_lsas_seq)
    moreover have "db_rid ` set (r_db s1) = insert rid (db_rid ` set (r_db s))"
      unfolding db1 by (rule store_lsas_rids)
    moreover have "r_router_id s \<notin> db_rid ` set (r_db s)" using assms(4) by (auto simp: db_ok_def)
    ultimately show ?thesis using assms(7) s1 unfolding db_ok_def by (metis image_eqI insert_iff)
  qed (use assms(4) in \<open>simp add: s1_def\<close>)
  have len: "length (r_db s1) < 2 ^ 32 - 3"
    using assms(5) store_lsas_length [of rid "copy_lsas p (m + 24) n" "sint (ntohl (lsu_nadv p (m + 16)))" "r_db s"]
    by (auto simp: s1_def)
  define ttl where "ttl = lsu_ttl p (m + 16) - 1"
  define p' where "p' = st8 p (m + 16 + 2) ttl"
  define s2 where "s2 = (if ttl \<le> 0 then s1 else forward_lsus p' m
    (all_nbrs (filter (\<lambda>j. j \<noteq> i) [0..<length (r_ifaces s1)]) s1) s1)"
  have s2: "r_db s2 = r_db s1" "r_router_id s2 = r_router_id s1" by (simp_all add: s2_def)
  have run: "handle_mospf_lsu i p s = router_update s2"
    using assms(6,7) unfolding handle_mospf_lsu_def Let_def m_def [symmetric] rid_def [symmetric] n_def [symmetric]
      acc_def [symmetric] s1_def [symmetric] ttl_def [symmetric] p'_def [symmetric] s2_def [symmetric]
    by simp
  have "db_ok s2" using ok1 s2 by (simp add: db_ok_def)
  then obtain s' where s': "router_update s2 = Some s'" "r_db s' = r_db s2" "r_router_id s' = r_router_id s2"
    using router_update_db [of s2] len s2 by auto
  have "db_ok s'" using ok1 s2 s' by (simp add: db_ok_def)
  moreover have "\<exists>d. find_db rid (r_db s') = Some d \<and> db_array d = copy_lsas p (m + 24) n \<and>
      db_nadv d = sint (ntohl (lsu_nadv p (m + 16))) \<and> db_seq d = 0"
    "\<forall>r. r \<noteq> rid \<longrightarrow> find_db r (r_db s') = find_db r (r_db s)" if acc
    using that s' s2 seq0 by (auto simp: s1_def find_store_lsas split: option.split)
  moreover have "r_db s' = r_db s" if "\<not> acc" using that s' s2 by (simp add: s1_def)
  ultimately show ?thesis using run s'(1) acc by auto
qed

text \<open>An update of router 20.0.0.1 with sequence number 3, one link, and no hops left.\<close>

definition demo_lsu :: bytes where
  "demo_lsu = replicate 12 0 @ [8, 0, 0x45, 0, 0, 56, 0, 1, 0x40, 0, 64, 90, 0, 0, 20, 0, 0, 1, 10, 0, 0, 1,
     2, 4, 0, 36, 20, 0, 0, 1, 0, 0, 0, 0, 0, 0, 0, 0,
     0, 3, 1, 0, 0, 0, 0, 1, 30, 0, 0, 0, 255, 0, 0, 0, 0, 0, 0, 0]"

lemma lsu_updates_database_witness:
  "\<exists>s' d. handle_mospf_lsu 0 demo_lsu line_router = Some s' \<and> db_ok s' \<and>
     find_db 0x14000001 (r_db s') = Some d \<and>
     db_array d = [\<lparr>lsa_subnet = 0x1e000000, lsa_mask = 0xff000000, lsa_rid = 0\<rparr>] \<and> db_nadv d = 1"
proof -
  have ok: "db_ok line_router"
    by (simp add: db_ok_def line_router_def line_db_def demo_router_def)
  have len: "length (r_db line_router) < 2 ^ 32 - 4" by (simp add: line_router_def line_db_def)
  have vals: "packet_analize demo_lsu = 34" "ntohl (mh_rid demo_lsu 34) = 0x14000001"
    "unat (ntohl (lsu_nadv demo_lsu (34 + 16))) = 1" "length demo_lsu = 70"
    "r_router_id line_router = 0x0a000001" "lsu_seq demo_lsu (34 + 16) \<noteq> 0" "sint (ntohl (lsu_nadv demo_lsu (34 + 16))) = 1"
    by code_simp+
  have lsas: "copy_lsas demo_lsu (34 + 24) 1 = [\<lparr>lsa_subnet = 0x1e000000, lsa_mask = 0xff000000, lsa_rid = 0\<rparr>]"
    by code_simp
  show ?thesis
    using lsu_updates_database [OF ok len, of demo_lsu 0] vals lsas by auto
qed

section \<open>Neighbours expire\<close>

lemma send_lsus_frame: "send_lsus n buf ps s = Some s' \<Longrightarrow> r_ifaces s' = r_ifaces s"
proof (induction n buf ps s rule: send_lsus.induct)
  case (2 n buf i nbr ps s)
  obtain t where t: "send_lsu n buf i nbr s = Some t" "send_lsus n buf ps t = Some s'"
    using "2.prems" by (auto split: option.splits)
  have "r_ifaces t = r_ifaces s"
    using t(1) by (auto simp: send_lsu_def Let_def split_beta split: if_splits)
  then show ?case using "2.IH" [OF t] by simp
qed simp

lemma broadcast_lsu_frame: "broadcast_lsu s = Some s' \<Longrightarrow> r_ifaces s' = r_ifaces s"
  by (auto simp: broadcast_lsu_def Let_def split_beta dest!: send_lsus_frame split: option.splits)

definition nbrs :: "router \<Rightarrow> nat \<Rightarrow> mospf_nbr list" where
  "nbrs s i = if_nbr_list (r_ifaces s ! i)"

text \<open>What one second does to a list of neighbours.\<close>

definition aged :: "mospf_nbr list \<Rightarrow> mospf_nbr list" where
  "aged ns = map (\<lambda>nbr. nbr \<lparr>nbr_alive := nbr_alive nbr - 1\<rparr>) (filter (\<lambda>nbr. nbr_alive nbr \<noteq> 1) ns)"

lemma update_iface_nbrs [simp]:
  "length (r_ifaces (update_iface i f s)) = length (r_ifaces s)"
  "i < length (r_ifaces s) \<Longrightarrow> nbrs (update_iface i f s) i = if_nbr_list (f (r_ifaces s ! i))"
  "j \<noteq> i \<Longrightarrow> nbrs (update_iface i f s) j = nbrs s j"
  by (simp_all add: update_iface_def nbrs_def)

lemma check_nbrs_aged:
  "check_nbrs i k n s = Some s' \<Longrightarrow> i < length (r_ifaces s) \<Longrightarrow> k + n = length (nbrs s i) \<Longrightarrow>
     nbrs s' i = take k (nbrs s i) @ aged (drop k (nbrs s i)) \<and> (\<forall>j. j \<noteq> i \<longrightarrow> nbrs s' j = nbrs s j) \<and>
     length (r_ifaces s') = length (r_ifaces s)"
proof (induction i k n s rule: check_nbrs.induct)
  case (1 i k s)
  then show ?case by (simp add: aged_def)
next
  case (2 i k n s)
  let ?ns = "nbrs s i"
  have k: "k < length ?ns" using "2.prems"(3) by simp
  have split: "drop k ?ns = ?ns ! k # drop (k + 1) ?ns" using k by (simp add: Cons_nth_drop_Suc)
  show ?case
  proof (cases "nbr_alive (?ns ! k) - 1 \<le> 0")
    case True
    then have one: "nbr_alive (?ns ! k) = 1" by simp
    define s1 where "s1 = update_iface i (\<lambda>f. f \<lparr>if_num_nbr := if_num_nbr f - 1,
      if_nbr_list := take k ?ns @ drop (Suc k) ?ns\<rparr>) s"
    obtain s2 where s2: "broadcast_lsu s1 = Some s2" "check_nbrs i k n s2 = Some s'"
      using "2.prems"(1) True by (auto simp: Let_def nbrs_def [symmetric] s1_def [symmetric] split: option.splits)
    have n2: "nbrs s2 j = nbrs s1 j" "length (r_ifaces s2) = length (r_ifaces s1)" for j
      using broadcast_lsu_frame [OF s2(1)] by (simp_all add: nbrs_def)
    have n1: "nbrs s1 i = take k ?ns @ drop (k + 1) ?ns" "length (r_ifaces s1) = length (r_ifaces s)"
      using "2.prems"(2) by (simp_all add: s1_def)
    have IH: "nbrs s' i = take k (nbrs s2 i) @ aged (drop k (nbrs s2 i)) \<and> (\<forall>j. j \<noteq> i \<longrightarrow> nbrs s' j = nbrs s2 j) \<and>
        length (r_ifaces s') = length (r_ifaces s2)"
      using "2.IH"(1) [OF refl refl _ _ s2(2)] True s2(1) "2.prems"(2,3) k n1 n2
      by (simp add: nbrs_def [symmetric] s1_def [symmetric])
    then show ?thesis
      using n1 n2 k one split by (auto simp: s1_def aged_def)
  next
    case False
    then have one: "nbr_alive (?ns ! k) \<noteq> 1" by auto
    define nb where "nb = (?ns ! k) \<lparr>nbr_alive := nbr_alive (?ns ! k) - 1\<rparr>"
    define s1 where "s1 = update_iface i (\<lambda>f. f \<lparr>if_nbr_list := ?ns[k := nb]\<rparr>) s"
    have run: "check_nbrs i (k + 1) n s1 = Some s'"
      using "2.prems"(1) False by (simp add: Let_def nbrs_def [symmetric] s1_def nb_def)
    have n1: "nbrs s1 i = ?ns[k := nb]" "length (r_ifaces s1) = length (r_ifaces s)"
      using "2.prems"(2) by (simp_all add: s1_def)
    have IH: "nbrs s' i = take (k + 1) (nbrs s1 i) @ aged (drop (k + 1) (nbrs s1 i)) \<and>
        (\<forall>j. j \<noteq> i \<longrightarrow> nbrs s' j = nbrs s1 j) \<and> length (r_ifaces s') = length (r_ifaces s1)"
      using "2.IH"(2) [OF refl refl] run False "2.prems"(2,3) n1
      by (simp add: nbrs_def [symmetric] s1_def nb_def)
    moreover have "take (k + 1) (?ns[k := nb]) = take k ?ns @ [nb]"
      using k by (simp add: take_Suc_conv_app_nth)
    moreover have "drop (k + 1) (?ns[k := nb]) = drop (k + 1) ?ns" by simp
    ultimately show ?thesis
      using n1 one split by (auto simp: s1_def aged_def nb_def)
  qed
qed

lemma check_ifaces_aged:
  "check_ifaces is s = Some s' \<Longrightarrow> distinct is \<Longrightarrow> \<forall>i \<in> set is. i < length (r_ifaces s) \<Longrightarrow>
     (\<forall>i. nbrs s' i = (if i \<in> set is then aged (nbrs s i) else nbrs s i)) \<and>
     length (r_ifaces s') = length (r_ifaces s)"
proof (induction "is" arbitrary: s)
  case (Cons i js)
  obtain t where t: "check_nbrs i 0 (length (nbrs s i)) s = Some t" "check_ifaces js t = Some s'"
    using Cons.prems(1) by (auto simp: nbrs_def split: option.splits)
  have "nbrs t i = aged (nbrs s i)" "\<forall>j. j \<noteq> i \<longrightarrow> nbrs t j = nbrs s j" "length (r_ifaces t) = length (r_ifaces s)"
    using check_nbrs_aged [OF t(1)] Cons.prems(3) by simp_all
  then show ?case using Cons.IH [OF t(2)] Cons.prems(2,3) by auto
qed simp

lemma checking_nbr_aged:
  "checking_nbr s = Some s' \<Longrightarrow> i < length (r_ifaces s) \<Longrightarrow>
     nbrs s' i = aged (nbrs s i) \<and> length (r_ifaces s') = length (r_ifaces s)"
  using check_ifaces_aged [of "[0..<length (r_ifaces s)]" s s'] by (simp add: checking_nbr_def)

text \<open>The neighbour timer: after \<open>n\<close> rounds of the checking thread (one a second) exactly
  the neighbours that had more than \<open>n\<close> seconds to live are left, in their order and unchanged
  but for their remaining life. A neighbour is given 15 seconds by a hello, so it is dropped
  after 15 and not after the 20 of \<open>MOSPF_NEIGHBOR_TIMEOUT\<close>.\<close>

theorem neighbour_expires:
  assumes "checking_nbr_rounds n s = Some s'" "i < length (r_ifaces s)" "\<forall>nbr \<in> set (nbrs s i). nbr_alive nbr \<noteq> 0"
  shows "nbrs s' i = map (\<lambda>nbr. nbr \<lparr>nbr_alive := nbr_alive nbr - of_nat n\<rparr>)
    (filter (\<lambda>nbr. n < unat (nbr_alive nbr)) (nbrs s i))"
  using assms
proof (induction n s rule: checking_nbr_rounds.induct)
  case (1 s)
  then show ?case by (simp add: unat_gt_0 cong: filter_cong)
next
  case (2 n s)
  obtain t where t: "checking_nbr s = Some t" "checking_nbr_rounds n t = Some s'"
    using "2.prems"(1) by (auto split: option.splits)
  have a: "nbrs t i = aged (nbrs s i)" "i < length (r_ifaces t)"
    using checking_nbr_aged [OF t(1) "2.prems"(2)] "2.prems"(2) by simp_all
  have dec: "unat (nbr_alive nbr - 1) = unat (nbr_alive nbr) - 1" if "nbr \<in> set (nbrs s i)" for nbr
    using "2.prems"(3) that by (simp add: unat_minus_one)
  have "\<forall>nbr \<in> set (nbrs t i). nbr_alive nbr \<noteq> 0" by (auto simp: a aged_def)
  from "2.IH" [OF t(1) t(2) a(2) this]
  have "nbrs s' i = map ((\<lambda>nbr. nbr \<lparr>nbr_alive := nbr_alive nbr - of_nat n\<rparr>) \<circ> (\<lambda>nbr. nbr \<lparr>nbr_alive := nbr_alive nbr - 1\<rparr>))
    (filter (\<lambda>nbr. nbr_alive nbr \<noteq> 1 \<and> n < unat (nbr_alive nbr - 1)) (nbrs s i))"
    by (simp add: a aged_def filter_map comp_def conj_commute)
  also have "filter (\<lambda>nbr. nbr_alive nbr \<noteq> 1 \<and> n < unat (nbr_alive nbr - 1)) (nbrs s i) =
      filter (\<lambda>nbr. Suc n < unat (nbr_alive nbr)) (nbrs s i)"
    by (rule filter_cong [OF refl]) (use dec in auto)
  finally show ?case by (simp add: comp_def algebra_simps)
qed

lemma neighbour_expires_witness:
  "\<exists>s'. checking_nbr_rounds 15 line_router = Some s' \<and> nbrs s' 0 = []"
proof -
  have "\<not> Option.is_none (checking_nbr_rounds 15 line_router)" by code_simp
  then obtain s' where s': "checking_nbr_rounds 15 line_router = Some s'"
    by (auto simp: Option.is_none_def)
  have "nbrs line_router 0 = [\<lparr>nbr_id = 0x0a000002, nbr_ip = 0x0a000002, nbr_mask = 0xff000000, nbr_alive = 15\<rparr>]"
    "0 < length (r_ifaces line_router)"
    by (simp_all add: nbrs_def line_router_def demo_router_def)
  then show ?thesis using neighbour_expires [OF s', of 0] s' by auto
qed

end
