(* ===== verification/NbrDatabase.thy ===== *)
theory NbrDatabase imports Mospf begin

text \<open>The link-state protocol of \<open>exp9/code\<close>, the stage before routes are computed: an update lists
  the neighbours of all interfaces, and a receiver stores it and floods it on. Hello messages, the
  messages themselves and the sending of one update are those of \<open>exp10\<close>; what differs has the
  suffix \<open>exp9\<close>. Then the way of an update: what the neighbours store is what the sender has.\<close>

section \<open>Updates\<close>

definition count_nbrs :: "router \<Rightarrow> u32" where
  "count_nbrs s = sum_list (map (\<lambda>f. of_int (if_num_nbr f)) (r_ifaces s))"

text \<open>An element beyond \<open>nadv\<close> is written outside \<open>lsa_buf\<close>, after a message: \<open>None\<close>.\<close>

fun fill_nbrs :: "nat \<Rightarrow> mospf_nbr list \<Rightarrow> nat \<Rightarrow> bytes \<Rightarrow> bytes option" where
  "fill_nbrs nadv [] i buf = Some buf"
| "fill_nbrs nadv (nbr # ns) i buf =
     (if nadv \<le> i then None
      else fill_nbrs nadv ns (i + 1) (write_lsa i (nbr_ip nbr) (nbr_mask nbr) (nbr_id nbr) buf))"

definition broadcast_lsu_exp9 :: "router \<Rightarrow> router option" where
  "broadcast_lsu_exp9 s =
     (let nadv = unat (count_nbrs s);
          nbrs = all_nbrs [0..<length (r_ifaces s)] s;
          (buf, s) = malloc (nadv * 12) s
      in case fill_nbrs nadv (map snd nbrs) 0 buf of
           None \<Rightarrow> None
         | Some buf \<Rightarrow> send_lsus nadv buf nbrs s)"

text \<open>One round of \<open>checking_nbr_thread\<close>.\<close>

fun check_nbrs_exp9 :: "nat \<Rightarrow> nat \<Rightarrow> nat \<Rightarrow> router \<Rightarrow> router option" where
  "check_nbrs_exp9 i k 0 s = Some s"
| "check_nbrs_exp9 i k (Suc n) s =
     (let nbrs = if_nbr_list (r_ifaces s ! i);
          nbr = (nbrs ! k) \<lparr>nbr_alive := nbr_alive (nbrs ! k) - 1\<rparr>
      in if nbr_alive nbr \<le> 0 then
           (case broadcast_lsu_exp9 (update_iface i (\<lambda>f. f \<lparr>if_num_nbr := if_num_nbr f - 1,
                   if_nbr_list := take k nbrs @ drop (k + 1) nbrs\<rparr>) s) of
              None \<Rightarrow> None
            | Some s \<Rightarrow> check_nbrs_exp9 i k n s)
         else check_nbrs_exp9 i (k + 1) n (update_iface i (\<lambda>f. f \<lparr>if_nbr_list := nbrs[k := nbr]\<rparr>) s))"

fun check_ifaces_exp9 :: "nat list \<Rightarrow> router \<Rightarrow> router option" where
  "check_ifaces_exp9 [] s = Some s"
| "check_ifaces_exp9 (i # is) s =
     (case check_nbrs_exp9 i 0 (length (if_nbr_list (r_ifaces s ! i))) s of
        None \<Rightarrow> None
      | Some s \<Rightarrow> check_ifaces_exp9 is s)"

definition checking_nbr_exp9 :: "router \<Rightarrow> router option" where
  "checking_nbr_exp9 s = check_ifaces_exp9 [0..<length (r_ifaces s)] s"

text \<open>One round of \<open>sending_mospf_lsu_thread\<close>.\<close>

definition sending_mospf_lsu_exp9 :: "router \<Rightarrow> router option" where
  "sending_mospf_lsu_exp9 s =
     (let s = s \<lparr>r_lsuint := r_lsuint s - 1\<rparr>
      in if r_lsuint s \<le> 0 then broadcast_lsu_exp9 s else Some s)"

section \<open>Receiving\<close>

definition handle_mospf_lsu_exp9 :: "nat \<Rightarrow> bytes \<Rightarrow> router \<Rightarrow> router option" where
  "handle_mospf_lsu_exp9 i packet s =
     (let m = packet_analize packet;
          l = m + 16;
          rid = ntohl (mh_rid packet m);
          seq = lsu_seq_read packet l;
          nadv = ntohl (lsu_nadv packet l)
      in if rid = r_router_id s then Some s
         else
           let accepted = lsu_accepted rid seq (r_db s)
           in if length packet < m + 24 \<or> accepted \<and> length packet < m + 24 + 12 * unat nadv then None
              else
                let s = (if accepted then
                           s \<lparr>r_db := store_lsas rid (copy_lsas packet (m + 24) (unat nadv)) (sint nadv) (r_db s)\<rparr>
                         else s);
                    ttl = lsu_ttl packet l - 1;
                    packet = st8 packet (l + 2) ttl
                in Some (if ttl \<le> 0 then s
                    else forward_lsus packet m
                      (all_nbrs (filter (\<lambda>j. j \<noteq> i) [0..<length (r_ifaces s)]) s) s))"

definition handle_mospf_packet_exp9 :: "nat \<Rightarrow> bytes \<Rightarrow> router \<Rightarrow> router option" where
  "handle_mospf_packet_exp9 i packet s =
     (let m = packet_analize packet
      in if length packet < m + 16 then None
         else if mh_version packet m \<noteq> MOSPF_VERSION then Some s
         else if length packet < m + unat (ntohs (mh_len packet m)) then None
         else if mh_checksum packet m \<noteq> mospf_checksum packet m then Some s
         else if ntohl (mh_aid packet m) \<noteq> r_area_id s then Some s
         else if mh_type packet m = MOSPF_TYPE_HELLO then handle_mospf_hello i packet s
         else if mh_type packet m = MOSPF_TYPE_LSU then handle_mospf_lsu_exp9 i packet s
         else Some s)"

definition handle_ip_packet_exp9 :: "nat \<Rightarrow> bytes \<Rightarrow> router \<Rightarrow> router option" where
  "handle_ip_packet_exp9 i packet s =
     (let daddr = ntohl (ip_daddr packet)
      in if length packet < ETHER_HDR_SIZE + IP_BASE_HDR_SIZE then None
         else if daddr = if_ip (r_ifaces s ! i) then
           if ip_protocol packet = IPPROTO_ICMP then
             if length packet \<le> ip_data packet then None
             else if icmp_type packet (ip_data packet) = ICMP_ECHOREQUEST
             then icmp_send_packet packet ICMP_ECHOREPLY 0 s
             else Some s
           else if ip_protocol packet = IPPROTO_MOSPF then handle_mospf_packet_exp9 i packet s
           else Some s
         else if ip_daddr packet = htonl MOSPF_ALLSPFRouters then
           if ip_protocol packet = IPPROTO_MOSPF then handle_mospf_packet_exp9 i packet s else None
         else ip_forward_packet daddr packet s)"

definition handle_packet_exp9 :: "nat \<Rightarrow> bytes \<Rightarrow> router \<Rightarrow> router option" where
  "handle_packet_exp9 i packet s =
     (let type = ntohs (eth_type packet)
      in if type = ETH_P_IP then handle_ip_packet_exp9 i packet s
         else if type = ETH_P_ARP then handle_arp_packet i packet s
         else Some s)"

section \<open>The array of an update\<close>

definition lsa_of :: "mospf_nbr \<Rightarrow> mospf_lsa" where
  "lsa_of nbr = \<lparr>lsa_subnet = nbr_ip nbr, lsa_mask = nbr_mask nbr, lsa_rid = nbr_id nbr\<rparr>"

definition lsa_at :: "bytes \<Rightarrow> nat \<Rightarrow> mospf_lsa" where
  "lsa_at p a = \<lparr>lsa_subnet = ntohl (ld32 p a), lsa_mask = ntohl (ld32 p (a + 4)), lsa_rid = ntohl (ld32 p (a + 8))\<rparr>"

lemma copy_lsas_at: "copy_lsas p a n = map (\<lambda>i. lsa_at p (a + 12 * i)) [0..<n]"
  by (simp add: copy_lsas_def lsa_at_def)

lemma length_write_lsa [simp]: "length (write_lsa i a b c p) = length p"
  by (simp add: write_lsa_def Let_def)

lemma write_lsa_at:
  assumes "12 * i + 12 \<le> length p"
  shows "lsa_at (write_lsa i (nbr_ip n) (nbr_mask n) (nbr_id n) p) (12 * i) = lsa_of n"
  using assms by (simp add: lsa_at_def lsa_of_def write_lsa_def Let_def ld_st_apart apart_def)

lemma write_lsa_other: "j \<noteq> i \<Longrightarrow> lsa_at (write_lsa i a b c p) (12 * j) = lsa_at p (12 * j)"
proof -
  assume "j \<noteq> i"
  then have "12 * j + 12 \<le> 12 * i \<or> 12 * i + 12 \<le> 12 * j" by linarith
  then show ?thesis by (auto simp: lsa_at_def write_lsa_def Let_def ld_st_apart apart_def)
qed

lemma fill_nbrs_reads:
  "i + length ns \<le> nadv \<Longrightarrow> length buf = nadv * 12 \<Longrightarrow> \<exists>buf'. fill_nbrs nadv ns i buf = Some buf' \<and> length buf' = nadv * 12 \<and>
    (\<forall>j < i. lsa_at buf' (12 * j) = lsa_at buf (12 * j)) \<and>
    (\<forall>j < length ns. lsa_at buf' (12 * (i + j)) = lsa_of (ns ! j))"
proof (induction nadv ns i buf rule: fill_nbrs.induct)
  case (2 nadv nbr ns i buf)
  let ?b = "write_lsa i (nbr_ip nbr) (nbr_mask nbr) (nbr_id nbr) buf"
  from "2.IH" "2.prems" obtain b where b: "fill_nbrs nadv ns (i + 1) ?b = Some b" "length b = nadv * 12"
    "\<forall>j < i + 1. lsa_at b (12 * j) = lsa_at ?b (12 * j)" "\<forall>j < length ns. lsa_at b (12 * (i + 1 + j)) = lsa_of (ns ! j)"
    by auto
  have "lsa_at b (12 * (i + j)) = lsa_of ((nbr # ns) ! j)" if "j < length (nbr # ns)" for j
  proof (cases j)
    case 0
    have "12 * i + 12 \<le> length buf" using "2.prems" by simp
    from write_lsa_at [OF this, of nbr] show ?thesis using 0 b(3) by simp
  next
    case (Suc j')
    with b(4) that have "lsa_at b (12 * (i + 1 + j')) = lsa_of (ns ! j')" by simp
    then show ?thesis using Suc by simp
  qed
  then show ?case using b(1-3) "2.prems" write_lsa_other by auto
qed simp

lemma all_filled:
  assumes "length ns = nadv" "length buf = nadv * 12"
  shows "\<exists>buf'. fill_nbrs nadv ns 0 buf = Some buf' \<and> length buf' = nadv * 12 \<and> copy_lsas buf' 0 nadv = map lsa_of ns"
proof -
  from fill_nbrs_reads [of 0 ns nadv buf] assms obtain b where b: "fill_nbrs nadv ns 0 buf = Some b" "length b = nadv * 12"
    "\<forall>j < length ns. lsa_at b (12 * j) = lsa_of (ns ! j)" by auto
  then show ?thesis using assms by (intro exI [of _ b]) (auto simp: copy_lsas_at intro!: nth_equalityI)
qed

section \<open>The frame of an update\<close>

text \<open>Every fresh block happens to hold a header length of five words, as in \<open>hello_makes_neighbour\<close>.\<close>

definition header_five :: "router \<Rightarrow> bool" where
  "header_five s \<longleftrightarrow> (\<forall>n. r_heap s n 14 AND 0xF = 5)"

definition lsu_frame :: "nat \<Rightarrow> bytes \<Rightarrow> mospf_nbr \<Rightarrow> u32 \<Rightarrow> u32 \<Rightarrow> u16 \<Rightarrow> bytes \<Rightarrow> bool" where
  "lsu_frame n buf nbr rid aid seq q \<longleftrightarrow> length q = 58 + n * 12 \<and> eth_type q = htons ETH_P_IP \<and> ip_ihl q = 5 \<and>
     ip_protocol q = IPPROTO_MOSPF \<and> ip_daddr q = htonl (nbr_ip nbr) \<and> mh_version q 34 = MOSPF_VERSION \<and>
     mh_type q 34 = MOSPF_TYPE_LSU \<and> mh_len q 34 = htons (of_nat (24 + n * 12)) \<and> mh_rid q 34 = htonl rid \<and>
     mh_aid q 34 = htonl aid \<and> mh_checksum q 34 = mospf_checksum q 34 \<and> lsu_seq q 50 = htons seq \<and>
     lsu_nadv q 50 = htonl (of_nat n) \<and> drop 58 q = buf"

lemma lsu_fields_cong:
  assumes "drop 34 p = drop 34 q" "34 \<le> length p" "34 \<le> length q"
  shows "lsu_seq p 50 = lsu_seq q 50" "lsu_nadv p 50 = lsu_nadv q 50"
  using assms by (simp_all add: lsu_seq_def lsu_nadv_def ld16_drop [of 34] ld32_drop [of 34])

text \<open>The bytes from the mOSPF header on, as \<open>send_lsu\<close> writes them.\<close>

definition seal_lsu :: "nat \<Rightarrow> bytes \<Rightarrow> u32 \<Rightarrow> u32 \<Rightarrow> u16 \<Rightarrow> bytes \<Rightarrow> bytes" where
  "seal_lsu n buf rid aid seq p =
     (let p = blit p 58 buf;
          p = mospf_init_lsu 50 (of_nat n) seq p;
          p = mospf_init_hdr 34 MOSPF_TYPE_LSU (of_nat (24 + n * 12)) rid aid p
      in st16 p 46 (mospf_checksum p 34))"

lemma seal_lsu_fields:
  fixes rid aid :: u32 and seq :: u16
  assumes "length p = 58 + n * 12" "length buf = n * 12"
  defines "q \<equiv> seal_lsu n buf rid aid seq p"
  shows "length q = 58 + n * 12" "mh_version q 34 = MOSPF_VERSION" "mh_type q 34 = MOSPF_TYPE_LSU"
    "mh_len q 34 = htons (of_nat (24 + n * 12))" "mh_rid q 34 = htonl rid" "mh_aid q 34 = htonl aid"
    "mh_checksum q 34 = mospf_checksum q 34" "lsu_seq q 50 = htons seq" "lsu_nadv q 50 = htonl (of_nat n)" "drop 58 q = buf"
proof -
  define p1 where "p1 = mospf_init_lsu 50 (of_nat n) seq (blit p 58 buf)"
  define p2 where "p2 = mospf_init_hdr 34 MOSPF_TYPE_LSU (of_nat (24 + n * 12)) rid aid p1"
  have q: "q = st16 p2 46 (mospf_checksum p2 34)" by (simp add: q_def seal_lsu_def p1_def p2_def Let_def)
  have l: "length p1 = 58 + n * 12" "length p2 = 58 + n * 12" "length q = 58 + n * 12"
    using assms(1,2) by (simp_all add: q p2_def p1_def mospf_init_hdr_def mospf_init_lsu_def Let_def length_blit)
  show "length q = 58 + n * 12" by (rule l(3))
  have m: "mh_len p2 34 = htons (of_nat (24 + n * 12))" "mh_len q 34 = htons (of_nat (24 + n * 12))"
    using l by (simp_all add: q p2_def mospf_init_hdr_def Let_def mh_defs ld_st_apart apart_def)
  show "mh_version q 34 = MOSPF_VERSION" "mh_type q 34 = MOSPF_TYPE_LSU" "mh_len q 34 = htons (of_nat (24 + n * 12))"
    "mh_rid q 34 = htonl rid" "mh_aid q 34 = htonl aid"
    using l by (simp_all add: m(2)) (simp_all add: q p2_def mospf_init_hdr_def Let_def mh_defs ld_st_apart apart_def)
  show "lsu_seq q 50 = htons seq" "lsu_nadv q 50 = htonl (of_nat n)"
    using l assms(1,2) by (simp_all add: q p2_def p1_def mospf_init_hdr_def mospf_init_lsu_def Let_def lsu_seq_def lsu_nadv_def
        ld_st_apart apart_def length_blit)
  show "mh_checksum q 34 = mospf_checksum q 34"
    using l m by (simp add: mospf_checksum_def) (simp add: q mh_checksum_def mospf_checksum_def m(1))
  have "drop 58 q = drop 58 (blit p 58 buf)"
    by (simp add: q p2_def p1_def mospf_init_hdr_def mospf_init_lsu_def Let_def drop_st)
  then show "drop 58 q = buf" using assms(1,2) by (simp add: blit_def)
qed

lemma lsu_sent:
  assumes h: "header_five s" and n: "length buf = n * 12" and v: "reachable_via (nbr_ip nbr) e mac s"
  shows "\<exists>s' q. send_lsu n buf i nbr s = Some s' \<and> r_out s' = r_out s @ [(rt_iface e, q)] \<and>
    lsu_frame n buf nbr (r_router_id s) (r_area_id s) (r_sequence_num s) q \<and> r_sequence_num s' = r_sequence_num s + 1 \<and>
    r_ifaces s' = r_ifaces s \<and> r_rtable s' = r_rtable s \<and> r_entries s' = r_entries s \<and> r_heap s' = r_heap s \<and>
    r_router_id s' = r_router_id s \<and> r_area_id s' = r_area_id s"
proof -
  define p where "p = fst (malloc (58 + n * 12) s)"
  have p: "length p = 58 + n * 12" "packet_analize p = 34"
    using h by (simp_all add: p_def malloc_def packet_analize_def ETHER_HDR_SIZE_def IP_HDR_SIZE_def ip_ihl_def ld8_def header_five_def)
  let ?q = "seal_lsu n buf (r_router_id s) (r_area_id s) (r_sequence_num s) p"
  note q = seal_lsu_fields [OF p(1) n, of "r_router_id s" "r_area_id s" "r_sequence_num s"]
  obtain x t where t: "rand (snd (malloc (58 + n * 12) s)) = (x, t)" by fastforce
  have r: "r_router_id (snd (malloc z s)) = r_router_id s" "r_area_id (snd (malloc z s)) = r_area_id s"
    "r_sequence_num (snd (malloc z s)) = r_sequence_num s" for z by (simp_all add: malloc_def)
  from t have t': "t = s \<lparr>r_mallocs := r_mallocs s + 1, r_rands := r_rands s + 1\<rparr>" by (auto simp: rand_def malloc_def)
  define u where "u = ip_init_hdr (if_ip (r_ifaces s ! i)) (nbr_ip nbr) (of_nat (44 + n * 12)) IPPROTO_MOSPF x ?q"
  have u: "length u = 58 + n * 12" "drop 34 u = drop 34 ?q" "ip_daddr u = htonl (nbr_ip nbr)" "ip_ihl u = 5"
    "ip_protocol u = IPPROTO_MOSPF" using q(1) by (simp_all add: u_def ip_init_hdr_fields)
  have v': "longest_prefix_match (nbr_ip nbr) t = Some e" "arpcache_lookup (get_next_hop e (nbr_ip nbr)) t = Some mac"
    "length mac = 6" "length (if_mac (r_ifaces t ! rt_iface e)) = 6"
    using v by (simp_all add: reachable_via_def t' longest_prefix_match_def arpcache_lookup_def)
  from send_by_arp_hit [OF v'(2-4), of u] u(1) obtain w where
    w: "framed mac (r_ifaces t ! rt_iface e) u w"
    "iface_send_packet_by_arp (rt_iface e) (get_next_hop e (nbr_ip nbr)) u t = t \<lparr>r_out := r_out t @ [(rt_iface e, w)]\<rparr>" by auto
  have send: "ip_send_packet u t = t \<lparr>r_out := r_out t @ [(rt_iface e, w)]\<rparr>"
    using v'(1) w(2) by (simp add: ip_send_packet_def u(3))
  have "drop 58 u = buf" using q(1,10) by (simp add: u_def ip_init_hdr_fields(7))
  then have d: "drop 34 w = drop 34 ?q" "drop 58 w = buf"
    using framed_drop [OF w(1), of 34] framed_drop [OF w(1), of 58] u(2) by simp_all
  have lw: "length w = 58 + n * 12" using w(1) u(1) by (simp add: framed_def)
  have "lsu_frame n buf nbr (r_router_id s) (r_area_id s) (r_sequence_num s) w"
    using q(1-9) mospf_fields_cong [OF d(1)] lsu_fields_cong [OF d(1)] framed_ip [OF w(1)] w(1) u lw d(2)
    by (simp add: lsu_frame_def framed_def)
  moreover have "send_lsu n buf i nbr s = Some (t \<lparr>r_out := r_out t @ [(rt_iface e, w)],
      r_sequence_num := r_sequence_num s + 1, r_lsuint := 10\<rparr>)"
    using t p r send [unfolded u_def seal_lsu_def Let_def t']
    by (simp add: send_lsu_def Let_def split_beta p_def [symmetric] t' ETHER_HDR_SIZE_def IP_BASE_HDR_SIZE_def)
  ultimately show ?thesis by (auto simp: t')
qed

lemma lsus_sent:
  assumes "header_five s" "length buf = n * 12" "\<forall>p \<in> set ps. \<exists>e mac. reachable_via (nbr_ip (snd p)) e mac s"
  shows "\<exists>s' qs. send_lsus n buf ps s = Some s' \<and> r_out s' = r_out s @ qs \<and> length qs = length ps \<and>
    (\<forall>k < length ps. lsu_frame n buf (snd (ps ! k)) (r_router_id s) (r_area_id s) (r_sequence_num s + of_nat k) (snd (qs ! k)))"
  using assms
proof (induction ps arbitrary: s)
  case (Cons p ps)
  obtain i nbr where p: "p = (i, nbr)" by fastforce
  from Cons.prems(3) obtain e mac where v: "reachable_via (nbr_ip nbr) e mac s" by (auto simp: p)
  from lsu_sent [OF Cons.prems(1,2) v, of i] obtain t q where
    t: "send_lsu n buf i nbr s = Some t" "r_out t = r_out s @ [(rt_iface e, q)]"
    "lsu_frame n buf nbr (r_router_id s) (r_area_id s) (r_sequence_num s) q" "r_sequence_num t = r_sequence_num s + 1"
    "r_ifaces t = r_ifaces s" "r_rtable t = r_rtable s" "r_entries t = r_entries s" "r_heap t = r_heap s"
    "r_router_id t = r_router_id s" "r_area_id t = r_area_id s" by blast
  have "reachable_via d e mac t = reachable_via d e mac s" for d e mac
    using t(5-7) by (simp add: reachable_via_def longest_prefix_match_def arpcache_lookup_def)
  then have "header_five t" "\<forall>p \<in> set ps. \<exists>e mac. reachable_via (nbr_ip (snd p)) e mac t"
    using Cons.prems(1,3) t(8) by (simp_all add: header_five_def)
  from Cons.IH [OF this(1) Cons.prems(2) this(2)] obtain s' qs where
    g: "send_lsus n buf ps t = Some s'" "r_out s' = r_out t @ qs" "length qs = length ps"
    "\<forall>k < length ps. lsu_frame n buf (snd (ps ! k)) (r_router_id t) (r_area_id t) (r_sequence_num t + of_nat k) (snd (qs ! k))"
    by blast
  have "lsu_frame n buf (snd ((p # ps) ! k)) (r_router_id s) (r_area_id s) (r_sequence_num s + of_nat k)
      (snd (((rt_iface e, q) # qs) ! k))" if "k < length (p # ps)" for k
    using g(4) t that by (cases k) (simp_all add: p add.assoc)
  then show ?case using g t(1,2) by (intro exI [of _ s'] exI [of _ "(rt_iface e, q) # qs"]) (simp add: p)
qed simp

section \<open>The update at a neighbour\<close>

lemma store_db_ok:
  assumes "db_ok s" "rid \<noteq> r_router_id s" "r_db s' = store_lsas rid ls n (r_db s)" "r_router_id s' = r_router_id s"
  shows "db_ok s'"
proof -
  have "db_rid ` set (r_db s') = insert rid (db_rid ` set (r_db s))" by (simp add: assms(3) store_lsas_rids)
  moreover have "r_router_id s \<notin> db_rid ` set (r_db s)" using assms(1) by (auto simp: db_ok_def)
  moreover have "\<forall>d \<in> set (r_db s'). db_seq d = 0"
    unfolding assms(3) by (rule store_lsas_seq) (use assms(1) in \<open>simp add: db_ok_def\<close>)
  ultimately have "\<forall>d \<in> set (r_db s'). db_seq d = 0 \<and> db_rid d \<noteq> r_router_id s'"
    using assms(2,4) by (metis image_eqI insert_iff)
  then show ?thesis using assms(1) store_lsas_distinct [of "r_db s" rid ls n] by (simp add: db_ok_def assms(3))
qed

lemma lsu_stored:
  assumes q: "lsu_frame n buf nbr rid aid seq q" "n \<le> 5459" "copy_lsas buf 0 n = ls"
    and r: "db_ok r" "r_area_id r = aid" "r_router_id r \<noteq> rid" "if_ip (r_ifaces r ! j) = nbr_ip nbr"
    and acc: "find_db rid (r_db r) = None \<or> seq \<noteq> 0"
  shows "\<exists>r' d. handle_packet_exp9 j q r = Some r' \<and> db_ok r' \<and> find_db rid (r_db r') = Some d \<and> db_array d = ls \<and>
    db_nadv d = int n \<and> (\<forall>x. x \<noteq> rid \<longrightarrow> find_db x (r_db r') = find_db x (r_db r))"
proof -
  have f: "length q = 58 + n * 12" "eth_type q = htons ETH_P_IP" "ip_protocol q = IPPROTO_MOSPF" "ip_daddr q = htonl (nbr_ip nbr)"
    "mh_version q 34 = MOSPF_VERSION" "mh_type q 34 = MOSPF_TYPE_LSU" "mh_len q 34 = htons (of_nat (24 + n * 12))"
    "mh_rid q 34 = htonl rid" "mh_aid q 34 = htonl aid" "mh_checksum q 34 = mospf_checksum q 34" "lsu_seq q 50 = htons seq"
    "lsu_nadv q 50 = htonl (of_nat n)" "drop 58 q = buf" and m: "packet_analize q = 34"
    using q(1) by (simp_all add: lsu_frame_def packet_analize_def ETHER_HDR_SIZE_def IP_HDR_SIZE_def)
  have n: "unat (of_nat (24 + n * 12) :: u16) = 24 + n * 12" "unat (of_nat n :: u32) = n"
    using q(2) by (simp_all add: unsigned_of_nat take_bit_nat_eq_self del: of_nat_add of_nat_mult)
  have nadv: "sint (of_nat n :: u32) = int n"
  proof -
    have "n < 2 ^ 31" using q(2) by simp
    then show ?thesis by (simp add: signed_of_nat signed_take_bit_int_eq_self)
  qed
  have "handle_packet_exp9 j q r = handle_mospf_packet_exp9 j q r"
    using f r(4) by (simp add: handle_packet_exp9_def handle_ip_packet_exp9_def Let_def ETHER_HDR_SIZE_def IP_BASE_HDR_SIZE_def)
      (simp add: IPPROTO_MOSPF_def IPPROTO_ICMP_def)
  also have "\<dots> = handle_mospf_lsu_exp9 j q r"
    using f m n(1) r(2)
    by (simp add: handle_mospf_packet_exp9_def MOSPF_TYPE_LSU_def MOSPF_TYPE_HELLO_def del: of_nat_add of_nat_mult)
  finally have run: "handle_packet_exp9 j q r = handle_mospf_lsu_exp9 j q r" .
  have "lsu_accepted rid (lsu_seq_read q 50) (r_db r)"
  proof (cases "find_db rid (r_db r)")
    case (Some d)
    have "bswap16 0 = 0" by code_simp
    then have "lsu_seq q 50 \<noteq> 0" using acc Some bswap16_inject [of seq 0] by (simp add: f(11))
    moreover have "db_seq d = 0" using find_db_SomeD [OF Some] r(1) by (simp add: db_ok_def)
    ultimately have "db_seq d = 0" "lsu_seq q 50 \<noteq> 0" by simp_all
    then show ?thesis using Some lsu_seq_read_pos [of q 50] by (simp add: lsu_accepted_def)
  qed (simp add: lsu_accepted_def)
  then obtain r' where r': "handle_mospf_lsu_exp9 j q r = Some r'" "r_router_id r' = r_router_id r"
    "r_db r' = store_lsas rid (copy_lsas q 58 n) (sint (of_nat n :: u32)) (r_db r)"
    using f m n(2) r(3) by (simp add: handle_mospf_lsu_exp9_def Let_def)
  moreover have "copy_lsas q 58 n = ls"
    using f(1) by (auto simp: q(3) [symmetric] f(13) [symmetric] copy_lsas_at lsa_at_def ld32_drop [of 58] ac_simps)
  ultimately show ?thesis
    using run nadv store_db_ok [OF r(1) r(3) [symmetric] r'(3,2)]
    by (auto simp: find_store_lsas split: option.split)
qed

section \<open>The number of neighbours\<close>

text \<open>The counter of an interface is the length of its list.\<close>

definition counted :: "router \<Rightarrow> bool" where
  "counted s \<longleftrightarrow> (\<forall>f \<in> set (r_ifaces s). if_num_nbr f = int (length (if_nbr_list f)))"

abbreviation known_nbrs :: "router \<Rightarrow> (nat \<times> mospf_nbr) list" where
  "known_nbrs s \<equiv> all_nbrs [0..<length (r_ifaces s)] s"

lemma count_nbrs_sum:
  "counted s \<Longrightarrow> count_nbrs s = of_nat (length (known_nbrs s))"
proof -
  assume c: "counted s"
  have "length (known_nbrs s) = sum_list (map (\<lambda>i. length (if_nbr_list (r_ifaces s ! i))) [0..<length (r_ifaces s)])"
    by (simp add: all_nbrs_def length_concat comp_def)
  also have "map (\<lambda>i. length (if_nbr_list (r_ifaces s ! i))) [0..<length (r_ifaces s)] =
      map (\<lambda>f. length (if_nbr_list f)) (r_ifaces s)"
    by (rule nth_equalityI) simp_all
  finally have l: "length (known_nbrs s) = sum_list (map (\<lambda>f. length (if_nbr_list f)) (r_ifaces s))" .
  have "sum_list (map (\<lambda>f. of_int (if_num_nbr f)) fs) = (of_nat (sum_list (map (\<lambda>f. length (if_nbr_list f)) fs)) :: u32)"
    if "\<forall>f \<in> set fs. if_num_nbr f = int (length (if_nbr_list f))" for fs :: "iface_info list"
    using that by (induction fs) simp_all
  then show ?thesis using c by (simp add: counted_def count_nbrs_def l)
qed

text \<open>Then the array of an update holds all neighbours.\<close>

lemma count_right:
  "counted s \<Longrightarrow> length (known_nbrs s) < 2 ^ 32 \<Longrightarrow> unat (count_nbrs s) = length (known_nbrs s)"
  by (simp add: count_nbrs_sum unsigned_of_nat take_bit_nat_eq_self)

lemma array_filled:
  assumes "length buf = length (known_nbrs s) * 12"
  shows "\<exists>buf'. fill_nbrs (length (known_nbrs s)) (map snd (known_nbrs s)) 0 buf = Some buf' \<and>
    length buf' = length (known_nbrs s) * 12 \<and> copy_lsas buf' 0 (length (known_nbrs s)) = map (lsa_of \<circ> snd) (known_nbrs s)"
  using all_filled [of "map snd (known_nbrs s)" "length (known_nbrs s)" buf] assms by simp

section \<open>Every run of the daemon\<close>

text \<open>One step of a router: a received packet, a round of one of the threads, or time passing.\<close>

inductive daemon_step_exp9 :: "router \<Rightarrow> router \<Rightarrow> bool" where
  packet: "i < length (r_ifaces s) \<Longrightarrow> handle_packet_exp9 i p s = Some s' \<Longrightarrow> daemon_step_exp9 s s'"
| hello: "sending_mospf_hello s = Some s' \<Longrightarrow> daemon_step_exp9 s s'"
| check: "checking_nbr_exp9 s = Some s' \<Longrightarrow> daemon_step_exp9 s s'"
| update: "sending_mospf_lsu_exp9 s = Some s' \<Longrightarrow> daemon_step_exp9 s s'"
| sweep: "arpcache_sweep s = Some s' \<Longrightarrow> daemon_step_exp9 s s'"
| clock: "daemon_step_exp9 s (s \<lparr>r_now := n\<rparr>)"

text \<open>The interfaces know each neighbour once and count them, and the database is well-formed.\<close>

definition iface_ok :: "iface_info \<Rightarrow> bool" where
  "iface_ok f \<longleftrightarrow> if_num_nbr f = int (length (if_nbr_list f)) \<and> distinct (map nbr_id (if_nbr_list f))"

definition daemon_ok :: "router \<Rightarrow> bool" where
  "daemon_ok s \<longleftrightarrow> (\<forall>f \<in> set (r_ifaces s). iface_ok f) \<and> db_ok s"

lemma daemon_ok_counted: "daemon_ok s \<Longrightarrow> counted s"
  by (simp add: daemon_ok_def counted_def iface_ok_def)

definition same_links :: "router \<Rightarrow> router \<Rightarrow> bool" where
  "same_links s s' \<longleftrightarrow> r_ifaces s' = r_ifaces s \<and> r_db s' = r_db s \<and> r_router_id s' = r_router_id s"

lemma same_links_ok: "same_links s s' \<Longrightarrow> daemon_ok s \<Longrightarrow> daemon_ok s'"
  by (simp add: same_links_def daemon_ok_def db_ok_def)

lemma same_links_trans: "same_links s t \<Longrightarrow> same_links t u \<Longrightarrow> same_links s u"
  by (simp add: same_links_def)

lemma same_links_ops [simp]:
  "same_links s (snd (malloc n s))" "same_links s (snd (rand s))" "same_links s (iface_send_packet i p s)"
  "same_links s (iface_send_packet_by_arp i a p s)" "same_links s (ip_send_packet p s)" "same_links s s"
  "same_links s (arp_send_request i a s)" "same_links s (arp_send_reply i q s)"
  by (simp_all add: same_links_def malloc_def rand_def iface_send_packet_def arp_send_request_def arp_send_reply_def Let_def)

lemma arp_links: "handle_arp_packet i p s = Some s' \<Longrightarrow> same_links s s'"
proof -
  have ins: "same_links s t" if "arpcache_insert a mac s = Some t" for a mac s t
    using that
    by (auto simp: arpcache_insert_store store_entry_def send_pending_out same_links_def rand_def split_beta
        split: if_splits option.splits)
  assume "handle_arp_packet i p s = Some s'"
  then show ?thesis
    by (auto simp: handle_arp_packet_def Let_def split: if_splits intro: ins same_links_trans [OF same_links_ops(8) ins])
qed

lemma icmp_links: "icmp_send_packet p ty c s = Some s' \<Longrightarrow> same_links s s'"
  by (auto simp: icmp_send_packet_def Let_def split_beta same_links_def malloc_def rand_def split: if_splits option.splits)

lemma forward_links: "ip_forward_packet d p s = Some s' \<Longrightarrow> same_links s s'"
  by (auto simp: ip_forward_packet_def Let_def dest: icmp_links split: if_splits option.splits)

lemma report_links: "report_dropped ps s = Some s' \<Longrightarrow> same_links s s'"
proof (induction ps s rule: report_dropped.induct)
  case (2 p ps s)
  then show ?case by (auto split: option.splits dest!: icmp_links intro: same_links_trans)
qed simp

lemma sweep_reqs_links: "same_links s (snd (snd (sweep_reqs qs s)))"
proof (induction qs s rule: sweep_reqs.induct)
  case (2 q qs s)
  then show ?case by (auto simp: Let_def split_beta intro: same_links_trans [OF same_links_ops(7)])
qed simp

lemma sweep_links: "arpcache_sweep s = Some s' \<Longrightarrow> same_links s s'"
proof -
  assume "arpcache_sweep s = Some s'"
  then have "same_links (snd (arpcache_sweep_locked s)) s'"
    by (auto simp: arpcache_sweep_def Let_def split_beta dest: report_links)
  moreover have "same_links s (snd (arpcache_sweep_locked s))"
    using sweep_reqs_links [of "s \<lparr>r_entries := map (age_entry (r_now s)) (r_entries s)\<rparr>" "r_reqs s"]
    by (simp add: arpcache_sweep_locked_def Let_def split_beta same_links_def)
  ultimately show ?thesis using same_links_trans by blast
qed

lemma hellos_links: "send_hellos is s = Some s' \<Longrightarrow> same_links s s'"
proof (induction "is" s rule: send_hellos.induct)
  case (2 i js s)
  then obtain t where t: "send_hello i s = Some t" "send_hellos js t = Some s'" by (auto split: option.splits)
  have "same_links s t"
    using t(1) by (auto simp: send_hello_def Let_def split_beta same_links_def malloc_def rand_def iface_send_packet_def split: if_splits)
  then show ?case using "2.IH" [OF t] same_links_trans by blast
qed simp

lemma send_lsus_links: "send_lsus n buf ps s = Some s' \<Longrightarrow> same_links s s'"
proof (induction n buf ps s rule: send_lsus.induct)
  case (2 n buf i nbr ps s)
  then obtain t where t: "send_lsu n buf i nbr s = Some t" "send_lsus n buf ps t = Some s'" by (auto split: option.splits)
  have "same_links s t"
    using t(1) by (auto simp: send_lsu_def Let_def split_beta same_links_def malloc_def rand_def split: if_splits)
  then show ?case using "2.IH" [OF t] same_links_trans by blast
qed simp

lemma broadcast_links: "broadcast_lsu_exp9 s = Some s' \<Longrightarrow> same_links s s'"
proof -
  assume "broadcast_lsu_exp9 s = Some s'"
  then have "same_links (snd (malloc (unat (count_nbrs s) * 12) s)) s'"
    by (auto simp: broadcast_lsu_exp9_def Let_def split_beta dest: send_lsus_links split: option.splits)
  then show ?thesis using same_links_ops(1) same_links_trans by blast
qed

text \<open>The two handlers that change interfaces or the database.\<close>

lemma refresh_ids: "refresh_nbr rid ns = Some ns' \<Longrightarrow> map nbr_id ns' = map nbr_id ns"
  by (induction ns arbitrary: ns') (auto split: if_splits)

lemma refresh_None: "refresh_nbr rid ns = None \<longleftrightarrow> rid \<notin> nbr_id ` set ns"
  by (induction ns) auto

lemma update_iface_ok:
  assumes "daemon_ok s" "i < length (r_ifaces s)" "iface_ok (f (r_ifaces s ! i))"
  shows "daemon_ok (update_iface i f s)"
  using assms by (auto simp: daemon_ok_def db_ok_def update_iface_def dest!: set_update_subset_insert [THEN subsetD])

lemma hello_ok:
  assumes s: "daemon_ok s" "i < length (r_ifaces s)" and h: "handle_mospf_hello i p s = Some s'"
  shows "daemon_ok s'"
proof -
  have f: "iface_ok (r_ifaces s ! i)" using s by (simp add: daemon_ok_def)
  show ?thesis
  proof (cases "refresh_nbr (ntohl (mh_rid p (packet_analize p))) (if_nbr_list (r_ifaces s ! i))")
    case None
    then have "ntohl (mh_rid p (packet_analize p)) \<notin> nbr_id ` set (if_nbr_list (r_ifaces s ! i))" by (simp add: refresh_None)
    then show ?thesis
      using h f None by (auto simp: handle_mospf_hello_def Let_def iface_ok_def split: if_splits intro!: update_iface_ok [OF s])
  next
    case (Some ns)
    then have "map nbr_id ns = map nbr_id (if_nbr_list (r_ifaces s ! i))" by (rule refresh_ids)
    moreover from this have "length ns = length (if_nbr_list (r_ifaces s ! i))" by (metis length_map)
    ultimately show ?thesis
      using h f Some by (auto simp: handle_mospf_hello_def Let_def iface_ok_def intro!: update_iface_ok [OF s])
  qed
qed

lemma lsu_ok:
  assumes s: "daemon_ok s" and h: "handle_mospf_lsu_exp9 i p s = Some s'"
  shows "daemon_ok s'"
proof -
  let ?m = "packet_analize p"
  let ?rid = "ntohl (mh_rid p ?m)" and ?nadv = "ntohl (lsu_nadv p (?m + 16))"
  let ?ls = "copy_lsas p (?m + 24) (unat ?nadv)"
  have g: "r_ifaces s' = r_ifaces s \<and> r_router_id s' = r_router_id s \<and>
      (r_db s' = r_db s \<or> ?rid \<noteq> r_router_id s \<and> r_db s' = store_lsas ?rid ?ls (sint ?nadv) (r_db s))"
    using h by (auto simp: handle_mospf_lsu_exp9_def Let_def split: if_splits)
  have "db_ok s" using s by (simp add: daemon_ok_def)
  then have "db_ok s'" using g store_db_ok [of s ?rid s'] by (auto simp: db_ok_def)
  then show ?thesis using s g by (simp add: daemon_ok_def)
qed

lemma packet_ok:
  assumes s: "daemon_ok s" "i < length (r_ifaces s)" and h: "handle_packet_exp9 i p s = Some s'"
  shows "daemon_ok s'"
proof -
  have m: "daemon_ok t" if "handle_mospf_packet_exp9 i p s = Some t" for t
    using that hello_ok [OF s] lsu_ok [OF s(1)] s(1) by (auto simp: handle_mospf_packet_exp9_def Let_def split: if_splits)
  have "daemon_ok t" if "handle_ip_packet_exp9 i p s = Some t" for t
    using that m s(1) by (auto simp: handle_ip_packet_exp9_def Let_def split: if_splits
      intro: same_links_ok [OF icmp_links] same_links_ok [OF forward_links])
  then show ?thesis
    using h s(1) by (auto simp: handle_packet_exp9_def Let_def split: if_splits intro: same_links_ok [OF arp_links])
qed

lemma check_nbrs_ok:
  "check_nbrs_exp9 i k n s = Some s' \<Longrightarrow> daemon_ok s \<Longrightarrow> i < length (r_ifaces s) \<Longrightarrow> k + n = length (if_nbr_list (r_ifaces s ! i)) \<Longrightarrow>
    daemon_ok s' \<and> length (r_ifaces s') = length (r_ifaces s)"
proof (induction i k n s rule: check_nbrs_exp9.induct)
  case (2 i k n s)
  let ?ns = "if_nbr_list (r_ifaces s ! i)"
  let ?nb = "(?ns ! k) \<lparr>nbr_alive := nbr_alive (?ns ! k) - 1\<rparr>"
  have k: "k < length ?ns" using "2.prems"(4) by simp
  have f: "iface_ok (r_ifaces s ! i)" using "2.prems"(2,3) by (simp add: daemon_ok_def)
  have ids: "map nbr_id ?ns = map nbr_id (take k ?ns) @ nbr_id (?ns ! k) # map nbr_id (drop (Suc k) ?ns)"
    using k id_take_nth_drop [OF k] by (metis list.simps(9) map_append)
  show ?case
  proof (cases "nbr_alive ?nb \<le> 0")
    case True
    define s1 where "s1 = update_iface i (\<lambda>f. f \<lparr>if_num_nbr := if_num_nbr f - 1, if_nbr_list := take k ?ns @ drop (Suc k) ?ns\<rparr>) s"
    obtain s2 where s2: "broadcast_lsu_exp9 s1 = Some s2" "check_nbrs_exp9 i k n s2 = Some s'"
      using "2.prems"(1) True by (auto simp: Let_def s1_def [symmetric] split: option.splits)
    have ok1: "daemon_ok s1"
      unfolding s1_def by (rule update_iface_ok) (use "2.prems"(2,3) f k ids in \<open>auto simp: iface_ok_def\<close>)
    have l: "r_ifaces s2 = r_ifaces s1" "daemon_ok s2"
      using broadcast_links [OF s2(1)] same_links_ok [OF _ ok1] by (auto simp: same_links_def)
    have l1: "length (r_ifaces s1) = length (r_ifaces s)" "if_nbr_list (r_ifaces s1 ! i) = take k ?ns @ drop (Suc k) ?ns"
      using "2.prems"(3) by (simp_all add: s1_def update_iface_def)
    have "daemon_ok s' \<and> length (r_ifaces s') = length (r_ifaces s2)"
      using "2.IH"(1) [OF refl refl True, of s2] s2 l l1 "2.prems"(3,4) k by (simp add: s1_def [symmetric])
    then show ?thesis using l l1 by simp
  next
    case False
    define s1 where "s1 = update_iface i (\<lambda>f. f \<lparr>if_nbr_list := ?ns[k := ?nb]\<rparr>) s"
    have run: "check_nbrs_exp9 i (k + 1) n s1 = Some s'" using "2.prems"(1) False by (simp add: Let_def s1_def)
    have "map nbr_id (?ns[k := ?nb]) = map nbr_id ?ns" using k by (simp add: map_update list_update_same_conv)
    then have ok1: "daemon_ok s1"
      unfolding s1_def by (intro update_iface_ok) (use "2.prems"(2,3) f in \<open>auto simp: iface_ok_def\<close>)
    have "daemon_ok s' \<and> length (r_ifaces s') = length (r_ifaces s1)"
      using "2.IH"(2) [OF refl refl False] run ok1 "2.prems"(3,4) by (simp add: s1_def update_iface_def)
    then show ?thesis by (simp add: s1_def)
  qed
qed simp

lemma check_ifaces_ok:
  "check_ifaces_exp9 is s = Some s' \<Longrightarrow> daemon_ok s \<Longrightarrow> \<forall>i \<in> set is. i < length (r_ifaces s) \<Longrightarrow> daemon_ok s'"
proof (induction "is" s rule: check_ifaces_exp9.induct)
  case (2 i js s)
  then obtain t where t: "check_nbrs_exp9 i 0 (length (if_nbr_list (r_ifaces s ! i))) s = Some t"
    "check_ifaces_exp9 js t = Some s'" by (auto split: option.splits)
  from check_nbrs_ok [OF t(1)] "2.prems"(2,3) have "daemon_ok t" "length (r_ifaces t) = length (r_ifaces s)" by auto
  then show ?case using "2.IH" [OF t] "2.prems"(3) by simp
qed simp

lemma daemon_step_ok: "daemon_step_exp9 s s' \<Longrightarrow> daemon_ok s \<Longrightarrow> daemon_ok s'"
proof (induction rule: daemon_step_exp9.induct)
  case (packet i s p s')
  then show ?case using packet_ok by blast
next
  case (hello s s')
  then show ?case using hellos_links same_links_ok unfolding sending_mospf_hello_def by blast
next
  case (check s s')
  then show ?case using check_ifaces_ok by (auto simp: checking_nbr_exp9_def)
next
  case (update s s')
  then show ?case
    using broadcast_links same_links_ok [of "s \<lparr>r_lsuint := r_lsuint s - 1\<rparr>" s'] same_links_ok [of s "s \<lparr>r_lsuint := r_lsuint s - 1\<rparr>"]
    by (auto simp: sending_mospf_lsu_exp9_def Let_def same_links_def split: if_splits)
next
  case (sweep s s')
  then show ?case using sweep_links same_links_ok by blast
next
  case (clock s n)
  then show ?case using same_links_ok [of s "s \<lparr>r_now := n\<rparr>"] by (simp add: same_links_def)
qed

lemma daemon_run_ok: "daemon_step_exp9\<^sup>*\<^sup>* s t \<Longrightarrow> daemon_ok s \<Longrightarrow> daemon_ok t"
  by (induction rule: rtranclp_induct) (auto intro: daemon_step_ok)

lemma started_ok: "\<forall>f \<in> set (r_ifaces s). if_num_nbr f = 0 \<Longrightarrow> daemon_ok (mospf_init s)"
  by (auto simp: daemon_ok_def mospf_init_def iface_ok_def db_ok_def)

section \<open>Properties\<close>

text \<open>C35. What an update tells: when the counters are right, every neighbour is reachable and the fresh
  blocks hold a header length of five words, \<open>broadcast_lsu\<close> sends one frame to each neighbour, in
  order. Any router of the area that gets its frame, at the interface it is addressed to, stores
  exactly the neighbours of the sender, and their number, under the sender's number, unless it
  knows the sender and the sequence number has come round to 0; the other entries stay.\<close>

theorem update_tells_neighbours:
  assumes "counted s" "header_five s" "length (known_nbrs s) \<le> 5459"
    and "\<forall>p \<in> set (known_nbrs s). \<exists>e mac. reachable_via (nbr_ip (snd p)) e mac s"
  shows "\<exists>s' qs. broadcast_lsu_exp9 s = Some s' \<and> r_out s' = r_out s @ qs \<and> length qs = length (known_nbrs s) \<and>
    (\<forall>k r j. k < length (known_nbrs s) \<and> db_ok r \<and> r_area_id r = r_area_id s \<and> r_router_id r \<noteq> r_router_id s \<and>
      if_ip (r_ifaces r ! j) = nbr_ip (snd (known_nbrs s ! k)) \<and>
      (find_db (r_router_id s) (r_db r) = None \<or> r_sequence_num s + of_nat k \<noteq> 0) \<longrightarrow>
      (\<exists>r' d. handle_packet_exp9 j (snd (qs ! k)) r = Some r' \<and> db_ok r' \<and>
        find_db (r_router_id s) (r_db r') = Some d \<and> db_array d = map (lsa_of \<circ> snd) (known_nbrs s) \<and>
        db_nadv d = int (length (known_nbrs s)) \<and>
        (\<forall>x. x \<noteq> r_router_id s \<longrightarrow> find_db x (r_db r') = find_db x (r_db r))))"
proof -
  let ?n = "length (known_nbrs s)"
  obtain b t where m: "malloc (?n * 12) s = (b, t)" by fastforce
  have "length b = ?n * 12" "t = s \<lparr>r_mallocs := r_mallocs s + 1\<rparr>" using m by (auto simp: malloc_def)
  note t = this(2)
  have "?n < 2 ^ 32" using assms(3) by simp
  note u = count_right [OF assms(1) this]
  from array_filled [OF \<open>length b = ?n * 12\<close>] obtain buf where buf: "fill_nbrs ?n (map snd (known_nbrs s)) 0 b = Some buf" "length buf = ?n * 12"
      "copy_lsas buf 0 ?n = map (lsa_of \<circ> snd) (known_nbrs s)" by blast
  have "reachable_via d e mac t = reachable_via d e mac s" for d e mac
    by (simp add: t reachable_via_def longest_prefix_match_def arpcache_lookup_def)
  then have v: "\<forall>p \<in> set (known_nbrs s). \<exists>e mac. reachable_via (nbr_ip (snd p)) e mac t" "header_five t"
    using assms(2,4) by (simp_all add: header_five_def t)
  from lsus_sent [OF v(2) buf(2) v(1)] obtain s' qs where
    g: "send_lsus ?n buf (known_nbrs s) t = Some s'" "r_out s' = r_out s @ qs" "length qs = ?n"
    "\<forall>k < ?n. lsu_frame ?n buf (snd (known_nbrs s ! k)) (r_router_id s) (r_area_id s) (r_sequence_num s + of_nat k) (snd (qs ! k))"
    by (auto simp: t)
  have "broadcast_lsu_exp9 s = Some s'" using m u buf(1) g(1) by (simp add: broadcast_lsu_exp9_def Let_def)
  moreover have "\<exists>r' d. handle_packet_exp9 j (snd (qs ! k)) r = Some r' \<and> db_ok r' \<and>
      find_db (r_router_id s) (r_db r') = Some d \<and> db_array d = map (lsa_of \<circ> snd) (known_nbrs s) \<and>
        db_nadv d = int (length (known_nbrs s)) \<and>
      (\<forall>x. x \<noteq> r_router_id s \<longrightarrow> find_db x (r_db r') = find_db x (r_db r))"
    if "k < ?n \<and> db_ok r \<and> r_area_id r = r_area_id s \<and> r_router_id r \<noteq> r_router_id s \<and>
      if_ip (r_ifaces r ! j) = nbr_ip (snd (known_nbrs s ! k)) \<and>
      (find_db (r_router_id s) (r_db r) = None \<or> r_sequence_num s + of_nat k \<noteq> 0)" for k r j
    using lsu_stored [OF g(4) [rule_format] assms(3) buf(3), of k r j] that by blast
  ultimately show ?thesis using g(2,3) by blast
qed

text \<open>A sender with one neighbour and that neighbour.\<close>

definition telling_router :: router where
  "telling_router = demo_router \<lparr>r_entries := [\<lparr>ac_ip4 = 0x0a000002, ac_mac = [2, 0, 0, 0, 0, 2], ac_added = 0, ac_valid = True\<rparr>],
     r_ifaces := map (\<lambda>f. f \<lparr>if_num_nbr := 1, if_nbr_list :=
       [\<lparr>nbr_id = 0x0a000002, nbr_ip = 0x0a000002, nbr_mask = 0xff000000, nbr_alive = 15\<rparr>]\<rparr>) (r_ifaces demo_router)\<rparr>"

definition told_router :: router where
  "told_router = demo_router \<lparr>r_router_id := 0x0a000002, r_ifaces := map (\<lambda>f. f \<lparr>if_ip := 0x0a000002\<rparr>) (r_ifaces demo_router)\<rparr>"

lemma update_tells_neighbours_witness:
  "\<exists>s' q r' d. broadcast_lsu_exp9 telling_router = Some s' \<and> r_out s' = [q] \<and>
    handle_packet_exp9 0 (snd q) told_router = Some r' \<and> find_db 0x0a000001 (r_db r') = Some d \<and>
    db_array d = [\<lparr>lsa_subnet = 0x0a000002, lsa_mask = 0xff000000, lsa_rid = 0x0a000002\<rparr>] \<and> db_nadv d = 1"
proof -
  have k: "known_nbrs telling_router =
      [(0, \<lparr>nbr_id = 0x0a000002, nbr_ip = 0x0a000002, nbr_mask = 0xff000000, nbr_alive = 15\<rparr>)]"
    by (simp add: all_nbrs_def telling_router_def demo_router_def)
  have c: "counted telling_router" "header_five telling_router" "length (known_nbrs telling_router) \<le> 5459"
    by (simp_all add: k) (simp_all add: counted_def header_five_def telling_router_def demo_router_def)
  have v: "\<forall>p \<in> set (known_nbrs telling_router). \<exists>e mac. reachable_via (nbr_ip (snd p)) e mac telling_router"
    by (simp add: k reachable_via_def) (simp add: telling_router_def demo_router_def demo_route_def demo_mac_def
      longest_prefix_match_def arpcache_lookup_def get_next_hop_def)
  have r: "db_ok told_router" "r_area_id told_router = r_area_id telling_router" "r_router_id told_router \<noteq> r_router_id telling_router"
    "if_ip (r_ifaces told_router ! 0) = 0x0a000002" "find_db (r_router_id telling_router) (r_db told_router) = None"
    "r_router_id telling_router = 0x0a000001" "r_out telling_router = []"
    by (simp_all add: db_ok_def told_router_def telling_router_def demo_router_def)
  from update_tells_neighbours [OF c v] obtain s' qs where
    g: "broadcast_lsu_exp9 telling_router = Some s'" "r_out s' = r_out telling_router @ qs" "length qs = length (known_nbrs telling_router)"
    "\<forall>k r j. k < length (known_nbrs telling_router) \<and> db_ok r \<and> r_area_id r = r_area_id telling_router \<and>
      r_router_id r \<noteq> r_router_id telling_router \<and> if_ip (r_ifaces r ! j) = nbr_ip (snd (known_nbrs telling_router ! k)) \<and>
      (find_db (r_router_id telling_router) (r_db r) = None \<or> r_sequence_num telling_router + of_nat k \<noteq> 0) \<longrightarrow>
      (\<exists>r' d. handle_packet_exp9 j (snd (qs ! k)) r = Some r' \<and> db_ok r' \<and>
        find_db (r_router_id telling_router) (r_db r') = Some d \<and> db_array d = map (lsa_of \<circ> snd) (known_nbrs telling_router) \<and>
        db_nadv d = int (length (known_nbrs telling_router)) \<and>
        (\<forall>x. x \<noteq> r_router_id telling_router \<longrightarrow> find_db x (r_db r') = find_db x (r_db r)))" by blast
  obtain i f where q: "qs = [(i, f)]" using g(3) by (auto simp: k length_Suc_conv)
  from g(4) [rule_format, of 0 told_router 0] r show ?thesis
    using g(1,2) by (auto simp: k q lsa_of_def)
qed

text \<open>C36. In every run of a router from its start, whatever packets arrive and however the threads are
  interleaved, each interface knows a neighbour once and counts its neighbours, and the database
  has one element per other router; so no update is ever written outside its array.\<close>

theorem daemon_invariant:
  assumes "\<forall>f \<in> set (r_ifaces s). if_num_nbr f = 0" "daemon_step_exp9\<^sup>*\<^sup>* (mospf_init s) t"
  shows "daemon_ok t \<and> (length (known_nbrs t) < 2 ^ 32 \<longrightarrow> (\<forall>buf. length buf = unat (count_nbrs t) * 12 \<longrightarrow>
    fill_nbrs (unat (count_nbrs t)) (map snd (known_nbrs t)) 0 buf \<noteq> None))"
proof -
  have ok: "daemon_ok t" using daemon_run_ok [OF assms(2) started_ok [OF assms(1)]] .
  then show ?thesis using count_right [OF daemon_ok_counted [OF ok]] array_filled [of _ t] by fastforce
qed

text \<open>A hello of 10.0.0.2 that arrives, and a second of the checking thread.\<close>

definition arriving_hello :: bytes where
  "arriving_hello = [1, 0, 94, 0, 0, 5, 2, 0, 0, 0, 0, 1, 8, 0, 69, 0, 0, 44, 7, 0, 64, 0, 64, 90, 73, 113, 10, 0, 0, 2,
     224, 0, 0, 5, 2, 1, 0, 24, 10, 0, 0, 2, 0, 0, 0, 0, 244, 222, 0, 0, 255, 0, 0, 0, 0, 5, 0, 0]"

lemma daemon_invariant_witness:
  "\<exists>t. daemon_step_exp9\<^sup>*\<^sup>* (mospf_init demo_router) t \<and> length (known_nbrs t) = 1 \<and> daemon_ok t"
proof -
  let ?s = "mospf_init demo_router"
  have "map_option (\<lambda>t. length (known_nbrs t)) (Option.bind (handle_packet_exp9 0 arriving_hello ?s) checking_nbr_exp9) = Some 1"
    by code_simp
  then obtain u t where u: "handle_packet_exp9 0 arriving_hello ?s = Some u" "checking_nbr_exp9 u = Some t"
    "length (known_nbrs t) = 1" by (auto simp: bind_eq_Some_conv)
  have "0 < length (r_ifaces ?s)" by (simp add: mospf_init_def demo_router_def)
  from packet [OF this u(1)] check [OF u(2)] have run: "daemon_step_exp9\<^sup>*\<^sup>* ?s t" by (auto intro: rtranclp_trans)
  have "\<forall>f \<in> set (r_ifaces demo_router). if_num_nbr f = 0" by (simp add: demo_router_def)
  from daemon_invariant [OF this run] run u(3) show ?thesis by blast
qed

end
