(* ===== verification/Links.thy ===== *)
theory Links imports NetPrelude begin

text \<open>The intrusive lists of \<open>include/list.h\<close>, at the level of the pointers: a store of \<open>next\<close>
  and \<open>prev\<close> fields over a type of node addresses, with \<open>None\<close> for a null pointer (and as the
  result of following one). On well-formed lists the operations are those on HOL lists.\<close>

section \<open>The model\<close>

record 'p links =
  lnext :: "'p \<Rightarrow> 'p option"
  lprev :: "'p \<Rightarrow> 'p option"

definition set_next :: "'p \<Rightarrow> 'p option \<Rightarrow> 'p links \<Rightarrow> 'p links" where
  "set_next p q h = h \<lparr>lnext := (lnext h)(p := q)\<rparr>"

definition set_prev :: "'p \<Rightarrow> 'p option \<Rightarrow> 'p links \<Rightarrow> 'p links" where
  "set_prev p q h = h \<lparr>lprev := (lprev h)(p := q)\<rparr>"

definition list_empty :: "'p links \<Rightarrow> 'p \<Rightarrow> bool" where
  "list_empty h l \<longleftrightarrow> lnext h l = Some l"

definition init_list_head :: "'p \<Rightarrow> 'p links \<Rightarrow> 'p links" where
  "init_list_head l h = set_next l (Some l) (set_prev l (Some l) h)"

definition list_insert :: "'p \<Rightarrow> 'p option \<Rightarrow> 'p option \<Rightarrow> 'p links \<Rightarrow> 'p links option" where
  "list_insert new prev nxt h =
     (case nxt of None \<Rightarrow> None | Some n \<Rightarrow>
      (case prev of None \<Rightarrow> None | Some p \<Rightarrow>
         let h = set_prev n (Some new) h;
             h = set_next p (Some new) h;
             h = set_next new (Some n) h
         in Some (set_prev new (Some p) h)))"

definition list_add_head :: "'p \<Rightarrow> 'p \<Rightarrow> 'p links \<Rightarrow> 'p links option" where
  "list_add_head new head h = list_insert new (Some head) (lnext h head) h"

definition list_add_tail :: "'p \<Rightarrow> 'p \<Rightarrow> 'p links \<Rightarrow> 'p links option" where
  "list_add_tail new head h = list_insert new (lprev h head) (Some head) h"

definition list_delete_entry :: "'p \<Rightarrow> 'p links \<Rightarrow> 'p links option" where
  "list_delete_entry entry h =
     (case lnext h entry of None \<Rightarrow> None | Some n \<Rightarrow>
        let h = set_prev n (lprev h entry) h
        in (case lprev h entry of None \<Rightarrow> None | Some p \<Rightarrow> Some (set_next p (lnext h entry) h)))"

text \<open>\<open>list_for_each_entry_safe\<close> with a body that may change the state and the list: the next
  node is read before the body runs. A loop that does not end is \<open>None\<close>, too. A body that
  returns \<open>False\<close> leaves the loop.\<close>

partial_function (option) for_each_safe ::
    "('s \<Rightarrow> 'p links) \<Rightarrow> 'p \<Rightarrow> ('p \<Rightarrow> 's \<Rightarrow> (bool \<times> 's) option) \<Rightarrow> 'p \<Rightarrow> 's \<Rightarrow> 's option" where
  "for_each_safe get head body p s =
     (if p = head then Some s
      else Option.bind (lnext (get s) p) (\<lambda>q.
        Option.bind (body p s) (\<lambda>(continue, s).
          if continue then for_each_safe get head body q s else Some s)))"

definition list_for_each_safe ::
    "('s \<Rightarrow> 'p links) \<Rightarrow> 'p \<Rightarrow> ('p \<Rightarrow> 's \<Rightarrow> (bool \<times> 's) option) \<Rightarrow> 's \<Rightarrow> 's option" where
  "list_for_each_safe get head body s =
     Option.bind (lnext (get s) head) (\<lambda>p. for_each_safe get head body p s)"

text \<open>\<open>list_for_each_entry\<close> as a search: the first node with the property, which may fail to
  be evaluated.\<close>

partial_function (option) find_from :: "'p links \<Rightarrow> 'p \<Rightarrow> ('p \<Rightarrow> bool option) \<Rightarrow> 'p \<Rightarrow> 'p option option" where
  "find_from h head P p =
     (if p = head then Some None
      else Option.bind (P p) (\<lambda>b.
        if b then Some (Some p) else Option.bind (lnext h p) (find_from h head P)))"

definition list_find :: "'p links \<Rightarrow> 'p \<Rightarrow> ('p \<Rightarrow> bool option) \<Rightarrow> 'p option option" where
  "list_find h head P = Option.bind (lnext h head) (find_from h head P)"

section \<open>Well-formed lists\<close>

fun chain :: "'p links \<Rightarrow> 'p list \<Rightarrow> bool" where
  "chain h (a # b # xs) \<longleftrightarrow> lnext h a = Some b \<and> lprev h b = Some a \<and> chain h (b # xs)"
| "chain h _ \<longleftrightarrow> True"

text \<open>The circular list of the nodes \<open>xs\<close> with the given head.\<close>

definition dlist :: "'p links \<Rightarrow> 'p \<Rightarrow> 'p list \<Rightarrow> bool" where
  "dlist h head xs \<longleftrightarrow> distinct (head # xs) \<and> chain h (head # xs @ [head])"

lemma chain_append:
  "chain h (xs @ a # b # ys) \<longleftrightarrow>
     chain h (xs @ [a]) \<and> lnext h a = Some b \<and> lprev h b = Some a \<and> chain h (b # ys)"
proof (induction xs)
  case (Cons x xs)
  then show ?case by (cases xs) auto
qed simp

lemma chain_cong:
  assumes "chain h xs" "\<forall>x \<in> set (butlast xs). lnext h' x = lnext h x" "\<forall>x \<in> set (tl xs). lprev h' x = lprev h x"
  shows "chain h' xs"
  using assms by (induction h xs rule: chain.induct) auto

lemma set_next_prev [simp]:
  "lnext (set_next p q h) x = (if x = p then q else lnext h x)" "lprev (set_next p q h) x = lprev h x"
  "lprev (set_prev p q h) x = (if x = p then q else lprev h x)" "lnext (set_prev p q h) x = lnext h x"
  by (simp_all add: set_next_def set_prev_def)

lemma dlist_init: "dlist (init_list_head l h) l []"
  by (simp add: dlist_def init_list_head_def)

lemma dlist_empty: "dlist h l xs \<Longrightarrow> list_empty h l \<longleftrightarrow> xs = []"
  by (cases xs) (auto simp: dlist_def list_empty_def)

text \<open>The link between the two parts of a list.\<close>

lemma dlist_split:
  assumes "dlist h head (xs @ ys)"
  obtains P p n S where "head # xs = P @ [p]" "ys @ [head] = n # S"
    "chain h (P @ [p])" "chain h (n # S)" "lnext h p = Some n" "lprev h n = Some p"
proof -
  obtain P p where P: "head # xs = P @ [p]" by (metis append_butlast_last_id list.discI)
  obtain n S where S: "ys @ [head] = n # S" by (cases "ys @ [head]") auto
  have "head # (xs @ ys) @ [head] = P @ p # n # S" using P S by simp
  then have "chain h (P @ p # n # S)" using assms by (simp add: dlist_def)
  then show thesis using that [OF P S] by (simp add: chain_append)
qed

lemma dlist_insert:
  assumes "dlist h head (xs @ ys)" "new \<notin> set (head # xs @ ys)"
    "prev = Some (last (head # xs))" "nxt = Some (hd (ys @ [head]))"
  shows "\<exists>h'. list_insert new prev nxt h = Some h' \<and> dlist h' head (xs @ new # ys) \<and>
    (\<forall>x. x \<notin> set (new # head # xs @ ys) \<longrightarrow> lnext h' x = lnext h x \<and> lprev h' x = lprev h x)"
proof -
  from assms(1) obtain P p n S where s: "head # xs = P @ [p]" "ys @ [head] = n # S"
    "chain h (P @ [p])" "chain h (n # S)" "lnext h p = Some n" "lprev h n = Some p"
    by (rule dlist_split)
  have pn: "prev = Some p" "nxt = Some n" using assms(3,4) unfolding s(1,2) by simp_all
  let ?h = "set_prev new (Some p) (set_next new (Some n) (set_next p (Some new) (set_prev n (Some new) h)))"
  have dist: "distinct (head # xs @ ys)" using assms(1) by (simp add: dlist_def)
  have mem: "p \<in> set (head # xs)" "n \<in> set (ys @ [head])" unfolding s(1,2) by simp_all
  have sets: "set P \<subseteq> set (head # xs)" "set S \<subseteq> set (ys @ [head])" unfolding s(1,2) by auto
  have d1: "p \<notin> set P"
  proof -
    have "distinct (head # xs)" using dist by auto
    then show ?thesis unfolding s(1) by simp
  qed
  have d2: "n \<notin> set S"
  proof -
    have "distinct (ys @ [head])" using dist by auto
    then show ?thesis unfolding s(2) by simp
  qed
  have tlP: "set (tl (P @ [p])) = set xs" using arg_cong [OF s(1), of tl] by simp
  have blS: "set (butlast (n # S)) = set ys" using arg_cong [OF s(2), of butlast] by (simp add: butlast_append)
  have c1: "chain ?h (P @ [p])"
  proof (rule chain_cong [OF s(3)])
    show "\<forall>x \<in> set (butlast (P @ [p])). lnext ?h x = lnext h x"
      using d1 sets(1) assms(2) by (auto simp: butlast_append)
    show "\<forall>x \<in> set (tl (P @ [p])). lprev ?h x = lprev h x"
      unfolding tlP using mem(2) dist assms(2) by auto
  qed
  have c2: "chain ?h (n # S)"
  proof (rule chain_cong [OF s(4)])
    show "\<forall>x \<in> set (butlast (n # S)). lnext ?h x = lnext h x"
      unfolding blS using mem(1) dist assms(2) by auto
    show "\<forall>x \<in> set (tl (n # S)). lprev ?h x = lprev h x"
      using d2 sets(2) assms(2) by auto
  qed
  have ne: "p \<noteq> new" "n \<noteq> new" using mem assms(2) by auto
  have "chain ?h (P @ p # new # n # S)"
    using c1 c2 ne by (simp add: chain_append)
  moreover have "head # (xs @ new # ys) @ [head] = P @ p # new # n # S" using s(1,2) by simp
  ultimately have "dlist ?h head (xs @ new # ys)"
    using dist assms(2) unfolding dlist_def by auto
  moreover have "list_insert new prev nxt h = Some ?h" by (simp add: pn list_insert_def)
  moreover have "\<forall>x. x \<notin> set (new # head # xs @ ys) \<longrightarrow> lnext ?h x = lnext h x \<and> lprev ?h x = lprev h x"
    using mem by auto
  ultimately show ?thesis by blast
qed

lemma last_Cons_append: "last (a # xs @ [b]) = b" by simp

lemma dlist_add_tail:
  assumes "dlist h head xs" "new \<notin> set (head # xs)"
  shows "\<exists>h'. list_add_tail new head h = Some h' \<and> dlist h' head (xs @ [new]) \<and>
    (\<forall>x. x \<notin> set (new # head # xs) \<longrightarrow> lnext h' x = lnext h x \<and> lprev h' x = lprev h x)"
proof -
  have "lprev h head = Some (last (head # xs))"
  proof -
    obtain P where "head # xs = P @ [last (head # xs)]" by (metis append_butlast_last_id list.discI)
    then have "head # xs @ [head] = P @ last (head # xs) # [head]" by simp
    then have "chain h (P @ last (head # xs) # [head])" using assms(1) unfolding dlist_def by metis
    then show ?thesis by (simp only: chain_append)
  qed
  then show ?thesis
    using dlist_insert [of h head xs "[]" new] assms by (simp add: list_add_tail_def)
qed

text \<open>\<open>list_add_tail\<close> before any node of a list.\<close>

lemma dlist_add_before:
  assumes "dlist h head (xs @ ys)" "new \<notin> set (head # xs @ ys)"
  shows "\<exists>h'. list_add_tail new (hd (ys @ [head])) h = Some h' \<and> dlist h' head (xs @ new # ys) \<and>
    (\<forall>x. x \<notin> set (new # head # xs @ ys) \<longrightarrow> lnext h' x = lnext h x \<and> lprev h' x = lprev h x)"
proof -
  from assms(1) obtain P p n S where s: "head # xs = P @ [p]" "ys @ [head] = n # S" "lprev h n = Some p"
    by (rule dlist_split)
  then have "lprev h (hd (ys @ [head])) = Some (last (head # xs))" by simp
  then show ?thesis
    using dlist_insert [OF assms, of "lprev h (hd (ys @ [head]))" "Some (hd (ys @ [head]))"]
    by (simp add: list_add_tail_def)
qed

lemma dlist_add_head:
  assumes "dlist h head xs" "new \<notin> set (head # xs)"
  shows "\<exists>h'. list_add_head new head h = Some h' \<and> dlist h' head (new # xs) \<and>
    (\<forall>x. x \<notin> set (new # head # xs) \<longrightarrow> lnext h' x = lnext h x \<and> lprev h' x = lprev h x)"
proof -
  have "lnext h head = Some (hd (xs @ [head]))" using assms(1) by (cases xs) (auto simp: dlist_def)
  then show ?thesis
    using dlist_insert [of h head "[]" xs new] assms by (simp add: list_add_head_def)
qed

lemma dlist_delete:
  assumes "dlist h head (xs @ e # ys)"
  shows "\<exists>h'. list_delete_entry e h = Some h' \<and> dlist h' head (xs @ ys) \<and>
    lnext h' e = lnext h e \<and> lprev h' e = lprev h e \<and>
    (\<forall>x. x \<notin> set (head # xs @ ys) \<longrightarrow> lnext h' x = lnext h x \<and> lprev h' x = lprev h x)"
proof -
  have dist: "distinct (head # xs @ e # ys)" using assms by (simp add: dlist_def)
  obtain P p where P: "head # xs = P @ [p]" by (metis append_butlast_last_id list.discI)
  obtain n S where S: "ys @ [head] = n # S" by (cases "ys @ [head]") auto
  have "head # (xs @ e # ys) @ [head] = P @ p # e # n # S" using P S by simp
  then have c: "chain h (P @ [p])" "lnext h p = Some e" "lprev h e = Some p" "lnext h e = Some n" "lprev h n = Some e"
    "chain h (n # S)"
    using assms by (simp_all add: dlist_def chain_append)
  let ?h = "set_next p (Some n) (set_prev n (Some p) h)"
  have mem: "p \<in> set (head # xs)" "n \<in> set (ys @ [head])" unfolding P S by simp_all
  have d1: "p \<notin> set P"
  proof -
    have "distinct (head # xs)" using dist by auto
    then show ?thesis unfolding P by simp
  qed
  have d2: "n \<notin> set S"
  proof -
    have "distinct (ys @ [head])" using dist by auto
    then show ?thesis unfolding S by simp
  qed
  have tlP: "set (tl (P @ [p])) = set xs" using arg_cong [OF P, of tl] by simp
  have blS: "set (butlast (n # S)) = set ys" using arg_cong [OF S, of butlast] by (simp add: butlast_append)
  have c1: "chain ?h (P @ [p])"
  proof (rule chain_cong [OF c(1)])
    show "\<forall>x \<in> set (butlast (P @ [p])). lnext ?h x = lnext h x" using d1 by (auto simp: butlast_append)
    show "\<forall>x \<in> set (tl (P @ [p])). lprev ?h x = lprev h x" unfolding tlP using mem(2) dist by auto
  qed
  have c2: "chain ?h (n # S)"
  proof (rule chain_cong [OF c(6)])
    show "\<forall>x \<in> set (butlast (n # S)). lnext ?h x = lnext h x" unfolding blS using mem(1) dist by auto
    show "\<forall>x \<in> set (tl (n # S)). lprev ?h x = lprev h x" using d2 by auto
  qed
  have "chain ?h (P @ p # n # S)" using c1 c2 by (simp add: chain_append)
  moreover have "head # (xs @ ys) @ [head] = P @ p # n # S" using P S by simp
  ultimately have "dlist ?h head (xs @ ys)" using dist unfolding dlist_def by auto
  moreover have ne: "e \<noteq> p" "e \<noteq> n" using mem dist by auto
  moreover have "list_delete_entry e h = Some ?h"
    using c ne by (simp add: list_delete_entry_def)
  moreover have "\<forall>x. x \<notin> set (head # xs @ ys) \<longrightarrow> lnext ?h x = lnext h x \<and> lprev ?h x = lprev h x"
    using mem by auto
  ultimately show ?thesis by auto
qed

text \<open>A list is not touched by stores at other nodes.\<close>

lemma dlist_frame:
  assumes "dlist h head xs" "\<forall>x \<in> set (head # xs). lnext h' x = lnext h x \<and> lprev h' x = lprev h x"
  shows "dlist h' head xs"
proof -
  have "chain h (head # xs @ [head])" using assms(1) by (simp add: dlist_def)
  then have "chain h' (head # xs @ [head])"
    by (rule chain_cong) (use assms(2) in \<open>auto simp: butlast_append\<close>)
  then show ?thesis using assms(1) by (simp add: dlist_def)
qed

section \<open>Traversals\<close>

lemma find_from_chain:
  "chain h (p # xs @ [head]) \<Longrightarrow> head \<notin> set (p # xs) \<Longrightarrow> \<forall>x \<in> set (p # xs). P x = Some (Q x) \<Longrightarrow>
     find_from h head P p = Some (find Q (p # xs))"
proof (induction xs arbitrary: p)
  case Nil
  then show ?case by (subst find_from.simps) (auto simp: find_from.simps [of h head P head])
next
  case (Cons x xs)
  then show ?case by (subst find_from.simps) auto
qed

lemma list_find_dlist:
  assumes "dlist h head xs" "\<forall>x \<in> set xs. P x = Some (Q x)"
  shows "list_find h head P = Some (find Q xs)"
proof (cases xs)
  case Nil
  then show ?thesis using assms by (simp add: list_find_def dlist_def find_from.simps)
next
  case (Cons x ys)
  then show ?thesis
    using assms find_from_chain [of h x ys head P Q] by (auto simp: list_find_def dlist_def)
qed

text \<open>Whatever every round keeps, the loop keeps when it ends.\<close>

lemma for_each_safe_keeps:
  assumes "for_each_safe get head body p s = Some s'"
    and "\<And>s. R s s" "\<And>a b c. R a b \<Longrightarrow> R b c \<Longrightarrow> R a c" "\<And>p s c s'. body p s = Some (c, s') \<Longrightarrow> R s s'"
  shows "R s s'"
proof -
  have "(\<forall>p s c s'. body p s = Some (c, s') \<longrightarrow> R s s') \<longrightarrow> R s s'"
    apply (rule for_each_safe.raw_induct [where P = "\<lambda>get head body p s s'.
      (\<forall>p s c s'. body p s = Some (c, s') \<longrightarrow> R s s') \<longrightarrow> R s s'", OF _ assms(1)])
    subgoal premises prems for go get' head' body' p' t t'
    proof
      assume body: "\<forall>p s c s'. body' p s = Some (c, s') \<longrightarrow> R s s'"
      show "R t t'"
      proof (cases "p' = head'")
        case True
        then show ?thesis using prems(2) assms(2) by simp
      next
        case False
        then obtain q c u where u: "body' p' t = Some (c, u)"
          "(if c then go get' head' body' q u else Some u) = Some t'"
          using prems(2) by (auto simp: bind_eq_Some_conv)
        then have "R t u" using body by blast
        moreover have "R u t'" using u(2) prems(1) body assms(2) by (auto split: if_splits)
        ultimately show ?thesis by (rule assms(3))
      qed
    qed
    done
  then show ?thesis using assms(4) by blast
qed

lemma list_for_each_safe_keeps:
  assumes "list_for_each_safe get head body s = Some s'"
    and "\<And>s. R s s" "\<And>a b c. R a b \<Longrightarrow> R b c \<Longrightarrow> R a c" "\<And>p s c s'. body p s = Some (c, s') \<Longrightarrow> R s s'"
  shows "R s s'"
  using assms(1) for_each_safe_keeps [of get head body _ s s' R] assms(2-4)
  by (auto simp: list_for_each_safe_def bind_eq_Some_conv)

text \<open>A loop whose body may unlink the node it is at: \<open>I\<close> is an invariant over the nodes still to
  come and the state.\<close>

lemma for_each_safe_rule:
  assumes step: "\<And>x xs s. I (x # xs) s \<Longrightarrow> lnext (get s) x = Some (hd (xs @ [head])) \<and>
      (\<exists>s'. body x s = Some (True, s') \<and> I xs s')"
    and "I xs s" "head \<notin> set xs"
  shows "\<exists>s'. for_each_safe get head body (hd (xs @ [head])) s = Some s' \<and> I [] s'"
  using assms(2,3)
proof (induction xs arbitrary: s)
  case Nil
  then show ?case by (simp add: for_each_safe.simps)
next
  case (Cons x xs)
  from step [OF Cons.prems(1)] obtain s' where
    s: "lnext (get s) x = Some (hd (xs @ [head]))" "body x s = Some (True, s')" "I xs s'" by blast
  have "x \<noteq> head" using Cons.prems(2) by auto
  then have "for_each_safe get head body x s = for_each_safe get head body (hd (xs @ [head])) s'"
    using s by (simp add: for_each_safe.simps [of get head body x])
  then show ?case using Cons.IH [OF s(3)] Cons.prems(2) by simp
qed

lemma dlist_next: "dlist h head (xs @ e # ys) \<Longrightarrow> lnext h e = Some (hd (ys @ [head]))"
proof -
  assume a: "dlist h head (xs @ e # ys)"
  obtain n S where S: "ys @ [head] = n # S" by (cases "ys @ [head]") auto
  have "chain h ((head # xs) @ e # n # S)" using a S by (simp add: dlist_def)
  then show ?thesis unfolding S by (simp only: chain_append list.sel)
qed

lemma dlist_first: "dlist h head xs \<Longrightarrow> lnext h head = Some (hd (xs @ [head]))"
  by (cases xs) (auto simp: dlist_def)

lemma list_for_each_safe_rule:
  assumes "\<And>x xs s. I (x # xs) s \<Longrightarrow> lnext (get s) x = Some (hd (xs @ [head])) \<and>
      (\<exists>s'. body x s = Some (True, s') \<and> I xs s')"
    and "I xs s" "dlist (get s) head xs"
  shows "\<exists>s'. list_for_each_safe get head body s = Some s' \<and> I [] s'"
  using for_each_safe_rule [of I get head body, OF assms(1,2)] dlist_first [OF assms(3)] assms(3)
  by (simp add: list_for_each_safe_def dlist_def)

section \<open>Refinement\<close>

text \<open>A run of list operations on the pointers and on HOL lists, where adding a node twice and
  deleting a node that is not in the list are undefined.\<close>

datatype 'p list_op = Add_Head 'p | Add_Tail 'p | Delete 'p

fun run_links :: "'p list_op list \<Rightarrow> 'p \<Rightarrow> 'p links \<Rightarrow> 'p links option" where
  "run_links [] head h = Some h"
| "run_links (Add_Head x # ops) head h = Option.bind (list_add_head x head h) (run_links ops head)"
| "run_links (Add_Tail x # ops) head h = Option.bind (list_add_tail x head h) (run_links ops head)"
| "run_links (Delete x # ops) head h = Option.bind (list_delete_entry x h) (run_links ops head)"

fun run_list :: "'p list_op list \<Rightarrow> 'p \<Rightarrow> 'p list \<Rightarrow> 'p list option" where
  "run_list [] head xs = Some xs"
| "run_list (Add_Head x # ops) head xs =
     (if x \<in> set (head # xs) then None else run_list ops head (x # xs))"
| "run_list (Add_Tail x # ops) head xs =
     (if x \<in> set (head # xs) then None else run_list ops head (xs @ [x]))"
| "run_list (Delete x # ops) head xs =
     (if x \<notin> set xs then None else run_list ops head (remove1 x xs))"

text \<open>C14. The intrusive lists implement lists: for every run of additions and deletions that is
  defined on HOL lists, the pointer operations succeed and end in a well-formed circular list with
  the same nodes in the same order, on which the emptiness test and the search loop give the
  answers for that list.\<close>

theorem list_ops_refine:
  assumes "dlist h head xs" "run_list ops head xs = Some ys"
  shows "\<exists>h'. run_links ops head h = Some h' \<and> dlist h' head ys \<and> (list_empty h' head \<longleftrightarrow> ys = []) \<and>
    (\<forall>Q. list_find h' head (\<lambda>p. Some (Q p)) = Some (find Q ys))"
proof -
  have "\<exists>h'. run_links ops head h = Some h' \<and> dlist h' head ys"
    using assms
  proof (induction ops head xs arbitrary: h rule: run_list.induct)
    case (2 x ops head xs)
    from 2(3) have n: "x \<notin> set (head # xs)" by (auto split: if_splits)
    from dlist_add_head [OF 2(2) n] obtain h1 where
      "list_add_head x head h = Some h1" "dlist h1 head (x # xs)" by blast
    then show ?case using 2(1) [OF n] 2(3) n by simp
  next
    case (3 x ops head xs)
    from 3(3) have n: "x \<notin> set (head # xs)" by (auto split: if_splits)
    from dlist_add_tail [OF 3(2) n] obtain h1 where
      "list_add_tail x head h = Some h1" "dlist h1 head (xs @ [x])" by blast
    then show ?case using 3(1) [OF n] 3(3) n by simp
  next
    case (4 x ops head xs)
    from 4(3) have m: "x \<in> set xs" by (auto split: if_splits)
    then obtain as bs where s: "xs = as @ x # bs" "x \<notin> set as" by (meson split_list_first)
    from dlist_delete [OF 4(2) [unfolded s(1)]] obtain h1 where
      "list_delete_entry x h = Some h1" "dlist h1 head (as @ bs)" by blast
    moreover have "remove1 x xs = as @ bs" using s by (simp add: remove1_append)
    ultimately show ?case using 4(1) [of h1] 4(3) m by simp
  qed simp
  then show ?thesis using dlist_empty list_find_dlist by metis
qed

lemma list_ops_refine_witness:
  "\<exists>h'. run_links [Add_Tail 1, Add_Head 2, Add_Tail 3, Delete 1] (0 :: nat)
      (init_list_head 0 \<lparr>lnext = (\<lambda>_. None), lprev = (\<lambda>_. None)\<rparr>) = Some h' \<and>
    list_find h' 0 (\<lambda>p. Some (2 < p)) = Some (Some 3)"
proof -
  let ?h = "init_list_head (0 :: nat) \<lparr>lnext = (\<lambda>_. None), lprev = (\<lambda>_. None)\<rparr>"
  have "run_list [Add_Tail 1, Add_Head 2, Add_Tail 3, Delete 1] (0 :: nat) [] = Some [2, 3]" by simp
  from list_ops_refine [OF dlist_init this] obtain h' where
    "run_links [Add_Tail 1, Add_Head 2, Add_Tail 3, Delete 1] 0 ?h = Some h'"
    "\<forall>Q. list_find h' 0 (\<lambda>p. Some (Q p)) = Some (find Q [2, 3])" by blast
  then show ?thesis by fastforce
qed

end
