(* ===== verification/RingBuffer.thy ===== *)
theory RingBuffer imports Bytes begin

text \<open>The receiving buffer of a TCP socket (\<open>exp13/code/include/ring_buffer.h\<close>), refined to a
  queue of bytes: the contract that its users rely on is the locale \<open>byte_queue\<close>.\<close>

section \<open>The model\<close>

record ring_buffer =
  rb_size :: nat
  rb_head :: nat
  rb_tail :: nat
  rb_buf :: bytes

definition alloc_ring_buffer :: "nat \<Rightarrow> ring_buffer" where
  "alloc_ring_buffer n = \<lparr>rb_size = n, rb_head = 0, rb_tail = 0, rb_buf = replicate (n + 1) 0\<rparr>"

text \<open>In the code \<open>tail - head + size\<close>, a sum of non-negative integers as long as
  \<open>head \<le> tail + size\<close>.\<close>

definition ring_buffer_used :: "ring_buffer \<Rightarrow> nat" where
  "ring_buffer_used rbuf = (rb_tail rbuf + rb_size rbuf - rb_head rbuf) mod rb_size rbuf"

definition ring_buffer_free :: "ring_buffer \<Rightarrow> int" where
  "ring_buffer_free rbuf = int (rb_size rbuf) - int (ring_buffer_used rbuf) - 1"

definition ring_buffer_empty :: "ring_buffer \<Rightarrow> bool" where
  "ring_buffer_empty rbuf \<longleftrightarrow> ring_buffer_used rbuf = 0"

definition ring_buffer_full :: "ring_buffer \<Rightarrow> bool" where
  "ring_buffer_full rbuf \<longleftrightarrow> ring_buffer_free rbuf = 0"

text \<open>What the caller gets, the returned length, and the buffer afterwards.\<close>

definition read_ring_buffer :: "ring_buffer \<Rightarrow> int \<Rightarrow> bytes \<times> int \<times> ring_buffer" where
  "read_ring_buffer rbuf sz =
     (let len = min (int (ring_buffer_used rbuf)) sz
      in if 0 < len then
           let n = nat len;
               out = (if rb_size rbuf < rb_head rbuf + n then
                        let right = rb_size rbuf - rb_head rbuf; left = n - right
                        in slice (rb_head rbuf) right (rb_buf rbuf) @ slice 0 left (rb_buf rbuf)
                      else slice (rb_head rbuf) n (rb_buf rbuf))
           in (out, len, rbuf \<lparr>rb_head := (rb_head rbuf + n) mod rb_size rbuf\<rparr>)
         else ([], len, rbuf))"

text \<open>A failed assertion is \<open>None\<close>.\<close>

definition write_ring_buffer :: "ring_buffer \<Rightarrow> bytes \<Rightarrow> ring_buffer option" where
  "write_ring_buffer rbuf data =
     (let n = length data
      in if \<not> (0 < n \<and> int n \<le> ring_buffer_free rbuf) then None
         else
           let buf = (if rb_size rbuf < rb_tail rbuf + n then
                        let right = rb_size rbuf - rb_tail rbuf
                        in blit (blit (rb_buf rbuf) (rb_tail rbuf) (take right data)) 0 (drop right data)
                      else blit (rb_buf rbuf) (rb_tail rbuf) data)
           in Some (rbuf \<lparr>rb_buf := buf, rb_tail := (rb_tail rbuf + n) mod rb_size rbuf\<rparr>))"

section \<open>The contract of a byte queue\<close>

text \<open>A run of writes and reads, with all the bytes that came out.\<close>

datatype queue_op = Put bytes | Get int

fun run_queue :: "('q \<Rightarrow> bytes \<Rightarrow> 'q option) \<Rightarrow> ('q \<Rightarrow> int \<Rightarrow> bytes \<times> int \<times> 'q) \<Rightarrow> queue_op list
    \<Rightarrow> 'q \<Rightarrow> (bytes \<times> 'q) option" where
  "run_queue put get [] q = Some ([], q)"
| "run_queue put get (Put d # ops) q =
     (case put q d of None \<Rightarrow> None | Some q \<Rightarrow> run_queue put get ops q)"
| "run_queue put get (Get n # ops) q =
     (case get q n of (out, _, q) \<Rightarrow> map_option (\<lambda>(outs, q). (out @ outs, q)) (run_queue put get ops q))"

fun put_bytes :: "queue_op list \<Rightarrow> bytes" where
  "put_bytes [] = []"
| "put_bytes (Put d # ops) = d @ put_bytes ops"
| "put_bytes (Get n # ops) = put_bytes ops"

locale byte_queue =
  fixes wf :: "'q \<Rightarrow> bool"
    and contents :: "'q \<Rightarrow> bytes"
    and room :: "'q \<Rightarrow> int"
    and put :: "'q \<Rightarrow> bytes \<Rightarrow> 'q option"
    and get :: "'q \<Rightarrow> int \<Rightarrow> bytes \<times> int \<times> 'q"
  assumes put_ok: "wf q \<Longrightarrow> put q d = Some q' \<Longrightarrow>
      wf q' \<and> contents q' = contents q @ d \<and> room q' = room q - int (length d)"
    and put_fails: "wf q \<Longrightarrow> put q d = None \<longleftrightarrow> d = [] \<or> room q < int (length d)"
    and get_ok: "wf q \<Longrightarrow> get q n = (out, len, q') \<Longrightarrow>
      wf q' \<and> out @ contents q' = contents q \<and> out = take (nat n) (contents q) \<and>
      len = min (int (length (contents q))) n \<and> room q' = room q + int (length out)"
begin

text \<open>First in, first out, over any run: what went in is what came out and what is left.\<close>

lemma fifo:
  "wf q \<Longrightarrow> run_queue put get ops q = Some (outs, q') \<Longrightarrow>
     wf q' \<and> contents q @ put_bytes ops = outs @ contents q' \<and>
     int (length (contents q')) + room q' = int (length (contents q)) + room q"
proof (induction ops arbitrary: q outs)
  case (Cons op ops)
  show ?case
  proof (cases op)
    case (Put d)
    then obtain q1 where q1: "put q d = Some q1" "run_queue put get ops q1 = Some (outs, q')"
      using Cons.prems(2) by (auto split: option.splits)
    show ?thesis using Cons.IH [OF _ q1(2)] put_ok [OF Cons.prems(1) q1(1)] Put by auto
  next
    case (Get n)
    obtain out len q1 where g: "get q n = (out, len, q1)" by (cases "get q n") auto
    then obtain outs1 where r: "run_queue put get ops q1 = Some (outs1, q')" "outs = out @ outs1"
      using Cons.prems(2) Get by auto
    have ok: "wf q1" "out @ contents q1 = contents q" "room q1 = room q + int (length out)"
      using get_ok [OF Cons.prems(1) g] by auto
    have len: "length (contents q) = length out + length (contents q1)"
      using arg_cong [OF ok(2), of length] by simp
    have IH: "wf q'" "contents q1 @ put_bytes ops = outs1 @ contents q'"
      "int (length (contents q')) + room q' = int (length (contents q1)) + room q1"
      using Cons.IH [OF ok(1) r(1)] by blast+
    have "contents q @ put_bytes (op # ops) = outs @ contents q'"
      unfolding ok(2) [symmetric] r(2) Get by (simp add: IH(2))
    then show ?thesis using IH(1,3) ok(3) len by simp
  qed
qed auto

end

section \<open>The ring buffer keeps it\<close>

definition rb_ok :: "ring_buffer \<Rightarrow> bool" where
  "rb_ok rbuf \<longleftrightarrow> rb_head rbuf < rb_size rbuf \<and> rb_tail rbuf < rb_size rbuf \<and>
     length (rb_buf rbuf) = rb_size rbuf + 1"

definition rb_contents :: "ring_buffer \<Rightarrow> bytes" where
  "rb_contents rbuf =
     map (\<lambda>i. rb_buf rbuf ! ((rb_head rbuf + i) mod rb_size rbuf)) [0..<ring_buffer_used rbuf]"

lemma wrap: "(a :: nat) < s \<Longrightarrow> b < s \<Longrightarrow> (a + b) mod s = (if a + b < s then a + b else a + b - s)"
  by (auto simp: mod_if)

lemma used_less: "rb_ok r \<Longrightarrow> ring_buffer_used r < rb_size r"
  by (auto simp: ring_buffer_used_def rb_ok_def)

lemma used_tail: "rb_ok r \<Longrightarrow> (rb_head r + ring_buffer_used r) mod rb_size r = rb_tail r"
  by (auto simp: ring_buffer_used_def rb_ok_def mod_add_right_eq)

lemma used_eqI:
  assumes "rb_head r < rb_size r" "u < rb_size r" "(rb_head r + u) mod rb_size r = rb_tail r"
  shows "ring_buffer_used r = u"
proof (cases "rb_head r + u < rb_size r")
  case True
  then have "rb_tail r = rb_head r + u" using assms(3) by simp
  then have "ring_buffer_used r = (u + rb_size r) mod rb_size r"
    unfolding ring_buffer_used_def by (simp add: algebra_simps)
  then show ?thesis using assms(2) by simp
next
  case False
  then have "rb_tail r = rb_head r + u - rb_size r" using assms by (simp add: wrap)
  then have "ring_buffer_used r = u mod rb_size r"
    unfolding ring_buffer_used_def using False by simp
  then show ?thesis using assms(2) by simp
qed

lemma nth_slice: "i + n \<le> length p \<Longrightarrow> k < n \<Longrightarrow> slice i n p ! k = p ! (i + k)"
  by (simp add: slice_def)

lemma read_out:
  assumes "rb_ok r" "n \<le> ring_buffer_used r"
  shows "(if rb_size r < rb_head r + n
      then slice (rb_head r) (rb_size r - rb_head r) (rb_buf r) @ slice 0 (n - (rb_size r - rb_head r)) (rb_buf r)
      else slice (rb_head r) n (rb_buf r)) = take n (rb_contents r)" (is "?out = _")
proof (rule nth_equalityI)
  have b: "rb_head r < rb_size r" "length (rb_buf r) = rb_size r + 1" "n < rb_size r"
    using assms used_less [OF assms(1)] by (simp_all add: rb_ok_def)
  show len: "length ?out = length (take n (rb_contents r))"
    using b assms(2) by (auto simp: slice_def rb_contents_def)
  fix k assume "k < length ?out"
  then have k: "k < n" using len assms(2) by (simp add: rb_contents_def)
  then have "take n (rb_contents r) ! k = rb_buf r ! ((rb_head r + k) mod rb_size r)"
    using assms(2) by (simp add: rb_contents_def)
  also have "(rb_head r + k) mod rb_size r = (if rb_head r + k < rb_size r then rb_head r + k else rb_head r + k - rb_size r)"
    using b k by (intro wrap) simp_all
  finally show "?out ! k = take n (rb_contents r) ! k"
    using b k by (auto simp: nth_append slice_def intro!: arg_cong [where f = "(!) (rb_buf r)"])
qed

lemma read_ok:
  assumes "rb_ok r" "read_ring_buffer r sz = (out, len, r')"
  shows "rb_ok r' \<and> out @ rb_contents r' = rb_contents r \<and> out = take (nat sz) (rb_contents r) \<and>
    len = min (int (length (rb_contents r))) sz \<and> ring_buffer_free r' = ring_buffer_free r + int (length out)"
proof -
  let ?u = "ring_buffer_used r"
  have lc: "length (rb_contents r) = ?u" by (simp add: rb_contents_def)
  show ?thesis
  proof (cases "0 < min (int ?u) sz")
    case False
    then have "r' = r" "out = []" "len = min (int ?u) sz" using assms(2) by (auto simp: read_ring_buffer_def Let_def)
    moreover have "take (nat sz) (rb_contents r) = []" using False lc by auto
    ultimately show ?thesis using assms(1) lc by simp
  next
    case True
    define n where "n = nat (min (int ?u) sz)"
    have n: "n \<le> ?u" "n = min ?u (nat sz)" "int n = min (int ?u) sz" using True by (auto simp: n_def)
    have out: "out = take n (rb_contents r)" and len: "len = int n"
      and r': "r' = r \<lparr>rb_head := (rb_head r + n) mod rb_size r\<rparr>"
      using assms(2) True read_out [OF assms(1) n(1)] n(3)
      by (auto simp: read_ring_buffer_def Let_def n_def [symmetric])
    have b: "rb_head r < rb_size r" "?u < rb_size r" "n < rb_size r"
      using assms(1) used_less [OF assms(1)] n(1) by (simp_all add: rb_ok_def)
    have ok: "rb_ok r'" using assms(1) b by (auto simp: rb_ok_def r')
    have "((rb_head r + n) mod rb_size r + (?u - n)) mod rb_size r = (rb_head r + n + (?u - n)) mod rb_size r"
      by (rule mod_add_left_eq)
    then have "((rb_head r + n) mod rb_size r + (?u - n)) mod rb_size r = rb_tail r"
      using used_tail [OF assms(1)] n(1) by simp
    then have u': "ring_buffer_used r' = ?u - n"
      using ok b by (intro used_eqI) (auto simp: r' rb_ok_def)
    have "rb_contents r' = drop n (rb_contents r)"
    proof (rule nth_equalityI)
      fix i assume "i < length (rb_contents r')"
      then have i: "i < ?u - n" by (simp add: rb_contents_def u')
      have "((rb_head r + n) mod rb_size r + i) mod rb_size r = (rb_head r + (n + i)) mod rb_size r"
        by (simp add: mod_add_left_eq add.assoc)
      then show "rb_contents r' ! i = drop n (rb_contents r) ! i"
        using i by (simp add: rb_contents_def u') (simp add: r')
    qed (simp add: rb_contents_def u')
    moreover have "take n (rb_contents r) = take (nat sz) (rb_contents r)"
      unfolding n(2) using lc by (simp add: min_def)
    moreover have "int (length out) = int n" using out n(1) lc by simp
    moreover have "ring_buffer_free r' = ring_buffer_free r + int n"
      using u' n(1) by (simp add: ring_buffer_free_def r')
    moreover have "out @ drop n (rb_contents r) = rb_contents r" unfolding out by simp
    ultimately show ?thesis using ok out len n(3) lc by simp
  qed
qed

text \<open>The cells after a write: the written ones hold the data, the others are as before.\<close>

lemma write_cells:
  assumes "rb_ok r" "write_ring_buffer r d = Some r'" "j < rb_size r"
  shows "rb_buf r' ! j = (if rb_tail r \<le> j \<and> j < rb_tail r + length d then d ! (j - rb_tail r)
    else if j + rb_size r < rb_tail r + length d then d ! (j + rb_size r - rb_tail r) else rb_buf r ! j)"
    "length (rb_buf r') = length (rb_buf r)"
proof -
  have b: "rb_tail r < rb_size r" "length (rb_buf r) = rb_size r + 1" "length d < rb_size r"
    using assms by (auto simp: rb_ok_def write_ring_buffer_def Let_def ring_buffer_free_def split: if_splits)
  have r': "rb_buf r' = (if rb_size r < rb_tail r + length d
      then blit (blit (rb_buf r) (rb_tail r) (take (rb_size r - rb_tail r) d)) 0 (drop (rb_size r - rb_tail r) d)
      else blit (rb_buf r) (rb_tail r) d)"
    using assms(2) by (auto simp: write_ring_buffer_def Let_def split: if_splits)
  show "rb_buf r' ! j = (if rb_tail r \<le> j \<and> j < rb_tail r + length d then d ! (j - rb_tail r)
    else if j + rb_size r < rb_tail r + length d then d ! (j + rb_size r - rb_tail r) else rb_buf r ! j)"
    unfolding r' using b assms(3)
    by (auto simp: nth_blit length_blit intro!: arg_cong [where f = "(!) d"])
  show "length (rb_buf r') = length (rb_buf r)"
    unfolding r' using b by (simp add: length_blit)
qed

lemma write_ok:
  assumes "rb_ok r" "write_ring_buffer r d = Some r'"
  shows "rb_ok r' \<and> rb_contents r' = rb_contents r @ d \<and> ring_buffer_free r' = ring_buffer_free r - int (length d)"
proof -
  let ?u = "ring_buffer_used r" and ?s = "rb_size r" and ?n = "length d"
  have r': "rb_size r' = ?s" "rb_head r' = rb_head r" "rb_tail r' = (rb_tail r + ?n) mod ?s"
    and n: "?u + ?n < ?s"
    using assms(2) by (auto simp: write_ring_buffer_def Let_def ring_buffer_free_def split: if_splits)
  have b: "rb_head r < ?s" "rb_tail r < ?s" using assms(1) by (simp_all add: rb_ok_def)
  have ok: "rb_ok r'" using assms b write_cells(2) [OF assms b(1)] by (simp add: rb_ok_def r')
  have "(rb_head r + (?u + ?n)) mod ?s = ((rb_head r + ?u) mod ?s + ?n) mod ?s"
    by (simp add: mod_add_left_eq add.assoc)
  then have u': "ring_buffer_used r' = ?u + ?n"
    using n b by (intro used_eqI) (simp_all add: r' used_tail [OF assms(1)])
  have "rb_contents r' = rb_contents r @ d"
  proof (rule nth_equalityI)
    fix i assume "i < length (rb_contents r')"
    then have i: "i < ?u + ?n" by (simp add: rb_contents_def u')
    let ?j = "(rb_head r + i) mod ?s"
    have j: "?j < ?s" using b by simp
    have "rb_contents r' ! i = rb_buf r' ! ?j" using i by (simp add: rb_contents_def u' r')
    also note write_cells(1) [OF assms j]
    also have "(if rb_tail r \<le> ?j \<and> ?j < rb_tail r + ?n then d ! (?j - rb_tail r)
        else if ?j + ?s < rb_tail r + ?n then d ! (?j + ?s - rb_tail r) else rb_buf r ! ?j) =
        (if i < ?u then rb_buf r ! ?j else d ! (i - ?u))"
    proof -
      have t: "rb_tail r = (if rb_head r + ?u < ?s then rb_head r + ?u else rb_head r + ?u - ?s)"
        using used_tail [OF assms(1)] wrap [OF b(1), of ?u] n by simp
      have j: "?j = (if rb_head r + i < ?s then rb_head r + i else rb_head r + i - ?s)"
        using b n i by (intro wrap) simp_all
      show ?thesis unfolding t j using n b i
        by (auto intro!: arg_cong [where f = "(!) d"])
    qed
    finally show "rb_contents r' ! i = (rb_contents r @ d) ! i"
      by (simp add: rb_contents_def nth_append)
  qed (simp add: rb_contents_def u')
  then show ?thesis using ok u' r' by (simp add: ring_buffer_free_def)
qed

lemma write_None: "write_ring_buffer r d = None \<longleftrightarrow> d = [] \<or> ring_buffer_free r < int (length d)"
  by (auto simp: write_ring_buffer_def Let_def)

interpretation rb: byte_queue rb_ok rb_contents ring_buffer_free write_ring_buffer read_ring_buffer
proof
  show "rb_ok q' \<and> rb_contents q' = rb_contents q @ d \<and> ring_buffer_free q' = ring_buffer_free q - int (length d)"
    if "rb_ok q" "write_ring_buffer q d = Some q'" for q d q'
    using that by (rule write_ok)
  show "rb_ok q' \<and> out @ rb_contents q' = rb_contents q \<and> out = take (nat n) (rb_contents q) \<and>
      len = min (int (length (rb_contents q))) n \<and> ring_buffer_free q' = ring_buffer_free q + int (length out)"
    if "rb_ok q" "read_ring_buffer q n = (out, len, q')" for q n out len q'
    using that by (rule read_ok)
qed (rule write_None)

section \<open>Properties\<close>

text \<open>C15. The ring buffer is a queue of bytes: over every run of writes and reads on a buffer
  of a positive size, the bytes that were written are those that were read followed by those
  still inside, in the same order; at most one byte less than the size is ever inside.\<close>

theorem ring_buffer_fifo:
  assumes "0 < n" "run_queue write_ring_buffer read_ring_buffer ops (alloc_ring_buffer n) = Some (outs, r)"
  shows "put_bytes ops = outs @ rb_contents r \<and>
    int (length (rb_contents r)) + ring_buffer_free r = int n - 1 \<and> ring_buffer_used r = length (rb_contents r)"
proof -
  have "rb_ok (alloc_ring_buffer n)" "rb_contents (alloc_ring_buffer n) = []"
    "ring_buffer_free (alloc_ring_buffer n) = int n - 1"
    using assms(1) by (simp_all add: rb_ok_def rb_contents_def ring_buffer_free_def ring_buffer_used_def alloc_ring_buffer_def)
  then show ?thesis using rb.fifo [OF _ assms(2)] by (auto simp: rb_contents_def)
qed

lemma ring_buffer_fifo_witness:
  "\<exists>r. run_queue write_ring_buffer read_ring_buffer [Put [1, 2, 3], Get 2, Put [4, 5], Get 9] (alloc_ring_buffer 4) =
     Some ([1, 2, 3, 4, 5], r) \<and> rb_contents r = []"
proof -
  let ?run = "run_queue write_ring_buffer read_ring_buffer [Put [1, 2, 3], Get 2, Put [4, 5], Get 9] (alloc_ring_buffer 4)"
  have "map_option fst ?run = Some [1, 2, 3, 4, 5]" by code_simp
  then obtain r where r: "?run = Some ([1, 2, 3, 4, 5], r)" by auto
  show ?thesis using ring_buffer_fifo [OF _ r] r by auto
qed

end
