(* ===== verification/NatTable.thy ===== *)
theory NatTable imports IpPacket begin

text \<open>The address translator of \<open>exp8/code/nt.c\<close>. The route lookup of the precompiled library
  is the argument \<open>lpm\<close>, which maps an address to the name of the interface of its route;
  \<open>ip_send_packet\<close> and \<open>icmp_send_packet\<close> of that library are the outputs. Time is counted by
  the sweeps, as the code does.\<close>

section \<open>Data\<close>

record nat_connection =
  internal_fin :: u8
  external_fin :: u8
  internal_seq_end :: u32
  external_seq_end :: u32
  internal_ack :: u32
  external_ack :: u32

record nat_mapping =
  internal_ip :: u32
  external_ip :: u32
  internal_port :: u16
  external_port :: u16
  update_time :: int
  conn :: nat_connection

text \<open>The table; \<open>next_port\<close> is the static variable of \<open>assign_external_port\<close>. Of the two
  interfaces the code reads the names and the external address.\<close>

record nat_table =
  nat_mapping_list :: "nat_mapping list list"
  internal_name :: string
  external_name :: string
  external_addr :: u32
  assigned_ports :: "u16 \<Rightarrow> u8"
  next_port :: u16

datatype packet_dir = DIR_IN | DIR_OUT | DIR_INVALID

datatype nat_output = IpSend bytes | IcmpSend bytes u8 u8

text \<open>\<open>hash8\<close> of \<open>include/hash.h\<close> on the four bytes of an address.\<close>

definition hash8_buf :: "u8 list \<Rightarrow> u8" where
  "hash8_buf buf = fold (\<lambda>b result. result XOR b) buf 0"

definition addr_key :: "u32 \<Rightarrow> nat" where
  "addr_key a = unat (hash8_buf (map (\<lambda>i. ucast (drop_bit (8 * i) a)) [0..<4]))"

section \<open>Operations\<close>

definition get_packet_direction :: "(u32 \<Rightarrow> string option) \<Rightarrow> nat_table \<Rightarrow> bytes \<Rightarrow> packet_dir" where
  "get_packet_direction lpm nt packet =
     (let saddr = ntohl (ip_saddr packet); daddr = ntohl (ip_daddr packet)
      in case (lpm saddr, lpm daddr) of
           (Some s, Some d) \<Rightarrow>
             if s = internal_name nt \<and> d = external_name nt then DIR_OUT
             else if s = external_name nt \<and> d = external_name nt then DIR_IN
             else DIR_INVALID
         | _ \<Rightarrow> DIR_INVALID)"

text \<open>The scan of \<open>assign_external_port\<close> from the last port on; it passes over port 0. The
  result is the offset where it stops.\<close>

function find_free_port :: "(u16 \<Rightarrow> u8) \<Rightarrow> u16 \<Rightarrow> nat \<Rightarrow> nat option" where
  "find_free_port assigned port i =
     (if i < 65536 then
        if (unat port + i) mod 65536 = 0 then find_free_port assigned port (i + 1)
        else if assigned (of_nat ((unat port + i) mod 65536)) = 0 then Some i
        else find_free_port assigned port (i + 1)
      else None)"
  by pat_completeness auto
termination by (relation "measure (\<lambda>(a, p, i). 65536 - i)") auto

declare find_free_port.simps [simp del]

definition assign_external_port :: "nat_table \<Rightarrow> nat_table \<times> u16" where
  "assign_external_port nt =
     (case find_free_port (assigned_ports nt) (next_port nt) 0 of
        Some i \<Rightarrow>
          let port = of_nat ((unat (next_port nt) + i) mod 65536)
          in (nt \<lparr>next_port := port, assigned_ports := (assigned_ports nt)(port := 1)\<rparr>, port)
      | None \<Rightarrow> (nt, - 1))"

text \<open>The search of a chain for the mapping of a remote address.\<close>

fun find_mapping :: "u32 \<Rightarrow> nat_mapping list \<Rightarrow> nat option" where
  "find_mapping a [] = None"
| "find_mapping a (m # ms) = (if external_ip m = a then Some 0 else map_option Suc (find_mapping a ms))"

definition no_connection :: nat_connection where
  "no_connection = \<lparr>internal_fin = 0, external_fin = 0, internal_seq_end = 0, external_seq_end = 0,
     internal_ack = 0, external_ack = 0\<rparr>"

definition tcp_flag :: "bytes \<Rightarrow> u8 \<Rightarrow> bool" where
  "tcp_flag packet f \<longleftrightarrow> th_flags packet (ip_data packet) AND f \<noteq> 0"

definition update_out :: "bytes \<Rightarrow> nat_mapping \<Rightarrow> nat_mapping" where
  "update_out packet m =
     (let m = m \<lparr>update_time := 0\<rparr>;
          c = conn m;
          c = (if tcp_flag packet TCP_FIN then c \<lparr>internal_fin := 1\<rparr> else c);
          c = (if tcp_flag packet TCP_ACK then c \<lparr>internal_ack := 1\<rparr> else c);
          c = (if tcp_flag packet TCP_RST then c \<lparr>internal_fin := 1, internal_ack := 1,
                 external_fin := 1, external_ack := 1\<rparr> else c)
      in m \<lparr>conn := c\<rparr>)"

definition update_in :: "bytes \<Rightarrow> nat_mapping \<Rightarrow> nat_mapping" where
  "update_in packet m =
     (let m = m \<lparr>update_time := 0\<rparr>;
          c = conn m;
          c = (if tcp_flag packet TCP_FIN then c \<lparr>external_fin := 1\<rparr> else c);
          c = (if tcp_flag packet TCP_ACK then c \<lparr>external_ack := 1\<rparr> else c);
          c = (if tcp_flag packet TCP_RST then c \<lparr>external_fin := 1, external_ack := 1,
                 internal_fin := 1, internal_ack := 1\<rparr> else c)
      in m \<lparr>conn := c\<rparr>)"

definition rewrite_source :: "u32 \<Rightarrow> u16 \<Rightarrow> bytes \<Rightarrow> bytes" where
  "rewrite_source addr port p =
     (let p = st32 p 26 (htonl addr);
          p = st16 p (ip_data p) (htons port);
          p = set_tcp_checksum p
      in set_ip_checksum p)"

definition rewrite_dest :: "u32 \<Rightarrow> u16 \<Rightarrow> bytes \<Rightarrow> bytes" where
  "rewrite_dest addr port p =
     (let p = st32 p 30 (htonl addr);
          p = st16 p (ip_data p + 2) (htons port);
          p = set_tcp_checksum p
      in set_ip_checksum p)"

text \<open>The two cases of \<open>do_translation\<close>, which computes the direction again.\<close>

definition translate_out :: "nat_table \<Rightarrow> bytes \<Rightarrow> nat_table \<times> nat_output list" where
  "translate_out nt packet =
     (let daddr = ntohl (ip_daddr packet);
          key = addr_key daddr;
          (nt, i) =
            (case find_mapping daddr (nat_mapping_list nt ! key) of
               Some i \<Rightarrow> (nt, i)
             | None \<Rightarrow>
                 let (nt, port) = assign_external_port nt;
                     new = \<lparr>internal_ip = ntohl (ip_saddr packet), external_ip = daddr,
                            internal_port = ntohs (th_sport packet (ip_data packet)),
                            external_port = port, update_time = 0, conn = no_connection\<rparr>;
                     ms = nat_mapping_list nt ! key
                 in (nt \<lparr>nat_mapping_list := (nat_mapping_list nt)[key := ms @ [new]]\<rparr>, length ms));
          ms = nat_mapping_list nt ! key;
          m = update_out packet (ms ! i);
          nt = nt \<lparr>nat_mapping_list := (nat_mapping_list nt)[key := ms[i := m]]\<rparr>
      in (nt, [IpSend (rewrite_source (external_addr nt) (external_port m) packet)]))"

definition translate_in :: "nat_table \<Rightarrow> bytes \<Rightarrow> nat_table \<times> nat_output list" where
  "translate_in nt packet =
     (let saddr = ntohl (ip_saddr packet);
          key = addr_key saddr;
          ms = nat_mapping_list nt ! key
      in case find_mapping saddr ms of
           None \<Rightarrow> (nt, [])
         | Some i \<Rightarrow>
             let m = update_in packet (ms ! i)
             in (nt \<lparr>nat_mapping_list := (nat_mapping_list nt)[key := ms[i := m]]\<rparr>,
                 [IpSend (rewrite_dest (internal_ip m) (internal_port m) packet)]))"

definition do_translation ::
    "(u32 \<Rightarrow> string option) \<Rightarrow> nat_table \<Rightarrow> bytes \<Rightarrow> nat_table \<times> nat_output list" where
  "do_translation lpm nt packet =
     (case get_packet_direction lpm nt packet of
        DIR_OUT \<Rightarrow> translate_out nt packet
      | DIR_IN \<Rightarrow> translate_in nt packet
      | DIR_INVALID \<Rightarrow> (nt, []))"

definition nat_translate_packet ::
    "(u32 \<Rightarrow> string option) \<Rightarrow> nat_table \<Rightarrow> bytes \<Rightarrow> nat_table \<times> nat_output list" where
  "nat_translate_packet lpm nt packet =
     (if get_packet_direction lpm nt packet = DIR_INVALID then (nt, [IcmpSend packet 3 1])
      else if ip_protocol packet \<noteq> IPPROTO_TCP then (nt, [])
      else do_translation lpm nt packet)"

text \<open>One round of \<open>nat_timeout\<close>.\<close>

definition conn_end :: "nat_connection \<Rightarrow> bool" where
  "conn_end c \<longleftrightarrow> external_fin c \<noteq> 0 \<and> internal_fin c \<noteq> 0 \<and> external_ack c \<noteq> 0 \<and> internal_ack c \<noteq> 0"

fun sweep_mappings :: "nat_mapping list \<Rightarrow> nat_mapping list" where
  "sweep_mappings [] = []"
| "sweep_mappings (m # ms) =
     (let m = m \<lparr>update_time := update_time m + 1\<rparr>
      in if update_time m \<ge> 60 \<or> conn_end (conn m) then sweep_mappings ms
         else m # sweep_mappings ms)"

definition nat_timeout :: "nat_table \<Rightarrow> nat_table" where
  "nat_timeout nt = nt \<lparr>nat_mapping_list := map sweep_mappings (nat_mapping_list nt)\<rparr>"

text \<open>\<open>nat_table_init\<close>; \<open>if_name_to_iface\<close> finds an interface by name, and the program exits
  when one of the two is missing.\<close>

fun if_name_to_iface :: "(string \<times> u32) list \<Rightarrow> string \<Rightarrow> (string \<times> u32) option" where
  "if_name_to_iface [] name = None"
| "if_name_to_iface (i # is) name = (if fst i = name then Some i else if_name_to_iface is name)"

definition nat_table_init :: "(string \<times> u32) list \<Rightarrow> nat_table option" where
  "nat_table_init ifaces =
     (case (if_name_to_iface ifaces ''n1-eth0'', if_name_to_iface ifaces ''n1-eth1'') of
        (Some i, Some e) \<Rightarrow>
          Some \<lparr>nat_mapping_list = replicate 256 [], internal_name = fst i, external_name = fst e,
                external_addr = snd e, assigned_ports = (\<lambda>_. 0), next_port = 1\<rparr>
      | _ \<Rightarrow> None)"

text \<open>\<open>nat_table_destroy\<close>: the mappings in the order of their \<open>free\<close>.\<close>

definition nat_table_destroy :: "nat_table \<Rightarrow> nat_table \<times> nat_mapping list" where
  "nat_table_destroy nt =
     (nt \<lparr>nat_mapping_list := map (\<lambda>ms. []) (nat_mapping_list nt)\<rparr>, concat (nat_mapping_list nt))"

section \<open>The port pool\<close>

lemma find_free_port_Some:
  "find_free_port a p i = Some j \<Longrightarrow> j < 65536 \<and> (unat p + j) mod 65536 \<noteq> 0 \<and>
     a (of_nat ((unat p + j) mod 65536)) = 0"
  by (induction a p i rule: find_free_port.induct)
    (subst (asm) (2) find_free_port.simps, auto split: if_splits)

lemma find_free_port_None:
  "find_free_port a p i = None \<Longrightarrow> i \<le> j \<Longrightarrow> j < 65536 \<Longrightarrow>
     (unat p + j) mod 65536 = 0 \<or> a (of_nat ((unat p + j) mod 65536)) \<noteq> 0"
proof (induction a p i rule: find_free_port.induct)
  case (1 a p i)
  have none: "find_free_port a p (i + 1) = None \<and>
      ((unat p + i) mod 65536 = 0 \<or> a (of_nat ((unat p + i) mod 65536)) \<noteq> 0)"
    using 1(3) "1.prems"(2,3) by (subst (asm) find_free_port.simps) (auto split: if_splits)
  show ?case
  proof (cases "i = j")
    case True
    then show ?thesis using none by simp
  next
    case False
    then have j: "i + 1 \<le> j" "i < 65536" using "1.prems" by simp_all
    show ?thesis
    proof (cases "(unat p + i) mod 65536 = 0")
      case True
      show ?thesis by (rule "1.IH"(1) [OF j(2) True conjunct1 [OF none] j(1) "1.prems"(3)])
    next
      case False
      have used: "\<not> a (of_nat ((unat p + i) mod 65536)) = 0"
        by (rule disjE [OF conjunct2 [OF none]]) (use False in \<open>simp_all only: not_False_eq_True\<close>)
      show ?thesis
        by (rule "1.IH"(2) [OF j(2) False used conjunct1 [OF none] j(1) "1.prems"(3)])
    qed
  qed
qed

text \<open>Every port is at some offset from the last one.\<close>

lemma port_offset: "\<exists>j < 65536. of_nat ((unat (p :: u16) + j) mod 65536) = (q :: u16)"
proof (intro exI conjI)
  let ?j = "(unat q + (65536 - unat p)) mod 65536"
  have p: "unat p < 65536" "unat q < 65536"
    using unsigned_less [of p, where 'a = nat] unsigned_less [of q, where 'a = nat] by simp_all
  show "?j < 65536" by simp
  have "(unat p + ?j) mod 65536 = (unat p + (unat q + (65536 - unat p))) mod 65536"
    by (simp only: mod_add_right_eq)
  also have "unat p + (unat q + (65536 - unat p)) = unat q + 65536" using p by simp
  also have "(unat q + 65536) mod 65536 = unat q" using p by simp
  finally show "of_nat ((unat p + ?j) mod 65536) = q" by simp
qed

lemma of_nat_port_0: "n < 65536 \<Longrightarrow> (of_nat n :: u16) = 0 \<longleftrightarrow> n = 0"
proof -
  assume "n < 65536"
  then have "unat (of_nat n :: u16) = n" by (simp add: unat_of_nat)
  then show ?thesis by (simp only: word_unat_eq_iff unsigned_0)
qed

lemma assign_external_port_cases:
  obtains (free) port where "assign_external_port nt =
      (nt \<lparr>next_port := port, assigned_ports := (assigned_ports nt)(port := 1)\<rparr>, port)"
      "port \<noteq> 0" "assigned_ports nt port = 0"
  | (full) "assign_external_port nt = (nt, 0xffff)" "\<forall>q. q \<noteq> 0 \<longrightarrow> assigned_ports nt q \<noteq> 0"
proof (cases "find_free_port (assigned_ports nt) (next_port nt) 0")
  case (Some i)
  let ?n = "(unat (next_port nt) + i) mod 65536"
  have "?n \<noteq> 0" "assigned_ports nt (of_nat ?n) = 0"
    using find_free_port_Some [OF Some] by simp_all
  moreover have "(of_nat ?n :: u16) \<noteq> 0" using of_nat_port_0 [of ?n] calculation by simp
  ultimately show ?thesis
    using Some by (intro free [of "of_nat ?n"]) (simp_all add: assign_external_port_def Let_def)
next
  case None
  have "assigned_ports nt q \<noteq> 0" if "q \<noteq> 0" for q
  proof -
    obtain j where j: "j < 65536" "of_nat ((unat (next_port nt) + j) mod 65536) = q"
      using port_offset [of "next_port nt" q] by blast
    have "(unat (next_port nt) + j) mod 65536 \<noteq> 0"
    proof
      assume "(unat (next_port nt) + j) mod 65536 = 0"
      with j(2) have "q = of_nat 0" by (simp only:)
      then show False using that by simp
    qed
    then show ?thesis using find_free_port_None [OF None _ j(1)] j(2) by auto
  qed
  then show ?thesis using None by (intro full) (simp_all add: assign_external_port_def)
qed

text \<open>C24. Assigning a port terminates. As long as a port other than 0 is free, the result is a
  port other than 0 that was free, and exactly that port becomes assigned; once every port is
  assigned, the table does not change and every caller gets port 65535, which another mapping
  already uses.\<close>

theorem assign_external_port_spec:
  "case assign_external_port nt of (nt', port) \<Rightarrow>
     if \<exists>q. q \<noteq> 0 \<and> assigned_ports nt q = 0
     then port \<noteq> 0 \<and> assigned_ports nt port = 0 \<and>
       nt' = nt \<lparr>next_port := port, assigned_ports := (assigned_ports nt)(port := 1)\<rparr>
     else port = 0xffff \<and> nt' = nt"
  by (rule assign_external_port_cases [of nt]) auto

section \<open>Translation\<close>

definition nat_inv :: "nat_table \<Rightarrow> bool" where
  "nat_inv nt \<longleftrightarrow> length (nat_mapping_list nt) = 256"

definition mapping_of :: "nat_table \<Rightarrow> u32 \<Rightarrow> nat_mapping option" where
  "mapping_of nt a =
     (let ms = nat_mapping_list nt ! addr_key a in map_option (\<lambda>i. ms ! i) (find_mapping a ms))"

lemma addr_key_less [simp]: "addr_key a < 256"
  using unsigned_less [of "hash8_buf (map (\<lambda>i. ucast (drop_bit (8 * i) a)) [0..<4])", where 'a = nat]
  by (simp add: addr_key_def)

lemma find_mapping_Some:
  "find_mapping a ms = Some i \<Longrightarrow> i < length ms \<and> external_ip (ms ! i) = a"
  by (induction ms arbitrary: i) (auto split: if_splits)

lemma find_mapping_append:
  "find_mapping a ms = None \<Longrightarrow> find_mapping a (ms @ [m]) =
     (if external_ip m = a then Some (length ms) else None)"
  by (induction ms) (auto split: if_splits)

lemma find_mapping_update:
  "find_mapping a ms = Some i \<Longrightarrow> external_ip m = a \<Longrightarrow> find_mapping a (ms[i := m]) = Some i"
  by (induction ms arbitrary: i) (auto split: if_splits nat.splits)

lemma update_out_frame [frame, simp]:
  "internal_ip (update_out p m) = internal_ip m" "external_ip (update_out p m) = external_ip m"
  "internal_port (update_out p m) = internal_port m" "external_port (update_out p m) = external_port m"
  by (simp_all add: update_out_def Let_def)

lemma update_in_frame [frame, simp]:
  "internal_ip (update_in p m) = internal_ip m" "external_ip (update_in p m) = external_ip m"
  "internal_port (update_in p m) = internal_port m" "external_port (update_in p m) = external_port m"
  by (simp_all add: update_in_def Let_def)

lemma assign_external_port_frame [frame]:
  "nat_mapping_list (fst (assign_external_port nt)) = nat_mapping_list nt"
  "external_addr (fst (assign_external_port nt)) = external_addr nt"
  by (cases nt rule: assign_external_port_cases; simp)+

text \<open>An outgoing packet leaves a mapping of its remote address, the old one or a new one for
  its source, and carries the mapping's port.\<close>

lemma translate_out_mapping:
  fixes p :: bytes
  assumes "nat_inv nt"
  defines "daddr \<equiv> ntohl (ip_daddr p)"
  shows "nat_inv (fst (translate_out nt p)) \<and>
    (\<exists>m'. mapping_of (fst (translate_out nt p)) daddr = Some m' \<and>
      snd (translate_out nt p) = [IpSend (rewrite_source (external_addr nt) (external_port m') p)] \<and>
      (case mapping_of nt daddr of
         Some m \<Rightarrow> internal_ip m' = internal_ip m \<and> internal_port m' = internal_port m \<and>
           external_port m' = external_port m
       | None \<Rightarrow> internal_ip m' = ntohl (ip_saddr p) \<and>
           internal_port m' = ntohs (th_sport p (ip_data p)) \<and>
           external_port m' = snd (assign_external_port nt)))"
proof (cases "find_mapping daddr (nat_mapping_list nt ! addr_key daddr)")
  case (Some i)
  let ?ms = "nat_mapping_list nt ! addr_key daddr"
  have i: "i < length ?ms" "external_ip (?ms ! i) = daddr" using find_mapping_Some [OF Some] by simp_all
  have upd: "find_mapping daddr (?ms[i := update_out p (?ms ! i)]) = Some i"
    using find_mapping_update [OF Some] i by simp
  have "addr_key daddr < length (nat_mapping_list nt)" using assms(1) by (simp add: nat_inv_def)
  then show ?thesis
    using Some i upd assms(1) unfolding translate_out_def daddr_def [symmetric]
    by (simp add: Let_def mapping_of_def nat_inv_def)
next
  case None
  let ?ms = "nat_mapping_list nt ! addr_key daddr"
  obtain nt1 port where port: "assign_external_port nt = (nt1, port)" by (cases "assign_external_port nt")
  have nt1: "nat_mapping_list nt1 = nat_mapping_list nt" "external_addr nt1 = external_addr nt"
    using assign_external_port_frame [of nt] port by simp_all
  define new where "new = \<lparr>internal_ip = ntohl (ip_saddr p), external_ip = daddr,
    internal_port = ntohs (th_sport p (ip_data p)), external_port = port, update_time = 0,
    conn = no_connection\<rparr>"
  have new: "internal_ip new = ntohl (ip_saddr p)" "external_ip new = daddr"
    "internal_port new = ntohs (th_sport p (ip_data p))" "external_port new = port"
    by (simp_all add: new_def)
  have upd: "find_mapping daddr (?ms @ [update_out p new]) = Some (length ?ms)"
    using find_mapping_append [OF None] new by simp
  have "addr_key daddr < length (nat_mapping_list nt)" using assms(1) by (simp add: nat_inv_def)
  then show ?thesis
    using None upd new assms(1) nt1 unfolding translate_out_def daddr_def [symmetric]
    by (simp add: Let_def mapping_of_def nat_inv_def port new_def [symmetric])
qed

lemma translate_in_mapping:
  assumes "mapping_of nt (ntohl (ip_saddr q)) = Some m"
  shows "snd (translate_in nt q) = [IpSend (rewrite_dest (internal_ip m) (internal_port m) q)]"
  using assms by (auto simp: mapping_of_def translate_in_def Let_def split: option.splits)

text \<open>The headers of a rewritten packet.\<close>

definition tcp_fits :: "bytes \<Rightarrow> bool" where
  "tcp_fits p \<longleftrightarrow> ip_hdr_ok p \<and> ip_data p + 20 \<le> length p"

lemma ip_data_ge: "ip_hdr_ok p \<Longrightarrow> 34 \<le> ip_data p"
  by (simp add: ip_hdr_ok_def ip_data_def ETHER_HDR_SIZE_def IP_HDR_SIZE_def)

lemma ip_data_st:
  "14 < i \<Longrightarrow> ip_data (st16 p i v) = ip_data p" "14 < i \<Longrightarrow> ip_data (st32 p i w) = ip_data p"
  by (simp_all add: ip_data_def IP_HDR_SIZE_def ip_ihl_def ld_st_apart apart_def)

lemma ip_hdr_ok_st:
  "14 < i \<Longrightarrow> ip_hdr_ok (st16 p i v) = ip_hdr_ok p" "14 < i \<Longrightarrow> ip_hdr_ok (st32 p i w) = ip_hdr_ok p"
  by (simp_all add: ip_hdr_ok_def IP_HDR_SIZE_def ip_ihl_def ld_st_apart apart_def)

lemma rewrite_dest_fields:
  assumes "tcp_fits p"
  shows "ntohl (ip_daddr (rewrite_dest a port p)) = a \<and>
    ntohs (th_dport (rewrite_dest a port p) (ip_data p)) = port \<and>
    ip_verifies (rewrite_dest a port p) \<and> length (rewrite_dest a port p) = length p"
proof -
  let ?t = "ip_data p"
  let ?p1 = "st32 p 30 (htonl a)"
  let ?p2 = "st16 ?p1 (?t + 2) (htons port)"
  have t: "34 \<le> ?t" "?t + 20 \<le> length p" "ip_hdr_ok p"
    using assms ip_data_ge by (simp_all add: tcp_fits_def)
  have d: "ip_data ?p1 = ?t" "ip_data ?p2 = ?t" using t by (simp_all add: ip_data_st)
  have eq: "rewrite_dest a port p = set_ip_checksum (set_tcp_checksum ?p2)"
    by (simp add: rewrite_dest_def Let_def d)
  have ok: "ip_hdr_ok (set_tcp_checksum ?p2)"
    using t d by (simp add: set_tcp_checksum_def ip_hdr_ok_st)
  have "ntohl (ip_daddr (set_tcp_checksum ?p2)) = a"
    unfolding set_tcp_checksum_def d ip_daddr_def using t by (simp add: ld_st_apart apart_def)
  moreover have "ntohs (th_dport (set_ip_checksum (set_tcp_checksum ?p2)) ?t) = port"
    unfolding set_ip_checksum_def set_tcp_checksum_def d th_dport_def
    using t by (simp add: ld_st_apart apart_def)
  ultimately show ?thesis
    unfolding eq using set_ip_checksum_verifies [OF ok] by simp
qed

text \<open>C11. A reply finds its way back: after the first outgoing packet to a remote address, any
  packet from that address leaves with the internal address and port of the outgoing packet as
  its destination, and with an IP header whose checksum verifies.\<close>

theorem nat_round_trip:
  assumes "nat_inv nt" "mapping_of nt (ntohl (ip_daddr p)) = None"
    and "ip_saddr q = ip_daddr p" "tcp_fits q"
  shows "\<exists>q'. snd (translate_in (fst (translate_out nt p)) q) = [IpSend q'] \<and>
    ip_daddr q' = ip_saddr p \<and> th_dport q' (ip_data q) = th_sport p (ip_data p) \<and> ip_verifies q'"
proof -
  obtain m' where m': "mapping_of (fst (translate_out nt p)) (ntohl (ip_daddr p)) = Some m'"
      "internal_ip m' = ntohl (ip_saddr p)" "internal_port m' = ntohs (th_sport p (ip_data p))"
    using translate_out_mapping [OF assms(1), of p] assms(2) by auto
  have "snd (translate_in (fst (translate_out nt p)) q) =
      [IpSend (rewrite_dest (internal_ip m') (internal_port m') q)]"
    using m'(1) assms(3) by (intro translate_in_mapping) simp
  moreover note rewrite_dest_fields [OF assms(4), of "internal_ip m'" "internal_port m'"]
  ultimately show ?thesis
    using m'(2,3) by (metis bswap16_involutive bswap32_involutive)
qed

text \<open>A table without mappings, a packet from 10.21.0.1:1 to 1.2.3.4:80 and one back.\<close>

definition nat_example :: nat_table where
  "nat_example = \<lparr>nat_mapping_list = replicate 256 [], internal_name = ''n1-eth0'',
     external_name = ''n1-eth1'', external_addr = 0x9fe2272b, assigned_ports = (\<lambda>_. 0), next_port = 1\<rparr>"

definition out_example :: bytes where
  "out_example = replicate 12 0 @ [8, 0, 0x45, 0, 0, 40, 0, 0, 0x40, 0, 64, 6, 0, 0, 10, 21, 0, 1,
     1, 2, 3, 4, 0, 1, 0, 80, 0, 0, 0, 0, 0, 0, 0, 0, 0x50, 2, 255, 255, 0, 0, 0, 0]"

definition in_example :: bytes where
  "in_example = replicate 12 0 @ [8, 0, 0x45, 0, 0, 40, 0, 0, 0x40, 0, 64, 6, 0, 0, 1, 2, 3, 4,
     159, 226, 39, 43, 0, 80, 0, 1, 0, 0, 0, 0, 0, 0, 0, 0, 0x50, 0x12, 255, 255, 0, 0, 0, 0]"

lemma nat_example_inv: "nat_inv nat_example"
  by (simp add: nat_inv_def nat_example_def)

lemma nat_example_empty: "mapping_of nat_example a = None"
  by (simp add: mapping_of_def nat_example_def)

lemma nat_round_trip_witness:
  "\<exists>q'. snd (translate_in (fst (translate_out nat_example out_example)) in_example) = [IpSend q'] \<and>
    ip_daddr q' = ip_saddr out_example \<and>
    th_dport q' (ip_data in_example) = th_sport out_example (ip_data out_example) \<and> ip_verifies q'"
  by (rule nat_round_trip [OF nat_example_inv nat_example_empty]) (code_simp, code_simp)

text \<open>Mappings are shared by remote address: when a second internal host sends to a remote
  address that already has a mapping, its packet leaves with the port of the first host, and
  the replies, to whatever port, go to the first host.\<close>

theorem nat_second_host_loses_replies:
  assumes "nat_inv nt" "mapping_of nt (ntohl (ip_daddr p1)) = None"
    and "ip_daddr p2 = ip_daddr p1" "ip_saddr q = ip_daddr p1" "tcp_fits q"
  shows "\<exists>q' port.
    snd (translate_out nt p1) = [IpSend (rewrite_source (external_addr nt) port p1)] \<and>
    snd (translate_out (fst (translate_out nt p1)) p2) =
      [IpSend (rewrite_source (external_addr (fst (translate_out nt p1))) port p2)] \<and>
    snd (translate_in (fst (translate_out (fst (translate_out nt p1)) p2)) q) = [IpSend q'] \<and>
    ip_daddr q' = ip_saddr p1 \<and> th_dport q' (ip_data q) = th_sport p1 (ip_data p1)"
proof -
  let ?n1 = "fst (translate_out nt p1)" and ?a = "ntohl (ip_daddr p1)"
  obtain m1 where m1: "nat_inv ?n1" "mapping_of ?n1 ?a = Some m1"
      "snd (translate_out nt p1) = [IpSend (rewrite_source (external_addr nt) (external_port m1) p1)]"
      "internal_ip m1 = ntohl (ip_saddr p1)" "internal_port m1 = ntohs (th_sport p1 (ip_data p1))"
    using translate_out_mapping [OF assms(1), of p1] assms(2) by auto
  let ?n2 = "fst (translate_out ?n1 p2)"
  obtain m2 where m2: "mapping_of ?n2 ?a = Some m2"
      "snd (translate_out ?n1 p2) = [IpSend (rewrite_source (external_addr ?n1) (external_port m2) p2)]"
      "internal_ip m2 = internal_ip m1" "internal_port m2 = internal_port m1" "external_port m2 = external_port m1"
    using translate_out_mapping [OF m1(1), of p2] m1(2) assms(3) by auto
  have "snd (translate_in ?n2 q) = [IpSend (rewrite_dest (internal_ip m2) (internal_port m2) q)]"
    using m2(1) assms(4) by (intro translate_in_mapping) simp
  moreover note rewrite_dest_fields [OF assms(5), of "internal_ip m2" "internal_port m2"]
  ultimately show ?thesis
    using m1 m2 by (metis bswap16_involutive bswap32_involutive)
qed

lemma nat_second_host_loses_replies_witness:
  "\<exists>q'. snd (translate_in (fst (translate_out (fst (translate_out nat_example out_example))
       (st32 out_example 26 0x0200150a))) in_example) = [IpSend q'] \<and>
     ip_daddr q' = ip_saddr out_example"
proof -
  have "ip_daddr (st32 out_example 26 0x0200150a) = ip_daddr out_example"
    "ip_saddr in_example = ip_daddr out_example" "tcp_fits in_example"
    by code_simp+
  from nat_second_host_loses_replies [OF nat_example_inv nat_example_empty this] show ?thesis by blast
qed

section \<open>Aging\<close>

lemma sweep_mappings_filter:
  "sweep_mappings ms = filter (\<lambda>m. update_time m < 60 \<and> \<not> conn_end (conn m))
     (map (\<lambda>m. m \<lparr>update_time := update_time m + 1\<rparr>) ms)"
  by (induction ms) (auto simp: Let_def)

text \<open>A timeout round removes exactly the mappings that were idle for 60 rounds or whose
  connection has ended, but no operation gives a port back: a port that was assigned stays
  assigned through every translation and every round.\<close>

theorem nat_ports_never_freed:
  "nat_mapping_list (nat_timeout nt) =
     map (\<lambda>ms. filter (\<lambda>m. update_time m < 60 \<and> \<not> conn_end (conn m))
       (map (\<lambda>m. m \<lparr>update_time := update_time m + 1\<rparr>) ms)) (nat_mapping_list nt) \<and>
   assigned_ports (nat_timeout nt) = assigned_ports nt \<and>
   {q. assigned_ports nt q \<noteq> 0} \<subseteq> {q. assigned_ports (fst (nat_translate_packet lpm nt p)) q \<noteq> 0}"
proof -
  have grow: "{q. assigned_ports nt q \<noteq> 0} \<subseteq> {q. assigned_ports (fst (assign_external_port nt)) q \<noteq> 0}"
    by (cases nt rule: assign_external_port_cases) auto
  have "{q. assigned_ports nt q \<noteq> 0} \<subseteq> {q. assigned_ports (fst (translate_out nt p)) q \<noteq> 0}"
    using grow by (simp add: translate_out_def Let_def split_beta split: option.split)
  moreover have "assigned_ports (fst (translate_in nt p)) = assigned_ports nt"
    by (simp add: translate_in_def Let_def split: option.split)
  ultimately have "{q. assigned_ports nt q \<noteq> 0} \<subseteq>
      {q. assigned_ports (fst (nat_translate_packet lpm nt p)) q \<noteq> 0}"
    by (simp add: nat_translate_packet_def do_translation_def split: packet_dir.split)
  then show ?thesis by (simp add: nat_timeout_def sweep_mappings_filter comp_def)
qed

end
