(* ===== verification/TcpState.thy ===== *)
theory TcpState imports Links RingBuffer NatTable ArpCache "HOL-Library.Monad_Syntax" begin

text \<open>The state of the TCP stack of \<open>exp13/code\<close> (\<open>tcp_sock.h\<close>, \<open>tcp.h\<close>, \<open>tcp_timer.h\<close>,
  \<open>synch_wait.h\<close>, \<open>tcp_hash.h\<close>) and the allocation of sockets and the waiting
  on them. Sockets and blocks are numbers; a freed one has no contents,
  and using it, like following a null pointer, is \<open>None\<close>. The intrusive lists live in one store of
  links whose nodes are named by the field they are.\<close>

section \<open>Data\<close>

datatype tcp_state = TCP_CLOSED | TCP_LISTEN | TCP_SYN_RECV | TCP_SYN_SENT | TCP_ESTABLISHED
  | TCP_CLOSE_WAIT | TCP_LAST_ACK | TCP_FIN_WAIT_1 | TCP_FIN_WAIT_2 | TCP_CLOSING | TCP_TIME_WAIT

record tcp_timer =
  tm_type :: int
  tm_timeout :: int
  tm_retrans_times :: int

record synch_wait =
  sw_notified :: bool
  sw_dead :: bool
  sw_sleep :: bool

datatype wait_id = Wait_Connect | Wait_Accept | Wait_Recv | Wait_Send

record tcp_sock =
  sk_sip :: u32
  sk_sport :: u16
  sk_dip :: u32
  sk_dport :: u16
  sk_parent :: "nat option"
  ref_cnt :: int
  accept_backlog :: int
  backlog :: int
  sk_timewait :: tcp_timer
  retrans_timer :: tcp_timer
  sk_wait :: "wait_id \<Rightarrow> synch_wait"
  rcv_buf :: ring_buffer
  sk_state :: tcp_state
  iss :: u32
  snd_una :: u32
  snd_nxt :: u32
  rcv_nxt :: u32
  snd_wnd :: u16
  rcv_wnd :: u16

record tcp_buf_block =
  bb_len :: nat
  bb_packet :: bytes

record tcp_ofo_block =
  ob_seq :: u32
  ob_len :: u32
  ob_data :: bytes

text \<open>The list nodes: the heads of the three hash tables, of the timer lists and of the sending
  buffer, the list fields of a socket, and those of the blocks.\<close>

datatype link = Established nat | Listen nat | Bind nat | Timer_List | Retrans_List | Trans_Buf
  | Hash_List nat | Bind_Hash_List nat | Listen_Queue nat | Accept_Queue nat | Queue_Node nat
  | Timewait nat | Retrans nat | Ofo_List nat | Block nat | Ofo nat

record stack =
  t_router :: router
  t_links :: "link links"
  t_socks :: "nat \<Rightarrow> tcp_sock option"
  t_nsocks :: nat
  t_blocks :: "nat \<Rightarrow> tcp_buf_block option"
  t_nblocks :: nat
  t_ofos :: "nat \<Rightarrow> tcp_ofo_block option"
  t_nofos :: nat
  t_buf_size :: int
  t_address :: "nat \<Rightarrow> 64 word"
  t_exited :: bool
  t_sleeps :: nat

definition TCP_DEFAULT_WINDOW :: u16 where "TCP_DEFAULT_WINDOW = 65535"
definition PORT_MIN :: nat where "PORT_MIN = 12345"
definition PORT_MAX :: nat where "PORT_MAX = 23456"
definition TCP_TIMER_SCAN_INTERVAL :: int where "TCP_TIMER_SCAN_INTERVAL = 100000"
definition TCP_TIMEWAIT_TIMEOUT :: int where "TCP_TIMEWAIT_TIMEOUT = 2 * 1000000"
definition MAX_RETRANS :: int where "MAX_RETRANS = 3"
definition DEFAULT_RETRANS_TIME :: int where "DEFAULT_RETRANS_TIME = 200000"
definition RETRANS_SCAN_TIMER :: int where "RETRANS_SCAN_TIMER = 10000"

text \<open>The comparisons of sequence numbers, with the wrap-around of 32-bit machine arithmetic.\<close>

definition less_or_equal_32b :: "u32 \<Rightarrow> u32 \<Rightarrow> bool" where
  "less_or_equal_32b a b \<longleftrightarrow> sint (a - b) \<le> 0"
definition less_than_32b :: "u32 \<Rightarrow> u32 \<Rightarrow> bool" where
  "less_than_32b a b \<longleftrightarrow> sint (a - b) < 0"
definition greater_than_32b :: "u32 \<Rightarrow> u32 \<Rightarrow> bool" where
  "greater_than_32b a b \<longleftrightarrow> sint (a - b) > 0"

section \<open>Stores\<close>

definition upd_sock :: "nat \<Rightarrow> (tcp_sock \<Rightarrow> tcp_sock) \<Rightarrow> stack \<Rightarrow> stack option" where
  "upd_sock i f s = do { k \<leftarrow> t_socks s i; Some (s \<lparr>t_socks := (t_socks s)(i \<mapsto> f k)\<rparr>) }"

definition upd_links :: "(link links \<Rightarrow> link links option) \<Rightarrow> stack \<Rightarrow> stack option" where
  "upd_links f s = do { h \<leftarrow> f (t_links s); Some (s \<lparr>t_links := h\<rparr>) }"

definition init_list_node :: "link \<Rightarrow> stack \<Rightarrow> stack" where
  "init_list_node l s = s \<lparr>t_links := init_list_head l (t_links s)\<rparr>"

definition tcp_set_state :: "nat \<Rightarrow> tcp_state \<Rightarrow> stack \<Rightarrow> stack option" where
  "tcp_set_state i st = upd_sock i (\<lambda>k. k \<lparr>sk_state := st\<rparr>)"

definition tcp_sock_inc_ref_cnt :: "nat \<Rightarrow> stack \<Rightarrow> stack option" where
  "tcp_sock_inc_ref_cnt i = upd_sock i (\<lambda>k. k \<lparr>ref_cnt := ref_cnt k + 1\<rparr>)"

section \<open>Waiting\<close>

definition wait_init :: synch_wait where
  "wait_init = \<lparr>sw_notified = False, sw_dead = False, sw_sleep = False\<rparr>"

definition upd_wait :: "wait_id \<Rightarrow> (synch_wait \<Rightarrow> synch_wait) \<Rightarrow> tcp_sock \<Rightarrow> tcp_sock" where
  "upd_wait w f k = k \<lparr>sk_wait := (sk_wait k)(w := f (sk_wait k w))\<rparr>"

definition wait_exit :: "nat \<Rightarrow> wait_id \<Rightarrow> stack \<Rightarrow> stack option" where
  "wait_exit i w = upd_sock i (upd_wait w (\<lambda>x. if sw_dead x then x else x \<lparr>sw_dead := True\<rparr>))"

definition wake_up :: "nat \<Rightarrow> wait_id \<Rightarrow> stack \<Rightarrow> stack option" where
  "wake_up i w = upd_sock i (upd_wait w (\<lambda>x.
     if sw_dead x then x else if \<not> sw_notified x then x \<lparr>sw_notified := True\<rparr> else x))"

text \<open>\<open>sleep_on\<close>: \<open>env\<close> says what the other threads do to the stack while the caller waits for
  the condition variable for the given time in the run.\<close>

definition sleep_on :: "(nat \<Rightarrow> stack \<Rightarrow> stack) \<Rightarrow> nat \<Rightarrow> wait_id \<Rightarrow> stack \<Rightarrow> (int \<times> stack) option" where
  "sleep_on env i w s = do {
     k \<leftarrow> t_socks s i;
     if sw_dead (sk_wait k w) then Some (- 1, s)
     else do {
       s \<leftarrow> upd_sock i (upd_wait w (\<lambda>x. x \<lparr>sw_sleep := True\<rparr>)) s;
       let s = (if \<not> sw_notified (sk_wait k w)
                then env (t_sleeps s) (s \<lparr>t_sleeps := t_sleeps s + 1\<rparr>) else s);
       s \<leftarrow> upd_sock i (upd_wait w (\<lambda>x. x \<lparr>sw_notified := False, sw_sleep := False\<rparr>)) s;
       k \<leftarrow> t_socks s i;
       Some (if sw_dead (sk_wait k w) then - 1 else 0, s)
     }
   }"

section \<open>Allocation\<close>

definition fresh_sock :: tcp_sock where
  "fresh_sock = \<lparr>sk_sip = 0, sk_sport = 0, sk_dip = 0, sk_dport = 0, sk_parent = None, ref_cnt = 0,
     accept_backlog = 0, backlog = 0,
     sk_timewait = \<lparr>tm_type = 0, tm_timeout = 0, tm_retrans_times = 0\<rparr>,
     retrans_timer = \<lparr>tm_type = 0, tm_timeout = 0, tm_retrans_times = 0\<rparr>,
     sk_wait = (\<lambda>_. wait_init), rcv_buf = alloc_ring_buffer (unat TCP_DEFAULT_WINDOW),
     sk_state = TCP_CLOSED, iss = 0, snd_una = 0, snd_nxt = 0, rcv_nxt = 0,
     snd_wnd = TCP_DEFAULT_WINDOW, rcv_wnd = TCP_DEFAULT_WINDOW\<rparr>"

text \<open>\<open>memset\<close> makes the two hash nodes null pointers; the other list fields are initialised.\<close>

definition alloc_tcp_sock :: "stack \<Rightarrow> nat \<times> stack" where
  "alloc_tcp_sock s =
     (let i = t_nsocks s;
          null = (\<lambda>l h. set_next l None (set_prev l None h));
          s = s \<lparr>t_nsocks := i + 1, t_socks := (t_socks s)(i \<mapsto> fresh_sock),
                t_links := null (Hash_List i) (null (Bind_Hash_List i) (t_links s))\<rparr>;
          s = init_list_node (Queue_Node i) s;
          s = init_list_node (Listen_Queue i) s;
          s = init_list_node (Accept_Queue i) s;
          s = init_list_node (Ofo_List i) s;
          s = init_list_node (Timewait i) s;
          s = init_list_node (Retrans i) s
      in (i, s))"

definition free_tcp_sock :: "nat \<Rightarrow> stack \<Rightarrow> stack option" where
  "free_tcp_sock i s = do {
     k \<leftarrow> t_socks s i;
     let n = ref_cnt k - 1;
     Some (s \<lparr>t_socks := (t_socks s)(i := if n \<le> 0 then None else Some (k \<lparr>ref_cnt := n\<rparr>))\<rparr>)
   }"

text \<open>A stack on the demonstration router, before its lists are initialised.\<close>

definition demo_stack :: stack where
  "demo_stack = \<lparr>t_router = demo_router, t_links = \<lparr>lnext = (\<lambda>_. None), lprev = (\<lambda>_. None)\<rparr>,
     t_socks = (\<lambda>_. None), t_nsocks = 0, t_blocks = (\<lambda>_. None), t_nblocks = 0,
     t_ofos = (\<lambda>_. None), t_nofos = 0, t_buf_size = 0, t_address = (\<lambda>i. 0x5555000000000000 + of_nat i),
     t_exited = False, t_sleeps = 0\<rparr>"

end
