(* ===== verification/TcpTable.thy ===== *)
theory TcpTable imports TcpState begin

text \<open>The hash tables of sockets and their ports (\<open>tcp_hash.h\<close> and the first half of
  \<open>tcp_sock.c\<close> in \<open>exp13/code\<close>): lookup, bind, listen, and the queue of accepted connections.\<close>

section \<open>Lookup\<close>

text \<open>\<open>struct tcp_cb\<close>, with the bytes from the payload pointer to the end of the frame.\<close>

record tcp_cb =
  cb_saddr :: u32
  cb_daddr :: u32
  cb_sport :: u16
  cb_dport :: u16
  cb_seq :: u32
  cb_seq_end :: u32
  cb_ack :: u32
  cb_payload :: bytes
  cb_pl_len :: int
  cb_rwnd :: u32
  cb_flags :: u8

definition tcp_hash_function :: "u32 \<Rightarrow> u32 \<Rightarrow> u16 \<Rightarrow> u16 \<Rightarrow> nat" where
  "tcp_hash_function saddr daddr sport dport =
     (let hport = (\<lambda>p :: u16. hash8_buf (map (\<lambda>i. ucast (drop_bit (8 * i) p)) [0..<2]));
          haddr = (\<lambda>a :: u32. hash8_buf (map (\<lambda>i. ucast (drop_bit (8 * i) a)) [0..<4]))
      in unat (haddr saddr XOR haddr daddr XOR hport sport XOR hport dport))"

text \<open>The first socket of a list of \<open>hash_list\<close> nodes for which a test holds; a node that is not
  inside a socket has no socket to test.\<close>

definition find_sock :: "link \<Rightarrow> (tcp_sock \<Rightarrow> bool) \<Rightarrow> stack \<Rightarrow> nat option option" where
  "find_sock head P s = do {
     r \<leftarrow> list_find (t_links s) head
       (\<lambda>p. case p of Hash_List i \<Rightarrow> map_option P (t_socks s i) | _ \<Rightarrow> None);
     Some (case r of Some (Hash_List i) \<Rightarrow> Some i | _ \<Rightarrow> None)
   }"

definition same_tuple :: "u32 \<Rightarrow> u32 \<Rightarrow> u16 \<Rightarrow> u16 \<Rightarrow> tcp_sock \<Rightarrow> bool" where
  "same_tuple saddr daddr sport dport k \<longleftrightarrow>
     saddr = sk_sip k \<and> daddr = sk_dip k \<and> sport = sk_sport k \<and> dport = sk_dport k"

definition tcp_sock_lookup_established ::
    "u32 \<Rightarrow> u32 \<Rightarrow> u16 \<Rightarrow> u16 \<Rightarrow> stack \<Rightarrow> nat option option" where
  "tcp_sock_lookup_established saddr daddr sport dport s =
     find_sock (Established (tcp_hash_function saddr daddr sport dport))
       (same_tuple saddr daddr sport dport) s"

definition tcp_sock_lookup_listen :: "u32 \<Rightarrow> u16 \<Rightarrow> stack \<Rightarrow> nat option option" where
  "tcp_sock_lookup_listen saddr sport s =
     find_sock (Listen (tcp_hash_function 0 0 sport 0)) (\<lambda>k. sport = sk_sport k) s"

definition tcp_sock_lookup :: "tcp_cb \<Rightarrow> stack \<Rightarrow> nat option option" where
  "tcp_sock_lookup cb s = do {
     r \<leftarrow> tcp_sock_lookup_established (cb_daddr cb) (cb_saddr cb) (cb_dport cb) (cb_sport cb) s;
     case r of Some i \<Rightarrow> Some (Some i)
       | None \<Rightarrow> tcp_sock_lookup_listen (cb_daddr cb) (cb_dport cb) s
   }"

section \<open>Ports\<close>

definition tcp_bind_hash :: "nat \<Rightarrow> stack \<Rightarrow> stack option" where
  "tcp_bind_hash i s = do {
     k \<leftarrow> t_socks s i;
     s \<leftarrow> upd_links (list_add_head (Bind_Hash_List i) (Bind (tcp_hash_function 0 0 (sk_sport k) 0))) s;
     tcp_sock_inc_ref_cnt i s
   }"

definition tcp_bind_unhash :: "nat \<Rightarrow> stack \<Rightarrow> stack option" where
  "tcp_bind_unhash i s =
     (if \<not> list_empty (t_links s) (Bind_Hash_List i) then do {
        s \<leftarrow> upd_links (list_delete_entry (Bind_Hash_List i)) s;
        free_tcp_sock i s
      } else Some s)"

text \<open>\<open>tcp_port_in_use\<close> goes through a list of \<open>bind_hash_list\<close> nodes as if they were \<open>hash_list\<close>
  nodes, which lie 16 bytes before them: it takes \<open>sk_sport\<close> from 16 bytes behind the field, that
  is from offset 20, where the upper half of the pointer \<open>parent\<close> is.\<close>

definition misread_sport :: "tcp_sock \<Rightarrow> stack \<Rightarrow> u16" where
  "misread_sport k s = (case sk_parent k of None \<Rightarrow> 0 | Some p \<Rightarrow> ucast (drop_bit 32 (t_address s p)))"

definition tcp_port_in_use :: "u16 \<Rightarrow> stack \<Rightarrow> bool option" where
  "tcp_port_in_use sport s = do {
     r \<leftarrow> list_find (t_links s) (Bind (tcp_hash_function 0 0 sport 0))
       (\<lambda>p. case p of
          Bind_Hash_List i \<Rightarrow> map_option (\<lambda>k. misread_sport k s = sport) (t_socks s i)
        | _ \<Rightarrow> None);
     Some (r \<noteq> None)
   }"

fun get_port_loop :: "nat list \<Rightarrow> stack \<Rightarrow> u16 option" where
  "get_port_loop [] s = Some 0"
| "get_port_loop (port # ports) s = do {
     used \<leftarrow> tcp_port_in_use (of_nat port) s;
     if \<not> used then Some (of_nat port) else get_port_loop ports s
   }"

definition tcp_get_port :: "stack \<Rightarrow> u16 option" where
  "tcp_get_port s = get_port_loop [PORT_MIN..<PORT_MAX] s"

definition tcp_sock_set_sport :: "nat \<Rightarrow> u16 \<Rightarrow> stack \<Rightarrow> (int \<times> stack) option" where
  "tcp_sock_set_sport i port s = do {
     used \<leftarrow> (if port \<noteq> 0 then tcp_port_in_use port s else Some False);
     port' \<leftarrow> (if port = 0 then tcp_get_port s else Some port);
     if used \<or> port' = 0 then Some (- 1, s)
     else do {
       s \<leftarrow> upd_sock i (\<lambda>k. k \<lparr>sk_sport := port'\<rparr>) s;
       s \<leftarrow> tcp_bind_hash i s;
       Some (0, s)
     }
   }"

section \<open>The tables of connections\<close>

definition tcp_hash :: "nat \<Rightarrow> stack \<Rightarrow> (int \<times> stack) option" where
  "tcp_hash i s = do {
     k \<leftarrow> t_socks s i;
     if sk_state k = TCP_CLOSED then Some (- 1, s)
     else do {
       let head = (if sk_state k = TCP_LISTEN then Listen (tcp_hash_function 0 0 (sk_sport k) 0)
         else Established (tcp_hash_function (sk_sip k) (sk_dip k) (sk_sport k) (sk_dport k)));
       dup \<leftarrow> (if sk_state k = TCP_LISTEN then Some None
         else find_sock head (same_tuple (sk_sip k) (sk_dip k) (sk_sport k) (sk_dport k)) s);
       if dup \<noteq> None then Some (- 1, s)
       else do {
         s \<leftarrow> upd_links (list_add_head (Hash_List i) head) s;
         s \<leftarrow> tcp_sock_inc_ref_cnt i s;
         Some (0, s)
       }
     }
   }"

definition tcp_unhash :: "nat \<Rightarrow> stack \<Rightarrow> stack option" where
  "tcp_unhash i s =
     (if \<not> list_empty (t_links s) (Hash_List i) then do {
        s \<leftarrow> upd_links (list_delete_entry (Hash_List i)) s;
        free_tcp_sock i s
      } else Some s)"

text \<open>\<open>tcp_sock_bind\<close>, with the port of the address in network order; the address is not used.\<close>

definition tcp_sock_bind :: "nat \<Rightarrow> u16 \<Rightarrow> stack \<Rightarrow> (int \<times> stack) option" where
  "tcp_sock_bind i port s = tcp_sock_set_sport i (ntohs port) s"

definition stack_rand :: "stack \<Rightarrow> u32 \<times> stack" where
  "stack_rand s = (let (x, r) = rand (t_router s) in (x, s \<lparr>t_router := r\<rparr>))"

definition tcp_new_iss :: "stack \<Rightarrow> u32 \<times> stack" where
  "tcp_new_iss s = stack_rand s"

definition tcp_sock_listen :: "nat \<Rightarrow> int \<Rightarrow> stack \<Rightarrow> (int \<times> stack) option" where
  "tcp_sock_listen i bl s = do {
     let (x, s) = tcp_new_iss s;
     s \<leftarrow> upd_sock i (\<lambda>k. k \<lparr>iss := x, snd_una := x, snd_nxt := x, backlog := bl\<rparr>) s;
     s \<leftarrow> tcp_set_state i TCP_LISTEN s;
     (r, s) \<leftarrow> tcp_hash i s;
     Some (if 0 \<le> r then 0 else - 1, s)
   }"

section \<open>The accept queue\<close>

definition tcp_sock_accept_queue_full :: "nat \<Rightarrow> stack \<Rightarrow> bool option" where
  "tcp_sock_accept_queue_full i s = map_option (\<lambda>k. backlog k \<le> accept_backlog k) (t_socks s i)"

definition tcp_sock_accept_queue_empty :: "nat \<Rightarrow> stack \<Rightarrow> bool option" where
  "tcp_sock_accept_queue_empty i s = map_option (\<lambda>k. accept_backlog k = 0) (t_socks s i)"

definition tcp_sock_accept_enqueue :: "nat \<Rightarrow> stack \<Rightarrow> stack option" where
  "tcp_sock_accept_enqueue i s = do {
     s \<leftarrow> (if \<not> list_empty (t_links s) (Queue_Node i)
          then upd_links (list_delete_entry (Queue_Node i)) s else Some s);
     k \<leftarrow> t_socks s i;
     p \<leftarrow> sk_parent k;
     s \<leftarrow> upd_links (list_add_tail (Queue_Node i) (Accept_Queue p)) s;
     upd_sock p (\<lambda>k. k \<lparr>accept_backlog := accept_backlog k + 1\<rparr>) s
   }"

text \<open>On an empty queue the code makes a socket pointer out of the head of the queue, which is
  no socket.\<close>

definition tcp_sock_accept_dequeue :: "nat \<Rightarrow> stack \<Rightarrow> (nat \<times> stack) option" where
  "tcp_sock_accept_dequeue i s = do {
     p \<leftarrow> lnext (t_links s) (Accept_Queue i);
     c \<leftarrow> (case p of Queue_Node c \<Rightarrow> Some c | _ \<Rightarrow> None);
     s \<leftarrow> upd_links (list_delete_entry (Queue_Node c)) s;
     let s = init_list_node (Queue_Node c) s;
     s \<leftarrow> upd_sock i (\<lambda>k. k \<lparr>accept_backlog := accept_backlog k - 1\<rparr>) s;
     Some (c, s)
   }"

definition tcp_sock_accept :: "(nat \<Rightarrow> stack \<Rightarrow> stack) \<Rightarrow> nat \<Rightarrow> stack \<Rightarrow> (nat option \<times> stack) option" where
  "tcp_sock_accept env i s = do {
     none \<leftarrow> tcp_sock_accept_queue_empty i s;
     (r, s) \<leftarrow> (if none then sleep_on env i Wait_Accept s else Some (0, s));
     if r < 0 then Some (None, s)
     else do {
       (c, s) \<leftarrow> tcp_sock_accept_dequeue i s;
       (r, s) \<leftarrow> tcp_hash i s;
       Some (if 0 \<le> r then Some c else None, s)
     }
   }"

section \<open>Ports are not exclusive\<close>

lemma tcp_hash_function_less [simp]: "tcp_hash_function a b p q < 256"
  unfolding tcp_hash_function_def Let_def by (rule order_less_le_trans [OF unsigned_less]) simp

text \<open>The bind table as the lists \<open>B\<close> of sockets, none of which has a parent, as all that
  \<open>bind\<close> or \<open>connect\<close> put there.\<close>

definition bind_tables :: "(nat \<Rightarrow> nat list) \<Rightarrow> stack \<Rightarrow> bool" where
  "bind_tables B s \<longleftrightarrow>
     (\<forall>h < 256. dlist (t_links s) (Bind h) (map Bind_Hash_List (B h)) \<and>
       (\<forall>i \<in> set (B h). \<exists>k. t_socks s i = Some k \<and> sk_parent k = None)) \<and>
     (\<forall>h < 256. \<forall>h' < 256. h \<noteq> h' \<longrightarrow> set (B h) \<inter> set (B h') = {})"

definition unbound :: "(nat \<Rightarrow> nat list) \<Rightarrow> nat \<Rightarrow> stack \<Rightarrow> bool" where
  "unbound B i s \<longleftrightarrow> (\<forall>h < 256. i \<notin> set (B h)) \<and> (\<exists>k. t_socks s i = Some k \<and> sk_parent k = None)"

lemma bind_tablesD:
  assumes "bind_tables B s" "h < 256"
  shows "dlist (t_links s) (Bind h) (map Bind_Hash_List (B h))"
    "i \<in> set (B h) \<Longrightarrow> \<exists>k. t_socks s i = Some k \<and> sk_parent k = None"
    "h' < 256 \<Longrightarrow> h \<noteq> h' \<Longrightarrow> set (B h) \<inter> set (B h') = {}"
  using assms by (simp_all add: bind_tables_def)

lemma port_never_in_use:
  assumes "bind_tables B s" "p \<noteq> 0"
  shows "tcp_port_in_use p s = Some False"
proof -
  let ?h = "tcp_hash_function 0 0 p 0"
  have d: "dlist (t_links s) (Bind ?h) (map Bind_Hash_List (B ?h))"
    and k: "\<forall>i \<in> set (B ?h). \<exists>k. t_socks s i = Some k \<and> sk_parent k = None"
    using bind_tablesD [OF assms(1) tcp_hash_function_less] by blast+
  let ?P = "\<lambda>x. case x of Bind_Hash_List i \<Rightarrow> map_option (\<lambda>k. misread_sport k s = p) (t_socks s i) | _ \<Rightarrow> None"
  have "\<forall>x \<in> set (map Bind_Hash_List (B ?h)). ?P x = Some False"
    using k assms(2) by (auto simp: misread_sport_def)
  from list_find_dlist [OF d, of ?P "\<lambda>_. False", OF this] show ?thesis
    by (simp add: tcp_port_in_use_def find_None_iff)
qed

lemma first_port:
  assumes "bind_tables B s"
  shows "tcp_get_port s = Some (of_nat PORT_MIN)"
proof -
  have "[PORT_MIN..<PORT_MAX] = PORT_MIN # [Suc PORT_MIN..<PORT_MAX]"
    by (rule upt_conv_Cons) (simp add: PORT_MIN_def PORT_MAX_def)
  then show ?thesis
    using port_never_in_use [OF assms, of "of_nat PORT_MIN"] by (simp add: tcp_get_port_def PORT_MIN_def)
qed

lemma bind_hash_ok:
  assumes "bind_tables B s" "unbound B i s" "t_socks s i = Some k"
  defines "h \<equiv> tcp_hash_function 0 0 (sk_sport k) 0"
  shows "\<exists>s'. tcp_bind_hash i s = Some s' \<and> bind_tables (B(h := i # B h)) s' \<and>
    t_socks s' = (t_socks s)(i \<mapsto> k \<lparr>ref_cnt := ref_cnt k + 1\<rparr>)"
proof -
  have hl: "h < 256" by (simp add: h_def)
  have d: "dlist (t_links s) (Bind h) (map Bind_Hash_List (B h))" using assms(1) hl by (simp add: bind_tables_def)
  have n: "Bind_Hash_List i \<notin> set (Bind h # map Bind_Hash_List (B h))"
    using assms(2) hl by (auto simp: unbound_def)
  from dlist_add_head [OF d n] obtain h' where l: "list_add_head (Bind_Hash_List i) (Bind h) (t_links s) = Some h'"
    "dlist h' (Bind h) (map Bind_Hash_List (i # B h))"
    "\<forall>x. x \<notin> set (Bind_Hash_List i # Bind h # map Bind_Hash_List (B h)) \<longrightarrow>
      lnext h' x = lnext (t_links s) x \<and> lprev h' x = lprev (t_links s) x" by auto
  let ?B = "B(h := i # B h)"
  let ?s = "s \<lparr>t_links := h', t_socks := (t_socks s)(i \<mapsto> k \<lparr>ref_cnt := ref_cnt k + 1\<rparr>)\<rparr>"
  have "tcp_bind_hash i s = Some ?s"
    using assms(3) l(1) by (simp add: tcp_bind_hash_def upd_links_def tcp_sock_inc_ref_cnt_def upd_sock_def h_def)
  moreover have "bind_tables ?B ?s"
  proof -
    have "dlist h' (Bind g) (map Bind_Hash_List (?B g))" if g: "g < 256" for g
    proof (cases "g = h")
      case False
      then have "set (B g) \<inter> set (B h) = {}" "i \<notin> set (B g)"
        using bind_tablesD(3) [OF assms(1) g hl] assms(2) g by (simp_all add: unbound_def)
      then have "\<forall>x \<in> set (Bind g # map Bind_Hash_List (B g)).
          x \<notin> set (Bind_Hash_List i # Bind h # map Bind_Hash_List (B h))" using False by auto
      then have "dlist h' (Bind g) (map Bind_Hash_List (B g))"
        using l(3) by (intro dlist_frame [OF bind_tablesD(1) [OF assms(1) g]]) blast
      then show ?thesis using False by simp
    qed (use l(2) in simp)
    moreover have "sk_parent k = None" using assms(2,3) by (auto simp: unbound_def)
    moreover have "set (?B g) \<inter> set (?B g') = {}" if "g < 256" "g' < 256" "g \<noteq> g'" for g g'
      using that assms(1,2) hl by (auto simp: bind_tables_def unbound_def)
    ultimately show ?thesis using assms(1) hl unfolding bind_tables_def by (auto split: if_splits)
  qed
  ultimately show ?thesis by auto
qed

lemma bind_port:
  assumes "bind_tables B s" "unbound B i s"
  shows "\<exists>B' s' k. tcp_sock_set_sport i p s = Some (0, s') \<and> bind_tables B' s' \<and>
    t_socks s' i = Some k \<and> sk_sport k = (if p = 0 then of_nat PORT_MIN else p) \<and>
    (\<forall>j. j \<noteq> i \<longrightarrow> t_socks s' j = t_socks s j) \<and> (\<forall>j. j \<noteq> i \<and> unbound B j s \<longrightarrow> unbound B' j s')"
proof -
  define q where "q = (if p = 0 then of_nat PORT_MIN else p)"
  have q0: "q \<noteq> 0" by (simp add: q_def PORT_MIN_def)
  from assms(2) obtain k where k: "t_socks s i = Some k" "sk_parent k = None" by (auto simp: unbound_def)
  let ?k = "k \<lparr>sk_sport := q\<rparr>"
  let ?s = "s \<lparr>t_socks := (t_socks s)(i \<mapsto> ?k)\<rparr>"
  have "bind_tables B ?s"
    using assms(1) k unfolding bind_tables_def by fastforce
  moreover have "unbound B i ?s" using assms(2) k by (simp add: unbound_def)
  ultimately obtain s' where s': "tcp_bind_hash i ?s = Some s'"
    "bind_tables (B(tcp_hash_function 0 0 q 0 := i # B (tcp_hash_function 0 0 q 0))) s'"
    "t_socks s' = (t_socks s)(i \<mapsto> ?k \<lparr>ref_cnt := ref_cnt k + 1\<rparr>)"
    using bind_hash_ok [of B ?s i ?k] by auto
  have "tcp_sock_set_sport i p s = Some (0, s')"
    using s'(1) q0 port_never_in_use [OF assms(1), of p] first_port [OF assms(1)] k(1)
    by (auto simp: tcp_sock_set_sport_def upd_sock_def q_def)
  moreover have "unbound (B(tcp_hash_function 0 0 q 0 := i # B (tcp_hash_function 0 0 q 0))) j s'"
    if "j \<noteq> i" "unbound B j s" for j
    using that s'(3) by (auto simp: unbound_def)
  ultimately show ?thesis using s'(2,3) q_def by auto
qed

text \<open>Two sockets get the same port: whatever sockets without a parent are in the bind table,
  no port counts as used, so two sockets that bind the same port both succeed and have it, and
  every socket that asks for any free port gets the first one, 12345.\<close>

theorem ports_not_exclusive:
  assumes "bind_tables B s" "unbound B i s" "unbound B j s" "i \<noteq> j"
  shows "\<exists>s1 s2 k l. tcp_sock_set_sport i p s = Some (0, s1) \<and> tcp_sock_set_sport j p s1 = Some (0, s2) \<and>
    t_socks s2 i = Some k \<and> t_socks s2 j = Some l \<and>
    sk_sport k = (if p = 0 then 12345 else p) \<and> sk_sport l = sk_sport k"
proof -
  from bind_port [OF assms(1,2), of p] obtain B1 s1 k where 1: "tcp_sock_set_sport i p s = Some (0, s1)"
    "bind_tables B1 s1" "t_socks s1 i = Some k" "sk_sport k = (if p = 0 then of_nat PORT_MIN else p)"
    "unbound B1 j s1" using assms(3,4) by metis
  from bind_port [OF 1(2,5), of p] obtain s2 l where "tcp_sock_set_sport j p s1 = Some (0, s2)"
    "t_socks s2 j = Some l" "sk_sport l = (if p = 0 then of_nat PORT_MIN else p)" "t_socks s2 i = Some k"
    using 1(3) assms(4) by metis
  then show ?thesis using 1(1,4) by (auto simp: PORT_MIN_def)
qed

lemma ports_not_exclusive_witness:
  "\<exists>s1 s2 k l. tcp_sock_set_sport 0 80 (demo_stack \<lparr>t_links := \<lparr>lnext = Some, lprev = Some\<rparr>,
      t_socks := (\<lambda>_. Some fresh_sock)\<rparr>) = Some (0, s1) \<and>
    tcp_sock_set_sport 1 80 s1 = Some (0, s2) \<and>
    t_socks s2 0 = Some k \<and> t_socks s2 1 = Some l \<and> sk_sport k = 80 \<and> sk_sport l = 80"
proof -
  let ?s = "demo_stack \<lparr>t_links := \<lparr>lnext = Some, lprev = Some\<rparr>, t_socks := (\<lambda>_. Some fresh_sock)\<rparr>"
  have "bind_tables (\<lambda>_. []) ?s" by (simp add: bind_tables_def dlist_def)
  moreover have "unbound (\<lambda>_. []) i ?s" for i by (simp add: unbound_def fresh_sock_def)
  ultimately show ?thesis
    using ports_not_exclusive [of "\<lambda>_. []" ?s 0 1 80] by auto
qed

end
