(* ===== verification/TcpOut.thy ===== *)
theory TcpOut imports TcpTable IpForward begin

text \<open>Sending (\<open>tcp_out.c\<close>, \<open>tcp_timer.c\<close> and the sending buffer of \<open>tcp_sock.c\<close>, and the parts
  of \<open>ip.c\<close>, \<open>arp.c\<close> and \<open>icmp.c\<close> of \<open>exp13/code\<close> that differ from those of the router): packets
  are built, kept until they are acknowledged, and sent again by the retransmission timer.\<close>

section \<open>The IP layer below\<close>

definition iface_send_by_arp :: "nat \<Rightarrow> u32 \<Rightarrow> bytes \<Rightarrow> router \<Rightarrow> router" where
  "iface_send_by_arp i dst_ip packet r =
     (let packet = blit packet 6 (if_mac (r_ifaces r ! i));
          packet = st16 packet 12 (htons ETH_P_IP)
      in case arpcache_lookup dst_ip r of
           Some mac \<Rightarrow> iface_send_packet i (blit packet 0 mac) r
         | None \<Rightarrow> arpcache_append_packet i dst_ip packet r)"

definition host_send_packet :: "bytes \<Rightarrow> router \<Rightarrow> router" where
  "host_send_packet packet r =
     (let dst = ntohl (ip_daddr packet)
      in case longest_prefix_match dst r of
           None \<Rightarrow> r
         | Some e \<Rightarrow>
             let packet = st16 packet 12 (ntohs ETH_P_IP);
                 packet = blit packet 6 (if_mac (r_ifaces r ! rt_iface e))
             in iface_send_by_arp (rt_iface e) (get_next_hop e dst) packet r)"

definition host_icmp_send :: "bytes \<Rightarrow> u8 \<Rightarrow> u8 \<Rightarrow> router \<Rightarrow> router option" where
  "host_icmp_send in_pkt type code r =
     (if \<not> icmp_in_bounds in_pkt type then None
      else
        let (icmp_len, out_len) = icmp_lens in_pkt type;
            (p, r) = malloc out_len r;
            p = icmp_fill in_pkt type code p;
            daddr = ntohl (ip_saddr in_pkt);
            saddr = (if type = ICMP_ECHOREPLY then Some (ntohl (ip_daddr in_pkt))
              else map_option (\<lambda>e. if_ip (r_ifaces r ! rt_iface e)) (longest_prefix_match daddr r));
            out_ip_len = of_nat (IP_BASE_HDR_SIZE + icmp_len)
        in case saddr of
             None \<Rightarrow> Some r
           | Some saddr \<Rightarrow>
               let (x, r) = rand r
               in Some (host_send_packet (ip_init_hdr saddr daddr out_ip_len IPPROTO_ICMP x p) r))"

definition host_forward_packet :: "u32 \<Rightarrow> bytes \<Rightarrow> router \<Rightarrow> router option" where
  "host_forward_packet ip_dst packet r =
     (if ip_ttl packet \<le> 1 then host_icmp_send packet ICMP_TIME_EXCEEDED ICMP_EXC_TTL r
      else
        let packet = st8 packet 22 (ip_ttl packet - 1);
            packet = st16 packet 24 (ip_checksum packet)
        in case longest_prefix_match ip_dst r of
             None \<Rightarrow> host_icmp_send packet ICMP_DEST_UNREACH ICMP_NET_UNREACH r
           | Some e \<Rightarrow>
               let next_hop = get_next_hop e ip_dst
               in Some (case arpcache_lookup next_hop r of
                    Some mac \<Rightarrow> iface_send_packet (rt_iface e)
                      (set_eth mac (if_mac (r_ifaces r ! rt_iface e)) packet) r
                  | None \<Rightarrow> arpcache_append_packet (rt_iface e) next_hop packet r))"

text \<open>The same functions on the whole stack.\<close>

definition on_router :: "(router \<Rightarrow> router) \<Rightarrow> stack \<Rightarrow> stack" where
  "on_router f s = s \<lparr>t_router := f (t_router s)\<rparr>"

definition stack_malloc :: "nat \<Rightarrow> stack \<Rightarrow> bytes \<times> stack" where
  "stack_malloc n s = (let (p, r) = malloc n (t_router s) in (p, s \<lparr>t_router := r\<rparr>))"

section \<open>The sending buffer\<close>

definition TCP_BASE_HDR_SIZE :: nat where "TCP_BASE_HDR_SIZE = 20"

definition HDRS_SIZE :: nat where
  "HDRS_SIZE = ETHER_HDR_SIZE + IP_BASE_HDR_SIZE + TCP_BASE_HDR_SIZE"

text \<open>The offset of the TCP header in the packets of the stack, whose IP header has no options.\<close>

definition TCP_AT :: nat where "TCP_AT = ETHER_HDR_SIZE + IP_BASE_HDR_SIZE"

definition new_tcp_buf_block :: "stack \<Rightarrow> nat \<times> stack" where
  "new_tcp_buf_block s =
     (let b = t_nblocks s
      in (b, init_list_node (Block b)
        (s \<lparr>t_nblocks := b + 1, t_blocks := (t_blocks s)(b \<mapsto> \<lparr>bb_len = 0, bb_packet = []\<rparr>)\<rparr>)))"

definition buf_append_packet :: "bytes \<Rightarrow> stack \<Rightarrow> stack option" where
  "buf_append_packet packet s = do {
     let (b, s) = new_tcp_buf_block s;
     let s = s \<lparr>t_blocks := (t_blocks s)(b \<mapsto> \<lparr>bb_len = length packet, bb_packet = packet\<rparr>),
                t_buf_size := t_buf_size s + (int (length packet) - int HDRS_SIZE)\<rparr>;
     upd_links (list_add_tail (Block b) Trans_Buf) s
   }"

definition free_block :: "nat \<Rightarrow> stack \<Rightarrow> stack" where
  "free_block b s = s \<lparr>t_blocks := (t_blocks s)(b := None)\<rparr>"

definition buf_ack_block :: "u32 \<Rightarrow> link \<Rightarrow> stack \<Rightarrow> (bool \<times> stack) option" where
  "buf_ack_block ack p s = (case p of
     Block b \<Rightarrow> do {
       bb \<leftarrow> t_blocks s b;
       if less_than_32b (ntohl (th_seq (bb_packet bb) TCP_AT)) ack then do {
         let s = s \<lparr>t_buf_size := t_buf_size s - (int (bb_len bb) - int HDRS_SIZE)\<rparr>;
         s \<leftarrow> upd_links (list_delete_entry (Block b)) s;
         Some (True, free_block b s)
       } else Some (True, s)
     } | _ \<Rightarrow> None)"

definition buf_ack :: "u32 \<Rightarrow> stack \<Rightarrow> stack option" where
  "buf_ack ack s = list_for_each_safe t_links Trans_Buf (buf_ack_block ack) s"

definition buf_remove_block :: "link \<Rightarrow> stack \<Rightarrow> (bool \<times> stack) option" where
  "buf_remove_block p s = (case p of
     Block b \<Rightarrow> do {
       _ \<leftarrow> t_blocks s b;
       s \<leftarrow> upd_links (list_delete_entry (Block b)) s;
       Some (True, free_block b s)
     } | _ \<Rightarrow> None)"

definition buf_remove_and_free_all_block :: "stack \<Rightarrow> stack option" where
  "buf_remove_and_free_all_block s = do {
     s \<leftarrow> list_for_each_safe t_links Trans_Buf buf_remove_block s;
     Some (s \<lparr>t_buf_size := 0\<rparr>)
   }"

definition buf_retrans_first :: "nat \<Rightarrow> stack \<Rightarrow> stack option" where
  "buf_retrans_first i s =
     (if list_empty (t_links s) Trans_Buf then Some s
      else do {
        p \<leftarrow> lnext (t_links s) Trans_Buf;
        b \<leftarrow> (case p of Block b \<Rightarrow> Some b | _ \<Rightarrow> None);
        bb \<leftarrow> t_blocks s b;
        k \<leftarrow> t_socks s i;
        let packet = st32 (bb_packet bb) (TCP_AT + 8) (htonl (rcv_nxt k));
        let packet = set_ip_checksum (set_tcp_checksum packet);
        Some (on_router (host_send_packet packet) s)
      })"

section \<open>Timers\<close>

definition tcp_set_timewait_timer :: "nat \<Rightarrow> stack \<Rightarrow> stack option" where
  "tcp_set_timewait_timer i s = do {
     s \<leftarrow> upd_sock i (\<lambda>k. k \<lparr>sk_timewait := (sk_timewait k)
       \<lparr>tm_type := 0, tm_timeout := TCP_TIMEWAIT_TIMEOUT\<rparr>\<rparr>) s;
     s \<leftarrow> upd_links (list_add_tail (Timewait i) Timer_List) s;
     tcp_sock_inc_ref_cnt i s
   }"

definition tcp_update_retrans_timewait_timer :: "nat \<Rightarrow> stack \<Rightarrow> stack option" where
  "tcp_update_retrans_timewait_timer i = upd_sock i (\<lambda>k. k \<lparr>retrans_timer := (retrans_timer k)
     \<lparr>tm_type := 0, tm_timeout := DEFAULT_RETRANS_TIME, tm_retrans_times := 0\<rparr>\<rparr>)"

definition tcp_set_retrans_timewait_timer :: "nat \<Rightarrow> stack \<Rightarrow> stack option" where
  "tcp_set_retrans_timewait_timer i s = do {
     s \<leftarrow> upd_sock i (\<lambda>k. k \<lparr>retrans_timer := (retrans_timer k)
       \<lparr>tm_type := 0, tm_timeout := DEFAULT_RETRANS_TIME, tm_retrans_times := 0\<rparr>\<rparr>) s;
     let s = init_list_node (Retrans i) s;
     s \<leftarrow> upd_links (list_add_tail (Retrans i) Retrans_List) s;
     tcp_sock_inc_ref_cnt i s
   }"

definition tcp_stop_retrans_timewait_timer :: "nat \<Rightarrow> stack \<Rightarrow> stack option" where
  "tcp_stop_retrans_timewait_timer i s = do {
     s \<leftarrow> upd_links (list_delete_entry (Retrans i)) s;
     free_tcp_sock i s
   }"

definition scan_timer :: "link \<Rightarrow> stack \<Rightarrow> (bool \<times> stack) option" where
  "scan_timer p s = (case p of
     Timewait i \<Rightarrow> do {
       s \<leftarrow> upd_sock i (\<lambda>k. k \<lparr>sk_timewait := (sk_timewait k)
         \<lparr>tm_timeout := tm_timeout (sk_timewait k) - TCP_TIMER_SCAN_INTERVAL\<rparr>\<rparr>) s;
       k \<leftarrow> t_socks s i;
       if tm_timeout (sk_timewait k) \<le> 0 then do {
         s \<leftarrow> upd_links (list_delete_entry (Timewait i)) s;
         s \<leftarrow> upd_links (list_delete_entry (Retrans i)) s;
         s \<leftarrow> (if sk_parent k = None then tcp_bind_unhash i s else Some s);
         s \<leftarrow> tcp_set_state i TCP_CLOSED s;
         s \<leftarrow> free_tcp_sock i s;
         Some (True, s)
       } else Some (True, s)
     } | _ \<Rightarrow> None)"

definition tcp_scan_timer_list :: "stack \<Rightarrow> stack option" where
  "tcp_scan_timer_list s = list_for_each_safe t_links Timer_List scan_timer s"

text \<open>After \<open>exit (0)\<close> the process is gone.\<close>

definition scan_retrans_timer :: "link \<Rightarrow> stack \<Rightarrow> (bool \<times> stack) option" where
  "scan_retrans_timer p s = (case p of
     Retrans i \<Rightarrow> do {
       s \<leftarrow> upd_sock i (\<lambda>k. k \<lparr>retrans_timer := (retrans_timer k)
         \<lparr>tm_timeout := tm_timeout (retrans_timer k) - RETRANS_SCAN_TIMER\<rparr>\<rparr>) s;
       k \<leftarrow> t_socks s i;
       if 0 < tm_timeout (retrans_timer k) then Some (True, s)
       else if MAX_RETRANS \<le> tm_retrans_times (retrans_timer k) then do {
         s \<leftarrow> upd_links (list_delete_entry (Retrans i)) s;
         s \<leftarrow> (if sk_parent k = None then tcp_bind_unhash i s else Some s);
         s \<leftarrow> wait_exit i Wait_Connect s;
         s \<leftarrow> wait_exit i Wait_Accept s;
         s \<leftarrow> wait_exit i Wait_Recv s;
         s \<leftarrow> wait_exit i Wait_Send s;
         s \<leftarrow> tcp_set_state i TCP_CLOSED s;
         s \<leftarrow> free_tcp_sock i s;
         s \<leftarrow> buf_remove_and_free_all_block s;
         Some (False, s \<lparr>t_exited := True\<rparr>)
       } else do {
         s \<leftarrow> upd_sock i (\<lambda>k. let n = tm_retrans_times (retrans_timer k) + 1
           in k \<lparr>retrans_timer := (retrans_timer k)
             \<lparr>tm_retrans_times := n, tm_timeout := DEFAULT_RETRANS_TIME * (2 * 2 ^ nat n)\<rparr>\<rparr>) s;
         s \<leftarrow> buf_retrans_first i s;
         Some (True, s)
       }
     } | _ \<Rightarrow> None)"

definition tcp_scan_retrans_timer_list :: "stack \<Rightarrow> stack option" where
  "tcp_scan_retrans_timer_list s = list_for_each_safe t_links Retrans_List scan_retrans_timer s"

text \<open>\<open>init_tcp_stack\<close> with the start of the two timer threads and \<open>init_tcp_trans_buf\<close>.\<close>

definition init_tcp_stack :: "stack \<Rightarrow> stack" where
  "init_tcp_stack s =
     (let s = fold (\<lambda>i. init_list_node (Established i)) [0..<256] s;
          s = fold (\<lambda>i. init_list_node (Listen i)) [0..<256] s;
          s = fold (\<lambda>i. init_list_node (Bind i)) [0..<256] s;
          s = init_list_node Timer_List s;
          s = init_list_node Trans_Buf s;
          s = init_list_node Retrans_List s
      in s \<lparr>t_buf_size := 0\<rparr>)"

section \<open>Packets\<close>

definition TCP_URG :: u8 where "TCP_URG = 0x20"

definition tcp_init_hdr :: "u16 \<Rightarrow> u16 \<Rightarrow> u32 \<Rightarrow> u32 \<Rightarrow> u8 \<Rightarrow> u16 \<Rightarrow> bytes \<Rightarrow> bytes" where
  "tcp_init_hdr sport dport seq ack flags rwnd p =
     (let p = blit p TCP_AT (replicate TCP_BASE_HDR_SIZE 0);
          p = st16 p TCP_AT (htons sport);
          p = st16 p (TCP_AT + 2) (htons dport);
          p = st32 p (TCP_AT + 4) (htonl seq);
          p = st32 p (TCP_AT + 8) (htonl ack);
          p = st8 p (TCP_AT + 12) 0x50;
          p = st8 p (TCP_AT + 13) flags
      in st16 p (TCP_AT + 14) (htons rwnd))"

definition tcp_send_packet :: "nat \<Rightarrow> bytes \<Rightarrow> stack \<Rightarrow> stack option" where
  "tcp_send_packet i packet s = do {
     k \<leftarrow> t_socks s i;
     let ip_tot_len = int (length packet) - int ETHER_HDR_SIZE;
     let tcp_data_len = ip_tot_len - int IP_BASE_HDR_SIZE - int TCP_BASE_HDR_SIZE;
     let packet = tcp_init_hdr (sk_sport k) (sk_dport k) (snd_nxt k) (rcv_nxt k) (TCP_PSH OR TCP_ACK)
       (rcv_wnd k) packet;
     let (x, s) = stack_rand s;
     let packet = ip_init_hdr (sk_sip k) (sk_dip k) (of_int ip_tot_len) IPPROTO_TCP x packet;
     let packet = set_ip_checksum (set_tcp_checksum packet);
     s \<leftarrow> upd_sock i (\<lambda>k. k \<lparr>snd_nxt := snd_nxt k + of_int tcp_data_len\<rparr>) s;
     s \<leftarrow> buf_append_packet packet s;
     s \<leftarrow> tcp_update_retrans_timewait_timer i s;
     Some (on_router (host_send_packet packet) s)
   }"

definition tcp_send_control_packet :: "nat \<Rightarrow> u8 \<Rightarrow> stack \<Rightarrow> stack option" where
  "tcp_send_control_packet i flags s = do {
     k \<leftarrow> t_socks s i;
     let (packet, s) = stack_malloc HDRS_SIZE s;
     let tot_len = of_nat (IP_BASE_HDR_SIZE + TCP_BASE_HDR_SIZE);
     let (x, s) = stack_rand s;
     let packet = ip_init_hdr (sk_sip k) (sk_dip k) tot_len IPPROTO_TCP x packet;
     let packet = tcp_init_hdr (sk_sport k) (sk_dport k) (snd_nxt k) (rcv_nxt k) flags (rcv_wnd k) packet;
     let packet = set_tcp_checksum packet;
     s \<leftarrow> (if flags AND (TCP_SYN OR TCP_FIN) \<noteq> 0
          then upd_sock i (\<lambda>k. k \<lparr>snd_nxt := snd_nxt k + 1\<rparr>) s else Some s);
     s \<leftarrow> (if flags \<noteq> TCP_ACK \<and> flags AND TCP_RST = 0
          then do {
            s \<leftarrow> buf_append_packet packet s;
            tcp_update_retrans_timewait_timer i s
          } else Some s);
     Some (on_router (host_send_packet packet) s)
   }"

definition tcp_send_reset :: "tcp_cb \<Rightarrow> stack \<Rightarrow> stack" where
  "tcp_send_reset cb s =
     (let (packet, s) = stack_malloc HDRS_SIZE s;
          tot_len = of_nat (IP_BASE_HDR_SIZE + TCP_BASE_HDR_SIZE);
          (x, s) = stack_rand s;
          packet = ip_init_hdr (cb_daddr cb) (cb_saddr cb) tot_len IPPROTO_TCP x packet;
          packet = tcp_init_hdr (cb_dport cb) (cb_sport cb) 0 (cb_seq_end cb) (TCP_RST OR TCP_ACK) 0 packet;
          packet = set_tcp_checksum packet
      in on_router (host_send_packet packet) s)"

definition tcp_send_data :: "nat \<Rightarrow> bytes \<Rightarrow> stack \<Rightarrow> stack option" where
  "tcp_send_data i buf s = do {
     let (packet, s) = stack_malloc (HDRS_SIZE + length buf) s;
     tcp_send_packet i (blit packet HDRS_SIZE buf) s
   }"

section \<open>The sending buffer as a list of packets\<close>

text \<open>The buffer holds the packets \<open>ps\<close>, and its size is that of their payloads.\<close>

definition blocks_hold :: "nat list \<Rightarrow> bytes list \<Rightarrow> stack \<Rightarrow> bool" where
  "blocks_hold bs ps s \<longleftrightarrow> dlist (t_links s) Trans_Buf (map Block bs) \<and>
     map (t_blocks s) bs = map (\<lambda>p. Some \<lparr>bb_len = length p, bb_packet = p\<rparr>) ps \<and>
     (\<forall>b \<in> set bs. b < t_nblocks s)"

definition payload_size :: "bytes list \<Rightarrow> int" where
  "payload_size ps = (\<Sum>p\<leftarrow>ps. int (length p) - int HDRS_SIZE)"

definition buffered :: "bytes list \<Rightarrow> stack \<Rightarrow> bool" where
  "buffered ps s \<longleftrightarrow> (\<exists>bs. blocks_hold bs ps s) \<and> t_buf_size s = payload_size ps"

text \<open>What the operations of the buffer leave alone.\<close>

definition buf_frame :: "stack \<Rightarrow> stack \<Rightarrow> bool" where
  "buf_frame s s' \<longleftrightarrow>
     t_router s' = t_router s \<and> t_socks s' = t_socks s \<and> t_nsocks s' = t_nsocks s \<and> t_ofos s' = t_ofos s \<and>
     t_nofos s' = t_nofos s \<and> t_address s' = t_address s \<and> t_exited s' = t_exited s \<and> t_sleeps s' = t_sleeps s \<and>
     (\<forall>x. x \<noteq> Trans_Buf \<and> x \<notin> range Block \<longrightarrow>
       lnext (t_links s') x = lnext (t_links s) x \<and> lprev (t_links s') x = lprev (t_links s) x)"

lemma buf_frame_refl [simp]: "buf_frame s s"
  by (simp add: buf_frame_def)

lemma buf_frame_trans: "buf_frame s t \<Longrightarrow> buf_frame t u \<Longrightarrow> buf_frame s u"
  by (simp add: buf_frame_def)

lemma payload_size_append [simp]: "payload_size (ps @ qs) = payload_size ps + payload_size qs"
  by (simp add: payload_size_def)

lemma payload_size_Cons [simp]:
  "payload_size [] = 0" "payload_size (p # ps) = int (length p) - int HDRS_SIZE + payload_size ps"
  by (simp_all add: payload_size_def)

lemma map_Block_fresh: "\<forall>b \<in> set bs. b < n \<Longrightarrow> Block n \<notin> set (Trans_Buf # map Block bs)"
  by auto

lemma buf_append_buffered:
  assumes "buffered ps s"
  shows "\<exists>s'. buf_append_packet p s = Some s' \<and> buffered (ps @ [p]) s' \<and> buf_frame s s'"
proof -
  from assms obtain bs where bs: "blocks_hold bs ps s" and z: "t_buf_size s = payload_size ps"
    by (auto simp: buffered_def)
  let ?b = "t_nblocks s"
  have lt: "\<forall>b \<in> set bs. b < ?b" and d: "dlist (t_links s) Trans_Buf (map Block bs)"
    using bs by (simp_all add: blocks_hold_def)
  have n: "Block ?b \<notin> set (Trans_Buf # map Block bs)" using lt by (rule map_Block_fresh)
  let ?h = "init_list_head (Block ?b) (t_links s)"
  have "dlist ?h Trans_Buf (map Block bs)"
    by (rule dlist_frame [OF d]) (use n in \<open>auto simp: init_list_head_def\<close>)
  from dlist_add_tail [OF this n] obtain h' where h:
    "list_add_tail (Block ?b) Trans_Buf ?h = Some h'" "dlist h' Trans_Buf (map Block (bs @ [?b]))"
    "\<forall>x. x \<notin> set (Block ?b # Trans_Buf # map Block bs) \<longrightarrow> lnext h' x = lnext ?h x \<and> lprev h' x = lprev ?h x"
    by auto
  let ?s = "s \<lparr>t_links := h', t_nblocks := ?b + 1,
    t_blocks := (t_blocks s)(?b \<mapsto> \<lparr>bb_len = length p, bb_packet = p\<rparr>),
    t_buf_size := t_buf_size s + (int (length p) - int HDRS_SIZE)\<rparr>"
  have "buf_append_packet p s = Some ?s"
    by (simp add: buf_append_packet_def new_tcp_buf_block_def init_list_node_def upd_links_def h(1) Let_def)
  moreover have "blocks_hold (bs @ [?b]) (ps @ [p]) ?s"
  proof -
    have "map ((t_blocks s)(?b \<mapsto> \<lparr>bb_len = length p, bb_packet = p\<rparr>)) bs = map (t_blocks s) bs"
      using lt by (auto intro!: map_cong)
    then show ?thesis using bs h(2) by (auto simp: blocks_hold_def)
  qed
  moreover have "buf_frame s ?s"
    using h(3) by (auto simp: buf_frame_def init_list_head_def)
  ultimately show ?thesis
    by (auto simp: buffered_def z intro!: exI [of _ "?s"] exI [of _ "bs @ [?b]"])
qed

lemma block_delete:
  assumes "blocks_hold (kbs @ b # rest) (kps @ p # rps) s" "length kbs = length kps"
  shows "\<exists>h. list_delete_entry (Block b) (t_links s) = Some h \<and>
    (\<forall>z. blocks_hold (kbs @ rest) (kps @ rps) (free_block b (s \<lparr>t_links := h, t_buf_size := z\<rparr>)) \<and>
      buf_frame s (free_block b (s \<lparr>t_links := h, t_buf_size := z\<rparr>)))"
proof -
  have "dlist (t_links s) Trans_Buf (map Block kbs @ Block b # map Block rest)"
    using assms(1) by (simp add: blocks_hold_def)
  from dlist_delete [OF this] obtain h where h: "list_delete_entry (Block b) (t_links s) = Some h"
    "dlist h Trans_Buf (map Block (kbs @ rest))" "lnext h (Block b) = lnext (t_links s) (Block b)"
    "lprev h (Block b) = lprev (t_links s) (Block b)"
    "\<forall>x. x \<notin> set (Trans_Buf # map Block kbs @ map Block rest) \<longrightarrow>
      lnext h x = lnext (t_links s) x \<and> lprev h x = lprev (t_links s) x"
    by auto
  have "distinct (map Block (kbs @ b # rest))" using assms(1) by (simp add: blocks_hold_def dlist_def)
  then have b: "b \<notin> set (kbs @ rest)" by auto
  have "map (t_blocks s) (kbs @ rest) = map (\<lambda>p. Some \<lparr>bb_len = length p, bb_packet = p\<rparr>) (kps @ rps)"
    using assms by (simp add: blocks_hold_def)
  moreover have "map ((t_blocks s)(b := None)) (kbs @ rest) = map (t_blocks s) (kbs @ rest)"
    using b by (intro map_cong) auto
  ultimately have "map ((t_blocks s)(b := None)) (kbs @ rest) =
    map (\<lambda>p. Some \<lparr>bb_len = length p, bb_packet = p\<rparr>) (kps @ rps)" by simp
  moreover have "\<forall>x \<in> set (kbs @ rest). x < t_nblocks s" using assms(1) by (auto simp: blocks_hold_def)
  moreover have "buf_frame s (free_block b (s \<lparr>t_links := h, t_buf_size := z\<rparr>))" for z
    using h(5) by (auto simp: buf_frame_def free_block_def)
  ultimately show ?thesis
    using h(1,2) by (intro exI [of _ h]) (simp add: blocks_hold_def free_block_def)
qed

text \<open>A packet is acknowledged when its first byte lies before the acknowledgement.\<close>

definition acked :: "u32 \<Rightarrow> bytes \<Rightarrow> bool" where
  "acked ack p \<longleftrightarrow> less_than_32b (ntohl (th_seq p TCP_AT)) ack"

definition ack_inv :: "u32 \<Rightarrow> bytes list \<Rightarrow> stack \<Rightarrow> link list \<Rightarrow> stack \<Rightarrow> bool" where
  "ack_inv ack ps s xs s' \<longleftrightarrow> (\<exists>kbs rest kps rps. xs = map Block rest \<and>
     blocks_hold (kbs @ rest) (kps @ rps) s' \<and> length kbs = length kps \<and> length rest = length rps \<and>
     kps @ filter (\<lambda>p. \<not> acked ack p) rps = filter (\<lambda>p. \<not> acked ack p) ps \<and>
     t_buf_size s' = payload_size (kps @ rps) \<and> buf_frame s s')"

lemma ack_step:
  assumes "ack_inv ack ps s (x # xs) s1"
  shows "lnext (t_links s1) x = Some (hd (xs @ [Trans_Buf])) \<and>
    (\<exists>s2. buf_ack_block ack x s1 = Some (True, s2) \<and> ack_inv ack ps s xs s2)"
proof -
  from assms obtain kbs rest kps rps where i: "x # xs = map Block rest"
    "blocks_hold (kbs @ rest) (kps @ rps) s1" "length kbs = length kps" "length rest = length rps"
    "kps @ filter (\<lambda>p. \<not> acked ack p) rps = filter (\<lambda>p. \<not> acked ack p) ps"
    "t_buf_size s1 = payload_size (kps @ rps)" "buf_frame s s1"
    unfolding ack_inv_def by (elim exE conjE) (rule that)
  from i(1) obtain b rest' where r: "rest = b # rest'" "x = Block b" "xs = map Block rest'" by auto
  with i(4) obtain p rps' where q: "rps = p # rps'" by (cases rps) auto
  have bl: "t_blocks s1 b = Some \<lparr>bb_len = length p, bb_packet = p\<rparr>"
    using i(2,3) by (simp add: r(1) q blocks_hold_def)
  have nx: "lnext (t_links s1) x = Some (hd (xs @ [Trans_Buf]))"
    using i(2) dlist_next [of "t_links s1" Trans_Buf "map Block kbs" x xs]
    by (simp add: r blocks_hold_def)
  show ?thesis
  proof (cases "acked ack p")
    case True
    from block_delete [OF i(2) [unfolded r(1) q] i(3)] obtain h where
      h: "list_delete_entry (Block b) (t_links s1) = Some h"
      "\<And>z. blocks_hold (kbs @ rest') (kps @ rps') (free_block b (s1 \<lparr>t_links := h, t_buf_size := z\<rparr>))"
      "\<And>z. buf_frame s1 (free_block b (s1 \<lparr>t_links := h, t_buf_size := z\<rparr>))" by blast
    let ?s = "free_block b (s1 \<lparr>t_links := h, t_buf_size := t_buf_size s1 - (int (length p) - int HDRS_SIZE)\<rparr>)"
    have "buf_ack_block ack x s1 = Some (True, ?s)"
      using True h(1) by (simp add: buf_ack_block_def r(2) bl acked_def upd_links_def free_block_def)
    moreover have "t_buf_size ?s = payload_size (kps @ rps')"
      using i(6) by (simp add: q free_block_def)
    then have "ack_inv ack ps s xs ?s"
      unfolding ack_inv_def using h(2) i(3,4,5) True buf_frame_trans [OF i(7) h(3)]
      by (intro exI [of _ kbs] exI [of _ rest'] exI [of _ kps] exI [of _ rps']) (simp add: r q)
    ultimately show ?thesis using nx by blast
  next
    case False
    then have "buf_ack_block ack x s1 = Some (True, s1)"
      by (simp add: buf_ack_block_def r(2) bl acked_def)
    moreover have "ack_inv ack ps s xs s1"
      unfolding ack_inv_def using i r q False
      by (intro exI [of _ "kbs @ [b]"] exI [of _ rest'] exI [of _ "kps @ [p]"] exI [of _ rps']) simp
    ultimately show ?thesis using nx by blast
  qed
qed

lemma blocks_length: "blocks_hold bs ps s \<Longrightarrow> length bs = length ps"
  using map_eq_imp_length_eq [of "t_blocks s" bs] by (auto simp: blocks_hold_def)

lemma buf_ack_buffered:
  assumes "buffered ps s"
  shows "\<exists>s'. buf_ack ack s = Some s' \<and> buffered (filter (\<lambda>p. \<not> acked ack p) ps) s' \<and> buf_frame s s'"
proof -
  from assms obtain bs where bs: "blocks_hold bs ps s" and z: "t_buf_size s = payload_size ps"
    by (auto simp: buffered_def)
  have "ack_inv ack ps s (map Block bs) s"
    unfolding ack_inv_def using bs z blocks_length [OF bs]
    by (intro exI [of _ "[]"] exI [of _ bs] exI [of _ "[]"] exI [of _ ps]) simp
  moreover have "dlist (t_links s) Trans_Buf (map Block bs)" using bs by (simp add: blocks_hold_def)
  ultimately obtain s' where "buf_ack ack s = Some s'" "ack_inv ack ps s [] s'"
    unfolding buf_ack_def
    using list_for_each_safe_rule [of "ack_inv ack ps s" t_links Trans_Buf "buf_ack_block ack", OF ack_step]
    by blast
  then show ?thesis by (auto simp: ack_inv_def buffered_def)
qed

definition remove_inv :: "stack \<Rightarrow> link list \<Rightarrow> stack \<Rightarrow> bool" where
  "remove_inv s xs s' \<longleftrightarrow> (\<exists>rest rps. xs = map Block rest \<and> blocks_hold rest rps s' \<and> buf_frame s s')"

lemma remove_step:
  assumes "remove_inv s (x # xs) s1"
  shows "lnext (t_links s1) x = Some (hd (xs @ [Trans_Buf])) \<and>
    (\<exists>s2. buf_remove_block x s1 = Some (True, s2) \<and> remove_inv s xs s2)"
proof -
  from assms obtain rest rps where i: "x # xs = map Block rest" "blocks_hold rest rps s1" "buf_frame s s1"
    unfolding remove_inv_def by (elim exE conjE) (rule that)
  from i(1) obtain b rest' where r: "rest = b # rest'" "x = Block b" "xs = map Block rest'" by auto
  with blocks_length [OF i(2)] obtain p rps' where q: "rps = p # rps'" by (cases rps) auto
  obtain h where h: "list_delete_entry (Block b) (t_links s1) = Some h"
    "\<forall>z. blocks_hold rest' rps' (free_block b (s1 \<lparr>t_links := h, t_buf_size := z\<rparr>)) \<and>
      buf_frame s1 (free_block b (s1 \<lparr>t_links := h, t_buf_size := z\<rparr>))"
    using block_delete [of "[]" b rest' "[]" p rps' s1] i(2) unfolding r q by auto
  let ?s = "s1 \<lparr>t_links := h, t_buf_size := t_buf_size s1\<rparr>"
  have "buf_remove_block x s1 = Some (True, free_block b (s1 \<lparr>t_links := h\<rparr>))"
    using i(2) h(1) by (simp add: buf_remove_block_def r q upd_links_def blocks_hold_def)
  moreover have "s1 \<lparr>t_links := h\<rparr> = ?s" by simp
  moreover have "lnext (t_links s1) x = Some (hd (xs @ [Trans_Buf]))"
    using i(2) dlist_next [of "t_links s1" Trans_Buf "[]" x xs] by (simp add: r blocks_hold_def)
  ultimately show ?thesis
    using h(2) buf_frame_trans [OF i(3)] unfolding remove_inv_def r(3) by metis
qed

lemma buf_remove_all_buffered:
  assumes "buffered ps s"
  shows "\<exists>s'. buf_remove_and_free_all_block s = Some s' \<and> buffered [] s' \<and> buf_frame s s'"
proof -
  from assms obtain bs where bs: "blocks_hold bs ps s" by (auto simp: buffered_def)
  then have "dlist (t_links s) Trans_Buf (map Block bs)" "remove_inv s (map Block bs) s"
    by (auto simp: blocks_hold_def remove_inv_def)
  then obtain s' where "list_for_each_safe t_links Trans_Buf buf_remove_block s = Some s'" "remove_inv s [] s'"
    using list_for_each_safe_rule [of "remove_inv s" t_links Trans_Buf buf_remove_block, OF remove_step]
    by blast
  then show ?thesis
    by (auto simp: buf_remove_and_free_all_block_def remove_inv_def buffered_def blocks_hold_def buf_frame_def)
qed

lemma first_block:
  assumes "buffered (p # ps) s"
  shows "\<exists>b. lnext (t_links s) Trans_Buf = Some (Block b) \<and>
    t_blocks s b = Some \<lparr>bb_len = length p, bb_packet = p\<rparr>"
proof -
  from assms obtain bs where bs: "blocks_hold bs (p # ps) s" by (auto simp: buffered_def)
  then obtain b bs' where b: "bs = b # bs'" using blocks_length [OF bs] by (cases bs) auto
  have "dlist (t_links s) Trans_Buf (map Block bs)" using bs by (simp add: blocks_hold_def)
  from dlist_first [OF this] have "lnext (t_links s) Trans_Buf = Some (Block b)" by (simp add: b)
  then show ?thesis using bs by (auto simp: blocks_hold_def b)
qed

lemma buffered_empty: "buffered [] s \<Longrightarrow> list_empty (t_links s) Trans_Buf"
  using blocks_length dlist_empty [of "t_links s" Trans_Buf "[]"] by (force simp: buffered_def blocks_hold_def)

text \<open>C9. The sending buffer implements a list of packets with the size of its payloads: adding
  appends a packet, an acknowledgement removes exactly the packets whose first sequence number is
  before it, giving up empties it, and the retransmission sends the first packet with the current
  acknowledgement number and fresh checksums, or nothing when the buffer is empty.\<close>

theorem send_buffer_refines:
  assumes "buffered ps s" "t_socks s i = Some k"
  shows "\<exists>s1 s2 s3. buf_append_packet p s = Some s1 \<and> buffered (ps @ [p]) s1 \<and>
    buf_ack ack s = Some s2 \<and> buffered (filter (\<lambda>q. \<not> less_than_32b (ntohl (th_seq q TCP_AT)) ack) ps) s2 \<and>
    buf_remove_and_free_all_block s = Some s3 \<and> buffered [] s3 \<and>
    buf_retrans_first i s = Some (case ps of [] \<Rightarrow> s
      | q # _ \<Rightarrow> on_router (host_send_packet
          (set_ip_checksum (set_tcp_checksum (st32 q (TCP_AT + 8) (htonl (rcv_nxt k)))))) s)"
proof -
  have "buf_retrans_first i s = Some (case ps of [] \<Rightarrow> s
      | q # _ \<Rightarrow> on_router (host_send_packet
          (set_ip_checksum (set_tcp_checksum (st32 q (TCP_AT + 8) (htonl (rcv_nxt k)))))) s)"
  proof (cases ps)
    case Nil
    then show ?thesis using assms(1) buffered_empty by (simp add: buf_retrans_first_def)
  next
    case (Cons q qs)
    then show ?thesis
      using first_block [of q qs s] assms by (auto simp: buf_retrans_first_def list_empty_def)
  qed
  then show ?thesis
    using buf_append_buffered [OF assms(1), of p] buf_ack_buffered [OF assms(1), of ack]
      buf_remove_all_buffered [OF assms(1)] unfolding acked_def by blast
qed

lemma send_buffer_refines_witness:
  "\<exists>s1. buf_append_packet (replicate 60 0) (demo_stack \<lparr>t_links := init_list_head Trans_Buf (t_links demo_stack),
      t_socks := [0 \<mapsto> fresh_sock]\<rparr>) = Some s1 \<and> buffered [replicate 60 0] s1"
proof -
  let ?s = "demo_stack \<lparr>t_links := init_list_head Trans_Buf (t_links demo_stack), t_socks := [0 \<mapsto> fresh_sock]\<rparr>"
  have "buffered [] ?s"
    by (auto simp: buffered_def blocks_hold_def payload_size_def demo_stack_def dlist_init intro: exI [of _ "[]"])
  moreover have "t_socks ?s 0 = Some fresh_sock" by simp
  ultimately show ?thesis
    using send_buffer_refines [of "[]" ?s 0 fresh_sock "replicate 60 0" 0] unfolding append_Nil by blast
qed

section \<open>Arming the retransmission timer twice\<close>

text \<open>The scan that starts at the head meets the nodes \<open>xs\<close>.\<close>

definition scans :: "link links \<Rightarrow> link \<Rightarrow> link list \<Rightarrow> bool" where
  "scans h head xs \<longleftrightarrow> (\<forall>j \<le> length xs. lnext h ((head # xs) ! j) = Some ((xs @ [head]) ! j))"

lemma chain_scans: "chain h (p # xs @ [q]) \<Longrightarrow> j \<le> length xs \<Longrightarrow> lnext h ((p # xs) ! j) = Some ((xs @ [q]) ! j)"
proof (induction xs arbitrary: p j)
  case (Cons x xs)
  then show ?case by (cases j) auto
qed simp

lemma dlist_scans: "dlist h head xs \<Longrightarrow> scans h head xs"
  using chain_scans by (auto simp: dlist_def scans_def)

definition twice_armed :: "nat \<Rightarrow> link links \<Rightarrow> link links \<Rightarrow> bool" where
  "twice_armed i h0 h \<longleftrightarrow> lnext h = lnext h0 \<and> lnext h (Retrans i) = Some Retrans_List \<and>
     lprev h (Retrans i) = Some (Retrans i) \<and> lprev h Retrans_List = Some (Retrans i)"

lemma stop_twice_armed:
  assumes "twice_armed i h0 (t_links s)" "tcp_stop_retrans_timewait_timer i s = Some s'"
  shows "twice_armed i h0 (t_links s')"
  using assms
  by (auto simp: twice_armed_def tcp_stop_retrans_timewait_timer_def upd_links_def list_delete_entry_def
      free_tcp_sock_def fun_eq_iff split: option.splits bind_splits)

text \<open>A retransmission timer that is armed again while it is the last of the timer list can
  never be taken off it: however often it is then stopped, the scan meets the same timers as
  before, this one among them.\<close>

theorem rearmed_timer_stays:
  assumes "dlist (t_links s) Retrans_List (xs @ [Retrans i])" "t_socks s i = Some k"
  shows "\<exists>s1 s2. tcp_set_retrans_timewait_timer i s = Some s1 \<and>
    tcp_stop_retrans_timewait_timer i s1 = Some s2 \<and>
    (\<forall>n s'. ((\<lambda>r. Option.bind r (tcp_stop_retrans_timewait_timer i)) ^^ n) (Some s1) = Some s' \<longrightarrow>
      scans (t_links s') Retrans_List (xs @ [Retrans i]))"
proof -
  have R: "lnext (t_links s) (Retrans i) = Some Retrans_List" "lprev (t_links s) Retrans_List = Some (Retrans i)"
  proof -
    have "chain (t_links s) ((Retrans_List # xs) @ Retrans i # Retrans_List # [])"
      using assms(1) by (simp add: dlist_def)
    then show "lnext (t_links s) (Retrans i) = Some Retrans_List" "lprev (t_links s) Retrans_List = Some (Retrans i)"
      by (simp_all only: chain_append)
  qed
  define s1 where "s1 = the (tcp_set_retrans_timewait_timer i s)"
  have set: "tcp_set_retrans_timewait_timer i s = Some s1"
    and t1: "twice_armed i (t_links s) (t_links s1)"
    and live: "t_socks s1 i \<noteq> None"
    using R assms(2)
    by (auto simp: s1_def twice_armed_def tcp_set_retrans_timewait_timer_def upd_sock_def upd_links_def
        init_list_node_def init_list_head_def list_add_tail_def list_insert_def tcp_sock_inc_ref_cnt_def fun_eq_iff)
  have stop: "\<exists>s2. tcp_stop_retrans_timewait_timer i s1 = Some s2"
    using t1 live by (auto simp: twice_armed_def tcp_stop_retrans_timewait_timer_def upd_links_def
        list_delete_entry_def free_tcp_sock_def)
  have "twice_armed i (t_links s) (t_links s')"
    if "((\<lambda>r. Option.bind r (tcp_stop_retrans_timewait_timer i)) ^^ n) (Some s1) = Some s'" for n s'
    using that
  proof (induction n arbitrary: s')
    case (Suc n)
    then obtain s0 where "((\<lambda>r. Option.bind r (tcp_stop_retrans_timewait_timer i)) ^^ n) (Some s1) = Some s0"
      "tcp_stop_retrans_timewait_timer i s0 = Some s'" by (auto simp: bind_eq_Some_conv)
    then show ?case using Suc.IH stop_twice_armed by blast
  qed (use t1 in simp)
  moreover have "scans h Retrans_List (xs @ [Retrans i])" if "twice_armed i (t_links s) h" for h
    using that dlist_scans [OF assms(1)] by (simp add: twice_armed_def scans_def)
  ultimately show ?thesis using set stop by blast
qed

lemma rearmed_timer_stays_witness:
  "\<exists>s s1 s2. tcp_set_retrans_timewait_timer 0 s = Some s1 \<and> tcp_stop_retrans_timewait_timer 0 s1 = Some s2 \<and>
    ((\<lambda>r. Option.bind r (tcp_stop_retrans_timewait_timer 0)) ^^ 1) (Some s1) = Some s2 \<and>
    scans (t_links s2) Retrans_List [Retrans 0]"
proof -
  have n: "Retrans 0 \<notin> set [Retrans_List]" by simp
  from dlist_add_tail [OF dlist_init n] obtain h where
    "dlist h Retrans_List [Retrans 0]" by fastforce
  then have "dlist (t_links (demo_stack \<lparr>t_links := h, t_socks := [0 \<mapsto> fresh_sock]\<rparr>)) Retrans_List ([] @ [Retrans 0])"
    by simp
  from rearmed_timer_stays [OF this] obtain s1 s2 where
    "tcp_set_retrans_timewait_timer 0 (demo_stack \<lparr>t_links := h, t_socks := [0 \<mapsto> fresh_sock]\<rparr>) = Some s1"
    "tcp_stop_retrans_timewait_timer 0 s1 = Some s2"
    "\<And>n s'. ((\<lambda>r. Option.bind r (tcp_stop_retrans_timewait_timer 0)) ^^ n) (Some s1) = Some s' \<Longrightarrow>
      scans (t_links s') Retrans_List [Retrans 0]" by auto
  moreover have "((\<lambda>r. Option.bind r (tcp_stop_retrans_timewait_timer 0)) ^^ 1) (Some s1) = Some s2"
    using calculation(2) by simp
  ultimately show ?thesis by blast
qed

end
