(* ===== verification/TcpSock.thy ===== *)
theory TcpSock imports TcpOut begin

text \<open>The socket interface (the second half of \<open>tcp_sock.c\<close> in \<open>exp13/code\<close>): connect, close,
  read and write, and the buffer of segments that came out of order. A call that waits takes the
  behaviour of the other threads as the argument \<open>env\<close>; one that waits forever is \<open>None\<close>.\<close>

section \<open>Out-of-order segments\<close>

definition ofo_packet_enqueue :: "nat \<Rightarrow> tcp_cb \<Rightarrow> bytes \<Rightarrow> stack \<Rightarrow> stack option" where
  "ofo_packet_enqueue i cb packet s =
     (if cb_pl_len cb < 0 \<or> int (length packet) < int HDRS_SIZE + cb_pl_len cb then None
      else do {
        let o' = t_nofos s;
        let data = slice HDRS_SIZE (nat (cb_pl_len cb)) packet;
        let s = s \<lparr>t_nofos := o' + 1, t_ofos := (t_ofos s)(o' \<mapsto>
          \<lparr>ob_seq = cb_seq cb, ob_len = of_int (cb_pl_len cb), ob_data = data\<rparr>)\<rparr>;
        r \<leftarrow> list_find (t_links s) (Ofo_List i) (\<lambda>p. case p of
          Ofo b \<Rightarrow> map_option (\<lambda>ob. less_than_32b (cb_seq cb) (ob_seq ob)) (t_ofos s b)
        | _ \<Rightarrow> None);
        upd_links (list_add_tail (Ofo o') (case r of Some p \<Rightarrow> p | None \<Rightarrow> Ofo_List i)) s
      })"

text \<open>The comparison of the unsigned length with the signed free space is unsigned.\<close>

partial_function (option) wait_space :: "(nat \<Rightarrow> stack \<Rightarrow> stack) \<Rightarrow> nat \<Rightarrow> nat \<Rightarrow> stack \<Rightarrow> (int \<times> stack) option" where
  "wait_space env i b s =
     Option.bind (t_socks s i) (\<lambda>k. Option.bind (t_ofos s b) (\<lambda>ob.
       if ob_len ob \<le> of_int (ring_buffer_free (rcv_buf k)) then Some (0, s)
       else Option.bind (sleep_on env i Wait_Recv s) (\<lambda>rs.
         if fst rs < 0 then Some (- 1, snd rs) else wait_space env i b (snd rs))))"

text \<open>The state of the loop is the stack, the next sequence number and the result.\<close>

definition ofo_dequeue_block ::
    "(nat \<Rightarrow> stack \<Rightarrow> stack) \<Rightarrow> nat \<Rightarrow> link \<Rightarrow> stack \<times> u32 \<times> int \<Rightarrow> (bool \<times> stack \<times> u32 \<times> int) option" where
  "ofo_dequeue_block env i p st = (case (p, st) of
     (Ofo b, (s, seq, r)) \<Rightarrow> do {
       ob \<leftarrow> t_ofos s b;
       if seq = ob_seq ob then do {
         (w, s) \<leftarrow> wait_space env i b s;
         if w < 0 then Some (False, s, seq, - 1)
         else do {
           k \<leftarrow> t_socks s i;
           ob \<leftarrow> t_ofos s b;
           rbuf \<leftarrow> write_ring_buffer (rcv_buf k) (ob_data ob);
           let seq = seq + ob_len ob;
           s \<leftarrow> upd_sock i (\<lambda>k. k \<lparr>rcv_buf := rbuf\<rparr>) s;
           s \<leftarrow> wake_up i Wait_Recv s;
           s \<leftarrow> upd_sock i (\<lambda>k. k \<lparr>rcv_nxt := seq\<rparr>) s;
           s \<leftarrow> upd_links (list_delete_entry (Ofo b)) s;
           Some (True, s \<lparr>t_ofos := (t_ofos s)(b := None)\<rparr>, seq, r)
         }
       } else if less_than_32b seq (ob_seq ob) then Some (False, s, seq, r)
       else Some (False, s, seq, - 1)
     } | _ \<Rightarrow> None)"

definition ofo_packet_dequeue :: "(nat \<Rightarrow> stack \<Rightarrow> stack) \<Rightarrow> nat \<Rightarrow> stack \<Rightarrow> (int \<times> stack) option" where
  "ofo_packet_dequeue env i s = do {
     k \<leftarrow> t_socks s i;
     (s, _, r) \<leftarrow> list_for_each_safe (\<lambda>st. t_links (fst st)) (Ofo_List i) (ofo_dequeue_block env i)
       (s, rcv_nxt k, 0);
     Some (r, s)
   }"

section \<open>Connect and close\<close>

text \<open>The address and port of the peer in network order.\<close>

definition tcp_sock_connect ::
    "(nat \<Rightarrow> stack \<Rightarrow> stack) \<Rightarrow> nat \<Rightarrow> u32 \<Rightarrow> u16 \<Rightarrow> stack \<Rightarrow> (int \<times> stack) option" where
  "tcp_sock_connect env i ip port s = do {
     sport \<leftarrow> tcp_get_port s;
     if sport = 0 then Some (- 1, s)
     else do {
       iface \<leftarrow> (case r_ifaces (t_router s) of [] \<Rightarrow> None | iface # _ \<Rightarrow> Some iface);
       s \<leftarrow> upd_sock i (\<lambda>k. k \<lparr>sk_sport := sport, sk_sip := if_ip iface, sk_dport := ntohs port,
         sk_dip := ntohl ip\<rparr>) s;
       s \<leftarrow> tcp_bind_hash i s;
       s \<leftarrow> tcp_set_retrans_timewait_timer i s;
       s \<leftarrow> tcp_send_control_packet i TCP_SYN s;
       s \<leftarrow> tcp_set_state i TCP_SYN_SENT s;
       (r, s) \<leftarrow> tcp_hash i s;
       if r < 0 then Some (- 1, s)
       else do {
         (r, s) \<leftarrow> sleep_on env i Wait_Connect s;
         Some (if 0 \<le> r then 0 else - 1, s)
       }
     }
   }"

partial_function (option) tcp_sock_clear_listen_queue :: "nat \<Rightarrow> stack \<Rightarrow> stack option" where
  "tcp_sock_clear_listen_queue i s =
     (if list_empty (t_links s) (Listen_Queue i) then Some s
      else Option.bind (lnext (t_links s) (Listen_Queue i)) (\<lambda>p.
        case p of
          Queue_Node c \<Rightarrow>
            Option.bind (upd_links (list_delete_entry (Queue_Node c)) s) (\<lambda>s.
            Option.bind (t_socks s c) (\<lambda>k.
              if sk_state k = TCP_SYN_RECV then
                Option.bind (upd_sock c (\<lambda>k. k \<lparr>sk_parent := None\<rparr>) s) (\<lambda>s.
                Option.bind (tcp_unhash c s) (\<lambda>s.
                Option.bind (free_tcp_sock c s) (tcp_sock_clear_listen_queue i)))
              else tcp_sock_clear_listen_queue i s))
        | _ \<Rightarrow> None))"

definition send_fin :: "nat \<Rightarrow> tcp_state \<Rightarrow> stack \<Rightarrow> stack option" where
  "send_fin i st s = do {
     s \<leftarrow> tcp_set_retrans_timewait_timer i s;
     s \<leftarrow> tcp_send_control_packet i (TCP_FIN OR TCP_ACK) s;
     tcp_set_state i st s
   }"

definition tcp_sock_close :: "nat \<Rightarrow> stack \<Rightarrow> stack option" where
  "tcp_sock_close i s = do {
     k \<leftarrow> t_socks s i;
     case sk_state k of
       TCP_LISTEN \<Rightarrow> do {
         s \<leftarrow> tcp_sock_clear_listen_queue i s;
         s \<leftarrow> tcp_unhash i s;
         tcp_set_state i TCP_CLOSED s
       }
     | TCP_ESTABLISHED \<Rightarrow> send_fin i TCP_FIN_WAIT_1 s
     | TCP_CLOSE_WAIT \<Rightarrow> send_fin i TCP_LAST_ACK s
     | _ \<Rightarrow> Some s
   }"

section \<open>Read and write\<close>

text \<open>Waiting while the receiving buffer is empty, while the window has no room for \<open>n\<close> bytes,
  and until everything is acknowledged; the result is negative when the wait was ended.\<close>

partial_function (option) wait_data :: "(nat \<Rightarrow> stack \<Rightarrow> stack) \<Rightarrow> nat \<Rightarrow> stack \<Rightarrow> (int \<times> stack) option" where
  "wait_data env i s =
     Option.bind (t_socks s i) (\<lambda>k.
       if \<not> ring_buffer_empty (rcv_buf k) then Some (0, s)
       else Option.bind (sleep_on env i Wait_Recv s) (\<lambda>rs.
         if fst rs < 0 then Some (- 1, snd rs) else wait_data env i (snd rs)))"

definition tcp_sock_read ::
    "(nat \<Rightarrow> stack \<Rightarrow> stack) \<Rightarrow> nat \<Rightarrow> int \<Rightarrow> stack \<Rightarrow> (int \<times> bytes \<times> stack) option" where
  "tcp_sock_read env i len s = do {
     (w, s) \<leftarrow> wait_data env i s;
     if w < 0 then do {
       s \<leftarrow> tcp_stop_retrans_timewait_timer i s;
       Some (- 1, [], s)
     } else do {
       k \<leftarrow> t_socks s i;
       let (out, rlen, rbuf) = read_ring_buffer (rcv_buf k) len;
       s \<leftarrow> upd_sock i (\<lambda>k. k \<lparr>rcv_buf := rbuf\<rparr>) s;
       s \<leftarrow> wake_up i Wait_Recv s;
       s \<leftarrow> tcp_stop_retrans_timewait_timer i s;
       Some (rlen, out, s)
     }
   }"

definition NORMAL_TCP_DATA_LEN :: nat where "NORMAL_TCP_DATA_LEN = 1024"

partial_function (option) wait_window ::
    "(nat \<Rightarrow> stack \<Rightarrow> stack) \<Rightarrow> nat \<Rightarrow> int \<Rightarrow> stack \<Rightarrow> (int \<times> stack) option" where
  "wait_window env i n s =
     Option.bind (t_socks s i) (\<lambda>k.
       if t_buf_size s + n \<le> int (unat (snd_wnd k)) then Some (0, s)
       else Option.bind (sleep_on env i Wait_Send s) (\<lambda>rs.
         if fst rs < 0 then Some (- 1, snd rs) else wait_window env i n (snd rs)))"

partial_function (option) wait_acked :: "(nat \<Rightarrow> stack \<Rightarrow> stack) \<Rightarrow> nat \<Rightarrow> stack \<Rightarrow> (int \<times> stack) option" where
  "wait_acked env i s =
     (if t_buf_size s \<le> 0 then Some (0, s)
      else Option.bind (sleep_on env i Wait_Send s) (\<lambda>rs.
        if fst rs < 0 then Some (- 1, snd rs) else wait_acked env i (snd rs)))"

partial_function (option) write_loop ::
    "(nat \<Rightarrow> stack \<Rightarrow> stack) \<Rightarrow> nat \<Rightarrow> bytes \<Rightarrow> stack \<Rightarrow> (int \<times> stack) option" where
  "write_loop env i buf s =
     (if buf = [] then Some (0, s)
      else
        let chunk = take NORMAL_TCP_DATA_LEN buf
        in Option.bind (wait_window env i (int (length chunk)) s) (\<lambda>ws.
          if fst ws < 0 then
            Option.bind (tcp_stop_retrans_timewait_timer i (snd ws)) (\<lambda>s. Some (- 1, s))
          else Option.bind (tcp_send_data i chunk (snd ws)) (\<lambda>s.
            write_loop env i (drop NORMAL_TCP_DATA_LEN buf) s)))"

definition tcp_sock_write :: "(nat \<Rightarrow> stack \<Rightarrow> stack) \<Rightarrow> nat \<Rightarrow> bytes \<Rightarrow> stack \<Rightarrow> (int \<times> stack) option" where
  "tcp_sock_write env i buf s = do {
     s \<leftarrow> tcp_set_retrans_timewait_timer i s;
     (w, s) \<leftarrow> write_loop env i buf s;
     if w < 0 then Some (- 1, s)
     else do {
       (w, s) \<leftarrow> wait_acked env i s;
       if w < 0 then Some (- 1, s)
       else do {
         s \<leftarrow> tcp_stop_retrans_timewait_timer i s;
         Some (0, s)
       }
     }
   }"

end
