(* ===== verification/TcpIn.thy ===== *)
theory TcpIn imports TcpSock begin

text \<open>Receiving (\<open>tcp_in.c\<close>, \<open>tcp.c\<close> and the dispatch of \<open>ip.c\<close> and \<open>main.c\<close> in \<open>exp13/code\<close>):
  the handlers of the states and \<open>tcp_process\<close>.\<close>

section \<open>The handlers\<close>

definition tcp_state_listen :: "nat \<Rightarrow> tcp_cb \<Rightarrow> stack \<Rightarrow> stack option" where
  "tcp_state_listen i cb s =
     (if cb_flags cb AND TCP_SYN = 0 then
        (if cb_flags cb AND TCP_RST \<noteq> 0 then Some s else Some (tcp_send_reset cb s))
      else do {
        let (c, s) = alloc_tcp_sock s;
        let (x, s) = tcp_new_iss s;
        s \<leftarrow> upd_sock c (\<lambda>k. k \<lparr>sk_sip := cb_daddr cb, sk_sport := cb_dport cb, sk_dip := cb_saddr cb,
          sk_dport := cb_sport cb, iss := x, snd_una := x, snd_nxt := x, rcv_nxt := cb_seq cb + 1,
          sk_parent := Some i\<rparr>) s;
        s \<leftarrow> upd_links (list_add_tail (Queue_Node c) (Listen_Queue c)) s;
        s \<leftarrow> tcp_set_state c TCP_SYN_RECV s;
        s \<leftarrow> tcp_set_state i TCP_SYN_RECV s;
        s \<leftarrow> tcp_set_retrans_timewait_timer c s;
        s \<leftarrow> tcp_send_control_packet c (TCP_SYN OR TCP_ACK) s;
        (_, s) \<leftarrow> tcp_hash c s;
        Some s
      })"

definition tcp_state_closed :: "nat \<Rightarrow> tcp_cb \<Rightarrow> stack \<Rightarrow> stack option" where
  "tcp_state_closed i cb s = Some (tcp_send_reset cb s)"

definition tcp_state_syn_sent :: "nat \<Rightarrow> tcp_cb \<Rightarrow> stack \<Rightarrow> stack option" where
  "tcp_state_syn_sent i cb s =
     (if cb_flags cb AND (TCP_SYN OR TCP_ACK) = TCP_SYN OR TCP_ACK then do {
        s \<leftarrow> upd_sock i (\<lambda>k. k \<lparr>rcv_nxt := cb_seq cb + 1, snd_una := cb_ack cb\<rparr>) s;
        s \<leftarrow> buf_ack (cb_ack cb) s;
        s \<leftarrow> tcp_stop_retrans_timewait_timer i s;
        s \<leftarrow> tcp_set_state i TCP_ESTABLISHED s;
        s \<leftarrow> tcp_send_control_packet i TCP_ACK s;
        wake_up i Wait_Connect s
      } else Some (tcp_send_reset cb s))"

definition tcp_update_window :: "nat \<Rightarrow> tcp_cb \<Rightarrow> stack \<Rightarrow> stack option" where
  "tcp_update_window i cb s = do {
     k \<leftarrow> t_socks s i;
     s \<leftarrow> upd_sock i (\<lambda>k. k \<lparr>snd_wnd := ucast (cb_rwnd cb)\<rparr>) s;
     if snd_wnd k = 0 then wake_up i Wait_Send s else Some s
   }"

definition tcp_update_window_safe :: "nat \<Rightarrow> tcp_cb \<Rightarrow> stack \<Rightarrow> stack option" where
  "tcp_update_window_safe i cb s = do {
     k \<leftarrow> t_socks s i;
     if less_or_equal_32b (snd_una k) (cb_ack cb) \<and> less_or_equal_32b (cb_ack cb) (snd_nxt k)
     then tcp_update_window i cb s else Some s
   }"

definition tcp_state_syn_recv :: "nat \<Rightarrow> tcp_cb \<Rightarrow> stack \<Rightarrow> stack option" where
  "tcp_state_syn_recv i cb s =
     (if cb_flags cb AND TCP_ACK \<noteq> 0 then do {
        k \<leftarrow> t_socks s i;
        s \<leftarrow> tcp_sock_accept_enqueue i s;
        s \<leftarrow> upd_sock i (\<lambda>k. k \<lparr>rcv_nxt := cb_seq cb, snd_una := cb_ack cb\<rparr>) s;
        s \<leftarrow> buf_ack (cb_ack cb) s;
        s \<leftarrow> tcp_stop_retrans_timewait_timer i s;
        p \<leftarrow> sk_parent k;
        s \<leftarrow> tcp_set_state p TCP_ESTABLISHED s;
        s \<leftarrow> tcp_set_state i TCP_ESTABLISHED s;
        wake_up p Wait_Accept s
      } else Some s)"

definition is_tcp_seq_valid :: "tcp_sock \<Rightarrow> tcp_cb \<Rightarrow> bool" where
  "is_tcp_seq_valid k cb \<longleftrightarrow>
     (let rcv_end = rcv_nxt k + ucast (max (rcv_wnd k) 1)
      in less_than_32b (cb_seq cb) rcv_end \<and> less_or_equal_32b (rcv_nxt k) (cb_seq_end cb))"

text \<open>The string \<open>"666-get"\<close> with its terminating zero, and \<open>strcmp\<close> of the payload with it; a
  comparison that runs over the end of the frame is \<open>None\<close>.\<close>

definition get_message :: bytes where
  "get_message = [0x36, 0x36, 0x36, 0x2d, 0x67, 0x65, 0x74, 0]"

fun string_equal :: "bytes \<Rightarrow> bytes \<Rightarrow> bool option" where
  "string_equal (c # cs) (d # ds) =
     (if c \<noteq> d then Some False else if d = 0 then Some True else string_equal cs ds)"
| "string_equal _ _ = None"

definition tcp_recv_data :: "(nat \<Rightarrow> stack \<Rightarrow> stack) \<Rightarrow> nat \<Rightarrow> tcp_cb \<Rightarrow> bytes \<Rightarrow> stack \<Rightarrow> stack option" where
  "tcp_recv_data env i cb packet s = do {
     k \<leftarrow> t_socks s i;
     if less_than_32b (cb_seq cb) (rcv_nxt k) then Some s
     else do {
       s \<leftarrow> ofo_packet_enqueue i cb packet s;
       (_, s) \<leftarrow> ofo_packet_dequeue env i s;
       s \<leftarrow> upd_sock i (\<lambda>k. k \<lparr>snd_una :=
         (if greater_than_32b (cb_ack cb) (snd_una k) then cb_ack cb else snd_una k)\<rparr>) s;
       s \<leftarrow> tcp_set_retrans_timewait_timer i s;
       tcp_send_data i get_message s
     }
   }"

section \<open>Processing a segment\<close>

text \<open>An acknowledgement in \<open>TCP_ESTABLISHED\<close>: an empty segment, or one with the text that
  \<open>tcp_recv_data\<close> answers with.\<close>

definition process_ack :: "nat \<Rightarrow> tcp_cb \<Rightarrow> stack \<Rightarrow> stack option" where
  "process_ack i cb s = do {
     s \<leftarrow> upd_sock i (\<lambda>k. k \<lparr>snd_una := cb_ack cb, rcv_nxt := cb_seq cb + 1\<rparr>) s;
     s \<leftarrow> tcp_update_window_safe i cb s;
     s \<leftarrow> buf_ack (cb_ack cb) s;
     s \<leftarrow> tcp_update_retrans_timewait_timer i s;
     wake_up i Wait_Send s
   }"

text \<open>The switches of steps 8 and 10, each with the acknowledgement of step 11 that follows when
  no case applies.\<close>

definition process_closing_ack :: "nat \<Rightarrow> tcp_cb \<Rightarrow> tcp_state \<Rightarrow> stack \<Rightarrow> stack option" where
  "process_closing_ack i cb st s = (case st of
     TCP_FIN_WAIT_1 \<Rightarrow> do {
       s \<leftarrow> buf_ack (cb_ack cb) s;
       s \<leftarrow> tcp_stop_retrans_timewait_timer i s;
       tcp_set_state i TCP_FIN_WAIT_2 s
     }
   | TCP_CLOSING \<Rightarrow> do {
       s \<leftarrow> buf_ack (cb_ack cb) s;
       s \<leftarrow> tcp_stop_retrans_timewait_timer i s;
       s \<leftarrow> tcp_set_state i TCP_TIME_WAIT s;
       s \<leftarrow> tcp_set_timewait_timer i s;
       tcp_unhash i s
     }
   | TCP_LAST_ACK \<Rightarrow> do {
       s \<leftarrow> buf_ack (cb_ack cb) s;
       s \<leftarrow> tcp_stop_retrans_timewait_timer i s;
       tcp_set_state i TCP_CLOSED s
     }
   | _ \<Rightarrow> tcp_send_control_packet i TCP_ACK s)"

definition process_fin :: "nat \<Rightarrow> tcp_cb \<Rightarrow> tcp_state \<Rightarrow> stack \<Rightarrow> stack option" where
  "process_fin i cb st s = (case st of
     TCP_ESTABLISHED \<Rightarrow> do {
       s \<leftarrow> upd_sock i (\<lambda>k. k \<lparr>rcv_nxt := cb_seq cb + 1\<rparr>) s;
       s \<leftarrow> wait_exit i Wait_Recv s;
       s \<leftarrow> wait_exit i Wait_Send s;
       s \<leftarrow> tcp_set_state i TCP_CLOSE_WAIT s;
       tcp_send_control_packet i TCP_ACK s
     }
   | TCP_FIN_WAIT_1 \<Rightarrow> do {
       s \<leftarrow> tcp_set_state i TCP_CLOSING s;
       tcp_send_control_packet i TCP_ACK s
     }
   | TCP_FIN_WAIT_2 \<Rightarrow> do {
       s \<leftarrow> upd_sock i (\<lambda>k. k \<lparr>rcv_nxt := cb_seq cb + 1\<rparr>) s;
       s \<leftarrow> tcp_set_state i TCP_TIME_WAIT s;
       s \<leftarrow> tcp_set_timewait_timer i s;
       s \<leftarrow> tcp_send_control_packet i TCP_ACK s;
       tcp_unhash i s
     }
   | _ \<Rightarrow> tcp_send_control_packet i TCP_ACK s)"

text \<open>Without a socket nothing happens.\<close>

definition tcp_process ::
    "(nat \<Rightarrow> stack \<Rightarrow> stack) \<Rightarrow> nat option \<Rightarrow> tcp_cb \<Rightarrow> bytes \<Rightarrow> stack \<Rightarrow> stack option" where
  "tcp_process env tsk cb packet s = (case tsk of None \<Rightarrow> Some s | Some i \<Rightarrow> do {
     k \<leftarrow> t_socks s i;
     let st = sk_state k;
     let flags = cb_flags cb;
     if st = TCP_CLOSED then tcp_state_closed i cb s
     else if st = TCP_LISTEN then tcp_state_listen i cb s
     else if st = TCP_SYN_SENT then tcp_state_syn_sent i cb s
     else if flags AND TCP_RST \<noteq> 0 then do {
       s \<leftarrow> tcp_sock_close i s;
       free_tcp_sock i s
     }
     else if flags AND TCP_SYN \<noteq> 0 then tcp_sock_close i (tcp_send_reset cb s)
     else if flags AND TCP_ACK = 0 then Some (tcp_send_reset cb s)
     else if st = TCP_SYN_RECV then tcp_state_syn_recv i cb s
     else if flags AND TCP_FIN \<noteq> 0 then process_fin i cb st s
     else if st = TCP_ESTABLISHED then do {
       ack \<leftarrow> (if cb_pl_len cb = 0 then Some True else string_equal (cb_payload cb) get_message);
       if ack then process_ack i cb s else tcp_recv_data env i cb packet s
     }
     else process_closing_ack i cb st s
   })"

section \<open>The flags as text\<close>

text \<open>\<open>tcp_copy_flags_to_str\<close> fills a buffer of 32 bytes; the texts are \<open>"FIN|"\<close>, \<open>"SYN|"\<close>,
  \<open>"RST|"\<close>, \<open>"PSH|"\<close>, \<open>"ACK|"\<close> and \<open>"URG|"\<close>.\<close>

definition copy_flag_str :: "u8 \<Rightarrow> u8 \<times> bytes \<Rightarrow> nat \<times> bytes \<Rightarrow> nat \<times> bytes" where
  "copy_flag_str flags = (\<lambda>(flag, str) (len, buf).
     if flags AND flag \<noteq> 0 then (len + 4, blit buf len (str @ [0])) else (len, buf))"

definition tcp_copy_flags_to_str :: "u8 \<Rightarrow> bytes \<Rightarrow> bytes" where
  "tcp_copy_flags_to_str flags buf =
     (let buf = blit buf 0 (replicate 32 0);
          (len, buf) = fold (copy_flag_str flags)
            [(TCP_FIN, [0x46, 0x49, 0x4e, 0x7c]), (TCP_SYN, [0x53, 0x59, 0x4e, 0x7c]),
             (TCP_RST, [0x52, 0x53, 0x54, 0x7c]), (TCP_PSH, [0x50, 0x53, 0x48, 0x7c]),
             (TCP_ACK, [0x41, 0x43, 0x4b, 0x7c]), (TCP_URG, [0x55, 0x52, 0x47, 0x7c])] (0, buf)
      in if len \<noteq> 0 then st8 buf (len - 1) 0 else buf)"

lemma copied_flags_fit:
  assumes "length buf = 32"
  shows "length (tcp_copy_flags_to_str flags buf) = 32"
  using assms by (simp add: tcp_copy_flags_to_str_def copy_flag_str_def length_blit Let_def)

section \<open>Incoming packets\<close>

text \<open>\<open>t\<close> is the offset of the TCP header.\<close>

definition tcp_cb_init :: "bytes \<Rightarrow> nat \<Rightarrow> tcp_cb" where
  "tcp_cb_init p t =
     (let len = int (unat (ntohs (ip_tot_len p))) - int (IP_HDR_SIZE p) - int (TCP_HDR_SIZE p t);
          seq = ntohl (th_seq p t)
      in \<lparr>cb_saddr = ntohl (ip_saddr p), cb_daddr = ntohl (ip_daddr p),
          cb_sport = ntohs (th_sport p t), cb_dport = ntohs (th_dport p t),
          cb_seq = seq,
          cb_seq_end = seq + of_int len +
            (if th_flags p t AND (TCP_SYN OR TCP_FIN) \<noteq> 0 then 1 else 0),
          cb_ack = ntohl (th_ack p t),
          cb_payload = drop (t + th_off p t * 4) p, cb_pl_len = len,
          cb_rwnd = ucast (ntohs (th_rwnd p t)), cb_flags = th_flags p t\<rparr>)"

text \<open>Whether the headers and the bytes that the checksum sums lie in the frame.\<close>

definition tcp_in_bounds :: "bytes \<Rightarrow> bool" where
  "tcp_in_bounds p \<longleftrightarrow> TCP_AT \<le> length p \<and> ip_data p + TCP_BASE_HDR_SIZE \<le> length p \<and>
     ip_data p + unat (ntohs (ip_tot_len p) - of_nat (IP_HDR_SIZE p)) \<le> length p"

definition handle_tcp_packet :: "(nat \<Rightarrow> stack \<Rightarrow> stack) \<Rightarrow> bytes \<Rightarrow> stack \<Rightarrow> stack option" where
  "handle_tcp_packet env packet s =
     (if \<not> tcp_in_bounds packet then None
      else if tcp_checksum packet \<noteq> th_cksum packet (ip_data packet) then Some s
      else do {
        let cb = tcp_cb_init packet (ip_data packet);
        tsk \<leftarrow> tcp_sock_lookup cb s;
        tcp_process env tsk cb packet s
      })"

definition host_handle_ip :: "(nat \<Rightarrow> stack \<Rightarrow> stack) \<Rightarrow> nat \<Rightarrow> bytes \<Rightarrow> stack \<Rightarrow> stack option" where
  "host_handle_ip env i packet s =
     (let daddr = ntohl (ip_daddr packet); r = t_router s;
          lift = map_option (\<lambda>r. s \<lparr>t_router := r\<rparr>)
      in if daddr = if_ip (r_ifaces r ! i) then
           (if ip_protocol packet = IPPROTO_ICMP then
              (if icmp_type packet (ip_data packet) = ICMP_ECHOREQUEST
               then lift (host_icmp_send packet ICMP_ECHOREPLY 0 r) else Some s)
            else if ip_protocol packet = IPPROTO_TCP then handle_tcp_packet env packet s
            else Some s)
         else lift (host_forward_packet daddr packet r))"

definition host_handle_packet :: "(nat \<Rightarrow> stack \<Rightarrow> stack) \<Rightarrow> nat \<Rightarrow> bytes \<Rightarrow> stack \<Rightarrow> stack option" where
  "host_handle_packet env i packet s =
     (if ntohs (eth_type packet) = ETH_P_IP then host_handle_ip env i packet s
      else if ntohs (eth_type packet) = ETH_P_ARP
      then map_option (\<lambda>r. s \<lparr>t_router := r\<rparr>) (handle_arp_packet i packet (t_router s))
      else Some s)"

end
