(* ===== verification/TcpSegment.thy ===== *)
theory TcpSegment imports TcpIn begin

text \<open>The segments on the wire: what the sending functions of the TCP stack build, the receiving
  side accepts and reads back.\<close>

section \<open>Headers\<close>

lemmas hdr_sizes = TCP_AT_def HDRS_SIZE_def ETHER_HDR_SIZE_def IP_BASE_HDR_SIZE_def TCP_BASE_HDR_SIZE_def

lemmas th_defs = th_sport_def th_dport_def th_seq_def th_ack_def th_off_def th_flags_def th_rwnd_def th_cksum_def

lemma drop_14_34: "drop 14 p = drop 14 q \<Longrightarrow> drop 34 p = drop 34 q"
proof -
  assume "drop 14 p = drop 14 q"
  then have "drop 20 (drop 14 p) = drop 20 (drop 14 q)" by (rule arg_cong)
  then show ?thesis by simp
qed

lemma tcp_fields_cong:
  assumes "drop 34 p = drop 34 q" "34 \<le> length p" "34 \<le> length q"
  shows "th_sport p 34 = th_sport q 34" "th_dport p 34 = th_dport q 34" "th_seq p 34 = th_seq q 34"
    "th_ack p 34 = th_ack q 34" "th_off p 34 = th_off q 34" "th_flags p 34 = th_flags q 34"
    "th_rwnd p 34 = th_rwnd q 34" "th_cksum p 34 = th_cksum q 34"
  using assms by (simp_all add: th_defs ld8_drop [of 34] ld16_drop [of 34] ld32_drop [of 34])

lemma tcp_init_hdr_fields:
  assumes "54 \<le> length p"
  shows "th_sport (tcp_init_hdr sp dp sq ak fl wn p) 34 = htons sp"
    "th_dport (tcp_init_hdr sp dp sq ak fl wn p) 34 = htons dp"
    "th_seq (tcp_init_hdr sp dp sq ak fl wn p) 34 = htonl sq"
    "th_ack (tcp_init_hdr sp dp sq ak fl wn p) 34 = htonl ak"
    "th_off (tcp_init_hdr sp dp sq ak fl wn p) 34 = 5"
    "th_flags (tcp_init_hdr sp dp sq ak fl wn p) 34 = fl"
    "th_rwnd (tcp_init_hdr sp dp sq ak fl wn p) 34 = htons wn"
    "length (tcp_init_hdr sp dp sq ak fl wn p) = length p"
    "drop 54 (tcp_init_hdr sp dp sq ak fl wn p) = drop 54 p"
  using assms
  by (simp_all add: tcp_init_hdr_def hdr_sizes Let_def th_defs ld_st_apart apart_def length_blit drop_st drop_blit)

text \<open>A packet with a plain IP header and a TCP checksum that was just set.\<close>

definition plain_ip :: "u32 \<Rightarrow> u32 \<Rightarrow> nat \<Rightarrow> bytes \<Rightarrow> bool" where
  "plain_ip sa da n p \<longleftrightarrow> length p = 54 + n \<and> ip_ihl p = 5 \<and> ip_tot_len p = htons (of_nat (40 + n)) \<and>
     ip_protocol p = IPPROTO_TCP \<and> ip_saddr p = htonl sa \<and> ip_daddr p = htonl da"

lemma plain_ip_cong:
  assumes "plain_ip sa da n p" "drop 14 q = drop 14 p" "length q = length p"
  shows "plain_ip sa da n q"
  using assms ip_fields_cong [of q p] by (simp add: plain_ip_def)

lemma plain_ip_init:
  "length p = 54 + n \<Longrightarrow> plain_ip sa da n (ip_init_hdr sa da (of_nat (40 + n)) IPPROTO_TCP x p)"
  by (simp add: plain_ip_def ip_init_hdr_fields)

lemma plain_ip_set:
  assumes "plain_ip sa da n p"
  shows "plain_ip sa da n (set_tcp_checksum p)" "plain_ip sa da n (set_ip_checksum p)"
proof -
  show "plain_ip sa da n (set_ip_checksum p)" using assms by (simp add: plain_ip_def)
  show "plain_ip sa da n (set_tcp_checksum p)" using assms
    by (simp add: plain_ip_def set_tcp_checksum_def ip_data_def ETHER_HDR_SIZE_def IP_HDR_SIZE_def
        ip_field_defs ld_st_apart apart_def)
qed

lemma tcp_checksum_cong:
  assumes "drop 14 q = drop 14 p" "length q = length p" "54 \<le> length p" "ip_ihl p = 5"
  shows "tcp_checksum q = tcp_checksum p"
proof -
  have ih: "ip_ihl q = 5" using ip_fields_cong [of q p] assms by simp
  have "drop 34 q = drop 34 p" using drop_14_34 [OF assms(1)] .
  then have "drop 34 (st16 q 50 0) = drop 34 (st16 p 50 0)" by (simp add: drop_st16)
  then show ?thesis
    using ip_fields_cong [of q p] assms ih
    by (simp add: tcp_checksum_def ip_data_def IP_HDR_SIZE_def ETHER_HDR_SIZE_def)
qed

lemma tcp_checksum_set:
  assumes "plain_ip sa da n p"
  shows "tcp_checksum (set_tcp_checksum p) = th_cksum (set_tcp_checksum p) 34"
    "tcp_checksum (set_ip_checksum p) = tcp_checksum p"
proof -
  have p: "ip_ihl p = 5" "54 \<le> length p" using assms by (simp_all add: plain_ip_def)
  have "ip_ihl (set_tcp_checksum p) = 5" using plain_ip_set(1) [OF assms] by (simp add: plain_ip_def)
  then show "tcp_checksum (set_tcp_checksum p) = th_cksum (set_tcp_checksum p) 34"
    using p plain_ip_set(1) [OF assms] assms
    by (simp add: set_tcp_checksum_def tcp_checksum_def ip_data_def IP_HDR_SIZE_def ETHER_HDR_SIZE_def
        th_cksum_def plain_ip_def ip_field_defs ld_st_apart apart_def)
  show "tcp_checksum (set_ip_checksum p) = tcp_checksum p"
    using p
    by (simp add: set_ip_checksum_def tcp_checksum_def ip_data_def IP_HDR_SIZE_def ETHER_HDR_SIZE_def
        ip_field_defs ld_st_apart apart_def drop_st16 drop_st)
qed

lemma of_nat_16: "n \<le> 65495 \<Longrightarrow> unat (of_nat (40 + n) :: u16) = 40 + n"
  by (simp add: unat_of_nat del: of_nat_add)

text \<open>The segment with the given fields and payload, as a frame with any Ethernet header.\<close>

definition segment_cb :: "u32 \<Rightarrow> u32 \<Rightarrow> u16 \<Rightarrow> u16 \<Rightarrow> u32 \<Rightarrow> u32 \<Rightarrow> u8 \<Rightarrow> u16 \<Rightarrow> bytes \<Rightarrow> tcp_cb" where
  "segment_cb sa da sp dp sq ak fl wn data =
     \<lparr>cb_saddr = sa, cb_daddr = da, cb_sport = sp, cb_dport = dp, cb_seq = sq,
      cb_seq_end = sq + of_nat (length data) + (if fl AND (TCP_SYN OR TCP_FIN) \<noteq> 0 then 1 else 0),
      cb_ack = ak, cb_payload = data, cb_pl_len = int (length data), cb_rwnd = ucast wn, cb_flags = fl\<rparr>"

definition carries :: "bytes \<Rightarrow> tcp_cb \<Rightarrow> bool" where
  "carries q cb \<longleftrightarrow> tcp_in_bounds q \<and> tcp_checksum q = th_cksum q (ip_data q) \<and>
     tcp_cb_init q (ip_data q) = cb"

text \<open>The header fields of such a packet.\<close>

definition has_fields :: "u16 \<Rightarrow> u16 \<Rightarrow> u32 \<Rightarrow> u32 \<Rightarrow> u8 \<Rightarrow> u16 \<Rightarrow> bytes \<Rightarrow> bool" where
  "has_fields sp dp sq ak fl wn p \<longleftrightarrow> th_sport p 34 = htons sp \<and> th_dport p 34 = htons dp \<and>
     th_seq p 34 = htonl sq \<and> th_ack p 34 = htonl ak \<and> th_off p 34 = 5 \<and> th_flags p 34 = fl \<and>
     th_rwnd p 34 = htons wn"

lemma built_segment:
  assumes "plain_ip sa da n H" "has_fields sp dp sq ak fl wn H" "n \<le> 65495"
    and q: "drop 14 q = drop 14 (set_tcp_checksum H) \<or> drop 14 q = drop 14 (set_ip_checksum (set_tcp_checksum H))"
    "length q = length H"
  shows "carries q (segment_cb sa da sp dp sq ak fl wn (drop 54 H))"
proof -
  let ?T = "set_tcp_checksum H"
  have lh: "length H = 54 + n" and ih: "ip_data H = 34"
    using assms(1) by (simp_all add: plain_ip_def ip_data_def IP_HDR_SIZE_def ETHER_HDR_SIZE_def)
  have T: "plain_ip sa da n ?T" "plain_ip sa da n (set_ip_checksum ?T)"
    using plain_ip_set assms(1) by blast+
  have pq: "plain_ip sa da n q" using q lh plain_ip_cong [OF T(1)] plain_ip_cong [OF T(2)] by auto
  have i5: "ip_ihl ?T = 5" using T(1) by (simp add: plain_ip_def)
  have ck: "tcp_checksum q = tcp_checksum ?T"
    using q(1)
  proof
    assume "drop 14 q = drop 14 ?T"
    then show ?thesis using tcp_checksum_cong [of q ?T] q(2) lh i5 by simp
  next
    assume "drop 14 q = drop 14 (set_ip_checksum ?T)"
    then have "tcp_checksum q = tcp_checksum (set_ip_checksum ?T)"
      using tcp_checksum_cong [of q "set_ip_checksum ?T"] q(2) lh i5 by simp
    then show ?thesis using tcp_checksum_set(2) [OF T(1)] by simp
  qed
  have "drop 34 (set_ip_checksum ?T) = drop 34 ?T" by (simp add: set_ip_checksum_def drop_st)
  then have d34: "drop 34 q = drop 34 ?T"
    using q(1) drop_14_34 [of q ?T] drop_14_34 [of q "set_ip_checksum ?T"] by auto
  have T2: "has_fields sp dp sq ak fl wn ?T" "drop 54 ?T = drop 54 H"
    using assms(2) ih
    by (simp_all add: has_fields_def set_tcp_checksum_def th_defs ld_st_apart apart_def drop_st)
  have fq: "has_fields sp dp sq ak fl wn q" "th_cksum q 34 = th_cksum ?T 34"
    using T2(1) tcp_fields_cong [OF d34] q(2) lh by (simp_all add: has_fields_def)
  have "drop 54 q = drop 54 ?T"
  proof -
    have "drop 20 (drop 34 q) = drop 20 (drop 34 ?T)" using d34 by (rule arg_cong)
    then show ?thesis by simp
  qed
  then have data: "drop 54 q = drop 54 H" using T2(2) by simp
  have u: "unat (ntohs (ip_tot_len q)) = 40 + n" using pq of_nat_16 [OF assms(3)] by (simp add: plain_ip_def)
  have dq: "ip_data q = 34" "IP_HDR_SIZE q = 20"
    using pq by (simp_all add: plain_ip_def ip_data_def IP_HDR_SIZE_def ETHER_HDR_SIZE_def)
  have "unat (ntohs (ip_tot_len q) - 20) = 20 + n"
    using u by (simp add: unat_sub word_le_nat_alt)
  then have "tcp_in_bounds q"
    using q(2) lh by (simp add: tcp_in_bounds_def dq hdr_sizes)
  moreover have "tcp_checksum q = th_cksum q (ip_data q)"
    using ck fq(2) tcp_checksum_set(1) [OF assms(1)] by (simp add: dq)
  moreover have "tcp_cb_init q (ip_data q) = segment_cb sa da sp dp sq ak fl wn (drop 54 H)"
    using pq u fq(1) data lh
    by (simp add: tcp_cb_init_def segment_cb_def dq TCP_HDR_SIZE_def plain_ip_def has_fields_def)
  ultimately show ?thesis by (simp add: carries_def)
qed

text \<open>The two orders in which the headers are made.\<close>

lemma ip_after_tcp:
  fixes n sa da x sp dp sq ak fl wn p
  assumes "length p = 54 + n"
  defines "H \<equiv> ip_init_hdr sa da (of_nat (40 + n)) IPPROTO_TCP x (tcp_init_hdr sp dp sq ak fl wn p)"
  shows "plain_ip sa da n H" "has_fields sp dp sq ak fl wn H" "drop 54 H = drop 54 p"
proof -
  show "plain_ip sa da n H"
    unfolding H_def by (rule plain_ip_init) (use assms(1) in \<open>simp add: tcp_init_hdr_fields\<close>)
  have "drop 34 H = drop 34 (tcp_init_hdr sp dp sq ak fl wn p)"
    unfolding H_def using assms(1) by (simp add: ip_init_hdr_fields(7) tcp_init_hdr_fields(8))
  then show "has_fields sp dp sq ak fl wn H"
    using tcp_fields_cong [of H "tcp_init_hdr sp dp sq ak fl wn p"] assms(1)
    by (simp add: has_fields_def H_def tcp_init_hdr_fields)
  show "drop 54 H = drop 54 p"
    unfolding H_def using assms(1) by (simp add: ip_init_hdr_fields(7) tcp_init_hdr_fields(8,9))
qed

lemma tcp_after_ip:
  fixes n sa da x sp dp sq ak fl wn p
  assumes "length p = 54 + n"
  defines "H \<equiv> tcp_init_hdr sp dp sq ak fl wn (ip_init_hdr sa da (of_nat (40 + n)) IPPROTO_TCP x p)"
  shows "plain_ip sa da n H" "has_fields sp dp sq ak fl wn H" "drop 54 H = drop 54 p"
proof -
  let ?I = "ip_init_hdr sa da (of_nat (40 + n)) IPPROTO_TCP x p"
  have I: "plain_ip sa da n ?I" by (rule plain_ip_init [OF assms(1)])
  have l: "length ?I = 54 + n" using assms(1) by simp
  have "ip_ihl H = ip_ihl ?I" "ip_tot_len H = ip_tot_len ?I" "ip_protocol H = ip_protocol ?I"
    "ip_saddr H = ip_saddr ?I" "ip_daddr H = ip_daddr ?I"
    unfolding H_def using l
    by (simp_all add: tcp_init_hdr_def hdr_sizes Let_def ip_field_defs ld_st_apart apart_def ld_blit_apart)
  then show "plain_ip sa da n H" using I l by (simp add: plain_ip_def H_def tcp_init_hdr_fields)
  show "has_fields sp dp sq ak fl wn H" using l by (simp add: has_fields_def H_def tcp_init_hdr_fields)
  show "drop 54 H = drop 54 p"
    unfolding H_def using assms(1) by (simp add: ip_init_hdr_fields(7) tcp_init_hdr_fields(9))
qed

lemma host_send_hit:
  assumes "reachable_via (ntohl (ip_daddr p)) e mac r" "34 \<le> length p"
  shows "\<exists>q. length q = length p \<and> drop 14 q = drop 14 p \<and> eth_dhost q = mac \<and>
    eth_type q = htons ETH_P_IP \<and>
    host_send_packet p r = r \<lparr>r_out := r_out r @ [(rt_iface e, q)]\<rparr>"
proof -
  let ?m = "if_mac (r_ifaces r ! rt_iface e)"
  let ?q = "blit (st16 (blit (blit (st16 p 12 (htons ETH_P_IP)) 6 ?m) 6 ?m) 12 (htons ETH_P_IP)) 0 mac"
  have a: "longest_prefix_match (ntohl (ip_daddr p)) r = Some e" "length ?m = 6" "length mac = 6"
    "arpcache_lookup (get_next_hop e (ntohl (ip_daddr p))) r = Some mac"
    using assms(1) by (simp_all add: reachable_via_def)
  have "length ?q = length p" "drop 14 ?q = drop 14 p" "eth_type ?q = htons ETH_P_IP"
    using a assms(2) by (simp_all add: length_blit drop_blit drop_st eth_type_def ld_blit_apart apart_def)
  moreover have "eth_dhost ?q = mac"
    using a assms(2) slice_blit [of 0 mac] by (simp add: eth_dhost_def length_blit)
  moreover have "host_send_packet p r = r \<lparr>r_out := r_out r @ [(rt_iface e, ?q)]\<rparr>"
    using a by (simp add: host_send_packet_def iface_send_by_arp_def iface_send_packet_def Let_def)
  ultimately show ?thesis by blast
qed

section \<open>Sending\<close>

lemma buffered_upd [simp]:
  "buffered ps (s \<lparr>t_router := r\<rparr>) = buffered ps s" "buffered ps (s \<lparr>t_socks := k\<rparr>) = buffered ps s"
  by (simp_all add: buffered_def blocks_hold_def)

lemma reachable_upd [simp]:
  "reachable_via d e mac (snd (malloc n r)) = reachable_via d e mac r"
  "reachable_via d e mac (snd (rand r)) = reachable_via d e mac r"
  by (simp_all add: malloc_def rand_def reachable_via_def longest_prefix_match_def arpcache_lookup_def)

lemma r_out_upd [simp]: "r_out (snd (malloc n r)) = r_out r" "r_out (snd (rand r)) = r_out r"
  by (simp_all add: malloc_def rand_def)

lemma length_malloc [simp]: "length (fst (malloc n r)) = n"
  by (simp add: malloc_def)

text \<open>Appending a packet to the buffer and setting the timer, the end of every transmission.\<close>

definition armed :: "tcp_sock \<Rightarrow> tcp_sock" where
  "armed k = k \<lparr>retrans_timer := (retrans_timer k)
     \<lparr>tm_type := 0, tm_timeout := DEFAULT_RETRANS_TIME, tm_retrans_times := 0\<rparr>\<rparr>"

lemma armed_fields [simp]:
  "snd_nxt (armed k) = snd_nxt k" "sk_state (armed k) = sk_state k" "sk_parent (armed k) = sk_parent k"
  "rcv_nxt (armed k) = rcv_nxt k" "ref_cnt (armed k) = ref_cnt k" "sk_wait (armed k) = sk_wait k"
  "sk_sip (armed k) = sk_sip k" "sk_dip (armed k) = sk_dip k" "sk_sport (armed k) = sk_sport k"
  "sk_dport (armed k) = sk_dport k" "rcv_wnd (armed k) = rcv_wnd k" "snd_una (armed k) = snd_una k"
  "accept_backlog (armed k) = accept_backlog k"
  by (simp_all add: armed_def)

lemma buffer_and_arm:
  assumes "buffered ps s" "t_socks s i = Some k"
  shows "\<exists>s1 s2. buf_append_packet p s = Some s1 \<and> tcp_update_retrans_timewait_timer i s1 = Some s2 \<and>
    buffered (ps @ [p]) s2 \<and> t_router s2 = t_router s \<and> t_socks s2 = (t_socks s)(i \<mapsto> armed k) \<and>
    buf_frame s s1 \<and> t_links s2 = t_links s1"
proof -
  from buf_append_buffered [OF assms(1), of p] obtain s1 where
    s1: "buf_append_packet p s = Some s1" "buffered (ps @ [p]) s1" "buf_frame s s1" by blast
  then have "t_socks s1 = t_socks s" "t_router s1 = t_router s" by (simp_all add: buf_frame_def)
  then show ?thesis
    using s1 assms(2) by (simp add: tcp_update_retrans_timewait_timer_def upd_sock_def armed_def)
qed

text \<open>A segment with data: what is sent, what is kept, and what else changes.\<close>

lemma data_sent:
  assumes "buffered ps s" "t_socks s i = Some k" "length buf \<le> 65495"
    and "reachable_via (sk_dip k) e mac (t_router s)"
  shows "\<exists>s' p q. tcp_send_data i buf s = Some s' \<and> buffered (ps @ [p]) s' \<and>
    length p = 54 + length buf \<and> ntohl (th_seq p TCP_AT) = snd_nxt k \<and>
    length q = 54 + length buf \<and> drop 54 q = buf \<and>
    t_socks s' = (t_socks s)(i \<mapsto> armed (k \<lparr>snd_nxt := snd_nxt k + of_nat (length buf)\<rparr>)) \<and>
    t_nsocks s' = t_nsocks s \<and> t_ofos s' = t_ofos s \<and> t_nofos s' = t_nofos s \<and> t_sleeps s' = t_sleeps s \<and> t_exited s' = t_exited s \<and>
    (\<forall>x. x \<noteq> Trans_Buf \<and> x \<notin> range Block \<longrightarrow>
      lnext (t_links s') x = lnext (t_links s) x \<and> lprev (t_links s') x = lprev (t_links s) x) \<and>
    r_out (t_router s') = r_out (t_router s) @ [(rt_iface e, q)] \<and> r_ifaces (t_router s') = r_ifaces (t_router s) \<and>
    r_rtable (t_router s') = r_rtable (t_router s) \<and> r_entries (t_router s') = r_entries (t_router s) \<and>
    eth_dhost q = mac \<and> drop 14 q = drop 14 p \<and>
    (\<forall>f. length f = length q \<and> drop 14 f = drop 14 q \<longrightarrow>
      carries f (segment_cb (sk_sip k) (sk_dip k) (sk_sport k) (sk_dport k) (snd_nxt k) (rcv_nxt k)
        (TCP_PSH OR TCP_ACK) (rcv_wnd k) buf))"
proof -
  define n where "n = length buf"
  define r1 where "r1 = snd (malloc (54 + n) (t_router s))"
  define p0 where "p0 = blit (fst (malloc (54 + n) (t_router s))) 54 buf"
  have p0: "length p0 = 54 + n" "drop 54 p0 = buf"
    by (simp_all add: p0_def n_def length_blit) (simp add: blit_def)
  define H where "H = ip_init_hdr (sk_sip k) (sk_dip k) (of_nat (40 + n)) IPPROTO_TCP (fst (rand r1))
    (tcp_init_hdr (sk_sport k) (sk_dport k) (snd_nxt k) (rcv_nxt k) (TCP_PSH OR TCP_ACK) (rcv_wnd k) p0)"
  define p where "p = set_ip_checksum (set_tcp_checksum H)"
  define r2 where "r2 = snd (rand r1)"
  define s2 where "s2 = s \<lparr>t_router := r2, t_socks := (t_socks s)(i \<mapsto> k \<lparr>snd_nxt := snd_nxt k + of_nat n\<rparr>)\<rparr>"
  have lp: "length p = 54 + n" using p0 by (simp add: p_def H_def tcp_init_hdr_fields)
  have "buffered ps s2" "t_socks s2 i = Some (k \<lparr>snd_nxt := snd_nxt k + of_nat n\<rparr>)"
    using assms(1) by (simp_all add: s2_def)
  from buffer_and_arm [OF this, of p] obtain s3 s4 where
    s3: "buf_append_packet p s2 = Some s3" "tcp_update_retrans_timewait_timer i s3 = Some s4"
    "buffered (ps @ [p]) s4" "t_router s4 = r2"
    "t_socks s4 = (t_socks s)(i \<mapsto> armed (k \<lparr>snd_nxt := snd_nxt k + of_nat n\<rparr>))"
    "buf_frame s2 s3" "t_links s4 = t_links s3"
    by (auto simp: s2_def)
  obtain ks where s4: "s4 = s3 \<lparr>t_socks := ks\<rparr>"
    using s3(2) by (auto simp: tcp_update_retrans_timewait_timer_def upd_sock_def split: bind_splits)
  have keep: "t_nsocks s4 = t_nsocks s" "t_ofos s4 = t_ofos s" "t_nofos s4 = t_nofos s" "t_sleeps s4 = t_sleeps s" "t_exited s4 = t_exited s"
    "\<forall>x. x \<noteq> Trans_Buf \<and> x \<notin> range Block \<longrightarrow>
      lnext (t_links s4) x = lnext (t_links s) x \<and> lprev (t_links s4) x = lprev (t_links s) x"
    using s3(6) by (simp_all add: buf_frame_def s4) (simp_all add: s2_def)
  have tot: "int (length p0) - 14 = int (40 + n)" "int (length p0) - 14 - 20 - 20 = int n"
    using p0 by simp_all
  have "tcp_send_packet i p0 (s \<lparr>t_router := r1\<rparr>) = Some (on_router (host_send_packet p) s4)"
    using assms(2) s3(1,2)
    unfolding tcp_send_packet_def stack_rand_def split_beta Let_def hdr_sizes s2_def r2_def p_def H_def of_nat_numeral tot of_int_of_nat_eq
    by (simp add: upd_sock_def)
  then have run: "tcp_send_data i buf s = Some (on_router (host_send_packet p) s4)"
    by (simp add: tcp_send_data_def stack_malloc_def split_beta Let_def hdr_sizes n_def p0_def r1_def)
  note H = ip_after_tcp [OF p0(1), where sa = "sk_sip k" and da = "sk_dip k" and x = "fst (rand r1)"
    and sp = "sk_sport k" and dp = "sk_dport k" and sq = "snd_nxt k" and ak = "rcv_nxt k"
    and fl = "TCP_PSH OR TCP_ACK" and wn = "rcv_wnd k", folded H_def]
  have "plain_ip (sk_sip k) (sk_dip k) n p" using H(1) unfolding p_def using plain_ip_set by blast
  then have "reachable_via (ntohl (ip_daddr p)) e mac r2"
    using assms(4) by (simp add: plain_ip_def r2_def r1_def)
  then obtain q where q: "length q = length p" "drop 14 q = drop 14 p" "eth_dhost q = mac"
    "host_send_packet p r2 = r2 \<lparr>r_out := r_out r2 @ [(rt_iface e, q)]\<rparr>"
    using host_send_hit lp by fastforce
  have "carries f (segment_cb (sk_sip k) (sk_dip k) (sk_sport k) (sk_dport k) (snd_nxt k) (rcv_nxt k)
      (TCP_PSH OR TCP_ACK) (rcv_wnd k) buf)" if "length f = length q \<and> drop 14 f = drop 14 q" for f
  proof -
    have nl: "n \<le> 65495" using assms(3) by (simp add: n_def)
    have d: "drop 14 f = drop 14 (set_ip_checksum (set_tcp_checksum H))" using that q by (simp add: p_def)
    have l: "length f = length H" using that q by (simp add: p_def)
    show ?thesis using built_segment [OF H(1,2) nl disjI2 [OF d] l] H(3) p0(2) by simp
  qed
  moreover have "r_out r2 = r_out (t_router s)" "r_ifaces r2 = r_ifaces (t_router s)" "r_rtable r2 = r_rtable (t_router s)"
    "r_entries r2 = r_entries (t_router s)"
    by (simp_all add: r2_def r1_def)
  moreover have "has_fields (sk_sport k) (sk_dport k) (snd_nxt k) (rcv_nxt k) (TCP_PSH OR TCP_ACK) (rcv_wnd k) p"
  proof -
    have "ip_data H = 34" using H(1) by (simp add: plain_ip_def ip_data_def IP_HDR_SIZE_def ETHER_HDR_SIZE_def)
    then show ?thesis
      using H(2) by (simp add: p_def has_fields_def set_tcp_checksum_def set_ip_checksum_def th_defs ld_st_apart apart_def)
  qed
  then have "ntohl (th_seq p TCP_AT) = snd_nxt k" by (simp add: has_fields_def hdr_sizes)
  moreover have "drop 54 q = buf"
  proof -
    have "drop 40 (drop 14 q) = drop 40 (drop 14 p)" using q(2) by (rule arg_cong)
    moreover have "ip_data H = 34" using H(1) by (simp add: plain_ip_def ip_data_def IP_HDR_SIZE_def ETHER_HDR_SIZE_def)
    ultimately show ?thesis
      using H(3) p0(2) by (simp add: p_def set_ip_checksum_def set_tcp_checksum_def drop_st)
  qed
  ultimately show ?thesis
    using run s3 q lp keep
    by (intro exI [of _ "on_router (host_send_packet p) s4"] exI [of _ p] exI [of _ q]) (simp add: on_router_def n_def)
qed

text \<open>C7. A segment of up to 65495 bytes that a socket sends arrives as it was meant: the frame
  that leaves, with any rewriting of its Ethernet header, has a TCP checksum that the receiver
  accepts and is read back with the addresses, ports, sequence and acknowledgement numbers and
  window of the socket, flags PSH and ACK, and exactly the bytes sent; the same packet is kept for
  retransmission and the next sequence number advances by the bytes sent.\<close>

theorem sent_segment_received:
  assumes "buffered ps s" "t_socks s i = Some k" "length buf \<le> 65495"
    and "reachable_via (sk_dip k) e mac (t_router s)"
  shows "\<exists>s' p q k'. tcp_send_data i buf s = Some s' \<and> buffered (ps @ [p]) s' \<and>
    t_socks s' = (t_socks s)(i \<mapsto> k') \<and> snd_nxt k' = snd_nxt k + of_nat (length buf) \<and>
    r_out (t_router s') = r_out (t_router s) @ [(rt_iface e, q)] \<and> eth_dhost q = mac \<and>
    drop 14 q = drop 14 p \<and>
    (\<forall>f. length f = length q \<and> drop 14 f = drop 14 q \<longrightarrow>
      carries f (segment_cb (sk_sip k) (sk_dip k) (sk_sport k) (sk_dport k) (snd_nxt k) (rcv_nxt k)
        (TCP_PSH OR TCP_ACK) (rcv_wnd k) buf))"
  using data_sent [OF assms]
  by (elim exE conjE) (rule exI, rule exI, rule exI, rule exI [of _ "armed (k \<lparr>snd_nxt := snd_nxt k + of_nat (length buf)\<rparr>)"],
      intro conjI, assumption, assumption, assumption, simp, assumption, assumption, assumption, assumption)

lemma sent_segment_received_witness:
  "\<exists>s' q. tcp_send_data 0 [104, 105] (demo_stack \<lparr>t_links := init_list_head Trans_Buf (t_links demo_stack),
      t_socks := [0 \<mapsto> fresh_sock \<lparr>sk_dip := 0x0a000009, sk_dport := 80\<rparr>]\<rparr>) = Some s' \<and>
    r_out (t_router s') = [(0, q)] \<and> cb_payload (tcp_cb_init q (ip_data q)) = [104, 105]"
proof -
  let ?k = "fresh_sock \<lparr>sk_dip := 0x0a000009, sk_dport := 80\<rparr>"
  let ?s = "demo_stack \<lparr>t_links := init_list_head Trans_Buf (t_links demo_stack), t_socks := [0 \<mapsto> ?k]\<rparr>"
  have b: "buffered [] ?s"
    by (auto simp: buffered_def blocks_hold_def payload_size_def demo_stack_def dlist_init intro: exI [of _ "[]"])
  have k: "t_socks ?s 0 = Some ?k" by simp
  have "reachable_via 0x0a000009 demo_route demo_mac demo_router"
    by (simp add: reachable_via_def demo_router_def demo_route_def demo_mac_def longest_prefix_match_def
        arpcache_lookup_def get_next_hop_def)
  then have r: "reachable_via (sk_dip ?k) demo_route demo_mac (t_router ?s)" by (simp add: demo_stack_def)
  have "rt_iface demo_route = 0" "r_out (t_router ?s) = []"
    by (simp_all add: demo_route_def demo_stack_def demo_router_def)
  then show ?thesis
    using sent_segment_received [OF b k _ r, of "[104, 105]"] by (fastforce simp: carries_def segment_cb_def)
qed

end
