(* ===== verification/TcpTimers.thy ===== *)
theory TcpTimers imports TcpSegment begin

text \<open>The retransmission timer over time: what repeated scans of the timer list do to a
  connection whose peer does not answer.\<close>

section \<open>One scan\<close>

text \<open>The only armed timer is that of socket \<open>i\<close>, with the given time left and tries made, the
  buffer holds \<open>p\<close> and then \<open>ps\<close>, and the router has sent \<open>p\<close> again \<open>m\<close> times since it was \<open>r\<close>.\<close>

definition resent :: "bytes \<Rightarrow> u32 \<Rightarrow> bytes" where
  "resent p ack = set_ip_checksum (set_tcp_checksum (st32 p (TCP_AT + 8) (htonl ack)))"

text \<open>What \<open>tcp_bind_unhash\<close> needs at the end: a socket without a parent is in no bind table or in one, which
  then holds a reference besides that of the timer.\<close>

definition releasable :: "nat \<Rightarrow> tcp_sock \<Rightarrow> link links \<Rightarrow> bool" where
  "releasable i k h \<longleftrightarrow> sk_parent k \<noteq> None \<or> lnext h (Bind_Hash_List i) = Some (Bind_Hash_List i) \<or>
     1 < ref_cnt k \<and> (\<exists>b js js'. dlist h (Bind b) (map Bind_Hash_List js @ Bind_Hash_List i # map Bind_Hash_List js'))"

definition waiting :: "nat \<Rightarrow> tcp_sock \<Rightarrow> bytes \<Rightarrow> bytes list \<Rightarrow> router \<Rightarrow> nat \<Rightarrow> nat \<Rightarrow> stack \<Rightarrow> bool" where
  "waiting i k p ps r n m s \<longleftrightarrow> dlist (t_links s) Retrans_List [Retrans i] \<and>
     (\<exists>ty. t_socks s i = Some (k \<lparr>retrans_timer := \<lparr>tm_type = ty, tm_timeout = 10000 * int n,
       tm_retrans_times = int m\<rparr>\<rparr>)) \<and>
     buffered (p # ps) s \<and> \<not> t_exited s \<and> releasable i k (t_links s) \<and>
     t_router s = (host_send_packet (resent p (rcv_nxt k)) ^^ m) r"

lemma scan_one:
  assumes "dlist (t_links s) Retrans_List [Retrans i]"
  shows "tcp_scan_retrans_timer_list s = map_option snd (scan_retrans_timer (Retrans i) s)"
proof -
  have "lnext (t_links s) Retrans_List = Some (Retrans i)" "lnext (t_links s) (Retrans i) = Some Retrans_List"
    using assms by (simp_all add: dlist_def)
  then show ?thesis
    by (cases "scan_retrans_timer (Retrans i) s")
      (auto simp: tcp_scan_retrans_timer_list_def list_for_each_safe_def for_each_safe.simps split: prod.splits)
qed

lemma scan_waits:
  assumes "waiting i k p ps r (Suc (Suc n)) m s"
  shows "\<exists>s'. tcp_scan_retrans_timer_list s = Some s' \<and> waiting i k p ps r (Suc n) m s'"
proof -
  from assms obtain ty where k: "t_socks s i = Some (k \<lparr>retrans_timer := \<lparr>tm_type = ty,
      tm_timeout = 10000 * int (Suc (Suc n)), tm_retrans_times = int m\<rparr>\<rparr>)"
    and d: "dlist (t_links s) Retrans_List [Retrans i]" by (auto simp: waiting_def)
  let ?s = "s \<lparr>t_socks := (t_socks s)(i \<mapsto> k \<lparr>retrans_timer := \<lparr>tm_type = ty,
    tm_timeout = 10000 * int (Suc n), tm_retrans_times = int m\<rparr>\<rparr>)\<rparr>"
  have "scan_retrans_timer (Retrans i) s = Some (True, ?s)"
    by (simp add: scan_retrans_timer_def upd_sock_def k RETRANS_SCAN_TIMER_def)
  then show ?thesis
    using assms by (auto simp: scan_one [OF d] waiting_def)
qed

lemma scan_resends:
  assumes "waiting i k p ps r 1 m s" "m < 3"
  shows "\<exists>s'. tcp_scan_retrans_timer_list s = Some s' \<and> waiting i k p ps r (20 * 2 ^ (m + 2)) (Suc m) s'"
proof -
  from assms obtain ty where k: "t_socks s i = Some (k \<lparr>retrans_timer := \<lparr>tm_type = ty,
      tm_timeout = 10000, tm_retrans_times = int m\<rparr>\<rparr>)"
    and d: "dlist (t_links s) Retrans_List [Retrans i]" and b: "buffered (p # ps) s" by (auto simp: waiting_def)
  let ?k = "k \<lparr>retrans_timer := \<lparr>tm_type = ty, tm_timeout = 10000 * int (20 * 2 ^ (m + 2)), tm_retrans_times = int (Suc m)\<rparr>\<rparr>"
  let ?t = "s \<lparr>t_socks := (t_socks s)(i \<mapsto> ?k)\<rparr>"
  let ?s = "on_router (host_send_packet (resent p (rcv_nxt k))) ?t"
  have "buf_retrans_first i ?t = Some ?s"
    using first_block [of p ps ?t] b by (auto simp: buf_retrans_first_def list_empty_def resent_def)
  then have "scan_retrans_timer (Retrans i) s = Some (True, ?s)"
    using assms(2) by (simp add: scan_retrans_timer_def upd_sock_def k RETRANS_SCAN_TIMER_def
        MAX_RETRANS_def DEFAULT_RETRANS_TIME_def Let_def nat_add_distrib power_add algebra_simps)
  moreover have "waiting i k p ps r (20 * 2 ^ (m + 2)) (Suc m) ?s"
    using assms(1) by (auto simp: waiting_def on_router_def)
  ultimately show ?thesis by (auto simp: scan_one [OF d])
qed

lemma buffered_links:
  assumes "buffered ps s" "\<forall>x. x = Trans_Buf \<or> x \<in> range Block \<longrightarrow> lnext h x = lnext (t_links s) x \<and> lprev h x = lprev (t_links s) x"
  shows "buffered ps (s \<lparr>t_links := h\<rparr>)"
proof -
  from assms(1) obtain bs where bs: "blocks_hold bs ps s" and z: "t_buf_size s = payload_size ps"
    by (auto simp: buffered_def)
  have d: "dlist (t_links s) Trans_Buf (map Block bs)" using bs by (simp add: blocks_hold_def)
  have "\<forall>x \<in> set (Trans_Buf # map Block bs). lnext h x = lnext (t_links s) x \<and> lprev h x = lprev (t_links s) x"
  proof
    fix x
    assume "x \<in> set (Trans_Buf # map Block bs)"
    then have "x = Trans_Buf \<or> x \<in> range Block" by auto
    then show "lnext h x = lnext (t_links s) x \<and> lprev h x = lprev (t_links s) x" using assms(2) by blast
  qed
  with d have "dlist h Trans_Buf (map Block bs)" by (rule dlist_frame)
  then have "blocks_hold bs ps (s \<lparr>t_links := h\<rparr>)" using bs by (simp add: blocks_hold_def)
  then show ?thesis using z unfolding buffered_def by (intro conjI exI [of _ bs]) simp_all
qed

text \<open>Giving up takes the socket out of the bind table and leaves the other lists.\<close>

lemma unhashed:
  assumes "releasable i k h" "sk_parent k = None" "t_links s = h" "t_socks s i = Some k'" "ref_cnt k' = ref_cnt k"
  shows "\<exists>h' n. tcp_bind_unhash i s = Some (s \<lparr>t_links := h', t_socks := (t_socks s)(i \<mapsto> k' \<lparr>ref_cnt := n\<rparr>)\<rparr>) \<and>
    (\<forall>x. x \<notin> range Bind \<union> range Bind_Hash_List \<longrightarrow> lnext h' x = lnext h x \<and> lprev h' x = lprev h x)"
proof (cases "lnext h (Bind_Hash_List i) = Some (Bind_Hash_List i)")
  case True
  then have "tcp_bind_unhash i s = Some s" using assms(3) by (simp add: tcp_bind_unhash_def list_empty_def)
  moreover have "s = s \<lparr>t_links := h, t_socks := (t_socks s)(i \<mapsto> k' \<lparr>ref_cnt := ref_cnt k'\<rparr>)\<rparr>"
    using assms(3,4) by (simp add: fun_upd_idem)
  ultimately show ?thesis by (intro exI [of _ h] exI [of _ "ref_cnt k'"]) metis
next
  case False
  then obtain b js js' where b: "1 < ref_cnt k" "dlist h (Bind b) (map Bind_Hash_List js @ Bind_Hash_List i # map Bind_Hash_List js')"
    using assms(1,2) by (auto simp: releasable_def)
  from dlist_delete [OF b(2)] obtain h' where h': "list_delete_entry (Bind_Hash_List i) h = Some h'"
    "\<forall>x. x \<notin> set (Bind b # map Bind_Hash_List js @ map Bind_Hash_List js') \<longrightarrow> lnext h' x = lnext h x \<and> lprev h' x = lprev h x"
    by blast
  have "tcp_bind_unhash i s = Some (s \<lparr>t_links := h', t_socks := (t_socks s)(i \<mapsto> k' \<lparr>ref_cnt := ref_cnt k' - 1\<rparr>)\<rparr>)"
    using False h'(1) b(1) assms(3-5)
    by (simp add: tcp_bind_unhash_def list_empty_def upd_links_def free_tcp_sock_def)
  then show ?thesis using h'(2) by (intro exI [of _ h'] exI [of _ "ref_cnt k' - 1"]) auto
qed

lemma scan_exits:
  assumes "waiting i k p ps r 1 3 s"
  shows "\<exists>s'. tcp_scan_retrans_timer_list s = Some s' \<and> t_exited s' \<and> buffered [] s' \<and>
    t_router s' = t_router s \<and> (\<forall>k'. t_socks s' i = Some k' \<longrightarrow> sk_state k' = TCP_CLOSED)"
proof -
  from assms obtain ty where k: "t_socks s i = Some (k \<lparr>retrans_timer := \<lparr>tm_type = ty,
      tm_timeout = 10000, tm_retrans_times = 3\<rparr>\<rparr>)"
    and d: "dlist (t_links s) Retrans_List ([] @ [Retrans i])" and b: "buffered (p # ps) s"
    and rel: "releasable i k (t_links s)"
    by (auto simp: waiting_def)
  from dlist_delete [OF d] obtain h where h: "list_delete_entry (Retrans i) (t_links s) = Some h"
    "\<forall>x. x \<notin> {Retrans i, Retrans_List} \<longrightarrow> lnext h x = lnext (t_links s) x \<and> lprev h x = lprev (t_links s) x"
    by auto
  define k0 where "k0 = k \<lparr>retrans_timer := \<lparr>tm_type = ty, tm_timeout = 0, tm_retrans_times = 3\<rparr>\<rparr>"
  let ?s0 = "s \<lparr>t_socks := (t_socks s)(i \<mapsto> k0), t_links := h\<rparr>"
  have rel': "releasable i k h"
  proof -
    have "dlist h (Bind b) (map Bind_Hash_List js @ Bind_Hash_List i # map Bind_Hash_List js')"
      if "dlist (t_links s) (Bind b) (map Bind_Hash_List js @ Bind_Hash_List i # map Bind_Hash_List js')" for b js js'
      by (rule dlist_frame [OF that]) (use h(2) in auto)
    then show ?thesis using rel h(2) unfolding releasable_def by auto blast
  qed
  have "\<exists>h' n. (if sk_parent k0 = None then tcp_bind_unhash i ?s0 else Some ?s0) =
      Some (?s0 \<lparr>t_links := h', t_socks := (t_socks s)(i \<mapsto> k0 \<lparr>ref_cnt := n\<rparr>)\<rparr>) \<and>
      (\<forall>x. x \<notin> range Bind \<union> range Bind_Hash_List \<longrightarrow> lnext h' x = lnext h x \<and> lprev h' x = lprev h x)"
  proof (cases "sk_parent k = None")
    case True
    then show ?thesis using unhashed [OF rel' True, of ?s0 k0] by (simp add: k0_def)
  next
    case False
    then show ?thesis by (intro exI [of _ h] exI [of _ "ref_cnt k0"]) (auto simp: k0_def)
  qed
  then obtain h' n where un: "(if sk_parent k0 = None then tcp_bind_unhash i ?s0 else Some ?s0) =
      Some (s \<lparr>t_links := h', t_socks := (t_socks s)(i \<mapsto> k0 \<lparr>ref_cnt := n\<rparr>)\<rparr>)"
    "\<forall>x. x \<notin> range Bind \<union> range Bind_Hash_List \<longrightarrow> lnext h' x = lnext h x \<and> lprev h' x = lprev h x" by auto
  define dead where "dead w = upd_wait w (\<lambda>x. if sw_dead x then x else x \<lparr>sw_dead := True\<rparr>)" for w
  define k1 where "k1 = (dead Wait_Send (dead Wait_Recv (dead Wait_Accept (dead Wait_Connect
    (k0 \<lparr>ref_cnt := n\<rparr>)))))\<lparr>sk_state := TCP_CLOSED\<rparr>"
  define ks where "ks = (t_socks s)(i := (if ref_cnt k1 - 1 \<le> 0 then None else Some (k1 \<lparr>ref_cnt := ref_cnt k1 - 1\<rparr>)))"
  let ?s = "s \<lparr>t_links := h', t_socks := ks\<rparr>"
  have "lnext h' x = lnext (t_links s) x \<and> lprev h' x = lprev (t_links s) x" if "x = Trans_Buf \<or> x \<in> range Block" for x
    using h(2) un(2) that by auto
  then have "buffered (p # ps) (s \<lparr>t_links := h'\<rparr>)" using b by (intro buffered_links) auto
  then have "buffered (p # ps) (s \<lparr>t_links := h'\<rparr> \<lparr>t_socks := ks\<rparr>)" by (simp only: buffered_upd)
  then have "buffered (p # ps) ?s" by simp
  from buf_remove_all_buffered [OF this] obtain s' where
    s': "buf_remove_and_free_all_block ?s = Some s'" "buffered [] s'" "buf_frame ?s s'" by blast
  have we: "wait_exit i w = upd_sock i (dead w)" for w by (simp add: wait_exit_def dead_def)
  have end_of: "(do {
         s \<leftarrow> wait_exit i Wait_Connect (s \<lparr>t_links := h', t_socks := (t_socks s)(i \<mapsto> k0 \<lparr>ref_cnt := n\<rparr>)\<rparr>);
         s \<leftarrow> wait_exit i Wait_Accept s;
         s \<leftarrow> wait_exit i Wait_Recv s;
         s \<leftarrow> wait_exit i Wait_Send s;
         s \<leftarrow> tcp_set_state i TCP_CLOSED s;
         s \<leftarrow> free_tcp_sock i s;
         s \<leftarrow> buf_remove_and_free_all_block s;
         Some (False, s \<lparr>t_exited := True\<rparr>)}) = Some (False, s' \<lparr>t_exited := True\<rparr>)"
    using s'(1) by (cases "ref_cnt k1 \<le> 1") (simp_all add: upd_sock_def we tcp_set_state_def free_tcp_sock_def ks_def k1_def)
  have due: "tm_timeout (retrans_timer k0) = 0" "tm_retrans_times (retrans_timer k0) = 3" by (simp_all add: k0_def)
  have timer: "upd_sock i (\<lambda>k. k \<lparr>retrans_timer := (retrans_timer k) \<lparr>tm_timeout := tm_timeout (retrans_timer k) - RETRANS_SCAN_TIMER\<rparr>\<rparr>) s =
      Some (s \<lparr>t_socks := (t_socks s)(i \<mapsto> k0)\<rparr>)"
    by (simp add: upd_sock_def k RETRANS_SCAN_TIMER_def k0_def)
  have "scan_retrans_timer (Retrans i) s = Some (False, s' \<lparr>t_exited := True\<rparr>)"
    unfolding scan_retrans_timer_def link.case timer
    using h(1) un(1) end_of due by (simp add: MAX_RETRANS_def upd_links_def split del: if_split)
  moreover have "buffered [] (s' \<lparr>t_exited := True\<rparr>)" using s'(2) by (simp add: buffered_def blocks_hold_def)
  moreover have "t_router s' = t_router s" "t_socks s' = ks" using s'(3) by (simp_all add: buf_frame_def)
  moreover have "\<forall>k'. ks i = Some k' \<longrightarrow> sk_state k' = TCP_CLOSED" by (auto simp: ks_def k1_def)
  ultimately show ?thesis using scan_one [of s i] d by simp
qed

section \<open>Many scans\<close>

text \<open>\<open>n\<close> rounds of the thread.\<close>

fun scan_rounds :: "nat \<Rightarrow> stack \<Rightarrow> stack option" where
  "scan_rounds 0 s = Some s"
| "scan_rounds (Suc n) s = Option.bind (scan_rounds n s) tcp_scan_retrans_timer_list"

lemma scan_rounds_add: "scan_rounds (a + b) s = Option.bind (scan_rounds a s) (scan_rounds b)"
proof (induction b)
  case (Suc b)
  then show ?case by (cases "scan_rounds a s") simp_all
qed (cases "scan_rounds a s", simp_all)

lemma rounds_wait:
  "waiting i k p ps r n m s \<Longrightarrow> j < n \<Longrightarrow> \<exists>s'. scan_rounds j s = Some s' \<and> waiting i k p ps r (n - j) m s'"
proof (induction j)
  case (Suc j)
  then obtain s' where s': "scan_rounds j s = Some s'" "waiting i k p ps r (n - j) m s'" by auto
  have "n - j = Suc (Suc (n - j - 2))" using Suc.prems(2) by simp
  then obtain s2 where "tcp_scan_retrans_timer_list s' = Some s2" "waiting i k p ps r (Suc (n - j - 2)) m s2"
    using scan_waits s'(2) by metis
  moreover have "Suc (n - j - 2) = n - Suc j" using Suc.prems(2) by simp
  ultimately show ?case using s'(1) by simp
qed simp

lemma rounds_resend:
  assumes "waiting i k p ps r n m s" "0 < n" "m < 3"
  shows "\<exists>s'. scan_rounds n s = Some s' \<and> waiting i k p ps r (20 * 2 ^ (m + 2)) (Suc m) s'"
proof -
  obtain s1 where s1: "scan_rounds (n - 1) s = Some s1" "waiting i k p ps r 1 m s1"
    using rounds_wait [OF assms(1), of "n - 1"] assms(2) by auto
  obtain s2 where s2: "tcp_scan_retrans_timer_list s1 = Some s2" "waiting i k p ps r (20 * 2 ^ (m + 2)) (Suc m) s2"
    using scan_resends [OF s1(2) assms(3)] by blast
  have "scan_rounds n s = Option.bind (scan_rounds (n - 1) s) tcp_scan_retrans_timer_list"
    using assms(2) by (cases n) simp_all
  then have "scan_rounds n s = Some s2" using s1(1) s2(1) by simp
  then show ?thesis using s2(2) by blast
qed

text \<open>The number of retransmissions made after \<open>j\<close> scans.\<close>

definition resends :: "nat \<Rightarrow> nat" where
  "resends j = (if j < 20 then 0 else if j < 100 then 1 else if j < 260 then 2 else 3)"

lemma rounds_from:
  assumes "scan_rounds a s = Some t" "waiting i k p ps r n m t" "a \<le> j" "j < a + n"
  shows "\<exists>s' n'. scan_rounds j s = Some s' \<and> waiting i k p ps r n' m s'"
proof -
  have "j - a < n" using assms(3,4) by arith
  from rounds_wait [OF assms(2) this] obtain s' where
    "scan_rounds (j - a) t = Some s'" "waiting i k p ps r (n - (j - a)) m s'" by blast
  moreover have "scan_rounds j s = scan_rounds (j - a) t"
    using scan_rounds_add [of a "j - a" s] assms(1,3) by simp
  ultimately show ?thesis by auto
qed

text \<open>A timer just armed, scan by scan to the end.\<close>

definition just_armed :: "nat \<Rightarrow> tcp_sock \<Rightarrow> bytes \<Rightarrow> bytes list \<Rightarrow> stack \<Rightarrow> bool" where
  "just_armed i k p ps s \<longleftrightarrow> dlist (t_links s) Retrans_List [Retrans i] \<and> t_socks s i = Some k \<and>
     buffered (p # ps) s \<and> \<not> t_exited s \<and> releasable i k (t_links s) \<and>
     tm_timeout (retrans_timer k) = DEFAULT_RETRANS_TIME \<and> tm_retrans_times (retrans_timer k) = 0"

lemma armed_ends:
  assumes "just_armed i k p ps s"
  shows "(\<forall>j < 580. \<exists>s'. scan_rounds j s = Some s' \<and> \<not> t_exited s' \<and> buffered (p # ps) s' \<and>
      t_router s' = (host_send_packet (resent p (rcv_nxt k)) ^^ resends j) (t_router s)) \<and>
    (\<exists>s'. scan_rounds 580 s = Some s' \<and> t_exited s' \<and> buffered [] s' \<and>
      (\<forall>k'. t_socks s' i = Some k' \<longrightarrow> sk_state k' = TCP_CLOSED))"
proof -
  let ?W = "\<lambda>n m. waiting i k p ps (t_router s) n m"
  have "k = k \<lparr>retrans_timer := \<lparr>tm_type = tm_type (retrans_timer k), tm_timeout = 10000 * int 20,
      tm_retrans_times = int 0\<rparr>\<rparr>"
    using assms by (cases k; cases "retrans_timer k") (simp add: DEFAULT_RETRANS_TIME_def just_armed_def)
  then have w0: "scan_rounds 0 s = Some s" "?W 20 0 s"
    using assms by (auto simp: waiting_def just_armed_def)
  obtain s1 where w1: "scan_rounds 20 s = Some s1" "?W 80 1 s1"
    using rounds_resend [OF w0(2)] by auto
  obtain s2 where "scan_rounds 80 s1 = Some s2" and W2: "?W 160 2 s2"
    using rounds_resend [OF w1(2)] by (auto simp: numeral_2_eq_2)
  then have w2: "scan_rounds 100 s = Some s2" using scan_rounds_add [of 20 80 s] w1(1) by simp
  obtain s3 where "scan_rounds 160 s2 = Some s3" and W3: "?W 320 3 s3"
    using rounds_resend [OF W2] by (auto simp: numeral_3_eq_3)
  then have w3: "scan_rounds 260 s = Some s3" using scan_rounds_add [of 100 160 s] w2 by simp
  obtain s4 where "scan_rounds 319 s3 = Some s4" and W4: "?W 1 3 s4"
    using rounds_wait [OF W3, of 319] by auto
  then have w4: "scan_rounds 579 s = Some s4" using scan_rounds_add [of 260 319 s] w3 by simp
  have "\<exists>s' n'. scan_rounds j s = Some s' \<and> ?W n' (resends j) s'" if "j < 580" for j
    using rounds_from [OF w0, of j] rounds_from [OF w1, of j] rounds_from [OF w2 W2, of j]
      rounds_from [OF w3 W3, of j] that by (auto simp: resends_def)
  then have "\<forall>j < 580. \<exists>s'. scan_rounds j s = Some s' \<and> \<not> t_exited s' \<and> buffered (p # ps) s' \<and>
      t_router s' = (host_send_packet (resent p (rcv_nxt k)) ^^ resends j) (t_router s)"
    by (fastforce simp: waiting_def)
  moreover have "scan_rounds 580 s = tcp_scan_retrans_timer_list s4"
    using scan_rounds_add [of 579 1 s] w4 by simp
  ultimately show ?thesis using scan_exits [OF W4] by auto
qed

text \<open>C12. A connection whose peer does not answer ends: with the timer of a socket just armed, no other
  timer armed and data in the buffer, the first packet is sent again after 20, 100 and 260 scans of
  10 ms, each time with the current acknowledgement number, and the scan after 580 scans closes the
  socket, empties the buffer and ends the process; before that nothing else is sent and the process
  runs. The socket has a parent, as an accepted one, or none, as a connecting one, which is then not
  bound or has the reference of its bind table.\<close>

theorem unanswered_ends:
  assumes "dlist (t_links s) Retrans_List [Retrans i]" "t_socks s i = Some k" "buffered (p # ps) s"
    and "\<not> t_exited s"
    and "sk_parent k \<noteq> None \<or> lnext (t_links s) (Bind_Hash_List i) = Some (Bind_Hash_List i) \<or>
      1 < ref_cnt k \<and> (\<exists>b js js'. dlist (t_links s) (Bind b) (map Bind_Hash_List js @ Bind_Hash_List i # map Bind_Hash_List js'))"
    and "tm_timeout (retrans_timer k) = DEFAULT_RETRANS_TIME" "tm_retrans_times (retrans_timer k) = 0"
  shows "(\<forall>j < 580. \<exists>s'. scan_rounds j s = Some s' \<and> \<not> t_exited s' \<and> buffered (p # ps) s' \<and>
      t_router s' = (host_send_packet (resent p (rcv_nxt k)) ^^ resends j) (t_router s)) \<and>
    (\<exists>s'. scan_rounds 580 s = Some s' \<and> t_exited s' \<and> buffered [] s' \<and>
      (\<forall>k'. t_socks s' i = Some k' \<longrightarrow> sk_state k' = TCP_CLOSED))"
  by (rule armed_ends) (use assms in \<open>simp add: just_armed_def releasable_def\<close>)

text \<open>A connecting socket in the bind table.\<close>

lemma unanswered_ends_witness:
  "\<exists>s s' k. t_socks s 0 = Some k \<and> sk_parent k = None \<and> \<not> list_empty (t_links s) (Bind_Hash_List 0) \<and>
    scan_rounds 580 s = Some s' \<and> \<not> t_exited s \<and> t_exited s'"
proof -
  let ?k = "armed (fresh_sock \<lparr>ref_cnt := 2\<rparr>)"
  let ?i = "\<lparr>lnext = Some, lprev = Some\<rparr> :: link links"
  have d: "dlist ?i l []" for l by (simp add: dlist_def)
  have n: "Retrans 0 \<notin> set [Retrans_List]" "Block 0 \<notin> set [Trans_Buf]" "Bind_Hash_List 0 \<notin> set [Bind 7]" by simp_all
  from dlist_add_tail [OF d n(1)] obtain h1 where h1: "dlist h1 Retrans_List [Retrans 0]"
    "\<forall>x. x \<notin> {Retrans 0, Retrans_List} \<longrightarrow> lnext h1 x = Some x \<and> lprev h1 x = Some x" by auto
  have "dlist h1 Trans_Buf []" using h1(2) by (simp add: dlist_def)
  from dlist_add_tail [OF this n(2)] obtain h2 where h2: "dlist h2 Trans_Buf [Block 0]"
    "\<forall>x. x \<notin> {Block 0, Trans_Buf} \<longrightarrow> lnext h2 x = lnext h1 x \<and> lprev h2 x = lprev h1 x" by auto
  have "dlist h2 (Bind 7) []" using h1(2) h2(2) by (simp add: dlist_def)
  from dlist_add_tail [OF this n(3)] obtain h where h: "dlist h (Bind 7) [Bind_Hash_List 0]"
    "\<forall>x. x \<notin> {Bind_Hash_List 0, Bind 7} \<longrightarrow> lnext h x = lnext h2 x \<and> lprev h x = lprev h2 x" by auto
  have r: "dlist h Retrans_List [Retrans 0]" by (rule dlist_frame [OF h1(1)]) (use h2(2) h(2) in simp)
  have t: "dlist h Trans_Buf [Block 0]" by (rule dlist_frame [OF h2(1)]) (use h(2) in simp)
  let ?p = "replicate 54 0"
  let ?s = "demo_stack \<lparr>t_links := h, t_socks := [0 \<mapsto> ?k], t_nblocks := 1,
    t_blocks := [0 \<mapsto> \<lparr>bb_len = 54, bb_packet = ?p\<rparr>]\<rparr>"
  have "blocks_hold [0] [?p] ?s" using t by (simp add: blocks_hold_def)
  then have "buffered [?p] ?s"
    unfolding buffered_def by (intro conjI exI [of _ "[0]"]) (simp_all add: demo_stack_def payload_size_def hdr_sizes)
  moreover have "\<not> t_exited ?s" "t_socks ?s 0 = Some ?k" "1 < ref_cnt ?k" "sk_parent ?k = None"
    "tm_timeout (retrans_timer ?k) = DEFAULT_RETRANS_TIME" "tm_retrans_times (retrans_timer ?k) = 0"
    by (simp_all add: demo_stack_def armed_def fresh_sock_def)
  moreover have "dlist (t_links ?s) Retrans_List [Retrans 0]" using r by simp
  moreover have "dlist (t_links ?s) (Bind 7) (map Bind_Hash_List [] @ Bind_Hash_List 0 # map Bind_Hash_List [])" using h(1) by simp
  moreover have "\<not> list_empty (t_links ?s) (Bind_Hash_List 0)" using h(1) by (simp add: dlist_def list_empty_def)
  ultimately show ?thesis using unanswered_ends [of ?s 0 ?k ?p "[]"] by blast
qed

end
