(* ===== verification/TcpStates.thy ===== *)
theory TcpStates imports TcpIn begin

text \<open>What an incoming segment does to the states of the sockets: the automaton that
  \<open>tcp_process\<close> implements.\<close>

section \<open>Operations that keep the states\<close>

text \<open>Every socket of \<open>s\<close> is in the state that \<open>st\<close> says; some may be gone.\<close>

definition in_states :: "(nat \<Rightarrow> tcp_state option) \<Rightarrow> stack \<Rightarrow> bool" where
  "in_states st s \<longleftrightarrow> (\<forall>j k. t_socks s j = Some k \<longrightarrow> st j = Some (sk_state k))"

text \<open>Rules that carry \<open>in_states\<close> through an operation that returned.\<close>

named_theorems keeps

lemma in_states_same: "in_states st s \<Longrightarrow> t_socks s' = t_socks s \<Longrightarrow> in_states st s'"
  by (simp add: in_states_def)

lemma upd_sock_keeps:
  "upd_sock i f s = Some s' \<Longrightarrow> \<forall>k. sk_state (f k) = sk_state k \<Longrightarrow> in_states st s \<Longrightarrow> in_states st s'"
  by (auto simp: upd_sock_def in_states_def bind_eq_Some_conv split: if_splits)

lemma set_state_changes [keeps]:
  "tcp_set_state i x s = Some s' \<Longrightarrow> in_states st s \<Longrightarrow> in_states (st(i \<mapsto> x)) s'"
  by (auto simp: tcp_set_state_def upd_sock_def in_states_def bind_eq_Some_conv)

lemma upd_links_keeps [keeps]: "upd_links f s = Some s' \<Longrightarrow> in_states st s \<Longrightarrow> in_states st s'"
  by (auto simp: upd_links_def in_states_def bind_eq_Some_conv)

lemma inc_ref_keeps [keeps]: "tcp_sock_inc_ref_cnt i s = Some s' \<Longrightarrow> in_states st s \<Longrightarrow> in_states st s'"
  unfolding tcp_sock_inc_ref_cnt_def by (erule upd_sock_keeps) simp_all

lemma wake_up_keeps [keeps]: "wake_up i w s = Some s' \<Longrightarrow> in_states st s \<Longrightarrow> in_states st s'"
  unfolding wake_up_def by (erule upd_sock_keeps) (simp_all add: upd_wait_def)

lemma wait_exit_keeps [keeps]: "wait_exit i w s = Some s' \<Longrightarrow> in_states st s \<Longrightarrow> in_states st s'"
  unfolding wait_exit_def by (erule upd_sock_keeps) (simp_all add: upd_wait_def)

lemma free_sock_keeps [keeps]: "free_tcp_sock i s = Some s' \<Longrightarrow> in_states st s \<Longrightarrow> in_states st s'"
  by (auto simp: free_tcp_sock_def in_states_def bind_eq_Some_conv split: if_splits)

lemma unhash_keeps [keeps]: "tcp_unhash i s = Some s' \<Longrightarrow> in_states st s \<Longrightarrow> in_states st s'"
  by (auto simp: tcp_unhash_def bind_eq_Some_conv split: if_splits) (erule keeps | assumption)+

lemma hash_keeps [keeps]: "tcp_hash i s = Some (r, s') \<Longrightarrow> in_states st s \<Longrightarrow> in_states st s'"
  by (auto simp: tcp_hash_def bind_eq_Some_conv Let_def split: if_splits) (erule keeps | assumption)+

lemma update_timer_keeps [keeps]:
  "tcp_update_retrans_timewait_timer i s = Some s' \<Longrightarrow> in_states st s \<Longrightarrow> in_states st s'"
  unfolding tcp_update_retrans_timewait_timer_def by (erule upd_sock_keeps) simp_all

lemma stop_timer_keeps [keeps]:
  "tcp_stop_retrans_timewait_timer i s = Some s' \<Longrightarrow> in_states st s \<Longrightarrow> in_states st s'"
  by (auto simp: tcp_stop_retrans_timewait_timer_def bind_eq_Some_conv) (erule keeps | assumption)+

lemma init_list_node_socks [simp]: "t_socks (init_list_node l s) = t_socks s"
  by (simp add: init_list_node_def)

lemma set_timer_keeps [keeps]:
  assumes "tcp_set_retrans_timewait_timer i s = Some s'" "in_states st s"
  shows "in_states st s'"
proof -
  from assms(1) obtain s1 s2 where s:
    "upd_sock i (\<lambda>k. k \<lparr>retrans_timer := (retrans_timer k)
       \<lparr>tm_type := 0, tm_timeout := DEFAULT_RETRANS_TIME, tm_retrans_times := 0\<rparr>\<rparr>) s = Some s1"
    "upd_links (list_add_tail (Retrans i) Retrans_List) (init_list_node (Retrans i) s1) = Some s2"
    "tcp_sock_inc_ref_cnt i s2 = Some s'"
    by (auto simp: tcp_set_retrans_timewait_timer_def bind_eq_Some_conv Let_def)
  have "in_states st s1" by (rule upd_sock_keeps [OF s(1) _ assms(2)]) simp
  then have "in_states st (init_list_node (Retrans i) s1)" by (rule in_states_same) simp
  then show ?thesis using s(2,3) by - (erule keeps | assumption)+
qed

lemma set_timewait_keeps [keeps]:
  assumes "tcp_set_timewait_timer i s = Some s'" "in_states st s"
  shows "in_states st s'"
proof -
  from assms(1) obtain s1 s2 where s:
    "upd_sock i (\<lambda>k. k \<lparr>sk_timewait := (sk_timewait k)
       \<lparr>tm_type := 0, tm_timeout := TCP_TIMEWAIT_TIMEOUT\<rparr>\<rparr>) s = Some s1"
    "upd_links (list_add_tail (Timewait i) Timer_List) s1 = Some s2"
    "tcp_sock_inc_ref_cnt i s2 = Some s'"
    by (auto simp: tcp_set_timewait_timer_def bind_eq_Some_conv)
  have "in_states st s1" by (rule upd_sock_keeps [OF s(1) _ assms(2)]) simp
  then show ?thesis using s(2,3) by - (erule keeps | assumption)+
qed

lemma on_router_keeps: "in_states st s \<Longrightarrow> in_states st (on_router f s)"
  by (simp add: in_states_def on_router_def)

lemma stack_ops_socks [simp]:
  "t_socks (snd (stack_malloc n s)) = t_socks s" "t_socks (snd (stack_rand s)) = t_socks s"
  by (simp_all add: stack_malloc_def stack_rand_def split_beta)

lemma send_reset_keeps [simp]: "in_states st (tcp_send_reset cb s) = in_states st s"
  by (simp add: tcp_send_reset_def split_beta Let_def on_router_def in_states_def)

lemma append_packet_keeps [keeps]:
  "buf_append_packet p s = Some s' \<Longrightarrow> in_states st s \<Longrightarrow> in_states st s'"
  unfolding buf_append_packet_def new_tcp_buf_block_def Let_def
  by (simp, erule upd_links_keeps) (simp add: in_states_def)

lemma buf_ack_keeps [keeps]:
  assumes "buf_ack ack s = Some s'" "in_states st s"
  shows "in_states st s'"
proof -
  have "in_states st s \<longrightarrow> in_states st s'"
    using assms(1) unfolding buf_ack_def
  proof (rule list_for_each_safe_keeps)
    fix p s c s'
    assume "buf_ack_block ack p s = Some (c, s')"
    then show "in_states st s \<longrightarrow> in_states st s'"
      by (auto simp: buf_ack_block_def bind_eq_Some_conv upd_links_def free_block_def in_states_def
          split: link.splits if_splits)
  qed auto
  then show ?thesis using assms(2) by blast
qed

lemma control_keeps [keeps]:
  assumes "tcp_send_control_packet i fl s = Some s'" "in_states st s"
  shows "in_states st s'"
proof -
  define t where "t = snd (stack_rand (snd (stack_malloc HDRS_SIZE s)))"
  from assms(1) obtain p s1 s2 where s:
    "(if fl AND (TCP_SYN OR TCP_FIN) \<noteq> 0 then upd_sock i (\<lambda>k. k \<lparr>snd_nxt := snd_nxt k + 1\<rparr>) t else Some t) = Some s1"
    "(if fl \<noteq> TCP_ACK \<and> fl AND TCP_RST = 0
      then Option.bind (buf_append_packet p s1) (tcp_update_retrans_timewait_timer i) else Some s1) = Some s2"
    "s' = on_router (host_send_packet p) s2"
    unfolding tcp_send_control_packet_def split_beta Let_def t_def by (auto simp: bind_eq_Some_conv)
  have "in_states st t" using assms(2) by (rule in_states_same) (simp add: t_def)
  then have "in_states st s1"
    using s(1) upd_sock_keeps [of i "\<lambda>k. k \<lparr>snd_nxt := snd_nxt k + 1\<rparr>" t s1 st] by (auto split: if_splits)
  then have "in_states st s2"
    using s(2) by (auto simp: bind_eq_Some_conv split: if_splits) (erule keeps | assumption)+
  then show ?thesis unfolding s(3) by (rule on_router_keeps)
qed

lemma send_packet_keeps [keeps]:
  assumes "tcp_send_packet i p s = Some s'" "in_states st s"
  shows "in_states st s'"
proof -
  define t where "t = snd (stack_rand s)"
  from assms(1) obtain n q s1 s2 s3 where s:
    "upd_sock i (\<lambda>k. k \<lparr>snd_nxt := snd_nxt k + n\<rparr>) t = Some s1"
    "buf_append_packet q s1 = Some s2" "tcp_update_retrans_timewait_timer i s2 = Some s3"
    "s' = on_router (host_send_packet q) s3"
    unfolding tcp_send_packet_def split_beta Let_def t_def by (auto simp: bind_eq_Some_conv)
  have "in_states st t" using assms(2) by (rule in_states_same) (simp add: t_def)
  then have "in_states st s1" by (rule upd_sock_keeps [OF s(1), rotated]) simp
  then have "in_states st s3" using s(2,3) by - (erule keeps | assumption)+
  then show ?thesis unfolding s(4) by (rule on_router_keeps)
qed

lemma send_data_keeps [keeps]:
  "tcp_send_data i b s = Some s' \<Longrightarrow> in_states st s \<Longrightarrow> in_states st s'"
  unfolding tcp_send_data_def split_beta Let_def
  by (erule send_packet_keeps) (simp add: in_states_def)

section \<open>Receiving data\<close>

text \<open>While a call waits, the other threads may do what they like but change the states.\<close>

definition quiet :: "(nat \<Rightarrow> stack \<Rightarrow> stack) \<Rightarrow> bool" where
  "quiet env \<longleftrightarrow> (\<forall>n s st. in_states st s \<longrightarrow> in_states st (env n s))"

lemma upd_wait_state [simp]: "sk_state (upd_wait w f k) = sk_state k"
  by (simp add: upd_wait_def)

lemma sleep_on_keeps:
  assumes "sleep_on env i w s = Some (r, s')" "quiet env" "in_states st s"
  shows "in_states st s'"
proof -
  from assms(1) consider "s' = s" | s1 s2 f g where
    "upd_sock i (upd_wait w f) s = Some s1"
    "s2 = s1 \<or> s2 = env (t_sleeps s1) (s1 \<lparr>t_sleeps := t_sleeps s1 + 1\<rparr>)"
    "upd_sock i (upd_wait w g) s2 = Some s'"
    by (auto simp: sleep_on_def bind_eq_Some_conv Let_def split: if_splits; blast)
  then show ?thesis
  proof cases
    case 2
    have s1: "in_states st s1" by (rule upd_sock_keeps [OF 2(1) _ assms(3)]) simp
    then have "in_states st (s1 \<lparr>t_sleeps := t_sleeps s1 + 1\<rparr>)" by (rule in_states_same) simp
    then have "in_states st s2" using 2(2) assms(2) s1 by (auto simp: quiet_def)
    then show ?thesis by (rule upd_sock_keeps [OF 2(3), rotated]) simp
  qed (use assms(3) in simp)
qed

lemma wait_space_keeps:
  assumes "wait_space env i b s = Some rs" "quiet env" "in_states st s"
  shows "in_states st (snd rs)"
proof -
  have "quiet env \<longrightarrow> in_states st s \<longrightarrow> in_states st (snd rs)"
    apply (rule wait_space.raw_induct [where P = "\<lambda>env i b s rs.
      quiet env \<longrightarrow> in_states st s \<longrightarrow> in_states st (snd rs)", OF _ assms(1)])
    subgoal premises prems for go env i b s rs
    proof (intro impI)
      assume a: "quiet env" "in_states st s"
      from prems(2) consider "rs = (0, s)" | r s1 where "sleep_on env i Wait_Recv s = Some (r, s1)"
        "(if r < 0 then Some (- 1, s1) else go env i b s1) = Some rs"
        by (auto simp: bind_eq_Some_conv split: if_splits)
      then show "in_states st (snd rs)"
      proof cases
        case 2
        have "in_states st s1" using 2(1) a by (rule sleep_on_keeps)
        then show ?thesis using 2(2) prems(1) a(1) by (auto split: if_splits)
      qed (use a(2) in simp)
    qed
    done
  then show ?thesis using assms(2,3) by blast
qed

lemma ofo_block_keeps:
  assumes "ofo_dequeue_block env i p a = Some (c, a')" "quiet env" "in_states st (fst a)"
  shows "in_states st (fst a')"
proof -
  obtain s q r where a: "a = (s, q, r)" by (cases a)
  from assms(1) consider "fst a' = s" | b w s1 where "wait_space env i b s = Some (w, s1)" "fst a' = s1"
    | b w s1 s2 s3 s4 s5 rbuf n where
      "wait_space env i b s = Some (w, s1)" "upd_sock i (\<lambda>k. k \<lparr>rcv_buf := rbuf\<rparr>) s1 = Some s2"
      "wake_up i Wait_Recv s2 = Some s3" "upd_sock i (\<lambda>k. k \<lparr>rcv_nxt := n\<rparr>) s3 = Some s4"
      "upd_links (list_delete_entry (Ofo b)) s4 = Some s5" "fst a' = s5 \<lparr>t_ofos := (t_ofos s5)(b := None)\<rparr>"
    by (auto simp: ofo_dequeue_block_def a bind_eq_Some_conv Let_def split: link.splits if_splits)
  then show ?thesis
  proof cases
    case 1
    then show ?thesis using assms(3) by (simp add: a)
  next
    case 2
    then show ?thesis using wait_space_keeps [OF 2(1) assms(2)] assms(3) by (simp add: a)
  next
    case 3
    have "in_states st s1" using wait_space_keeps [OF 3(1) assms(2)] assms(3) by (simp add: a)
    then have "in_states st s2" by (rule upd_sock_keeps [OF 3(2), rotated]) simp
    with 3(3) have "in_states st s3" by (rule wake_up_keeps)
    then have "in_states st s4" by (rule upd_sock_keeps [OF 3(4), rotated]) simp
    with 3(5) have "in_states st s5" by (rule upd_links_keeps)
    then show ?thesis unfolding 3(6) by (rule in_states_same) simp
  qed
qed

lemma ofo_dequeue_keeps:
  assumes "ofo_packet_dequeue env i s = Some (r, s')" "quiet env" "in_states st s"
  shows "in_states st s'"
proof -
  from assms(1) obtain q n where
    "list_for_each_safe (\<lambda>a. t_links (fst a)) (Ofo_List i) (ofo_dequeue_block env i) (s, n, 0) = Some (s', q, r)"
    by (auto simp: ofo_packet_dequeue_def bind_eq_Some_conv)
  then have "in_states st (fst (s, n, 0 :: int)) \<longrightarrow> in_states st (fst (s', q, r))"
    by (rule list_for_each_safe_keeps) (use ofo_block_keeps assms(2) in blast)+
  then show ?thesis using assms(3) by simp
qed

lemma ofo_enqueue_keeps [keeps]:
  "ofo_packet_enqueue i cb p s = Some s' \<Longrightarrow> in_states st s \<Longrightarrow> in_states st s'"
  by (auto simp: ofo_packet_enqueue_def bind_eq_Some_conv Let_def in_states_def upd_links_def split: if_splits)

lemma recv_data_keeps:
  assumes "tcp_recv_data env i cb p s = Some s'" "quiet env" "in_states st s"
  shows "in_states st s'"
proof -
  from assms(1) consider "s' = s" | r s1 s2 s3 s4 where "ofo_packet_enqueue i cb p s = Some s1"
    "ofo_packet_dequeue env i s1 = Some (r, s2)"
    "upd_sock i (\<lambda>k. k \<lparr>snd_una := (if greater_than_32b (cb_ack cb) (snd_una k) then cb_ack cb else snd_una k)\<rparr>) s2 = Some s3"
    "tcp_set_retrans_timewait_timer i s3 = Some s4" "tcp_send_data i get_message s4 = Some s'"
    by (auto simp: tcp_recv_data_def bind_eq_Some_conv split: if_splits)
  then show ?thesis
  proof cases
    case 2
    have "in_states st s1" using 2(1) assms(3) by (rule ofo_enqueue_keeps)
    with 2(2) assms(2) have "in_states st s2" by (rule ofo_dequeue_keeps)
    then have "in_states st s3" by (rule upd_sock_keeps [OF 2(3), rotated]) simp
    then show ?thesis using 2(4,5) by - (erule keeps | assumption)+
  qed (use assms(3) in simp)
qed

section \<open>The automaton\<close>

text \<open>The next state of a socket that gets a segment with the given flags.\<close>

fun next_state :: "tcp_state \<Rightarrow> u8 \<Rightarrow> tcp_state" where
  "next_state TCP_CLOSED fl = TCP_CLOSED"
| "next_state TCP_LISTEN fl = (if fl AND TCP_SYN \<noteq> 0 then TCP_SYN_RECV else TCP_LISTEN)"
| "next_state TCP_SYN_SENT fl =
     (if fl AND (TCP_SYN OR TCP_ACK) = TCP_SYN OR TCP_ACK then TCP_ESTABLISHED else TCP_SYN_SENT)"
| "next_state st fl =
     (if fl AND TCP_RST \<noteq> 0 \<or> fl AND TCP_SYN \<noteq> 0 then
        (case st of TCP_ESTABLISHED \<Rightarrow> TCP_FIN_WAIT_1 | TCP_CLOSE_WAIT \<Rightarrow> TCP_LAST_ACK | _ \<Rightarrow> st)
      else if fl AND TCP_ACK = 0 then st
      else if fl AND TCP_FIN \<noteq> 0 then
        (case st of TCP_SYN_RECV \<Rightarrow> TCP_ESTABLISHED | TCP_ESTABLISHED \<Rightarrow> TCP_CLOSE_WAIT
         | TCP_FIN_WAIT_1 \<Rightarrow> TCP_CLOSING | TCP_FIN_WAIT_2 \<Rightarrow> TCP_TIME_WAIT | _ \<Rightarrow> st)
      else
        (case st of TCP_SYN_RECV \<Rightarrow> TCP_ESTABLISHED | TCP_FIN_WAIT_1 \<Rightarrow> TCP_FIN_WAIT_2
         | TCP_CLOSING \<Rightarrow> TCP_TIME_WAIT | TCP_LAST_ACK \<Rightarrow> TCP_CLOSED | _ \<Rightarrow> st))"

text \<open>A SYN to a listening socket makes the next socket; the ACK of the handshake changes the
  parent, too.\<close>

definition opens :: "tcp_sock \<Rightarrow> u8 \<Rightarrow> bool" where
  "opens k fl \<longleftrightarrow> sk_state k = TCP_LISTEN \<and> fl AND TCP_SYN \<noteq> 0"

definition completes :: "tcp_sock \<Rightarrow> u8 \<Rightarrow> bool" where
  "completes k fl \<longleftrightarrow> sk_state k = TCP_SYN_RECV \<and> fl AND TCP_RST = 0 \<and> fl AND TCP_SYN = 0 \<and> fl AND TCP_ACK \<noteq> 0"

definition next_states :: "nat \<Rightarrow> tcp_sock \<Rightarrow> u8 \<Rightarrow> stack \<Rightarrow> nat \<Rightarrow> tcp_state option" where
  "next_states i k fl s j =
     (if j = i then Some (next_state (sk_state k) fl)
      else if opens k fl \<and> j = t_nsocks s then Some TCP_SYN_RECV
      else if completes k fl \<and> sk_parent k = Some j then Some TCP_ESTABLISHED
      else map_option sk_state (t_socks s j))"

section \<open>The handlers\<close>

lemma alloc_in_states:
  assumes "alloc_tcp_sock s = (c, t)" "in_states st s"
  shows "c = t_nsocks s" "in_states (st(c \<mapsto> TCP_CLOSED)) t"
  using assms by (auto simp: alloc_tcp_sock_def Let_def in_states_def fresh_sock_def)

lemma listen_states:
  assumes "tcp_state_listen i cb s = Some s'" "in_states st s"
  shows "in_states (if cb_flags cb AND TCP_SYN \<noteq> 0
    then st(t_nsocks s \<mapsto> TCP_SYN_RECV, i \<mapsto> TCP_SYN_RECV) else st) s'"
proof (cases "cb_flags cb AND TCP_SYN = 0")
  case True
  then show ?thesis using assms by (auto simp: tcp_state_listen_def split: if_splits)
next
  case False
  obtain c t where a: "alloc_tcp_sock s = (c, t)" by (cases "alloc_tcp_sock s")
  note c = alloc_in_states [OF a assms(2)]
  define u where "u = snd (stack_rand t)"
  from assms(1) False obtain r x s1 s2 s3 s4 s5 s6 where s:
    "upd_sock c (\<lambda>k. k \<lparr>sk_sip := cb_daddr cb, sk_sport := cb_dport cb, sk_dip := cb_saddr cb,
      sk_dport := cb_sport cb, iss := x, snd_una := x, snd_nxt := x, rcv_nxt := cb_seq cb + 1,
      sk_parent := Some i\<rparr>) u = Some s1"
    "upd_links (list_add_tail (Queue_Node c) (Listen_Queue c)) s1 = Some s2"
    "tcp_set_state c TCP_SYN_RECV s2 = Some s3" "tcp_set_state i TCP_SYN_RECV s3 = Some s4"
    "tcp_set_retrans_timewait_timer c s4 = Some s5"
    "tcp_send_control_packet c (TCP_SYN OR TCP_ACK) s5 = Some s6" "tcp_hash c s6 = Some (r, s')"
    by (auto simp: tcp_state_listen_def a tcp_new_iss_def u_def bind_eq_Some_conv split_beta Let_def)
  have "in_states (st(c \<mapsto> TCP_CLOSED)) u" by (rule in_states_same [OF c(2)]) (simp add: u_def)
  then have "in_states (st(c \<mapsto> TCP_CLOSED)) s1" by (rule upd_sock_keeps [OF s(1), rotated]) simp
  then have "in_states (st(c \<mapsto> TCP_CLOSED, c \<mapsto> TCP_SYN_RECV, i \<mapsto> TCP_SYN_RECV)) s'"
    using s(2-) by - (erule keeps | assumption)+
  then show ?thesis using False c(1) by simp
qed

lemma syn_sent_states:
  assumes "tcp_state_syn_sent i cb s = Some s'" "in_states st s"
  shows "in_states (if cb_flags cb AND (TCP_SYN OR TCP_ACK) = TCP_SYN OR TCP_ACK
    then st(i \<mapsto> TCP_ESTABLISHED) else st) s'"
proof (cases "cb_flags cb AND (TCP_SYN OR TCP_ACK) = TCP_SYN OR TCP_ACK")
  case True
  with assms(1) obtain s1 s2 s3 s4 s5 where s:
    "upd_sock i (\<lambda>k. k \<lparr>rcv_nxt := cb_seq cb + 1, snd_una := cb_ack cb\<rparr>) s = Some s1"
    "buf_ack (cb_ack cb) s1 = Some s2" "tcp_stop_retrans_timewait_timer i s2 = Some s3"
    "tcp_set_state i TCP_ESTABLISHED s3 = Some s4" "tcp_send_control_packet i TCP_ACK s4 = Some s5"
    "wake_up i Wait_Connect s5 = Some s'"
    by (auto simp: tcp_state_syn_sent_def bind_eq_Some_conv)
  have "in_states st s1" by (rule upd_sock_keeps [OF s(1) _ assms(2)]) simp
  then have "in_states (st(i \<mapsto> TCP_ESTABLISHED)) s'" using s(2-) by - (erule keeps | assumption)+
  then show ?thesis using True by simp
qed (use assms in \<open>auto simp: tcp_state_syn_sent_def\<close>)

lemma accept_enqueue_keeps [keeps]:
  assumes "tcp_sock_accept_enqueue i s = Some s'" "in_states st s"
  shows "in_states st s'"
proof -
  from assms(1) obtain s1 s2 p where s: "s1 = s \<or> upd_links (list_delete_entry (Queue_Node i)) s = Some s1"
    "upd_links (list_add_tail (Queue_Node i) (Accept_Queue p)) s1 = Some s2"
    "upd_sock p (\<lambda>k. k \<lparr>accept_backlog := accept_backlog k + 1\<rparr>) s2 = Some s'"
    by (auto simp: tcp_sock_accept_enqueue_def bind_eq_Some_conv split: if_splits)
  have "in_states st s1" using s(1) assms(2) upd_links_keeps by blast
  with s(2) have "in_states st s2" by (rule upd_links_keeps)
  then show ?thesis by (rule upd_sock_keeps [OF s(3), rotated]) simp
qed

lemma syn_recv_states:
  assumes "tcp_state_syn_recv i cb s = Some s'" "cb_flags cb AND TCP_ACK \<noteq> 0"
    "t_socks s i = Some k" "in_states st s"
  shows "\<exists>p. sk_parent k = Some p \<and> in_states (st(p \<mapsto> TCP_ESTABLISHED, i \<mapsto> TCP_ESTABLISHED)) s'"
proof -
  from assms(1-3) obtain s1 s2 s3 s4 s5 s6 p where s: "tcp_sock_accept_enqueue i s = Some s1"
    "upd_sock i (\<lambda>k. k \<lparr>rcv_nxt := cb_seq cb, snd_una := cb_ack cb\<rparr>) s1 = Some s2"
    "buf_ack (cb_ack cb) s2 = Some s3" "tcp_stop_retrans_timewait_timer i s3 = Some s4"
    "sk_parent k = Some p"
    "tcp_set_state p TCP_ESTABLISHED s4 = Some s5" "tcp_set_state i TCP_ESTABLISHED s5 = Some s6"
    "wake_up p Wait_Accept s6 = Some s'"
    by (auto simp: tcp_state_syn_recv_def bind_eq_Some_conv)
  have "in_states st s1" using s(1) assms(4) by (rule accept_enqueue_keeps)
  then have "in_states st s2" by (rule upd_sock_keeps [OF s(2), rotated]) simp
  then have "in_states (st(p \<mapsto> TCP_ESTABLISHED, i \<mapsto> TCP_ESTABLISHED)) s'"
    using s(3,4,6-) by - (erule keeps | assumption)+
  then show ?thesis using s(5) by blast
qed

lemma send_fin_states:
  "send_fin i x s = Some s' \<Longrightarrow> in_states st s \<Longrightarrow> in_states (st(i \<mapsto> x)) s'"
  by (auto simp: send_fin_def bind_eq_Some_conv) (erule keeps | assumption)+

lemma close_states:
  assumes "tcp_sock_close i s = Some s'" "t_socks s i = Some k" "sk_state k \<noteq> TCP_LISTEN" "in_states st s"
  shows "in_states (st(i \<mapsto> (case sk_state k of TCP_ESTABLISHED \<Rightarrow> TCP_FIN_WAIT_1
    | TCP_CLOSE_WAIT \<Rightarrow> TCP_LAST_ACK | _ \<Rightarrow> sk_state k))) s'"
proof -
  have "st i = Some (sk_state k)" using assms(2,4) by (simp add: in_states_def)
  then have "st(i \<mapsto> sk_state k) = st" by auto
  then show ?thesis
    using assms send_fin_states [OF _ assms(4)]
    by (auto simp: tcp_sock_close_def split: tcp_state.splits)
qed

lemma update_window_keeps [keeps]:
  assumes "tcp_update_window_safe i cb s = Some s'" "in_states st s"
  shows "in_states st s'"
proof -
  from assms(1) consider "s' = s" | s1 where
    "upd_sock i (\<lambda>k. k \<lparr>snd_wnd := ucast (cb_rwnd cb)\<rparr>) s = Some s1"
    "s' = s1 \<or> wake_up i Wait_Send s1 = Some s'"
    by (auto simp: tcp_update_window_safe_def tcp_update_window_def bind_eq_Some_conv split: if_splits)
  then show ?thesis
  proof cases
    case 2
    have "in_states st s1" by (rule upd_sock_keeps [OF 2(1) _ assms(2)]) simp
    then show ?thesis using 2(2) wake_up_keeps by blast
  qed (use assms(2) in simp)
qed

lemma process_ack_keeps:
  assumes "process_ack i cb s = Some s'" "in_states st s"
  shows "in_states st s'"
proof -
  from assms(1) obtain s1 s2 s3 s4 where s:
    "upd_sock i (\<lambda>k. k \<lparr>snd_una := cb_ack cb, rcv_nxt := cb_seq cb + 1\<rparr>) s = Some s1"
    "tcp_update_window_safe i cb s1 = Some s2" "buf_ack (cb_ack cb) s2 = Some s3"
    "tcp_update_retrans_timewait_timer i s3 = Some s4" "wake_up i Wait_Send s4 = Some s'"
    by (auto simp: process_ack_def bind_eq_Some_conv)
  have "in_states st s1" by (rule upd_sock_keeps [OF s(1) _ assms(2)]) simp
  then show ?thesis using s(2-) by - (erule keeps | assumption)+
qed

lemma in_states_id: "st i = Some x \<Longrightarrow> in_states (st(i \<mapsto> x)) s = in_states st s"
  by (simp add: fun_upd_idem)

lemma closing_ack_states:
  assumes "process_closing_ack i cb x s = Some s'" "st i = Some x" "in_states st s"
  shows "in_states (st(i \<mapsto> (case x of TCP_FIN_WAIT_1 \<Rightarrow> TCP_FIN_WAIT_2 | TCP_CLOSING \<Rightarrow> TCP_TIME_WAIT
    | TCP_LAST_ACK \<Rightarrow> TCP_CLOSED | _ \<Rightarrow> x))) s'"
  using assms by (cases x) (auto simp: process_closing_ack_def bind_eq_Some_conv in_states_id,
    (erule keeps | assumption)+)

lemma fin_states:
  assumes "process_fin i cb x s = Some s'" "st i = Some x" "in_states st s"
  shows "in_states (st(i \<mapsto> (case x of TCP_ESTABLISHED \<Rightarrow> TCP_CLOSE_WAIT | TCP_FIN_WAIT_1 \<Rightarrow> TCP_CLOSING
    | TCP_FIN_WAIT_2 \<Rightarrow> TCP_TIME_WAIT | _ \<Rightarrow> x))) s'"
proof -
  have upd: "in_states st t" if "upd_sock i (\<lambda>k. k \<lparr>rcv_nxt := cb_seq cb + 1\<rparr>) s = Some t" for t
    by (rule upd_sock_keeps [OF that _ assms(3)]) simp
  show ?thesis
    using assms by (cases x) (auto simp: process_fin_def bind_eq_Some_conv in_states_id dest!: upd,
      (erule keeps | assumption)+)
qed

section \<open>The whole of \<open>tcp_process\<close>\<close>

lemma reset_socks [simp]: "t_socks (tcp_send_reset cb s) = t_socks s"
  by (simp add: tcp_send_reset_def split_beta Let_def on_router_def)

lemma aborted_states:
  assumes "tcp_process env (Some i) cb packet s = Some s'" "t_socks s i = Some k" "in_states st s"
    and "sk_state k \<notin> {TCP_CLOSED, TCP_LISTEN, TCP_SYN_SENT}"
    and "cb_flags cb AND TCP_RST \<noteq> 0 \<or> cb_flags cb AND TCP_SYN \<noteq> 0"
  shows "in_states (st(i \<mapsto> next_state (sk_state k) (cb_flags cb))) s'"
proof -
  note run = assms(1) [unfolded tcp_process_def, simplified, unfolded assms(2), simplified]
  have "\<exists>t u. in_states st t \<and> t_socks t i = Some k \<and> tcp_sock_close i t = Some u \<and>
    (s' = u \<or> free_tcp_sock i u = Some s')"
  proof (cases "cb_flags cb AND TCP_RST = 0")
    case False
    then show ?thesis using run assms(2-4) by (auto simp: bind_eq_Some_conv)
  next
    case True
    then show ?thesis using run assms(2-5)
      by (intro exI [of _ "tcp_send_reset cb s"] exI [of _ s']) auto
  qed
  then obtain t u where t: "in_states st t" "t_socks t i = Some k" "tcp_sock_close i t = Some u"
    "s' = u \<or> free_tcp_sock i u = Some s'" by blast
  have "in_states (st(i \<mapsto> next_state (sk_state k) (cb_flags cb))) u"
    using close_states [OF t(3,2) _ t(1)] assms(4,5) by (cases "sk_state k") simp_all
  then show ?thesis using t(4) free_sock_keeps by blast
qed

lemma synchronised_states:
  assumes "tcp_process env (Some i) cb packet s = Some s'" "t_socks s i = Some k" "in_states st s" "quiet env"
    and "sk_state k \<notin> {TCP_CLOSED, TCP_LISTEN, TCP_SYN_SENT}" "\<not> completes k (cb_flags cb)"
  shows "in_states (st(i \<mapsto> next_state (sk_state k) (cb_flags cb))) s'"
proof (cases "cb_flags cb AND TCP_RST \<noteq> 0 \<or> cb_flags cb AND TCP_SYN \<noteq> 0")
  case True
  then show ?thesis using aborted_states assms(1-3,5) by blast
next
  case plain: False
  note run = assms(1) [unfolded tcp_process_def, simplified, unfolded assms(2), simplified]
  have sti: "st i = Some (sk_state k)" using assms(2,3) by (simp add: in_states_def)
  show ?thesis
  proof (cases "cb_flags cb AND TCP_ACK = 0")
    case True
    then show ?thesis using run plain assms(3,5) sti by (cases "sk_state k") (auto simp: in_states_id)
  next
    case False
    then have "sk_state k \<noteq> TCP_SYN_RECV" using assms(6) plain by (auto simp: completes_def)
    then show ?thesis
      using run plain False assms(3,5) fin_states [OF _ sti assms(3), of cb s']
        closing_ack_states [OF _ sti assms(3), of cb s'] process_ack_keeps [OF _ assms(3), of i cb s']
        recv_data_keeps [OF _ assms(4,3), of i cb packet s'] sti
      by (cases "sk_state k") (auto simp: in_states_id bind_eq_Some_conv split: if_splits)
  qed
qed

text \<open>C1. The states of the sockets follow the automaton: when \<open>tcp_process\<close> returns, the socket
  of the segment is in the state that its old state and the flags give (or has been freed), a SYN
  to a listening socket has made one new socket in SYN-RECEIVED, the ACK that completes a handshake
  has put the parent in ESTABLISHED, and every other socket is in the state it was in. In
  particular the listening socket itself leaves LISTEN with the first SYN.\<close>

theorem process_transitions:
  assumes "tcp_process env (Some i) cb packet s = Some s'" "t_socks s i = Some k" "quiet env"
    and "t_socks s (t_nsocks s) = None" "sk_parent k \<noteq> Some i" "t_socks s' j = Some k'"
  shows "Some (sk_state k') = next_states i k (cb_flags cb) s j"
proof -
  define st where "st = (\<lambda>j. map_option sk_state (t_socks s j))"
  let ?fl = "cb_flags cb" and ?x = "sk_state k"
  have st: "in_states st s" "st i = Some ?x" using assms(2) by (simp_all add: in_states_def st_def)
  have ni: "i \<noteq> t_nsocks s" using assms(2,4) by auto
  have "in_states (next_states i k ?fl s) s'"
  proof (cases "opens k ?fl \<or> completes k ?fl")
    case True
    then show ?thesis
    proof
      assume o: "opens k ?fl"
      then have "tcp_state_listen i cb s = Some s'" using assms(1,2) by (simp add: tcp_process_def opens_def)
      from listen_states [OF this st(1)] o
      have "in_states (st(t_nsocks s \<mapsto> TCP_SYN_RECV, i \<mapsto> TCP_SYN_RECV)) s'" by (simp add: opens_def)
      moreover have "next_states i k ?fl s = st(t_nsocks s \<mapsto> TCP_SYN_RECV, i \<mapsto> TCP_SYN_RECV)"
        using o ni by (auto simp: fun_eq_iff next_states_def st_def opens_def completes_def)
      ultimately show ?thesis by simp
    next
      assume c: "completes k ?fl"
      then have "tcp_state_syn_recv i cb s = Some s'" using assms(1,2) by (simp add: tcp_process_def completes_def)
      from syn_recv_states [OF this _ assms(2) st(1)] c obtain p where
        p: "sk_parent k = Some p" "in_states (st(p \<mapsto> TCP_ESTABLISHED, i \<mapsto> TCP_ESTABLISHED)) s'"
        by (auto simp: completes_def)
      moreover have "next_states i k ?fl s = st(p \<mapsto> TCP_ESTABLISHED, i \<mapsto> TCP_ESTABLISHED)"
        using c p(1) assms(5) by (auto simp: fun_eq_iff next_states_def st_def opens_def completes_def)
      ultimately show ?thesis by simp
    qed
  next
    case False
    then have eq: "next_states i k ?fl s = st(i \<mapsto> next_state ?x ?fl)"
      by (auto simp: fun_eq_iff next_states_def st_def)
    consider "?x = TCP_CLOSED" | "?x = TCP_LISTEN" | "?x = TCP_SYN_SENT"
      | "?x \<notin> {TCP_CLOSED, TCP_LISTEN, TCP_SYN_SENT}" by blast
    then have "in_states (st(i \<mapsto> next_state ?x ?fl)) s'"
    proof cases
      case 1
      then show ?thesis using assms(1,2) st
        by (auto simp: tcp_process_def tcp_state_closed_def in_states_id)
    next
      case 2
      then show ?thesis using assms(1,2) False listen_states [of i cb s s' st] st
        by (simp add: tcp_process_def opens_def in_states_id)
    next
      case 3
      then show ?thesis using assms(1,2) syn_sent_states [of i cb s s' st] st
        by (auto simp: tcp_process_def in_states_id split: if_splits)
    next
      case 4
      then show ?thesis using synchronised_states [OF assms(1,2) st(1) assms(3)] False by blast
    qed
    then show ?thesis by (simp add: eq)
  qed
  then show ?thesis using assms(6) by (simp add: in_states_def)
qed

lemma process_transitions_witness:
  "\<exists>s' k'. tcp_process (\<lambda>_ s. s) (Some 0)
      \<lparr>cb_saddr = 0x0a000009, cb_daddr = 0x0a000001, cb_sport = 80, cb_dport = 12345, cb_seq = 5, cb_seq_end = 6,
       cb_ack = 9, cb_payload = [], cb_pl_len = 0, cb_rwnd = 100, cb_flags = TCP_FIN OR TCP_ACK\<rparr> []
      (demo_stack \<lparr>t_socks := [0 \<mapsto> fresh_sock \<lparr>sk_state := TCP_ESTABLISHED\<rparr>], t_nsocks := 1\<rparr>) = Some s' \<and>
    t_socks s' 0 = Some k' \<and> sk_state k' = TCP_CLOSE_WAIT"
proof -
  let ?cb = "\<lparr>cb_saddr = 0x0a000009, cb_daddr = 0x0a000001, cb_sport = 80, cb_dport = 12345, cb_seq = 5,
    cb_seq_end = 6, cb_ack = 9, cb_payload = [], cb_pl_len = 0, cb_rwnd = 100, cb_flags = TCP_FIN OR TCP_ACK\<rparr>"
  let ?k = "fresh_sock \<lparr>sk_state := TCP_ESTABLISHED\<rparr>"
  let ?s = "demo_stack \<lparr>t_socks := [0 \<mapsto> ?k], t_nsocks := 1\<rparr>"
  obtain s' k' where run: "tcp_process (\<lambda>_ s. s) (Some 0) ?cb [] ?s = Some s'" "t_socks s' 0 = Some k'"
    by (simp add: tcp_process_def process_fin_def upd_sock_def wait_exit_def tcp_set_state_def
        tcp_send_control_packet_def split_beta Let_def stack_rand_def stack_malloc_def on_router_def
        TCP_FIN_def TCP_ACK_def TCP_SYN_def TCP_RST_def)
  have "quiet (\<lambda>_ s. s)" by (simp add: quiet_def)
  moreover have "t_socks ?s (t_nsocks ?s) = None" "sk_parent ?k \<noteq> Some 0" "t_socks ?s 0 = Some ?k"
    by (simp_all add: fresh_sock_def)
  ultimately have "Some (sk_state k') = next_states 0 ?k (TCP_FIN OR TCP_ACK) ?s 0"
    using process_transitions [OF run(1) _ _ _ _ run(2)] by simp
  then show ?thesis
    using run by (auto simp: next_states_def TCP_FIN_def TCP_ACK_def TCP_SYN_def TCP_RST_def)
qed

end
