(* ===== verification/TcpHandshake.thy ===== *)
theory TcpHandshake imports TcpTimers begin

text \<open>The opening of a connection: what connecting and listening sockets do with the segments of
  the three-way handshake, and the run of both ends.\<close>

section \<open>Lists that an operation leaves alone\<close>

definition links_keep :: "link set \<Rightarrow> stack \<Rightarrow> stack \<Rightarrow> bool" where
  "links_keep X s s' \<longleftrightarrow>
     (\<forall>x. x \<notin> X \<longrightarrow> lnext (t_links s') x = lnext (t_links s) x \<and> lprev (t_links s') x = lprev (t_links s) x)"

definition timer_nodes :: "link set" where "timer_nodes = insert Retrans_List (range Retrans)"
definition buffer_nodes :: "link set" where "buffer_nodes = insert Trans_Buf (range Block)"
definition table_nodes :: "link set" where "table_nodes = range Established \<union> range Hash_List"

lemmas node_sets = timer_nodes_def buffer_nodes_def table_nodes_def

lemma links_keep_refl [simp]: "links_keep X s s"
  by (simp add: links_keep_def)

lemma links_keep_trans: "links_keep X s t \<Longrightarrow> links_keep Y t u \<Longrightarrow> links_keep (X \<union> Y) s u"
  by (simp add: links_keep_def)

lemma links_keep_mono: "links_keep X s t \<Longrightarrow> X \<subseteq> Y \<Longrightarrow> links_keep Y s t"
  unfolding links_keep_def by blast

lemma dlist_keep:
  "links_keep X s s' \<Longrightarrow> dlist (t_links s) l xs \<Longrightarrow> set (l # xs) \<inter> X = {} \<Longrightarrow> dlist (t_links s') l xs"
  unfolding links_keep_def by (elim dlist_frame) blast

text \<open>The sending buffer and the timer list, which connections share.\<close>

definition tables :: "bytes list \<Rightarrow> nat list \<Rightarrow> stack \<Rightarrow> bool" where
  "tables ps rs s \<longleftrightarrow> buffered ps s \<and> dlist (t_links s) Retrans_List (map Retrans rs)"

lemma tables_links:
  assumes "tables ps rs s" "links_keep X s s'" "X \<inter> (buffer_nodes \<union> set (Retrans_List # map Retrans rs)) = {}"
    and "t_blocks s' = t_blocks s" "t_nblocks s' = t_nblocks s" "t_buf_size s' = t_buf_size s"
  shows "tables ps rs s'"
proof -
  from assms(1) obtain bs where bs: "blocks_hold bs ps s" "t_buf_size s = payload_size ps"
    by (auto simp: tables_def buffered_def)
  then have "dlist (t_links s') Trans_Buf (map Block bs)"
    using assms(3) by (intro dlist_keep [OF assms(2)]) (auto simp: blocks_hold_def node_sets)
  then have "buffered ps s'" using bs assms(4-6) by (auto simp: buffered_def blocks_hold_def)
  moreover have "dlist (t_links s') Retrans_List (map Retrans rs)"
    using assms(1,3) by (intro dlist_keep [OF assms(2)]) (auto simp: tables_def node_sets)
  ultimately show ?thesis by (simp add: tables_def)
qed

lemma tables_upd [simp]:
  "tables ps rs (s \<lparr>t_socks := k\<rparr>) = tables ps rs s" "tables ps rs (s \<lparr>t_router := r\<rparr>) = tables ps rs s"
  "tables ps rs (s \<lparr>t_nsocks := n\<rparr>) = tables ps rs s" "tables ps rs (s \<lparr>t_sleeps := n\<rparr>) = tables ps rs s"
  by (simp_all add: tables_def buffered_def blocks_hold_def)

lemma links_keep_upd [simp]:
  "links_keep X (s \<lparr>t_socks := k\<rparr>) s' = links_keep X s s'" "links_keep X s (s' \<lparr>t_socks := k\<rparr>) = links_keep X s s'"
  "links_keep X (s \<lparr>t_router := r\<rparr>) s' = links_keep X s s'" "links_keep X s (s' \<lparr>t_router := r\<rparr>) = links_keep X s s'"
  "links_keep X s (s' \<lparr>t_nsocks := n\<rparr>) = links_keep X s s'"
  by (simp_all add: links_keep_def)

section \<open>The operations\<close>

text \<open>Timers.\<close>

lemma timer_set:
  assumes "tables ps rs s" "c \<notin> set rs" "t_socks s c = Some k"
  shows "\<exists>h. tcp_set_retrans_timewait_timer c s = Some (s \<lparr>t_links := h,
      t_socks := (t_socks s)(c \<mapsto> (armed k) \<lparr>ref_cnt := ref_cnt k + 1\<rparr>)\<rparr>) \<and>
    tables ps (rs @ [c]) (s \<lparr>t_links := h\<rparr>) \<and> links_keep timer_nodes s (s \<lparr>t_links := h\<rparr>)"
proof -
  let ?h0 = "init_list_head (Retrans c) (t_links s)"
  have n: "Retrans c \<notin> set (Retrans_List # map Retrans rs)" using assms(2) by auto
  have "dlist (t_links s) Retrans_List (map Retrans rs)" using assms(1) by (simp add: tables_def)
  then have "dlist ?h0 Retrans_List (map Retrans rs)"
    by (rule dlist_frame) (use n in \<open>auto simp: init_list_head_def\<close>)
  from dlist_add_tail [OF this n] obtain h where h: "list_add_tail (Retrans c) Retrans_List ?h0 = Some h"
    "dlist h Retrans_List (map Retrans rs @ [Retrans c])"
    "\<forall>x. x \<notin> set (Retrans c # Retrans_List # map Retrans rs) \<longrightarrow> lnext h x = lnext ?h0 x \<and> lprev h x = lprev ?h0 x"
    by blast
  have f: "links_keep timer_nodes s (s \<lparr>t_links := h\<rparr>)"
    using h(3) by (auto simp: links_keep_def timer_nodes_def init_list_head_def)
  have "buffered ps (s \<lparr>t_links := h\<rparr>)"
    using assms(1) f by (intro buffered_links) (auto simp: tables_def links_keep_def timer_nodes_def)
  then have "tables ps (rs @ [c]) (s \<lparr>t_links := h\<rparr>)" using h(2) by (simp add: tables_def)
  then show ?thesis
    using h(1) f assms(3)
    by (intro exI [of _ h]) (simp add: tcp_set_retrans_timewait_timer_def upd_sock_def init_list_node_def
        upd_links_def tcp_sock_inc_ref_cnt_def armed_def)
qed

lemma timer_stop:
  assumes "tables ps (rs1 @ c # rs2) s" "t_socks s c = Some k" "1 < ref_cnt k"
  shows "\<exists>h. tcp_stop_retrans_timewait_timer c s = Some (s \<lparr>t_links := h,
      t_socks := (t_socks s)(c \<mapsto> k \<lparr>ref_cnt := ref_cnt k - 1\<rparr>)\<rparr>) \<and>
    tables ps (rs1 @ rs2) (s \<lparr>t_links := h\<rparr>) \<and> links_keep timer_nodes s (s \<lparr>t_links := h\<rparr>) \<and>
    lnext h (Retrans c) = lnext (t_links s) (Retrans c) \<and> lprev h (Retrans c) = lprev (t_links s) (Retrans c)"
proof -
  have "dlist (t_links s) Retrans_List (map Retrans rs1 @ Retrans c # map Retrans rs2)"
    using assms(1) by (simp add: tables_def)
  from dlist_delete [OF this] obtain h where h: "list_delete_entry (Retrans c) (t_links s) = Some h"
    "dlist h Retrans_List (map Retrans (rs1 @ rs2))" "lnext h (Retrans c) = lnext (t_links s) (Retrans c)"
    "lprev h (Retrans c) = lprev (t_links s) (Retrans c)"
    "\<forall>x. x \<notin> set (Retrans_List # map Retrans rs1 @ map Retrans rs2) \<longrightarrow>
      lnext h x = lnext (t_links s) x \<and> lprev h x = lprev (t_links s) x" by auto
  have f: "links_keep timer_nodes s (s \<lparr>t_links := h\<rparr>)"
    using h(5) by (auto simp: links_keep_def timer_nodes_def)
  have "buffered ps (s \<lparr>t_links := h\<rparr>)"
    using assms(1) f by (intro buffered_links) (auto simp: tables_def links_keep_def timer_nodes_def)
  then have "tables ps (rs1 @ rs2) (s \<lparr>t_links := h\<rparr>)" using h(2) by (simp add: tables_def)
  then show ?thesis
    using h(1,3,4) f assms(2,3)
    by (intro exI [of _ h]) (simp add: tcp_stop_retrans_timewait_timer_def upd_links_def free_tcp_sock_def Let_def)
qed

text \<open>The buffer.\<close>

lemma tables_ack:
  assumes "tables ps rs s"
  shows "\<exists>s'. buf_ack ack s = Some s' \<and> tables (filter (\<lambda>p. \<not> acked ack p) ps) rs s' \<and> buf_frame s s' \<and>
    links_keep buffer_nodes s s'"
proof -
  obtain s' where s': "buf_ack ack s = Some s'" "buffered (filter (\<lambda>p. \<not> acked ack p) ps) s'" "buf_frame s s'"
    using buf_ack_buffered [of ps s ack] assms unfolding tables_def by blast
  then have k: "links_keep buffer_nodes s s'" by (auto simp: buf_frame_def links_keep_def buffer_nodes_def)
  have "dlist (t_links s') Retrans_List (map Retrans rs)"
    using assms by (intro dlist_keep [OF k]) (auto simp: tables_def buffer_nodes_def)
  then show ?thesis using s' k by (auto simp: tables_def)
qed

text \<open>Control segments: the frame on the wire, under any rewriting of its Ethernet header.\<close>

definition same_packet :: "bytes \<Rightarrow> bytes \<Rightarrow> bool" where
  "same_packet f q \<longleftrightarrow> length f = length q \<and> drop 14 f = drop 14 q"

definition delivers :: "bytes \<Rightarrow> tcp_cb \<Rightarrow> bool" where
  "delivers q cb \<longleftrightarrow> (\<forall>f. same_packet f q \<longrightarrow> carries f cb)"

definition sends :: "rt_entry \<Rightarrow> mac_addr \<Rightarrow> tcp_cb \<Rightarrow> router \<Rightarrow> router \<Rightarrow> bool" where
  "sends e mac cb r r' \<longleftrightarrow> (\<exists>q. r_out r' = r_out r @ [(rt_iface e, q)] \<and> eth_dhost q = mac \<and> delivers q cb) \<and>
     r_ifaces r' = r_ifaces r \<and> r_rtable r' = r_rtable r \<and> r_entries r' = r_entries r"

lemma reachable_cong:
  assumes "r_ifaces r' = r_ifaces r" "r_rtable r' = r_rtable r" "r_entries r' = r_entries r"
  shows "reachable_via d e mac r' = reachable_via d e mac r"
  using assms by (simp add: reachable_via_def longest_prefix_match_def arpcache_lookup_def)

lemma sends_reachable: "sends e mac cb r r' \<Longrightarrow> reachable_via d e' mac' r' = reachable_via d e' mac' r"
  by (rule reachable_cong) (simp_all add: sends_def)

lemma control_packet:
  assumes "reachable_via da e mac r" "length p0 = 54"
  shows "sends e mac (segment_cb sa da sp dp sq ak fl wn []) r (host_send_packet
    (set_tcp_checksum (tcp_init_hdr sp dp sq ak fl wn (ip_init_hdr sa da 40 IPPROTO_TCP x p0))) r)"
proof -
  define H where "H = tcp_init_hdr sp dp sq ak fl wn (ip_init_hdr sa da 40 IPPROTO_TCP x p0)"
  define p where "p = set_tcp_checksum H"
  have l: "length p0 = 54 + 0" using assms(2) by simp
  note H = tcp_after_ip [OF l, where sa = sa and da = da and x = x and sp = sp and dp = dp and sq = sq
    and ak = ak and fl = fl and wn = wn, unfolded add_0_right of_nat_numeral, folded H_def]
  have "plain_ip sa da 0 p" using plain_ip_set(1) [OF H(1)] by (simp add: p_def)
  then have "reachable_via (ntohl (ip_daddr p)) e mac r" "length p = 54"
    using assms(1) by (simp_all add: plain_ip_def)
  then obtain q where q: "length q = length p" "drop 14 q = drop 14 p" "eth_dhost q = mac"
    "host_send_packet p r = r \<lparr>r_out := r_out r @ [(rt_iface e, q)]\<rparr>"
    using host_send_hit [of p e mac r] by auto
  have "carries f (segment_cb sa da sp dp sq ak fl wn [])" if "length f = length q \<and> drop 14 f = drop 14 q" for f
  proof -
    have d: "drop 14 f = drop 14 (set_tcp_checksum H)" and lf: "length f = length H"
      using that q by (simp_all add: p_def)
    have "drop 54 H = []" using H(3) assms(2) by simp
    then show ?thesis using built_segment [OF H(1,2) _ disjI1 [OF d] lf] by simp
  qed
  then show ?thesis using q(3,4) by (auto simp: sends_def delivers_def same_packet_def p_def H_def)
qed

lemma has_fields_set:
  assumes "has_fields sp dp sq ak fl wn H" "plain_ip sa da n H"
  shows "has_fields sp dp sq ak fl wn (set_tcp_checksum H)"
  using assms
  by (simp add: has_fields_def plain_ip_def set_tcp_checksum_def ip_data_def IP_HDR_SIZE_def ETHER_HDR_SIZE_def
      th_defs ld_st_apart apart_def)

lemma control_sent:
  assumes "tables ps rs s" "t_socks s i = Some k" "fl AND (TCP_SYN OR TCP_FIN) \<noteq> 0" "fl AND TCP_RST = 0"
    and "reachable_via (sk_dip k) e mac (t_router s)"
  shows "\<exists>s' p. tcp_send_control_packet i fl s = Some s' \<and> tables (ps @ [p]) rs s' \<and>
    ntohl (th_seq p TCP_AT) = snd_nxt k \<and>
    t_socks s' = (t_socks s)(i \<mapsto> armed (k \<lparr>snd_nxt := snd_nxt k + 1\<rparr>)) \<and> t_nsocks s' = t_nsocks s \<and>
    links_keep buffer_nodes s s' \<and>
    sends e mac (segment_cb (sk_sip k) (sk_dip k) (sk_sport k) (sk_dport k) (snd_nxt k) (rcv_nxt k) fl
      (rcv_wnd k) []) (t_router s) (t_router s')"
proof -
  define r1 where "r1 = snd (malloc 54 (t_router s))"
  define p0 where "p0 = fst (malloc 54 (t_router s))"
  define r2 where "r2 = snd (rand r1)"
  define p where "p = set_tcp_checksum (tcp_init_hdr (sk_sport k) (sk_dport k) (snd_nxt k) (rcv_nxt k) fl
    (rcv_wnd k) (ip_init_hdr (sk_sip k) (sk_dip k) 40 IPPROTO_TCP (fst (rand r1)) p0))"
  let ?k = "k \<lparr>snd_nxt := snd_nxt k + 1\<rparr>"
  let ?s = "s \<lparr>t_router := r2, t_socks := (t_socks s)(i \<mapsto> ?k)\<rparr>"
  have "buffered ps ?s" "t_socks ?s i = Some ?k" using assms(1) by (simp_all add: tables_def)
  from buffer_and_arm [OF this, of p] obtain s3 s4 where
    s3: "buf_append_packet p ?s = Some s3" "tcp_update_retrans_timewait_timer i s3 = Some s4"
    "buffered (ps @ [p]) s4" "t_router s4 = r2" "t_socks s4 = (t_socks s)(i \<mapsto> armed ?k)"
    "buf_frame ?s s3" "t_links s4 = t_links s3" by auto
  have fl: "fl \<noteq> TCP_ACK" using assms(3) by (auto simp: TCP_ACK_def TCP_SYN_def TCP_FIN_def)
  have ns: "t_nsocks s4 = t_nsocks s"
    using s3(2,6) by (auto simp: tcp_update_retrans_timewait_timer_def upd_sock_def buf_frame_def split: bind_splits)
  have run: "tcp_send_control_packet i fl s = Some (on_router (host_send_packet p) s4)"
    using assms(2-4) fl s3(1,2)
    by (simp add: tcp_send_control_packet_def stack_malloc_def stack_rand_def split_beta Let_def hdr_sizes
        upd_sock_def r1_def r2_def p0_def p_def)
  have keep: "links_keep buffer_nodes s s4"
    using s3(6,7) by (auto simp: links_keep_def buf_frame_def buffer_nodes_def)
  have "dlist (t_links s4) Retrans_List (map Retrans rs)"
    using assms(1) by (intro dlist_keep [OF keep]) (auto simp: tables_def buffer_nodes_def)
  then have "tables (ps @ [p]) rs s4" using s3(3) by (simp add: tables_def)
  moreover have r: "reachable_via (sk_dip k) e mac r2" using assms(5) by (simp add: r2_def r1_def)
  have "sends e mac (segment_cb (sk_sip k) (sk_dip k) (sk_sport k) (sk_dport k) (snd_nxt k) (rcv_nxt k) fl
      (rcv_wnd k) []) r2 (host_send_packet p r2)"
    unfolding p_def by (rule control_packet [OF r]) (simp add: p0_def)
  then have "sends e mac (segment_cb (sk_sip k) (sk_dip k) (sk_sport k) (sk_dport k) (snd_nxt k) (rcv_nxt k) fl
      (rcv_wnd k) []) (t_router s) (host_send_packet p r2)"
    by (simp add: sends_def r2_def r1_def)
  moreover have "ntohl (th_seq p TCP_AT) = snd_nxt k"
  proof -
    have l: "length p0 = 54 + 0" by (simp add: p0_def)
    note H = tcp_after_ip [OF l, where sa = "sk_sip k" and da = "sk_dip k" and x = "fst (rand r1)"
      and sp = "sk_sport k" and dp = "sk_dport k" and sq = "snd_nxt k" and ak = "rcv_nxt k" and fl = fl
      and wn = "rcv_wnd k", unfolded add_0_right of_nat_numeral]
    have "has_fields (sk_sport k) (sk_dport k) (snd_nxt k) (rcv_nxt k) fl (rcv_wnd k) p"
      unfolding p_def by (rule has_fields_set [OF H(2,1)])
    then show ?thesis by (simp add: has_fields_def hdr_sizes)
  qed
  ultimately show ?thesis
    using run s3(4,5) ns keep
    by (intro exI [of _ "on_router (host_send_packet p) s4"] exI [of _ p]) (simp add: on_router_def)
qed

lemma ack_sent_any:
  assumes "t_socks s i = Some k" "reachable_via (sk_dip k) e mac (t_router s)"
  shows "\<exists>r. tcp_send_control_packet i TCP_ACK s = Some (s \<lparr>t_router := r\<rparr>) \<and>
    sends e mac (segment_cb (sk_sip k) (sk_dip k) (sk_sport k) (sk_dport k) (snd_nxt k) (rcv_nxt k) TCP_ACK
      (rcv_wnd k) []) (t_router s) r"
proof -
  define r1 where "r1 = snd (malloc 54 (t_router s))"
  define p0 where "p0 = fst (malloc 54 (t_router s))"
  define r2 where "r2 = snd (rand r1)"
  define p where "p = set_tcp_checksum (tcp_init_hdr (sk_sport k) (sk_dport k) (snd_nxt k) (rcv_nxt k) TCP_ACK
    (rcv_wnd k) (ip_init_hdr (sk_sip k) (sk_dip k) 40 IPPROTO_TCP (fst (rand r1)) p0))"
  have "tcp_send_control_packet i TCP_ACK s = Some (s \<lparr>t_router := host_send_packet p r2\<rparr>)"
    using assms(1)
    by (simp add: tcp_send_control_packet_def stack_malloc_def stack_rand_def split_beta Let_def hdr_sizes
        upd_sock_def r1_def r2_def p0_def p_def on_router_def TCP_ACK_def TCP_SYN_def TCP_FIN_def)
  moreover have r: "reachable_via (sk_dip k) e mac r2" using assms(2) by (simp add: r2_def r1_def)
  have "sends e mac (segment_cb (sk_sip k) (sk_dip k) (sk_sport k) (sk_dport k) (snd_nxt k) (rcv_nxt k) TCP_ACK
      (rcv_wnd k) []) r2 (host_send_packet p r2)"
    unfolding p_def by (rule control_packet [OF r]) (simp add: p0_def)
  then have "sends e mac (segment_cb (sk_sip k) (sk_dip k) (sk_sport k) (sk_dport k) (snd_nxt k) (rcv_nxt k) TCP_ACK
      (rcv_wnd k) []) (t_router s) (host_send_packet p r2)"
    by (simp add: sends_def r2_def r1_def)
  ultimately show ?thesis by blast
qed

lemma ack_sent:
  "tables ps rs s \<Longrightarrow> t_socks s i = Some k \<Longrightarrow> reachable_via (sk_dip k) e mac (t_router s) \<Longrightarrow>
    \<exists>r. tcp_send_control_packet i TCP_ACK s = Some (s \<lparr>t_router := r\<rparr>) \<and>
      sends e mac (segment_cb (sk_sip k) (sk_dip k) (sk_sport k) (sk_dport k) (snd_nxt k) (rcv_nxt k) TCP_ACK
        (rcv_wnd k) []) (t_router s) r"
  by (rule ack_sent_any)

text \<open>The tables of connections.\<close>

lemma find_map: "find Q (map f xs) = map_option f (find (\<lambda>x. Q (f x)) xs)"
  by (induction xs) auto

lemma find_sock_list:
  assumes "dlist (t_links s) a (map Hash_List es)" "\<forall>j \<in> set es. \<exists>l. t_socks s j = Some l"
  shows "find_sock a P s = Some (find (\<lambda>j. P (the (t_socks s j))) es)"
proof -
  let ?P = "\<lambda>p. case p of Hash_List i \<Rightarrow> map_option P (t_socks s i) | _ \<Rightarrow> None"
  let ?Q = "\<lambda>p. case p of Hash_List i \<Rightarrow> P (the (t_socks s i)) | _ \<Rightarrow> False"
  have "\<forall>x \<in> set (map Hash_List es). ?P x = Some (?Q x)" using assms(2) by auto
  from list_find_dlist [OF assms(1), of ?P ?Q, OF this]
  show ?thesis by (simp add: find_sock_def find_map split: option.split)
qed

lemma hash_established:
  assumes "t_socks s c = Some k" "sk_state k \<noteq> TCP_CLOSED" "sk_state k \<noteq> TCP_LISTEN"
  defines "a \<equiv> Established (tcp_hash_function (sk_sip k) (sk_dip k) (sk_sport k) (sk_dport k))"
  assumes "dlist (t_links s) a (map Hash_List es)" "c \<notin> set es"
    and "\<forall>j \<in> set es. \<exists>l. t_socks s j = Some l \<and> \<not> same_tuple (sk_sip k) (sk_dip k) (sk_sport k) (sk_dport k) l"
  shows "\<exists>h. tcp_hash c s = Some (0, s \<lparr>t_links := h, t_socks := (t_socks s)(c \<mapsto> k \<lparr>ref_cnt := ref_cnt k + 1\<rparr>)\<rparr>) \<and>
    dlist h a (map Hash_List (c # es)) \<and> links_keep table_nodes s (s \<lparr>t_links := h\<rparr>)"
proof -
  have live: "\<forall>j \<in> set es. \<exists>l. t_socks s j = Some l" using assms(7) by blast
  have f: "find_sock a (same_tuple (sk_sip k) (sk_dip k) (sk_sport k) (sk_dport k)) s = Some None"
    using find_sock_list [OF assms(5) live] assms(7) by (auto simp: find_None_iff)
  have n: "Hash_List c \<notin> set (a # map Hash_List es)" using assms(6) by (auto simp: a_def)
  from dlist_add_head [OF assms(5) n] obtain h where h: "list_add_head (Hash_List c) a (t_links s) = Some h"
    "dlist h a (map Hash_List (c # es))"
    "\<forall>x. x \<notin> set (Hash_List c # a # map Hash_List es) \<longrightarrow>
      lnext h x = lnext (t_links s) x \<and> lprev h x = lprev (t_links s) x" by auto
  have "tcp_hash c s = Some (0, s \<lparr>t_links := h, t_socks := (t_socks s)(c \<mapsto> k \<lparr>ref_cnt := ref_cnt k + 1\<rparr>)\<rparr>)"
    using assms(1-3) f h(1)
    by (simp add: tcp_hash_def a_def upd_links_def tcp_sock_inc_ref_cnt_def upd_sock_def Let_def)
  moreover have "links_keep table_nodes s (s \<lparr>t_links := h\<rparr>)"
    using h(3) by (auto simp: links_keep_def table_nodes_def a_def)
  ultimately show ?thesis using h(2) by blast
qed

lemma lookup_established:
  assumes "dlist (t_links s) (Established (tcp_hash_function (cb_daddr cb) (cb_saddr cb) (cb_dport cb) (cb_sport cb)))
      (map Hash_List (es @ c # es'))"
    and "t_socks s c = Some k" "same_tuple (cb_daddr cb) (cb_saddr cb) (cb_dport cb) (cb_sport cb) k"
    and "\<forall>j \<in> set es. \<exists>l. t_socks s j = Some l \<and>
      \<not> same_tuple (cb_daddr cb) (cb_saddr cb) (cb_dport cb) (cb_sport cb) l"
    and "\<forall>j \<in> set es'. \<exists>l. t_socks s j = Some l"
  shows "tcp_sock_lookup cb s = Some (Some c)"
proof -
  have "\<forall>j \<in> set (es @ c # es'). \<exists>l. t_socks s j = Some l" using assms(2,4,5) by auto
  note f = find_sock_list [OF assms(1) this]
  have "find (\<lambda>j. same_tuple (cb_daddr cb) (cb_saddr cb) (cb_dport cb) (cb_sport cb) (the (t_socks s j)))
      (es @ c # es') = Some c"
    using assms(2-4) by (induction es) auto
  then show ?thesis by (simp add: tcp_sock_lookup_def tcp_sock_lookup_established_def f)
qed

lemma lookup_listen:
  assumes "dlist (t_links s) (Established (tcp_hash_function (cb_daddr cb) (cb_saddr cb) (cb_dport cb) (cb_sport cb)))
      (map Hash_List es)"
    and "\<forall>j \<in> set es. \<exists>l. t_socks s j = Some l \<and>
      \<not> same_tuple (cb_daddr cb) (cb_saddr cb) (cb_dport cb) (cb_sport cb) l"
    and "dlist (t_links s) (Listen (tcp_hash_function 0 0 (cb_dport cb) 0)) (map Hash_List (ls @ i # ls'))"
    and "t_socks s i = Some l" "sk_sport l = cb_dport cb"
    and "\<forall>j \<in> set ls. \<exists>l. t_socks s j = Some l \<and> sk_sport l \<noteq> cb_dport cb"
    and "\<forall>j \<in> set ls'. \<exists>l. t_socks s j = Some l"
  shows "tcp_sock_lookup cb s = Some (Some i)"
proof -
  have "\<forall>j \<in> set es. \<exists>l. t_socks s j = Some l" using assms(2) by blast
  then have "tcp_sock_lookup_established (cb_daddr cb) (cb_saddr cb) (cb_dport cb) (cb_sport cb) s = Some None"
    using find_sock_list [OF assms(1)] assms(2) by (auto simp: tcp_sock_lookup_established_def find_None_iff)
  moreover have "\<forall>j \<in> set (ls @ i # ls'). \<exists>l. t_socks s j = Some l" using assms(4,6,7) by auto
  note f = find_sock_list [OF assms(3) this]
  have "find (\<lambda>j. cb_dport cb = sk_sport (the (t_socks s j))) (ls @ i # ls') = Some i"
    using assms(4-6) by (induction ls) auto
  ultimately show ?thesis by (simp add: tcp_sock_lookup_def tcp_sock_lookup_listen_def f)
qed

text \<open>A new socket.\<close>

definition sock_nodes :: "nat \<Rightarrow> link set" where
  "sock_nodes c = {Hash_List c, Bind_Hash_List c, Queue_Node c, Listen_Queue c, Accept_Queue c, Ofo_List c,
     Timewait c, Retrans c}"

lemma alloc_sock:
  fixes s :: stack
  defines "s' \<equiv> snd (alloc_tcp_sock s)" and "c \<equiv> t_nsocks s"
  shows "fst (alloc_tcp_sock s) = c" "t_socks s' = (t_socks s)(c \<mapsto> fresh_sock)" "t_nsocks s' = c + 1"
    "t_router s' = t_router s" "t_blocks s' = t_blocks s" "t_nblocks s' = t_nblocks s"
    "t_buf_size s' = t_buf_size s" "links_keep (sock_nodes c) s s'"
    "dlist (t_links s') (Queue_Node c) []" "dlist (t_links s') (Listen_Queue c) []"
    "dlist (t_links s') (Accept_Queue c) []"
  by (auto simp: s'_def c_def alloc_tcp_sock_def Let_def init_list_node_def init_list_head_def links_keep_def
      sock_nodes_def dlist_def set_next_def set_prev_def)

section \<open>The listening end\<close>

text \<open>Socket \<open>i\<close> listens for the segment \<open>cb\<close>, whose sender has no connection yet; \<open>qs\<close> are the
  accepted connections that wait to be taken.\<close>

definition own_tuple :: "tcp_cb \<Rightarrow> tcp_sock \<Rightarrow> bool" where
  "own_tuple cb = same_tuple (cb_daddr cb) (cb_saddr cb) (cb_dport cb) (cb_sport cb)"

definition bucket :: "tcp_cb \<Rightarrow> link" where
  "bucket cb = Established (tcp_hash_function (cb_daddr cb) (cb_saddr cb) (cb_dport cb) (cb_sport cb))"

definition listens :: "nat \<Rightarrow> tcp_sock \<Rightarrow> tcp_cb \<Rightarrow> bytes list \<Rightarrow> nat list \<Rightarrow> nat list \<Rightarrow> stack \<Rightarrow> bool" where
  "listens i l cb ps rs qs s \<longleftrightarrow> t_socks s i = Some l \<and> sk_state l = TCP_LISTEN \<and> sk_sport l = cb_dport cb \<and>
     tables ps rs s \<and> dlist (t_links s) (Accept_Queue i) (map Queue_Node qs) \<and>
     (\<exists>es. dlist (t_links s) (bucket cb) (map Hash_List es) \<and>
       (\<forall>j \<in> set es. \<exists>k. t_socks s j = Some k \<and> \<not> own_tuple cb k)) \<and>
     (\<exists>ls ls'. dlist (t_links s) (Listen (tcp_hash_function 0 0 (cb_dport cb) 0)) (map Hash_List (ls @ i # ls')) \<and>
       (\<forall>j \<in> set ls. \<exists>k. t_socks s j = Some k \<and> sk_sport k \<noteq> cb_dport cb) \<and>
       (\<forall>j \<in> set ls'. \<exists>k. t_socks s j = Some k)) \<and>
     (\<forall>j \<ge> t_nsocks s. t_socks s j = None) \<and> (\<forall>j \<in> set rs \<union> set qs. j < t_nsocks s)"

text \<open>Socket \<open>c\<close> has answered the SYN \<open>cb\<close> with the sequence number \<open>x\<close>.\<close>

definition half_open ::
    "nat \<Rightarrow> tcp_sock \<Rightarrow> nat \<Rightarrow> tcp_sock \<Rightarrow> u32 \<Rightarrow> tcp_cb \<Rightarrow> bytes list \<Rightarrow> nat list \<Rightarrow> nat list \<Rightarrow> stack \<Rightarrow> bool" where
  "half_open i l c k x cb ps rs qs s \<longleftrightarrow> i \<noteq> c \<and> c \<notin> set qs \<and>
     t_socks s i = Some (l \<lparr>sk_state := TCP_SYN_RECV\<rparr>) \<and> t_socks s c = Some k \<and>
     sk_state k = TCP_SYN_RECV \<and> sk_parent k = Some i \<and> ref_cnt k = 2 \<and> own_tuple cb k \<and>
     snd_nxt k = x + 1 \<and> snd_una k = x \<and> rcv_nxt k = cb_seq cb + 1 \<and>
     tables ps (rs @ [c]) s \<and> dlist (t_links s) (Accept_Queue i) (map Queue_Node qs) \<and>
     dlist (t_links s) (Listen_Queue c) [Queue_Node c] \<and>
     (\<exists>es. dlist (t_links s) (bucket cb) (map Hash_List (c # es)) \<and> (\<forall>j \<in> set es. \<exists>k. t_socks s j = Some k))"

lemma lookup_listening: "listens i l cb ps rs qs s \<Longrightarrow> tcp_sock_lookup cb s = Some (Some i)"
  unfolding listens_def bucket_def own_tuple_def by (elim exE conjE) (rule lookup_listen)

lemma syn_answered:
  assumes l: "listens i l cb ps rs qs s" and "cb_flags cb AND TCP_SYN \<noteq> 0"
    and r: "reachable_via (cb_saddr cb) e mac (t_router s)"
  shows "\<exists>s' p k x. tcp_process env (Some i) cb packet s = Some s' \<and>
    half_open i l (t_nsocks s) k x cb (ps @ [p]) rs qs s' \<and> ntohl (th_seq p TCP_AT) = x \<and>
    sends e mac (segment_cb (cb_daddr cb) (cb_saddr cb) (cb_dport cb) (cb_sport cb) x (cb_seq cb + 1)
      (TCP_SYN OR TCP_ACK) TCP_DEFAULT_WINDOW []) (t_router s) (t_router s')"
proof -
  let ?c = "t_nsocks s"
  from l have i: "t_socks s i = Some l" "sk_state l = TCP_LISTEN" and t: "tables ps rs s"
    and q: "dlist (t_links s) (Accept_Queue i) (map Queue_Node qs)"
    and fr: "\<forall>j \<ge> ?c. t_socks s j = None" "\<forall>j \<in> set rs \<union> set qs. j < ?c"
    by (simp_all add: listens_def)
  from l obtain es where es: "dlist (t_links s) (bucket cb) (map Hash_List es)"
    "\<forall>j \<in> set es. \<exists>k. t_socks s j = Some k \<and> \<not> own_tuple cb k" by (auto simp: listens_def)
  have ne: "i \<noteq> ?c" "?c \<notin> set es" "?c \<notin> set rs" "?c \<notin> set qs" using fr i(1) es(2) by force+
  define s0 where "s0 = snd (alloc_tcp_sock s)"
  note a = alloc_sock [of s, folded s0_def]
  define x where "x = fst (rand (t_router s))"
  define r1 where "r1 = snd (rand (t_router s))"
  define k1 where "k1 = fresh_sock \<lparr>sk_sip := cb_daddr cb, sk_sport := cb_dport cb, sk_dip := cb_saddr cb,
    sk_dport := cb_sport cb, iss := x, snd_una := x, snd_nxt := x, rcv_nxt := cb_seq cb + 1,
    sk_parent := Some i, sk_state := TCP_SYN_RECV\<rparr>"
  from dlist_add_tail [OF a(10), of "Queue_Node ?c"] obtain h where
    h: "list_add_tail (Queue_Node ?c) (Listen_Queue ?c) (t_links s0) = Some h"
    "dlist h (Listen_Queue ?c) [Queue_Node ?c]"
    "\<forall>y. y \<notin> {Queue_Node ?c, Listen_Queue ?c} \<longrightarrow> lnext h y = lnext (t_links s0) y \<and> lprev h y = lprev (t_links s0) y"
    by auto
  define s5 where "s5 = s0 \<lparr>t_router := r1, t_links := h,
    t_socks := (t_socks s)(?c \<mapsto> k1, i \<mapsto> l \<lparr>sk_state := TCP_SYN_RECV\<rparr>)\<rparr>"
  have k5: "links_keep (sock_nodes ?c) s s5"
    using a(8) h(3) by (auto simp: links_keep_def s5_def sock_nodes_def)
  have "tables ps rs s5"
    by (rule tables_links [OF t k5])
      (use ne a in \<open>auto simp: sock_nodes_def buffer_nodes_def s5_def\<close>)
  moreover have s5c: "t_socks s5 ?c = Some k1" using ne by (simp add: s5_def)
  ultimately obtain h6 where s6: "tcp_set_retrans_timewait_timer ?c s5 = Some (s5 \<lparr>t_links := h6,
      t_socks := (t_socks s5)(?c \<mapsto> (armed k1) \<lparr>ref_cnt := 1\<rparr>)\<rparr>)"
    "tables ps (rs @ [?c]) (s5 \<lparr>t_links := h6\<rparr>)" "links_keep timer_nodes s5 (s5 \<lparr>t_links := h6\<rparr>)"
    using timer_set [of ps rs s5 ?c k1] ne by (auto simp: k1_def fresh_sock_def)
  let ?k6 = "(armed k1) \<lparr>ref_cnt := 1\<rparr>"
  let ?s6 = "s5 \<lparr>t_links := h6, t_socks := (t_socks s5)(?c \<mapsto> ?k6)\<rparr>"
  have k1: "sk_sip k1 = cb_daddr cb" "sk_dip k1 = cb_saddr cb" "sk_sport k1 = cb_dport cb" "sk_dport k1 = cb_sport cb"
    "snd_nxt k1 = x" "rcv_nxt k1 = cb_seq cb + 1" "rcv_wnd k1 = TCP_DEFAULT_WINDOW" "snd_una k1 = x"
    "sk_state k1 = TCP_SYN_RECV" "sk_parent k1 = Some i" by (simp_all add: k1_def fresh_sock_def)
  have r6: "reachable_via (sk_dip ?k6) e mac (t_router ?s6)" using r k1 by (simp add: s5_def r1_def)
  have "tables ps (rs @ [?c]) ?s6" using s6(2) by (simp add: tables_def buffered_def blocks_hold_def)
  from control_sent [OF this, of ?c ?k6 "TCP_SYN OR TCP_ACK" e mac] r6 obtain s7 p where
    s7: "tcp_send_control_packet ?c (TCP_SYN OR TCP_ACK) ?s6 = Some s7" "tables (ps @ [p]) (rs @ [?c]) s7"
    "ntohl (th_seq p TCP_AT) = x" "t_socks s7 = (t_socks ?s6)(?c \<mapsto> armed (?k6 \<lparr>snd_nxt := x + 1\<rparr>))"
    "links_keep buffer_nodes ?s6 s7"
    "sends e mac (segment_cb (cb_daddr cb) (cb_saddr cb) (cb_dport cb) (cb_sport cb) x (cb_seq cb + 1)
      (TCP_SYN OR TCP_ACK) TCP_DEFAULT_WINDOW []) (t_router ?s6) (t_router s7)"
    by (auto simp: TCP_SYN_def TCP_ACK_def TCP_FIN_def TCP_RST_def k1)
  define k7 where "k7 = armed (?k6 \<lparr>snd_nxt := x + 1\<rparr>)"
  have k7: "same_tuple (cb_daddr cb) (cb_saddr cb) (cb_dport cb) (cb_sport cb) k7" "sk_state k7 = TCP_SYN_RECV"
    "sk_parent k7 = Some i" "ref_cnt k7 = 1" "snd_nxt k7 = x + 1" "snd_una k7 = x" "rcv_nxt k7 = cb_seq cb + 1"
    "sk_sip k7 = cb_daddr cb" "sk_dip k7 = cb_saddr cb" "sk_sport k7 = cb_dport cb" "sk_dport k7 = cb_sport cb"
    using k1 by (simp_all add: k7_def same_tuple_def)
  have so: "t_socks s7 = (t_socks s)(?c \<mapsto> k7, i \<mapsto> l \<lparr>sk_state := TCP_SYN_RECV\<rparr>)"
    using s7(4) ne by (auto simp: s5_def k7_def)
  have k67: "links_keep (timer_nodes \<union> buffer_nodes) s5 s7"
    using links_keep_trans [OF s6(3)] s7(5) by simp
  have k57: "links_keep (sock_nodes ?c \<union> (timer_nodes \<union> buffer_nodes)) s s7"
    using links_keep_trans [OF k5 k67] .
  have "dlist (t_links s7) (bucket cb) (map Hash_List es)"
    using es(1) ne by (intro dlist_keep [OF k57]) (auto simp: sock_nodes_def node_sets bucket_def)
  moreover have "\<forall>j \<in> set es. \<exists>k. t_socks s7 j = Some k \<and> \<not> own_tuple cb k"
    using es(2) ne i by (auto simp: so own_tuple_def same_tuple_def)
  moreover have "t_socks s7 ?c = Some k7" using ne by (simp add: so)
  ultimately obtain h8 where s8: "tcp_hash ?c s7 = Some (0, s7 \<lparr>t_links := h8,
      t_socks := (t_socks s7)(?c \<mapsto> k7 \<lparr>ref_cnt := 2\<rparr>)\<rparr>)"
    "dlist h8 (bucket cb) (map Hash_List (?c # es))" "links_keep table_nodes s7 (s7 \<lparr>t_links := h8\<rparr>)"
    using hash_established [of s7 ?c k7 es] k7 ne by (auto simp: bucket_def own_tuple_def)
  let ?s8 = "s7 \<lparr>t_links := h8, t_socks := (t_socks s7)(?c \<mapsto> k7 \<lparr>ref_cnt := 2\<rparr>)\<rparr>"
  have run: "tcp_process env (Some i) cb packet s = Some ?s8"
  proof -
    have "alloc_tcp_sock s = (?c, s0)" using a(1) by (simp add: s0_def prod_eq_iff)
    moreover have "tcp_new_iss s0 = (x, s0 \<lparr>t_router := r1\<rparr>)"
      using a(4) by (simp add: tcp_new_iss_def stack_rand_def x_def r1_def split_beta Let_def)
    ultimately show ?thesis
      using i assms(2) h(1) s6(1) s7(1) s8(1) ne a(2)
      by (simp add: tcp_process_def tcp_state_listen_def upd_links_def tcp_set_state_def upd_sock_def s5_def
          k1_def [symmetric])
  qed
  have "half_open i l ?c (k7 \<lparr>ref_cnt := 2\<rparr>) x cb (ps @ [p]) rs qs ?s8"
  proof -
    have k8: "links_keep table_nodes s7 ?s8" using s8(3) by (simp add: links_keep_def)
    have "tables (ps @ [p]) (rs @ [?c]) ?s8"
      by (rule tables_links [OF s7(2) k8]) (auto simp: node_sets)
    moreover have "dlist (t_links ?s8) (Accept_Queue i) (map Queue_Node qs)"
      using q ne by (intro dlist_keep [OF links_keep_trans [OF k57 k8]]) (auto simp: sock_nodes_def node_sets)
    moreover have "dlist (t_links ?s8) (Listen_Queue ?c) [Queue_Node ?c]"
      using h(2) by (intro dlist_keep [OF links_keep_trans [OF k67 k8]]) (auto simp: s5_def node_sets)
    moreover have "\<exists>es. dlist (t_links ?s8) (bucket cb) (map Hash_List (?c # es)) \<and>
        (\<forall>j \<in> set es. \<exists>k. t_socks ?s8 j = Some k)"
      using es(2) s8(2) by (intro exI [of _ es]) (auto simp: so)
    moreover have "t_socks ?s8 i = Some (l \<lparr>sk_state := TCP_SYN_RECV\<rparr>)"
      "t_socks ?s8 ?c = Some (k7 \<lparr>ref_cnt := 2\<rparr>)" "own_tuple cb (k7 \<lparr>ref_cnt := 2\<rparr>)"
      using so ne k7 by (simp_all add: own_tuple_def same_tuple_def)
    ultimately show ?thesis
      unfolding half_open_def using ne k7 by simp
  qed
  moreover have "sends e mac (segment_cb (cb_daddr cb) (cb_saddr cb) (cb_dport cb) (cb_sport cb) x (cb_seq cb + 1)
      (TCP_SYN OR TCP_ACK) TCP_DEFAULT_WINDOW []) (t_router s) (t_router ?s8)"
    using s7(6) by (simp add: sends_def s5_def r1_def)
  ultimately show ?thesis using run s7(3) by blast
qed

lemma process_syn_recv:
  assumes "t_socks s c = Some k" "sk_state k = TCP_SYN_RECV"
    and "cb_flags cb AND TCP_ACK \<noteq> 0" "cb_flags cb AND TCP_RST = 0" "cb_flags cb AND TCP_SYN = 0"
  shows "tcp_process env (Some c) cb packet s = tcp_state_syn_recv c cb s"
  using assms by (simp add: tcp_process_def)

lemma ack_opens:
  assumes o: "half_open i l c k x cb ps rs qs s"
    and b: "cb_daddr cb2 = cb_daddr cb" "cb_saddr cb2 = cb_saddr cb" "cb_dport cb2 = cb_dport cb" "cb_sport cb2 = cb_sport cb"
    and fl: "cb_flags cb2 AND TCP_ACK \<noteq> 0" "cb_flags cb2 AND TCP_RST = 0" "cb_flags cb2 AND TCP_SYN = 0"
  shows "tcp_sock_lookup cb2 s = Some (Some c)"
    "\<exists>s' l' k'. tcp_process env (Some c) cb2 packet s = Some s' \<and>
      tables (filter (\<lambda>p. \<not> acked (cb_ack cb2) p) ps) rs s' \<and>
      dlist (t_links s') (Accept_Queue i) (map Queue_Node (qs @ [c])) \<and>
      t_socks s' i = Some l' \<and> sk_state l' = TCP_ESTABLISHED \<and> accept_backlog l' = accept_backlog l + 1 \<and>
      (\<not> sw_dead (sk_wait l Wait_Accept) \<longrightarrow> sw_notified (sk_wait l' Wait_Accept)) \<and>
      t_socks s' c = Some k' \<and> sk_state k' = TCP_ESTABLISHED \<and> own_tuple cb k' \<and>
      snd_nxt k' = snd_nxt k \<and> snd_una k' = cb_ack cb2 \<and> rcv_nxt k' = cb_seq cb2 \<and>
      t_router s' = t_router s \<and> ref_cnt k' = 1"
proof -
  from o have s: "t_socks s i = Some (l \<lparr>sk_state := TCP_SYN_RECV\<rparr>)" "t_socks s c = Some k"
    "sk_state k = TCP_SYN_RECV" "sk_parent k = Some i" "ref_cnt k = 2" "own_tuple cb k" "i \<noteq> c" "c \<notin> set qs"
    and t: "tables ps (rs @ [c]) s" and q: "dlist (t_links s) (Accept_Queue i) (map Queue_Node qs)"
    and lq: "dlist (t_links s) (Listen_Queue c) [Queue_Node c]" by (simp_all add: half_open_def)
  from o obtain es where es: "dlist (t_links s) (bucket cb) (map Hash_List (c # es))"
    "\<forall>j \<in> set es. \<exists>k. t_socks s j = Some k" by (auto simp: half_open_def)
  show "tcp_sock_lookup cb2 s = Some (Some c)"
    using lookup_established [of s cb2 "[]" c es k] es s(2,6) b by (simp add: bucket_def own_tuple_def)
  text \<open>The queues.\<close>
  have "dlist (t_links s) (Listen_Queue c) ([] @ Queue_Node c # [])" using lq by simp
  from dlist_delete [OF this] obtain h1 where h1: "list_delete_entry (Queue_Node c) (t_links s) = Some h1"
    "\<forall>y. y \<noteq> Listen_Queue c \<longrightarrow> lnext h1 y = lnext (t_links s) y \<and> lprev h1 y = lprev (t_links s) y"
    by (auto simp: dlist_def)
  have nemp: "\<not> list_empty (t_links s) (Queue_Node c)" using lq by (simp add: dlist_def list_empty_def)
  have d1: "dlist h1 (Accept_Queue i) (map Queue_Node qs)" using q h1(2) by (elim dlist_frame) auto
  have n1: "Queue_Node c \<notin> set (Accept_Queue i # map Queue_Node qs)" using s(8) by auto
  from dlist_add_tail [OF d1 n1] obtain h2 where
    h2: "list_add_tail (Queue_Node c) (Accept_Queue i) h1 = Some h2"
    "dlist h2 (Accept_Queue i) (map Queue_Node qs @ [Queue_Node c])"
    "\<forall>y. y \<notin> set (Queue_Node c # Accept_Queue i # map Queue_Node qs) \<longrightarrow>
      lnext h2 y = lnext h1 y \<and> lprev h2 y = lprev h1 y"
    by (elim exE conjE) (rule that)
  let ?X = "insert (Listen_Queue c) (insert (Accept_Queue i) (range Queue_Node))"
  define l1 where "l1 = l \<lparr>sk_state := TCP_SYN_RECV, accept_backlog := accept_backlog l + 1\<rparr>"
  define k1 where "k1 = k \<lparr>rcv_nxt := cb_seq cb2, snd_una := cb_ack cb2\<rparr>"
  define s2 where "s2 = s \<lparr>t_links := h2, t_socks := (t_socks s)(i \<mapsto> l1, c \<mapsto> k1)\<rparr>"
  have k2: "links_keep ?X s s2"
    unfolding links_keep_def
  proof (intro allI impI)
    fix y
    assume y: "y \<notin> ?X"
    then have "y \<notin> set (Queue_Node c # Accept_Queue i # map Queue_Node qs)" by auto
    then show "lnext (t_links s2) y = lnext (t_links s) y \<and> lprev (t_links s2) y = lprev (t_links s) y"
      using y h1(2) h2(3) by (simp add: s2_def)
  qed
  have "tables ps (rs @ [c]) s2"
    by (rule tables_links [OF t k2]) (auto simp: node_sets s2_def)
  from tables_ack [OF this, of "cb_ack cb2"] obtain s3 where s3: "buf_ack (cb_ack cb2) s2 = Some s3"
    "tables (filter (\<lambda>p. \<not> acked (cb_ack cb2) p) ps) (rs @ [c]) s3" "buf_frame s2 s3"
    "links_keep buffer_nodes s2 s3" by blast
  have so3: "t_socks s3 = (t_socks s)(i \<mapsto> l1, c \<mapsto> k1)" using s3(3) by (simp add: buf_frame_def s2_def)
  have "t_socks s3 c = Some k1" "1 < ref_cnt k1" using s(5) by (simp_all add: so3 k1_def)
  from timer_stop [of _ rs c "[]" s3, OF s3(2) this] obtain h4 where s4:
    "tcp_stop_retrans_timewait_timer c s3 = Some (s3 \<lparr>t_links := h4,
      t_socks := (t_socks s3)(c \<mapsto> k1 \<lparr>ref_cnt := ref_cnt k1 - 1\<rparr>)\<rparr>)"
    "tables (filter (\<lambda>p. \<not> acked (cb_ack cb2) p) ps) rs (s3 \<lparr>t_links := h4\<rparr>)"
    "links_keep timer_nodes s3 (s3 \<lparr>t_links := h4\<rparr>)" by auto
  define l5 where "l5 = upd_wait Wait_Accept (\<lambda>x. if sw_dead x then x
    else if \<not> sw_notified x then x \<lparr>sw_notified := True\<rparr> else x) (l1 \<lparr>sk_state := TCP_ESTABLISHED\<rparr>)"
  define k5 where "k5 = k1 \<lparr>ref_cnt := ref_cnt k1 - 1, sk_state := TCP_ESTABLISHED\<rparr>"
  let ?s = "s3 \<lparr>t_links := h4, t_socks := (t_socks s)(c \<mapsto> k5, i \<mapsto> l5)\<rparr>"
  have "tcp_sock_accept_enqueue c s = Some (s \<lparr>t_links := h2, t_socks := (t_socks s)(i \<mapsto> l1)\<rparr>)"
    using s nemp h1(1) h2(1) by (simp add: tcp_sock_accept_enqueue_def upd_links_def upd_sock_def l1_def)
  then have "tcp_state_syn_recv c cb2 s = Some ?s"
    using s fl(1) s3(1) s4(1) so3
    by (simp add: tcp_state_syn_recv_def upd_sock_def tcp_set_state_def wake_up_def s2_def
        k1_def [symmetric] l5_def k5_def fun_upd_twist [of c i])
  then have "tcp_process env (Some c) cb2 packet s = Some ?s" using process_syn_recv [OF s(2,3) fl] by simp
  moreover have "dlist (t_links ?s) (Accept_Queue i) (map Queue_Node (qs @ [c]))"
  proof (rule dlist_keep)
    show "links_keep (buffer_nodes \<union> timer_nodes) s2 ?s" using links_keep_trans [OF s3(4) s4(3)] by (simp add: links_keep_def)
    show "dlist (t_links s2) (Accept_Queue i) (map Queue_Node (qs @ [c]))" using h2(2) by (simp add: s2_def)
  qed (auto simp: node_sets)
  ultimately show "\<exists>s' l' k'. tcp_process env (Some c) cb2 packet s = Some s' \<and>
      tables (filter (\<lambda>p. \<not> acked (cb_ack cb2) p) ps) rs s' \<and>
      dlist (t_links s') (Accept_Queue i) (map Queue_Node (qs @ [c])) \<and>
      t_socks s' i = Some l' \<and> sk_state l' = TCP_ESTABLISHED \<and> accept_backlog l' = accept_backlog l + 1 \<and>
      (\<not> sw_dead (sk_wait l Wait_Accept) \<longrightarrow> sw_notified (sk_wait l' Wait_Accept)) \<and>
      t_socks s' c = Some k' \<and> sk_state k' = TCP_ESTABLISHED \<and> own_tuple cb k' \<and>
      snd_nxt k' = snd_nxt k \<and> snd_una k' = cb_ack cb2 \<and> rcv_nxt k' = cb_seq cb2 \<and>
      t_router s' = t_router s \<and> ref_cnt k' = 1"
    using s4(2) s(5-7) s3(3)
    by (intro exI [of _ ?s] exI [of _ l5] exI [of _ k5])
      (simp add: tables_def l5_def k5_def upd_wait_def l1_def k1_def own_tuple_def same_tuple_def buf_frame_def s2_def)
qed

section \<open>The connecting end\<close>

text \<open>Socket \<open>j\<close> has sent its SYN and waits for the answer \<open>cb\<close>.\<close>

definition connecting :: "nat \<Rightarrow> tcp_sock \<Rightarrow> tcp_cb \<Rightarrow> bytes list \<Rightarrow> nat list \<Rightarrow> nat list \<Rightarrow> stack \<Rightarrow> bool" where
  "connecting j k cb ps rs rs' s \<longleftrightarrow> t_socks s j = Some k \<and> sk_state k = TCP_SYN_SENT \<and> 1 < ref_cnt k \<and>
     own_tuple cb k \<and> tables ps (rs @ j # rs') s \<and>
     (\<exists>es es'. dlist (t_links s) (bucket cb) (map Hash_List (es @ j # es')) \<and>
       (\<forall>j \<in> set es. \<exists>k. t_socks s j = Some k \<and> \<not> own_tuple cb k) \<and>
       (\<forall>j \<in> set es'. \<exists>k. t_socks s j = Some k))"

lemma lookup_connecting: "connecting j k cb ps rs rs' s \<Longrightarrow> tcp_sock_lookup cb s = Some (Some j)"
  unfolding connecting_def bucket_def own_tuple_def by (elim exE conjE) (rule lookup_established)

lemma process_syn_sent:
  "t_socks s j = Some k \<Longrightarrow> sk_state k = TCP_SYN_SENT \<Longrightarrow>
     tcp_process env (Some j) cb packet s = tcp_state_syn_sent j cb s"
  by (simp add: tcp_process_def)

lemma syn_ack_opens:
  assumes c: "connecting j k cb ps rs rs' s" and fl: "cb_flags cb AND (TCP_SYN OR TCP_ACK) = TCP_SYN OR TCP_ACK"
    and r: "reachable_via (sk_dip k) e mac (t_router s)"
  shows "\<exists>s' k'. tcp_process env (Some j) cb packet s = Some s' \<and>
    tables (filter (\<lambda>p. \<not> acked (cb_ack cb) p) ps) (rs @ rs') s' \<and>
    t_socks s' = (t_socks s)(j \<mapsto> k') \<and> sk_state k' = TCP_ESTABLISHED \<and>
    snd_nxt k' = snd_nxt k \<and> snd_una k' = cb_ack cb \<and> rcv_nxt k' = cb_seq cb + 1 \<and>
    (\<not> sw_dead (sk_wait k Wait_Connect) \<longrightarrow>
      sw_notified (sk_wait k' Wait_Connect) \<and> \<not> sw_dead (sk_wait k' Wait_Connect)) \<and>
    sends e mac (segment_cb (sk_sip k) (sk_dip k) (sk_sport k) (sk_dport k) (snd_nxt k) (cb_seq cb + 1) TCP_ACK
      (rcv_wnd k) []) (t_router s) (t_router s')"
proof -
  from c have s: "t_socks s j = Some k" "sk_state k = TCP_SYN_SENT" "1 < ref_cnt k" and t: "tables ps (rs @ j # rs') s"
    by (simp_all add: connecting_def)
  define k1 where "k1 = k \<lparr>rcv_nxt := cb_seq cb + 1, snd_una := cb_ack cb\<rparr>"
  let ?s1 = "s \<lparr>t_socks := (t_socks s)(j \<mapsto> k1)\<rparr>"
  have "tables ps (rs @ j # rs') ?s1" using t by simp
  from tables_ack [OF this, of "cb_ack cb"] obtain s2 where s2: "buf_ack (cb_ack cb) ?s1 = Some s2"
    "tables (filter (\<lambda>p. \<not> acked (cb_ack cb) p) ps) (rs @ j # rs') s2" "buf_frame ?s1 s2" by blast
  have so: "t_socks s2 = (t_socks s)(j \<mapsto> k1)" "t_router s2 = t_router s" using s2(3) by (simp_all add: buf_frame_def)
  have "t_socks s2 j = Some k1" "1 < ref_cnt k1" using s(3) by (simp_all add: so k1_def)
  from timer_stop [OF s2(2) this] obtain h where h: "tcp_stop_retrans_timewait_timer j s2 = Some (s2 \<lparr>t_links := h,
      t_socks := (t_socks s2)(j \<mapsto> k1 \<lparr>ref_cnt := ref_cnt k1 - 1\<rparr>)\<rparr>)"
    "tables (filter (\<lambda>p. \<not> acked (cb_ack cb) p) ps) (rs @ rs') (s2 \<lparr>t_links := h\<rparr>)" by blast
  define k3 where "k3 = k1 \<lparr>ref_cnt := ref_cnt k1 - 1, sk_state := TCP_ESTABLISHED\<rparr>"
  define s3 where "s3 = s2 \<lparr>t_links := h, t_socks := (t_socks s)(j \<mapsto> k3)\<rparr>"
  have "tables (filter (\<lambda>p. \<not> acked (cb_ack cb) p) ps) (rs @ rs') s3"
    using h(2) by (simp add: s3_def tables_def)
  moreover have "t_socks s3 j = Some k3" "reachable_via (sk_dip k3) e mac (t_router s3)"
    using r by (simp_all add: s3_def k3_def k1_def so)
  ultimately obtain r3 where r3: "tcp_send_control_packet j TCP_ACK s3 = Some (s3 \<lparr>t_router := r3\<rparr>)"
    "sends e mac (segment_cb (sk_sip k3) (sk_dip k3) (sk_sport k3) (sk_dport k3) (snd_nxt k3) (rcv_nxt k3) TCP_ACK
      (rcv_wnd k3) []) (t_router s3) r3" using ack_sent by blast
  define k4 where "k4 = upd_wait Wait_Connect (\<lambda>x. if sw_dead x then x
    else if \<not> sw_notified x then x \<lparr>sw_notified := True\<rparr> else x) k3"
  let ?s = "s3 \<lparr>t_router := r3, t_socks := (t_socks s)(j \<mapsto> k4)\<rparr>"
  have "tcp_state_syn_sent j cb s = Some ?s"
    using s(1) fl s2(1) h(1) r3(1) so
    by (simp add: tcp_state_syn_sent_def upd_sock_def k1_def [symmetric] tcp_set_state_def k3_def [symmetric]
        s3_def wake_up_def k4_def)
  then show ?thesis
    using process_syn_sent [OF s(1,2)] h(2) r3(2)
    by (intro exI [of _ ?s] exI [of _ k4])
      (simp add: s3_def tables_def k4_def upd_wait_def k3_def k1_def so)
qed

section \<open>Both ends\<close>

lemma handle_carried:
  "carries f cb \<Longrightarrow> handle_tcp_packet env f s =
     Option.bind (tcp_sock_lookup cb s) (\<lambda>tsk. tcp_process env tsk cb f s)"
  by (simp add: carries_def handle_tcp_packet_def)

text \<open>The SYN of a connecting socket, and the answer to it with the sequence number \<open>x\<close>.\<close>

definition syn_of :: "tcp_sock \<Rightarrow> tcp_cb" where
  "syn_of k = segment_cb (sk_sip k) (sk_dip k) (sk_sport k) (sk_dport k) (snd_nxt k - 1) (rcv_nxt k) TCP_SYN
     (rcv_wnd k) []"

definition syn_ack_of :: "tcp_sock \<Rightarrow> u32 \<Rightarrow> tcp_cb" where
  "syn_ack_of k x = segment_cb (sk_dip k) (sk_sip k) (sk_dport k) (sk_sport k) x (snd_nxt k)
     (TCP_SYN OR TCP_ACK) TCP_DEFAULT_WINDOW []"

definition ack_of :: "tcp_sock \<Rightarrow> u32 \<Rightarrow> tcp_cb" where
  "ack_of k x = segment_cb (sk_sip k) (sk_dip k) (sk_sport k) (sk_dport k) (snd_nxt k) (x + 1) TCP_ACK
     (rcv_wnd k) []"

definition in_step :: "tcp_sock \<Rightarrow> tcp_sock \<Rightarrow> bool" where
  "in_step k l \<longleftrightarrow> sk_state k = TCP_ESTABLISHED \<and> sk_state l = TCP_ESTABLISHED \<and>
     snd_nxt k = rcv_nxt l \<and> snd_nxt l = rcv_nxt k \<and> snd_una k = snd_nxt k \<and> snd_una l = snd_nxt l"

lemma own_tuple_cong:
  "cb_daddr c = cb_daddr d \<Longrightarrow> cb_saddr c = cb_saddr d \<Longrightarrow> cb_dport c = cb_dport d \<Longrightarrow> cb_sport c = cb_sport d \<Longrightarrow>
     own_tuple c = own_tuple d \<and> bucket c = bucket d"
  by (simp add: own_tuple_def bucket_def)

lemma connecting_any: "connecting j k (syn_ack_of l x) ps rs rs' s = connecting j k (syn_ack_of l y) ps rs rs' s"
  using own_tuple_cong [of "syn_ack_of l x" "syn_ack_of l y"]
  by (simp add: connecting_def syn_ack_of_def segment_cb_def)

section \<open>The call\<close>

definition bind_nodes :: "link set" where "bind_nodes = range Bind \<union> range Bind_Hash_List"

lemma bind_hash_links:
  assumes "t_socks s i = Some k" "i \<notin> set bs"
    and "dlist (t_links s) (Bind (tcp_hash_function 0 0 (sk_sport k) 0)) (map Bind_Hash_List bs)"
  shows "\<exists>h. tcp_bind_hash i s = Some (s \<lparr>t_links := h, t_socks := (t_socks s)(i \<mapsto> k \<lparr>ref_cnt := ref_cnt k + 1\<rparr>)\<rparr>) \<and>
    links_keep bind_nodes s (s \<lparr>t_links := h\<rparr>)"
proof -
  have n: "Bind_Hash_List i \<notin> set (Bind (tcp_hash_function 0 0 (sk_sport k) 0) # map Bind_Hash_List bs)"
    using assms(2) by auto
  from dlist_add_head [OF assms(3) n] obtain h where
    "list_add_head (Bind_Hash_List i) (Bind (tcp_hash_function 0 0 (sk_sport k) 0)) (t_links s) = Some h"
    "\<forall>x. x \<notin> set (Bind_Hash_List i # Bind (tcp_hash_function 0 0 (sk_sport k) 0) # map Bind_Hash_List bs) \<longrightarrow>
      lnext h x = lnext (t_links s) x \<and> lprev h x = lprev (t_links s) x" by auto
  then show ?thesis
    using assms(1)
    by (intro exI [of _ h]) (auto simp: tcp_bind_hash_def upd_links_def tcp_sock_inc_ref_cnt_def upd_sock_def
        links_keep_def bind_nodes_def)
qed

text \<open>A new socket \<open>j\<close>, no socket with a parent in the bind table, and no connection from the first
  port to the peer yet.\<close>

definition dials :: "nat \<Rightarrow> tcp_sock \<Rightarrow> u32 \<Rightarrow> u16 \<Rightarrow> iface_info \<Rightarrow> bytes list \<Rightarrow> nat list \<Rightarrow> stack \<Rightarrow> bool" where
  "dials j k dip dport iface ps rs s \<longleftrightarrow> t_socks s j = Some k \<and> 0 \<le> ref_cnt k \<and>
     (\<exists>B. bind_tables B s \<and> unbound B j s) \<and> tables ps rs s \<and> j \<notin> set rs \<and>
     (\<exists>ifs. r_ifaces (t_router s) = iface # ifs) \<and> \<not> sw_dead (sk_wait k Wait_Connect) \<and> \<not> sw_notified (sk_wait k Wait_Connect) \<and>
     (\<exists>es. dlist (t_links s) (Established (tcp_hash_function (if_ip iface) dip 12345 dport)) (map Hash_List es) \<and>
       j \<notin> set es \<and> (\<forall>i \<in> set es. \<exists>l. t_socks s i = Some l \<and> \<not> same_tuple (if_ip iface) dip 12345 dport l))"

lemma connect_waits:
  assumes d: "dials j k dip dport iface ps rs s" and r: "reachable_via dip e mac (t_router s)"
  shows "\<exists>s' k1 p. (\<forall>env. tcp_sock_connect env j (htonl dip) (htons dport) s =
      Option.bind (sleep_on env j Wait_Connect s') (\<lambda>(r, s). Some (if 0 \<le> r then 0 else - 1, s))) \<and>
    connecting j k1 (syn_ack_of k1 x) (ps @ [p]) rs [] s' \<and> snd_nxt k1 = snd_nxt k + 1 \<and> ntohl (th_seq p TCP_AT) = snd_nxt k \<and>
    sk_sip k1 = if_ip iface \<and> sk_sport k1 = 12345 \<and> sk_dip k1 = dip \<and> sk_dport k1 = dport \<and>
    rcv_nxt k1 = rcv_nxt k \<and> rcv_wnd k1 = rcv_wnd k \<and> sk_wait k1 = sk_wait k \<and>
    t_socks s' = (t_socks s)(j \<mapsto> k1) \<and> sends e mac (syn_of k1) (t_router s) (t_router s')"
proof -
  from d obtain B ifs es where b: "bind_tables B s" "unbound B j s" and i: "r_ifaces (t_router s) = iface # ifs"
    and k: "t_socks s j = Some k" "0 \<le> ref_cnt k" and t: "tables ps rs s" "j \<notin> set rs"
    and es: "dlist (t_links s) (Established (tcp_hash_function (if_ip iface) dip 12345 dport)) (map Hash_List es)"
      "j \<notin> set es" "\<forall>i \<in> set es. \<exists>l. t_socks s i = Some l \<and> \<not> same_tuple (if_ip iface) dip 12345 dport l"
    unfolding dials_def by (elim exE conjE) (rule that)
  define k1 where "k1 = k \<lparr>sk_sport := 12345, sk_sip := if_ip iface, sk_dport := dport, sk_dip := dip\<rparr>"
  define s1 where "s1 = s \<lparr>t_socks := (t_socks s)(j \<mapsto> k1)\<rparr>"
  let ?h = "tcp_hash_function 0 0 12345 0"
  have "dlist (t_links s1) (Bind ?h) (map Bind_Hash_List (B ?h))" "j \<notin> set (B ?h)"
    using bind_tablesD(1) [OF b(1), of ?h] b(2) by (simp_all add: s1_def unbound_def)
  then obtain h2 where h2: "tcp_bind_hash j s1 = Some (s1 \<lparr>t_links := h2,
      t_socks := (t_socks s1)(j \<mapsto> k1 \<lparr>ref_cnt := ref_cnt k1 + 1\<rparr>)\<rparr>)"
    "links_keep bind_nodes s1 (s1 \<lparr>t_links := h2\<rparr>)"
    using bind_hash_links [of s1 j k1 "B ?h"] by (auto simp: s1_def k1_def)
  define k2 where "k2 = k1 \<lparr>ref_cnt := ref_cnt k + 1\<rparr>"
  define s2 where "s2 = s \<lparr>t_links := h2, t_socks := (t_socks s)(j \<mapsto> k2)\<rparr>"
  have keep2: "links_keep bind_nodes s s2" using h2(2) by (simp add: s1_def s2_def links_keep_def)
  have t2: "tables ps rs s2"
    by (rule tables_links [OF t(1) keep2]) (auto simp: bind_nodes_def node_sets s2_def)
  have "t_socks s2 j = Some k2" by (simp add: s2_def)
  from timer_set [OF t2 t(2) this] obtain h3 where h3: "tcp_set_retrans_timewait_timer j s2 = Some (s2 \<lparr>t_links := h3,
      t_socks := (t_socks s2)(j \<mapsto> (armed k2) \<lparr>ref_cnt := ref_cnt k2 + 1\<rparr>)\<rparr>)"
    "tables ps (rs @ [j]) (s2 \<lparr>t_links := h3\<rparr>)" "links_keep timer_nodes s2 (s2 \<lparr>t_links := h3\<rparr>)"
    by (elim exE conjE) (rule that)
  let ?k3 = "(armed k2) \<lparr>ref_cnt := ref_cnt k2 + 1\<rparr>"
  let ?s3 = "s2 \<lparr>t_links := h3, t_socks := (t_socks s2)(j \<mapsto> ?k3)\<rparr>"
  have f3: "sk_sip ?k3 = if_ip iface" "sk_dip ?k3 = dip" "sk_sport ?k3 = 12345" "sk_dport ?k3 = dport"
    "snd_nxt ?k3 = snd_nxt k" "rcv_nxt ?k3 = rcv_nxt k" "rcv_wnd ?k3 = rcv_wnd k" "sk_wait ?k3 = sk_wait k"
    by (simp_all add: k2_def k1_def)
  have r3: "reachable_via (sk_dip ?k3) e mac (t_router ?s3)" using r unfolding f3 by (simp add: s2_def)
  have "tables ps (rs @ [j]) ?s3" using h3(2) by (simp add: tables_def buffered_def blocks_hold_def)
  from control_sent [OF this, of j ?k3 TCP_SYN e mac] r3 obtain s4 p where
    s4: "tcp_send_control_packet j TCP_SYN ?s3 = Some s4" "tables (ps @ [p]) (rs @ [j]) s4"
    "ntohl (th_seq p TCP_AT) = snd_nxt k" "t_socks s4 = (t_socks ?s3)(j \<mapsto> armed (?k3 \<lparr>snd_nxt := snd_nxt k + 1\<rparr>))"
    "links_keep buffer_nodes ?s3 s4"
    "sends e mac (segment_cb (if_ip iface) dip 12345 dport (snd_nxt k) (rcv_nxt k) TCP_SYN (rcv_wnd k) [])
      (t_router ?s3) (t_router s4)"
    unfolding f3 by (auto simp: TCP_SYN_def TCP_FIN_def TCP_RST_def)
  define k5 where "k5 = (armed (?k3 \<lparr>snd_nxt := snd_nxt k + 1\<rparr>)) \<lparr>sk_state := TCP_SYN_SENT\<rparr>"
  define s5 where "s5 = s4 \<lparr>t_socks := (t_socks s)(j \<mapsto> k5)\<rparr>"
  have f5: "sk_sip k5 = if_ip iface" "sk_dip k5 = dip" "sk_sport k5 = 12345" "sk_dport k5 = dport"
    "snd_nxt k5 = snd_nxt k + 1" "rcv_nxt k5 = rcv_nxt k" "rcv_wnd k5 = rcv_wnd k" "sk_wait k5 = sk_wait k"
    "sk_state k5 = TCP_SYN_SENT" "ref_cnt k5 = ref_cnt k + 2"
    by (simp_all add: k5_def k2_def k1_def)
  have keep5: "links_keep (bind_nodes \<union> (timer_nodes \<union> buffer_nodes)) s s5"
    using links_keep_trans [OF keep2 links_keep_trans [OF h3(3)]] s4(5) by (simp add: s5_def)
  have "dlist (t_links s5) (Established (tcp_hash_function (if_ip iface) dip 12345 dport)) (map Hash_List es)"
    using es(1) by (intro dlist_keep [OF keep5]) (auto simp: node_sets bind_nodes_def)
  moreover have "\<forall>i \<in> set es. \<exists>l. t_socks s5 i = Some l \<and> \<not> same_tuple (if_ip iface) dip 12345 dport l"
    using es(2,3) by (auto simp: s5_def)
  ultimately obtain h6 where h6: "tcp_hash j s5 = Some (0, s5 \<lparr>t_links := h6,
      t_socks := (t_socks s5)(j \<mapsto> k5 \<lparr>ref_cnt := ref_cnt k5 + 1\<rparr>)\<rparr>)"
    "dlist h6 (Established (tcp_hash_function (if_ip iface) dip 12345 dport)) (map Hash_List (j # es))"
    "links_keep table_nodes s5 (s5 \<lparr>t_links := h6\<rparr>)"
    using hash_established [of s5 j k5 es] es(2) f5 by (auto simp: s5_def)
  define k6 where "k6 = k5 \<lparr>ref_cnt := ref_cnt k5 + 1\<rparr>"
  define s6 where "s6 = s5 \<lparr>t_links := h6, t_socks := (t_socks s)(j \<mapsto> k6)\<rparr>"
  have "tcp_sock_connect env j (htonl dip) (htons dport) s =
      Option.bind (sleep_on env j Wait_Connect s6) (\<lambda>(r, s). Some (if 0 \<le> r then 0 else - 1, s))" for env
  proof -
    have "tcp_get_port s = Some 12345" using first_port [OF b(1)] by (simp add: PORT_MIN_def)
    moreover have "upd_sock j (\<lambda>k. k \<lparr>sk_sport := 12345, sk_sip := if_ip iface, sk_dport := dport, sk_dip := dip\<rparr>) s =
        Some s1" using k(1) by (simp add: upd_sock_def s1_def k1_def)
    moreover have "tcp_bind_hash j s1 = Some s2" using h2(1) by (simp add: s1_def s2_def k2_def k1_def)
    moreover have "tcp_set_state j TCP_SYN_SENT s4 = Some s5"
      using s4(4) by (simp add: tcp_set_state_def upd_sock_def s5_def k5_def s2_def)
    moreover have "tcp_hash j s5 = Some (0, s6)" using h6(1) by (simp add: s6_def k6_def s5_def)
    ultimately show ?thesis using i h3(1) s4(1) by (simp add: tcp_sock_connect_def)
  qed
  moreover have "connecting j k6 (syn_ack_of k6 x) (ps @ [p]) rs [] s6"
  proof -
    have k56: "links_keep table_nodes s5 s6" using h6(3) by (simp add: links_keep_def s6_def)
    have "tables (ps @ [p]) (rs @ [j]) s5" using s4(2) by (simp add: s5_def)
    then have "tables (ps @ [p]) (rs @ [j]) s6"
      by (rule tables_links [OF _ k56]) (auto simp: node_sets s6_def)
    moreover have "bucket (syn_ack_of k6 x) = Established (tcp_hash_function (if_ip iface) dip 12345 dport)"
      "own_tuple (syn_ack_of k6 x) k6"
      using f5 by (simp_all add: bucket_def own_tuple_def same_tuple_def syn_ack_of_def segment_cb_def k6_def)
    moreover have "\<forall>i \<in> set es. \<exists>l. t_socks s6 i = Some l" using es(2,3) by (auto simp: s6_def)
    moreover have "\<exists>es es'. dlist (t_links s6) (bucket (syn_ack_of k6 x)) (map Hash_List (es @ j # es')) \<and>
        (\<forall>i \<in> set es. \<exists>k. t_socks s6 i = Some k \<and> \<not> own_tuple (syn_ack_of k6 x) k) \<and>
        (\<forall>i \<in> set es'. \<exists>k. t_socks s6 i = Some k)"
      using h6(2) calculation by (intro exI [of _ "[]"] exI [of _ es]) (simp add: s6_def)
    ultimately show ?thesis
      unfolding connecting_def using f5 k(2) by (simp add: s6_def k6_def)
  qed
  moreover have "sends e mac (syn_of k6) (t_router s) (t_router s6)"
    using s4(6) f5 by (simp add: syn_of_def s6_def s5_def k6_def s2_def)
  ultimately show ?thesis
    using s4(3) f5 by (intro exI [of _ s6] exI [of _ k6] exI [of _ p]) (simp add: k6_def s6_def)
qed

section \<open>The handshake\<close>

text \<open>The exchange of the three segments.\<close>

lemma handshake:
  assumes cl: "connecting j k (syn_ack_of k 0) pc rc rc' client"
    and sv: "listens i l (syn_of k) ps rs qs server"
    and r1: "reachable_via (sk_sip k) e mac (t_router server)"
    and r2: "reachable_via (sk_dip k) e' mac' (t_router client)"
    and f1: "carries f1 (syn_of k)"
  shows "\<exists>server1 q x. handle_tcp_packet env f1 server = Some server1 \<and>
    r_out (t_router server1) = r_out (t_router server) @ [(rt_iface e, q)] \<and>
    (\<forall>f2. same_packet f2 q \<longrightarrow>
      (\<exists>client1 q' k1. handle_tcp_packet env f2 client = Some client1 \<and>
        r_out (t_router client1) = r_out (t_router client) @ [(rt_iface e', q')] \<and>
        t_socks client1 j = Some k1 \<and> (\<not> sw_dead (sk_wait k Wait_Connect) \<longrightarrow>
      sw_notified (sk_wait k1 Wait_Connect) \<and> \<not> sw_dead (sk_wait k1 Wait_Connect)) \<and>
        tables (filter (\<lambda>p. \<not> acked (snd_nxt k) p) pc) (rc @ rc') client1 \<and>
        (\<forall>f3. same_packet f3 q' \<longrightarrow>
          (\<exists>server2 k2 l2. handle_tcp_packet env f3 server1 = Some server2 \<and>
            t_socks server2 (t_nsocks server) = Some k2 \<and> in_step k1 k2 \<and>
            dlist (t_links server2) (Accept_Queue i) (map Queue_Node (qs @ [t_nsocks server])) \<and>
            t_socks server2 i = Some l2 \<and> accept_backlog l2 = accept_backlog l + 1 \<and>
            (\<not> sw_dead (sk_wait l Wait_Accept) \<longrightarrow> sw_notified (sk_wait l2 Wait_Accept)) \<and>
            tables (filter (\<lambda>p. \<not> acked (x + 1) p) ps) rs server2))))"
proof -
  let ?c = "t_nsocks server"
  have syn: "cb_flags (syn_of k) AND TCP_SYN \<noteq> 0" "cb_saddr (syn_of k) = sk_sip k" "cb_daddr (syn_of k) = sk_dip k"
    "cb_sport (syn_of k) = sk_sport k" "cb_dport (syn_of k) = sk_dport k" "cb_seq (syn_of k) = snd_nxt k - 1"
    by (simp_all add: syn_of_def segment_cb_def TCP_SYN_def)
  have "reachable_via (cb_saddr (syn_of k)) e mac (t_router server)" using r1 by (simp add: syn)
  from syn_answered [OF sv syn(1) this, of env f1] obtain server1 p ks x where
    s1: "tcp_process env (Some i) (syn_of k) f1 server = Some server1"
    "half_open i l ?c ks x (syn_of k) (ps @ [p]) rs qs server1" "ntohl (th_seq p TCP_AT) = x"
    "sends e mac (syn_ack_of k x) (t_router server) (t_router server1)"
    by (auto simp: syn syn_ack_of_def)
  from s1(4) obtain q where q: "r_out (t_router server1) = r_out (t_router server) @ [(rt_iface e, q)]"
    "delivers q (syn_ack_of k x)" by (auto simp: sends_def)
  have h1: "handle_tcp_packet env f1 server = Some server1"
    using handle_carried [OF f1] lookup_listening [OF sv] s1(1) by simp
  have clx: "connecting j k (syn_ack_of k x) pc rc rc' client"
    using cl connecting_any [of j k k 0 _ _ _ _ x] by simp
  have step2: "\<exists>client1 q' k1. handle_tcp_packet env f2 client = Some client1 \<and>
      r_out (t_router client1) = r_out (t_router client) @ [(rt_iface e', q')] \<and> delivers q' (ack_of k x) \<and>
      t_socks client1 j = Some k1 \<and> (\<not> sw_dead (sk_wait k Wait_Connect) \<longrightarrow>
      sw_notified (sk_wait k1 Wait_Connect) \<and> \<not> sw_dead (sk_wait k1 Wait_Connect)) \<and>
      tables (filter (\<lambda>p. \<not> acked (snd_nxt k) p) pc) (rc @ rc') client1 \<and> sk_state k1 = TCP_ESTABLISHED \<and>
      snd_nxt k1 = snd_nxt k \<and> snd_una k1 = snd_nxt k \<and> rcv_nxt k1 = x + 1"
    if "same_packet f2 q" for f2
  proof -
    have f2: "carries f2 (syn_ack_of k x)" using q(2) that by (simp add: delivers_def)
    have fl: "cb_flags (syn_ack_of k x) AND (TCP_SYN OR TCP_ACK) = TCP_SYN OR TCP_ACK"
      by (simp add: syn_ack_of_def segment_cb_def TCP_SYN_def TCP_ACK_def)
    from syn_ack_opens [OF clx fl r2, of env f2] show ?thesis
      using handle_carried [OF f2, of env client] lookup_connecting [OF clx]
      by (fastforce simp: sends_def ack_of_def syn_ack_of_def segment_cb_def)
  qed
  have step3: "\<exists>server2 k2 l2. handle_tcp_packet env f3 server1 = Some server2 \<and>
      t_socks server2 ?c = Some k2 \<and> sk_state k2 = TCP_ESTABLISHED \<and> snd_nxt k2 = x + 1 \<and>
      snd_una k2 = x + 1 \<and> rcv_nxt k2 = snd_nxt k \<and>
      dlist (t_links server2) (Accept_Queue i) (map Queue_Node (qs @ [?c])) \<and>
      t_socks server2 i = Some l2 \<and> accept_backlog l2 = accept_backlog l + 1 \<and>
      (\<not> sw_dead (sk_wait l Wait_Accept) \<longrightarrow> sw_notified (sk_wait l2 Wait_Accept)) \<and>
      tables (filter (\<lambda>p. \<not> acked (x + 1) p) ps) rs server2"
    if "delivers q' (ack_of k x)" "same_packet f3 q'" for f3 q'
  proof -
    have f3: "carries f3 (ack_of k x)" using that by (simp add: delivers_def)
    have a: "cb_daddr (ack_of k x) = cb_daddr (syn_of k)" "cb_saddr (ack_of k x) = cb_saddr (syn_of k)"
      "cb_dport (ack_of k x) = cb_dport (syn_of k)" "cb_sport (ack_of k x) = cb_sport (syn_of k)"
      and fl: "cb_flags (ack_of k x) AND TCP_ACK \<noteq> 0" "cb_flags (ack_of k x) AND TCP_RST = 0"
      "cb_flags (ack_of k x) AND TCP_SYN = 0"
      and ck: "cb_ack (ack_of k x) = x + 1" "cb_seq (ack_of k x) = snd_nxt k"
      by (simp_all add: ack_of_def syn_of_def segment_cb_def TCP_ACK_def TCP_SYN_def TCP_RST_def)
    have pa: "filter (\<lambda>p. \<not> acked (x + 1) p) (ps @ [p]) = filter (\<lambda>p. \<not> acked (x + 1) p) ps"
      using s1(3) by (simp add: acked_def less_than_32b_def)
    have "snd_nxt ks = x + 1" using s1(2) by (simp add: half_open_def)
    then show ?thesis
      using ack_opens(2) [OF s1(2) a fl, of env f3] ack_opens(1) [OF s1(2) a fl]
        handle_carried [OF f3, of env server1] unfolding ck pa by fastforce
  qed
  have "\<exists>client1 q' k1. handle_tcp_packet env f2 client = Some client1 \<and>
        r_out (t_router client1) = r_out (t_router client) @ [(rt_iface e', q')] \<and>
        t_socks client1 j = Some k1 \<and> (\<not> sw_dead (sk_wait k Wait_Connect) \<longrightarrow>
      sw_notified (sk_wait k1 Wait_Connect) \<and> \<not> sw_dead (sk_wait k1 Wait_Connect)) \<and>
        tables (filter (\<lambda>p. \<not> acked (snd_nxt k) p) pc) (rc @ rc') client1 \<and>
        (\<forall>f3. same_packet f3 q' \<longrightarrow>
          (\<exists>server2 k2 l2. handle_tcp_packet env f3 server1 = Some server2 \<and>
            t_socks server2 ?c = Some k2 \<and> in_step k1 k2 \<and>
            dlist (t_links server2) (Accept_Queue i) (map Queue_Node (qs @ [?c])) \<and>
            t_socks server2 i = Some l2 \<and> accept_backlog l2 = accept_backlog l + 1 \<and>
            (\<not> sw_dead (sk_wait l Wait_Accept) \<longrightarrow> sw_notified (sk_wait l2 Wait_Accept)) \<and>
            tables (filter (\<lambda>p. \<not> acked (x + 1) p) ps) rs server2))" if "same_packet f2 q" for f2
  proof -
    from step2 [OF that] obtain client1 q' k1 where c1: "handle_tcp_packet env f2 client = Some client1"
      "r_out (t_router client1) = r_out (t_router client) @ [(rt_iface e', q')]" "delivers q' (ack_of k x)"
      "t_socks client1 j = Some k1" "\<not> sw_dead (sk_wait k Wait_Connect) \<longrightarrow>
      sw_notified (sk_wait k1 Wait_Connect) \<and> \<not> sw_dead (sk_wait k1 Wait_Connect)"
      "tables (filter (\<lambda>p. \<not> acked (snd_nxt k) p) pc) (rc @ rc') client1" "sk_state k1 = TCP_ESTABLISHED"
      "snd_nxt k1 = snd_nxt k" "snd_una k1 = snd_nxt k" "rcv_nxt k1 = x + 1" by (elim exE conjE) (rule that)
    have "\<exists>server2 k2 l2. handle_tcp_packet env f3 server1 = Some server2 \<and>
        t_socks server2 ?c = Some k2 \<and> in_step k1 k2 \<and>
        dlist (t_links server2) (Accept_Queue i) (map Queue_Node (qs @ [?c])) \<and>
        t_socks server2 i = Some l2 \<and> accept_backlog l2 = accept_backlog l + 1 \<and>
        (\<not> sw_dead (sk_wait l Wait_Accept) \<longrightarrow> sw_notified (sk_wait l2 Wait_Accept)) \<and>
        tables (filter (\<lambda>p. \<not> acked (x + 1) p) ps) rs server2" if "same_packet f3 q'" for f3
      using step3 [OF c1(3) that] c1(7-10) unfolding in_step_def by fastforce
    then show ?thesis using c1(1,2,4-6) by blast
  qed
  then show ?thesis using h1 q(1) by blast
qed

text \<open>The call of \<open>tcp_sock_connect\<close>: the state in which it waits, and what it does after.\<close>

definition woken :: "nat \<Rightarrow> stack \<Rightarrow> (int \<times> stack) option" where
  "woken j s = do {
     s \<leftarrow> upd_sock j (upd_wait Wait_Connect (\<lambda>x. x \<lparr>sw_notified := False, sw_sleep := False\<rparr>)) s;
     k \<leftarrow> t_socks s j;
     Some (if sw_dead (sk_wait k Wait_Connect) then - 1 else 0, s)
   }"

lemma connecting_upd_wait:
  assumes "connecting j k cb ps rs rs' s"
  shows "connecting j (upd_wait w f k) cb ps rs rs' (s \<lparr>t_socks := (t_socks s)(j \<mapsto> upd_wait w f k), t_sleeps := n\<rparr>)"
proof -
  from assms obtain es es' where es: "dlist (t_links s) (bucket cb) (map Hash_List (es @ j # es'))"
    "\<forall>i \<in> set es. \<exists>k. t_socks s i = Some k \<and> \<not> own_tuple cb k" "\<forall>i \<in> set es'. \<exists>k. t_socks s i = Some k"
    unfolding connecting_def by blast
  let ?s = "s \<lparr>t_socks := (t_socks s)(j \<mapsto> upd_wait w f k), t_sleeps := n\<rparr>"
  have "\<exists>es es'. dlist (t_links ?s) (bucket cb) (map Hash_List (es @ j # es')) \<and>
      (\<forall>i \<in> set es. \<exists>k. t_socks ?s i = Some k \<and> \<not> own_tuple cb k) \<and>
      (\<forall>i \<in> set es'. \<exists>k. t_socks ?s i = Some k)"
    using es assms by (intro exI [of _ es] exI [of _ es']) (auto simp: connecting_def)
  then show ?thesis
    using assms unfolding connecting_def
    by (simp add: upd_wait_def own_tuple_def same_tuple_def tables_def buffered_def blocks_hold_def)
qed

lemma connect_sleeps:
  assumes d: "dials j k dip dport iface ps rs s" and r: "reachable_via dip e mac (t_router s)"
  shows "\<exists>s0 k0 p n. (\<forall>env. tcp_sock_connect env j (htonl dip) (htons dport) s = woken j (env n s0)) \<and>
    connecting j k0 (syn_ack_of k0 0) (ps @ [p]) rs [] s0 \<and> snd_nxt k0 = snd_nxt k + 1 \<and>
    ntohl (th_seq p TCP_AT) = snd_nxt k \<and>
    sk_sip k0 = if_ip iface \<and> sk_sport k0 = 12345 \<and> sk_dip k0 = dip \<and> sk_dport k0 = dport \<and>
    rcv_nxt k0 = rcv_nxt k \<and> rcv_wnd k0 = rcv_wnd k \<and> \<not> sw_dead (sk_wait k0 Wait_Connect) \<and>
    sends e mac (syn_of k0) (t_router s) (t_router s0)"
proof -
  from d have w: "\<not> sw_dead (sk_wait k Wait_Connect)" "\<not> sw_notified (sk_wait k Wait_Connect)"
    by (simp_all add: dials_def)
  from connect_waits [OF d r, of 0]
  obtain s' k1 p where c: "\<And>env. tcp_sock_connect env j (htonl dip) (htons dport) s =
        Option.bind (sleep_on env j Wait_Connect s') (\<lambda>(r, s). Some (if 0 \<le> r then 0 else - 1, s))"
      "connecting j k1 (syn_ack_of k1 0) (ps @ [p]) rs [] s'" "snd_nxt k1 = snd_nxt k + 1"
      "ntohl (th_seq p TCP_AT) = snd_nxt k"
      "sk_sip k1 = if_ip iface" "sk_sport k1 = 12345" "sk_dip k1 = dip" "sk_dport k1 = dport"
      "rcv_nxt k1 = rcv_nxt k" "rcv_wnd k1 = rcv_wnd k" "sk_wait k1 = sk_wait k"
      "t_socks s' = (t_socks s)(j \<mapsto> k1)" "sends e mac (syn_of k1) (t_router s) (t_router s')"
    by (elim exE conjE) (rule that, blast+)
  define k0 where "k0 = upd_wait Wait_Connect (\<lambda>x. x \<lparr>sw_sleep := True\<rparr>) k1"
  define s0 where "s0 = s' \<lparr>t_socks := (t_socks s')(j \<mapsto> k0), t_sleeps := t_sleeps s' + 1\<rparr>"
  have "connecting j k0 (syn_ack_of k1 0) (ps @ [p]) rs [] s0"
    using connecting_upd_wait [OF c(2)] by (simp add: k0_def s0_def)
  moreover have "syn_ack_of k0 0 = syn_ack_of k1 0" "syn_of k0 = syn_of k1"
    by (simp_all add: syn_ack_of_def syn_of_def k0_def upd_wait_def)
  moreover have "tcp_sock_connect env j (htonl dip) (htons dport) s = woken j (env (t_sleeps s') s0)" for env
  proof -
    have "sleep_on env j Wait_Connect s' = woken j (env (t_sleeps s') s0)"
      using w c(11,12) by (simp add: sleep_on_def woken_def upd_sock_def k0_def s0_def Let_def)
    then show ?thesis
      unfolding c(1) by (auto simp: woken_def upd_sock_def split: option.split bind_splits)
  qed
  ultimately show ?thesis
    using c(3-11,13) w
    by (intro exI [of _ s0] exI [of _ k0] exI [of _ p] exI [of _ "t_sleeps s'"])
      (simp add: k0_def upd_wait_def s0_def)
qed

text \<open>C4. A connection opens: \<open>tcp_sock_connect\<close> sends a SYN and waits; a listening socket that gets
  the frame, with whatever Ethernet header, answers with SYN and ACK; the waiting side that gets the
  answer sends an ACK, and the call then returns 0; that ACK opens the new socket of the listening
  side, queues it for accept and wakes the listener. Both sockets are then established and agree on
  the sequence numbers, no packet of the handshake is left in the buffers, and neither
  retransmission timer runs.\<close>

theorem connection_opens:
  assumes cl: "dials j k dip dport iface pc rc client"
    and sv: "listens i l (segment_cb (if_ip iface) dip 12345 dport (snd_nxt k) (rcv_nxt k) TCP_SYN (rcv_wnd k) [])
      ps rs qs server"
    and r1: "reachable_via (if_ip iface) e mac (t_router server)"
    and r2: "reachable_via dip e' mac' (t_router client)"
  shows "\<exists>client0 n q0. r_out (t_router client0) = r_out (t_router client) @ [(rt_iface e', q0)] \<and>
    (\<forall>f1. same_packet f1 q0 \<longrightarrow> (\<exists>server1 q1 x. handle_tcp_packet other f1 server = Some server1 \<and>
      r_out (t_router server1) = r_out (t_router server) @ [(rt_iface e, q1)] \<and>
      (\<forall>f2. same_packet f2 q1 \<longrightarrow> (\<exists>client1 client2 k1 q2. handle_tcp_packet other f2 client0 = Some client1 \<and>
        r_out (t_router client1) = r_out (t_router client0) @ [(rt_iface e', q2)] \<and>
        (\<forall>env. env n client0 = client1 \<longrightarrow>
          tcp_sock_connect env j (htonl dip) (htons dport) client = Some (0, client2)) \<and>
        t_socks client2 j = Some k1 \<and>
        tables (filter (\<lambda>p. \<not> acked (snd_nxt k + 1) p) pc) rc client2 \<and>
        (\<forall>f3. same_packet f3 q2 \<longrightarrow> (\<exists>server2 k2 l2. handle_tcp_packet other f3 server1 = Some server2 \<and>
          t_socks server2 (t_nsocks server) = Some k2 \<and> in_step k1 k2 \<and>
          dlist (t_links server2) (Accept_Queue i) (map Queue_Node (qs @ [t_nsocks server])) \<and>
          t_socks server2 i = Some l2 \<and> accept_backlog l2 = accept_backlog l + 1 \<and>
          (\<not> sw_dead (sk_wait l Wait_Accept) \<longrightarrow> sw_notified (sk_wait l2 Wait_Accept)) \<and>
          tables (filter (\<lambda>p. \<not> acked (x + 1) p) ps) rs server2))))))"
proof -
  from connect_sleeps [OF cl r2] obtain client0 k0 p n where
    c: "\<And>env. tcp_sock_connect env j (htonl dip) (htons dport) client = woken j (env n client0)"
      "connecting j k0 (syn_ack_of k0 0) (pc @ [p]) rc [] client0" "snd_nxt k0 = snd_nxt k + 1"
      "ntohl (th_seq p TCP_AT) = snd_nxt k"
    and a: "sk_sip k0 = if_ip iface" "sk_sport k0 = 12345" "sk_dip k0 = dip" "sk_dport k0 = dport"
      "rcv_nxt k0 = rcv_nxt k" "rcv_wnd k0 = rcv_wnd k"
    and w: "\<not> sw_dead (sk_wait k0 Wait_Connect)"
    and out: "sends e' mac' (syn_of k0) (t_router client) (t_router client0)"
    by (elim exE conjE) (rule that, blast+)
  have syn: "syn_of k0 = segment_cb (if_ip iface) dip 12345 dport (snd_nxt k) (rcv_nxt k) TCP_SYN (rcv_wnd k) []"
    by (simp add: syn_of_def a c(3))
  from out obtain q0 where q0: "r_out (t_router client0) = r_out (t_router client) @ [(rt_iface e', q0)]"
    "delivers q0 (syn_of k0)" by (auto simp: sends_def)
  have r2': "reachable_via (sk_dip k0) e' mac' (t_router client0)" using r2 sends_reachable [OF out] by (simp add: a)
  have r1': "reachable_via (sk_sip k0) e mac (t_router server)" using r1 by (simp add: a)
  have pc: "filter (\<lambda>p. \<not> acked (snd_nxt k0) p) (pc @ [p]) = filter (\<lambda>p. \<not> acked (snd_nxt k + 1) p) pc"
    using c(3,4) by (simp add: acked_def less_than_32b_def)
  have ret: "\<exists>client2 k1'. (\<forall>env. env n client0 = client1 \<longrightarrow>
        tcp_sock_connect env j (htonl dip) (htons dport) client = Some (0, client2)) \<and>
      t_socks client2 j = Some k1' \<and> in_step k1' = in_step k1 \<and> (\<forall>ps. tables ps rc client2 = tables ps rc client1)"
    if "t_socks client1 j = Some k1" "\<not> sw_dead (sk_wait k1 Wait_Connect)" for client1 k1
  proof -
    let ?k = "upd_wait Wait_Connect (\<lambda>x. x \<lparr>sw_notified := False, sw_sleep := False\<rparr>) k1"
    have "woken j client1 = Some (0, client1 \<lparr>t_socks := (t_socks client1)(j \<mapsto> ?k)\<rparr>)"
      using that by (simp add: woken_def upd_sock_def) (simp add: upd_wait_def)
    moreover have "in_step ?k = in_step k1" by (rule ext) (simp add: in_step_def upd_wait_def)
    ultimately show ?thesis
      using c(1) by (intro exI [of _ "client1 \<lparr>t_socks := (t_socks client1)(j \<mapsto> ?k)\<rparr>"] exI [of _ ?k]) simp
  qed
  let ?opened = "\<lambda>server1 x k1 f3. \<exists>server2 k2 l2. handle_tcp_packet other f3 server1 = Some server2 \<and>
    t_socks server2 (t_nsocks server) = Some k2 \<and> in_step k1 k2 \<and>
    dlist (t_links server2) (Accept_Queue i) (map Queue_Node (qs @ [t_nsocks server])) \<and>
    t_socks server2 i = Some l2 \<and> accept_backlog l2 = accept_backlog l + 1 \<and>
    (\<not> sw_dead (sk_wait l Wait_Accept) \<longrightarrow> sw_notified (sk_wait l2 Wait_Accept)) \<and>
    tables (filter (\<lambda>p. \<not> acked (x + 1) p) ps) rs server2"
  let ?answered = "\<lambda>server1 x f2. \<exists>client1 client2 k1 q2. handle_tcp_packet other f2 client0 = Some client1 \<and>
    r_out (t_router client1) = r_out (t_router client0) @ [(rt_iface e', q2)] \<and>
    (\<forall>env. env n client0 = client1 \<longrightarrow>
      tcp_sock_connect env j (htonl dip) (htons dport) client = Some (0, client2)) \<and>
    t_socks client2 j = Some k1 \<and> tables (filter (\<lambda>p. \<not> acked (snd_nxt k + 1) p) pc) rc client2 \<and>
    (\<forall>f3. same_packet f3 q2 \<longrightarrow> ?opened server1 x k1 f3)"
  have "\<exists>server1 q1 x. handle_tcp_packet other f1 server = Some server1 \<and>
      r_out (t_router server1) = r_out (t_router server) @ [(rt_iface e, q1)] \<and>
      (\<forall>f2. same_packet f2 q1 \<longrightarrow> ?answered server1 x f2)" if "same_packet f1 q0" for f1
  proof -
    have f1: "carries f1 (syn_of k0)" using that q0(2) by (simp add: delivers_def)
    from handshake [OF c(2) sv [folded syn] r1' r2' f1, of other, unfolded pc append_Nil2]
    obtain server1 q1 x where h: "handle_tcp_packet other f1 server = Some server1"
      "r_out (t_router server1) = r_out (t_router server) @ [(rt_iface e, q1)]"
      "\<And>f2. same_packet f2 q1 \<Longrightarrow> \<exists>client1 q' k1. handle_tcp_packet other f2 client0 = Some client1 \<and>
        r_out (t_router client1) = r_out (t_router client0) @ [(rt_iface e', q')] \<and>
        t_socks client1 j = Some k1 \<and>
        (\<not> sw_dead (sk_wait k0 Wait_Connect) \<longrightarrow> sw_notified (sk_wait k1 Wait_Connect) \<and> \<not> sw_dead (sk_wait k1 Wait_Connect)) \<and>
        tables (filter (\<lambda>p. \<not> acked (snd_nxt k + 1) p) pc) rc client1 \<and>
        (\<forall>f3. same_packet f3 q' \<longrightarrow> ?opened server1 x k1 f3)" by (elim exE conjE) (rule that, blast+)
    have "?answered server1 x f2" if f2: "same_packet f2 q1" for f2
    proof -
      from h(3) [OF f2] obtain client1 q2 k1 where g: "handle_tcp_packet other f2 client0 = Some client1"
        "r_out (t_router client1) = r_out (t_router client0) @ [(rt_iface e', q2)]" "t_socks client1 j = Some k1"
        "\<not> sw_dead (sk_wait k1 Wait_Connect)" "tables (filter (\<lambda>p. \<not> acked (snd_nxt k + 1) p) pc) rc client1"
        "\<And>f3. same_packet f3 q2 \<Longrightarrow> ?opened server1 x k1 f3" using w by (elim exE conjE) (rule that, blast+)
      from ret [OF g(3,4)] obtain client2 k1' where
        "\<forall>env. env n client0 = client1 \<longrightarrow> tcp_sock_connect env j (htonl dip) (htons dport) client = Some (0, client2)"
        "t_socks client2 j = Some k1'" "in_step k1' = in_step k1" "\<forall>ps. tables ps rc client2 = tables ps rc client1"
        by blast
      then show ?thesis using g(1,2,5,6) by (intro exI [of _ client1] exI [of _ client2] exI [of _ k1'] exI [of _ q2]) simp
    qed
    then show ?thesis using h(1,2) by blast
  qed
  then show ?thesis using q0(1) by blast
qed

text \<open>A client at 10.0.0.9 and a server at 10.0.0.1 that listens on port 80.\<close>

definition demo_client_iface :: iface_info where
  "demo_client_iface = \<lparr>if_index = 1, if_mac = demo_mac, if_ip = 0x0a000009, if_mask = 0xff000000,
     if_name = ''h1-eth0'', if_helloint = 5, if_num_nbr = 0, if_nbr_list = []\<rparr>"

definition demo_client :: stack where
  "demo_client = demo_stack \<lparr>t_router := demo_router \<lparr>r_ifaces := [demo_client_iface], r_entries :=
       [\<lparr>ac_ip4 = 0x0a000001, ac_mac = [2, 0, 0, 0, 0, 1], ac_added = 0, ac_valid = True\<rparr>]\<rparr>,
     t_links := \<lparr>lnext = Some, lprev = Some\<rparr>, t_socks := [0 \<mapsto> fresh_sock], t_nsocks := 1\<rparr>"

definition demo_server :: "link links \<Rightarrow> stack" where
  "demo_server h = demo_stack \<lparr>t_links := h,
     t_socks := [0 \<mapsto> fresh_sock \<lparr>sk_sport := 80, sk_state := TCP_LISTEN\<rparr>], t_nsocks := 1\<rparr>"

definition demo_syn :: tcp_cb where
  "demo_syn = segment_cb (if_ip demo_client_iface) 0x0a000001 12345 80 (snd_nxt fresh_sock) (rcv_nxt fresh_sock)
     TCP_SYN (rcv_wnd fresh_sock) []"

lemma demo_reachable:
  "reachable_via (if_ip demo_client_iface) demo_route demo_mac (t_router (demo_server h))"
  "reachable_via 0x0a000001 demo_route [2, 0, 0, 0, 0, 1] (t_router demo_client)"
  by (simp_all add: demo_server_def demo_client_def demo_client_iface_def demo_stack_def reachable_via_def
      demo_router_def demo_route_def demo_mac_def longest_prefix_match_def arpcache_lookup_def get_next_hop_def)

lemma demo_dials: "dials 0 fresh_sock 0x0a000001 80 demo_client_iface [] [] demo_client"
proof -
  have d: "dlist \<lparr>lnext = Some, lprev = Some\<rparr> l []" for l :: link by (simp add: dlist_def)
  have "bind_tables (\<lambda>_. []) demo_client" "unbound (\<lambda>_. []) 0 demo_client"
    using d by (simp_all add: bind_tables_def unbound_def demo_client_def fresh_sock_def)
  then have "\<exists>B. bind_tables B demo_client \<and> unbound B 0 demo_client" by blast
  moreover have "tables [] [] demo_client"
    using d by (auto simp: tables_def buffered_def blocks_hold_def demo_client_def demo_stack_def intro: exI [of _ "[]"])
  moreover have "\<exists>es. dlist (t_links demo_client) (Established (tcp_hash_function (if_ip demo_client_iface) 0x0a000001
      12345 80)) (map Hash_List es) \<and> 0 \<notin> set es \<and> (\<forall>i \<in> set es. \<exists>l. t_socks demo_client i = Some l \<and>
      \<not> same_tuple (if_ip demo_client_iface) 0x0a000001 12345 80 l)"
    using d by (intro exI [of _ "[]"]) (simp add: demo_client_def)
  ultimately show ?thesis
    unfolding dials_def by (simp add: demo_client_def fresh_sock_def wait_init_def)
qed

lemma demo_listens: "\<exists>h. listens 0 (fresh_sock \<lparr>sk_sport := 80, sk_state := TCP_LISTEN\<rparr>) demo_syn [] [] [] (demo_server h)"
proof -
  let ?i = "\<lparr>lnext = Some, lprev = Some\<rparr>" and ?L = "Listen (tcp_hash_function 0 0 80 0)"
  have d: "dlist ?i l []" for l :: link by (simp add: dlist_def)
  have "Hash_List 0 \<notin> set [?L]" by simp
  from dlist_add_head [OF d this] obtain h where h: "dlist h ?L [Hash_List 0]"
    "\<forall>x. x \<notin> {Hash_List 0, ?L} \<longrightarrow> lnext h x = Some x \<and> lprev h x = Some x" by auto
  have "dlist h l []" if "l \<notin> {Hash_List 0, ?L}" for l using h(2) that by (simp add: dlist_def)
  then have "dlist h Trans_Buf []" "dlist h Retrans_List []" "dlist h (Accept_Queue 0) []"
    "dlist h (bucket demo_syn) []" by (simp_all add: bucket_def)
  moreover have "cb_dport demo_syn = 80"
    by (simp add: demo_syn_def segment_cb_def)
  ultimately show ?thesis
    using h(1)
    by (intro exI [of _ h]) (auto simp: listens_def demo_server_def tables_def buffered_def blocks_hold_def
        demo_stack_def intro!: exI [of _ "[]"])
qed

lemma connection_opens_witness:
  "\<exists>hs f1 f2 f3 client2 server1 server2 env k1 k2.
    handle_tcp_packet (\<lambda>_ s. s) f1 (demo_server hs) = Some server1 \<and>
    tcp_sock_connect env 0 (htonl 0x0a000001) (htons 80) demo_client = Some (0, client2) \<and>
    handle_tcp_packet (\<lambda>_ s. s) f3 server1 = Some server2 \<and>
    t_socks client2 0 = Some k1 \<and> t_socks server2 1 = Some k2 \<and> in_step k1 k2"
proof -
  obtain hs where hs: "listens 0 (fresh_sock \<lparr>sk_sport := 80, sk_state := TCP_LISTEN\<rparr>) demo_syn [] [] []
    (demo_server hs)" using demo_listens by blast
  have n: "t_nsocks (demo_server hs) = 1" by (simp add: demo_server_def)
  have env: "\<exists>env. env n c = c'" for n :: nat and c c' :: stack by (rule exI [of _ "\<lambda>_ _. c'"]) simp
  have same: "same_packet q q" for q by (simp add: same_packet_def)
  from connection_opens [OF demo_dials hs [unfolded demo_syn_def] demo_reachable, of "\<lambda>_ s. s", unfolded n]
  show ?thesis using env same by metis
qed

end
