(* ===== verification/TcpReorder.thy ===== *)
theory TcpReorder imports TcpSock begin

text \<open>The buffer of segments that came out of order, refined to a list of segments: what
  \<open>ofo_packet_enqueue\<close> and \<open>ofo_packet_dequeue\<close> promise to \<open>tcp_recv_data\<close>.\<close>

section \<open>The abstract buffer\<close>

text \<open>A new segment goes before the first one with a later sequence number.\<close>

fun insert_seg :: "u32 \<Rightarrow> bytes \<Rightarrow> (u32 \<times> bytes) list \<Rightarrow> (u32 \<times> bytes) list" where
  "insert_seg q d [] = [(q, d)]"
| "insert_seg q d ((q', d') # L) =
     (if less_than_32b q q' then (q, d) # (q', d') # L else (q', d') # insert_seg q d L)"

text \<open>Delivery from the sequence number \<open>n\<close> on: the bytes, the next number, what stays, and the
  result. A first segment that begins before \<open>n\<close> stays, and is an error every time.\<close>

fun deliver :: "u32 \<Rightarrow> (u32 \<times> bytes) list \<Rightarrow> bytes \<times> u32 \<times> (u32 \<times> bytes) list \<times> int" where
  "deliver n [] = ([], n, [], 0)"
| "deliver n ((q, d) # L) =
     (if n = q then (case deliver (n + of_nat (length d)) L of (out, n', rest, r) \<Rightarrow> (d @ out, n', rest, r))
      else ([], n, (q, d) # L, if less_than_32b n q then 0 else - 1))"

definition seg_block :: "u32 \<times> bytes \<Rightarrow> tcp_ofo_block" where
  "seg_block g = \<lparr>ob_seq = fst g, ob_len = of_nat (length (snd g)), ob_data = snd g\<rparr>"

definition ofo_nodes :: "nat \<Rightarrow> nat list \<Rightarrow> (u32 \<times> bytes) list \<Rightarrow> stack \<Rightarrow> bool" where
  "ofo_nodes i bs L s \<longleftrightarrow> dlist (t_links s) (Ofo_List i) (map Ofo bs) \<and>
     map (t_ofos s) bs = map (\<lambda>g. Some (seg_block g)) L \<and> (\<forall>b \<in> set bs. b < t_nofos s)"

definition ofo_holds :: "nat \<Rightarrow> (u32 \<times> bytes) list \<Rightarrow> stack \<Rightarrow> bool" where
  "ofo_holds i L s \<longleftrightarrow> (\<exists>bs. ofo_nodes i bs L s)"

text \<open>What the operations on the buffer of socket \<open>i\<close> leave alone.\<close>

definition ofo_frame :: "nat \<Rightarrow> stack \<Rightarrow> stack \<Rightarrow> bool" where
  "ofo_frame i s s' \<longleftrightarrow> t_router s' = t_router s \<and> t_blocks s' = t_blocks s \<and> t_nblocks s' = t_nblocks s \<and>
     t_buf_size s' = t_buf_size s \<and> t_nsocks s' = t_nsocks s \<and> t_exited s' = t_exited s \<and> t_sleeps s' = t_sleeps s \<and>
     (\<forall>j. j \<noteq> i \<longrightarrow> t_socks s' j = t_socks s j) \<and>
     (\<forall>x. x \<noteq> Ofo_List i \<and> x \<notin> range Ofo \<longrightarrow>
       lnext (t_links s') x = lnext (t_links s) x \<and> lprev (t_links s') x = lprev (t_links s) x)"

lemma ofo_frame_refl [simp]: "ofo_frame i s s"
  by (simp add: ofo_frame_def)

lemma ofo_frame_trans: "ofo_frame i s t \<Longrightarrow> ofo_frame i t u \<Longrightarrow> ofo_frame i s u"
  by (simp add: ofo_frame_def)

section \<open>Insertion\<close>

lemma insert_seg_split:
  "\<exists>L1 L2. L = L1 @ L2 \<and> insert_seg q d L = L1 @ (q, d) # L2 \<and>
     (\<forall>g \<in> set L1. \<not> less_than_32b q (fst g)) \<and> (case L2 of [] \<Rightarrow> True | g # _ \<Rightarrow> less_than_32b q (fst g))"
proof (induction q d L rule: insert_seg.induct)
  case (2 q d q' d' L)
  show ?case
  proof (cases "less_than_32b q q'")
    case True
    then show ?thesis by (intro exI [of _ "[]"] exI [of _ "(q', d') # L"]) simp
  next
    case False
    with 2 obtain L1 L2 where "L = L1 @ L2" "insert_seg q d L = L1 @ (q, d) # L2"
      "\<forall>g \<in> set L1. \<not> less_than_32b q (fst g)" "case L2 of [] \<Rightarrow> True | g # _ \<Rightarrow> less_than_32b q (fst g)"
      by blast
    then show ?thesis using False by (intro exI [of _ "(q', d') # L1"] exI [of _ L2]) simp
  qed
qed simp

lemma ofo_length: "ofo_nodes i bs L s \<Longrightarrow> length bs = length L"
  using map_eq_imp_length_eq [of "t_ofos s" bs] by (auto simp: ofo_nodes_def)

lemma find_append_first: "\<forall>x \<in> set xs. \<not> P x \<Longrightarrow> find P (xs @ ys) = find P ys"
  by (induction xs) auto

lemma ofo_enqueue_inserts:
  assumes "ofo_holds i L s" "0 \<le> cb_pl_len cb" "int HDRS_SIZE + cb_pl_len cb \<le> int (length p)"
  defines "data \<equiv> slice HDRS_SIZE (nat (cb_pl_len cb)) p"
  shows "\<exists>s'. ofo_packet_enqueue i cb p s = Some s' \<and> ofo_holds i (insert_seg (cb_seq cb) data L) s' \<and>
    t_socks s' = t_socks s \<and> ofo_frame i s s'"
proof -
  from assms(1) obtain bs where bs: "ofo_nodes i bs L s" by (auto simp: ofo_holds_def)
  let ?o = "t_nofos s" and ?q = "cb_seq cb" and ?H = "Ofo_List i"
  from insert_seg_split obtain L1 L2 where L: "L = L1 @ L2" "insert_seg ?q data L = L1 @ (?q, data) # L2"
    "\<forall>g \<in> set L1. \<not> less_than_32b ?q (fst g)" "case L2 of [] \<Rightarrow> True | g # _ \<Rightarrow> less_than_32b ?q (fst g)"
    by blast
  obtain b1 b2 where b: "bs = b1 @ b2" "length b1 = length L1"
    using ofo_length [OF bs] L(1) by (metis append_take_drop_id length_append length_take min.absorb2 le_add1)
  have lb2: "length b2 = length L2" using ofo_length [OF bs] b L(1) by simp
  have lt: "\<forall>x \<in> set bs. x < ?o" and d: "dlist (t_links s) ?H (map Ofo bs)"
    and mb: "map (t_ofos s) bs = map (\<lambda>g. Some (seg_block g)) L"
    using bs by (simp_all add: ofo_nodes_def)
  have lt12: "\<forall>x \<in> set b1. x < ?o" "\<forall>x \<in> set b2. x < ?o" using lt b(1) by simp_all
  have m1: "map (t_ofos s) b1 = map (\<lambda>g. Some (seg_block g)) L1"
    and m2: "map (t_ofos s) b2 = map (\<lambda>g. Some (seg_block g)) L2"
    using mb b L(1) by simp_all
  have data: "length data = nat (cb_pl_len cb)"
    unfolding data_def by (rule length_slice) (use assms(2,3) in linarith)
  let ?ofos = "(t_ofos s)(?o \<mapsto> \<lparr>ob_seq = ?q, ob_len = of_int (cb_pl_len cb), ob_data = data\<rparr>)"
  define later where "later x = (case x of Ofo c \<Rightarrow> less_than_32b ?q (ob_seq (the (t_ofos s c))) | _ \<Rightarrow> False)" for x
  have keep: "map ?ofos c = map (t_ofos s) c" if "set c \<subseteq> set bs" for c
    using that lt by (auto intro!: map_cong)
  have "\<forall>x \<in> set (map Ofo bs). (case x of Ofo c \<Rightarrow> map_option (\<lambda>ob. less_than_32b ?q (ob_seq ob)) (?ofos c) | _ \<Rightarrow> None)
      = Some (later x)"
  proof -
    have "\<exists>ob. t_ofos s c = Some ob" if "c \<in> set bs" for c
      using that mb by (metis (no_types, lifting) image_iff list.set_map)
    then show ?thesis using lt by (fastforce simp: later_def)
  qed
  from list_find_dlist [OF d, of _ later, OF this]
  have found: "list_find (t_links s) ?H (\<lambda>x. case x of Ofo c \<Rightarrow> map_option (\<lambda>ob. less_than_32b ?q (ob_seq ob)) (?ofos c)
      | _ \<Rightarrow> None) = Some (find later (map Ofo bs))" .
  have n1: "\<not> later x" if "x \<in> set (map Ofo b1)" for x
  proof -
    from that obtain c where c: "c \<in> set b1" "x = Ofo c" by auto
    then have "t_ofos s c \<in> set (map (\<lambda>g. Some (seg_block g)) L1)" unfolding m1 [symmetric] by simp
    then show ?thesis using L(3) c(2) by (auto simp: later_def seg_block_def)
  qed
  have "find later (map Ofo bs) = (case b2 of [] \<Rightarrow> None | c # _ \<Rightarrow> Some (Ofo c))"
  proof (cases b2)
    case Nil
    then show ?thesis using n1 b(1) by (auto simp: find_None_iff)
  next
    case (Cons c b3)
    then obtain g L3 where g: "L2 = g # L3" using lb2 by (cases L2) auto
    then have "later (Ofo c)" using m2 L(4) by (simp add: Cons later_def seg_block_def)
    then show ?thesis using find_append_first [of "map Ofo b1" later] n1 by (simp add: b(1) Cons)
  qed
  then have at: "(case find later (map Ofo bs) of Some x \<Rightarrow> x | None \<Rightarrow> ?H) = hd (map Ofo b2 @ [?H])"
    by (cases b2) simp_all
  have "dlist (t_links s) ?H (map Ofo b1 @ map Ofo b2)" "Ofo ?o \<notin> set (?H # map Ofo b1 @ map Ofo b2)"
    using d lt b(1) by auto
  from dlist_add_before [OF this] obtain h' where h: "list_add_tail (Ofo ?o) (hd (map Ofo b2 @ [?H])) (t_links s) = Some h'"
    "dlist h' ?H (map Ofo (b1 @ ?o # b2))"
    "\<forall>x. x \<notin> set (Ofo ?o # ?H # map Ofo b1 @ map Ofo b2) \<longrightarrow>
      lnext h' x = lnext (t_links s) x \<and> lprev h' x = lprev (t_links s) x" by auto
  let ?s = "s \<lparr>t_nofos := ?o + 1, t_ofos := ?ofos, t_links := h'\<rparr>"
  have "ofo_packet_enqueue i cb p s = Some ?s"
    using assms(2,3) found h(1) at
    by (simp add: ofo_packet_enqueue_def Let_def upd_links_def data_def [symmetric] del: fun_upd_apply)
  moreover have "?ofos ?o = Some (seg_block (?q, data))"
    using assms(2) data by (simp add: seg_block_def)
  then have "map ?ofos (b1 @ ?o # b2) = map (\<lambda>g. Some (seg_block g)) (insert_seg ?q data L)"
    using keep [of b1] keep [of b2] m1 m2 b(1) L(2) by simp
  then have "ofo_holds i (insert_seg ?q data L) ?s"
    unfolding ofo_holds_def ofo_nodes_def using h(2) lt12
    by (intro exI [of _ "b1 @ ?o # b2"]) (auto intro: less_SucI)
  moreover have "ofo_frame i s ?s" using h(3) by (auto simp: ofo_frame_def)
  ultimately show ?thesis by auto
qed

section \<open>Delivery\<close>

lemma ofo_delete_first:
  assumes "ofo_nodes i (b # bs) (g # L) s"
  shows "\<exists>h. list_delete_entry (Ofo b) (t_links s) = Some h \<and>
    lnext (t_links s) (Ofo b) = Some (hd (map Ofo bs @ [Ofo_List i])) \<and>
    t_ofos s b = Some (seg_block g) \<and>
    (\<forall>x. x \<noteq> Ofo_List i \<and> x \<notin> range Ofo \<longrightarrow> lnext h x = lnext (t_links s) x \<and> lprev h x = lprev (t_links s) x) \<and>
    (\<forall>k. ofo_nodes i bs L (s \<lparr>t_socks := k, t_links := h, t_ofos := (t_ofos s)(b := None)\<rparr>))"
proof -
  have d: "dlist (t_links s) (Ofo_List i) ([] @ Ofo b # map Ofo bs)" using assms by (simp add: ofo_nodes_def)
  from dlist_delete [OF d, unfolded append_Nil] obtain h where h: "list_delete_entry (Ofo b) (t_links s) = Some h"
    "dlist h (Ofo_List i) (map Ofo bs)"
    "\<forall>x. x \<notin> set (Ofo_List i # map Ofo bs) \<longrightarrow> lnext h x = lnext (t_links s) x \<and> lprev h x = lprev (t_links s) x"
    by blast
  have "b \<notin> set bs" using d by (auto simp: dlist_def)
  then have "map ((t_ofos s)(b := None)) bs = map (t_ofos s) bs" by (auto intro!: map_cong)
  also have "\<dots> = map (\<lambda>g. Some (seg_block g)) L" using assms by (simp add: ofo_nodes_def)
  finally have "map ((t_ofos s)(b := None)) bs = map (\<lambda>g. Some (seg_block g)) L" .
  moreover have "\<forall>x. x \<noteq> Ofo_List i \<and> x \<notin> range Ofo \<longrightarrow> lnext h x = lnext (t_links s) x \<and> lprev h x = lprev (t_links s) x"
    using h(3) by auto
  ultimately show ?thesis using assms h(1,2) dlist_next [OF d] by (simp add: ofo_nodes_def del: fun_upd_apply)
qed

lemma fits_unsigned:
  "int n \<le> f \<Longrightarrow> f < 2 ^ 31 \<Longrightarrow> (of_nat n :: u32) \<le> of_int f"
proof -
  assume a: "int n \<le> f" "f < 2 ^ 31"
  define m where "m = nat f"
  have f: "f = int m" using a by (simp add: m_def)
  show ?thesis using a unfolding f by (simp add: word_le_nat_alt unat_of_nat)
qed

lemma deliver_run:
  assumes "ofo_nodes i bs L s" "t_socks s i = Some k" "rb_ok (rcv_buf k)" "rcv_nxt k = n"
    and "\<forall>g \<in> set L. snd g \<noteq> []" "deliver n L = (out, n', rest, r)"
    and "int (length out) \<le> ring_buffer_free (rcv_buf k)" "ring_buffer_free (rcv_buf k) < 2 ^ 31"
  shows "\<exists>s' rb w. for_each_safe (\<lambda>st. t_links (fst st)) (Ofo_List i) (ofo_dequeue_block env i)
      (hd (map Ofo bs @ [Ofo_List i])) (s, n, 0) = Some (s', n', r) \<and>
    ofo_holds i rest s' \<and> t_socks s' i = Some (k \<lparr>rcv_buf := rb, rcv_nxt := n', sk_wait := w\<rparr>) \<and>
    rb_ok rb \<and> rb_size rb = rb_size (rcv_buf k) \<and> rb_contents rb = rb_contents (rcv_buf k) @ out \<and>
    (\<forall>x. x \<noteq> Wait_Recv \<longrightarrow> w x = sk_wait k x) \<and> sw_dead (w Wait_Recv) = sw_dead (sk_wait k Wait_Recv) \<and>
    ofo_frame i s s'"
  using assms
proof (induction L arbitrary: bs s k n out)
  case Nil
  then have "bs = []" using ofo_length by fastforce
  then show ?case using Nil
    by (intro exI [of _ s] exI [of _ "rcv_buf k"] exI [of _ "sk_wait k"]) (auto simp: for_each_safe.simps ofo_holds_def)
next
  case (Cons g L)
  obtain q d where g: "g = (q, d)" by (cases g)
  obtain b bs' where b: "bs = b # bs'" using ofo_length [OF Cons.prems(1)] by (cases bs) auto
  from ofo_delete_first [OF Cons.prems(1) [unfolded b]] obtain h where
    h: "list_delete_entry (Ofo b) (t_links s) = Some h"
    "lnext (t_links s) (Ofo b) = Some (hd (map Ofo bs' @ [Ofo_List i]))" "t_ofos s b = Some (seg_block g)"
    "\<forall>x. x \<noteq> Ofo_List i \<and> x \<notin> range Ofo \<longrightarrow> lnext h x = lnext (t_links s) x \<and> lprev h x = lprev (t_links s) x"
    "\<And>ks. ofo_nodes i bs' L (s \<lparr>t_socks := ks, t_links := h, t_ofos := (t_ofos s)(b := None)\<rparr>)" by blast
  note fe = for_each_safe.simps [of "\<lambda>st. t_links (fst st)" "Ofo_List i" "ofo_dequeue_block env i" "Ofo b"]
  show ?case
  proof (cases "n = q")
    case False
    then have res: "out = []" "n' = n" "rest = g # L" "r = (if less_than_32b n q then 0 else - 1)"
      using Cons.prems(6) by (auto simp: g)
    have "ofo_dequeue_block env i (Ofo b) (s, n, 0) = Some (False, s, n, r)"
      using False h(3) by (simp add: ofo_dequeue_block_def res(4) g seg_block_def)
    then show ?thesis using Cons.prems h(2)
      by (intro exI [of _ s] exI [of _ "rcv_buf k"] exI [of _ "sk_wait k"]) (auto simp: b fe res ofo_holds_def)
  next
    case True
    obtain out2 where o2: "deliver (n + of_nat (length d)) L = (out2, n', rest, r)" "out = d @ out2"
      using Cons.prems(6) True by (auto simp: g split: prod.splits)
    have d: "d \<noteq> []" "int (length d) \<le> ring_buffer_free (rcv_buf k)"
      using Cons.prems(5,7) o2(2) by (simp_all add: g)
    then obtain rb where rb: "write_ring_buffer (rcv_buf k) d = Some rb"
      using rb.put_fails [OF Cons.prems(3)] by fastforce
    note ok = rb.put_ok [OF Cons.prems(3) rb]
    define k2 where "k2 = (upd_wait Wait_Recv (\<lambda>x. if sw_dead x then x
      else if \<not> sw_notified x then x \<lparr>sw_notified := True\<rparr> else x) (k \<lparr>rcv_buf := rb\<rparr>))
        \<lparr>rcv_nxt := n + of_nat (length d)\<rparr>"
    define s2 where "s2 = s \<lparr>t_socks := (t_socks s)(i \<mapsto> k2), t_links := h, t_ofos := (t_ofos s)(b := None)\<rparr>"
    have "(of_nat (length d) :: u32) \<le> of_int (ring_buffer_free (rcv_buf k))"
      using fits_unsigned d(2) Cons.prems(8) by blast
    then have w: "wait_space env i b s = Some (0, s)"
      using Cons.prems(2) h(3) by (simp add: wait_space.simps [of env i b s] seg_block_def g)
    have body: "ofo_dequeue_block env i (Ofo b) (s, n, 0) = Some (True, s2, n + of_nat (length d), 0)"
      using True Cons.prems(2) h(1,3) rb
      by (simp add: ofo_dequeue_block_def w seg_block_def g upd_sock_def upd_links_def wake_up_def s2_def k2_def Let_def)
    have k2: "rcv_buf k2 = rb" "rcv_nxt k2 = n + of_nat (length d)" "rb_size rb = rb_size (rcv_buf k)"
      "\<forall>x. x \<noteq> Wait_Recv \<longrightarrow> sk_wait k2 x = sk_wait k x" "sw_dead (sk_wait k2 Wait_Recv) = sw_dead (sk_wait k Wait_Recv)"
      using rb by (auto simp: k2_def upd_wait_def write_ring_buffer_def Let_def split: if_splits)
    have k2': "k2 \<lparr>rcv_buf := r', rcv_nxt := x, sk_wait := w\<rparr> = k \<lparr>rcv_buf := r', rcv_nxt := x, sk_wait := w\<rparr>" for r' x w
      by (simp add: k2_def upd_wait_def)
    have fr: "ofo_frame i s s2" using h(4) by (simp add: ofo_frame_def s2_def)
    have "\<exists>s' rb' w. for_each_safe (\<lambda>st. t_links (fst st)) (Ofo_List i) (ofo_dequeue_block env i)
        (hd (map Ofo bs' @ [Ofo_List i])) (s2, n + of_nat (length d), 0) = Some (s', n', r) \<and>
      ofo_holds i rest s' \<and> t_socks s' i = Some (k2 \<lparr>rcv_buf := rb', rcv_nxt := n', sk_wait := w\<rparr>) \<and>
      rb_ok rb' \<and> rb_size rb' = rb_size rb \<and> rb_contents rb' = rb_contents rb @ out2 \<and>
      (\<forall>x. x \<noteq> Wait_Recv \<longrightarrow> w x = sk_wait k2 x) \<and> sw_dead (w Wait_Recv) = sw_dead (sk_wait k2 Wait_Recv) \<and>
      ofo_frame i s2 s'"
      using Cons.IH [of bs' s2 k2 "n + of_nat (length d)" out2] h(5) ok Cons.prems(5,7,8) o2 k2(1,2)
      by (simp add: s2_def)
    then obtain s' rb' w where r2: "for_each_safe (\<lambda>st. t_links (fst st)) (Ofo_List i) (ofo_dequeue_block env i)
        (hd (map Ofo bs' @ [Ofo_List i])) (s2, n + of_nat (length d), 0) = Some (s', n', r)"
      "ofo_holds i rest s'" "t_socks s' i = Some (k \<lparr>rcv_buf := rb', rcv_nxt := n', sk_wait := w\<rparr>)"
      "rb_ok rb'" "rb_size rb' = rb_size (rcv_buf k)" "rb_contents rb' = rb_contents (rcv_buf k) @ out"
      "\<forall>x. x \<noteq> Wait_Recv \<longrightarrow> w x = sk_wait k x" "sw_dead (w Wait_Recv) = sw_dead (sk_wait k Wait_Recv)"
      "ofo_frame i s2 s'" using k2(3-5) k2' ok o2(2) by auto
    then show ?thesis using body h(2) ofo_frame_trans [OF fr r2(9)]
      by (intro exI [of _ s'] exI [of _ rb'] exI [of _ w]) (simp add: b fe)
  qed
qed

text \<open>One segment with the expected number, when nothing waits: it is delivered at once.\<close>

lemma expected_delivered:
  assumes "ofo_holds j [] s" "t_socks s j = Some l" "rb_ok (rcv_buf l)" "rb_size (rcv_buf l) = 65535"
    and "cb_seq cb = rcv_nxt l" "cb_pl_len cb = int (length d)" "slice HDRS_SIZE (length d) p = d" "d \<noteq> []"
    and "int (length d) \<le> ring_buffer_free (rcv_buf l)" "HDRS_SIZE + length d \<le> length p"
  shows "\<exists>s1 s2 rb w. ofo_packet_enqueue j cb p s = Some s1 \<and> ofo_packet_dequeue env j s1 = Some (0, s2) \<and>
    ofo_holds j [] s2 \<and> ofo_frame j s s2 \<and>
    t_socks s2 j = Some (l \<lparr>rcv_buf := rb, rcv_nxt := rcv_nxt l + of_nat (length d), sk_wait := w\<rparr>) \<and>
    rb_ok rb \<and> rb_size rb = 65535 \<and> rb_contents rb = rb_contents (rcv_buf l) @ d \<and>
    (\<forall>x. x \<noteq> Wait_Recv \<longrightarrow> w x = sk_wait l x) \<and> sw_dead (w Wait_Recv) = sw_dead (sk_wait l Wait_Recv)"
proof -
  obtain s1 where s1: "ofo_packet_enqueue j cb p s = Some s1" "ofo_holds j [(rcv_nxt l, d)] s1" "t_socks s1 = t_socks s"
    "ofo_frame j s s1"
    using ofo_enqueue_inserts [OF assms(1), of cb p] assms(5-7,10) by auto
  then obtain bs where bs: "ofo_nodes j bs [(rcv_nxt l, d)] s1" by (auto simp: ofo_holds_def)
  have "ring_buffer_free (rcv_buf l) < 2 ^ 31" using assms(4) by (simp add: ring_buffer_free_def)
  then obtain s2 rb w where run: "for_each_safe (\<lambda>st. t_links (fst st)) (Ofo_List j) (ofo_dequeue_block env j)
      (hd (map Ofo bs @ [Ofo_List j])) (s1, rcv_nxt l, 0) = Some (s2, rcv_nxt l + of_nat (length d), 0)"
    "ofo_holds j [] s2" "t_socks s2 j = Some (l \<lparr>rcv_buf := rb, rcv_nxt := rcv_nxt l + of_nat (length d), sk_wait := w\<rparr>)"
    "rb_ok rb" "rb_size rb = 65535" "rb_contents rb = rb_contents (rcv_buf l) @ d"
    "\<forall>x. x \<noteq> Wait_Recv \<longrightarrow> w x = sk_wait l x" "sw_dead (w Wait_Recv) = sw_dead (sk_wait l Wait_Recv)"
    "ofo_frame j s1 s2"
    using deliver_run [OF bs _ assms(3) refl, of d "rcv_nxt l + of_nat (length d)" "[]" 0 env] s1(3) assms(2,4,8,9) by auto
  have "dlist (t_links s1) (Ofo_List j) (map Ofo bs)" using bs by (simp add: ofo_nodes_def)
  then have "lnext (t_links s1) (Ofo_List j) = Some (hd (map Ofo bs @ [Ofo_List j]))" by (rule dlist_first)
  then have "ofo_packet_dequeue env j s1 = Some (0, s2)"
    using run(1) assms(2) s1(3) by (simp add: ofo_packet_dequeue_def list_for_each_safe_def)
  then show ?thesis using s1(1) run ofo_frame_trans [OF s1(4) run(9)] by blast
qed

text \<open>C8. Segments out of order are delivered in order: \<open>ofo_packet_enqueue\<close> puts a segment before
  the first later one, and \<open>ofo_packet_dequeue\<close> appends to the receiving buffer, which has room for
  them, exactly the bytes of the segments that follow each other from the expected number on,
  advances that number past them and keeps the others. A first segment that begins before the
  expected number, as the second copy of a retransmitted one does, is never removed: it makes the
  call fail, and no later segment is delivered.\<close>

theorem out_of_order_delivery:
  assumes "ofo_holds i L s" "t_socks s i = Some k" "rb_ok (rcv_buf k)" "rb_size (rcv_buf k) = 65535"
    and "\<forall>g \<in> set L. snd g \<noteq> []" "deliver (rcv_nxt k) L = (out, n', rest, r)"
    and "int (length out) \<le> ring_buffer_free (rcv_buf k)"
    and "0 \<le> cb_pl_len cb" "int HDRS_SIZE + cb_pl_len cb \<le> int (length p)"
  shows "(\<exists>s' k'. ofo_packet_dequeue env i s = Some (r, s') \<and> ofo_holds i rest s' \<and> t_socks s' i = Some k' \<and>
      rcv_nxt k' = n' \<and> rb_contents (rcv_buf k') = rb_contents (rcv_buf k) @ out) \<and>
    (\<exists>s'. ofo_packet_enqueue i cb p s = Some s' \<and>
      ofo_holds i (insert_seg (cb_seq cb) (slice HDRS_SIZE (nat (cb_pl_len cb)) p) L) s')"
proof -
  from assms(1) obtain bs where bs: "ofo_nodes i bs L s" by (auto simp: ofo_holds_def)
  have "ring_buffer_free (rcv_buf k) < 2 ^ 31" using assms(4) by (simp add: ring_buffer_free_def)
  from deliver_run [OF bs assms(2,3) refl assms(5,6,7) this, of env]
  obtain s' rb w where run: "for_each_safe (\<lambda>st. t_links (fst st)) (Ofo_List i) (ofo_dequeue_block env i)
      (hd (map Ofo bs @ [Ofo_List i])) (s, rcv_nxt k, 0) = Some (s', n', r)"
    "ofo_holds i rest s'" "t_socks s' i = Some (k \<lparr>rcv_buf := rb, rcv_nxt := n', sk_wait := w\<rparr>)"
    "rb_contents rb = rb_contents (rcv_buf k) @ out" by (elim exE conjE) (rule that)
  have "dlist (t_links s) (Ofo_List i) (map Ofo bs)" using bs by (simp add: ofo_nodes_def)
  then have "lnext (t_links s) (Ofo_List i) = Some (hd (map Ofo bs @ [Ofo_List i]))" by (rule dlist_first)
  then have "ofo_packet_dequeue env i s = Some (r, s')"
    using run(1) assms(2) by (simp add: ofo_packet_dequeue_def list_for_each_safe_def)
  with run(2-4) have "\<exists>s' k'. ofo_packet_dequeue env i s = Some (r, s') \<and> ofo_holds i rest s' \<and>
      t_socks s' i = Some k' \<and> rcv_nxt k' = n' \<and> rb_contents (rcv_buf k') = rb_contents (rcv_buf k) @ out"
    by (intro exI [of _ s'] exI [of _ "k \<lparr>rcv_buf := rb, rcv_nxt := n', sk_wait := w\<rparr>"]) simp
  moreover have "\<exists>s'. ofo_packet_enqueue i cb p s = Some s' \<and>
      ofo_holds i (insert_seg (cb_seq cb) (slice HDRS_SIZE (nat (cb_pl_len cb)) p) L) s'"
    using ofo_enqueue_inserts [OF assms(1,8,9)] by (elim exE conjE) (intro exI conjI)
  ultimately show ?thesis by (rule conjI)
qed

lemma out_of_order_delivery_witness:
  "\<exists>s s' k'. ofo_packet_dequeue (\<lambda>_ s. s) 0 s = Some (0, s') \<and> t_socks s' 0 = Some k' \<and>
    rcv_nxt k' = 102 \<and> rb_contents (rcv_buf k') = [7, 8]"
proof -
  let ?k = "fresh_sock \<lparr>rcv_nxt := 100\<rparr>" and ?L = "[(100, [7, 8])]"
  let ?cb = "\<lparr>cb_saddr = 0, cb_daddr = 0, cb_sport = 0, cb_dport = 0, cb_seq = 0, cb_seq_end = 0, cb_ack = 0,
    cb_payload = [], cb_pl_len = 0, cb_rwnd = 0, cb_flags = 0\<rparr>"
  have n: "Ofo 0 \<notin> set [Ofo_List 0]" by simp
  from dlist_add_tail [OF dlist_init n] obtain h where h: "dlist h (Ofo_List 0) [Ofo 0]" by fastforce
  let ?s = "demo_stack \<lparr>t_links := h, t_socks := [0 \<mapsto> ?k], t_ofos := [0 \<mapsto> seg_block (100, [7, 8])], t_nofos := 1\<rparr>"
  have "ofo_holds 0 ?L ?s" unfolding ofo_holds_def ofo_nodes_def using h by (intro exI [of _ "[0]"]) simp
  moreover have "t_socks ?s 0 = Some ?k" "rb_ok (rcv_buf ?k)" "rb_size (rcv_buf ?k) = 65535"
    "ring_buffer_free (rcv_buf ?k) = 65534" "rb_contents (rcv_buf ?k) = []"
    by (simp_all add: fresh_sock_def rb_ok_def alloc_ring_buffer_def TCP_DEFAULT_WINDOW_def
        ring_buffer_free_def ring_buffer_used_def rb_contents_def)
  moreover have "deliver (rcv_nxt ?k) ?L = ([7, 8], 102, [], 0)" by simp
  ultimately obtain s' k' where "ofo_packet_dequeue (\<lambda>_ s. s) 0 ?s = Some (0, s')" "t_socks s' 0 = Some k'"
    "rcv_nxt k' = 102" "rb_contents (rcv_buf k') = [7, 8]"
    using out_of_order_delivery [of 0 ?L ?s ?k "[7, 8]" 102 "[]" 0 ?cb "replicate 54 0" "\<lambda>_ s. s"]
    by (auto simp: HDRS_SIZE_def ETHER_HDR_SIZE_def IP_BASE_HDR_SIZE_def TCP_BASE_HDR_SIZE_def)
  then show ?thesis by blast
qed

end
