(* ===== verification/TcpTransfer.thy ===== *)
theory TcpTransfer imports TcpHandshake TcpReorder begin

text \<open>The transfer of data over an open connection: what \<open>tcp_sock_write\<close> sends, what the other end
  delivers to \<open>tcp_sock_read\<close> and answers, and how the answers end the call.\<close>

section \<open>Frames\<close>

text \<open>The established socket \<open>i\<close> is the one its segments are looked up to.\<close>

definition hashed :: "nat \<Rightarrow> tcp_sock \<Rightarrow> stack \<Rightarrow> bool" where
  "hashed i k s \<longleftrightarrow> (\<exists>es es'. dlist (t_links s)
       (Established (tcp_hash_function (sk_sip k) (sk_dip k) (sk_sport k) (sk_dport k))) (map Hash_List (es @ i # es')) \<and>
     (\<forall>j \<in> set es. \<exists>l. t_socks s j = Some l \<and> \<not> same_tuple (sk_sip k) (sk_dip k) (sk_sport k) (sk_dport k) l) \<and>
     (\<forall>j \<in> set es'. \<exists>l. t_socks s j = Some l))"

definition same_ends :: "tcp_sock \<Rightarrow> tcp_sock \<Rightarrow> bool" where
  "same_ends k l \<longleftrightarrow> sk_sip l = sk_sip k \<and> sk_dip l = sk_dip k \<and> sk_sport l = sk_sport k \<and> sk_dport l = sk_dport k"

definition ofo_list_nodes :: "nat \<Rightarrow> link set" where "ofo_list_nodes j = insert (Ofo_List j) (range Ofo)"

lemma hashed_keep:
  assumes "hashed i k s" "links_keep X s s'" "X \<inter> table_nodes = {}" "same_ends k k'"
    and "\<forall>j. j \<noteq> i \<longrightarrow> t_socks s' j = t_socks s j" "t_socks s' i = Some k'"
  shows "hashed i k' s'"
proof -
  from assms(1) obtain es es' where es: "dlist (t_links s)
       (Established (tcp_hash_function (sk_sip k) (sk_dip k) (sk_sport k) (sk_dport k))) (map Hash_List (es @ i # es'))"
     "\<forall>j \<in> set es. \<exists>l. t_socks s j = Some l \<and> \<not> same_tuple (sk_sip k) (sk_dip k) (sk_sport k) (sk_dport k) l"
     "\<forall>j \<in> set es'. \<exists>l. t_socks s j = Some l"
    by (auto simp: hashed_def)
  have d: "distinct (es @ i # es')" using es(1) by (auto simp: dlist_def distinct_map)
  have "set (Established (tcp_hash_function (sk_sip k) (sk_dip k) (sk_sport k) (sk_dport k)) # map Hash_List (es @ i # es'))
      \<subseteq> table_nodes"
    by (simp add: table_nodes_def image_subset_iff)
  then have "dlist (t_links s') (Established (tcp_hash_function (sk_sip k) (sk_dip k) (sk_sport k) (sk_dport k)))
      (map Hash_List (es @ i # es'))"
    using assms(3) by (intro dlist_keep [OF assms(2) es(1)]) blast
  moreover have "\<forall>j \<in> set es. t_socks s' j = t_socks s j" "\<forall>j \<in> set es'. t_socks s' j = t_socks s j"
    using d assms(5) by auto
  moreover have "sk_sip k' = sk_sip k" "sk_dip k' = sk_dip k" "sk_sport k' = sk_sport k" "sk_dport k' = sk_dport k"
    using assms(4) by (simp_all add: same_ends_def)
  ultimately show ?thesis
    unfolding hashed_def using es(2,3)
    by (intro exI [of _ es] exI [of _ es']) simp
qed

lemma hashed_lookup:
  assumes "hashed i k s" "t_socks s i = Some k" "cb_daddr cb = sk_sip k" "cb_saddr cb = sk_dip k"
    and "cb_dport cb = sk_sport k" "cb_sport cb = sk_dport k"
  shows "tcp_sock_lookup cb s = Some (Some i)"
  using assms(1) unfolding hashed_def
  by (elim exE conjE) (rule lookup_established [where k = k], simp_all add: assms same_tuple_def)

lemma buffered_keep:
  assumes "buffered ps s" "links_keep X s s'" "X \<inter> buffer_nodes = {}"
    and "t_blocks s' = t_blocks s" "t_nblocks s' = t_nblocks s" "t_buf_size s' = t_buf_size s"
  shows "buffered ps s'"
proof -
  from assms(1) obtain bs where bs: "blocks_hold bs ps s" "t_buf_size s = payload_size ps" by (auto simp: buffered_def)
  then have "dlist (t_links s') Trans_Buf (map Block bs)"
    using assms(3) by (intro dlist_keep [OF assms(2)]) (auto simp: blocks_hold_def node_sets)
  then show ?thesis using bs assms(4-6) by (auto simp: buffered_def blocks_hold_def)
qed

lemma ofo_empty: "ofo_holds j [] s \<longleftrightarrow> dlist (t_links s) (Ofo_List j) []"
  by (auto simp: ofo_holds_def ofo_nodes_def)

section \<open>Timers that are set twice\<close>

text \<open>A receiver sets the timer for every segment without taking it off the list, which does not stay
  well-formed; but no operation leaves the timer nodes.\<close>

definition timers_linked :: "stack \<Rightarrow> bool" where
  "timers_linked s \<longleftrightarrow> (\<exists>p \<in> timer_nodes. lprev (t_links s) Retrans_List = Some p)"

definition timer_at :: "nat \<Rightarrow> stack \<Rightarrow> bool" where
  "timer_at j s \<longleftrightarrow> (\<exists>p \<in> timer_nodes. \<exists>n \<in> timer_nodes. lprev (t_links s) (Retrans j) = Some p \<and>
     lnext (t_links s) (Retrans j) = Some n)"

lemma tables_linked: "tables ps rs s \<Longrightarrow> timers_linked s"
proof -
  assume "tables ps rs s"
  then have d: "dlist (t_links s) Retrans_List (map Retrans rs)" by (simp add: tables_def)
  have "\<exists>p \<in> set (Retrans_List # map Retrans rs). lprev (t_links s) Retrans_List = Some p"
  proof (cases rs rule: rev_cases)
    case (snoc ys y)
    have "chain (t_links s) ((Retrans_List # map Retrans ys) @ Retrans y # Retrans_List # [])"
      using d by (simp add: dlist_def snoc)
    then have "lprev (t_links s) Retrans_List = Some (Retrans y)" by (simp only: chain_append)
    then show ?thesis by (simp add: snoc)
  qed (use d in \<open>simp add: dlist_def\<close>)
  then show ?thesis by (auto simp: timers_linked_def timer_nodes_def)
qed

lemma timer_set_any:
  assumes "timers_linked s" "t_socks s c = Some k"
  shows "\<exists>h. tcp_set_retrans_timewait_timer c s = Some (s \<lparr>t_links := h,
      t_socks := (t_socks s)(c \<mapsto> (armed k) \<lparr>ref_cnt := ref_cnt k + 1\<rparr>)\<rparr>) \<and>
    links_keep timer_nodes s (s \<lparr>t_links := h\<rparr>) \<and> timers_linked (s \<lparr>t_links := h\<rparr>) \<and> timer_at c (s \<lparr>t_links := h\<rparr>) \<and>
    (dlist (t_links s) Retrans_List [] \<longrightarrow> dlist h Retrans_List [Retrans c])"
proof -
  let ?h0 = "init_list_head (Retrans c) (t_links s)"
  from assms(1) obtain p where p: "p \<in> timer_nodes" "lprev (t_links s) Retrans_List = Some p" by (auto simp: timers_linked_def)
  have t: "Retrans_List \<in> timer_nodes" "Retrans c \<in> timer_nodes" by (simp_all add: timer_nodes_def)
  have p0: "lprev ?h0 Retrans_List = Some p" using p by (simp add: init_list_head_def)
  define h where "h = set_prev (Retrans c) (Some p) (set_next (Retrans c) (Some Retrans_List)
    (set_next p (Some (Retrans c)) (set_prev Retrans_List (Some (Retrans c)) ?h0)))"
  have add: "list_add_tail (Retrans c) Retrans_List ?h0 = Some h"
    by (simp add: list_add_tail_def list_insert_def p0 h_def)
  then have "tcp_set_retrans_timewait_timer c s = Some (s \<lparr>t_links := h,
      t_socks := (t_socks s)(c \<mapsto> (armed k) \<lparr>ref_cnt := ref_cnt k + 1\<rparr>)\<rparr>)"
    using assms(2) by (simp add: tcp_set_retrans_timewait_timer_def upd_sock_def init_list_node_def
        upd_links_def tcp_sock_inc_ref_cnt_def armed_def)
  moreover have "links_keep timer_nodes s (s \<lparr>t_links := h\<rparr>)"
    using p(1) t by (auto simp: links_keep_def h_def init_list_head_def)
  moreover have "timers_linked (s \<lparr>t_links := h\<rparr>)" "timer_at c (s \<lparr>t_links := h\<rparr>)"
    using p(1) t by (auto simp: timers_linked_def timer_at_def h_def)
  moreover have "dlist h Retrans_List [Retrans c]" if "dlist (t_links s) Retrans_List []"
  proof -
    have "dlist ?h0 Retrans_List []" by (rule dlist_frame [OF that]) (simp add: init_list_head_def)
    from dlist_add_tail [OF this, of "Retrans c"] show ?thesis using add by auto
  qed
  ultimately show ?thesis by blast
qed

lemma timer_stop_any:
  assumes "timer_at c s" "t_socks s c = Some k" "1 < ref_cnt k"
  shows "\<exists>h. tcp_stop_retrans_timewait_timer c s = Some (s \<lparr>t_links := h,
      t_socks := (t_socks s)(c \<mapsto> k \<lparr>ref_cnt := ref_cnt k - 1\<rparr>)\<rparr>) \<and> links_keep timer_nodes s (s \<lparr>t_links := h\<rparr>)"
proof -
  from assms(1) obtain p n where pn: "p \<in> timer_nodes" "n \<in> timer_nodes" "lprev (t_links s) (Retrans c) = Some p"
    "lnext (t_links s) (Retrans c) = Some n" by (auto simp: timer_at_def)
  define h where "h = set_next p (Some n) (set_prev n (Some p) (t_links s))"
  have "list_delete_entry (Retrans c) (t_links s) = Some h" 
    using pn(4) by (auto simp: list_delete_entry_def pn(3) pn(4) h_def)
  moreover have "links_keep timer_nodes s (s \<lparr>t_links := h\<rparr>)" using pn(1,2) by (auto simp: links_keep_def h_def)
  ultimately show ?thesis
    using assms(2,3)
    by (intro exI [of _ h]) (simp add: tcp_stop_retrans_timewait_timer_def upd_links_def free_tcp_sock_def Let_def)
qed

section \<open>The receiving end\<close>

definition receiving :: "nat \<Rightarrow> tcp_sock \<Rightarrow> bytes list \<Rightarrow> stack \<Rightarrow> bool" where
  "receiving j l ps s \<longleftrightarrow> t_socks s j = Some l \<and> sk_state l = TCP_ESTABLISHED \<and> 1 \<le> ref_cnt l \<and> hashed j l s \<and>
     buffered ps s \<and> timers_linked s \<and> ofo_holds j [] s \<and> rb_ok (rcv_buf l) \<and> rb_size (rcv_buf l) = 65535"

text \<open>A payload that is not taken for an answer, and the frame of a segment with this payload.\<close>

definition proper :: "bytes \<Rightarrow> bool" where
  "proper d \<longleftrightarrow> string_equal d get_message = Some False"

definition brings :: "bytes \<Rightarrow> tcp_cb \<Rightarrow> bool" where
  "brings f cb \<longleftrightarrow> carries f cb \<and> length f = 54 + length (cb_payload cb) \<and> drop 54 f = cb_payload cb"

lemma proper_nonempty: "proper d \<Longrightarrow> d \<noteq> []"
  by (auto simp: proper_def get_message_def)

lemma process_data:
  assumes "t_socks s j = Some l" "sk_state l = TCP_ESTABLISHED" "cb_flags cb = TCP_PSH OR TCP_ACK" "cb_pl_len cb \<noteq> 0"
  shows "tcp_process env (Some j) cb packet s = Option.bind (string_equal (cb_payload cb) get_message)
    (\<lambda>ack. if ack then process_ack j cb s else tcp_recv_data env j cb packet s)"
proof -
  have "(TCP_PSH OR TCP_ACK) AND TCP_RST = 0" "(TCP_PSH OR TCP_ACK) AND TCP_SYN = 0" "(TCP_PSH OR TCP_ACK) AND TCP_ACK \<noteq> 0"
    "(TCP_PSH OR TCP_ACK) AND TCP_FIN = 0"
    by (simp_all add: TCP_PSH_def TCP_ACK_def TCP_RST_def TCP_SYN_def TCP_FIN_def)
  then show ?thesis using assms by (simp add: tcp_process_def Let_def)
qed

lemma segment_received:
  assumes r: "receiving j l ps r"
    and f: "brings f (segment_cb (sk_dip l) (sk_sip l) (sk_dport l) (sk_sport l) (rcv_nxt l) ak (TCP_PSH OR TCP_ACK) wn d)"
    and d: "proper d" "int (length d) \<le> ring_buffer_free (rcv_buf l)"
    and v: "reachable_via (sk_dip l) e mac (t_router r)"
  shows "\<exists>r' l' p q. handle_tcp_packet env f r = Some r' \<and> receiving j l' (ps @ [p]) r' \<and> timer_at j r' \<and> 1 < ref_cnt l' \<and>
    rb_contents (rcv_buf l') = rb_contents (rcv_buf l) @ d \<and> rcv_nxt l' = rcv_nxt l + of_nat (length d) \<and>
    snd_nxt l' = snd_nxt l + 8 \<and> same_ends l l' \<and> rcv_wnd l' = rcv_wnd l \<and>
    sw_dead (sk_wait l' Wait_Recv) = sw_dead (sk_wait l Wait_Recv) \<and>
    r_out (t_router r') = r_out (t_router r) @ [(rt_iface e, q)] \<and> reachable_via (sk_dip l) e mac (t_router r') \<and>
    (\<forall>g. same_packet g q \<longrightarrow> brings g (segment_cb (sk_sip l) (sk_dip l) (sk_sport l) (sk_dport l) (snd_nxt l)
      (rcv_nxt l + of_nat (length d)) (TCP_PSH OR TCP_ACK) (rcv_wnd l) get_message)) \<and>
    t_exited r' = t_exited r \<and> sk_parent l' = sk_parent l \<and>
    (dlist (t_links r) Retrans_List [] \<longrightarrow> dlist (t_links r') Retrans_List [Retrans j]) \<and>
    tm_timeout (retrans_timer l') = DEFAULT_RETRANS_TIME \<and> tm_retrans_times (retrans_timer l') = 0 \<and>
    ref_cnt l' = ref_cnt l + 1 \<and> t_sleeps r' = t_sleeps r"
proof -
  let ?cb = "segment_cb (sk_dip l) (sk_sip l) (sk_dport l) (sk_sport l) (rcv_nxt l) ak (TCP_PSH OR TCP_ACK) wn d"
  from r have s: "t_socks r j = Some l" "sk_state l = TCP_ESTABLISHED" "1 \<le> ref_cnt l" "hashed j l r" "buffered ps r"
    "timers_linked r" "ofo_holds j [] r" "rb_ok (rcv_buf l)" "rb_size (rcv_buf l) = 65535"
    by (simp_all add: receiving_def)
  have cb: "cb_seq ?cb = rcv_nxt l" "cb_pl_len ?cb = int (length d)" "cb_payload ?cb = d" "cb_ack ?cb = ak"
    "cb_flags ?cb = TCP_PSH OR TCP_ACK"
    by (simp_all add: segment_cb_def)
  have sl: "slice HDRS_SIZE (length d) f = d" "HDRS_SIZE + length d \<le> length f"
    using f cb(3) by (simp_all add: brings_def slice_def hdr_sizes)
  have free: "int (length d) \<le> ring_buffer_free (rcv_buf l)" by (rule d(2))
  obtain r1 r2 rb w where e1: "ofo_packet_enqueue j ?cb f r = Some r1" and e2: "ofo_packet_dequeue env j r1 = Some (0, r2)"
    and o: "ofo_holds j [] r2" "ofo_frame j r r2"
    "t_socks r2 j = Some (l \<lparr>rcv_buf := rb, rcv_nxt := rcv_nxt l + of_nat (length d), sk_wait := w\<rparr>)"
    "rb_ok rb" "rb_size rb = 65535" "rb_contents rb = rb_contents (rcv_buf l) @ d"
    "sw_dead (w Wait_Recv) = sw_dead (sk_wait l Wait_Recv)"
    using expected_delivered [OF s(7,1,8,9) cb(1,2) sl(1) proper_nonempty [OF d(1)] free sl(2), of env] by blast
  define l2 where "l2 = l \<lparr>rcv_buf := rb, rcv_nxt := rcv_nxt l + of_nat (length d), sk_wait := w,
    snd_una := (if greater_than_32b ak (snd_una l) then ak else snd_una l)\<rparr>"
  define r3 where "r3 = r2 \<lparr>t_socks := (t_socks r2)(j \<mapsto> l2)\<rparr>"
  have k3: "links_keep (ofo_list_nodes j) r r3"
    using o(2) by (auto simp: ofo_frame_def links_keep_def ofo_list_nodes_def r3_def)
  have b3: "buffered ps r3"
    using o(2) by (intro buffered_keep [OF s(5) k3]) (auto simp: ofo_frame_def ofo_list_nodes_def buffer_nodes_def r3_def)
  have t3: "timers_linked r3"
    using s(6) k3 by (simp add: timers_linked_def links_keep_def ofo_list_nodes_def image_iff)
  have l2: "t_socks r3 j = Some l2" by (simp add: r3_def)
  from timer_set_any [OF t3 this] obtain h where
    h: "tcp_set_retrans_timewait_timer j r3 = Some (r3 \<lparr>t_links := h, t_socks := (t_socks r3)(j \<mapsto> (armed l2) \<lparr>ref_cnt := ref_cnt l2 + 1\<rparr>)\<rparr>)"
    "links_keep timer_nodes r3 (r3 \<lparr>t_links := h\<rparr>)" "timers_linked (r3 \<lparr>t_links := h\<rparr>)" "timer_at j (r3 \<lparr>t_links := h\<rparr>)"
    "dlist (t_links r3) Retrans_List [] \<longrightarrow> dlist h Retrans_List [Retrans j]" by blast
  define l4 where "l4 = (armed l2) \<lparr>ref_cnt := ref_cnt l2 + 1\<rparr>"
  define r4 where "r4 = r3 \<lparr>t_links := h, t_socks := (t_socks r3)(j \<mapsto> l4)\<rparr>"
  have k4: "links_keep timer_nodes r3 r4" using h(2) by (simp add: r4_def links_keep_def)
  have b4: "buffered ps r4"
    by (rule buffered_keep [OF b3 k4]) (auto simp: timer_nodes_def buffer_nodes_def r4_def)
  have l4: "t_socks r4 j = Some l4" by (simp add: r4_def)
  have rt: "t_router r4 = t_router r" using o(2) by (simp add: r4_def r3_def ofo_frame_def)
  have v4: "reachable_via (sk_dip l4) e mac (t_router r4)" using v by (simp add: l4_def l2_def rt)
  have "length get_message \<le> 65495" by (simp add: get_message_def)
  from data_sent [OF b4 l4 this v4] obtain r5 p q where g:
    "tcp_send_data j get_message r4 = Some r5" "buffered (ps @ [p]) r5" "length q = 54 + length get_message"
    "drop 54 q = get_message"
    "t_socks r5 = (t_socks r4)(j \<mapsto> armed (l4 \<lparr>snd_nxt := snd_nxt l4 + of_nat (length get_message)\<rparr>))"
    "t_ofos r5 = t_ofos r4" "t_nofos r5 = t_nofos r4" "t_exited r5 = t_exited r4"
    "\<forall>x. x \<noteq> Trans_Buf \<and> x \<notin> range Block \<longrightarrow>
      lnext (t_links r5) x = lnext (t_links r4) x \<and> lprev (t_links r5) x = lprev (t_links r4) x"
    "r_out (t_router r5) = r_out (t_router r4) @ [(rt_iface e, q)]" "r_ifaces (t_router r5) = r_ifaces (t_router r4)"
    "r_rtable (t_router r5) = r_rtable (t_router r4)" "r_entries (t_router r5) = r_entries (t_router r4)"
    "\<forall>f. length f = length q \<and> drop 14 f = drop 14 q \<longrightarrow>
      carries f (segment_cb (sk_sip l4) (sk_dip l4) (sk_sport l4) (sk_dport l4) (snd_nxt l4) (rcv_nxt l4)
        (TCP_PSH OR TCP_ACK) (rcv_wnd l4) get_message)"
    "t_sleeps r5 = t_sleeps r4"
    by (elim exE conjE) (rule that)
  define l5 where "l5 = armed (l4 \<lparr>snd_nxt := snd_nxt l4 + of_nat (length get_message)\<rparr>)"
  have k5: "links_keep buffer_nodes r4 r5" using g(9) by (simp add: links_keep_def buffer_nodes_def)
  have k: "links_keep (ofo_list_nodes j \<union> timer_nodes \<union> buffer_nodes) r r5"
    by (rule links_keep_trans [OF links_keep_trans [OF k3 k4] k5])
  have k45: "links_keep (timer_nodes \<union> buffer_nodes) r3 r5" by (rule links_keep_trans [OF k4 k5])
  have ends: "same_ends l l5" by (simp add: same_ends_def l5_def l4_def l2_def)
  have "hashed j l5 r5"
    using o(2) by (intro hashed_keep [OF s(4) k _ ends])
      (auto simp: node_sets ofo_list_nodes_def g(5) r4_def r3_def ofo_frame_def l5_def)
  moreover have "ofo_holds j [] r5"
    unfolding ofo_empty
    by (rule dlist_keep [OF k45]) (use o(1) in \<open>auto simp: ofo_empty r3_def node_sets\<close>)
  moreover have "timers_linked r5" "timer_at j r5"
    using h(3,4) k5 by (simp_all add: timers_linked_def timer_at_def links_keep_def buffer_nodes_def image_iff r4_def)
  moreover have f5: "sk_state l5 = TCP_ESTABLISHED" "1 < ref_cnt l5" "rcv_buf l5 = rb" "t_socks r5 j = Some l5"
    "rcv_nxt l5 = rcv_nxt l + of_nat (length d)" "snd_nxt l5 = snd_nxt l + 8" "rcv_wnd l5 = rcv_wnd l"
    "sw_dead (sk_wait l5 Wait_Recv) = sw_dead (sk_wait l Wait_Recv)"
    using s(2,3) o(7) by (simp_all add: l5_def l4_def l2_def g(5) get_message_def armed_def)
  ultimately have rec: "receiving j l5 (ps @ [p]) r5" "timer_at j r5"
    using g(2) o(4,5) by (simp_all add: receiving_def)
  have look: "tcp_sock_lookup ?cb r = Some (Some j)"
    by (rule hashed_lookup [OF s(4,1)]) (simp_all add: segment_cb_def)
  have "string_equal d get_message = Some False" using d(1) by (simp add: proper_def)
  then have "tcp_process env (Some j) ?cb f r = tcp_recv_data env j ?cb f r"
    using proper_nonempty [OF d(1)] process_data [OF s(1,2) cb(5), of env f] by (simp add: cb(2,3))
  also have "\<dots> = Some r5"
  proof -
    have una: "upd_sock j (\<lambda>k. k \<lparr>snd_una := (if greater_than_32b (cb_ack ?cb) (snd_una k) then cb_ack ?cb else snd_una k)\<rparr>)
        r2 = Some r3"
      by (simp add: upd_sock_def o(3) r3_def l2_def cb(4))
    have arm: "tcp_set_retrans_timewait_timer j r3 = Some r4" using h(1) by (simp add: r4_def l4_def)
    show ?thesis
      using una by (simp add: tcp_recv_data_def cb(1,4) less_than_32b_def s(1) e1 e2 arm g(1))
  qed
  finally have run: "handle_tcp_packet env f r = Some r5"
    using f look handle_carried [of f ?cb env r] by (simp add: brings_def)
  have same: "brings g (segment_cb (sk_sip l) (sk_dip l) (sk_sport l) (sk_dport l) (snd_nxt l)
      (rcv_nxt l + of_nat (length d)) (TCP_PSH OR TCP_ACK) (rcv_wnd l) get_message)" if "same_packet g q" for g
  proof -
    have "drop 40 (drop 14 g) = drop 40 (drop 14 q)" using that by (simp only: same_packet_def)
    then have "drop 54 g = get_message" using g(4) by simp
    then show ?thesis using that g(3,14) by (simp add: brings_def same_packet_def l4_def l2_def segment_cb_def)
  qed
  have "dlist (t_links r5) Retrans_List [Retrans j]" if "dlist (t_links r) Retrans_List []"
  proof -
    have "dlist (t_links r3) Retrans_List []"
      by (rule dlist_keep [OF k3 that]) (simp add: ofo_list_nodes_def image_iff)
    then have "dlist (t_links r4) Retrans_List [Retrans j]" using h(5) by (simp add: r4_def)
    then show ?thesis by (rule dlist_keep [OF k5]) (auto simp: buffer_nodes_def)
  qed
  moreover have "t_exited r5 = t_exited r" using o(2) g(8) by (simp add: r4_def r3_def ofo_frame_def)
  moreover have "ref_cnt l5 = ref_cnt l + 1" "t_sleeps r5 = t_sleeps r"
    using o(2) g(15) by (simp_all add: l5_def l4_def l2_def armed_def r4_def r3_def ofo_frame_def)
  moreover have "sk_parent l5 = sk_parent l" "tm_timeout (retrans_timer l5) = DEFAULT_RETRANS_TIME"
    "tm_retrans_times (retrans_timer l5) = 0"
    by (simp_all add: l5_def l4_def l2_def) (simp_all add: armed_def)
  ultimately show ?thesis
    using run rec f5 o(6) ends same g(10-13) v rt reachable_cong [of "t_router r5" "t_router r4" "sk_dip l" e mac]
    by (intro exI [of _ r5] exI [of _ l5] exI [of _ p] exI [of _ q]) simp
qed

end
