(* ===== verification/TcpStream.thy ===== *)
theory TcpStream imports TcpTransfer begin

text \<open>A whole call of \<open>tcp_sock_write\<close> with the other end: the segments it sends without waiting, what
  the other end delivers and answers, and the return of the call on the answers.\<close>

section \<open>Sequences of segments\<close>

text \<open>The payloads of the segments a text is cut into.\<close>

function segs :: "bytes \<Rightarrow> bytes list" where
  "segs buf = (if buf = [] then [] else take NORMAL_TCP_DATA_LEN buf # segs (drop NORMAL_TCP_DATA_LEN buf))"
  by pat_completeness auto
termination segs
  by (relation "measure length") (auto simp: NORMAL_TCP_DATA_LEN_def)

declare segs.simps [simp del]

lemma segs_Nil [simp]: "segs [] = []"
  by (simp add: segs.simps)

lemma segs_more: "buf \<noteq> [] \<Longrightarrow> segs buf = take NORMAL_TCP_DATA_LEN buf # segs (drop NORMAL_TCP_DATA_LEN buf)"
  by (simp add: segs.simps)

lemma concat_segs [simp]: "concat (segs buf) = buf"
  by (induction buf rule: segs.induct) (subst segs.simps, simp)

text \<open>Frames that bring consecutive pieces, and the answers to them.\<close>

fun stream :: "tcp_sock \<Rightarrow> u32 \<Rightarrow> bytes list \<Rightarrow> bytes list \<Rightarrow> bool" where
  "stream k sq (d # ds) (q # qs) \<longleftrightarrow> (\<forall>g. same_packet g q \<longrightarrow> brings g (segment_cb (sk_sip k) (sk_dip k)
       (sk_sport k) (sk_dport k) sq (rcv_nxt k) (TCP_PSH OR TCP_ACK) (rcv_wnd k) d)) \<and>
     stream k (sq + of_nat (length d)) ds qs"
| "stream k sq [] [] \<longleftrightarrow> True"
| "stream k sq _ _ \<longleftrightarrow> False"

fun answers :: "tcp_sock \<Rightarrow> u32 \<Rightarrow> u32 \<Rightarrow> bytes list \<Rightarrow> bytes list \<Rightarrow> bool" where
  "answers l sq ak (d # ds) (q # qs) \<longleftrightarrow> (\<forall>g. same_packet g q \<longrightarrow> brings g (segment_cb (sk_sip l) (sk_dip l)
       (sk_sport l) (sk_dport l) sq (ak + of_nat (length d)) (TCP_PSH OR TCP_ACK) (rcv_wnd l) get_message)) \<and>
     answers l (sq + 8) (ak + of_nat (length d)) ds qs"
| "answers l sq ak [] [] \<longleftrightarrow> True"
| "answers l sq ak _ _ \<longleftrightarrow> False"

lemma stream_cong:
  "same_ends k k' \<Longrightarrow> rcv_nxt k' = rcv_nxt k \<Longrightarrow> rcv_wnd k' = rcv_wnd k \<Longrightarrow> stream k' sq ds qs = stream k sq ds qs"
  by (induction k sq ds qs rule: stream.induct) (simp_all add: same_ends_def)

lemma answers_cong:
  "same_ends l l' \<Longrightarrow> rcv_wnd l' = rcv_wnd l \<Longrightarrow> answers l' sq ak ds qs = answers l sq ak ds qs"
  by (induction l sq ak ds qs rule: answers.induct) (simp_all add: same_ends_def)

lemma stream_length: "stream k sq ds qs \<Longrightarrow> length qs = length ds"
  by (induction k sq ds qs rule: stream.induct) simp_all

lemma answers_length: "answers l sq ak ds qs \<Longrightarrow> length qs = length ds"
  by (induction l sq ak ds qs rule: answers.induct) simp_all

text \<open>The packets that arrive one after another.\<close>

fun feed :: "(nat \<Rightarrow> stack \<Rightarrow> stack) \<Rightarrow> bytes list \<Rightarrow> stack \<Rightarrow> stack option" where
  "feed env [] s = Some s"
| "feed env (f # fs) s = Option.bind (handle_tcp_packet env f s) (feed env fs)"

section \<open>The receiving end\<close>

lemma stream_received:
  assumes "receiving j l ps r" "stream k (rcv_nxt l) ds qs" "list_all2 same_packet gs qs"
    and "sk_sip k = sk_dip l" "sk_dip k = sk_sip l" "sk_sport k = sk_dport l" "sk_dport k = sk_sport l"
    and "\<forall>d \<in> set ds. proper d" "int (length (concat ds)) \<le> ring_buffer_free (rcv_buf l)"
    and "reachable_via (sk_dip l) e mac (t_router r)"
  shows "\<exists>r' l' ps' as. feed env gs r = Some r' \<and> receiving j l' (ps @ ps') r' \<and> length ps' = length ds \<and> (ds \<noteq> [] \<longrightarrow> timer_at j r' \<and> 1 < ref_cnt l') \<and>
    rb_contents (rcv_buf l') = rb_contents (rcv_buf l) @ concat ds \<and>
    rcv_nxt l' = rcv_nxt l + of_nat (length (concat ds)) \<and> same_ends l l' \<and> rcv_wnd l' = rcv_wnd l \<and>
    sw_dead (sk_wait l' Wait_Recv) = sw_dead (sk_wait l Wait_Recv) \<and>
    r_out (t_router r') = r_out (t_router r) @ map (Pair (rt_iface e)) as \<and>
    answers l (snd_nxt l) (rcv_nxt l) ds as"
  using assms
proof (induction ds arbitrary: l ps r qs gs)
  case Nil
  then have "gs = []" by (cases qs) auto
  then show ?case
    using Nil.prems(1) by (intro exI [of _ r] exI [of _ l] exI [of _ "[]"] exI [of _ "[]"]) (simp add: same_ends_def)
next
  case (Cons d ds)
  from Cons.prems(2) obtain q qs1 where q: "qs = q # qs1" by (cases qs) auto
  with Cons.prems(3) obtain g gs1 where g: "gs = g # gs1" "same_packet g q" "list_all2 same_packet gs1 qs1"
    by (auto simp: list_all2_Cons2)
  have st: "brings g (segment_cb (sk_dip l) (sk_sip l) (sk_dport l) (sk_sport l) (rcv_nxt l) (rcv_nxt k)
      (TCP_PSH OR TCP_ACK) (rcv_wnd k) d)" "stream k (rcv_nxt l + of_nat (length d)) ds qs1"
    using Cons.prems(2,4-7) g(2) by (simp_all add: q)
  have free: "int (length d) \<le> ring_buffer_free (rcv_buf l)" "proper d" using Cons.prems(8,9) by simp_all
  from segment_received [OF Cons.prems(1) st(1) free(2,1) Cons.prems(10), of env] obtain r1 l1 p a where
    h: "handle_tcp_packet env g r = Some r1" "receiving j l1 (ps @ [p]) r1" "timer_at j r1" "1 < ref_cnt l1"
    "rb_contents (rcv_buf l1) = rb_contents (rcv_buf l) @ d" "rcv_nxt l1 = rcv_nxt l + of_nat (length d)"
    "snd_nxt l1 = snd_nxt l + 8" "same_ends l l1" "rcv_wnd l1 = rcv_wnd l"
    "sw_dead (sk_wait l1 Wait_Recv) = sw_dead (sk_wait l Wait_Recv)"
    "r_out (t_router r1) = r_out (t_router r) @ [(rt_iface e, a)]" "reachable_via (sk_dip l) e mac (t_router r1)"
    "\<forall>g. same_packet g a \<longrightarrow> brings g (segment_cb (sk_sip l) (sk_dip l) (sk_sport l) (sk_dport l) (snd_nxt l)
      (rcv_nxt l + of_nat (length d)) (TCP_PSH OR TCP_ACK) (rcv_wnd l) get_message)"
    by (elim exE conjE) (rule that)
  have ends: "sk_sip l1 = sk_sip l" "sk_dip l1 = sk_dip l" "sk_sport l1 = sk_sport l" "sk_dport l1 = sk_dport l"
    using h(8) by (simp_all add: same_ends_def)
  have "rb_size (rcv_buf l) = 65535" "rb_size (rcv_buf l1) = 65535"
    using Cons.prems(1) h(2) by (simp_all add: receiving_def)
  moreover have "ring_buffer_used (rcv_buf l1) = ring_buffer_used (rcv_buf l) + length d"
    using arg_cong [OF h(5), of length] by (simp add: rb_contents_def)
  ultimately have "ring_buffer_free (rcv_buf l1) = ring_buffer_free (rcv_buf l) - int (length d)"
    by (simp add: ring_buffer_free_def)
  then have free': "int (length (concat ds)) \<le> ring_buffer_free (rcv_buf l1)" using Cons.prems(9) by simp
  obtain r' l' ps' as where
    t: "feed env gs1 r1 = Some r'" "receiving j l' ((ps @ [p]) @ ps') r'" "length ps' = length ds" "ds \<noteq> [] \<longrightarrow> timer_at j r' \<and> 1 < ref_cnt l'"
    "rb_contents (rcv_buf l') = rb_contents (rcv_buf l1) @ concat ds"
    "rcv_nxt l' = rcv_nxt l1 + of_nat (length (concat ds))" "same_ends l1 l'" "rcv_wnd l' = rcv_wnd l1"
    "sw_dead (sk_wait l' Wait_Recv) = sw_dead (sk_wait l1 Wait_Recv)"
    "r_out (t_router r') = r_out (t_router r1) @ map (Pair (rt_iface e)) as"
    "answers l1 (snd_nxt l1) (rcv_nxt l1) ds as"
    using Cons.IH [of l1 "ps @ [p]" r1 qs1 gs1, OF h(2) st(2) [folded h(6)] g(3)] Cons.prems(4-8) h(12) free'
    unfolding ends by (metis list.set_intros(2))
  have "ds = [] \<Longrightarrow> r' = r1 \<and> l' = l1"
    using t(1) st(2) g(3) h(2) t(2) by (cases qs1) (auto simp: receiving_def)
  then have "timer_at j r' \<and> 1 < ref_cnt l'" using t(4) h(3,4) by blast
  moreover have "answers l (snd_nxt l) (rcv_nxt l) (d # ds) (a # as)"
    using t(11) h(13) by (simp add: answers_cong [OF h(8,9)] h(6,7))
  ultimately show ?case
    using t h(1,5,6,8-11)
    by (intro exI [of _ r'] exI [of _ l'] exI [of _ "p # ps'"] exI [of _ "a # as"])
      (simp add: g(1) same_ends_def)
qed

section \<open>The sending end\<close>

text \<open>The established socket \<open>i\<close> in a call of \<open>tcp_sock_write\<close>.\<close>

definition writing :: "nat \<Rightarrow> tcp_sock \<Rightarrow> bytes list \<Rightarrow> nat list \<Rightarrow> stack \<Rightarrow> bool" where
  "writing i k ps rs s \<longleftrightarrow> t_socks s i = Some k \<and> sk_state k = TCP_ESTABLISHED \<and> hashed i k s \<and> tables ps rs s"

text \<open>A socket with the same ends, receiving side, references and waiting structures.\<close>

definition sent_on :: "tcp_sock \<Rightarrow> tcp_sock \<Rightarrow> bool" where
  "sent_on k k' \<longleftrightarrow> same_ends k k' \<and> rcv_nxt k' = rcv_nxt k \<and> rcv_wnd k' = rcv_wnd k \<and> snd_wnd k' = snd_wnd k \<and>
     ref_cnt k' = ref_cnt k \<and> sk_wait k' = sk_wait k"

text \<open>The kept packets of pieces that begin at \<open>sq\<close>.\<close>

fun kept :: "u32 \<Rightarrow> bytes list \<Rightarrow> bytes list \<Rightarrow> bool" where
  "kept sq (d # ds) (p # ps) \<longleftrightarrow> ntohl (th_seq p TCP_AT) = sq \<and> length p = 54 + length d \<and>
     kept (sq + of_nat (length d)) ds ps"
| "kept sq [] [] \<longleftrightarrow> True"
| "kept sq _ _ \<longleftrightarrow> False"

lemma kept_size: "kept sq ds ps \<Longrightarrow> payload_size ps = int (length (concat ds))"
  by (induction sq ds ps rule: kept.induct) (simp_all add: payload_size_def hdr_sizes)

lemma segment_goes:
  assumes w: "writing i k ps rs s" and n: "length d \<le> 65495" and r: "reachable_via (sk_dip k) e mac (t_router s)"
  shows "\<exists>s' k' p q. tcp_send_data i d s = Some s' \<and> writing i k' (ps @ [p]) rs s' \<and> sent_on k k' \<and>
    snd_nxt k' = snd_nxt k + of_nat (length d) \<and> kept (snd_nxt k) [d] [p] \<and> stream k (snd_nxt k) [d] [q] \<and>
    t_sleeps s' = t_sleeps s \<and> r_out (t_router s') = r_out (t_router s) @ [(rt_iface e, q)] \<and>
    reachable_via (sk_dip k) e mac (t_router s')"
proof -
  from w have s: "t_socks s i = Some k" "hashed i k s" "tables ps rs s" "buffered ps s" by (simp_all add: writing_def tables_def)
  from data_sent [OF s(4,1) n r] obtain s' p q where g:
    "tcp_send_data i d s = Some s'" "buffered (ps @ [p]) s'" "length p = 54 + length d"
    "ntohl (th_seq p TCP_AT) = snd_nxt k" "length q = 54 + length d" "drop 54 q = d"
    "t_socks s' = (t_socks s)(i \<mapsto> armed (k \<lparr>snd_nxt := snd_nxt k + of_nat (length d)\<rparr>))"
    "t_sleeps s' = t_sleeps s" "t_exited s' = t_exited s"
    "\<forall>x. x \<noteq> Trans_Buf \<and> x \<notin> range Block \<longrightarrow>
      lnext (t_links s') x = lnext (t_links s) x \<and> lprev (t_links s') x = lprev (t_links s) x"
    "r_out (t_router s') = r_out (t_router s) @ [(rt_iface e, q)]" "r_ifaces (t_router s') = r_ifaces (t_router s)"
    "r_rtable (t_router s') = r_rtable (t_router s)" "r_entries (t_router s') = r_entries (t_router s)"
    "\<forall>f. length f = length q \<and> drop 14 f = drop 14 q \<longrightarrow>
      carries f (segment_cb (sk_sip k) (sk_dip k) (sk_sport k) (sk_dport k) (snd_nxt k) (rcv_nxt k)
        (TCP_PSH OR TCP_ACK) (rcv_wnd k) d)"
    by (elim exE conjE) (rule that)
  define k' where "k' = armed (k \<lparr>snd_nxt := snd_nxt k + of_nat (length d)\<rparr>)"
  have keep: "links_keep buffer_nodes s s'" using g(10) by (simp add: links_keep_def buffer_nodes_def)
  have "dlist (t_links s') Retrans_List (map Retrans rs)"
    using s(3) by (intro dlist_keep [OF keep]) (auto simp: tables_def buffer_nodes_def)
  then have t: "tables (ps @ [p]) rs s'" using g(2) by (simp add: tables_def)
  have on: "sent_on k k'" by (simp add: sent_on_def k'_def same_ends_def) (simp add: armed_def)
  have "hashed i k' s'"
    using on by (intro hashed_keep [OF s(2) keep]) (auto simp: node_sets sent_on_def g(7) k'_def)
  then have "writing i k' (ps @ [p]) rs s'" using w t by (simp add: writing_def g(7) k'_def)
  moreover have "stream k (snd_nxt k) [d] [q]"
  proof -
    have "brings f (segment_cb (sk_sip k) (sk_dip k) (sk_sport k) (sk_dport k) (snd_nxt k) (rcv_nxt k)
        (TCP_PSH OR TCP_ACK) (rcv_wnd k) d)" if "same_packet f q" for f
    proof -
      have "drop 40 (drop 14 f) = drop 40 (drop 14 q)" using that by (simp only: same_packet_def)
      then show ?thesis using that g(5,6,15) by (simp add: brings_def same_packet_def segment_cb_def)
    qed
    then show ?thesis by simp
  qed
  moreover have "reachable_via (sk_dip k) e mac (t_router s')"
    using r g(12-14) reachable_cong [of "t_router s'" "t_router s" "sk_dip k" e mac] by simp
  ultimately show ?thesis
    using g(1,3,4,8,11) on by (intro exI [of _ s'] exI [of _ k'] exI [of _ p] exI [of _ q]) (simp add: k'_def)
qed

lemma sent_on_trans: "sent_on k k' \<Longrightarrow> sent_on k' k'' \<Longrightarrow> sent_on k k''"
  by (simp add: sent_on_def same_ends_def)

lemma text_goes:
  assumes "writing i k ps rs s" "reachable_via (sk_dip k) e mac (t_router s)"
    and "payload_size ps + int (length buf) \<le> int (unat (snd_wnd k))"
  shows "\<exists>s' k' qs fs. (\<forall>env. write_loop env i buf s = Some (0, s')) \<and> writing i k' (ps @ qs) rs s' \<and> sent_on k k' \<and>
    snd_nxt k' = snd_nxt k + of_nat (length buf) \<and> kept (snd_nxt k) (segs buf) qs \<and> stream k (snd_nxt k) (segs buf) fs \<and>
    t_sleeps s' = t_sleeps s \<and> r_out (t_router s') = r_out (t_router s) @ map (Pair (rt_iface e)) fs"
  using assms
proof (induction buf arbitrary: s k ps rule: segs.induct)
  case (1 buf)
  show ?case
  proof (cases "buf = []")
    case True
    have "write_loop env i [] s = Some (0, s)" for env by (subst write_loop.simps) simp
    then show ?thesis
      using "1.prems"(1) by (intro exI [of _ s] exI [of _ k] exI [of _ "[]"]) (simp add: True sent_on_def same_ends_def)
  next
    case False
    let ?d = "take NORMAL_TCP_DATA_LEN buf" let ?b = "drop NORMAL_TCP_DATA_LEN buf"
    have ld: "length ?d \<le> 65495" "int (length ?d) + int (length ?b) = int (length buf)"
      by (simp_all add: NORMAL_TCP_DATA_LEN_def)
    from segment_goes [OF "1.prems"(1) ld(1) "1.prems"(2)] obtain s1 k1 p q where
      h: "tcp_send_data i ?d s = Some s1" "writing i k1 (ps @ [p]) rs s1" "sent_on k k1"
      "snd_nxt k1 = snd_nxt k + of_nat (length ?d)" "kept (snd_nxt k) [?d] [p]" "stream k (snd_nxt k) [?d] [q]"
      "t_sleeps s1 = t_sleeps s" "r_out (t_router s1) = r_out (t_router s) @ [(rt_iface e, q)]"
      "reachable_via (sk_dip k) e mac (t_router s1)" by blast
    have k1: "sk_dip k1 = sk_dip k" "snd_wnd k1 = snd_wnd k" "rcv_nxt k1 = rcv_nxt k" "rcv_wnd k1 = rcv_wnd k" "same_ends k k1"
      using h(3) by (simp_all add: sent_on_def same_ends_def)
    have "payload_size (ps @ [p]) + int (length ?b) \<le> int (unat (snd_wnd k1))"
      using "1.prems"(3) ld(2) kept_size [OF h(5)] by (simp add: k1(2))
    from "1.IH" [OF False h(2) h(9) [folded k1(1)] this] obtain s' k' qs fs where
      t: "\<And>env. write_loop env i ?b s1 = Some (0, s')" "writing i k' ((ps @ [p]) @ qs) rs s'" "sent_on k1 k'"
      "snd_nxt k' = snd_nxt k1 + of_nat (length ?b)" "kept (snd_nxt k1) (segs ?b) qs"
      "stream k1 (snd_nxt k1) (segs ?b) fs" "t_sleeps s' = t_sleeps s1"
      "r_out (t_router s') = r_out (t_router s1) @ map (Pair (rt_iface e)) fs" by blast
    have "wait_window env i (int (length ?d)) s = Some (0, s)" for env
      using "1.prems" ld(2) by (subst wait_window.simps) (simp add: writing_def tables_def buffered_def)
    then have "write_loop env i buf s = Some (0, s')" for env
      using False h(1) t(1) by (subst write_loop.simps) (simp add: Let_def)
    moreover have "of_nat (length ?d) + of_nat (length ?b) = (of_nat (length buf) :: u32)"
      using ld(2) unfolding of_nat_add [symmetric] by (metis of_nat_eq_iff)
    then have "snd_nxt k' = snd_nxt k + of_nat (length buf)" using t(4) h(4) by (simp add: add.assoc)
    moreover have "kept (snd_nxt k) (segs buf) (p # qs)" "stream k (snd_nxt k) (segs buf) (q # fs)"
      using h(4,5,6) t(5,6) stream_cong [OF k1(5,3,4)] by (simp_all add: segs_more [OF False])
    ultimately show ?thesis
      using t(2,7,8) h(7,8) sent_on_trans [OF h(3) t(3)]
      by (intro exI [of _ s'] exI [of _ k'] exI [of _ "p # qs"] exI [of _ "q # fs"]) simp
  qed
qed

section \<open>The answers\<close>

text \<open>A socket after an answer with the acknowledgement number \<open>ak\<close>.\<close>

definition answered :: "u32 \<Rightarrow> tcp_sock \<Rightarrow> tcp_sock \<Rightarrow> bool" where
  "answered ak k k' \<longleftrightarrow> same_ends k k' \<and> snd_nxt k' = snd_nxt k \<and> ref_cnt k' = ref_cnt k \<and> snd_una k' = ak \<and>
     (\<not> sw_dead (sk_wait k Wait_Send) \<longrightarrow> sw_notified (sk_wait k' Wait_Send) \<and> \<not> sw_dead (sk_wait k' Wait_Send))"

lemma answer_taken:
  assumes w: "writing i k ps rs s"
    and f: "brings f (segment_cb (sk_dip k) (sk_sip k) (sk_dport k) (sk_sport k) sq ak (TCP_PSH OR TCP_ACK) wn get_message)"
  shows "\<exists>s' k'. handle_tcp_packet env f s = Some s' \<and> writing i k' (filter (\<lambda>p. \<not> acked ak p) ps) rs s' \<and>
    answered ak k k' \<and> t_router s' = t_router s \<and> t_sleeps s' = t_sleeps s"
proof -
  let ?cb = "segment_cb (sk_dip k) (sk_sip k) (sk_dport k) (sk_sport k) sq ak (TCP_PSH OR TCP_ACK) wn get_message"
  from w have s: "t_socks s i = Some k" "sk_state k = TCP_ESTABLISHED" "hashed i k s" "tables ps rs s"
    by (simp_all add: writing_def)
  have cb: "cb_seq ?cb = sq" "cb_ack ?cb = ak" "cb_payload ?cb = get_message" "cb_pl_len ?cb \<noteq> 0"
    "cb_flags ?cb = TCP_PSH OR TCP_ACK"
    by (simp_all add: segment_cb_def get_message_def)
  have look: "tcp_sock_lookup ?cb s = Some (Some i)"
    by (rule hashed_lookup [OF s(3,1)]) (simp_all add: segment_cb_def)
  have "string_equal get_message get_message = Some True" by (simp add: get_message_def)
  then have proc: "tcp_process env (Some i) ?cb f s = process_ack i ?cb s"
    using process_data [OF s(1,2) cb(5,4), of env f] by (simp add: cb(3))
  define k1 where "k1 = k \<lparr>snd_una := ak, rcv_nxt := sq + 1\<rparr>"
  define wake :: "synch_wait \<Rightarrow> synch_wait" where "wake = (\<lambda>x. if sw_dead x then x else if \<not> sw_notified x then x \<lparr>sw_notified := True\<rparr> else x)"
  define k2 where "k2 = (if less_or_equal_32b ak ak \<and> less_or_equal_32b ak (snd_nxt k)
    then (if snd_wnd k = 0 then upd_wait Wait_Send wake (k1 \<lparr>snd_wnd := ucast (cb_rwnd ?cb)\<rparr>) else k1 \<lparr>snd_wnd := ucast (cb_rwnd ?cb)\<rparr>) else k1)"
  define s1 where "s1 = s \<lparr>t_socks := (t_socks s)(i \<mapsto> k1)\<rparr>"
  define s2 where "s2 = s \<lparr>t_socks := (t_socks s)(i \<mapsto> k2)\<rparr>"
  have u1: "upd_sock i (\<lambda>k. k \<lparr>snd_una := cb_ack ?cb, rcv_nxt := cb_seq ?cb + 1\<rparr>) s = Some s1"
    by (simp add: upd_sock_def s(1) s1_def k1_def cb)
  have u2: "tcp_update_window_safe i ?cb s1 = Some s2"
    by (simp add: tcp_update_window_safe_def tcp_update_window_def wake_up_def upd_sock_def s1_def s2_def k2_def k1_def cb wake_def)
  have "tables ps rs s2" using s(4) by (simp add: s2_def)
  from tables_ack [OF this, of ak] obtain s3 where s3: "buf_ack ak s2 = Some s3"
    "tables (filter (\<lambda>p. \<not> acked ak p) ps) rs s3" "buf_frame s2 s3" "links_keep buffer_nodes s2 s3" by blast
  have so: "t_socks s3 = (t_socks s)(i \<mapsto> k2)" "t_router s3 = t_router s" "t_sleeps s3 = t_sleeps s"
    using s3(3) by (simp_all add: buf_frame_def s2_def)
  define k4 where "k4 = upd_wait Wait_Send wake (armed k2)"
  define s4 where "s4 = s3 \<lparr>t_socks := (t_socks s)(i \<mapsto> k4)\<rparr>"
  have "process_ack i ?cb s = Some s4"
    using u1 u2 s3(1)
    by (simp add: process_ack_def cb tcp_update_retrans_timewait_timer_def upd_sock_def so wake_up_def s4_def k4_def
        wake_def armed_def)
  then have run: "handle_tcp_packet env f s = Some s4"
    using f look proc handle_carried [of f ?cb env s] by (simp add: brings_def)
  have k2: "same_ends k k2" "snd_nxt k2 = snd_nxt k" "ref_cnt k2 = ref_cnt k" "snd_una k2 = ak" "sk_state k2 = sk_state k"
    "sw_dead (sk_wait k2 Wait_Send) = sw_dead (sk_wait k Wait_Send)"
    by (simp_all add: k2_def k1_def same_ends_def upd_wait_def wake_def)
  have ends: "same_ends k k4" using k2(1) by (simp add: k4_def same_ends_def upd_wait_def)
  have "hashed i k4 s4"
    using s3(4) ends
    by (intro hashed_keep [OF s(3), of buffer_nodes]) (auto simp: node_sets s4_def s2_def)
  then have "writing i k4 (filter (\<lambda>p. \<not> acked ak p) ps) rs s4"
    using s3(2) s(2) k2(5) by (simp add: writing_def s4_def) (simp add: k4_def upd_wait_def)
  moreover have "answered ak k k4"
    using k2 ends by (simp add: answered_def k4_def) (simp add: upd_wait_def wake_def)
  ultimately show ?thesis using run so by (intro exI [of _ s4] exI [of _ k4]) (simp add: s4_def)
qed

lemma answers_taken:
  assumes "writing i k ps rs s" "answers l sq ak ds qs" "list_all2 same_packet fs qs" "ds \<noteq> []"
    and "sk_sip l = sk_dip k" "sk_dip l = sk_sip k" "sk_sport l = sk_dport k" "sk_dport l = sk_sport k"
  shows "\<exists>s' k' ps'. feed env fs s = Some s' \<and> writing i k' ps' rs s' \<and>
    set ps' \<subseteq> {p \<in> set ps. \<not> acked (ak + of_nat (length (concat ds))) p} \<and>
    answered (ak + of_nat (length (concat ds))) k k' \<and> t_router s' = t_router s \<and> t_sleeps s' = t_sleeps s"
  using assms
proof (induction ds arbitrary: k ps s sq ak qs fs)
  case (Cons d ds)
  from Cons.prems(2) obtain q qs1 where q: "qs = q # qs1" by (cases qs) auto
  with Cons.prems(3) obtain f fs1 where f: "fs = f # fs1" "same_packet f q" "list_all2 same_packet fs1 qs1"
    by (auto simp: list_all2_Cons2)
  let ?ak = "ak + of_nat (length d)"
  have b: "brings f (segment_cb (sk_dip k) (sk_sip k) (sk_dport k) (sk_sport k) sq ?ak
      (TCP_PSH OR TCP_ACK) (rcv_wnd l) get_message)" and a: "answers l (sq + 8) ?ak ds qs1"
    using Cons.prems(2,5-8) f(2) by (simp_all add: q)
  from answer_taken [OF Cons.prems(1) b] obtain s1 k1 where
    h: "handle_tcp_packet env f s = Some s1" "writing i k1 (filter (\<lambda>p. \<not> acked ?ak p) ps) rs s1" "answered ?ak k k1"
    "t_router s1 = t_router s" "t_sleeps s1 = t_sleeps s" by blast
  show ?case
  proof (cases "ds = []")
    case True
    then have "fs1 = []" using a f(3) by (cases qs1) auto
    then show ?thesis
      using h by (intro exI [of _ s1] exI [of _ k1] exI [of _ "filter (\<lambda>p. \<not> acked ?ak p) ps"]) (auto simp: f(1) True)
  next
    case False
    have ends: "sk_sip k1 = sk_sip k" "sk_dip k1 = sk_dip k" "sk_sport k1 = sk_sport k" "sk_dport k1 = sk_dport k"
      using h(3) by (simp_all add: answered_def same_ends_def)
    from Cons.IH [OF h(2) a f(3) False, unfolded ends, OF Cons.prems(5-8)] obtain s' k' ps' where
      t: "feed env fs1 s1 = Some s'" "writing i k' ps' rs s'"
      "set ps' \<subseteq> {p \<in> set (filter (\<lambda>p. \<not> acked ?ak p) ps). \<not> acked (?ak + of_nat (length (concat ds))) p}"
      "answered (?ak + of_nat (length (concat ds))) k1 k'" "t_router s' = t_router s1" "t_sleeps s' = t_sleeps s1" by blast
    have "answered (?ak + of_nat (length (concat ds))) k k'"
      using t(4) h(3) by (simp add: answered_def same_ends_def)
    then show ?thesis
      using t h by (intro exI [of _ s'] exI [of _ k'] exI [of _ ps']) (auto simp: f(1) add.assoc)
  qed
qed simp

section \<open>The call\<close>

lemma kept_offset:
  assumes "kept sq ds ps" "[] \<notin> set ds" "p \<in> set ps"
  shows "\<exists>n < length (concat ds). ntohl (th_seq p TCP_AT) = sq + of_nat n"
  using assms
proof (induction sq ds ps rule: kept.induct)
  case (1 sq d ds q ps)
  show ?case
  proof (cases "p \<in> set ps")
    case True
    with "1.IH" "1.prems" obtain n where "n < length (concat ds)" "ntohl (th_seq p TCP_AT) = sq + of_nat (length d) + of_nat n"
      by auto
    then show ?thesis by (intro exI [of _ "length d + n"]) (simp add: add.assoc)
  next
    case False
    then show ?thesis using "1.prems" by (intro exI [of _ 0]) auto
  qed
qed simp_all

lemma before_next: "n < m \<Longrightarrow> m \<le> 65535 \<Longrightarrow> less_than_32b (x + of_nat n) (x + of_nat m)"
proof -
  assume n: "n < m" "m \<le> 65535"
  have "x + of_nat n - (x + of_nat m) = (word_of_int (int n - int m) :: u32)"
    by simp
  moreover have "sint (word_of_int (int n - int m) :: u32) = int n - int m"
    by (subst sint_sbintrunc', rule signed_take_bit_int_eq_self) (use n in simp_all)
  ultimately show ?thesis using n by (simp add: less_than_32b_def)
qed

lemma kept_acked:
  assumes "kept sq ds ps" "[] \<notin> set ds" "length (concat ds) \<le> 65535" "p \<in> set ps"
  shows "acked (sq + of_nat (length (concat ds))) p"
  using kept_offset [OF assms(1,2,4)] before_next assms(3) by (auto simp: acked_def)

lemma writing_wait:
  assumes "writing i k ps rs s"
  shows "writing i (upd_wait w f k) ps rs (s \<lparr>t_socks := (t_socks s)(i \<mapsto> upd_wait w f k), t_sleeps := n\<rparr>)"
proof -
  let ?s = "s \<lparr>t_socks := (t_socks s)(i \<mapsto> upd_wait w f k), t_sleeps := n\<rparr>"
  have "hashed i (upd_wait w f k) ?s"
  proof (rule hashed_keep [of i k s "{}"])
    show "hashed i k s" using assms by (simp add: writing_def)
    show "same_ends k (upd_wait w f k)" by (simp add: same_ends_def upd_wait_def)
  qed (simp_all add: links_keep_def)
  then show ?thesis
    using assms by (simp add: writing_def tables_def buffered_def blocks_hold_def) (simp add: upd_wait_def)
qed

text \<open>When everything is acknowledged and the socket is woken, the call ends.\<close>

definition ends_call :: "nat \<Rightarrow> stack \<Rightarrow> (int \<times> stack) option" where
  "ends_call i s = do {
     s \<leftarrow> upd_sock i (upd_wait Wait_Send (\<lambda>x. x \<lparr>sw_notified := False, sw_sleep := False\<rparr>)) s;
     s \<leftarrow> tcp_stop_retrans_timewait_timer i s;
     Some (0, s)
   }"

lemma call_ends:
  assumes "writing i k [] [i] s" "1 < ref_cnt k"
  shows "\<exists>s' k'. ends_call i s = Some (0, s') \<and> writing i k' [] [] s' \<and> snd_nxt k' = snd_nxt k \<and> snd_una k' = snd_una k \<and>
    same_ends k k'"
proof -
  define k1 where "k1 = upd_wait Wait_Send (\<lambda>x. x \<lparr>sw_notified := False, sw_sleep := False\<rparr>) k"
  define s1 where "s1 = s \<lparr>t_socks := (t_socks s)(i \<mapsto> k1)\<rparr>"
  have w: "writing i k1 [] [i] s1" using writing_wait [OF assms(1), where n = "t_sleeps s"] by (simp add: k1_def s1_def)
  then have s1: "t_socks s1 i = Some k1" "tables [] ([] @ i # []) s1" "hashed i k1 s1" by (simp_all add: writing_def)
  have "1 < ref_cnt k1" using assms(2) by (simp add: k1_def upd_wait_def)
  from timer_stop [OF s1(2,1) this] obtain h where h: "tcp_stop_retrans_timewait_timer i s1 = Some (s1 \<lparr>t_links := h,
      t_socks := (t_socks s1)(i \<mapsto> k1 \<lparr>ref_cnt := ref_cnt k1 - 1\<rparr>)\<rparr>)"
    "tables [] ([] @ []) (s1 \<lparr>t_links := h\<rparr>)" "links_keep timer_nodes s1 (s1 \<lparr>t_links := h\<rparr>)" by blast
  let ?k = "k1 \<lparr>ref_cnt := ref_cnt k1 - 1\<rparr>" let ?s = "s1 \<lparr>t_links := h, t_socks := (t_socks s1)(i \<mapsto> ?k)\<rparr>"
  have "hashed i ?k ?s"
    using h(3) by (intro hashed_keep [OF s1(3), of timer_nodes]) (auto simp: node_sets links_keep_def same_ends_def)
  moreover have "tables [] [] ?s" using h(2) by (simp add: tables_def buffered_def blocks_hold_def)
  ultimately have "writing i ?k [] [] ?s" using w by (simp add: writing_def)
  moreover have "ends_call i s = Some (0, ?s)"
    using h(1) assms(1) by (simp add: ends_call_def upd_sock_def writing_def k1_def [symmetric] s1_def [symmetric])
  ultimately show ?thesis
    by (intro exI [of _ ?s] exI [of _ ?k]) (simp add: k1_def upd_wait_def same_ends_def)
qed

lemma write_sleeps:
  assumes w: "writing i k [] [] s" and r: "reachable_via (sk_dip k) e mac (t_router s)" "0 < ref_cnt k"
    and q: "\<not> sw_dead (sk_wait k Wait_Send)" "\<not> sw_notified (sk_wait k Wait_Send)"
    and b: "buf \<noteq> []" "int (length buf) \<le> int (unat (snd_wnd k))"
  shows "\<exists>s0 k0 n qs fs. writing i k0 qs [i] s0 \<and> same_ends k k0 \<and> 1 < ref_cnt k0 \<and> \<not> sw_dead (sk_wait k0 Wait_Send) \<and>
    snd_nxt k0 = snd_nxt k + of_nat (length buf) \<and> kept (snd_nxt k) (segs buf) qs \<and> stream k (snd_nxt k) (segs buf) fs \<and>
    r_out (t_router s0) = r_out (t_router s) @ map (Pair (rt_iface e)) fs \<and>
    (\<forall>env s1 k1. env n s0 = s1 \<longrightarrow> writing i k1 [] [i] s1 \<longrightarrow> \<not> sw_dead (sk_wait k1 Wait_Send) \<longrightarrow>
      tcp_sock_write env i buf s = ends_call i s1)"
proof -
  from w have s: "t_socks s i = Some k" "hashed i k s" "tables [] [] s" "sk_state k = TCP_ESTABLISHED" by (simp_all add: writing_def)
  from timer_set [OF s(3) _ s(1)] obtain h where
    h: "tcp_set_retrans_timewait_timer i s = Some (s \<lparr>t_links := h, t_socks := (t_socks s)(i \<mapsto> (armed k) \<lparr>ref_cnt := ref_cnt k + 1\<rparr>)\<rparr>)"
    "tables [] ([] @ [i]) (s \<lparr>t_links := h\<rparr>)" "links_keep timer_nodes s (s \<lparr>t_links := h\<rparr>)" by auto
  define ka where "ka = (armed k) \<lparr>ref_cnt := ref_cnt k + 1\<rparr>"
  define sa where "sa = s \<lparr>t_links := h, t_socks := (t_socks s)(i \<mapsto> ka)\<rparr>"
  have ka: "same_ends k ka" "rcv_nxt ka = rcv_nxt k" "rcv_wnd ka = rcv_wnd k" "snd_wnd ka = snd_wnd k" "snd_nxt ka = snd_nxt k"
    "ref_cnt ka = ref_cnt k + 1" "sk_wait ka = sk_wait k" "sk_state ka = sk_state k"
    by (simp_all add: ka_def same_ends_def) (simp_all add: armed_def)
  have "hashed i ka sa"
    using h(3) by (intro hashed_keep [OF s(2), of timer_nodes]) (auto simp: node_sets links_keep_def sa_def ka(1))
  moreover have "tables [] [i] sa" using h(2) by (simp add: sa_def tables_def buffered_def blocks_hold_def)
  ultimately have wa: "writing i ka [] [i] sa" using s(4) ka(8) by (simp add: writing_def sa_def)
  have ra: "reachable_via (sk_dip ka) e mac (t_router sa)" using r(1) ka(1) by (simp add: sa_def same_ends_def)
  have "payload_size [] + int (length buf) \<le> int (unat (snd_wnd ka))" using b(2) by (simp add: payload_size_def ka(4))
  from text_goes [OF wa ra this] obtain sb kb qs fs where
    g: "\<And>env. write_loop env i buf sa = Some (0, sb)" "writing i kb qs [i] sb" "sent_on ka kb"
    "snd_nxt kb = snd_nxt ka + of_nat (length buf)" "kept (snd_nxt ka) (segs buf) qs" "stream ka (snd_nxt ka) (segs buf) fs"
    "r_out (t_router sb) = r_out (t_router sa) @ map (Pair (rt_iface e)) fs"
    by (elim exE conjE) (rule that, simp_all)
  define k0 where "k0 = upd_wait Wait_Send (\<lambda>x. x \<lparr>sw_sleep := True\<rparr>) kb"
  define s0 where "s0 = sb \<lparr>t_socks := (t_socks sb)(i \<mapsto> k0), t_sleeps := t_sleeps sb + 1\<rparr>"
  have w0: "writing i k0 qs [i] s0" using writing_wait [OF g(2)] by (simp add: k0_def s0_def)
  have full: "0 < t_buf_size sb"
    using g(2) kept_size [OF g(5)] b(1) by (simp add: writing_def tables_def buffered_def)
  have kb: "t_socks sb i = Some kb" "\<not> sw_dead (sk_wait kb Wait_Send)" "\<not> sw_notified (sk_wait kb Wait_Send)"
    using g(2,3) q by (simp_all add: writing_def sent_on_def ka(7))
  have "tcp_sock_write env i buf s = ends_call i s1"
    if e: "env (t_sleeps sb) s0 = s1" "writing i k1 [] [i] s1" "\<not> sw_dead (sk_wait k1 Wait_Send)" for env s1 k1
  proof -
    define k2 where "k2 = upd_wait Wait_Send (\<lambda>x. x \<lparr>sw_notified := False, sw_sleep := False\<rparr>) k1"
    define s2 where "s2 = s1 \<lparr>t_socks := (t_socks s1)(i \<mapsto> k2)\<rparr>"
    have k1: "t_socks s1 i = Some k1" "t_buf_size s1 = 0"
      using e(2) by (simp_all add: writing_def tables_def buffered_def payload_size_def)
    have "env (t_sleeps sb) (sb \<lparr>t_socks := (t_socks sb)(i \<mapsto> k0), t_sleeps := Suc (t_sleeps sb)\<rparr>) = s1"
      using e(1) by (simp add: s0_def)
    then have "sleep_on env i Wait_Send sb = Some (0, s2)"
      using kb e(3) k1(1)
      by (simp add: sleep_on_def upd_sock_def k0_def [symmetric] Let_def) (simp add: s2_def k2_def upd_wait_def)
    moreover have "wait_acked env i s2 = Some (0, s2)" by (subst wait_acked.simps) (simp add: s2_def k1(2))
    ultimately have "wait_acked env i sb = Some (0, s2)" using full by (subst wait_acked.simps) simp
    then show ?thesis
      using h(1) g(1) k1(1)
      by (simp add: tcp_sock_write_def ka_def [symmetric] sa_def [symmetric] ends_call_def upd_sock_def
          k2_def [symmetric] s2_def [symmetric])
  qed
  moreover have "same_ends k k0" "1 < ref_cnt k0" "\<not> sw_dead (sk_wait k0 Wait_Send)" "snd_nxt k0 = snd_nxt kb"
    using ka(1,6) g(3) r(2) kb(2) by (simp_all add: k0_def same_ends_def sent_on_def upd_wait_def)
  ultimately show ?thesis
    using w0 g(4-7) ka stream_cong [OF ka(1-3)]
    by (intro exI [of _ s0] exI [of _ k0] exI [of _ "t_sleeps sb"] exI [of _ qs] exI [of _ fs]) (simp add: s0_def sa_def)
qed

lemma data_read:
  assumes r: "receiving j l ps r" "timer_at j r" "1 < ref_cnt l" and c: "rb_contents (rcv_buf l) \<noteq> []"
  shows "\<exists>r'. \<forall>env. tcp_sock_read env j n r =
    Some (min (int (length (rb_contents (rcv_buf l)))) n, take (nat n) (rb_contents (rcv_buf l)), r')"
proof -
  from r(1) have s: "t_socks r j = Some l" "rb_ok (rcv_buf l)" by (simp_all add: receiving_def)
  obtain out len q where g: "read_ring_buffer (rcv_buf l) n = (out, len, q)" using prod_cases3 by blast
  note ok = rb.get_ok [OF s(2) g]
  define l1 where "l1 = upd_wait Wait_Recv (\<lambda>x. if sw_dead x then x
    else if \<not> sw_notified x then x \<lparr>sw_notified := True\<rparr> else x) (l \<lparr>rcv_buf := q\<rparr>)"
  define r1 where "r1 = r \<lparr>t_socks := (t_socks r)(j \<mapsto> l1)\<rparr>"
  have "timer_at j r1" "t_socks r1 j = Some l1" "1 < ref_cnt l1"
    using r(2,3) by (simp_all add: timer_at_def r1_def l1_def upd_wait_def)
  from timer_stop_any [OF this] obtain r2 where r2: "tcp_stop_retrans_timewait_timer j r1 = Some r2" by blast
  have "\<not> ring_buffer_empty (rcv_buf l)" using c by (simp add: ring_buffer_empty_def rb_contents_def)
  then have "wait_data env j r = Some (0, r)" for env by (subst wait_data.simps) (simp add: s(1))
  then have "tcp_sock_read env j n r = Some (len, out, r2)" for env
    using r2 by (simp add: tcp_sock_read_def s(1) g upd_sock_def wake_up_def l1_def [symmetric] r1_def [symmetric])
  then show ?thesis using ok by (intro exI [of _ r2]) simp
qed

text \<open>Two sockets of one connection.\<close>

definition crossed :: "tcp_sock \<Rightarrow> tcp_sock \<Rightarrow> bool" where
  "crossed k l \<longleftrightarrow> sk_sip l = sk_dip k \<and> sk_dip l = sk_sip k \<and> sk_sport l = sk_dport k \<and> sk_dport l = sk_sport k"

lemma crossed_sym: "crossed k l \<Longrightarrow> crossed l k"
  by (simp add: crossed_def)

lemma crossed_ends: "crossed k l \<Longrightarrow> same_ends k k' \<Longrightarrow> same_ends l l' \<Longrightarrow> crossed k' l'"
  by (simp add: crossed_def same_ends_def)

text \<open>C3. A text written to an open connection arrives: \<open>tcp_sock_write\<close> of up to a window of bytes
  sends it in segments of 1024 bytes without waiting for an answer, and then waits. When the other
  end gets these frames in order, with whatever Ethernet headers, a read there returns what was
  unread and then exactly the text, and every segment is answered once; when the frames of the
  answers come back the call returns 0, with no packet left in the sender's buffer, its timer off
  and everything acknowledged, and nothing is sent in reply. The answers stay in the receiver's
  own buffer, because nothing acknowledges them. No segment is one that the receiver takes for the
  message \<open>666-get\<close>.\<close>

theorem stream_delivered:
  assumes w: "writing i k [] [] s" "0 < ref_cnt k" "\<not> sw_dead (sk_wait k Wait_Send)" "\<not> sw_notified (sk_wait k Wait_Send)"
    and r: "receiving j l ps r" "crossed k l" "rcv_nxt l = snd_nxt k"
    and p: "reachable_via (sk_dip k) e mac (t_router s)" "reachable_via (sk_dip l) e' mac' (t_router r)"
    and b: "buf \<noteq> []" "int (length buf) \<le> int (unat (snd_wnd k))" "int (length buf) \<le> ring_buffer_free (rcv_buf l)"
      "\<forall>d \<in> set (segs buf). proper d"
  shows "\<exists>s0 n fs. r_out (t_router s0) = r_out (t_router s) @ map (Pair (rt_iface e)) fs \<and> length fs = length (segs buf) \<and>
    (\<forall>gs. list_all2 same_packet gs fs \<longrightarrow> (\<exists>r1 l1 as own. feed other gs r = Some r1 \<and>
      receiving j l1 (ps @ own) r1 \<and> length own = length (segs buf) \<and>
      (\<exists>r2. \<forall>env. tcp_sock_read env j 65535 r1 =
        Some (int (length (rb_contents (rcv_buf l) @ buf)), rb_contents (rcv_buf l) @ buf, r2)) \<and>
      r_out (t_router r1) = r_out (t_router r) @ map (Pair (rt_iface e')) as \<and> length as = length (segs buf) \<and>
      (\<forall>hs. list_all2 same_packet hs as \<longrightarrow> (\<exists>s1 s2 k2. feed other hs s0 = Some s1 \<and> t_router s1 = t_router s0 \<and>
        (\<forall>env. env n s0 = s1 \<longrightarrow> tcp_sock_write env i buf s = Some (0, s2)) \<and>
        writing i k2 [] [] s2 \<and> snd_nxt k2 = snd_nxt k + of_nat (length buf) \<and> snd_una k2 = snd_nxt k2 \<and>
        rcv_nxt l1 = snd_nxt k2))))"
proof -
  obtain s0 k0 n qs fs where
    a: "writing i k0 qs [i] s0" "same_ends k k0" "1 < ref_cnt k0" "\<not> sw_dead (sk_wait k0 Wait_Send)"
    "snd_nxt k0 = snd_nxt k + of_nat (length buf)" "kept (snd_nxt k) (segs buf) qs" "stream k (snd_nxt k) (segs buf) fs"
    "r_out (t_router s0) = r_out (t_router s) @ map (Pair (rt_iface e)) fs"
    and ends: "\<forall>env s1 k1. env n s0 = s1 \<longrightarrow> writing i k1 [] [i] s1 \<longrightarrow> \<not> sw_dead (sk_wait k1 Wait_Send) \<longrightarrow>
      tcp_sock_write env i buf s = ends_call i s1"
    using write_sleeps [OF w(1) p(1) w(2-4) b(1,2)] by (elim exE conjE) (rule that)
  have "unat (snd_wnd k) < 65536" using unsigned_less [of "snd_wnd k", where 'a = nat] by simp
  then have "length buf \<le> 65535" using b(2) by linarith
  moreover have "segs buf \<noteq> []" "[] \<notin> set (segs buf)" using b(4) proper_nonempty segs_more [OF b(1)] by fastforce+
  ultimately have more: "segs buf \<noteq> []" "[] \<notin> set (segs buf)" "length buf \<le> 65535" by simp_all
  let ?all = "rb_contents (rcv_buf l) @ buf"
  have "\<exists>r1 l1 as own. feed other gs r = Some r1 \<and> receiving j l1 (ps @ own) r1 \<and> length own = length (segs buf) \<and>
      (\<exists>r2. \<forall>env. tcp_sock_read env j 65535 r1 = Some (int (length ?all), ?all, r2)) \<and>
      r_out (t_router r1) = r_out (t_router r) @ map (Pair (rt_iface e')) as \<and> length as = length (segs buf) \<and>
      (\<forall>hs. list_all2 same_packet hs as \<longrightarrow> (\<exists>s1 s2 k2. feed other hs s0 = Some s1 \<and> t_router s1 = t_router s0 \<and>
        (\<forall>env. env n s0 = s1 \<longrightarrow> tcp_sock_write env i buf s = Some (0, s2)) \<and>
        writing i k2 [] [] s2 \<and> snd_nxt k2 = snd_nxt k + of_nat (length buf) \<and> snd_una k2 = snd_nxt k2 \<and>
        rcv_nxt l1 = snd_nxt k2))"
    if gs: "list_all2 same_packet gs fs" for gs
  proof -
    have x: "sk_sip k = sk_dip l" "sk_dip k = sk_sip l" "sk_sport k = sk_dport l" "sk_dport k = sk_sport l"
      using r(2) by (simp_all add: crossed_def)
    obtain r1 l1 own as where
      g: "feed other gs r = Some r1" "receiving j l1 (ps @ own) r1" "length own = length (segs buf)"
      "timer_at j r1" "1 < ref_cnt l1" "rb_contents (rcv_buf l1) = ?all"
      "rcv_nxt l1 = rcv_nxt l + of_nat (length buf)"
      "r_out (t_router r1) = r_out (t_router r) @ map (Pair (rt_iface e')) as"
      "answers l (snd_nxt l) (rcv_nxt l) (segs buf) as"
      using stream_received [OF r(1) a(7) [folded r(3)] gs x b(4) _ p(2), of other] b(3) more(1)
      by auto
    have "rb_size (rcv_buf l1) = 65535" "rb_ok (rcv_buf l1)" using g(2) by (simp_all add: receiving_def)
    then have "length ?all \<le> 65535" using used_less [of "rcv_buf l1"] arg_cong [OF g(6), of length] by (simp add: rb_contents_def)
    then have read: "\<exists>r2. \<forall>env. tcp_sock_read env j 65535 r1 = Some (int (length ?all), ?all, r2)"
      using data_read [OF g(2,4,5), of 65535] b(1) by (simp add: g(6) min_absorb1)
    have la: "length as = length (segs buf)" using answers_length [OF g(9)] .
    have "\<exists>s1 s2 k2. feed other hs s0 = Some s1 \<and> t_router s1 = t_router s0 \<and>
        (\<forall>env. env n s0 = s1 \<longrightarrow> tcp_sock_write env i buf s = Some (0, s2)) \<and>
        writing i k2 [] [] s2 \<and> snd_nxt k2 = snd_nxt k + of_nat (length buf) \<and> snd_una k2 = snd_nxt k2 \<and>
        rcv_nxt l1 = snd_nxt k2" if hs: "list_all2 same_packet hs as" for hs
    proof -
      have y: "sk_sip l = sk_dip k0" "sk_dip l = sk_sip k0" "sk_sport l = sk_dport k0" "sk_dport l = sk_sport k0"
        using r(2) a(2) by (simp_all add: crossed_def same_ends_def)
      obtain s1 k1 ps' where f: "feed other hs s0 = Some s1" "writing i k1 ps' [i] s1"
        "set ps' \<subseteq> {p \<in> set qs. \<not> acked (rcv_nxt l + of_nat (length buf)) p}"
        "answered (rcv_nxt l + of_nat (length buf)) k0 k1" "t_router s1 = t_router s0"
        using answers_taken [OF a(1) g(9) hs more(1) y, of other] by auto
      have "ps' = []"
      proof -
        have "acked (rcv_nxt l + of_nat (length buf)) p" if "p \<in> set qs" for p
          using kept_acked [OF a(6) more(2) _ that] more(3) by (simp add: r(3))
        then show ?thesis using f(3) by (cases ps') auto
      qed
      then have w1: "writing i k1 [] [i] s1" using f(2) by simp
      have k1: "1 < ref_cnt k1" "\<not> sw_dead (sk_wait k1 Wait_Send)" "snd_nxt k1 = snd_nxt k0" "snd_una k1 = rcv_nxt l + of_nat (length buf)"
        using f(4) a(3,4) by (simp_all add: answered_def)
      from call_ends [OF w1 k1(1)] obtain s2 k2 where c: "ends_call i s1 = Some (0, s2)" "writing i k2 [] [] s2"
        "snd_nxt k2 = snd_nxt k1" "snd_una k2 = snd_una k1" by blast
      then show ?thesis
        using f(1,5) ends w1 k1(2-4) a(5) g(7) r(3) by (intro exI [of _ s1] exI [of _ s2] exI [of _ k2]) simp
    qed
    then show ?thesis using g(1-3,8) read la by blast
  qed
  then show ?thesis using a(8) stream_length [OF a(7)] by blast
qed

text \<open>The client and the server of the handshake's example, with an open connection.\<close>

definition demo_open :: "router \<Rightarrow> tcp_sock \<Rightarrow> link links \<Rightarrow> stack" where
  "demo_open r k h = demo_stack \<lparr>t_router := r, t_links := h, t_socks := [0 \<mapsto> k], t_nsocks := 1\<rparr>"

lemma demo_open_lists: "\<exists>h. hashed 0 k (demo_open r k h) \<and> tables [] [] (demo_open r k h) \<and> ofo_holds 0 [] (demo_open r k h) \<and>
    dlist h Timer_List [] \<and> timer_at 0 (demo_open r k h)"
proof -
  let ?i = "\<lparr>lnext = Some, lprev = Some\<rparr>"
    and ?E = "Established (tcp_hash_function (sk_sip k) (sk_dip k) (sk_sport k) (sk_dport k))"
  have d: "dlist ?i l []" for l :: link by (simp add: dlist_def)
  have "Hash_List 0 \<notin> set [?E]" by simp
  from dlist_add_head [OF d this] obtain h where h: "dlist h ?E [Hash_List 0]"
    "\<forall>x. x \<notin> {Hash_List 0, ?E} \<longrightarrow> lnext h x = Some x \<and> lprev h x = Some x" by auto
  have "dlist h l []" if "l \<notin> {Hash_List 0, ?E}" for l using h(2) that by (simp add: dlist_def)
  then have "dlist h Trans_Buf []" "dlist h Retrans_List []" "dlist h (Ofo_List 0) []" "dlist h Timer_List []" by simp_all
  moreover have "timer_at 0 (demo_open r k h)" using h(2) by (simp add: timer_at_def demo_open_def timer_nodes_def)
  moreover have "hashed 0 k (demo_open r k h)"
    unfolding hashed_def using h(1) by (intro exI [of _ "[]"]) (simp add: demo_open_def)
  ultimately show ?thesis
    by (intro exI [of _ h]) (auto simp: ofo_empty tables_def buffered_def blocks_hold_def payload_size_def demo_open_def
        demo_stack_def intro!: exI [of _ "[]"])
qed

definition demo_k :: tcp_sock where
  "demo_k = fresh_sock \<lparr>sk_sip := 0x0a000009, sk_sport := 12345, sk_dip := 0x0a000001, sk_dport := 80,
     sk_state := TCP_ESTABLISHED, ref_cnt := 1\<rparr>"

definition demo_l :: tcp_sock where
  "demo_l = fresh_sock \<lparr>sk_sip := 0x0a000001, sk_sport := 80, sk_dip := 0x0a000009, sk_dport := 12345,
     sk_state := TCP_ESTABLISHED, ref_cnt := 1, sk_parent := Some 1\<rparr>"

lemma demo_client_writes: "\<exists>h. writing 0 demo_k [] [] (demo_open (t_router demo_client) demo_k h)"
  using demo_open_lists [of demo_k "t_router demo_client"]
  by (auto simp: writing_def demo_open_def demo_k_def)

lemma demo_buffer:
  "rb_ok (rcv_buf demo_l)" "rb_size (rcv_buf demo_l) = 65535" "rb_contents (rcv_buf demo_l) = []"
  "ring_buffer_free (rcv_buf demo_l) = 65534"
  by (simp_all add: demo_l_def fresh_sock_def TCP_DEFAULT_WINDOW_def rb_ok_def rb_contents_def ring_buffer_free_def
      ring_buffer_used_def alloc_ring_buffer_def)

lemma demo_server_receives:
  "\<exists>h. receiving 0 demo_l [] (demo_open demo_router demo_l h) \<and> dlist h Retrans_List []"
proof -
  obtain h where h: "hashed 0 demo_l (demo_open demo_router demo_l h)" "tables [] [] (demo_open demo_router demo_l h)"
    "ofo_holds 0 [] (demo_open demo_router demo_l h)" using demo_open_lists by blast
  then have "receiving 0 demo_l [] (demo_open demo_router demo_l h)" "dlist h Retrans_List []"
    using tables_linked [OF h(2)] demo_buffer(1,2)
    by (simp_all add: receiving_def tables_def demo_open_def) (simp add: demo_l_def)
  then show ?thesis by blast
qed

lemma demo_paths:
  "reachable_via (sk_dip demo_k) demo_route [2, 0, 0, 0, 0, 1] (t_router (demo_open (t_router demo_client) k h))"
  "reachable_via (sk_dip demo_l) demo_route demo_mac (t_router (demo_open demo_router l h))"
  using demo_reachable by (simp_all add: demo_open_def demo_server_def demo_client_iface_def demo_stack_def demo_k_def demo_l_def)

lemma demo_text: "proper [104, 105]" "segs [104, 105] = [[104, 105]]"
  by (simp_all add: proper_def get_message_def segs.simps NORMAL_TCP_DATA_LEN_def)

lemma stream_delivered_witness:
  "\<exists>client server server1 server2 client2 env gs.
    tcp_sock_write env 0 [104, 105] client = Some (0, client2) \<and> feed (\<lambda>_ s. s) gs server = Some server1 \<and>
    tcp_sock_read env 0 65535 server1 = Some (2, [104, 105], server2)"
proof -
  obtain h where w: "writing 0 demo_k [] [] (demo_open (t_router demo_client) demo_k h)" using demo_client_writes by blast
  obtain h' where r: "receiving 0 demo_l [] (demo_open demo_router demo_l h')" using demo_server_receives by blast
  have x: "crossed demo_k demo_l" "rcv_nxt demo_l = snd_nxt demo_k"
    by (simp_all add: crossed_def fresh_sock_def demo_k_def demo_l_def)
  have k: "0 < ref_cnt demo_k" "\<not> sw_dead (sk_wait demo_k Wait_Send)" "\<not> sw_notified (sk_wait demo_k Wait_Send)"
    "int (length ([104, 105] :: bytes)) \<le> int (unat (snd_wnd demo_k))"
    "int (length ([104, 105] :: bytes)) \<le> ring_buffer_free (rcv_buf demo_l)" "\<forall>d \<in> set (segs [104, 105]). proper d"
    using demo_buffer(4) demo_text by (simp_all add: demo_k_def fresh_sock_def wait_init_def TCP_DEFAULT_WINDOW_def)
  have same: "list_all2 same_packet q q" for q by (rule list_all2_refl) (simp add: same_packet_def)
  have env: "\<exists>env. env n c = c'" for n :: nat and c c' :: stack by (rule exI [of _ "\<lambda>_ _. c'"]) simp
  from stream_delivered [OF w k(1-3) r x demo_paths _ k(4-6), of "\<lambda>_ s. s"] show ?thesis
    using same env demo_buffer(3) by simp metis
qed

section \<open>Answers that nothing acknowledges\<close>

text \<open>C34. An accepted connection whose first segment the application does not read in time is ended:
  the answer to the segment waits in the buffer for an acknowledgement that the protocol has
  none for, and only a read stops its timer. If in 580 scans, 5.8 seconds, there is no read and
  nothing arrives, the timer runs out and ends the connection and the process; until then the
  process runs. No other timer is armed.\<close>

theorem receiver_gives_up:
  assumes r: "receiving j l [] r" "dlist (t_links r) Retrans_List []" "\<not> t_exited r" "sk_parent l \<noteq> None"
    and f: "brings f (segment_cb (sk_dip l) (sk_sip l) (sk_dport l) (sk_sport l) (rcv_nxt l) ak (TCP_PSH OR TCP_ACK) wn d)"
    and d: "proper d" "int (length d) \<le> ring_buffer_free (rcv_buf l)"
    and v: "reachable_via (sk_dip l) e mac (t_router r)"
  shows "\<exists>r1 l1. handle_tcp_packet env f r = Some r1 \<and> t_socks r1 j = Some l1 \<and>
    rb_contents (rcv_buf l1) = rb_contents (rcv_buf l) @ d \<and>
    (\<forall>n < 580. \<exists>r2. scan_rounds n r1 = Some r2 \<and> \<not> t_exited r2) \<and>
    (\<exists>r2. scan_rounds 580 r1 = Some r2 \<and> t_exited r2 \<and> (\<forall>l2. t_socks r2 j = Some l2 \<longrightarrow> sk_state l2 = TCP_CLOSED))"
proof -
  obtain r1 l1 p where h: "handle_tcp_packet env f r = Some r1" "receiving j l1 ([] @ [p]) r1"
    "rb_contents (rcv_buf l1) = rb_contents (rcv_buf l) @ d" "t_exited r1 = t_exited r" "sk_parent l1 = sk_parent l"
    "dlist (t_links r) Retrans_List [] \<longrightarrow> dlist (t_links r1) Retrans_List [Retrans j]"
    "tm_timeout (retrans_timer l1) = DEFAULT_RETRANS_TIME" "tm_retrans_times (retrans_timer l1) = 0"
    using segment_received [OF r(1) f d v, of env] by (elim exE conjE) (rule that)
  then have "just_armed j l1 p [] r1" using r(2-4) by (simp add: just_armed_def receiving_def releasable_def)
  from armed_ends [OF this] h(1-3) show ?thesis
    by (intro exI [of _ r1] exI [of _ l1]) (auto simp: receiving_def)
qed

lemma receiver_gives_up_witness:
  "\<exists>f r r1. handle_tcp_packet (\<lambda>_ s. s) f r = Some r1 \<and> \<not> t_exited r \<and>
    (\<exists>r2. scan_rounds 579 r1 = Some r2 \<and> \<not> t_exited r2) \<and> (\<exists>r2. scan_rounds 580 r1 = Some r2 \<and> t_exited r2)"
proof -
  obtain h where w: "writing 0 demo_k [] [] (demo_open (t_router demo_client) demo_k h)" using demo_client_writes by blast
  have "length ([104, 105] :: bytes) \<le> 65495" by simp
  from segment_goes [OF w this demo_paths(1)] obtain q where q: "stream demo_k (snd_nxt demo_k) [[104, 105]] [q]" by blast
  have "same_packet q q" by (simp add: same_packet_def)
  with q have f: "brings q (segment_cb (sk_dip demo_l) (sk_sip demo_l) (sk_dport demo_l) (sk_sport demo_l) (rcv_nxt demo_l)
      (rcv_nxt demo_k) (TCP_PSH OR TCP_ACK) (rcv_wnd demo_k) [104, 105])"
    by (simp add: demo_k_def demo_l_def fresh_sock_def)
  obtain h' where r: "receiving 0 demo_l [] (demo_open demo_router demo_l h')" "dlist h' Retrans_List []"
    using demo_server_receives by blast
  have "\<not> t_exited (demo_open demo_router demo_l h')" "sk_parent demo_l \<noteq> None"
    "dlist (t_links (demo_open demo_router demo_l h')) Retrans_List []"
    using r(2) by (simp_all add: demo_open_def demo_stack_def demo_l_def)
  note server = this
  have "int (length ([104, 105] :: bytes)) \<le> ring_buffer_free (rcv_buf demo_l)" using demo_buffer(4) by simp
  from receiver_gives_up [OF r(1) server(3,1,2) f demo_text(1) this demo_paths(2), of "\<lambda>_ s. s"]
  obtain r1 where r1: "handle_tcp_packet (\<lambda>_ s. s) q (demo_open demo_router demo_l h') = Some r1"
    "\<forall>n < 580. \<exists>r2. scan_rounds n r1 = Some r2 \<and> \<not> t_exited r2" "\<exists>r2. scan_rounds 580 r1 = Some r2 \<and> t_exited r2"
    by blast
  have "\<exists>r2. scan_rounds 579 r1 = Some r2 \<and> \<not> t_exited r2" by (rule r1(2) [rule_format]) simp
  with r1(1,3) server(1) show ?thesis by blast
qed

end
