(* ===== verification/TcpClosing.thy ===== *)
theory TcpClosing imports TcpStream begin

text \<open>The end of a connection: the exchange of FIN segments between the end that closes first and the
  other, what \<open>TIME_WAIT\<close> does to the timers of other connections when it ends, and the socket that
  stays behind.\<close>

section \<open>A socket in the table\<close>

definition linked :: "nat \<Rightarrow> tcp_sock \<Rightarrow> bytes list \<Rightarrow> nat list \<Rightarrow> stack \<Rightarrow> bool" where
  "linked i k ps rs s \<longleftrightarrow> t_socks s i = Some k \<and> hashed i k s \<and> tables ps rs s"

lemma linked_to:
  assumes "linked i k ps rs s" "links_keep X s s'" "X \<inter> table_nodes = {}" "same_ends k k'"
    and "t_socks s' = (t_socks s)(i \<mapsto> k')" "tables ps' rs' s'"
  shows "linked i k' ps' rs' s'"
  using assms hashed_keep [of i k s X s' k'] by (simp add: linked_def)

lemma linked_upd:
  assumes "linked i k ps rs s" "same_ends k k'"
  shows "linked i k' ps rs (s \<lparr>t_socks := (t_socks s)(i \<mapsto> k')\<rparr>)"
  using assms by (intro linked_to [OF assms(1) _ _ assms(2), of "{}"]) (simp_all add: linked_def)

lemma linked_router: "linked i k ps rs (s \<lparr>t_router := r\<rparr>) = linked i k ps rs s"
  by (simp add: linked_def hashed_def)

lemma linked_lookup:
  assumes "linked i k ps rs s"
  shows "tcp_sock_lookup (segment_cb (sk_dip k) (sk_sip k) (sk_dport k) (sk_sport k) sq ak fl wn d) s = Some (Some i)"
  using assms by (intro hashed_lookup [of i k]) (simp_all add: linked_def segment_cb_def)

text \<open>The segments of the closing sequence.\<close>

definition fin_of :: "tcp_sock \<Rightarrow> tcp_cb" where
  "fin_of k = segment_cb (sk_sip k) (sk_dip k) (sk_sport k) (sk_dport k) (snd_nxt k) (rcv_nxt k)
     (TCP_FIN OR TCP_ACK) (rcv_wnd k) []"

definition last_of :: "tcp_sock \<Rightarrow> tcp_cb" where
  "last_of k = segment_cb (sk_sip k) (sk_dip k) (sk_sport k) (sk_dport k) (snd_nxt k) (rcv_nxt k) TCP_ACK (rcv_wnd k) []"

lemmas tcp_flags = TCP_FIN_def TCP_SYN_def TCP_RST_def TCP_PSH_def TCP_ACK_def

lemma same_ends_simps:
  "same_ends k k' \<Longrightarrow> sk_sip k' = sk_sip k" "same_ends k k' \<Longrightarrow> sk_dip k' = sk_dip k"
  "same_ends k k' \<Longrightarrow> sk_sport k' = sk_sport k" "same_ends k k' \<Longrightarrow> sk_dport k' = sk_dport k"
  by (simp_all add: same_ends_def)

section \<open>Sending and getting FIN\<close>

lemma fin_goes:
  assumes l: "linked i k ps rs s" and i: "i \<notin> set rs" and r: "reachable_via (sk_dip k) e mac (t_router s)"
  shows "\<exists>s' k' p. send_fin i st s = Some s' \<and> linked i k' (ps @ [p]) (rs @ [i]) s' \<and> same_ends k k' \<and>
    sk_state k' = st \<and> snd_nxt k' = snd_nxt k + 1 \<and> rcv_nxt k' = rcv_nxt k \<and> rcv_wnd k' = rcv_wnd k \<and>
    ref_cnt k' = ref_cnt k + 1 \<and> sk_parent k' = sk_parent k \<and> ntohl (th_seq p TCP_AT) = snd_nxt k \<and>
    links_keep (timer_nodes \<union> buffer_nodes) s s' \<and> sends e mac (fin_of k) (t_router s) (t_router s')"
proof -
  from l have s: "t_socks s i = Some k" "tables ps rs s" by (simp_all add: linked_def)
  from timer_set [OF s(2) i s(1)] obtain h where
    h: "tcp_set_retrans_timewait_timer i s = Some (s \<lparr>t_links := h, t_socks := (t_socks s)(i \<mapsto> (armed k) \<lparr>ref_cnt := ref_cnt k + 1\<rparr>)\<rparr>)"
    "tables ps (rs @ [i]) (s \<lparr>t_links := h\<rparr>)" "links_keep timer_nodes s (s \<lparr>t_links := h\<rparr>)" by blast
  define k1 where "k1 = (armed k) \<lparr>ref_cnt := ref_cnt k + 1\<rparr>"
  define s1 where "s1 = s \<lparr>t_links := h, t_socks := (t_socks s)(i \<mapsto> k1)\<rparr>"
  have k1: "same_ends k k1" "snd_nxt k1 = snd_nxt k" "rcv_nxt k1 = rcv_nxt k" "rcv_wnd k1 = rcv_wnd k" "sk_parent k1 = sk_parent k"
    "ref_cnt k1 = ref_cnt k + 1" by (simp_all add: k1_def same_ends_def)
  have t1: "tables ps (rs @ [i]) s1" using h(2) by (simp add: s1_def tables_def buffered_def blocks_hold_def)
  have "t_socks s1 i = Some k1" "(TCP_FIN OR TCP_ACK) AND (TCP_SYN OR TCP_FIN) \<noteq> 0" "(TCP_FIN OR TCP_ACK) AND TCP_RST = 0"
    "reachable_via (sk_dip k1) e mac (t_router s1)"
    using r k1(1) by (simp_all add: s1_def tcp_flags same_ends_def)
  from control_sent [OF t1 this] obtain s2 p where
    g: "tcp_send_control_packet i (TCP_FIN OR TCP_ACK) s1 = Some s2" "tables (ps @ [p]) (rs @ [i]) s2"
    "ntohl (th_seq p TCP_AT) = snd_nxt k1" "t_socks s2 = (t_socks s1)(i \<mapsto> armed (k1 \<lparr>snd_nxt := snd_nxt k1 + 1\<rparr>))"
    "links_keep buffer_nodes s1 s2"
    "sends e mac (segment_cb (sk_sip k1) (sk_dip k1) (sk_sport k1) (sk_dport k1) (snd_nxt k1) (rcv_nxt k1)
      (TCP_FIN OR TCP_ACK) (rcv_wnd k1) []) (t_router s1) (t_router s2)" by blast
  define k3 where "k3 = (armed (k1 \<lparr>snd_nxt := snd_nxt k1 + 1\<rparr>)) \<lparr>sk_state := st\<rparr>"
  define s3 where "s3 = s2 \<lparr>t_socks := (t_socks s2)(i \<mapsto> k3)\<rparr>"
  have "send_fin i st s = Some s3"
    using h(1) g(1) by (simp add: send_fin_def k1_def [symmetric] s1_def [symmetric] tcp_set_state_def upd_sock_def g(4) s3_def k3_def)
  moreover have k3: "same_ends k k3" using k1(1) by (simp add: k3_def same_ends_def)
  moreover have "links_keep (timer_nodes \<union> buffer_nodes) s s3"
    by (rule links_keep_trans [of _ _ s1]) (use h(3) g(5) in \<open>simp_all add: s1_def s3_def links_keep_def\<close>)
  moreover from this have "linked i k3 (ps @ [p]) (rs @ [i]) s3"
    by (rule linked_to [OF l _ _ k3]) (use g(2) in \<open>auto simp: node_sets s3_def g(4) s1_def\<close>)
  moreover have "fin_of k = segment_cb (sk_sip k1) (sk_dip k1) (sk_sport k1) (sk_dport k1) (snd_nxt k1) (rcv_nxt k1)
      (TCP_FIN OR TCP_ACK) (rcv_wnd k1) []" "t_router s1 = t_router s" "t_router s3 = t_router s2"
    using k1 by (simp_all add: fin_of_def same_ends_def s1_def s3_def)
  ultimately show ?thesis
    using g(3,6) k1 by (intro exI [of _ s3] exI [of _ k3] exI [of _ p]) (simp add: k3_def)
qed

lemma process_flags:
  assumes "t_socks s i = Some k" "sk_state k \<notin> {TCP_CLOSED, TCP_LISTEN, TCP_SYN_SENT, TCP_SYN_RECV}"
  shows "cb_flags cb = TCP_FIN OR TCP_ACK \<Longrightarrow> tcp_process env (Some i) cb packet s = process_fin i cb (sk_state k) s"
    and "cb_flags cb = TCP_ACK \<Longrightarrow> sk_state k \<noteq> TCP_ESTABLISHED \<Longrightarrow>
      tcp_process env (Some i) cb packet s = process_closing_ack i cb (sk_state k) s"
  using assms by (simp_all add: tcp_process_def Let_def tcp_flags)

text \<open>A FIN in \<open>TCP_ESTABLISHED\<close>.\<close>

lemma fin_taken:
  assumes l: "linked j l ps rs r" "sk_state l = TCP_ESTABLISHED"
    and f: "carries f (segment_cb (sk_dip l) (sk_sip l) (sk_dport l) (sk_sport l) sq ak (TCP_FIN OR TCP_ACK) wn [])"
    and v: "reachable_via (sk_dip l) e mac (t_router r)"
  shows "\<exists>r' l'. handle_tcp_packet env f r = Some r' \<and> linked j l' ps rs r' \<and> same_ends l l' \<and> sk_state l' = TCP_CLOSE_WAIT \<and>
    snd_nxt l' = snd_nxt l \<and> rcv_nxt l' = sq + 1 \<and> rcv_wnd l' = rcv_wnd l \<and> ref_cnt l' = ref_cnt l \<and>
    sw_dead (sk_wait l' Wait_Recv) \<and> sw_dead (sk_wait l' Wait_Send) \<and> sends e mac (last_of l') (t_router r) (t_router r') \<and>
    t_links r' = t_links r \<and> t_socks r' = (t_socks r)(j \<mapsto> l') \<and> rcv_buf l' = rcv_buf l"
proof -
  let ?cb = "segment_cb (sk_dip l) (sk_sip l) (sk_dport l) (sk_sport l) sq ak (TCP_FIN OR TCP_ACK) wn []"
  have cb: "cb_seq ?cb = sq" "cb_flags ?cb = TCP_FIN OR TCP_ACK" by (simp_all add: segment_cb_def)
  from l have s: "t_socks r j = Some l" "tables ps rs r" by (simp_all add: linked_def)
  define dead where "dead w = upd_wait w (\<lambda>x. if sw_dead x then x else x \<lparr>sw_dead := True\<rparr>)" for w
  define l1 where "l1 = (dead Wait_Send (dead Wait_Recv (l \<lparr>rcv_nxt := sq + 1\<rparr>))) \<lparr>sk_state := TCP_CLOSE_WAIT\<rparr>"
  define r1 where "r1 = r \<lparr>t_socks := (t_socks r)(j \<mapsto> l1)\<rparr>"
  have l1: "same_ends l l1" "sk_state l1 = TCP_CLOSE_WAIT" "snd_nxt l1 = snd_nxt l" "rcv_nxt l1 = sq + 1" "rcv_wnd l1 = rcv_wnd l"
    "ref_cnt l1 = ref_cnt l" "sw_dead (sk_wait l1 Wait_Recv)" "sw_dead (sk_wait l1 Wait_Send)" "rcv_buf l1 = rcv_buf l"
    by (simp_all add: l1_def dead_def upd_wait_def same_ends_def)
  have lk: "linked j l1 ps rs r1" unfolding r1_def by (rule linked_upd [OF l(1) l1(1)])
  then have "tables ps rs r1" "t_socks r1 j = Some l1" by (simp_all add: linked_def)
  moreover have "reachable_via (sk_dip l1) e mac (t_router r1)" using v l1(1) by (simp add: r1_def same_ends_def)
  ultimately obtain w where w: "tcp_send_control_packet j TCP_ACK r1 = Some (r1 \<lparr>t_router := w\<rparr>)"
    "sends e mac (last_of l1) (t_router r1) w" unfolding last_of_def using ack_sent by blast
  have "process_fin j ?cb TCP_ESTABLISHED r = Some (r1 \<lparr>t_router := w\<rparr>)"
    using s(1) w(1) by (simp add: process_fin_def cb upd_sock_def wait_exit_def tcp_set_state_def dead_def [symmetric]
        l1_def [symmetric] r1_def [symmetric])
  then have "handle_tcp_packet env f r = Some (r1 \<lparr>t_router := w\<rparr>)"
    using process_flags(1) [OF s(1) _ cb(2), of env f] l handle_carried [OF f] linked_lookup [OF l(1)] by simp
  then show ?thesis
    using lk l1 w(2) by (intro exI [of _ "r1 \<lparr>t_router := w\<rparr>"] exI [of _ l1]) (simp add: linked_router r1_def)
qed

text \<open>The acknowledgement of the own FIN, in \<open>TCP_FIN_WAIT_1\<close> and \<open>TCP_LAST_ACK\<close>.\<close>

definition after_ack :: "tcp_state \<Rightarrow> tcp_state" where
  "after_ack st = (if st = TCP_FIN_WAIT_1 then TCP_FIN_WAIT_2 else TCP_CLOSED)"

lemma fin_acknowledged:
  assumes l: "linked i k ps (rs1 @ i # rs2) s" "sk_state k \<in> {TCP_FIN_WAIT_1, TCP_LAST_ACK}" "1 < ref_cnt k"
    and f: "carries f (segment_cb (sk_dip k) (sk_sip k) (sk_dport k) (sk_sport k) sq ak TCP_ACK wn [])"
  shows "\<exists>s' k'. handle_tcp_packet env f s = Some s' \<and> linked i k' (filter (\<lambda>p. \<not> acked ak p) ps) (rs1 @ rs2) s' \<and>
    same_ends k k' \<and> sk_state k' = after_ack (sk_state k) \<and> snd_nxt k' = snd_nxt k \<and> rcv_nxt k' = rcv_nxt k \<and>
    rcv_wnd k' = rcv_wnd k \<and> ref_cnt k' = ref_cnt k - 1 \<and> sk_parent k' = sk_parent k \<and> t_router s' = t_router s \<and>
    links_keep (timer_nodes \<union> buffer_nodes) s s' \<and>
    (rs1 @ rs2 = [] \<longrightarrow> lnext (t_links s') (Retrans i) = Some Retrans_List \<and> lprev (t_links s') (Retrans i) = Some Retrans_List)"
proof -
  let ?cb = "segment_cb (sk_dip k) (sk_sip k) (sk_dport k) (sk_sport k) sq ak TCP_ACK wn []"
  have cb: "cb_ack ?cb = ak" "cb_flags ?cb = TCP_ACK" by (simp_all add: segment_cb_def)
  from l have s: "t_socks s i = Some k" "tables ps (rs1 @ i # rs2) s" by (simp_all add: linked_def)
  from tables_ack [OF s(2), of ak] obtain s1 where s1: "buf_ack ak s = Some s1"
    "tables (filter (\<lambda>p. \<not> acked ak p) ps) (rs1 @ i # rs2) s1" "buf_frame s s1" "links_keep buffer_nodes s s1" by blast
  have so: "t_socks s1 = t_socks s" "t_router s1 = t_router s" using s1(3) by (simp_all add: buf_frame_def)
  have "t_socks s1 i = Some k" using s(1) so(1) by simp
  from timer_stop [OF s1(2) this l(3)] obtain h where h: "tcp_stop_retrans_timewait_timer i s1 = Some (s1 \<lparr>t_links := h,
      t_socks := (t_socks s1)(i \<mapsto> k \<lparr>ref_cnt := ref_cnt k - 1\<rparr>)\<rparr>)"
    "tables (filter (\<lambda>p. \<not> acked ak p) ps) (rs1 @ rs2) (s1 \<lparr>t_links := h\<rparr>)" "links_keep timer_nodes s1 (s1 \<lparr>t_links := h\<rparr>)"
    "lnext h (Retrans i) = lnext (t_links s1) (Retrans i)" "lprev h (Retrans i) = lprev (t_links s1) (Retrans i)" by blast
  define k1 where "k1 = k \<lparr>ref_cnt := ref_cnt k - 1, sk_state := after_ack (sk_state k)\<rparr>"
  define s2 where "s2 = s1 \<lparr>t_links := h, t_socks := (t_socks s)(i \<mapsto> k1)\<rparr>"
  have "process_closing_ack i ?cb (sk_state k) s = Some s2"
    using l(2) s1(1) h(1) by (auto simp: process_closing_ack_def cb tcp_set_state_def upd_sock_def so s2_def k1_def after_ack_def)
  moreover have "tcp_process env (Some i) ?cb f s = process_closing_ack i ?cb (sk_state k) s"
    using l(2) by (intro process_flags(2) [OF s(1) _ cb(2)]) auto
  ultimately have run: "handle_tcp_packet env f s = Some s2"
    using handle_carried [OF f] linked_lookup [OF l(1)] by simp
  have keep: "links_keep (timer_nodes \<union> buffer_nodes) s s2"
    using h(3) s1(4) by (simp add: links_keep_def s2_def)
  have k1: "same_ends k k1" by (simp add: k1_def same_ends_def)
  have "tables (filter (\<lambda>p. \<not> acked ak p) ps) (rs1 @ rs2) s2" using h(2) by (simp add: s2_def tables_def buffered_def blocks_hold_def)
  then have lk: "linked i k1 (filter (\<lambda>p. \<not> acked ak p) ps) (rs1 @ rs2) s2"
    by (intro linked_to [OF l(1) keep _ k1]) (auto simp: node_sets s2_def)
  have "lnext h (Retrans i) = Some Retrans_List \<and> lprev h (Retrans i) = Some Retrans_List" if "rs1 @ rs2 = []"
    using that s1(2) h(4,5) by (simp add: tables_def dlist_def)
  then show ?thesis
    using run lk k1 keep so(2) by (intro exI [of _ s2] exI [of _ k1]) (simp add: s2_def k1_def)
qed

text \<open>The FIN of the other end in \<open>TCP_FIN_WAIT_2\<close>, which leaves the table of connections.\<close>

definition unlinked :: "nat \<Rightarrow> tcp_sock \<Rightarrow> stack \<Rightarrow> bool" where
  "unlinked i k s \<longleftrightarrow> (\<exists>es. dlist (t_links s)
       (Established (tcp_hash_function (sk_sip k) (sk_dip k) (sk_sport k) (sk_dport k))) (map Hash_List es) \<and> i \<notin> set es)"

definition wait_nodes :: "link set" where "wait_nodes = insert Timer_List (range Timewait)"

lemma last_fin_taken:
  assumes l: "linked i k ps rs s" "sk_state k = TCP_FIN_WAIT_2" "0 < ref_cnt k"
    and t: "dlist (t_links s) Timer_List (map Timewait ts)" "i \<notin> set ts"
    and f: "carries f (segment_cb (sk_dip k) (sk_sip k) (sk_dport k) (sk_sport k) sq ak (TCP_FIN OR TCP_ACK) wn [])"
    and v: "reachable_via (sk_dip k) e mac (t_router s)"
  shows "\<exists>s' k'. handle_tcp_packet env f s = Some s' \<and> t_socks s' i = Some k' \<and> same_ends k k' \<and>
    sk_state k' = TCP_TIME_WAIT \<and> tm_timeout (sk_timewait k') = TCP_TIMEWAIT_TIMEOUT \<and> sk_parent k' = sk_parent k \<and>
    ref_cnt k' = ref_cnt k \<and> snd_nxt k' = snd_nxt k \<and> rcv_nxt k' = sq + 1 \<and> unlinked i k s' \<and> tables ps rs s' \<and>
    dlist (t_links s') Timer_List (map Timewait (ts @ [i])) \<and> links_keep (wait_nodes \<union> table_nodes) s s' \<and>
    sends e mac (last_of k') (t_router s) (t_router s')"
proof -
  let ?cb = "segment_cb (sk_dip k) (sk_sip k) (sk_dport k) (sk_sport k) sq ak (TCP_FIN OR TCP_ACK) wn []"
  let ?E = "Established (tcp_hash_function (sk_sip k) (sk_dip k) (sk_sport k) (sk_dport k))"
  have cb: "cb_seq ?cb = sq" "cb_flags ?cb = TCP_FIN OR TCP_ACK" by (simp_all add: segment_cb_def)
  from l have s: "t_socks s i = Some k" "tables ps rs s" "hashed i k s" by (simp_all add: linked_def)
  define k1 where "k1 = k \<lparr>rcv_nxt := sq + 1, sk_state := TCP_TIME_WAIT,
    sk_timewait := (sk_timewait k) \<lparr>tm_type := 0, tm_timeout := TCP_TIMEWAIT_TIMEOUT\<rparr>, ref_cnt := ref_cnt k + 1\<rparr>"
  have "Timewait i \<notin> set (Timer_List # map Timewait ts)" using t(2) by auto
  from dlist_add_tail [OF t(1) this] obtain h where h: "list_add_tail (Timewait i) Timer_List (t_links s) = Some h"
    "dlist h Timer_List (map Timewait (ts @ [i]))"
    "\<forall>x. x \<notin> set (Timewait i # Timer_List # map Timewait ts) \<longrightarrow> lnext h x = lnext (t_links s) x \<and> lprev h x = lprev (t_links s) x"
    by auto
  define s1 where "s1 = s \<lparr>t_links := h, t_socks := (t_socks s)(i \<mapsto> k1)\<rparr>"
  have k1: "same_ends k k1" by (simp add: k1_def same_ends_def)
  have keep1: "links_keep wait_nodes s s1" using h(3) by (auto simp: links_keep_def s1_def wait_nodes_def)
  have t1: "tables ps rs s1"
    by (rule tables_links [OF s(2) keep1]) (auto simp: wait_nodes_def buffer_nodes_def s1_def)
  have "t_socks s1 i = Some k1" "reachable_via (sk_dip k1) e mac (t_router s1)"
    using v k1 by (simp_all add: s1_def same_ends_def)
  from ack_sent [OF t1 this] obtain w where w: "tcp_send_control_packet i TCP_ACK s1 = Some (s1 \<lparr>t_router := w\<rparr>)"
    "sends e mac (last_of k1) (t_router s1) w" unfolding last_of_def by blast
  from s(3) obtain es es' where es: "dlist (t_links s) ?E (map Hash_List (es @ i # es'))" by (auto simp: hashed_def)
  have "dlist h ?E (map Hash_List (es @ i # es'))"
    using dlist_keep [OF keep1 es] by (auto simp: s1_def wait_nodes_def)
  then have e1: "dlist h ?E (map Hash_List es @ Hash_List i # map Hash_List es')" by simp
  from dlist_delete [OF e1] obtain h2 where h2: "list_delete_entry (Hash_List i) h = Some h2"
    "dlist h2 ?E (map Hash_List es @ map Hash_List es')"
    "\<forall>x. x \<notin> set (?E # map Hash_List es @ map Hash_List es') \<longrightarrow> lnext h2 x = lnext h x \<and> lprev h2 x = lprev h x" by blast
  have "distinct (?E # map Hash_List es @ Hash_List i # map Hash_List es')" using e1 by (simp add: dlist_def)
  then have "\<not> list_empty h (Hash_List i)" "i \<notin> set (es @ es')"
    using dlist_next [OF e1] by (cases es', auto simp: list_empty_def)+
  define k2 where "k2 = k1 \<lparr>ref_cnt := ref_cnt k\<rparr>"
  define s2 where "s2 = s1 \<lparr>t_router := w, t_links := h2, t_socks := (t_socks s)(i \<mapsto> k2)\<rparr>"
  have un: "tcp_unhash i (s1 \<lparr>t_router := w\<rparr>) = Some s2"
    using \<open>\<not> list_empty h (Hash_List i)\<close> h2(1) l(3)
    by (simp add: tcp_unhash_def upd_links_def free_tcp_sock_def s1_def s2_def k1_def k2_def Let_def)
  have "process_fin i ?cb TCP_FIN_WAIT_2 s = Some s2"
    using s(1) h(1) w(1) un
    by (simp add: process_fin_def cb upd_sock_def tcp_set_state_def tcp_set_timewait_timer_def upd_links_def
        tcp_sock_inc_ref_cnt_def k1_def [symmetric] s1_def [symmetric])
  then have run: "handle_tcp_packet env f s = Some s2"
    using process_flags(1) [OF s(1) _ cb(2), of env f] l(2) handle_carried [OF f] linked_lookup [OF l(1)] by simp
  have keep2: "links_keep table_nodes s1 s2" using h2(3) by (auto simp: links_keep_def s1_def s2_def table_nodes_def)
  have "tables ps rs s2"
    by (rule tables_links [OF t1 keep2]) (auto simp: node_sets s1_def s2_def)
  moreover have "dlist (t_links s2) Timer_List (map Timewait (ts @ [i]))"
    by (rule dlist_keep [OF keep2]) (use h(2) in \<open>auto simp: s1_def table_nodes_def\<close>)
  moreover have "unlinked i k s2"
    unfolding unlinked_def using h2(2) \<open>i \<notin> set (es @ es')\<close> by (intro exI [of _ "es @ es'"]) (simp add: s2_def)
  moreover have "last_of k2 = last_of k1" by (simp add: last_of_def k2_def)
  moreover have "links_keep (wait_nodes \<union> table_nodes) s s2" by (rule links_keep_trans [OF keep1 keep2])
  ultimately show ?thesis
    using run w(2) k1 by (intro exI [of _ s2] exI [of _ k2]) (simp add: s2_def s1_def k2_def k1_def same_ends_def)
qed

section \<open>The closing sequence\<close>

lemma sends_frame:
  assumes "sends e mac cb r r'"
  obtains q where "r_out r' = r_out r @ [(rt_iface e, q)]" "\<And>f. same_packet f q \<Longrightarrow> carries f cb"
  using assms by (auto simp: sends_def delivers_def)

lemma crossed_cb:
  assumes "crossed k l" "same_ends k k'" "same_ends l l'"
  shows "fin_of k = segment_cb (sk_dip l') (sk_sip l') (sk_dport l') (sk_sport l') (snd_nxt k) (rcv_nxt k)
      (TCP_FIN OR TCP_ACK) (rcv_wnd k) []"
    and "last_of l = segment_cb (sk_dip k') (sk_sip k') (sk_dport k') (sk_sport k') (snd_nxt l) (rcv_nxt l) TCP_ACK (rcv_wnd l) []"
  using assms by (simp_all add: crossed_def same_ends_def fin_of_def last_of_def)

lemma same_ends_refl [simp]: "same_ends k k"
  by (simp add: same_ends_def)

lemma same_ends_trans: "same_ends k l \<Longrightarrow> same_ends l m \<Longrightarrow> same_ends k m"
  by (simp add: same_ends_def)

lemma own_fin_acked: "ntohl (th_seq p TCP_AT) = n \<Longrightarrow> filter (\<lambda>p. \<not> acked (n + 1) p) (ps @ [p]) = filter (\<lambda>p. \<not> acked (n + 1) p) ps"
  by (simp add: acked_def less_than_32b_def)

text \<open>C5. A connection closes: the end that calls \<open>tcp_sock_close\<close> first sends a FIN; the other end
  acknowledges it, ends all waiting reads and writes and is in \<open>TCP_CLOSE_WAIT\<close>; its own
  \<open>tcp_sock_close\<close> sends a FIN, too. On these two frames the first end is in \<open>TCP_TIME_WAIT\<close> with the
  timer set and no longer in the table of connections; its last acknowledgement closes the socket of
  the other end, which stays in its table. Neither FIN is left in a buffer and no retransmission
  timer is left running, whatever the sequence numbers are.\<close>

theorem connection_closes:
  assumes a: "linked i k ps rs s" "sk_state k = TCP_ESTABLISHED" "i \<notin> set rs" "0 < ref_cnt k"
      "dlist (t_links s) Timer_List (map Timewait ts)" "i \<notin> set ts"
    and b: "linked j l qs us r" "sk_state l = TCP_ESTABLISHED" "j \<notin> set us" "0 < ref_cnt l" and x: "crossed k l"
    and v: "reachable_via (sk_dip k) e mac (t_router s)" "reachable_via (sk_dip l) e' mac' (t_router r)"
  shows "\<exists>s1 q1. tcp_sock_close i s = Some s1 \<and> r_out (t_router s1) = r_out (t_router s) @ [(rt_iface e, q1)] \<and>
    (\<forall>f1. same_packet f1 q1 \<longrightarrow> (\<exists>r1 r2 l1 q2 q3. handle_tcp_packet other f1 r = Some r1 \<and> t_socks r1 j = Some l1 \<and>
      sk_state l1 = TCP_CLOSE_WAIT \<and> sw_dead (sk_wait l1 Wait_Recv) \<and> sw_dead (sk_wait l1 Wait_Send) \<and>
      tcp_sock_close j r1 = Some r2 \<and>
      r_out (t_router r2) = r_out (t_router r) @ [(rt_iface e', q2), (rt_iface e', q3)] \<and>
      (\<forall>f2 f3. same_packet f2 q2 \<longrightarrow> same_packet f3 q3 \<longrightarrow> (\<exists>s2 s3 k3 q4. handle_tcp_packet other f2 s1 = Some s2 \<and>
        handle_tcp_packet other f3 s2 = Some s3 \<and> r_out (t_router s3) = r_out (t_router s1) @ [(rt_iface e, q4)] \<and>
        t_socks s3 i = Some k3 \<and> sk_state k3 = TCP_TIME_WAIT \<and> tm_timeout (sk_timewait k3) = TCP_TIMEWAIT_TIMEOUT \<and>
        unlinked i k s3 \<and> tables (filter (\<lambda>p. \<not> acked (snd_nxt k + 1) p) ps) rs s3 \<and>
        dlist (t_links s3) Timer_List (map Timewait (ts @ [i])) \<and>
        (\<forall>f4. same_packet f4 q4 \<longrightarrow> (\<exists>r3 l3. handle_tcp_packet other f4 r2 = Some r3 \<and> same_ends l l3 \<and>
          sk_state l3 = TCP_CLOSED \<and> linked j l3 (filter (\<lambda>p. \<not> acked (snd_nxt l + 1) p) qs) us r3))))))"
proof -
  obtain s1 k1 p where c1: "send_fin i TCP_FIN_WAIT_1 s = Some s1" "linked i k1 (ps @ [p]) (rs @ [i]) s1" "same_ends k k1"
    "sk_state k1 = TCP_FIN_WAIT_1" "snd_nxt k1 = snd_nxt k + 1" "rcv_nxt k1 = rcv_nxt k" "ref_cnt k1 = ref_cnt k + 1"
    "ntohl (th_seq p TCP_AT) = snd_nxt k" "links_keep (timer_nodes \<union> buffer_nodes) s s1"
    "sends e mac (fin_of k) (t_router s) (t_router s1)"
    using fin_goes [OF a(1,3) v(1), of TCP_FIN_WAIT_1] by blast
  obtain q1 where q1: "r_out (t_router s1) = r_out (t_router s) @ [(rt_iface e, q1)]" "\<And>f. same_packet f q1 \<Longrightarrow> carries f (fin_of k)"
    using sends_frame [OF c1(10)] by blast
  have v1: "reachable_via (sk_dip k1) e mac (t_router s1)"
    using v(1) sends_reachable [OF c1(10)] c1(3) by (simp add: same_ends_def)
  have tl1: "dlist (t_links s1) Timer_List (map Timewait ts)"
    by (rule dlist_keep [OF c1(9) a(5)]) (auto simp: node_sets)
  have "\<exists>r1 r2 l1 q2 q3. handle_tcp_packet other f1 r = Some r1 \<and> t_socks r1 j = Some l1 \<and>
      sk_state l1 = TCP_CLOSE_WAIT \<and> sw_dead (sk_wait l1 Wait_Recv) \<and> sw_dead (sk_wait l1 Wait_Send) \<and>
      tcp_sock_close j r1 = Some r2 \<and>
      r_out (t_router r2) = r_out (t_router r) @ [(rt_iface e', q2), (rt_iface e', q3)] \<and>
      (\<forall>f2 f3. same_packet f2 q2 \<longrightarrow> same_packet f3 q3 \<longrightarrow> (\<exists>s2 s3 k3 q4. handle_tcp_packet other f2 s1 = Some s2 \<and>
        handle_tcp_packet other f3 s2 = Some s3 \<and> r_out (t_router s3) = r_out (t_router s1) @ [(rt_iface e, q4)] \<and>
        t_socks s3 i = Some k3 \<and> sk_state k3 = TCP_TIME_WAIT \<and> tm_timeout (sk_timewait k3) = TCP_TIMEWAIT_TIMEOUT \<and>
        unlinked i k s3 \<and> tables (filter (\<lambda>p. \<not> acked (snd_nxt k + 1) p) ps) rs s3 \<and>
        dlist (t_links s3) Timer_List (map Timewait (ts @ [i])) \<and>
        (\<forall>f4. same_packet f4 q4 \<longrightarrow> (\<exists>r3 l3. handle_tcp_packet other f4 r2 = Some r3 \<and> same_ends l l3 \<and>
          sk_state l3 = TCP_CLOSED \<and> linked j l3 (filter (\<lambda>p. \<not> acked (snd_nxt l + 1) p) qs) us r3))))"
    if f1: "same_packet f1 q1" for f1
  proof -
    have "carries f1 (segment_cb (sk_dip l) (sk_sip l) (sk_dport l) (sk_sport l) (snd_nxt k) (rcv_nxt k)
        (TCP_FIN OR TCP_ACK) (rcv_wnd k) [])"
      using q1(2) [OF f1] crossed_cb(1) [OF x, of k l] by simp
    from fin_taken [OF b(1,2) this v(2), of other] obtain r1 l1 where d1: "handle_tcp_packet other f1 r = Some r1"
      "linked j l1 qs us r1" "same_ends l l1" "sk_state l1 = TCP_CLOSE_WAIT" "snd_nxt l1 = snd_nxt l" "rcv_nxt l1 = snd_nxt k + 1"
      "ref_cnt l1 = ref_cnt l" "sw_dead (sk_wait l1 Wait_Recv)" "sw_dead (sk_wait l1 Wait_Send)"
      "sends e' mac' (last_of l1) (t_router r) (t_router r1)" by blast
    obtain q2 where q2: "r_out (t_router r1) = r_out (t_router r) @ [(rt_iface e', q2)]" "\<And>f. same_packet f q2 \<Longrightarrow> carries f (last_of l1)"
      using sends_frame [OF d1(10)] by blast
    have w1: "reachable_via (sk_dip l1) e' mac' (t_router r1)"
      using v(2) sends_reachable [OF d1(10)] d1(3) by (simp add: same_ends_def)
    from fin_goes [OF d1(2) b(3) w1, of TCP_LAST_ACK] obtain r2 l2 p' where d2: "send_fin j TCP_LAST_ACK r1 = Some r2"
      "linked j l2 (qs @ [p']) (us @ [j]) r2" "same_ends l1 l2" "sk_state l2 = TCP_LAST_ACK" "snd_nxt l2 = snd_nxt l1 + 1"
      "ref_cnt l2 = ref_cnt l1 + 1" "ntohl (th_seq p' TCP_AT) = snd_nxt l1" "sends e' mac' (fin_of l1) (t_router r1) (t_router r2)" by blast
    obtain q3 where q3: "r_out (t_router r2) = r_out (t_router r1) @ [(rt_iface e', q3)]" "\<And>f. same_packet f q3 \<Longrightarrow> carries f (fin_of l1)"
      using sends_frame [OF d2(8)] by blast
    have cl: "tcp_sock_close j r1 = Some r2" "t_socks r1 j = Some l1"
      using d1(2,4) d2(1) by (simp_all add: tcp_sock_close_def linked_def)
    have x1: "crossed k1 l1" by (rule crossed_ends [OF x c1(3) d1(3)])
    have "\<exists>s2 s3 k3 q4. handle_tcp_packet other f2 s1 = Some s2 \<and>
        handle_tcp_packet other f3 s2 = Some s3 \<and> r_out (t_router s3) = r_out (t_router s1) @ [(rt_iface e, q4)] \<and>
        t_socks s3 i = Some k3 \<and> sk_state k3 = TCP_TIME_WAIT \<and> tm_timeout (sk_timewait k3) = TCP_TIMEWAIT_TIMEOUT \<and>
        unlinked i k s3 \<and> tables (filter (\<lambda>p. \<not> acked (snd_nxt k + 1) p) ps) rs s3 \<and>
        dlist (t_links s3) Timer_List (map Timewait (ts @ [i])) \<and>
        (\<forall>f4. same_packet f4 q4 \<longrightarrow> (\<exists>r3 l3. handle_tcp_packet other f4 r2 = Some r3 \<and> same_ends l l3 \<and>
          sk_state l3 = TCP_CLOSED \<and> linked j l3 (filter (\<lambda>p. \<not> acked (snd_nxt l + 1) p) qs) us r3))"
      if f2: "same_packet f2 q2" and f3: "same_packet f3 q3" for f2 f3
    proof -
      have f2': "carries f2 (segment_cb (sk_dip k1) (sk_sip k1) (sk_dport k1) (sk_sport k1) (snd_nxt l1) (rcv_nxt l1)
          TCP_ACK (rcv_wnd l1) [])"
        using q2(2) [OF f2] crossed_cb(2) [OF x1, of k1 l1] by simp
      have "sk_state k1 \<in> {TCP_FIN_WAIT_1, TCP_LAST_ACK}" "1 < ref_cnt k1" using c1(4,7) a(4) by simp_all
      from fin_acknowledged [of i k1 "ps @ [p]" rs "[]" s1, OF c1(2) this f2', of other] obtain s2 k2 where g2:
        "handle_tcp_packet other f2 s1 = Some s2"
        "linked i k2 (filter (\<lambda>p. \<not> acked (snd_nxt k + 1) p) ps) rs s2" "same_ends k1 k2"
        "sk_state k2 = TCP_FIN_WAIT_2" "ref_cnt k2 = ref_cnt k" "t_router s2 = t_router s1" "snd_nxt k2 = snd_nxt k1"
        "links_keep (timer_nodes \<union> buffer_nodes) s1 s2"
        using own_fin_acked [OF c1(8)] d1(6) c1(4,7) by (auto simp: after_ack_def)
      have tl2: "dlist (t_links s2) Timer_List (map Timewait ts)"
        by (rule dlist_keep [OF g2(8) tl1]) (auto simp: node_sets)
      have f3': "carries f3 (segment_cb (sk_dip k2) (sk_sip k2) (sk_dport k2) (sk_sport k2) (snd_nxt l1) (rcv_nxt l1)
          (TCP_FIN OR TCP_ACK) (rcv_wnd l1) [])"
        using q3(2) [OF f3] crossed_cb(1) [OF crossed_sym [OF x1], of l1 k2] g2(3) by simp
      have "0 < ref_cnt k2" "reachable_via (sk_dip k2) e mac (t_router s2)"
        using g2(3,5,6) v1 a(4) by (simp_all add: same_ends_def)
      from last_fin_taken [OF g2(2,4) this(1) tl2 a(6) f3' this(2), of other] obtain s3 k3 where g3:
        "handle_tcp_packet other f3 s2 = Some s3" "t_socks s3 i = Some k3" "same_ends k2 k3" "sk_state k3 = TCP_TIME_WAIT"
        "tm_timeout (sk_timewait k3) = TCP_TIMEWAIT_TIMEOUT" "snd_nxt k3 = snd_nxt k2" "rcv_nxt k3 = snd_nxt l1 + 1" "unlinked i k2 s3"
        "tables (filter (\<lambda>p. \<not> acked (snd_nxt k + 1) p) ps) rs s3"
        "dlist (t_links s3) Timer_List (map Timewait (ts @ [i]))" "sends e mac (last_of k3) (t_router s2) (t_router s3)" by blast
      obtain q4 where q4: "r_out (t_router s3) = r_out (t_router s2) @ [(rt_iface e, q4)]" "\<And>f. same_packet f q4 \<Longrightarrow> carries f (last_of k3)"
        using sends_frame [OF g3(11)] by blast
      have x3: "crossed l2 k3" using crossed_sym [OF x1] d2(3) g2(3) g3(3) by (auto intro: crossed_ends same_ends_trans)
      have last: "\<exists>r3 l3. handle_tcp_packet other f4 r2 = Some r3 \<and> same_ends l l3 \<and>
          sk_state l3 = TCP_CLOSED \<and> linked j l3 (filter (\<lambda>p. \<not> acked (snd_nxt l + 1) p) qs) us r3"
        if f4: "same_packet f4 q4" for f4
      proof -
        have f4': "carries f4 (segment_cb (sk_dip l2) (sk_sip l2) (sk_dport l2) (sk_sport l2) (snd_nxt k3) (rcv_nxt k3)
            TCP_ACK (rcv_wnd k3) [])"
          using q4(2) [OF f4] crossed_cb(2) [OF x3, of l2 k3] by simp
        have "sk_state l2 \<in> {TCP_FIN_WAIT_1, TCP_LAST_ACK}" "1 < ref_cnt l2" using d2(4,6) d1(7) b(4) by simp_all
        from fin_acknowledged [of j l2 "qs @ [p']" us "[]" r2, OF d2(2) this f4', of other]
        show ?thesis
          using own_fin_acked [OF d2(7)] d1(5) d2(4) g3(7) same_ends_trans [OF same_ends_trans [OF d1(3) d2(3)]]
          by (auto simp: after_ack_def)
      qed
      have "unlinked i k s3" using g3(8) c1(3) g2(3) by (simp add: unlinked_def same_ends_def)
      then show ?thesis using g2(1) g3(1,2,4,5,9,10) q4(1) g2(6) last by auto
    qed
    then show ?thesis using d1(1,4,8,9) cl q2(1) q3(1) by auto
  qed
  moreover have "tcp_sock_close i s = Some s1" using a(1,2) c1(1) by (simp add: tcp_sock_close_def linked_def)
  ultimately show ?thesis using q1(1) by blast
qed

lemma connection_closes_witness:
  "\<exists>client server client1 server1 server2 server3 f1 f4 l.
    tcp_sock_close 0 client = Some client1 \<and> handle_tcp_packet (\<lambda>_ s. s) f1 server = Some server1 \<and>
    tcp_sock_close 0 server1 = Some server2 \<and> handle_tcp_packet (\<lambda>_ s. s) f4 server2 = Some server3 \<and>
    t_socks server3 0 = Some l \<and> sk_state l = TCP_CLOSED"
proof -
  obtain h where h: "hashed 0 demo_k (demo_open (t_router demo_client) demo_k h)"
    "tables [] [] (demo_open (t_router demo_client) demo_k h)" "dlist h Timer_List []"
    using demo_open_lists by blast
  obtain h' where h': "hashed 0 demo_l (demo_open demo_router demo_l h')" "tables [] [] (demo_open demo_router demo_l h')"
    using demo_open_lists by blast
  let ?c = "demo_open (t_router demo_client) demo_k h" and ?s = "demo_open demo_router demo_l h'"
  have l: "linked 0 demo_k [] [] ?c" "linked 0 demo_l [] [] ?s"
    using h h' by (simp_all add: linked_def) (simp_all add: demo_open_def)
  have s: "sk_state demo_k = TCP_ESTABLISHED" "sk_state demo_l = TCP_ESTABLISHED" "0 < ref_cnt demo_k" "0 < ref_cnt demo_l"
    "crossed demo_k demo_l" by (simp_all add: demo_k_def demo_l_def crossed_def)
  have n: "(0 :: nat) \<notin> set []" by simp
  have t: "dlist (t_links ?c) Timer_List (map Timewait [])" using h(3) by (simp add: demo_open_def)
  have same: "same_packet q q" for q by (simp add: same_packet_def)
  from connection_closes [OF l(1) s(1) n s(3) t n l(2) s(2) n s(4,5) demo_paths, of "\<lambda>_ s. s"]
  obtain s1 q1 r1 r2 q2 q3 where
    c: "tcp_sock_close 0 ?c = Some s1" "handle_tcp_packet (\<lambda>_ s. s) q1 ?s = Some r1" "tcp_sock_close 0 r1 = Some r2" and
    f: "\<forall>f2 f3. same_packet f2 q2 \<longrightarrow> same_packet f3 q3 \<longrightarrow> (\<exists>s2 s3 k3 q4. handle_tcp_packet (\<lambda>_ s. s) f2 s1 = Some s2 \<and>
      handle_tcp_packet (\<lambda>_ s. s) f3 s2 = Some s3 \<and> r_out (t_router s3) = r_out (t_router s1) @ [(rt_iface demo_route, q4)] \<and>
      t_socks s3 0 = Some k3 \<and> sk_state k3 = TCP_TIME_WAIT \<and> tm_timeout (sk_timewait k3) = TCP_TIMEWAIT_TIMEOUT \<and>
      unlinked 0 demo_k s3 \<and> tables (filter (\<lambda>p. \<not> acked (snd_nxt demo_k + 1) p) []) [] s3 \<and>
      dlist (t_links s3) Timer_List (map Timewait ([] @ [0])) \<and>
      (\<forall>f4. same_packet f4 q4 \<longrightarrow> (\<exists>r3 l3. handle_tcp_packet (\<lambda>_ s. s) f4 r2 = Some r3 \<and> same_ends demo_l l3 \<and>
        sk_state l3 = TCP_CLOSED \<and> linked 0 l3 (filter (\<lambda>p. \<not> acked (snd_nxt demo_l + 1) p) []) [] r3)))"
    using same by blast
  from f same obtain f4 r3 l3 where "handle_tcp_packet (\<lambda>_ s. s) f4 r2 = Some r3" "sk_state l3 = TCP_CLOSED" "t_socks r3 0 = Some l3"
    unfolding linked_def by blast
  with c show ?thesis by blast
qed

section \<open>The socket that stays\<close>

lemma reset_sent:
  assumes "reachable_via (cb_saddr cb) e mac (t_router t)"
  shows "\<exists>w. tcp_send_reset cb t = t \<lparr>t_router := w\<rparr> \<and> sends e mac (segment_cb (cb_daddr cb) (cb_saddr cb)
      (cb_dport cb) (cb_sport cb) 0 (cb_seq_end cb) (TCP_RST OR TCP_ACK) 0 []) (t_router t) w"
proof -
  define r1 where "r1 = snd (malloc 54 (t_router t))"
  define p0 where "p0 = fst (malloc 54 (t_router t))"
  define r2 where "r2 = snd (rand r1)"
  define p where "p = set_tcp_checksum (tcp_init_hdr (cb_dport cb) (cb_sport cb) 0 (cb_seq_end cb) (TCP_RST OR TCP_ACK) 0
    (ip_init_hdr (cb_daddr cb) (cb_saddr cb) 40 IPPROTO_TCP (fst (rand r1)) p0))"
  have "tcp_send_reset cb t = t \<lparr>t_router := host_send_packet p r2\<rparr>"
    by (simp add: tcp_send_reset_def stack_malloc_def stack_rand_def split_beta Let_def hdr_sizes r1_def r2_def p0_def p_def
        on_router_def)
  moreover have v: "reachable_via (cb_saddr cb) e mac r2" using assms by (simp add: r2_def r1_def)
  have "sends e mac (segment_cb (cb_daddr cb) (cb_saddr cb) (cb_dport cb) (cb_sport cb) 0 (cb_seq_end cb)
      (TCP_RST OR TCP_ACK) 0 []) r2 (host_send_packet p r2)"
    unfolding p_def by (rule control_packet [OF v]) (simp add: p0_def)
  then have "sends e mac (segment_cb (cb_daddr cb) (cb_saddr cb) (cb_dport cb) (cb_sport cb) 0 (cb_seq_end cb)
      (TCP_RST OR TCP_ACK) 0 []) (t_router t) (host_send_packet p r2)"
    by (simp add: sends_def r2_def r1_def)
  ultimately show ?thesis by blast
qed

text \<open>After the close the ports are taken for ever: the closed socket of the end that closed second
  stays in the table of connections. A SYN from the same address and port, the one that
  \<open>tcp_sock_connect\<close> always chooses, reaches it and not the listening socket, and is answered with
  RST; the connecting end answers the RST with a RST, is not woken and waits on in \<open>TCP_SYN_SENT\<close>.\<close>

theorem dead_socket_refuses:
  assumes b: "linked j l ps rs r" "sk_state l = TCP_CLOSED" and x: "crossed k l"
    and f: "carries f (segment_cb (sk_sip k) (sk_dip k) (sk_sport k) (sk_dport k) sq ak TCP_SYN wn [])"
    and a: "linked i k qs us s" "sk_state k = TCP_SYN_SENT"
    and v: "reachable_via (sk_dip k) e mac (t_router s)" "reachable_via (sk_dip l) e' mac' (t_router r)"
  shows "\<exists>w q. handle_tcp_packet other f r = Some (r \<lparr>t_router := w\<rparr>) \<and> r_out w = r_out (t_router r) @ [(rt_iface e', q)] \<and>
    (\<forall>g. same_packet g q \<longrightarrow> carries g (segment_cb (sk_sip l) (sk_dip l) (sk_sport l) (sk_dport l) 0 (sq + 1)
        (TCP_RST OR TCP_ACK) 0 []) \<and>
      (\<exists>w' q'. handle_tcp_packet other g s = Some (s \<lparr>t_router := w'\<rparr>) \<and>
        r_out w' = r_out (t_router s) @ [(rt_iface e, q')]))"
proof -
  let ?cb = "segment_cb (sk_dip l) (sk_sip l) (sk_dport l) (sk_sport l) sq ak TCP_SYN wn []"
  have f': "carries f ?cb" using f x by (simp add: crossed_def)
  have cb: "cb_daddr ?cb = sk_sip l" "cb_saddr ?cb = sk_dip l" "cb_dport ?cb = sk_sport l" "cb_sport ?cb = sk_dport l"
    "cb_seq_end ?cb = sq + 1" by (simp_all add: segment_cb_def tcp_flags)
  obtain w where w: "tcp_send_reset ?cb r = r \<lparr>t_router := w\<rparr>"
    "sends e' mac' (segment_cb (sk_sip l) (sk_dip l) (sk_sport l) (sk_dport l) 0 (sq + 1) (TCP_RST OR TCP_ACK) 0 []) (t_router r) w"
    using reset_sent [of ?cb e' mac' r] v(2) unfolding cb by blast
  have "tcp_process other (Some j) ?cb f r = Some (tcp_send_reset ?cb r)"
    using b by (simp add: tcp_process_def tcp_state_closed_def linked_def)
  then have run: "handle_tcp_packet other f r = Some (r \<lparr>t_router := w\<rparr>)"
    using handle_carried [OF f'] linked_lookup [OF b(1)] w(1) by simp
  obtain q where q: "r_out w = r_out (t_router r) @ [(rt_iface e', q)]"
    "\<And>g. same_packet g q \<Longrightarrow> carries g (segment_cb (sk_sip l) (sk_dip l) (sk_sport l) (sk_dport l) 0 (sq + 1) (TCP_RST OR TCP_ACK) 0 [])"
    using sends_frame [OF w(2)] by blast
  have "\<exists>w' q'. handle_tcp_packet other g s = Some (s \<lparr>t_router := w'\<rparr>) \<and> r_out w' = r_out (t_router s) @ [(rt_iface e, q')]"
    if "same_packet g q" for g
  proof -
    let ?cb = "segment_cb (sk_dip k) (sk_sip k) (sk_dport k) (sk_sport k) 0 (sq + 1) (TCP_RST OR TCP_ACK) 0 []"
    have g: "carries g ?cb" using q(2) [OF that] x by (simp add: crossed_def)
    have "cb_saddr ?cb = sk_dip k" "cb_flags ?cb AND (TCP_SYN OR TCP_ACK) \<noteq> TCP_SYN OR TCP_ACK"
      by (simp_all add: segment_cb_def tcp_flags)
    then have "tcp_process other (Some i) ?cb g s = Some (tcp_send_reset ?cb s)"
      using a by (simp add: tcp_process_def tcp_state_syn_sent_def linked_def)
    moreover obtain w' where w': "tcp_send_reset ?cb s = s \<lparr>t_router := w'\<rparr>"
      "sends e mac (segment_cb (cb_daddr ?cb) (cb_saddr ?cb) (cb_dport ?cb) (cb_sport ?cb) 0 (cb_seq_end ?cb)
        (TCP_RST OR TCP_ACK) 0 []) (t_router s) w'"
      using reset_sent [of ?cb e mac s] v(1) \<open>cb_saddr ?cb = sk_dip k\<close> by auto
    obtain q' where "r_out w' = r_out (t_router s) @ [(rt_iface e, q')]" using sends_frame [OF w'(2)] by blast
    ultimately show ?thesis
      using handle_carried [OF g] linked_lookup [OF a(1)] w'(1) by (intro exI [of _ w']) simp
  qed
  then show ?thesis using run q by blast
qed

lemma dead_socket_refuses_witness:
  "\<exists>f server server'. \<exists>client :: stack. handle_tcp_packet (\<lambda>_ s. s) f server = Some server' \<and>
    length (r_out (t_router server')) = 1 \<and> t_socks server' = t_socks server \<and>
    t_socks client 0 = Some (demo_k \<lparr>sk_state := TCP_SYN_SENT\<rparr>)"
proof -
  let ?k = "demo_k \<lparr>sk_state := TCP_SYN_SENT\<rparr>" and ?l = "demo_l \<lparr>sk_state := TCP_CLOSED\<rparr>"
  obtain h where h: "hashed 0 ?k (demo_open (t_router demo_client) ?k h)" "tables [] [] (demo_open (t_router demo_client) ?k h)"
    using demo_open_lists by blast
  obtain h' where h': "hashed 0 ?l (demo_open demo_router ?l h')" "tables [] [] (demo_open demo_router ?l h')"
    using demo_open_lists by blast
  have l: "linked 0 ?k [] [] (demo_open (t_router demo_client) ?k h)" "linked 0 ?l [] [] (demo_open demo_router ?l h')"
    using h h' by (simp_all add: linked_def) (simp_all add: demo_open_def)
  have v: "reachable_via (sk_dip ?k) demo_route [2, 0, 0, 0, 0, 1] (t_router (demo_open (t_router demo_client) ?k h))"
    "reachable_via (sk_dip ?l) demo_route demo_mac (t_router (demo_open demo_router ?l h'))"
    using demo_paths by simp_all
  have "tables [] [] (demo_open (t_router demo_client) ?k h)" "t_socks (demo_open (t_router demo_client) ?k h) 0 = Some ?k"
    "TCP_SYN AND (TCP_SYN OR TCP_FIN) \<noteq> 0" "TCP_SYN AND TCP_RST = 0"
    using h(2) by (simp_all add: demo_open_def tcp_flags)
  from control_sent [OF this v(1)] obtain w where
    "sends demo_route [2, 0, 0, 0, 0, 1] (segment_cb (sk_sip ?k) (sk_dip ?k) (sk_sport ?k) (sk_dport ?k) (snd_nxt ?k)
      (rcv_nxt ?k) TCP_SYN (rcv_wnd ?k) []) (t_router (demo_open (t_router demo_client) ?k h)) w" by blast
  then obtain q where q: "\<And>f. same_packet f q \<Longrightarrow> carries f (segment_cb (sk_sip ?k) (sk_dip ?k) (sk_sport ?k) (sk_dport ?k)
      (snd_nxt ?k) (rcv_nxt ?k) TCP_SYN (rcv_wnd ?k) [])" using sends_frame by blast
  have same: "same_packet q q" by (simp add: same_packet_def)
  have st: "sk_state ?l = TCP_CLOSED" "crossed ?k ?l" "sk_state ?k = TCP_SYN_SENT" by (simp_all add: demo_k_def demo_l_def crossed_def)
  from dead_socket_refuses [OF l(2) st(1,2) q [OF same] l(1) st(3) v, of "\<lambda>_ s. s"]
  obtain w q' where "handle_tcp_packet (\<lambda>_ s. s) q (demo_open demo_router ?l h') = Some ((demo_open demo_router ?l h') \<lparr>t_router := w\<rparr>)"
    "r_out w = r_out demo_router @ [(rt_iface demo_route, q')]"
    by (auto simp: demo_open_def)
  moreover have "r_out demo_router = []" by (simp add: demo_router_def)
  ultimately have "length (r_out (t_router ((demo_open demo_router ?l h') \<lparr>t_router := w\<rparr>))) = 1"
    "handle_tcp_packet (\<lambda>_ s. s) q (demo_open demo_router ?l h') = Some ((demo_open demo_router ?l h') \<lparr>t_router := w\<rparr>)"
    by simp_all
  moreover have "t_socks ((demo_open demo_router ?l h') \<lparr>t_router := w\<rparr>) = t_socks (demo_open demo_router ?l h')"
    "t_socks (demo_open (t_router demo_client) ?k h) 0 = Some ?k" by (simp_all add: demo_open_def)
  ultimately show ?thesis by (intro exI conjI)
qed

section \<open>The end of TIME-WAIT\<close>

fun wait_rounds :: "nat \<Rightarrow> stack \<Rightarrow> stack option" where
  "wait_rounds 0 s = Some s"
| "wait_rounds (Suc n) s = Option.bind (wait_rounds n s) tcp_scan_timer_list"

lemma wait_scan_one:
  assumes "dlist (t_links s) Timer_List [Timewait i]"
  shows "tcp_scan_timer_list s = map_option snd (scan_timer (Timewait i) s)"
proof -
  have "lnext (t_links s) Timer_List = Some (Timewait i)" "lnext (t_links s) (Timewait i) = Some Timer_List"
    using assms by (simp_all add: dlist_def)
  then show ?thesis
    by (cases "scan_timer (Timewait i) s")
      (auto simp: tcp_scan_timer_list_def list_for_each_safe_def for_each_safe.simps split: prod.splits)
qed

definition wait_left :: "nat \<Rightarrow> tcp_sock \<Rightarrow> nat \<Rightarrow> stack \<Rightarrow> stack" where
  "wait_left i k n s = s \<lparr>t_socks := (t_socks s)(i \<mapsto> k \<lparr>sk_timewait := (sk_timewait k)
     \<lparr>tm_timeout := TCP_TIMER_SCAN_INTERVAL * int n\<rparr>\<rparr>)\<rparr>"

lemma wait_goes_on:
  assumes "dlist (t_links s) Timer_List [Timewait i]" "tm_timeout (sk_timewait k) = TCP_TIMEWAIT_TIMEOUT"
    and "t_socks s i = Some k" "n < 20"
  shows "wait_rounds n s = Some (wait_left i k (20 - n) s)"
  using assms(4)
proof (induction n)
  case 0
  have "k \<lparr>sk_timewait := (sk_timewait k) \<lparr>tm_timeout := TCP_TIMER_SCAN_INTERVAL * int 20\<rparr>\<rparr> = k"
    using assms(2) by (simp add: TCP_TIMEWAIT_TIMEOUT_def TCP_TIMER_SCAN_INTERVAL_def)
  then show ?case using assms(3) by (simp add: wait_left_def fun_upd_idem)
next
  case (Suc n)
  define m where "m = 19 - n"
  have m: "20 - n = Suc m" "20 - Suc n = m" "0 < m" using Suc.prems by (simp_all add: m_def)
  have "dlist (t_links (wait_left i k (Suc m) s)) Timer_List [Timewait i]" using assms(1) by (simp add: wait_left_def)
  from wait_scan_one [OF this] have "tcp_scan_timer_list (wait_left i k (Suc m) s) = Some (wait_left i k m s)"
    using m(3) by (simp add: scan_timer_def wait_left_def upd_sock_def TCP_TIMER_SCAN_INTERVAL_def algebra_simps)
  then show ?case using Suc m by simp
qed

text \<open>\<open>TIME_WAIT\<close> lasts 20 scans of 100 ms, in which nothing changes; the last one takes the port and
  frees the socket, but also deletes the node of its retransmission timer again, which left the list
  when the FIN was acknowledged. With the neighbours of that time, here the empty list, this empties
  the list: the timers that other connections have set in the meantime are never scanned again, and
  their segments are never retransmitted.\<close>

theorem time_wait_drops_timers:
  assumes t: "dlist (t_links s) Timer_List [Timewait i]" "tm_timeout (sk_timewait k) = TCP_TIMEWAIT_TIMEOUT"
    and k: "t_socks s i = Some k" "sk_parent k = None" "ref_cnt k = 2"
    and b: "dlist (t_links s) (Bind b) (map Bind_Hash_List (bs @ i # bs'))"
    and r: "lnext (t_links s) (Retrans i) = Some Retrans_List" "lprev (t_links s) (Retrans i) = Some Retrans_List"
      "dlist (t_links s) Retrans_List (map Retrans rs)"
  shows "(\<forall>n < 20. \<exists>s'. wait_rounds n s = Some s' \<and> t_links s' = t_links s \<and> t_socks s' i \<noteq> None) \<and>
    (\<exists>s'. wait_rounds 20 s = Some s' \<and> t_socks s' = (t_socks s)(i := None) \<and> dlist (t_links s') Timer_List [] \<and>
      dlist (t_links s') (Bind b) (map Bind_Hash_List (bs @ bs')) \<and>
      dlist (t_links s') Retrans_List [] \<and> tcp_scan_retrans_timer_list s' = Some s')"
proof -
  let ?s = "wait_left i k 1 s"
  have r19: "wait_rounds 19 s = Some ?s" using wait_goes_on [OF t k(1), of 19] by simp
  have "dlist (t_links s) Timer_List ([] @ Timewait i # [])" using t(1) by simp
  from dlist_delete [OF this] obtain h1 where h1: "list_delete_entry (Timewait i) (t_links s) = Some h1" "dlist h1 Timer_List []"
    "\<forall>x. x \<notin> set [Timer_List] \<longrightarrow> lnext h1 x = lnext (t_links s) x \<and> lprev h1 x = lprev (t_links s) x" by auto
  define h2 where "h2 = set_next Retrans_List (Some Retrans_List) (set_prev Retrans_List (Some Retrans_List) h1)"
  have h2: "list_delete_entry (Retrans i) h1 = Some h2" "dlist h2 Retrans_List []" "dlist h2 Timer_List []"
    using h1 r by (auto simp: list_delete_entry_def h2_def dlist_def)
  have "dlist h2 (Bind b) (map Bind_Hash_List (bs @ i # bs'))"
    by (rule dlist_frame [OF b]) (use h1(3) in \<open>auto simp: h2_def\<close>)
  then have b2: "dlist h2 (Bind b) (map Bind_Hash_List bs @ Bind_Hash_List i # map Bind_Hash_List bs')" by simp
  from dlist_delete [OF b2] obtain h3 where h3: "list_delete_entry (Bind_Hash_List i) h2 = Some h3"
    "dlist h3 (Bind b) (map Bind_Hash_List bs @ map Bind_Hash_List bs')"
    "\<forall>x. x \<notin> set (Bind b # map Bind_Hash_List bs @ map Bind_Hash_List bs') \<longrightarrow> lnext h3 x = lnext h2 x \<and> lprev h3 x = lprev h2 x"
    by blast
  have "distinct (Bind b # map Bind_Hash_List bs @ Bind_Hash_List i # map Bind_Hash_List bs')" using b2 by (simp add: dlist_def)
  then have ne: "\<not> list_empty h2 (Bind_Hash_List i)"
    using dlist_next [OF b2] by (cases bs') (auto simp: list_empty_def)
  let ?s' = "s \<lparr>t_links := h3, t_socks := (t_socks s)(i := None)\<rparr>"
  have "scan_timer (Timewait i) ?s = Some (True, ?s')"
    using h1(1) h2(1) h3(1) ne k
    by (simp add: scan_timer_def wait_left_def upd_sock_def upd_links_def tcp_bind_unhash_def free_tcp_sock_def
        tcp_set_state_def Let_def)
  moreover have "dlist (t_links ?s) Timer_List [Timewait i]" using t(1) by (simp add: wait_left_def)
  ultimately have "tcp_scan_timer_list ?s = Some ?s'" using wait_scan_one [of ?s i] by simp
  then have "wait_rounds (Suc 19) s = Some ?s'" by (simp only: wait_rounds.simps r19 bind.bind_lunit)
  then have "wait_rounds 20 s = Some ?s'" by (simp only: Suc_numeral semiring_norm)
  moreover have d: "dlist h3 Timer_List []" "dlist h3 Retrans_List []"
    using h2(2,3) h3(3) [rule_format, of Timer_List] h3(3) [rule_format, of Retrans_List]
    by (simp_all add: dlist_def image_iff)
  moreover have "tcp_scan_retrans_timer_list ?s' = Some ?s'"
    using dlist_first [OF d(2)] by (simp add: tcp_scan_retrans_timer_list_def list_for_each_safe_def for_each_safe.simps [of _ Retrans_List _ Retrans_List])
  ultimately have "wait_rounds 20 s = Some ?s' \<and> t_socks ?s' = (t_socks s)(i := None) \<and> dlist (t_links ?s') Timer_List [] \<and>
      dlist (t_links ?s') (Bind b) (map Bind_Hash_List (bs @ bs')) \<and>
      dlist (t_links ?s') Retrans_List [] \<and> tcp_scan_retrans_timer_list ?s' = Some ?s'"
    using h3(2) by simp
  then have last: "\<exists>s'. wait_rounds 20 s = Some s' \<and> t_socks s' = (t_socks s)(i := None) \<and> dlist (t_links s') Timer_List [] \<and>
      dlist (t_links s') (Bind b) (map Bind_Hash_List (bs @ bs')) \<and>
      dlist (t_links s') Retrans_List [] \<and> tcp_scan_retrans_timer_list s' = Some s'" by (rule exI)
  have "\<exists>s'. wait_rounds n s = Some s' \<and> t_links s' = t_links s \<and> t_socks s' i \<noteq> None" if "n < 20" for n
    using wait_goes_on [OF t k(1) that] by (simp add: wait_left_def)
  with last show ?thesis by simp
qed

text \<open>A socket whose \<open>TIME_WAIT\<close> has begun while another one has set its timer.\<close>

lemma time_wait_drops_timers_witness:
  "\<exists>s s'. dlist (t_links s) Retrans_List [Retrans 1] \<and> wait_rounds 20 s = Some s' \<and> dlist (t_links s') Retrans_List []"
proof -
  let ?i = "\<lparr>lnext = Some, lprev = Some\<rparr>"
  have d: "dlist ?i l []" for l :: link by (simp add: dlist_def)
  have "Timewait 0 \<notin> set [Timer_List]" by simp
  from dlist_add_tail [OF d this] obtain h1 where h1: "dlist h1 Timer_List [Timewait 0]"
    "\<forall>x. x \<notin> {Timewait 0, Timer_List} \<longrightarrow> lnext h1 x = Some x \<and> lprev h1 x = Some x" by auto
  have "dlist h1 Retrans_List []" using h1(2) by (simp add: dlist_def)
  moreover have "Retrans 1 \<notin> set [Retrans_List]" by simp
  ultimately obtain h2 where h2: "dlist h2 Retrans_List [Retrans 1]"
    "\<forall>x. x \<notin> {Retrans 1, Retrans_List} \<longrightarrow> lnext h2 x = lnext h1 x \<and> lprev h2 x = lprev h1 x"
    using dlist_add_tail [of h1 Retrans_List "[]" "Retrans 1"] by auto
  have "dlist h2 (Bind 0) []" using h1(2) h2(2) by (simp add: dlist_def)
  moreover have "Bind_Hash_List 0 \<notin> set [Bind 0]" by simp
  ultimately obtain h3 where h3: "dlist h3 (Bind 0) [Bind_Hash_List 0]"
    "\<forall>x. x \<notin> {Bind_Hash_List 0, Bind 0} \<longrightarrow> lnext h3 x = lnext h2 x \<and> lprev h3 x = lprev h2 x"
    using dlist_add_tail [of h2 "Bind 0" "[]" "Bind_Hash_List 0"] by auto
  define h where "h = set_next (Retrans 0) (Some Retrans_List) (set_prev (Retrans 0) (Some Retrans_List) h3)"
  have "dlist h Timer_List [Timewait 0]"
    by (rule dlist_frame [OF h1(1)]) (use h2(2) h3(2) in \<open>simp add: h_def\<close>)
  moreover have r: "dlist h Retrans_List [Retrans 1]"
    by (rule dlist_frame [OF h2(1)]) (use h3(2) in \<open>simp add: h_def\<close>)
  moreover have "dlist h (Bind 0) [Bind_Hash_List 0]" by (rule dlist_frame [OF h3(1)]) (simp add: h_def)
  moreover define k where "k = fresh_sock \<lparr>ref_cnt := 2, sk_timewait := \<lparr>tm_type = 0, tm_timeout = 2000000, tm_retrans_times = 0\<rparr>\<rparr>"
  moreover define s where "s = demo_stack \<lparr>t_links := h, t_socks := [0 \<mapsto> k]\<rparr>"
  ultimately have s: "dlist (t_links s) Timer_List [Timewait 0]" "tm_timeout (sk_timewait k) = TCP_TIMEWAIT_TIMEOUT"
    "t_socks s 0 = Some k" "sk_parent k = None" "ref_cnt k = 2" "dlist (t_links s) (Bind 0) (map Bind_Hash_List ([] @ 0 # []))"
    "lnext (t_links s) (Retrans 0) = Some Retrans_List" "lprev (t_links s) (Retrans 0) = Some Retrans_List"
    "dlist (t_links s) Retrans_List (map Retrans [1])"
    by (simp_all add: TCP_TIMEWAIT_TIMEOUT_def fresh_sock_def h_def)
  from time_wait_drops_timers [OF s] s(9) show ?thesis by auto
qed

end
