(* ===== verification/TcpApps.thy ===== *)
theory TcpApps imports TcpClosing begin

text \<open>The applications of \<open>exp13/code/tcp_apps.c\<close> over the sockets: the client sends a file, the server
  writes what it reads to a file until the read fails, and both close. What the server's file holds
  at the end, and what becomes of its socket.\<close>

section \<open>The applications\<close>

definition RBUF_SIZE :: nat where "RBUF_SIZE = 4 * 1024 * 1024"

text \<open>What \<open>fprintf (f, "%s", rbuf)\<close> writes of a buffer that ends with zeros.\<close>

definition c_string :: "bytes \<Rightarrow> bytes" where
  "c_string buf = takeWhile (\<lambda>b. b \<noteq> 0) buf"

text \<open>The loop of the server. A read of the whole size would store the end of the text outside the
  buffer.\<close>

partial_function (option) server_loop :: "(nat \<Rightarrow> stack \<Rightarrow> stack) \<Rightarrow> nat \<Rightarrow> bytes \<Rightarrow> stack \<Rightarrow> (bytes \<times> stack) option" where
  "server_loop env csk file s =
     Option.bind (tcp_sock_read env csk (int RBUF_SIZE) s) (\<lambda>ros.
       let rlen = fst ros; rbuf = fst (snd ros); s = snd (snd ros)
       in if rlen < 0 then Some (file, s)
          else if 0 < rlen then
            if rlen < int RBUF_SIZE then server_loop env csk (file @ c_string rbuf) s else None
          else server_loop env csk file s)"

definition serve_connection :: "(nat \<Rightarrow> stack \<Rightarrow> stack) \<Rightarrow> nat \<Rightarrow> stack \<Rightarrow> (bytes \<times> stack) option" where
  "serve_connection env csk s = do {
     (file, s) \<leftarrow> server_loop env csk [] s;
     s \<leftarrow> tcp_sock_close csk s;
     Some (file, s)
   }"

text \<open>The port comes in network order. A null socket from \<open>tcp_sock_accept\<close> would be read from.\<close>

definition tcp_server :: "(nat \<Rightarrow> stack \<Rightarrow> stack) \<Rightarrow> u16 \<Rightarrow> stack \<Rightarrow> (bytes \<times> stack) option" where
  "tcp_server env port s = do {
     let (tsk, s) = alloc_tcp_sock s;
     (r, s) \<leftarrow> tcp_sock_bind tsk port s;
     if r < 0 then Some ([], s \<lparr>t_exited := True\<rparr>)
     else do {
       (r, s) \<leftarrow> tcp_sock_listen tsk 3 s;
       if r < 0 then Some ([], s \<lparr>t_exited := True\<rparr>)
       else do {
         (c, s) \<leftarrow> tcp_sock_accept env tsk s;
         csk \<leftarrow> c;
         serve_connection env csk s
       }
     }
   }"

text \<open>The client sends at most 4 MB of its file, and closes also when the write has failed.\<close>

definition tcp_client :: "(nat \<Rightarrow> stack \<Rightarrow> stack) \<Rightarrow> bytes \<Rightarrow> u32 \<Rightarrow> u16 \<Rightarrow> stack \<Rightarrow> stack option" where
  "tcp_client env file ip port s = do {
     let wbuf = take (4 * 1024 * 1024) file;
     let (tsk, s) = alloc_tcp_sock s;
     (r, s) \<leftarrow> tcp_sock_connect env tsk ip port s;
     if r < 0 then Some (s \<lparr>t_exited := True\<rparr>)
     else do {
       (_, s) \<leftarrow> tcp_sock_write env tsk wbuf s;
       tcp_sock_close tsk s
     }
   }"

section \<open>One read of the server\<close>

text \<open>The accepted socket between two reads: nothing unread, the timer off, and the one reference that
  the established table holds.\<close>

definition serves :: "nat \<Rightarrow> tcp_sock \<Rightarrow> bytes list \<Rightarrow> stack \<Rightarrow> bool" where
  "serves j l ps r \<longleftrightarrow> receiving j l ps r \<and> tables ps [] r \<and> timer_at j r \<and> ref_cnt l = 1 \<and>
     rb_contents (rcv_buf l) = [] \<and> \<not> sw_dead (sk_wait l Wait_Recv)"

lemma serves_upd:
  assumes "serves j l ps r" "same_ends l l'" "sk_state l' = sk_state l" "ref_cnt l' = ref_cnt l" "rcv_buf l' = rcv_buf l"
    and "sw_dead (sk_wait l' Wait_Recv) = sw_dead (sk_wait l Wait_Recv)"
  shows "serves j l' ps (r \<lparr>t_socks := (t_socks r)(j \<mapsto> l'), t_sleeps := n\<rparr>)"
proof -
  let ?r = "r \<lparr>t_socks := (t_socks r)(j \<mapsto> l'), t_sleeps := n\<rparr>"
  have h: "hashed j l r" using assms(1) by (simp add: serves_def receiving_def)
  have "hashed j l' ?r"
    by (rule hashed_keep [OF h, of "{}", OF _ _ assms(2)]) (simp_all add: links_keep_def)
  moreover have "tables ps [] ?r" "timers_linked ?r" "timer_at j ?r" "ofo_holds j [] ?r"
    using assms(1) by (simp_all add: serves_def receiving_def timers_linked_def timer_at_def ofo_empty)
  moreover from this(1) have "buffered ps ?r" by (simp add: tables_def)
  ultimately show ?thesis
    using assms by (simp add: serves_def receiving_def)
qed

text \<open>Going to sleep, and waking, only touch the waiting structure.\<close>

definition asleep :: "tcp_sock \<Rightarrow> tcp_sock" where
  "asleep = upd_wait Wait_Recv (\<lambda>x. x \<lparr>sw_sleep := True\<rparr>)"

definition awake :: "tcp_sock \<Rightarrow> tcp_sock" where
  "awake = upd_wait Wait_Recv (\<lambda>x. x \<lparr>sw_notified := False, sw_sleep := False\<rparr>)"

lemma sleep_simps [simp]:
  "same_ends l (asleep l)" "sk_state (asleep l) = sk_state l" "ref_cnt (asleep l) = ref_cnt l" "rcv_buf (asleep l) = rcv_buf l"
  "sw_dead (sk_wait (asleep l) Wait_Recv) = sw_dead (sk_wait l Wait_Recv)" "rcv_nxt (asleep l) = rcv_nxt l"
  "same_ends l (awake l)" "sk_state (awake l) = sk_state l" "ref_cnt (awake l) = ref_cnt l" "rcv_buf (awake l) = rcv_buf l"
  "sw_dead (sk_wait (awake l) Wait_Recv) = sw_dead (sk_wait l Wait_Recv)" "rcv_nxt (awake l) = rcv_nxt l"
  "\<not> sw_notified (sk_wait (awake l) Wait_Recv)"
  by (simp_all add: asleep_def awake_def upd_wait_def same_ends_def)

text \<open>A socket that was notified while it was not sleeping goes once round the loop; then it sleeps.\<close>

definition sleeping :: "nat \<Rightarrow> tcp_sock \<Rightarrow> stack \<Rightarrow> stack" where
  "sleeping j l r = r \<lparr>t_socks := (t_socks r)(j \<mapsto> l), t_sleeps := t_sleeps r + 1\<rparr>"

lemma read_sleeps:
  assumes s: "serves j l ps r"
  shows "\<exists>l0. serves j l0 ps (sleeping j l0 r) \<and> same_ends l l0 \<and> rcv_nxt l0 = rcv_nxt l \<and> rcv_buf l0 = rcv_buf l \<and>
    (\<forall>env r1 l1. env (t_sleeps r) (sleeping j l0 r) = r1 \<longrightarrow> t_socks r1 j = Some l1 \<longrightarrow>
      wait_data env j r = (if sw_dead (sk_wait l1 Wait_Recv) then Some (- 1, r1 \<lparr>t_socks := (t_socks r1)(j \<mapsto> awake l1)\<rparr>)
        else wait_data env j (r1 \<lparr>t_socks := (t_socks r1)(j \<mapsto> awake l1)\<rparr>)))"
proof -
  from s have l: "t_socks r j = Some l" "rb_contents (rcv_buf l) = []" "\<not> sw_dead (sk_wait l Wait_Recv)"
    by (simp_all add: serves_def receiving_def)
  then have empty: "ring_buffer_empty (rcv_buf l)" by (simp add: ring_buffer_empty_def rb_contents_def)
  have once: "wait_data env j t = (if sw_dead (sk_wait l1 Wait_Recv)
        then Some (- 1, r1 \<lparr>t_socks := (t_socks r1)(j \<mapsto> awake l1)\<rparr>)
        else wait_data env j (r1 \<lparr>t_socks := (t_socks r1)(j \<mapsto> awake l1)\<rparr>))"
    if "t_socks t j = Some m" "ring_buffer_empty (rcv_buf m)" "\<not> sw_dead (sk_wait m Wait_Recv)"
      "\<not> sw_notified (sk_wait m Wait_Recv)" "env (t_sleeps t) (sleeping j (asleep m) t) = r1" "t_socks r1 j = Some l1"
    for env t m r1 l1
  proof -
    have "sleep_on env j Wait_Recv t = Some (if sw_dead (sk_wait l1 Wait_Recv) then - 1 else 0,
        r1 \<lparr>t_socks := (t_socks r1)(j \<mapsto> awake l1)\<rparr>)"
      using that by (simp add: sleep_on_def upd_sock_def asleep_def [symmetric] awake_def [symmetric] sleeping_def Let_def)
    then show ?thesis using that(1,2) by (subst wait_data.simps) simp
  qed
  show ?thesis
  proof (cases "sw_notified (sk_wait l Wait_Recv)")
    case False
    have "serves j (asleep l) ps (sleeping j (asleep l) r)"
      unfolding sleeping_def by (rule serves_upd [OF s]) simp_all
    then show ?thesis
      using once [OF l(1) empty l(3) False] by (intro exI [of _ "asleep l"]) simp
  next
    case True
    let ?m = "awake (asleep l)" and ?t = "r \<lparr>t_socks := (t_socks r)(j \<mapsto> awake (asleep l))\<rparr>"
    have "sleep_on env j Wait_Recv r = Some (0, ?t)" for env
      using l True by (simp add: sleep_on_def upd_sock_def asleep_def awake_def Let_def) (simp add: upd_wait_def)
    then have w: "wait_data env j r = wait_data env j ?t" for env
      using l empty by (subst wait_data.simps) simp
    have m: "t_socks ?t j = Some ?m" "ring_buffer_empty (rcv_buf ?m)" "\<not> sw_dead (sk_wait ?m Wait_Recv)"
      "\<not> sw_notified (sk_wait ?m Wait_Recv)" using empty l(3) by simp_all
    have t: "sleeping j (asleep ?m) ?t = sleeping j (asleep ?m) r" "t_sleeps ?t = t_sleeps r" by (simp_all add: sleeping_def)
    have e: "same_ends l (asleep ?m)" by (simp add: asleep_def awake_def upd_wait_def same_ends_def)
    have "serves j (asleep ?m) ps (sleeping j (asleep ?m) r)"
      unfolding sleeping_def by (rule serves_upd [OF s e]) simp_all
    then show ?thesis
      using once [OF m] e unfolding w t by (intro exI [of _ "asleep ?m"]) simp
  qed
qed

lemma drained:
  assumes "rb_ok q" "rb_size q = 65535" "int (length (rb_contents q)) \<le> int RBUF_SIZE"
    and "read_ring_buffer q (int RBUF_SIZE) = (out, len, q')"
  shows "len = int (length (rb_contents q))" "out = rb_contents q" "rb_ok q'" "rb_contents q' = []" "rb_size q' = 65535"
proof -
  note ok = rb.get_ok [OF assms(1,4)]
  show "len = int (length (rb_contents q))" "out = rb_contents q" "rb_ok q'"
    using ok assms(3) by simp_all
  then show c: "rb_contents q' = []" using ok by (metis append_self_conv)
  have "ring_buffer_used q' = 0" "ring_buffer_used q = length out"
    using arg_cong [OF c, of length] arg_cong [OF \<open>out = rb_contents q\<close>, of length] by (simp_all add: rb_contents_def)
  then show "rb_size q' = 65535"
    using conjunct2 [OF conjunct2 [OF conjunct2 [OF conjunct2 [OF ok]]]] assms(2) by (simp add: ring_buffer_free_def)
qed

text \<open>The end of a read that found data: the buffer is empty, the reader has woken itself, and the timer
  that the segment set is off.\<close>

lemma read_ends:
  assumes r: "receiving j l ps r" "dlist (t_links r) Retrans_List [Retrans j]" "ref_cnt l = 2"
    and c: "rb_contents (rcv_buf l) \<noteq> []" "\<not> sw_dead (sk_wait l Wait_Recv)"
  shows "\<exists>r' l'. (\<forall>env. wait_data env j r = Some (0, r)) \<and>
    (\<forall>env. tcp_sock_read env j (int RBUF_SIZE) r = Some (int (length (rb_contents (rcv_buf l))), rb_contents (rcv_buf l), r')) \<and>
    serves j l' ps r' \<and> same_ends l l' \<and> rcv_nxt l' = rcv_nxt l \<and> t_sleeps r' = t_sleeps r \<and> t_router r' = t_router r"
proof -
  from r(1) have s: "t_socks r j = Some l" "hashed j l r" "buffered ps r" "ofo_holds j [] r" "rb_ok (rcv_buf l)"
    "rb_size (rcv_buf l) = 65535" "sk_state l = TCP_ESTABLISHED" by (simp_all add: receiving_def)
  obtain out len q where g: "read_ring_buffer (rcv_buf l) (int RBUF_SIZE) = (out, len, q)" using prod_cases3 by blast
  have "length (rb_contents (rcv_buf l)) \<le> 65535"
    using used_less [OF s(5)] s(6) by (simp add: rb_contents_def)
  then have "int (length (rb_contents (rcv_buf l))) \<le> int RBUF_SIZE" by (simp add: RBUF_SIZE_def)
  note q = drained [OF s(5,6) this g]
  define l1 where "l1 = upd_wait Wait_Recv (\<lambda>x. if sw_dead x then x
    else if \<not> sw_notified x then x \<lparr>sw_notified := True\<rparr> else x) (l \<lparr>rcv_buf := q\<rparr>)"
  define r1 where "r1 = r \<lparr>t_socks := (t_socks r)(j \<mapsto> l1)\<rparr>"
  have l1: "same_ends l l1" "sk_state l1 = TCP_ESTABLISHED" "ref_cnt l1 = 2" "rcv_buf l1 = q" "rcv_nxt l1 = rcv_nxt l"
    "\<not> sw_dead (sk_wait l1 Wait_Recv)"
    using s(7) r(3) c(2) by (simp_all add: l1_def upd_wait_def same_ends_def)
  have t1: "tables ps ([] @ j # []) r1" "t_socks r1 j = Some l1" "1 < ref_cnt l1"
    using s(3) r(2) l1(3) by (simp_all add: r1_def tables_def)
  from timer_stop [OF t1] obtain h where h: "tcp_stop_retrans_timewait_timer j r1 = Some (r1 \<lparr>t_links := h,
      t_socks := (t_socks r1)(j \<mapsto> l1 \<lparr>ref_cnt := ref_cnt l1 - 1\<rparr>)\<rparr>)"
    "tables ps ([] @ []) (r1 \<lparr>t_links := h\<rparr>)" "links_keep timer_nodes r1 (r1 \<lparr>t_links := h\<rparr>)"
    "lnext h (Retrans j) = lnext (t_links r1) (Retrans j)" "lprev h (Retrans j) = lprev (t_links r1) (Retrans j)" by blast
  define l2 where "l2 = l1 \<lparr>ref_cnt := ref_cnt l1 - 1\<rparr>"
  define r2 where "r2 = r1 \<lparr>t_links := h, t_socks := (t_socks r1)(j \<mapsto> l2)\<rparr>"
  have l2: "same_ends l l2" "sk_state l2 = TCP_ESTABLISHED" "ref_cnt l2 = 1" "rcv_buf l2 = q" "rcv_nxt l2 = rcv_nxt l"
    "\<not> sw_dead (sk_wait l2 Wait_Recv)"
    using l1 by (simp_all add: l2_def same_ends_def)
  have k: "links_keep timer_nodes r r2" using h(3) by (simp add: links_keep_def r2_def r1_def)
  have "hashed j l2 r2"
    by (rule hashed_keep [OF s(2) k _ l2(1)]) (auto simp: node_sets r2_def r1_def)
  moreover have t2: "tables ps [] r2"
  proof -
    have "r2 = (r1 \<lparr>t_links := h\<rparr>) \<lparr>t_socks := (t_socks r1)(j \<mapsto> l2)\<rparr>" by (simp add: r2_def)
    then show ?thesis using h(2) by simp
  qed
  moreover have "ofo_holds j [] r2"
    unfolding ofo_empty by (rule dlist_keep [OF k]) (use s(4) in \<open>auto simp: ofo_empty node_sets\<close>)
  moreover have "chain (t_links r) (Retrans_List # Retrans j # Retrans_List # [])"
    using r(2) by (simp add: dlist_def)
  then have "timer_at j r2"
    using h(4,5) by (simp add: timer_at_def r2_def r1_def timer_nodes_def)
  ultimately have "serves j l2 ps r2"
    using l2 q(3-5) tables_linked [OF t2] by (simp add: serves_def receiving_def r2_def tables_def)
  moreover have "\<not> ring_buffer_empty (rcv_buf l)" using c(1) by (simp add: ring_buffer_empty_def rb_contents_def)
  then have w: "wait_data env j r = Some (0, r)" for env by (subst wait_data.simps) (simp add: s(1))
  then have "tcp_sock_read env j (int RBUF_SIZE) r = Some (len, out, r2)" for env
    using h(1) by (simp add: tcp_sock_read_def s(1) g upd_sock_def wake_up_def l1_def [symmetric] r1_def [symmetric]
        l2_def [symmetric] r2_def [symmetric])
  ultimately show ?thesis
    using w l2 q(1,2) by (intro exI [of _ r2] exI [of _ l2]) (simp add: r2_def r1_def)
qed

lemma segment_read:
  assumes s: "serves j l ps r"
    and f: "brings f (segment_cb (sk_dip l) (sk_sip l) (sk_dport l) (sk_sport l) (rcv_nxt l) ak (TCP_PSH OR TCP_ACK) wn d)"
    and d: "proper d" "length d \<le> 65534" and v: "reachable_via (sk_dip l) e mac (t_router r)"
    and env: "\<forall>t. env (t_sleeps r) t = the (handle_tcp_packet other f t)"
  shows "\<exists>r' l' p. tcp_sock_read env j (int RBUF_SIZE) r = Some (int (length d), d, r') \<and> serves j l' (ps @ [p]) r' \<and>
    same_ends l l' \<and> rcv_nxt l' = rcv_nxt l + of_nat (length d) \<and> t_sleeps r' = t_sleeps r + 1 \<and>
    reachable_via (sk_dip l) e mac (t_router r')"
proof -
  obtain l0 where l0: "serves j l0 ps (sleeping j l0 r)" "same_ends l l0" "rcv_nxt l0 = rcv_nxt l" "rcv_buf l0 = rcv_buf l"
    and wait: "\<And>env r1 l1. env (t_sleeps r) (sleeping j l0 r) = r1 \<Longrightarrow> t_socks r1 j = Some l1 \<Longrightarrow>
      wait_data env j r = (if sw_dead (sk_wait l1 Wait_Recv) then Some (- 1, r1 \<lparr>t_socks := (t_socks r1)(j \<mapsto> awake l1)\<rparr>)
        else wait_data env j (r1 \<lparr>t_socks := (t_socks r1)(j \<mapsto> awake l1)\<rparr>))"
    using read_sleeps [OF s] by blast
  let ?r = "sleeping j l0 r"
  have ends: "sk_dip l0 = sk_dip l" "sk_sip l0 = sk_sip l" "sk_dport l0 = sk_dport l" "sk_sport l0 = sk_sport l"
    using l0(2) by (simp_all add: same_ends_def)
  have r0: "receiving j l0 ps ?r" "tables ps [] ?r" "ref_cnt l0 = 1" "rb_contents (rcv_buf l0) = []"
    "\<not> sw_dead (sk_wait l0 Wait_Recv)" using l0(1) by (simp_all add: serves_def)
  have "rb_size (rcv_buf l0) = 65535" "ring_buffer_used (rcv_buf l0) = 0"
    using r0(1) arg_cong [OF r0(4), of length] by (simp_all add: receiving_def rb_contents_def)
  then have room: "int (length d) \<le> ring_buffer_free (rcv_buf l0)" using d(2) by (simp add: ring_buffer_free_def)
  have v0: "reachable_via (sk_dip l0) e mac (t_router ?r)" using v by (simp add: sleeping_def ends)
  from segment_received [OF r0(1) f [folded ends l0(3)] d(1) room v0, of other] obtain r1 l1 p where
    h: "handle_tcp_packet other f ?r = Some r1" "receiving j l1 (ps @ [p]) r1" "rb_contents (rcv_buf l1) = rb_contents (rcv_buf l0) @ d"
      "rcv_nxt l1 = rcv_nxt l0 + of_nat (length d)" "same_ends l0 l1"
      "sw_dead (sk_wait l1 Wait_Recv) = sw_dead (sk_wait l0 Wait_Recv)" "reachable_via (sk_dip l0) e mac (t_router r1)"
      "dlist (t_links ?r) Retrans_List [] \<longrightarrow> dlist (t_links r1) Retrans_List [Retrans j]"
      "ref_cnt l1 = ref_cnt l0 + 1" "t_sleeps r1 = t_sleeps ?r"
    by (elim exE conjE) (rule that)
  define r2 where "r2 = r1 \<lparr>t_socks := (t_socks r1)(j \<mapsto> awake l1)\<rparr>"
  have s1: "t_socks r1 j = Some l1" using h(2) by (simp add: receiving_def)
  have t1: "dlist (t_links r1) Retrans_List [Retrans j]" using h(8) r0(2) by (simp add: tables_def)
  have rec2: "receiving j (awake l1) (ps @ [p]) r2"
  proof -
    have hs: "hashed j l1 r1" using h(2) by (simp add: receiving_def)
    have "hashed j (awake l1) r2"
      by (rule hashed_keep [OF hs, of "{}"]) (simp_all add: r2_def links_keep_def)
    moreover have "buffered (ps @ [p]) r2"
      using h(2) by (simp add: receiving_def r2_def buffered_def blocks_hold_def)
    ultimately show ?thesis using h(2) by (simp add: receiving_def r2_def timers_linked_def ofo_empty)
  qed
  have c2: "rb_contents (rcv_buf (awake l1)) = d" "\<not> sw_dead (sk_wait (awake l1) Wait_Recv)" "ref_cnt (awake l1) = 2"
    "dlist (t_links r2) Retrans_List [Retrans j]"
    using h(3,6,9) r0(3-5) t1 by (simp_all add: r2_def)
  have "rb_contents (rcv_buf (awake l1)) \<noteq> []" using c2(1) proper_nonempty [OF d(1)] by simp
  from read_ends [OF rec2 c2(4,3) this c2(2)] obtain r3 l3 where
    e: "\<And>env. wait_data env j r2 = Some (0, r2)"
      "\<And>env. tcp_sock_read env j (int RBUF_SIZE) r2 = Some (int (length d), d, r3)"
      "serves j l3 (ps @ [p]) r3" "same_ends (awake l1) l3" "rcv_nxt l3 = rcv_nxt (awake l1)" "t_sleeps r3 = t_sleeps r2"
      "t_router r3 = t_router r2"
    unfolding c2(1) by blast
  have "env (t_sleeps r) ?r = r1" using env h(1) by simp
  from wait [of env r1 l1, OF this s1] have "wait_data env j r = wait_data env j r2" using h(6) r0(5) by (simp add: r2_def)
  then have "tcp_sock_read env j (int RBUF_SIZE) r = tcp_sock_read env j (int RBUF_SIZE) r2" by (simp add: tcp_sock_read_def)
  moreover have "same_ends l l3" using l0(2) h(5) e(4) by (simp add: same_ends_def awake_def upd_wait_def)
  ultimately show ?thesis
    using e h(4,7,10) l0(3) ends by (intro exI [of _ r3] exI [of _ l3] exI [of _ p]) (simp add: r2_def sleeping_def)
qed

text \<open>The read that the FIN ends. It stops a timer that is off, and with it drops the reference of the
  table: the socket is freed.\<close>

lemma fin_read:
  assumes s: "serves j l ps r"
    and f: "carries f (segment_cb (sk_dip l) (sk_sip l) (sk_dport l) (sk_sport l) sq ak (TCP_FIN OR TCP_ACK) wn [])"
    and v: "reachable_via (sk_dip l) e mac (t_router r)"
    and env: "\<forall>t. env (t_sleeps r) t = the (handle_tcp_packet other f t)"
  shows "\<exists>r' r1 l1. tcp_sock_read env j n r = Some (- 1, [], r') \<and> t_socks r' = (t_socks r1)(j := None) \<and> t_socks r1 j = Some l1 \<and>
    hashed j l1 r1 \<and> same_ends l l1 \<and> sk_state l1 = TCP_CLOSE_WAIT \<and> links_keep timer_nodes r1 r'"
proof -
  obtain l0 where l0: "serves j l0 ps (sleeping j l0 r)" "same_ends l l0"
    and wait: "\<And>env r1 l1. env (t_sleeps r) (sleeping j l0 r) = r1 \<Longrightarrow> t_socks r1 j = Some l1 \<Longrightarrow>
      wait_data env j r = (if sw_dead (sk_wait l1 Wait_Recv) then Some (- 1, r1 \<lparr>t_socks := (t_socks r1)(j \<mapsto> awake l1)\<rparr>)
        else wait_data env j (r1 \<lparr>t_socks := (t_socks r1)(j \<mapsto> awake l1)\<rparr>))"
    using read_sleeps [OF s] by blast
  let ?r = "sleeping j l0 r"
  have ends: "sk_dip l0 = sk_dip l" "sk_sip l0 = sk_sip l" "sk_dport l0 = sk_dport l" "sk_sport l0 = sk_sport l"
    using l0(2) by (simp_all add: same_ends_def)
  have r0: "linked j l0 ps [] ?r" "sk_state l0 = TCP_ESTABLISHED" "ref_cnt l0 = 1" "timer_at j ?r"
    using l0(1) by (simp_all add: serves_def receiving_def linked_def)
  have v0: "reachable_via (sk_dip l0) e mac (t_router ?r)" using v by (simp add: sleeping_def ends)
  from fin_taken [OF r0(1,2) f [folded ends] v0, of other] obtain r1 l1 where
    h: "handle_tcp_packet other f ?r = Some r1" "linked j l1 ps [] r1" "same_ends l0 l1" "sk_state l1 = TCP_CLOSE_WAIT"
      "ref_cnt l1 = ref_cnt l0" "sw_dead (sk_wait l1 Wait_Recv)" "t_links r1 = t_links ?r"
    by blast
  define r2 where "r2 = r1 \<lparr>t_socks := (t_socks r1)(j \<mapsto> awake l1)\<rparr>"
  have s1: "t_socks r1 j = Some l1" "hashed j l1 r1" using h(2) by (simp_all add: linked_def)
  have "env (t_sleeps r) ?r = r1" using env h(1) by simp
  from wait [of env r1 l1, OF this s1(1)] have w: "wait_data env j r = Some (- 1, r2)" using h(6) by (simp add: r2_def)
  from r0(4) h(7) obtain p m where pm: "p \<in> timer_nodes" "m \<in> timer_nodes" "lprev (t_links r1) (Retrans j) = Some p"
    "lnext (t_links r1) (Retrans j) = Some m" by (auto simp: timer_at_def)
  define g where "g = set_next p (Some m) (set_prev m (Some p) (t_links r1))"
  have "list_delete_entry (Retrans j) (t_links r2) = Some g"
    using pm(4) by (auto simp: list_delete_entry_def r2_def pm(3) pm(4) g_def)
  then have st: "tcp_stop_retrans_timewait_timer j r2 = Some (r2 \<lparr>t_links := g, t_socks := (t_socks r2)(j := None)\<rparr>)"
    using h(5) r0(3) by (simp add: tcp_stop_retrans_timewait_timer_def upd_links_def free_tcp_sock_def Let_def r2_def)
  let ?r' = "r2 \<lparr>t_links := g, t_socks := (t_socks r2)(j := None)\<rparr>"
  have "links_keep timer_nodes r1 ?r'" using pm(1,2) by (auto simp: links_keep_def g_def)
  moreover have "tcp_sock_read env j n r = Some (- 1, [], ?r')" by (simp add: tcp_sock_read_def w st)
  moreover have "same_ends l l1" using l0(2) h(3) by (simp add: same_ends_def)
  ultimately show ?thesis
    using s1 h(4) by (intro exI [of _ ?r'] exI [of _ r1] exI [of _ l1]) (simp add: r2_def)
qed

section \<open>All reads\<close>

lemma loop_stream:
  assumes "serves j l ps r" "stream k (rcv_nxt l) ds qs" "list_all2 same_packet gs qs" "crossed l k"
    and "\<forall>d \<in> set ds. proper d \<and> length d \<le> 65534" "reachable_via (sk_dip l) e mac (t_router r)"
    and "\<forall>n < length gs. \<forall>t. env (t_sleeps r + n) t = the (handle_tcp_packet other (gs ! n) t)"
  shows "\<exists>r' l' ps'. server_loop env j written r = server_loop env j (written @ concat (map c_string ds)) r' \<and>
    serves j l' ps' r' \<and> same_ends l l' \<and> t_sleeps r' = t_sleeps r + length gs \<and>
    reachable_via (sk_dip l) e mac (t_router r')"
  using assms
proof (induction ds arbitrary: l ps r qs gs written)
  case Nil
  then have "gs = []" by (cases qs) auto
  then show ?case
    using Nil.prems(1,6) by (intro exI [of _ r] exI [of _ l] exI [of _ ps]) simp
next
  case (Cons d ds)
  from Cons.prems(2) obtain q qs1 where q: "qs = q # qs1" by (cases qs) auto
  with Cons.prems(3) obtain g gs1 where g: "gs = g # gs1" "same_packet g q" "list_all2 same_packet gs1 qs1"
    by (auto simp: list_all2_Cons2)
  have x: "sk_sip k = sk_dip l" "sk_dip k = sk_sip l" "sk_sport k = sk_dport l" "sk_dport k = sk_sport l"
    using Cons.prems(4) by (simp_all add: crossed_def)
  have st: "brings g (segment_cb (sk_dip l) (sk_sip l) (sk_dport l) (sk_sport l) (rcv_nxt l) (rcv_nxt k)
      (TCP_PSH OR TCP_ACK) (rcv_wnd k) d)" "stream k (rcv_nxt l + of_nat (length d)) ds qs1"
    using Cons.prems(2) g(2) by (simp_all add: q x)
  have d: "proper d" "length d \<le> 65534" "\<forall>d \<in> set ds. proper d \<and> length d \<le> 65534" using Cons.prems(5) by simp_all
  have e0: "\<forall>t. env (t_sleeps r) t = the (handle_tcp_packet other g t)"
    using Cons.prems(7) by (auto simp: g(1) dest: spec [of _ 0])
  from segment_read [where env = env, OF Cons.prems(1) st(1) d(1,2) Cons.prems(6) e0] obtain r1 l1 p where
    h: "tcp_sock_read env j (int RBUF_SIZE) r = Some (int (length d), d, r1)" "serves j l1 (ps @ [p]) r1" "same_ends l l1"
    "rcv_nxt l1 = rcv_nxt l + of_nat (length d)" "t_sleeps r1 = t_sleeps r + 1" "reachable_via (sk_dip l) e mac (t_router r1)"
    by blast
  have step: "server_loop env j written r = server_loop env j (written @ c_string d) r1"
    using proper_nonempty [OF d(1)] d(2) by (subst server_loop.simps, simp only: h(1), simp add: RBUF_SIZE_def)
  have v1: "reachable_via (sk_dip l1) e mac (t_router r1)" and x1: "crossed l1 k"
    using h(3,6) Cons.prems(4) by (simp_all add: same_ends_def crossed_def)
  have e1: "\<forall>n < length gs1. \<forall>t. env (t_sleeps r1 + n) t = the (handle_tcp_packet other (gs1 ! n) t)"
  proof (intro allI impI)
    fix n t assume "n < length gs1"
    then show "env (t_sleeps r1 + n) t = the (handle_tcp_packet other (gs1 ! n) t)"
      using Cons.prems(7) [rule_format, of "Suc n" t] by (simp add: g(1) h(5))
  qed
  from Cons.IH [OF h(2) st(2) [folded h(4)] g(3) x1 d(3) v1 e1, of "written @ c_string d"] obtain r' l' ps' where
    t: "server_loop env j (written @ c_string d) r1 = server_loop env j ((written @ c_string d) @ concat (map c_string ds)) r'"
    "serves j l' ps' r'" "same_ends l1 l'" "t_sleeps r' = t_sleeps r1 + length gs1" "reachable_via (sk_dip l1) e mac (t_router r')"
    by blast
  have "reachable_via (sk_dip l) e mac (t_router r')" using t(5) h(3) by (simp add: same_ends_def)
  then show ?case
    using t(1-4) step h(5) same_ends_trans [OF h(3) t(3)]
    by (intro exI [of _ r'] exI [of _ l'] exI [of _ ps']) (simp add: g(1))
qed

text \<open>A search that comes to a node whose test reads freed memory.\<close>

lemma find_from_undefined:
  "chain h (xs @ y # zs) \<Longrightarrow> head \<notin> set (xs @ [y]) \<Longrightarrow> \<forall>x \<in> set xs. P x = Some False \<Longrightarrow> P y = None \<Longrightarrow>
    find_from h head P (hd (xs @ [y])) = None"
proof (induction xs)
  case Nil
  then show ?case by (subst find_from.simps) simp
next
  case (Cons x xs)
  have "lnext h x = Some (hd (xs @ [y]))" "chain h (xs @ y # zs)"
    using Cons.prems(1) by (cases xs; simp)+
  then show ?case using Cons by (subst find_from.simps) auto
qed

lemma freed_lookup:
  assumes h: "hashed j l r" and k: "links_keep timer_nodes r r'" and s: "t_socks r' = (t_socks r)(j := None)"
  shows "tcp_sock_lookup (segment_cb (sk_dip l) (sk_sip l) (sk_dport l) (sk_sport l) sq ak fl wn d) r' = None"
proof -
  let ?a = "Established (tcp_hash_function (sk_sip l) (sk_dip l) (sk_sport l) (sk_dport l))"
  let ?P = "\<lambda>p. case p of Hash_List i \<Rightarrow> map_option (same_tuple (sk_sip l) (sk_dip l) (sk_sport l) (sk_dport l)) (t_socks r' i) | _ \<Rightarrow> None"
  from h obtain es es' where es: "dlist (t_links r) ?a (map Hash_List (es @ j # es'))"
    "\<forall>i \<in> set es. \<exists>m. t_socks r i = Some m \<and> \<not> same_tuple (sk_sip l) (sk_dip l) (sk_sport l) (sk_dport l) m"
    by (auto simp: hashed_def)
  have "dlist (t_links r') ?a (map Hash_List (es @ j # es'))"
    by (rule dlist_keep [OF k es(1)]) (auto simp: node_sets)
  then have d: "chain (t_links r') (?a # map Hash_List es @ Hash_List j # (map Hash_List es' @ [?a]))"
    "?a \<notin> set (map Hash_List es @ [Hash_List j])" "distinct (es @ j # es')"
    by (auto simp: dlist_def distinct_map)
  have n: "lnext (t_links r') ?a = Some (hd (map Hash_List es @ [Hash_List j]))"
    "chain (t_links r') (map Hash_List es @ Hash_List j # (map Hash_List es' @ [?a]))"
    using d(1) by (cases es; simp)+
  have "\<forall>x \<in> set (map Hash_List es). ?P x = Some False" "?P (Hash_List j) = None"
    using es(2) d(3) by (auto simp: s)
  from find_from_undefined [OF n(2) d(2) this] n(1)
  have "find_sock ?a (same_tuple (sk_sip l) (sk_dip l) (sk_sport l) (sk_dport l)) r' = None"
    by (simp add: find_sock_def list_find_def)
  then show ?thesis by (simp add: tcp_sock_lookup_def tcp_sock_lookup_established_def segment_cb_def)
qed

text \<open>The whole loop.\<close>

lemma loop_ends:
  assumes s: "serves j l ps r" and x: "crossed l k" and v: "reachable_via (sk_dip l) e mac (t_router r)"
    and st: "stream k (rcv_nxt l) ds qs" "list_all2 same_packet gs qs" "\<forall>d \<in> set ds. proper d \<and> length d \<le> 65534"
    and f: "carries f (segment_cb (sk_dip l) (sk_sip l) (sk_dport l) (sk_sport l) sq ak (TCP_FIN OR TCP_ACK) wn [])"
    and env: "\<forall>n t. n \<le> length gs \<longrightarrow> env (t_sleeps r + n) t = the (handle_tcp_packet other ((gs @ [f]) ! n) t)"
  shows "\<exists>r'. server_loop env j [] r = Some (concat (map c_string ds), r') \<and> t_socks r' j = None \<and>
    (\<forall>sq ak fl wn d. tcp_sock_lookup (segment_cb (sk_dip l) (sk_sip l) (sk_dport l) (sk_sport l) sq ak fl wn d) r' = None)"
proof -
  have e0: "\<forall>n < length gs. \<forall>t. env (t_sleeps r + n) t = the (handle_tcp_packet other (gs ! n) t)"
    using env by (simp add: nth_append)
  obtain r1 l1 ps1 where a: "server_loop env j [] r = server_loop env j ([] @ concat (map c_string ds)) r1"
    "serves j l1 ps1 r1" "same_ends l l1" "t_sleeps r1 = t_sleeps r + length gs" "reachable_via (sk_dip l) e mac (t_router r1)"
    using loop_stream [OF s st(1,2) x st(3) v e0] by blast
  note ends = same_ends_simps [OF a(3)]
  have e1: "\<forall>t. env (t_sleeps r1) t = the (handle_tcp_packet other f t)"
    using env [rule_format, of "length gs"] by (simp add: a(4))
  have v1: "reachable_via (sk_dip l1) e mac (t_router r1)" using a(5) by (simp add: ends)
  from fin_read [where env = env, OF a(2) f [folded ends] v1 e1] obtain r' r2 l2 where
    b: "tcp_sock_read env j (int RBUF_SIZE) r1 = Some (- 1, [], r')" "t_socks r' = (t_socks r2)(j := None)"
    "hashed j l2 r2" "same_ends l1 l2" "links_keep timer_nodes r2 r'" by blast
  have "server_loop env j w r1 = Some (w, r')" for w by (subst server_loop.simps) (simp add: b(1))
  moreover have "tcp_sock_lookup (segment_cb (sk_dip l) (sk_sip l) (sk_dport l) (sk_sport l) sq ak fl wn d) r' = None" for sq ak fl wn d
    using freed_lookup [OF b(3,5,2), of sq ak fl wn d] by (simp add: ends same_ends_simps [OF b(4)])
  ultimately show ?thesis using a(1) b(2) by (intro exI [of _ r']) simp
qed

lemma c_string_whole: "0 \<notin> set d \<Longrightarrow> c_string d = d"
  unfolding c_string_def by (rule takeWhile_eq_all_conv [THEN iffD2]) auto

section \<open>An instance\<close>

text \<open>The server of the transfer's example, asleep in a read, gets one segment and then a FIN.\<close>

definition demo_serving :: "nat \<Rightarrow> bytes \<Rightarrow> bytes \<Rightarrow> stack \<Rightarrow> (nat \<Rightarrow> stack \<Rightarrow> stack) \<Rightarrow> bool" where
  "demo_serving j g f r env \<longleftrightarrow> serves j demo_l [] r \<and> crossed demo_l demo_k \<and>
     reachable_via (sk_dip demo_l) demo_route demo_mac (t_router r) \<and>
     stream demo_k (rcv_nxt demo_l) [[104, 105]] [g] \<and> list_all2 same_packet [g] [g] \<and>
     (\<forall>d \<in> set [[104, 105 :: u8]]. proper d \<and> length d \<le> 65534) \<and>
     carries f (segment_cb (sk_dip demo_l) (sk_sip demo_l) (sk_dport demo_l) (sk_sport demo_l) (snd_nxt demo_k)
       (rcv_nxt demo_k) (TCP_FIN OR TCP_ACK) (rcv_wnd demo_k) []) \<and>
     (\<forall>n t. n \<le> length [g] \<longrightarrow> env (t_sleeps r + n) t = the (handle_tcp_packet (\<lambda>_ s. s) (([g] @ [f]) ! n) t))"

lemma demo_serves: "\<exists>g f r env. demo_serving 0 g f r env"
proof -
  obtain h where w: "hashed 0 demo_k (demo_open (t_router demo_client) demo_k h)"
    "tables [] [] (demo_open (t_router demo_client) demo_k h)" using demo_open_lists by blast
  obtain h' where r: "hashed 0 demo_l (demo_open demo_router demo_l h')" "tables [] [] (demo_open demo_router demo_l h')"
    "ofo_holds 0 [] (demo_open demo_router demo_l h')" "timer_at 0 (demo_open demo_router demo_l h')"
    using demo_open_lists by blast
  let ?c = "demo_open (t_router demo_client) demo_k h" and ?r = "demo_open demo_router demo_l h'"
  have wr: "writing 0 demo_k [] [] ?c" and lk: "linked 0 demo_k [] [] ?c"
    using w by (simp_all add: writing_def linked_def) (simp_all add: demo_open_def demo_k_def)
  have "length ([104, 105] :: bytes) \<le> 65495" by simp
  from segment_goes [OF wr this demo_paths(1)] obtain g where g: "stream demo_k (snd_nxt demo_k) [[104, 105]] [g]" by blast
  have "(0 :: nat) \<notin> set []" by simp
  from fin_goes [OF lk this demo_paths(1)] obtain c' :: stack where "sends demo_route [2, 0, 0, 0, 0, 1] (fin_of demo_k) (t_router ?c) (t_router c')"
    by blast
  then obtain f where "delivers f (fin_of demo_k)" by (auto simp: sends_def)
  then have "carries f (fin_of demo_k)" by (simp add: delivers_def same_packet_def)
  then have f: "carries f (segment_cb (sk_dip demo_l) (sk_sip demo_l) (sk_dport demo_l) (sk_sport demo_l) (snd_nxt demo_k)
      (rcv_nxt demo_k) (TCP_FIN OR TCP_ACK) (rcv_wnd demo_k) [])"
    by (simp add: fin_of_def demo_k_def demo_l_def)
  have x: "crossed demo_l demo_k" "rcv_nxt demo_l = snd_nxt demo_k" "ref_cnt demo_l = 1" "sk_state demo_l = TCP_ESTABLISHED"
    "\<not> sw_dead (sk_wait demo_l Wait_Recv)"
    by (simp_all add: crossed_def fresh_sock_def demo_k_def demo_l_def wait_init_def)
  have "receiving 0 demo_l [] ?r"
    using r x tables_linked [OF r(2)] demo_buffer(1,2) by (simp add: receiving_def tables_def) (simp add: demo_open_def)
  then have s: "serves 0 demo_l [] ?r" using r(2,4) x demo_buffer(3) by (simp add: serves_def)
  define env where "env = (\<lambda>n t. the (handle_tcp_packet (\<lambda>_ s. s) (([g] @ [f]) ! (n - t_sleeps ?r)) t))"
  have "demo_serving 0 g f ?r env"
    using s x g f demo_paths(2) demo_text(1) by (simp add: demo_serving_def same_packet_def env_def)
  then show ?thesis by blast
qed

section \<open>Properties\<close>

text \<open>C40. The server's file: when each segment of a text, of at most 65534 bytes and none the message
  \<open>666-get\<close>, arrives while the server waits in a read, so that it has read those before, and then a FIN does, the loop of the server ends with exactly the bytes
  of each segment up to its first zero in the file; a text without zero bytes is stored as it was sent.
  Segments that arrive together are not in the scope of the theorem.\<close>

theorem server_stores_text:
  assumes "serves j l ps r" "crossed l k" "reachable_via (sk_dip l) e mac (t_router r)"
    and "stream k (rcv_nxt l) ds qs" "list_all2 same_packet gs qs" "\<forall>d \<in> set ds. proper d \<and> length d \<le> 65534"
    and "carries f (segment_cb (sk_dip l) (sk_sip l) (sk_dport l) (sk_sport l) sq ak (TCP_FIN OR TCP_ACK) wn [])"
    and "\<forall>n t. n \<le> length gs \<longrightarrow> env (t_sleeps r + n) t = the (handle_tcp_packet other ((gs @ [f]) ! n) t)"
  shows "\<exists>r'. server_loop env j [] r = Some (concat (map c_string ds), r') \<and>
    ((\<forall>d \<in> set ds. 0 \<notin> set d) \<longrightarrow> concat (map c_string ds) = concat ds)"
  using loop_ends [OF assms] map_cong [of ds ds c_string "\<lambda>d. d"] c_string_whole by auto

text \<open>C33. When each segment of a text, of at most 65534 bytes and none the message \<open>666-get\<close>, arrives while the server waits in a read, and then a FIN does, the
  read that fails has freed the connection's socket, because every read takes off a reference
  that only an arriving segment adds: the close that follows uses it after it is freed, and so does
  the look-up of any later segment of the connection, whose list it is still on. (Of two segments
  that arrive before a read, each adds a reference and the one read takes off one.)\<close>

theorem server_frees_socket:
  assumes "serves j l ps r" "crossed l k" "reachable_via (sk_dip l) e mac (t_router r)"
    and "stream k (rcv_nxt l) ds qs" "list_all2 same_packet gs qs" "\<forall>d \<in> set ds. proper d \<and> length d \<le> 65534"
    and "carries f (segment_cb (sk_dip l) (sk_sip l) (sk_dport l) (sk_sport l) sq ak (TCP_FIN OR TCP_ACK) wn [])"
    and "\<forall>n t. n \<le> length gs \<longrightarrow> env (t_sleeps r + n) t = the (handle_tcp_packet other ((gs @ [f]) ! n) t)"
  shows "\<exists>written r'. server_loop env j [] r = Some (written, r') \<and> t_socks r' j = None \<and> tcp_sock_close j r' = None \<and>
    (\<forall>sq ak fl wn d. tcp_sock_lookup (segment_cb (sk_dip l) (sk_sip l) (sk_dport l) (sk_sport l) sq ak fl wn d) r' = None)"
  using loop_ends [OF assms] by (auto simp: tcp_sock_close_def)

lemma server_stores_text_witness:
  "\<exists>env r r'. server_loop env 0 [] r = Some ([104, 105], r')"
proof -
  obtain g f r env where "demo_serving 0 g f r env" using demo_serves by blast
  then have "\<exists>r'. server_loop env 0 [] r = Some (concat (map c_string [[104, 105]]), r') \<and>
      ((\<forall>d \<in> set [[104, 105 :: u8]]. 0 \<notin> set d) \<longrightarrow> concat (map c_string [[104, 105 :: u8]]) = concat [[104, 105]])"
    unfolding demo_serving_def by (elim conjE) (rule server_stores_text)
  then obtain r' where "server_loop env 0 [] r = Some (concat (map c_string [[104, 105]]), r')" by blast
  moreover have "concat (map c_string [[104, 105]]) = [104, 105]" by (simp add: c_string_def)
  ultimately have "server_loop env 0 [] r = Some ([104, 105], r')" by simp
  then show ?thesis by blast
qed

lemma server_frees_socket_witness:
  "\<exists>env r written r'. t_socks r 0 = Some demo_l \<and> server_loop env 0 [] r = Some (written, r') \<and> t_socks r' 0 = None \<and>
    tcp_sock_close 0 r' = None"
proof -
  obtain g f r env where d: "demo_serving 0 g f r env" using demo_serves by blast
  then have "t_socks r 0 = Some demo_l" by (simp add: demo_serving_def serves_def receiving_def)
  moreover have "\<exists>written r'. server_loop env 0 [] r = Some (written, r') \<and> t_socks r' 0 = None \<and> tcp_sock_close 0 r' = None \<and>
      (\<forall>sq ak fl wn d. tcp_sock_lookup (segment_cb (sk_dip demo_l) (sk_sip demo_l) (sk_dport demo_l) (sk_sport demo_l) sq ak fl wn d) r' = None)"
    using d unfolding demo_serving_def by (elim conjE) (rule server_frees_socket)
  ultimately show ?thesis by blast
qed

end
