(* ===== verification/TcpStopWait.thy ===== *)
theory TcpStopWait imports TcpStream begin

text \<open>The stage of the TCP stack in \<open>exp12/code\<close>, on the state of the later one: no retransmission, no
  sending and no out-of-order buffer; a writer sends one segment and sleeps until it is acknowledged
  by an empty segment; a receiver checks the sequence number against its window and stores what it
  gets. What differs from the later stage is defined here with the suffix \<open>exp12\<close>; tables, ports,
  waiting and the ring buffer are the same. Then a write as a whole, and what two writes in a row
  do to the answer.\<close>

section \<open>Sockets\<close>

definition alloc_tcp_sock_exp12 :: "stack \<Rightarrow> nat \<times> stack" where
  "alloc_tcp_sock_exp12 s =
     (let i = t_nsocks s;
          null = (\<lambda>l h. set_next l None (set_prev l None h));
          s = s \<lparr>t_nsocks := i + 1, t_socks := (t_socks s)(i \<mapsto> fresh_sock \<lparr>snd_wnd := 0\<rparr>),
                t_links := null (Hash_List i) (null (Bind_Hash_List i) (null (Timewait i) (t_links s)))\<rparr>;
          s = init_list_node (Queue_Node i) s;
          s = init_list_node (Listen_Queue i) s;
          s = init_list_node (Accept_Queue i) s
      in (i, s))"

definition init_tcp_stack_exp12 :: "stack \<Rightarrow> stack" where
  "init_tcp_stack_exp12 s =
     (let s = fold (\<lambda>i. init_list_node (Established i)) [0..<256] s;
          s = fold (\<lambda>i. init_list_node (Listen i)) [0..<256] s;
          s = fold (\<lambda>i. init_list_node (Bind i)) [0..<256] s
      in init_list_node Timer_List s)"

section \<open>Sending\<close>

definition tcp_send_packet_exp12 :: "nat \<Rightarrow> bytes \<Rightarrow> stack \<Rightarrow> stack option" where
  "tcp_send_packet_exp12 i packet s = do {
     k \<leftarrow> t_socks s i;
     let ip_tot_len = int (length packet) - int ETHER_HDR_SIZE;
     let tcp_data_len = ip_tot_len - int IP_BASE_HDR_SIZE - int TCP_BASE_HDR_SIZE;
     let packet = tcp_init_hdr (sk_sport k) (sk_dport k) (snd_nxt k) (rcv_nxt k) (TCP_PSH OR TCP_ACK)
       (rcv_wnd k) packet;
     let (x, s) = stack_rand s;
     let packet = ip_init_hdr (sk_sip k) (sk_dip k) (of_int ip_tot_len) IPPROTO_TCP x packet;
     let packet = set_ip_checksum (set_tcp_checksum packet);
     s \<leftarrow> upd_sock i (\<lambda>k. k \<lparr>snd_nxt := snd_nxt k + of_int tcp_data_len,
       snd_wnd := snd_wnd k - of_int tcp_data_len\<rparr>) s;
     Some (on_router (host_send_packet packet) s)
   }"

definition tcp_send_control_packet_exp12 :: "nat \<Rightarrow> u8 \<Rightarrow> stack \<Rightarrow> stack option" where
  "tcp_send_control_packet_exp12 i flags s = do {
     k \<leftarrow> t_socks s i;
     let (packet, s) = stack_malloc HDRS_SIZE s;
     let tot_len = of_nat (IP_BASE_HDR_SIZE + TCP_BASE_HDR_SIZE);
     let (x, s) = stack_rand s;
     let packet = ip_init_hdr (sk_sip k) (sk_dip k) tot_len IPPROTO_TCP x packet;
     let packet = tcp_init_hdr (sk_sport k) (sk_dport k) (snd_nxt k) (rcv_nxt k) flags (rcv_wnd k) packet;
     let packet = set_tcp_checksum packet;
     s \<leftarrow> (if flags AND (TCP_SYN OR TCP_FIN) \<noteq> 0
          then upd_sock i (\<lambda>k. k \<lparr>snd_nxt := snd_nxt k + 1\<rparr>) s else Some s);
     Some (on_router (host_send_packet packet) s)
   }"

text \<open>The length goes through the 16-bit field \<open>snd_wnd\<close>.\<close>

definition tcp_send_data_exp12 :: "nat \<Rightarrow> bytes \<Rightarrow> stack \<Rightarrow> stack option" where
  "tcp_send_data_exp12 i buf s = do {
     s \<leftarrow> upd_sock i (\<lambda>k. k \<lparr>snd_wnd := of_nat (length buf)\<rparr>) s;
     k \<leftarrow> t_socks s i;
     let (packet, s) = stack_malloc (HDRS_SIZE + unat (snd_wnd k)) s;
     tcp_send_packet_exp12 i (blit packet HDRS_SIZE (take (unat (snd_wnd k)) buf)) s
   }"

section \<open>The calls\<close>

definition tcp_sock_connect_exp12 ::
    "(nat \<Rightarrow> stack \<Rightarrow> stack) \<Rightarrow> nat \<Rightarrow> u32 \<Rightarrow> u16 \<Rightarrow> stack \<Rightarrow> (int \<times> stack) option" where
  "tcp_sock_connect_exp12 env i ip port s = do {
     sport \<leftarrow> tcp_get_port s;
     if sport = 0 then Some (- 1, s)
     else do {
       iface \<leftarrow> (case r_ifaces (t_router s) of [] \<Rightarrow> None | iface # _ \<Rightarrow> Some iface);
       s \<leftarrow> upd_sock i (\<lambda>k. k \<lparr>sk_sport := sport, sk_sip := if_ip iface, sk_dport := ntohs port,
         sk_dip := ntohl ip\<rparr>) s;
       s \<leftarrow> tcp_bind_hash i s;
       s \<leftarrow> tcp_send_control_packet_exp12 i TCP_SYN s;
       s \<leftarrow> tcp_set_state i TCP_SYN_SENT s;
       (r, s) \<leftarrow> tcp_hash i s;
       if r < 0 then Some (- 1, s)
       else do {
         (r, s) \<leftarrow> sleep_on env i Wait_Connect s;
         Some (if 0 \<le> r then 0 else - 1, s)
       }
     }
   }"

definition send_fin_exp12 :: "nat \<Rightarrow> tcp_state \<Rightarrow> stack \<Rightarrow> stack option" where
  "send_fin_exp12 i st s = do {
     s \<leftarrow> tcp_send_control_packet_exp12 i (TCP_FIN OR TCP_ACK) s;
     tcp_set_state i st s
   }"

definition tcp_sock_close_exp12 :: "nat \<Rightarrow> stack \<Rightarrow> stack option" where
  "tcp_sock_close_exp12 i s = do {
     k \<leftarrow> t_socks s i;
     case sk_state k of
       TCP_LISTEN \<Rightarrow> do {
         s \<leftarrow> tcp_sock_clear_listen_queue i s;
         s \<leftarrow> tcp_unhash i s;
         tcp_set_state i TCP_CLOSED s
       }
     | TCP_ESTABLISHED \<Rightarrow> send_fin_exp12 i TCP_FIN_WAIT_1 s
     | TCP_CLOSE_WAIT \<Rightarrow> send_fin_exp12 i TCP_LAST_ACK s
     | _ \<Rightarrow> Some s
   }"

definition tcp_sock_read_exp12 ::
    "(nat \<Rightarrow> stack \<Rightarrow> stack) \<Rightarrow> nat \<Rightarrow> int \<Rightarrow> stack \<Rightarrow> (int \<times> bytes \<times> stack) option" where
  "tcp_sock_read_exp12 env i len s = do {
     (w, s) \<leftarrow> wait_data env i s;
     if w < 0 then Some (- 1, [], s)
     else do {
       k \<leftarrow> t_socks s i;
       let (out, rlen, rbuf) = read_ring_buffer (rcv_buf k) len;
       s \<leftarrow> upd_sock i (\<lambda>k. k \<lparr>rcv_buf := rbuf\<rparr>) s;
       s \<leftarrow> wake_up i Wait_Recv s;
       Some (rlen, out, s)
     }
   }"

text \<open>A sum of two \<open>int\<close> values, undefined when it does not fit.\<close>

definition add_int :: "int \<Rightarrow> int \<Rightarrow> int option" where
  "add_int a b = (if - (2 ^ 31) \<le> a + b \<and> a + b < 2 ^ 31 then Some (a + b) else None)"

text \<open>How much the loop of \<open>tcp_sock_write\<close> sends: \<open>init_seq\<close> and \<open>len\<close> are \<open>int\<close>, \<open>snd_una\<close> is unsigned
  and makes the comparison and the difference unsigned.\<close>

definition snd_len_exp12 :: "int \<Rightarrow> int \<Rightarrow> u32 \<Rightarrow> int option" where
  "snd_len_exp12 init_seq len una = do {
     last \<leftarrow> add_int init_seq len;
     Some (if una + ucast TCP_DEFAULT_WINDOW \<le> of_int last then int (unat TCP_DEFAULT_WINDOW)
           else sint (of_int last - una))
   }"

partial_function (option) write_loop_exp12 ::
    "(nat \<Rightarrow> stack \<Rightarrow> stack) \<Rightarrow> nat \<Rightarrow> int \<Rightarrow> bytes \<Rightarrow> stack \<Rightarrow> (int \<times> stack) option" where
  "write_loop_exp12 env i init_seq buf s =
     Option.bind (t_socks s i) (\<lambda>k.
       let off = unat (snd_una k - of_int init_seq)
       in if off < length buf then
            Option.bind (snd_len_exp12 init_seq (int (length buf)) (snd_una k)) (\<lambda>n.
              if n < 0 \<or> int (length buf) < int off + n then None
              else Option.bind (tcp_send_data_exp12 i (take (nat n) (drop off buf)) s) (\<lambda>s.
                Option.bind (sleep_on env i Wait_Send s) (\<lambda>rs.
                  if fst rs < 0 then Some (- 1, snd rs) else write_loop_exp12 env i init_seq buf (snd rs))))
          else Some (0, s))"

definition tcp_sock_write_exp12 :: "(nat \<Rightarrow> stack \<Rightarrow> stack) \<Rightarrow> nat \<Rightarrow> bytes \<Rightarrow> stack \<Rightarrow> (int \<times> stack) option" where
  "tcp_sock_write_exp12 env i buf s =
     Option.bind (t_socks s i) (\<lambda>k. write_loop_exp12 env i (sint (snd_nxt k)) buf s)"

section \<open>Receiving\<close>

text \<open>A reset for a segment without SYN in \<open>TCP_LISTEN\<close> is sent as a control packet of the listening
  socket, to its peer, which it does not have.\<close>

definition tcp_state_listen_exp12 :: "nat \<Rightarrow> tcp_cb \<Rightarrow> stack \<Rightarrow> stack option" where
  "tcp_state_listen_exp12 i cb s =
     (if cb_flags cb AND TCP_SYN = 0 then
        (if cb_flags cb AND TCP_RST \<noteq> 0 then Some s else tcp_send_control_packet_exp12 i TCP_RST s)
      else do {
        let (c, s) = alloc_tcp_sock_exp12 s;
        let (x, s) = tcp_new_iss s;
        s \<leftarrow> upd_sock c (\<lambda>k. k \<lparr>sk_sip := cb_daddr cb, sk_sport := cb_dport cb, sk_dip := cb_saddr cb,
          sk_dport := cb_sport cb, iss := x, snd_una := x, snd_nxt := x, rcv_nxt := cb_seq cb + 1,
          sk_parent := Some i\<rparr>) s;
        s \<leftarrow> upd_links (list_add_tail (Queue_Node c) (Listen_Queue c)) s;
        s \<leftarrow> tcp_set_state c TCP_SYN_RECV s;
        s \<leftarrow> tcp_set_state i TCP_SYN_RECV s;
        s \<leftarrow> tcp_send_control_packet_exp12 c (TCP_SYN OR TCP_ACK) s;
        (_, s) \<leftarrow> tcp_hash c s;
        Some s
      })"

definition tcp_state_syn_sent_exp12 :: "nat \<Rightarrow> tcp_cb \<Rightarrow> stack \<Rightarrow> stack option" where
  "tcp_state_syn_sent_exp12 i cb s =
     (if cb_flags cb AND (TCP_SYN OR TCP_ACK) = TCP_SYN OR TCP_ACK then do {
        s \<leftarrow> upd_sock i (\<lambda>k. k \<lparr>rcv_nxt := cb_seq cb + 1, snd_una := cb_ack cb\<rparr>) s;
        s \<leftarrow> tcp_set_state i TCP_ESTABLISHED s;
        s \<leftarrow> tcp_send_control_packet_exp12 i TCP_ACK s;
        wake_up i Wait_Connect s
      } else Some (tcp_send_reset cb s))"

definition tcp_state_syn_recv_exp12 :: "nat \<Rightarrow> tcp_cb \<Rightarrow> stack \<Rightarrow> stack option" where
  "tcp_state_syn_recv_exp12 i cb s =
     (if cb_flags cb AND TCP_ACK \<noteq> 0 then do {
        k \<leftarrow> t_socks s i;
        s \<leftarrow> tcp_sock_accept_enqueue i s;
        s \<leftarrow> upd_sock i (\<lambda>k. k \<lparr>rcv_nxt := cb_seq cb, snd_una := cb_ack cb\<rparr>) s;
        p \<leftarrow> sk_parent k;
        s \<leftarrow> tcp_set_state p TCP_ESTABLISHED s;
        s \<leftarrow> tcp_set_state i TCP_ESTABLISHED s;
        wake_up p Wait_Accept s
      } else Some s)"

text \<open>Waiting while the receiving buffer is full, then storing as much as it holds, until the payload
  is stored; false when the wait was ended.\<close>

partial_function (option) wait_room :: "(nat \<Rightarrow> stack \<Rightarrow> stack) \<Rightarrow> nat \<Rightarrow> stack \<Rightarrow> (bool \<times> stack) option" where
  "wait_room env i s =
     Option.bind (t_socks s i) (\<lambda>k.
       if \<not> ring_buffer_full (rcv_buf k) then Some (True, s)
       else Option.bind (sleep_on env i Wait_Recv s) (\<lambda>rs.
         if fst rs < 0 then Some (False, snd rs) else wait_room env i (snd rs)))"

definition store_piece :: "nat \<Rightarrow> bytes \<Rightarrow> stack \<Rightarrow> (bytes \<times> stack) option" where
  "store_piece i payload s = do {
     k \<leftarrow> t_socks s i;
     let wsize = nat (min (ring_buffer_free (rcv_buf k)) (int (length payload)));
     q \<leftarrow> write_ring_buffer (rcv_buf k) (take wsize payload);
     s \<leftarrow> upd_sock i (\<lambda>k. k \<lparr>rcv_buf := q\<rparr>) s;
     s \<leftarrow> wake_up i Wait_Recv s;
     Some (drop wsize payload, s)
   }"

partial_function (option) store_loop :: "(nat \<Rightarrow> stack \<Rightarrow> stack) \<Rightarrow> nat \<Rightarrow> bytes \<Rightarrow> stack \<Rightarrow> (bool \<times> stack) option" where
  "store_loop env i payload s =
     (if payload = [] then Some (True, s)
      else Option.bind (wait_room env i s) (\<lambda>bs.
        if \<not> fst bs then Some (False, snd bs)
        else Option.bind (store_piece i payload (snd bs)) (\<lambda>ps. store_loop env i (fst ps) (snd ps))))"

text \<open>The payload is read up to the length that the IP header gives; more than the frame has is read
  outside it.\<close>

definition tcp_recv_data_exp12 :: "(nat \<Rightarrow> stack \<Rightarrow> stack) \<Rightarrow> nat \<Rightarrow> tcp_cb \<Rightarrow> stack \<Rightarrow> stack option" where
  "tcp_recv_data_exp12 env i cb s =
     (if int (length (cb_payload cb)) < cb_pl_len cb then None
      else do {
        (stored, s) \<leftarrow> store_loop env i (take (nat (cb_pl_len cb)) (cb_payload cb)) s;
        if \<not> stored then Some s
        else do {
          s \<leftarrow> upd_sock i (\<lambda>k. k \<lparr>rcv_nxt := cb_seq cb + of_int (cb_pl_len cb), snd_una := cb_ack cb\<rparr>) s;
          tcp_send_control_packet_exp12 i TCP_ACK s
        }
      })"

definition process_ack_exp12 :: "nat \<Rightarrow> tcp_cb \<Rightarrow> stack \<Rightarrow> stack option" where
  "process_ack_exp12 i cb s = do {
     s \<leftarrow> upd_sock i (\<lambda>k. k \<lparr>snd_una := cb_ack cb, rcv_nxt := cb_seq cb + 1\<rparr>) s;
     tcp_update_window_safe i cb s
   }"

definition process_closing_ack_exp12 :: "nat \<Rightarrow> tcp_cb \<Rightarrow> tcp_state \<Rightarrow> stack \<Rightarrow> stack option" where
  "process_closing_ack_exp12 i cb st s = (case st of
     TCP_FIN_WAIT_1 \<Rightarrow> tcp_set_state i TCP_FIN_WAIT_2 s
   | TCP_CLOSING \<Rightarrow> do {
       s \<leftarrow> tcp_set_state i TCP_TIME_WAIT s;
       s \<leftarrow> tcp_set_timewait_timer i s;
       tcp_unhash i s
     }
   | TCP_LAST_ACK \<Rightarrow> tcp_set_state i TCP_CLOSED s
   | _ \<Rightarrow> tcp_send_control_packet_exp12 i TCP_ACK s)"

definition process_fin_exp12 :: "nat \<Rightarrow> tcp_cb \<Rightarrow> tcp_state \<Rightarrow> stack \<Rightarrow> stack option" where
  "process_fin_exp12 i cb st s = (case st of
     TCP_ESTABLISHED \<Rightarrow> do {
       s \<leftarrow> upd_sock i (\<lambda>k. k \<lparr>rcv_nxt := cb_seq cb + 1\<rparr>) s;
       s \<leftarrow> wait_exit i Wait_Recv s;
       s \<leftarrow> wait_exit i Wait_Send s;
       s \<leftarrow> tcp_set_state i TCP_CLOSE_WAIT s;
       tcp_send_control_packet_exp12 i TCP_ACK s
     }
   | TCP_FIN_WAIT_1 \<Rightarrow> do {
       s \<leftarrow> tcp_set_state i TCP_CLOSING s;
       tcp_send_control_packet_exp12 i TCP_ACK s
     }
   | TCP_FIN_WAIT_2 \<Rightarrow> do {
       s \<leftarrow> upd_sock i (\<lambda>k. k \<lparr>rcv_nxt := cb_seq cb + 1\<rparr>) s;
       s \<leftarrow> tcp_set_state i TCP_TIME_WAIT s;
       s \<leftarrow> tcp_set_timewait_timer i s;
       s \<leftarrow> tcp_send_control_packet_exp12 i TCP_ACK s;
       tcp_unhash i s
     }
   | _ \<Rightarrow> tcp_send_control_packet_exp12 i TCP_ACK s)"

text \<open>A reset frees the socket whatever refers to it.\<close>

definition tcp_process_exp12 :: "(nat \<Rightarrow> stack \<Rightarrow> stack) \<Rightarrow> nat option \<Rightarrow> tcp_cb \<Rightarrow> stack \<Rightarrow> stack option" where
  "tcp_process_exp12 env tsk cb s = (case tsk of None \<Rightarrow> Some s | Some i \<Rightarrow> do {
     k \<leftarrow> t_socks s i;
     let st = sk_state k;
     let flags = cb_flags cb;
     if st = TCP_CLOSED then Some (tcp_send_reset cb s)
     else if st = TCP_LISTEN then tcp_state_listen_exp12 i cb s
     else if st = TCP_SYN_SENT then tcp_state_syn_sent_exp12 i cb s
     else if \<not> is_tcp_seq_valid k cb then Some s
     else if flags AND TCP_RST \<noteq> 0 then do {
       s \<leftarrow> tcp_sock_close_exp12 i s;
       Some (s \<lparr>t_socks := (t_socks s)(i := None)\<rparr>)
     }
     else if flags AND TCP_SYN \<noteq> 0 then tcp_sock_close_exp12 i (tcp_send_reset cb s)
     else if flags AND TCP_ACK = 0 then Some (tcp_send_reset cb s)
     else if st = TCP_SYN_RECV then tcp_state_syn_recv_exp12 i cb s
     else if flags AND TCP_FIN \<noteq> 0 then process_fin_exp12 i cb st s
     else if st = TCP_ESTABLISHED then
       (if cb_pl_len cb = 0 then process_ack_exp12 i cb s else tcp_recv_data_exp12 env i cb s)
     else process_closing_ack_exp12 i cb st s
   })"

definition handle_tcp_packet_exp12 :: "(nat \<Rightarrow> stack \<Rightarrow> stack) \<Rightarrow> bytes \<Rightarrow> stack \<Rightarrow> stack option" where
  "handle_tcp_packet_exp12 env packet s =
     (if \<not> tcp_in_bounds packet then None
      else if tcp_checksum packet \<noteq> th_cksum packet (ip_data packet) then Some s
      else do {
        let cb = tcp_cb_init packet (ip_data packet);
        tsk \<leftarrow> tcp_sock_lookup cb s;
        tcp_process_exp12 env tsk cb s
      })"

section \<open>The timer of \<open>TIME_WAIT\<close>\<close>

definition scan_timer_exp12 :: "link \<Rightarrow> stack \<Rightarrow> (bool \<times> stack) option" where
  "scan_timer_exp12 p s = (case p of
     Timewait i \<Rightarrow> do {
       s \<leftarrow> upd_sock i (\<lambda>k. k \<lparr>sk_timewait := (sk_timewait k)
         \<lparr>tm_timeout := tm_timeout (sk_timewait k) - TCP_TIMER_SCAN_INTERVAL\<rparr>\<rparr>) s;
       k \<leftarrow> t_socks s i;
       if tm_timeout (sk_timewait k) \<le> 0 then do {
         s \<leftarrow> upd_links (list_delete_entry (Timewait i)) s;
         s \<leftarrow> (if sk_parent k = None then tcp_bind_unhash i s else Some s);
         s \<leftarrow> tcp_set_state i TCP_CLOSED s;
         s \<leftarrow> free_tcp_sock i s;
         Some (True, s)
       } else Some (True, s)
     } | _ \<Rightarrow> None)"

definition tcp_scan_timer_list_exp12 :: "stack \<Rightarrow> stack option" where
  "tcp_scan_timer_list_exp12 s = list_for_each_safe t_links Timer_List scan_timer_exp12 s"

section \<open>The applications\<close>

text \<open>The text in front of what the server echoes, \<open>"server echoes: "\<close>, and the 62 characters the client
  sends 52 of.\<close>

definition echo_prefix :: bytes where
  "echo_prefix = map (of_nat \<circ> of_char) ''server echoes: ''"

definition alphabet :: bytes where
  "alphabet = map (of_nat \<circ> of_char) ''0123456789abcdefghijklmnopqrstuvwxyzABCDEFGHIJKLMNOPQRSTUVWXYZ''"

text \<open>\<open>sprintf\<close> and \<open>strlen\<close> stop at the first zero of the text read, which ends with one. The buffer for
  the answer has 1024 bytes, enough for the prefix and 1000 bytes.\<close>

definition echo_text :: "bytes \<Rightarrow> bytes" where
  "echo_text rbuf = echo_prefix @ takeWhile (\<lambda>b. b \<noteq> 0) rbuf"

partial_function (option) echo_loop :: "(nat \<Rightarrow> stack \<Rightarrow> stack) \<Rightarrow> nat \<Rightarrow> stack \<Rightarrow> stack option" where
  "echo_loop env csk s =
     Option.bind (tcp_sock_read_exp12 env csk 1000 s) (\<lambda>ros.
       let rlen = fst ros; rbuf = fst (snd ros); s = snd (snd ros)
       in if rlen < 0 then Some s
          else if 0 < rlen then
            Option.bind (tcp_sock_write_exp12 env csk (echo_text rbuf) s) (\<lambda>ws.
              if fst ws < 0 then Some (snd ws) else echo_loop env csk (snd ws))
          else echo_loop env csk s)"

definition tcp_server_exp12 :: "(nat \<Rightarrow> stack \<Rightarrow> stack) \<Rightarrow> u16 \<Rightarrow> stack \<Rightarrow> stack option" where
  "tcp_server_exp12 env port s = do {
     let (tsk, s) = alloc_tcp_sock_exp12 s;
     (r, s) \<leftarrow> tcp_sock_bind tsk port s;
     if r < 0 then Some (s \<lparr>t_exited := True\<rparr>)
     else do {
       (r, s) \<leftarrow> tcp_sock_listen tsk 3 s;
       if r < 0 then Some (s \<lparr>t_exited := True\<rparr>)
       else do {
         (c, s) \<leftarrow> tcp_sock_accept env tsk s;
         csk \<leftarrow> c;
         s \<leftarrow> echo_loop env csk s;
         tcp_sock_close_exp12 csk s
       }
     }
   }"

text \<open>The rounds of the client; the texts it prints are collected. Each round sends 52 characters, the
  next one starts one later.\<close>

fun client_rounds :: "(nat \<Rightarrow> stack \<Rightarrow> stack) \<Rightarrow> nat \<Rightarrow> nat list \<Rightarrow> bytes list \<Rightarrow> stack \<Rightarrow> (bytes list \<times> stack) option" where
  "client_rounds env tsk [] outs s = Some (outs, s)"
| "client_rounds env tsk (i # is) outs s = do {
     (w, s) \<leftarrow> tcp_sock_write_exp12 env tsk (take (length alphabet - 10) (drop i alphabet)) s;
     if w < 0 then Some (outs, s)
     else do {
       (rlen, rbuf, s) \<leftarrow> tcp_sock_read_exp12 env tsk 1000 s;
       if rlen < 0 then Some (outs, s)
       else client_rounds env tsk is
         (if 0 < rlen then outs @ [takeWhile (\<lambda>b. b \<noteq> 0) rbuf] else outs) s
     }
   }"

definition tcp_client_exp12 :: "(nat \<Rightarrow> stack \<Rightarrow> stack) \<Rightarrow> u32 \<Rightarrow> u16 \<Rightarrow> stack \<Rightarrow> (bytes list \<times> stack) option" where
  "tcp_client_exp12 env ip port s = do {
     let (tsk, s) = alloc_tcp_sock_exp12 s;
     (r, s) \<leftarrow> tcp_sock_connect_exp12 env tsk ip port s;
     if r < 0 then Some ([], s \<lparr>t_exited := True\<rparr>)
     else do {
       (outs, s) \<leftarrow> client_rounds env tsk [0..<10] [] s;
       s \<leftarrow> tcp_sock_close_exp12 tsk s;
       Some (outs, s)
     }
   }"

section \<open>The frames are those of the later stage\<close>

lemma ack_exp12: "tcp_send_control_packet_exp12 i TCP_ACK s = tcp_send_control_packet i TCP_ACK s"
  by (simp add: tcp_send_control_packet_exp12_def tcp_send_control_packet_def)

text \<open>A stack with an empty sending buffer and the same router and sockets.\<close>

definition unbuffered :: "stack \<Rightarrow> stack" where
  "unbuffered s = s \<lparr>t_links := \<lparr>lnext = Some, lprev = Some\<rparr>, t_buf_size := 0\<rparr>"

lemma unbuffered_simps [simp]:
  "buffered [] (unbuffered s)" "t_router (unbuffered s) = t_router s" "t_socks (unbuffered s) = t_socks s"
  by (auto simp: unbuffered_def buffered_def blocks_hold_def dlist_def payload_size_def)

lemma buf_append_router: "buf_append_packet p s = Some s' \<Longrightarrow> t_router s' = t_router s \<and> t_socks s' = t_socks s"
  by (auto simp: buf_append_packet_def new_tcp_buf_block_def init_list_node_def upd_links_def bind_eq_Some_conv Let_def)

lemma send_data_exp12:
  assumes k: "t_socks s i = Some k" and n: "length buf \<le> 65495"
    and o: "tcp_send_data i buf (unbuffered s) = Some u"
  shows "tcp_send_data_exp12 i buf s = Some (s \<lparr>t_router := t_router u,
    t_socks := (t_socks s)(i \<mapsto> k \<lparr>snd_nxt := snd_nxt k + of_nat (length buf), snd_wnd := 0\<rparr>)\<rparr>)"
proof -
  have w: "unat (of_nat (length buf) :: u16) = length buf"
    using n by (simp add: unsigned_of_nat take_bit_nat_eq_self)
  have l: "length (blit (fst (malloc (54 + length buf) r)) 54 buf) = 54 + length buf" for r
    by (simp add: length_blit)
  show ?thesis
    using k o n w
    by (auto simp: tcp_send_data_exp12_def tcp_send_packet_exp12_def tcp_send_data_def tcp_send_packet_def stack_malloc_def
        stack_rand_def split_beta Let_def hdr_sizes upd_sock_def on_router_def bind_eq_Some_conv l
        tcp_update_retrans_timewait_timer_def dest!: buf_append_router)
qed

section \<open>One segment and its acknowledgement\<close>

definition open_sock :: "nat \<Rightarrow> tcp_sock \<Rightarrow> stack \<Rightarrow> bool" where
  "open_sock i k s \<longleftrightarrow> t_socks s i = Some k \<and> sk_state k = TCP_ESTABLISHED \<and> hashed i k s"

lemma open_upd:
  assumes "open_sock i k s" "same_ends k k'" "sk_state k' = TCP_ESTABLISHED"
  shows "open_sock i k' (s \<lparr>t_socks := (t_socks s)(i \<mapsto> k'), t_router := r, t_sleeps := n\<rparr>)"
proof -
  have h: "hashed i k s" using assms(1) by (simp add: open_sock_def)
  have "hashed i k' (s \<lparr>t_socks := (t_socks s)(i \<mapsto> k'), t_router := r, t_sleeps := n\<rparr>)"
    by (rule hashed_keep [OF h, of "{}", OF _ _ assms(2)]) (simp_all add: links_keep_def)
  then show ?thesis using assms(3) by (simp add: open_sock_def)
qed

lemma open_lookup:
  "open_sock i k s \<Longrightarrow>
    tcp_sock_lookup (segment_cb (sk_dip k) (sk_sip k) (sk_dport k) (sk_sport k) sq ak fl wn d) s = Some (Some i)"
  by (intro hashed_lookup [of i k]) (simp_all add: open_sock_def segment_cb_def)

lemma handle_exp12:
  "carries f cb \<Longrightarrow> tcp_sock_lookup cb s = Some (Some i) \<Longrightarrow>
    handle_tcp_packet_exp12 env f s = tcp_process_exp12 env (Some i) cb s"
  by (simp add: carries_def handle_tcp_packet_exp12_def)

text \<open>The frame of a segment of text.\<close>

definition text_of :: "tcp_sock \<Rightarrow> bytes \<Rightarrow> tcp_cb" where
  "text_of k d = segment_cb (sk_sip k) (sk_dip k) (sk_sport k) (sk_dport k) (snd_nxt k) (rcv_nxt k) (TCP_PSH OR TCP_ACK)
     (rcv_wnd k) d"

lemma data_sent_exp12:
  assumes k: "t_socks s i = Some k" and n: "length d \<le> 65495" and v: "reachable_via (sk_dip k) e mac (t_router s)"
  shows "\<exists>r q. tcp_send_data_exp12 i d s = Some (s \<lparr>t_router := r,
      t_socks := (t_socks s)(i \<mapsto> k \<lparr>snd_nxt := snd_nxt k + of_nat (length d), snd_wnd := 0\<rparr>)\<rparr>) \<and>
    r_out r = r_out (t_router s) @ [(rt_iface e, q)] \<and> (\<forall>f. same_packet f q \<longrightarrow> brings f (text_of k d)) \<and>
    reachable_via (sk_dip k) e mac r"
proof -
  have u: "buffered [] (unbuffered s)" "t_socks (unbuffered s) i = Some k" "reachable_via (sk_dip k) e mac (t_router (unbuffered s))"
    using k v by simp_all
  from data_sent [OF u(1,2) n u(3)] obtain w and p :: bytes and q where g:
    "tcp_send_data i d (unbuffered s) = Some w" "length q = 54 + length d" "drop 54 q = d"
    "r_out (t_router w) = r_out (t_router (unbuffered s)) @ [(rt_iface e, q)]" "r_ifaces (t_router w) = r_ifaces (t_router (unbuffered s))"
    "r_rtable (t_router w) = r_rtable (t_router (unbuffered s))" "r_entries (t_router w) = r_entries (t_router (unbuffered s))"
    "\<forall>f. length f = length q \<and> drop 14 f = drop 14 q \<longrightarrow>
      carries f (segment_cb (sk_sip k) (sk_dip k) (sk_sport k) (sk_dport k) (snd_nxt k) (rcv_nxt k)
        (TCP_PSH OR TCP_ACK) (rcv_wnd k) d)"
    by (elim exE conjE) (rule that)
  have "brings f (text_of k d)" if "same_packet f q" for f
  proof -
    have "drop 40 (drop 14 f) = drop 40 (drop 14 q)" using that by (simp only: same_packet_def)
    then show ?thesis using that g(2,3,8) by (simp add: brings_def same_packet_def text_of_def segment_cb_def)
  qed
  moreover have "reachable_via (sk_dip k) e mac (t_router w)"
    using v g(5-7) reachable_cong [of "t_router w" "t_router s" "sk_dip k" e mac] by simp
  ultimately show ?thesis
    using send_data_exp12 [OF k n g(1)] g(4) by (intro exI [of _ "t_router w"] exI [of _ q]) simp
qed

text \<open>Storing a payload that fits.\<close>

lemma store_fits:
  assumes l: "t_socks r j = Some l" "rb_ok (rcv_buf l)" and d: "d \<noteq> []" "int (length d) \<le> ring_buffer_free (rcv_buf l)"
  shows "\<exists>q w. store_loop env j d r = Some (True, r \<lparr>t_socks := (t_socks r)(j \<mapsto> l \<lparr>rcv_buf := q, sk_wait := w\<rparr>)\<rparr>) \<and>
    rb_ok q \<and> rb_contents q = rb_contents (rcv_buf l) @ d \<and> ring_buffer_free q = ring_buffer_free (rcv_buf l) - int (length d) \<and>
    (\<forall>x. x \<noteq> Wait_Recv \<longrightarrow> w x = sk_wait l x) \<and> sw_dead (w Wait_Recv) = sw_dead (sk_wait l Wait_Recv)"
proof -
  obtain q where q: "write_ring_buffer (rcv_buf l) d = Some q"
    using write_None [of "rcv_buf l" d] d by (cases "write_ring_buffer (rcv_buf l) d") auto
  define l' where "l' = upd_wait Wait_Recv (\<lambda>x. if sw_dead x then x else if \<not> sw_notified x then x \<lparr>sw_notified := True\<rparr> else x)
    (l \<lparr>rcv_buf := q\<rparr>)"
  let ?r = "r \<lparr>t_socks := (t_socks r)(j \<mapsto> l')\<rparr>"
  have "nat (min (ring_buffer_free (rcv_buf l)) (int (length d))) = length d" using d(2) by simp
  then have p: "store_piece j d r = Some ([], ?r)"
    using l(1) q by (simp add: store_piece_def upd_sock_def wake_up_def l'_def)
  have "\<not> ring_buffer_full (rcv_buf l)" using d by (cases d) (auto simp: ring_buffer_full_def)
  then have "wait_room env j r = Some (True, r)" by (subst wait_room.simps) (simp add: l(1))
  moreover have "store_loop env j [] ?r = Some (True, ?r)" by (subst store_loop.simps) simp
  ultimately have "store_loop env j d r = Some (True, ?r)" using d(1) p by (subst store_loop.simps) simp
  moreover have "l' = l \<lparr>rcv_buf := q, sk_wait := sk_wait l'\<rparr>" by (simp add: l'_def upd_wait_def)
  moreover have "(\<forall>x. x \<noteq> Wait_Recv \<longrightarrow> sk_wait l' x = sk_wait l x)" "sw_dead (sk_wait l' Wait_Recv) = sw_dead (sk_wait l Wait_Recv)"
    by (simp_all add: l'_def upd_wait_def)
  ultimately show ?thesis
    using rb.put_ok [OF l(2) q] by (intro exI [of _ q] exI [of _ "sk_wait l'"]) simp
qed

lemma process_open:
  assumes "open_sock i k s" "is_tcp_seq_valid k cb"
  shows "cb_flags cb = TCP_PSH OR TCP_ACK \<Longrightarrow> cb_pl_len cb \<noteq> 0 \<Longrightarrow>
      tcp_process_exp12 env (Some i) cb s = tcp_recv_data_exp12 env i cb s"
    and "cb_flags cb = TCP_ACK \<Longrightarrow> cb_pl_len cb = 0 \<Longrightarrow> tcp_process_exp12 env (Some i) cb s = process_ack_exp12 i cb s"
proof -
  have "(TCP_PSH OR TCP_ACK) AND TCP_RST = 0" "(TCP_PSH OR TCP_ACK) AND TCP_SYN = 0" "(TCP_PSH OR TCP_ACK) AND TCP_ACK \<noteq> 0"
    "(TCP_PSH OR TCP_ACK) AND TCP_FIN = 0" "TCP_ACK AND TCP_RST = 0" "TCP_ACK AND TCP_SYN = 0" "TCP_ACK AND TCP_ACK \<noteq> 0"
    "TCP_ACK AND TCP_FIN = 0"
    by (simp_all add: TCP_PSH_def TCP_ACK_def TCP_RST_def TCP_SYN_def TCP_FIN_def)
  then show "cb_flags cb = TCP_PSH OR TCP_ACK \<Longrightarrow> cb_pl_len cb \<noteq> 0 \<Longrightarrow>
      tcp_process_exp12 env (Some i) cb s = tcp_recv_data_exp12 env i cb s"
    and "cb_flags cb = TCP_ACK \<Longrightarrow> cb_pl_len cb = 0 \<Longrightarrow> tcp_process_exp12 env (Some i) cb s = process_ack_exp12 i cb s"
    using assms by (simp_all add: tcp_process_exp12_def open_sock_def Let_def)
qed

text \<open>The acknowledgement of a receiver.\<close>

definition reply_of :: "tcp_sock \<Rightarrow> u32 \<Rightarrow> tcp_cb" where
  "reply_of l ak = segment_cb (sk_sip l) (sk_dip l) (sk_sport l) (sk_dport l) (snd_nxt l) ak TCP_ACK (rcv_wnd l) []"

text \<open>A receiving socket after a text of which the other end expects an acknowledgement \<open>nx\<close>.\<close>

definition received :: "bytes \<Rightarrow> u32 \<Rightarrow> u32 \<Rightarrow> tcp_sock \<Rightarrow> tcp_sock \<Rightarrow> bool" where
  "received d nx ak l l' \<longleftrightarrow> same_ends l l' \<and> rb_ok (rcv_buf l') \<and> rb_contents (rcv_buf l') = rb_contents (rcv_buf l) @ d \<and>
     ring_buffer_free (rcv_buf l') = ring_buffer_free (rcv_buf l) - int (length d) \<and> rcv_nxt l' = nx \<and> snd_una l' = ak \<and>
     snd_nxt l' = snd_nxt l \<and> rcv_wnd l' = rcv_wnd l \<and> sk_wait l' Wait_Send = sk_wait l Wait_Send \<and>
     sw_dead (sk_wait l' Wait_Recv) = sw_dead (sk_wait l Wait_Recv)"

lemma text_taken:
  assumes o: "open_sock j l r" "rb_ok (rcv_buf l)"
    and f: "brings f cb" "cb = segment_cb (sk_dip l) (sk_sip l) (sk_dport l) (sk_sport l) sq ak (TCP_PSH OR TCP_ACK) wn d"
    and d: "d \<noteq> []" "int (length d) \<le> ring_buffer_free (rcv_buf l)" and a: "is_tcp_seq_valid l cb"
    and v: "reachable_via (sk_dip l) e mac (t_router r)"
  shows "\<exists>r' l'. handle_tcp_packet_exp12 env f r = Some r' \<and> open_sock j l' r' \<and>
    received d (sq + of_nat (length d)) ak l l' \<and> t_sleeps r' = t_sleeps r \<and>
    sends e mac (reply_of l (sq + of_nat (length d))) (t_router r) (t_router r')"
proof -
  have l: "t_socks r j = Some l" "sk_state l = TCP_ESTABLISHED" using o(1) by (simp_all add: open_sock_def)
  have cb: "cb_flags cb = TCP_PSH OR TCP_ACK" "cb_pl_len cb = int (length d)" "cb_payload cb = d" "cb_seq cb = sq" "cb_ack cb = ak"
    by (simp_all add: f(2) segment_cb_def)
  from store_fits [OF l(1) o(2) d, of env] obtain q w where
    g: "store_loop env j d r = Some (True, r \<lparr>t_socks := (t_socks r)(j \<mapsto> l \<lparr>rcv_buf := q, sk_wait := w\<rparr>)\<rparr>)" "rb_ok q"
    "rb_contents q = rb_contents (rcv_buf l) @ d" "ring_buffer_free q = ring_buffer_free (rcv_buf l) - int (length d)"
    "\<forall>x. x \<noteq> Wait_Recv \<longrightarrow> w x = sk_wait l x" "sw_dead (w Wait_Recv) = sw_dead (sk_wait l Wait_Recv)" by blast
  define l' where "l' = l \<lparr>rcv_buf := q, sk_wait := w, rcv_nxt := sq + of_nat (length d), snd_una := ak\<rparr>"
  define r1 where "r1 = r \<lparr>t_socks := (t_socks r)(j \<mapsto> l')\<rparr>"
  have l': "same_ends l l'" "sk_state l' = TCP_ESTABLISHED" "sk_dip l' = sk_dip l" using l(2) by (simp_all add: l'_def same_ends_def)
  have "t_socks r1 j = Some l'" "reachable_via (sk_dip l') e mac (t_router r1)" using v l'(3) by (simp_all add: r1_def)
  from ack_sent_any [OF this] obtain x where x: "tcp_send_control_packet j TCP_ACK r1 = Some (r1 \<lparr>t_router := x\<rparr>)"
    "sends e mac (reply_of l (sq + of_nat (length d))) (t_router r1) x"
    by (auto simp: reply_of_def l'_def)
  have "tcp_recv_data_exp12 env j cb r = Some (r1 \<lparr>t_router := x\<rparr>)"
    using g(1) x(1) by (simp add: tcp_recv_data_exp12_def cb upd_sock_def ack_exp12 r1_def l'_def)
  then have "handle_tcp_packet_exp12 env f r = Some (r1 \<lparr>t_router := x\<rparr>)"
    using f(1) handle_exp12 [of f cb r j env] open_lookup [OF o(1)] process_open(1) [OF o(1) a cb(1), of env] d(1)
    by (simp add: brings_def f(2) cb(2) segment_cb_def)
  moreover have "open_sock j l' (r1 \<lparr>t_router := x\<rparr>)"
    using open_upd [OF o(1) l'(1,2), where r = x and n = "t_sleeps r"] by (simp add: r1_def)
  moreover have "received d (sq + of_nat (length d)) ak l l'"
    using g(2-6) l'(1) by (simp add: received_def l'_def)
  ultimately show ?thesis using x(2) by (intro exI [of _ "r1 \<lparr>t_router := x\<rparr>"] exI [of _ l']) (simp add: r1_def)
qed

text \<open>The acknowledgement at the end that waits for it: everything sent is acknowledged, the window,
  used up by the segment, opens, and that wakes the writer.\<close>

lemma reply_taken:
  assumes o: "open_sock i k s" and w: "snd_wnd k = 0"
    and f: "carries f cb" "cb = segment_cb (sk_dip k) (sk_sip k) (sk_dport k) (sk_sport k) sq (snd_nxt k) TCP_ACK wn []"
    and a: "is_tcp_seq_valid k cb"
  shows "\<exists>s' k'. handle_tcp_packet_exp12 env f s = Some s' \<and> open_sock i k' s' \<and> same_ends k k' \<and> snd_una k' = snd_nxt k \<and>
    snd_nxt k' = snd_nxt k \<and> rcv_nxt k' = sq + 1 \<and> rcv_wnd k' = rcv_wnd k \<and> rcv_buf k' = rcv_buf k \<and>
    sw_dead (sk_wait k' Wait_Send) = sw_dead (sk_wait k Wait_Send) \<and> t_router s' = t_router s \<and>
    (\<not> sw_dead (sk_wait k Wait_Send) \<longrightarrow> sw_notified (sk_wait k' Wait_Send))"
proof -
  have k: "t_socks s i = Some k" "sk_state k = TCP_ESTABLISHED" using o by (simp_all add: open_sock_def)
  have cb: "cb_flags cb = TCP_ACK" "cb_pl_len cb = 0" "cb_seq cb = sq" "cb_ack cb = snd_nxt k" by (simp_all add: f(2) segment_cb_def)
  define k' where "k' = upd_wait Wait_Send (\<lambda>x. if sw_dead x then x else if \<not> sw_notified x then x \<lparr>sw_notified := True\<rparr> else x)
    (k \<lparr>snd_una := snd_nxt k, rcv_nxt := sq + 1, snd_wnd := ucast (cb_rwnd cb)\<rparr>)"
  have "less_or_equal_32b (snd_nxt k) (snd_nxt k)" by (simp add: less_or_equal_32b_def)
  then have "process_ack_exp12 i cb s = Some (s \<lparr>t_socks := (t_socks s)(i \<mapsto> k')\<rparr>)"
    using k(1) w by (simp add: process_ack_exp12_def upd_sock_def tcp_update_window_safe_def tcp_update_window_def wake_up_def
        cb k'_def)
  then have "handle_tcp_packet_exp12 env f s = Some (s \<lparr>t_socks := (t_socks s)(i \<mapsto> k')\<rparr>)"
    using f(1) handle_exp12 [of f cb s i env] open_lookup [OF o] process_open(2) [OF o a cb(1,2), of env]
    by (simp add: f(2))
  moreover have "same_ends k k'" "sk_state k' = TCP_ESTABLISHED" using k(2) by (simp_all add: k'_def upd_wait_def same_ends_def)
  then have "open_sock i k' (s \<lparr>t_socks := (t_socks s)(i \<mapsto> k')\<rparr>)"
    using open_upd [OF o, where k' = k' and r = "t_router s" and n = "t_sleeps s"] by simp
  ultimately show ?thesis
    using \<open>same_ends k k'\<close>
    by (intro exI [of _ "s \<lparr>t_socks := (t_socks s)(i \<mapsto> k')\<rparr>"] exI [of _ k']) (simp add: k'_def upd_wait_def)
qed

text \<open>An acknowledgement whose sequence number is one below the expected one is dropped.\<close>

lemma reply_dropped:
  assumes o: "open_sock i k s" and q: "rcv_nxt k = sq + 1"
    and f: "carries f cb" "cb = segment_cb (sk_dip k) (sk_sip k) (sk_dport k) (sk_sport k) sq ak TCP_ACK wn []"
  shows "handle_tcp_packet_exp12 env f s = Some s"
proof -
  have "\<not> is_tcp_seq_valid k cb"
    by (simp add: is_tcp_seq_valid_def q f(2) segment_cb_def less_or_equal_32b_def TCP_ACK_def TCP_SYN_def TCP_FIN_def)
  then show ?thesis
    using o handle_exp12 [OF f(1), of s i env] open_lookup [OF o]
    by (simp add: tcp_process_exp12_def open_sock_def f(2) Let_def)
qed

section \<open>The numbers\<close>

lemma sint_neg_small: "n < 2 ^ 31 \<Longrightarrow> sint (- of_nat n :: u32) = - int n"
proof -
  assume n: "n < 2 ^ 31"
  have "sint (- of_nat n :: u32) = sint (of_int (- int n) :: u32)" by simp
  also have "\<dots> = signed_take_bit 31 (- int n)" by (simp add: signed_of_int del: of_int_minus)
  also have "\<dots> = - int n" by (rule signed_take_bit_int_eq_self) (use n in simp_all)
  finally show ?thesis .
qed

lemma in_order:
  "0 < n \<Longrightarrow> n < 2 ^ 31 \<Longrightarrow> less_than_32b a (a + of_nat n)"
  "n < 2 ^ 31 \<Longrightarrow> less_or_equal_32b a (a + of_nat n)"
  using sint_neg_small [of n] by (simp_all add: less_than_32b_def less_or_equal_32b_def)

lemma seq_in_window:
  assumes "m \<le> n" "n \<le> 65495" "rcv_nxt l = cb_seq cb + of_nat m" "cb_seq_end cb = cb_seq cb + of_nat n"
  shows "is_tcp_seq_valid l cb"
proof -
  define w where "w = unat (max (rcv_wnd l) 1)"
  have w: "0 < w" "w < 65536" "ucast (max (rcv_wnd l) 1) = (of_nat w :: u32)"
    using unsigned_less [of "max (rcv_wnd l) 1", where 'a = nat]
    by (auto simp: w_def unsigned_ucast_eq unat_gt_0 max_def)
  have "less_than_32b (cb_seq cb) (cb_seq cb + of_nat (m + w))" by (rule in_order(1)) (use w assms(1,2) in simp_all)
  moreover have "less_or_equal_32b (rcv_nxt l) (rcv_nxt l + of_nat (n - m))" by (rule in_order(2)) (use assms(2) in simp)
  ultimately show ?thesis
    using assms(1) by (simp add: is_tcp_seq_valid_def w(3) assms(3,4) add.assoc)
qed

text \<open>The length of the first segment, below the values at which the arithmetic of the loop wraps.\<close>

lemma first_len:
  assumes "unat q + 131072 < 2 ^ 31" "n \<le> 65495"
  shows "snd_len_exp12 (sint q) (int n) q = Some (int n)"
proof -
  define x where "x = unat q"
  have x: "x + 131072 < 2 ^ 31" "q = of_nat x" using assms(1) by (simp_all add: x_def)
  have s: "sint q = int x"
    using x by (simp add: signed_of_nat signed_take_bit_int_eq_self)
  have u: "unat (q + 65535) = x + 65535" "unat (q + of_nat n) = x + n"
    using x assms(2) by (simp_all add: unat_word_ariths unsigned_of_nat take_bit_nat_eq_self)
  have "\<not> q + 65535 \<le> q + of_nat n" using u assms(2) by (simp add: word_le_nat_alt)
  moreover have "sint (of_nat n :: u32) = int n"
    using assms(2) by (simp add: signed_of_nat signed_take_bit_int_eq_self)
  ultimately show ?thesis
    using x assms(2) by (simp add: snd_len_exp12_def add_int_def s s [unfolded x(2)] TCP_DEFAULT_WINDOW_def)
qed

section \<open>A write as a whole\<close>

definition awake_send :: "tcp_sock \<Rightarrow> tcp_sock" where
  "awake_send = upd_wait Wait_Send (\<lambda>x. x \<lparr>sw_notified := False, sw_sleep := False\<rparr>)"

text \<open>An open connection whose writer has nothing outstanding.\<close>

definition writes :: "nat \<Rightarrow> tcp_sock \<Rightarrow> stack \<Rightarrow> bool" where
  "writes i k s \<longleftrightarrow> open_sock i k s \<and> snd_una k = snd_nxt k \<and> unat (snd_nxt k) + 131072 < 2 ^ 31 \<and>
     \<not> sw_dead (sk_wait k Wait_Send) \<and> \<not> sw_notified (sk_wait k Wait_Send)"

text \<open>The socket while its writer sleeps after the text \<open>d\<close>.\<close>

definition waits_for :: "bytes \<Rightarrow> tcp_sock \<Rightarrow> tcp_sock \<Rightarrow> bool" where
  "waits_for d k k' \<longleftrightarrow> same_ends k k' \<and> snd_nxt k' = snd_nxt k + of_nat (length d) \<and> snd_wnd k' = 0 \<and> rcv_nxt k' = rcv_nxt k \<and>
     rcv_wnd k' = rcv_wnd k \<and> rcv_buf k' = rcv_buf k \<and> \<not> sw_dead (sk_wait k' Wait_Send) \<and> \<not> sw_notified (sk_wait k' Wait_Send) \<and>
     sw_sleep (sk_wait k' Wait_Send) \<and> snd_una k' = snd_una k"

lemma write_sends:
  assumes w: "writes i k s" and v: "reachable_via (sk_dip k) e mac (t_router s)" and d: "d \<noteq> []" "length d \<le> 65495"
  shows "\<exists>s0 k0 n q. open_sock i k0 s0 \<and> waits_for d k k0 \<and> r_out (t_router s0) = r_out (t_router s) @ [(rt_iface e, q)] \<and>
    (\<forall>f. same_packet f q \<longrightarrow> brings f (text_of k d)) \<and> reachable_via (sk_dip k) e mac (t_router s0) \<and>
    (\<forall>env s1 k1. env n s0 = s1 \<longrightarrow> open_sock i k1 s1 \<longrightarrow> \<not> sw_dead (sk_wait k1 Wait_Send) \<longrightarrow>
      snd_una k1 = snd_nxt k + of_nat (length d) \<longrightarrow>
      tcp_sock_write_exp12 env i d s = Some (0, s1 \<lparr>t_socks := (t_socks s1)(i \<mapsto> awake_send k1)\<rparr>))"
proof -
  from w have k: "open_sock i k s" "t_socks s i = Some k" "snd_una k = snd_nxt k" "unat (snd_nxt k) + 131072 < 2 ^ 31"
    "\<not> sw_dead (sk_wait k Wait_Send)" "\<not> sw_notified (sk_wait k Wait_Send)" "sk_state k = TCP_ESTABLISHED"
    by (simp_all add: writes_def open_sock_def)
  from data_sent_exp12 [OF k(2) d(2) v] obtain x q where
    g: "tcp_send_data_exp12 i d s = Some (s \<lparr>t_router := x,
      t_socks := (t_socks s)(i \<mapsto> k \<lparr>snd_nxt := snd_nxt k + of_nat (length d), snd_wnd := 0\<rparr>)\<rparr>)"
    "r_out x = r_out (t_router s) @ [(rt_iface e, q)]" "\<forall>f. same_packet f q \<longrightarrow> brings f (text_of k d)"
    "reachable_via (sk_dip k) e mac x" by blast
  define ka where "ka = k \<lparr>snd_nxt := snd_nxt k + of_nat (length d), snd_wnd := 0\<rparr>"
  define sa where "sa = s \<lparr>t_router := x, t_socks := (t_socks s)(i \<mapsto> ka)\<rparr>"
  define k0 where "k0 = upd_wait Wait_Send (\<lambda>x. x \<lparr>sw_sleep := True\<rparr>) ka"
  define s0 where "s0 = sa \<lparr>t_socks := (t_socks s)(i \<mapsto> k0), t_sleeps := t_sleeps s + 1\<rparr>"
  have s0: "s0 = s \<lparr>t_socks := (t_socks s)(i \<mapsto> k0), t_router := x, t_sleeps := t_sleeps s + 1\<rparr>"
    by (simp add: s0_def sa_def)
  have ka: "t_socks sa i = Some ka" "\<not> sw_dead (sk_wait ka Wait_Send)" "\<not> sw_notified (sk_wait ka Wait_Send)"
    using k(5,6) by (simp_all add: sa_def ka_def)
  have k0: "same_ends k k0" "sk_state k0 = TCP_ESTABLISHED" "waits_for d k k0"
    using k(5-7) by (simp_all add: k0_def ka_def upd_wait_def waits_for_def same_ends_def)
  have o: "open_sock i k0 s0"
    using open_upd [OF k(1) k0(1,2), where r = x and n = "t_sleeps s + 1"] by (simp add: s0)
  have small: "length d < 2 ^ 32" using d(2) by simp
  have len: "unat (of_nat (length d) :: u32) = length d" using small by (simp add: unsigned_of_nat take_bit_nat_eq_self)
  have "tcp_sock_write_exp12 env i d s = Some (0, s1 \<lparr>t_socks := (t_socks s1)(i \<mapsto> awake_send k1)\<rparr>)"
    if e: "env (t_sleeps s) s0 = s1" "open_sock i k1 s1" "\<not> sw_dead (sk_wait k1 Wait_Send)"
      "snd_una k1 = snd_nxt k + of_nat (length d)" for env s1 k1
  proof -
    let ?s2 = "s1 \<lparr>t_socks := (t_socks s1)(i \<mapsto> awake_send k1)\<rparr>"
    have k1: "t_socks s1 i = Some k1" using e(2) by (simp add: open_sock_def)
    have "env (t_sleeps sa) (sa \<lparr>t_socks := (t_socks sa)(i \<mapsto> k0), t_sleeps := t_sleeps sa + 1\<rparr>) = s1"
      using e(1) by (simp add: s0_def sa_def)
    then have "sleep_on env i Wait_Send sa = Some (0, ?s2)"
      using ka k1 e(3) by (simp add: sleep_on_def upd_sock_def k0_def [symmetric] awake_send_def [symmetric] Let_def)
        (simp add: awake_send_def upd_wait_def)
    moreover have "write_loop_exp12 env i (sint (snd_nxt k)) d ?s2 = Some (0, ?s2)"
      using e(4) by (subst write_loop_exp12.simps) (simp add: awake_send_def upd_wait_def len)
    moreover have "tcp_send_data_exp12 i d s = Some sa" using g(1) by (simp add: sa_def ka_def)
    ultimately have "write_loop_exp12 env i (sint (snd_nxt k)) d s = Some (0, ?s2)"
      using d first_len [OF k(4) d(2)] by (subst write_loop_exp12.simps) (simp add: k(2,3))
    then show ?thesis by (simp add: tcp_sock_write_exp12_def k(2))
  qed
  then show ?thesis
    using o k0(3) g(2-4)
    by (intro exI [of _ s0] exI [of _ k0] exI [of _ "t_sleeps s"] exI [of _ q]) (simp add: s0_def sa_def)
qed

text \<open>Reading what has arrived, without a timer to stop.\<close>

lemma read_exp12:
  assumes o: "open_sock j l r" "rb_ok (rcv_buf l)" and c: "rb_contents (rcv_buf l) \<noteq> []"
  shows "\<exists>r'. \<forall>env. tcp_sock_read_exp12 env j n r =
    Some (min (int (length (rb_contents (rcv_buf l)))) n, take (nat n) (rb_contents (rcv_buf l)), r')"
proof -
  have s: "t_socks r j = Some l" using o(1) by (simp add: open_sock_def)
  obtain out len q where g: "read_ring_buffer (rcv_buf l) n = (out, len, q)" using prod_cases3 by blast
  have "\<not> ring_buffer_empty (rcv_buf l)" using c by (simp add: ring_buffer_empty_def rb_contents_def)
  then have "wait_data env j r = Some (0, r)" for env by (subst wait_data.simps) (simp add: s)
  then show ?thesis
    using rb.get_ok [OF o(2) g] by (simp add: tcp_sock_read_exp12_def s g upd_sock_def wake_up_def)
qed

section \<open>Taking turns\<close>

text \<open>The writer \<open>k\<close> may write a text: everything it sent is acknowledged, and it expects the number
  the other end sends with. The other end expects the writer's number or, after an empty
  acknowledgement, one more.\<close>

definition quiet :: "tcp_sock \<Rightarrow> bool" where
  "quiet k \<longleftrightarrow> rb_ok (rcv_buf k) \<and> \<not> sw_dead (sk_wait k Wait_Send) \<and> \<not> sw_notified (sk_wait k Wait_Send)"

definition turn :: "rt_entry \<Rightarrow> mac_addr \<Rightarrow> rt_entry \<Rightarrow> mac_addr \<Rightarrow> nat \<Rightarrow> tcp_sock \<Rightarrow> stack \<Rightarrow> nat \<Rightarrow> tcp_sock \<Rightarrow> stack \<Rightarrow> bool" where
  "turn e mac e' mac' i k s j l r \<longleftrightarrow> open_sock i k s \<and> open_sock j l r \<and> crossed k l \<and> quiet k \<and> quiet l \<and>
     snd_una k = snd_nxt k \<and> rcv_nxt k = snd_nxt l \<and> (rcv_nxt l = snd_nxt k \<or> rcv_nxt l = snd_nxt k + 1) \<and>
     reachable_via (sk_dip k) e mac (t_router s) \<and> reachable_via (sk_dip l) e' mac' (t_router r)"

text \<open>The text at the other end, whichever of the two numbers it expects.\<close>

lemma text_arrives:
  assumes o: "open_sock j l r" "rb_ok (rcv_buf l)" "crossed k l" "rcv_nxt l = snd_nxt k + of_nat m" "m \<le> length d"
    and f: "brings f (text_of k d)" and d: "d \<noteq> []" "length d \<le> 65495" "int (length d) \<le> ring_buffer_free (rcv_buf l)"
    and v: "reachable_via (sk_dip l) e mac (t_router r)"
  shows "\<exists>r' l'. handle_tcp_packet_exp12 env f r = Some r' \<and> open_sock j l' r' \<and>
    received d (snd_nxt k + of_nat (length d)) (rcv_nxt k) l l' \<and> t_sleeps r' = t_sleeps r \<and>
    sends e mac (reply_of l (snd_nxt k + of_nat (length d))) (t_router r) (t_router r')"
proof -
  have t: "text_of k d = segment_cb (sk_dip l) (sk_sip l) (sk_dport l) (sk_sport l) (snd_nxt k) (rcv_nxt k) (TCP_PSH OR TCP_ACK)
      (rcv_wnd k) d"
    using o(3) by (simp add: text_of_def crossed_def)
  have "(TCP_PSH OR TCP_ACK) AND (TCP_SYN OR TCP_FIN) = 0"
    by (simp add: TCP_PSH_def TCP_ACK_def TCP_SYN_def TCP_FIN_def)
  then have "cb_seq_end (text_of k d) = cb_seq (text_of k d) + of_nat (length d)" by (simp add: t segment_cb_def)
  then have "is_tcp_seq_valid l (text_of k d)"
    using seq_in_window [OF o(5) d(2), of l "text_of k d"] o(4) by (simp add: t segment_cb_def)
  from text_taken [OF o(1,2) f t d(1,3) this v, of env] show ?thesis .
qed

lemma turn_writes: "turn e mac e' mac' i k s j l r \<Longrightarrow> unat (snd_nxt k) + 131072 < 2 ^ 31 \<Longrightarrow> writes i k s"
  by (simp add: turn_def writes_def quiet_def)

text \<open>The acknowledgement of the text, at the writer.\<close>

lemma reply_at_writer:
  assumes "crossed k l" "same_ends k k0"
  shows "reply_of l ak = segment_cb (sk_dip k0) (sk_sip k0) (sk_dport k0) (sk_sport k0) (snd_nxt l) ak TCP_ACK (rcv_wnd l) []"
  using assms by (simp add: reply_of_def crossed_def same_ends_def)

lemma reply_valid:
  assumes "cb = segment_cb a b c d sq ak TCP_ACK wn []" "rcv_nxt k = sq"
  shows "is_tcp_seq_valid k cb"
proof -
  have "TCP_ACK AND (TCP_SYN OR TCP_FIN) = 0" by (simp add: TCP_ACK_def TCP_SYN_def TCP_FIN_def)
  then show ?thesis using assms by (intro seq_in_window [of 0 0]) (simp_all add: segment_cb_def)
qed

text \<open>The text is read, and one acknowledgement goes back.\<close>

lemma text_read:
  assumes o: "open_sock j l r" "quiet l" "crossed k l" "rcv_nxt l = snd_nxt k \<or> rcv_nxt l = snd_nxt k + 1"
    and f: "brings f (text_of k d)" and d: "d \<noteq> []" "length d \<le> 65495" "int (length d) \<le> ring_buffer_free (rcv_buf l)"
    and v: "reachable_via (sk_dip l) e mac (t_router r)"
  shows "\<exists>r1 l1 a. handle_tcp_packet_exp12 other f r = Some r1 \<and> open_sock j l1 r1 \<and>
    received d (snd_nxt k + of_nat (length d)) (rcv_nxt k) l l1 \<and>
    (\<exists>r2. \<forall>env. tcp_sock_read_exp12 env j (int (rb_size (rcv_buf l))) r1 =
      Some (int (length (rb_contents (rcv_buf l) @ d)), rb_contents (rcv_buf l) @ d, r2)) \<and>
    r_out (t_router r1) = r_out (t_router r) @ [(rt_iface e, a)] \<and> delivers a (reply_of l (snd_nxt k + of_nat (length d))) \<and>
    reachable_via (sk_dip l) e mac (t_router r1)"
proof -
  let ?nx = "snd_nxt k + of_nat (length d)" and ?all = "rb_contents (rcv_buf l) @ d"
  obtain m :: nat where m: "rcv_nxt l = snd_nxt k + of_nat m" "m \<le> length d"
  proof -
    have "rcv_nxt l = snd_nxt k + of_nat 0 \<or> rcv_nxt l = snd_nxt k + of_nat 1" using o(4) by simp
    then show ?thesis using that [of 0] that [of 1] d(1) by (cases d) auto
  qed
  have l: "rb_ok (rcv_buf l)" using o(2) by (simp add: quiet_def)
  from text_arrives [OF o(1) l o(3) m f d v, of other] obtain r1 l1 where
    a: "handle_tcp_packet_exp12 other f r = Some r1" "open_sock j l1 r1" "received d ?nx (rcv_nxt k) l l1"
    "sends e mac (reply_of l ?nx) (t_router r) (t_router r1)" by blast
  have l1: "rb_ok (rcv_buf l1)" "rb_contents (rcv_buf l1) = ?all" using a(3) by (simp_all add: received_def)
  have "length ?all \<le> rb_size (rcv_buf l)" using d(3) by (simp add: rb_contents_def ring_buffer_free_def)
  then have "\<exists>r2. \<forall>env. tcp_sock_read_exp12 env j (int (rb_size (rcv_buf l))) r1 = Some (int (length ?all), ?all, r2)"
    using read_exp12 [OF a(2) l1(1), of "int (rb_size (rcv_buf l))"] d(1) by (simp add: l1(2) min_absorb1)
  moreover have "reachable_via (sk_dip l) e mac (t_router r1)"
    using v a(4) reachable_cong [of "t_router r1" "t_router r" "sk_dip l" e mac] by (simp add: sends_def)
  ultimately show ?thesis using a by (auto simp: sends_def)
qed

text \<open>The acknowledgement wakes the writer, whose call ends with \<open>awake_send k1\<close>.\<close>

lemma reply_ends_write:
  assumes o: "open_sock i k0 s0" "waits_for d k k0" "crossed k l" "rb_ok (rcv_buf k)" "rcv_nxt k = snd_nxt l"
    and a: "delivers a (reply_of l (snd_nxt k + of_nat (length d)))" "same_packet h a"
  shows "\<exists>s1 k1. handle_tcp_packet_exp12 other h s0 = Some s1 \<and> open_sock i k1 s1 \<and> t_router s1 = t_router s0 \<and>
    \<not> sw_dead (sk_wait k1 Wait_Send) \<and> snd_una k1 = snd_nxt k + of_nat (length d) \<and>
    open_sock i (awake_send k1) (s1 \<lparr>t_socks := (t_socks s1)(i \<mapsto> awake_send k1)\<rparr>) \<and> same_ends k (awake_send k1) \<and>
    quiet (awake_send k1) \<and> snd_una (awake_send k1) = snd_nxt k + of_nat (length d) \<and>
    snd_nxt (awake_send k1) = snd_nxt k + of_nat (length d) \<and> rcv_nxt (awake_send k1) = snd_nxt l + 1"
proof -
  have k0: "same_ends k k0" "snd_nxt k + of_nat (length d) = snd_nxt k0" "snd_wnd k0 = 0" "rcv_nxt k0 = rcv_nxt k"
    "rcv_buf k0 = rcv_buf k" "\<not> sw_dead (sk_wait k0 Wait_Send)" using o(2) by (simp_all add: waits_for_def)
  note cb = reply_at_writer [OF o(3) k0(1), of "snd_nxt k0"]
  have "carries h (reply_of l (snd_nxt k0))" using a by (simp add: delivers_def k0(2))
  from reply_taken [OF o(1) k0(3) this cb reply_valid [OF cb]] k0(4) o(5) obtain s1 k1 where
    b: "handle_tcp_packet_exp12 other h s0 = Some s1" "open_sock i k1 s1" "same_ends k0 k1" "snd_una k1 = snd_nxt k0"
    "snd_nxt k1 = snd_nxt k0" "rcv_nxt k1 = snd_nxt l + 1" "rcv_buf k1 = rcv_buf k0"
    "sw_dead (sk_wait k1 Wait_Send) = sw_dead (sk_wait k0 Wait_Send)" "t_router s1 = t_router s0" by metis
  have k2: "same_ends k1 (awake_send k1)" "sk_state (awake_send k1) = TCP_ESTABLISHED" "same_ends k (awake_send k1)"
    "quiet (awake_send k1)"
    using b(2-8) k0 o(4) by (simp_all add: awake_send_def upd_wait_def same_ends_def open_sock_def quiet_def)
  have "snd_una (awake_send k1) = snd_una k1" "snd_nxt (awake_send k1) = snd_nxt k1" "rcv_nxt (awake_send k1) = rcv_nxt k1"
    by (simp_all add: awake_send_def upd_wait_def)
  moreover have "open_sock i (awake_send k1) (s1 \<lparr>t_socks := (t_socks s1)(i \<mapsto> awake_send k1)\<rparr>)"
    using open_upd [OF b(2) k2(1,2), where r = "t_router s1" and n = "t_sleeps s1"] by simp
  ultimately show ?thesis
    using b k0(2,6) k2(3,4)
    by (intro exI [of _ s1] exI [of _ k1]) simp
qed

text \<open>A segment that arrives twice is stored twice: the second time its last number is the expected
  one, which the check lets pass.\<close>

lemma duplicate_stored:
  assumes o: "open_sock j l r" "rb_ok (rcv_buf l)" "crossed k l" "rcv_nxt l = snd_nxt k"
    and f: "brings f (text_of k d)" and d: "d \<noteq> []" "length d \<le> 65495" "2 * int (length d) \<le> ring_buffer_free (rcv_buf l)"
    and v: "reachable_via (sk_dip l) e mac (t_router r)"
  shows "\<exists>r1 r2 l2. handle_tcp_packet_exp12 env f r = Some r1 \<and> handle_tcp_packet_exp12 env f r1 = Some r2 \<and>
    t_socks r2 j = Some l2 \<and> rb_contents (rcv_buf l2) = rb_contents (rcv_buf l) @ d @ d"
proof -
  have "rcv_nxt l = snd_nxt k + of_nat 0" "int (length d) \<le> ring_buffer_free (rcv_buf l)" using o(4) d(3) by simp_all
  from text_arrives [OF o(1-3) this(1) _ f d(1,2) this(2) v, of env] obtain r1 l1 where
    a: "handle_tcp_packet_exp12 env f r = Some r1" "open_sock j l1 r1"
    "received d (snd_nxt k + of_nat (length d)) (rcv_nxt k) l l1" "sends e mac (reply_of l (snd_nxt k + of_nat (length d))) (t_router r) (t_router r1)"
    by auto
  have l1: "rb_ok (rcv_buf l1)" "crossed k l1" "rcv_nxt l1 = snd_nxt k + of_nat (length d)" "sk_dip l1 = sk_dip l"
    "int (length d) \<le> ring_buffer_free (rcv_buf l1)" "rb_contents (rcv_buf l1) = rb_contents (rcv_buf l) @ d"
    using a(3) o(3) d(3) by (simp_all add: received_def same_ends_def crossed_def)
  have "reachable_via (sk_dip l1) e mac (t_router r1)"
    using v a(4) l1(4) reachable_cong [of "t_router r1" "t_router r" "sk_dip l" e mac] by (simp add: sends_def)
  from text_arrives [OF a(2) l1(1-3) order_refl f d(1,2) l1(5) this, of env] obtain r2 l2 where
    "handle_tcp_packet_exp12 env f r1 = Some r2" "open_sock j l2 r2"
    "received d (snd_nxt k + of_nat (length d)) (rcv_nxt k) l1 l2" by blast
  then show ?thesis using a(1) l1(6) by (auto simp: open_sock_def received_def)
qed

section \<open>An instance\<close>

text \<open>The two ends of the later stage's example, each with an open connection; the client expects the
  number \<open>x\<close>.\<close>

lemma demo_ends:
  assumes "k = demo_k \<lparr>rcv_nxt := x\<rparr>"
  shows "\<exists>s r. open_sock 0 k s \<and> open_sock 0 demo_l r \<and> quiet k \<and> quiet demo_l \<and> crossed k demo_l \<and>
    reachable_via (sk_dip k) demo_route [2, 0, 0, 0, 0, 1] (t_router s) \<and>
    reachable_via (sk_dip demo_l) demo_route demo_mac (t_router r) \<and>
    snd_una k = 0 \<and> snd_nxt k = 0 \<and> rcv_nxt k = x \<and> rcv_nxt demo_l = 0 \<and> snd_nxt demo_l = 0 \<and> snd_una demo_l = 0"
proof -
  obtain h h' where h: "hashed 0 k (demo_open (t_router demo_client) k h)" "hashed 0 demo_l (demo_open demo_router demo_l h')"
    using demo_open_lists by blast
  have "rcv_buf k = rcv_buf demo_l" by (simp add: assms demo_k_def demo_l_def)
  then have "quiet k" "quiet demo_l"
    using demo_buffer(1) by (simp_all add: quiet_def) (simp_all add: assms demo_k_def demo_l_def fresh_sock_def wait_init_def)
  moreover have "open_sock 0 k (demo_open (t_router demo_client) k h)" "open_sock 0 demo_l (demo_open demo_router demo_l h')"
    using h by (simp_all add: open_sock_def) (simp_all add: demo_open_def assms demo_k_def demo_l_def)
  moreover have "reachable_via (sk_dip k) demo_route [2, 0, 0, 0, 0, 1] (t_router (demo_open (t_router demo_client) k h))"
    using demo_paths(1) by (simp add: assms)
  ultimately show ?thesis
    using demo_paths(2)
    by (intro exI [of _ "demo_open (t_router demo_client) k h"] exI [of _ "demo_open demo_router demo_l h'"])
      (simp add: crossed_def, simp add: assms demo_k_def demo_l_def fresh_sock_def)
qed

section \<open>Properties\<close>

text \<open>C27. A text written in the stop-and-wait stage arrives, and then it is the other end's turn: one frame
  goes out, whatever the Ethernet header it gets on the way; at the other end a read returns what
  was unread and exactly the text, and one acknowledgement goes back. When that arrives
  \<open>tcp_sock_write\<close> returns 0 with everything acknowledged, and the receiver may write the same way.\<close>

theorem text_exchanged:
  assumes t: "turn e mac e' mac' i k s j l r" "unat (snd_nxt k) + 131072 < 2 ^ 31"
    and d: "d \<noteq> []" "length d \<le> 65495" "int (length d) \<le> ring_buffer_free (rcv_buf l)"
  shows "\<exists>s0 n q. r_out (t_router s0) = r_out (t_router s) @ [(rt_iface e, q)] \<and>
    (\<forall>g. same_packet g q \<longrightarrow> (\<exists>r1 l1 a. handle_tcp_packet_exp12 other g r = Some r1 \<and>
      (\<exists>r2. \<forall>env. tcp_sock_read_exp12 env j (int (rb_size (rcv_buf l))) r1 =
        Some (int (length (rb_contents (rcv_buf l) @ d)), rb_contents (rcv_buf l) @ d, r2)) \<and>
      r_out (t_router r1) = r_out (t_router r) @ [(rt_iface e', a)] \<and>
      (\<forall>h. same_packet h a \<longrightarrow> (\<exists>s1 s2 k2. handle_tcp_packet_exp12 other h s0 = Some s1 \<and> t_router s1 = t_router s0 \<and>
        (\<forall>env. env n s0 = s1 \<longrightarrow> tcp_sock_write_exp12 env i d s = Some (0, s2)) \<and>
        turn e' mac' e mac j l1 r1 i k2 s2 \<and> rcv_nxt k2 = snd_nxt l1 + 1 \<and>
        snd_una k2 = snd_nxt k2 \<and> snd_nxt k2 = snd_nxt k + of_nat (length d)))))"
proof -
  from t(1) have x: "open_sock j l r" "quiet l" "crossed k l" "rcv_nxt l = snd_nxt k \<or> rcv_nxt l = snd_nxt k + 1"
    "reachable_via (sk_dip l) e' mac' (t_router r)" "reachable_via (sk_dip k) e mac (t_router s)" "rb_ok (rcv_buf k)"
    "rcv_nxt k = snd_nxt l" by (simp_all add: turn_def quiet_def)
  from write_sends [OF turn_writes [OF t] x(6) d(1,2)] obtain s0 k0 n q where
    g: "open_sock i k0 s0" "waits_for d k k0" "r_out (t_router s0) = r_out (t_router s) @ [(rt_iface e, q)]"
    "\<forall>f. same_packet f q \<longrightarrow> brings f (text_of k d)" "reachable_via (sk_dip k) e mac (t_router s0)"
    and ends: "\<forall>env s1 k1. env n s0 = s1 \<longrightarrow> open_sock i k1 s1 \<longrightarrow> \<not> sw_dead (sk_wait k1 Wait_Send) \<longrightarrow>
      snd_una k1 = snd_nxt k + of_nat (length d) \<longrightarrow>
      tcp_sock_write_exp12 env i d s = Some (0, s1 \<lparr>t_socks := (t_socks s1)(i \<mapsto> awake_send k1)\<rparr>)"
    by (elim exE conjE) (rule that)
  have turns: "\<exists>s1 s2 k2. handle_tcp_packet_exp12 other h s0 = Some s1 \<and> t_router s1 = t_router s0 \<and>
      (\<forall>env. env n s0 = s1 \<longrightarrow> tcp_sock_write_exp12 env i d s = Some (0, s2)) \<and>
      turn e' mac' e mac j l1 r1 i k2 s2 \<and> rcv_nxt k2 = snd_nxt l1 + 1 \<and> snd_una k2 = snd_nxt k2 \<and>
      snd_nxt k2 = snd_nxt k + of_nat (length d)"
    if a: "open_sock j l1 r1" "received d (snd_nxt k + of_nat (length d)) (rcv_nxt k) l l1"
      "reachable_via (sk_dip l) e' mac' (t_router r1)"
      "delivers a (reply_of l (snd_nxt k + of_nat (length d)))" "same_packet h a" for r1 l1 a h
  proof -
    from reply_ends_write [OF g(1,2) x(3,7,8) a(4,5), where other = other] obtain s1 k1 where
      b: "handle_tcp_packet_exp12 other h s0 = Some s1" "open_sock i k1 s1" "t_router s1 = t_router s0"
      "\<not> sw_dead (sk_wait k1 Wait_Send)" "snd_una k1 = snd_nxt k + of_nat (length d)"
      "open_sock i (awake_send k1) (s1 \<lparr>t_socks := (t_socks s1)(i \<mapsto> awake_send k1)\<rparr>)" "same_ends k (awake_send k1)"
      "quiet (awake_send k1)" "snd_una (awake_send k1) = snd_nxt k + of_nat (length d)"
      "snd_nxt (awake_send k1) = snd_nxt k + of_nat (length d)" "rcv_nxt (awake_send k1) = snd_nxt l + 1"
      by (elim exE conjE) (rule that)
    have l1: "same_ends l l1" "quiet l1" "rcv_nxt l1 = snd_nxt k + of_nat (length d)" "snd_una l1 = snd_nxt l1"
      "snd_nxt l1 = snd_nxt l" using a(2) x(2,8) by (simp_all add: received_def quiet_def)
    have "sk_dip l1 = sk_dip l" "sk_dip (awake_send k1) = sk_dip k" using l1(1) b(7) by (simp_all add: same_ends_def)
    then have "turn e' mac' e mac j l1 r1 i (awake_send k1) (s1 \<lparr>t_socks := (t_socks s1)(i \<mapsto> awake_send k1)\<rparr>)"
      using a(1,3) b l1 g(5) crossed_sym [OF crossed_ends [OF x(3) b(7) l1(1)]] by (simp add: turn_def)
    then show ?thesis using ends b l1(5) by (intro exI) auto
  qed
  show ?thesis
  proof (rule exI [of _ s0], rule exI [of _ n], rule exI [of _ q], intro conjI allI impI)
    fix f assume "same_packet f q"
    with g(4) have "brings f (text_of k d)" by blast
    from text_read [OF x(1-4) this d x(5), where other = other] obtain r1 l1 a where
      a: "handle_tcp_packet_exp12 other f r = Some r1" "open_sock j l1 r1"
      "received d (snd_nxt k + of_nat (length d)) (rcv_nxt k) l l1"
      "\<exists>r2. \<forall>env. tcp_sock_read_exp12 env j (int (rb_size (rcv_buf l))) r1 =
        Some (int (length (rb_contents (rcv_buf l) @ d)), rb_contents (rcv_buf l) @ d, r2)"
      "r_out (t_router r1) = r_out (t_router r) @ [(rt_iface e', a)]"
      "delivers a (reply_of l (snd_nxt k + of_nat (length d)))" "reachable_via (sk_dip l) e' mac' (t_router r1)"
      by blast
    from turns [OF a(2,3,7,6)] a(1,4,5) show "\<exists>r1 l1 a. handle_tcp_packet_exp12 other f r = Some r1 \<and>
      (\<exists>r2. \<forall>env. tcp_sock_read_exp12 env j (int (rb_size (rcv_buf l))) r1 =
        Some (int (length (rb_contents (rcv_buf l) @ d)), rb_contents (rcv_buf l) @ d, r2)) \<and>
      r_out (t_router r1) = r_out (t_router r) @ [(rt_iface e', a)] \<and>
      (\<forall>h. same_packet h a \<longrightarrow> (\<exists>s1 s2 k2. handle_tcp_packet_exp12 other h s0 = Some s1 \<and> t_router s1 = t_router s0 \<and>
        (\<forall>env. env n s0 = s1 \<longrightarrow> tcp_sock_write_exp12 env i d s = Some (0, s2)) \<and>
        turn e' mac' e mac j l1 r1 i k2 s2 \<and> rcv_nxt k2 = snd_nxt l1 + 1 \<and>
        snd_una k2 = snd_nxt k2 \<and> snd_nxt k2 = snd_nxt k + of_nat (length d)))"
      by (intro exI [of _ r1] exI [of _ l1] exI [of _ a]) simp
  qed (rule g(3))
qed

lemma text_exchanged_witness:
  "\<exists>client server server1 server2 client2 env g.
    handle_tcp_packet_exp12 (\<lambda>_ s. s) g server = Some server1 \<and>
    tcp_sock_read_exp12 env 0 65535 server1 = Some (2, [104, 105], server2) \<and>
    tcp_sock_write_exp12 env 0 [104, 105] client = Some (0, client2)"
proof -
  obtain s r where g: "open_sock 0 demo_k s" "open_sock 0 demo_l r" "quiet demo_k" "quiet demo_l" "crossed demo_k demo_l"
    "reachable_via (sk_dip demo_k) demo_route [2, 0, 0, 0, 0, 1] (t_router s)"
    "reachable_via (sk_dip demo_l) demo_route demo_mac (t_router r)"
    "snd_una demo_k = 0" "snd_nxt demo_k = 0" "rcv_nxt demo_k = 0" "rcv_nxt demo_l = 0" "snd_nxt demo_l = 0"
    using demo_ends [of demo_k "rcv_nxt demo_k"] by (auto simp: demo_k_def fresh_sock_def)
  then have t: "turn demo_route [2, 0, 0, 0, 0, 1] demo_route demo_mac 0 demo_k s 0 demo_l r" by (simp add: turn_def)
  have same: "same_packet q q" for q by (simp add: same_packet_def)
  have env: "\<exists>env. env n c = c'" for n :: nat and c c' :: stack by (rule exI [of _ "\<lambda>_ _. c'"]) simp
  have d: "unat (snd_nxt demo_k) + 131072 < 2 ^ 31" "[104, 105] \<noteq> ([] :: bytes)" "length ([104, 105] :: bytes) \<le> 65495"
    "int (length ([104, 105] :: bytes)) \<le> ring_buffer_free (rcv_buf demo_l)" using g(9) demo_buffer(4) by simp_all
  from text_exchanged [OF t d, of "\<lambda>_ s. s"] show ?thesis
    using same env demo_buffer(2,3) by simp metis
qed

text \<open>C30. Two texts in a row: after a write the writer expects one more than the number the other end
  sends with. When it writes again before the other end does, the text is stored there and
  answered as usual, but the writer drops the acknowledgement: it sleeps on, not notified and with
  nothing of the text acknowledged.\<close>

theorem second_write_ignored:
  assumes t: "turn e' mac' e mac j l r i k s" "rcv_nxt k = snd_nxt l + 1" "snd_una k = snd_nxt k"
      "unat (snd_nxt k) + 131072 < 2 ^ 31"
    and d: "d \<noteq> []" "length d \<le> 65495" "int (length d) \<le> ring_buffer_free (rcv_buf l)"
  shows "\<exists>s0 k0 n q. r_out (t_router s0) = r_out (t_router s) @ [(rt_iface e, q)] \<and>
    t_socks s0 i = Some k0 \<and> sw_sleep (sk_wait k0 Wait_Send) \<and> \<not> sw_notified (sk_wait k0 Wait_Send) \<and> snd_una k0 = snd_nxt k \<and>
    (\<forall>env s1 k1. env n s0 = s1 \<longrightarrow> open_sock i k1 s1 \<longrightarrow> \<not> sw_dead (sk_wait k1 Wait_Send) \<longrightarrow>
      snd_una k1 = snd_nxt k + of_nat (length d) \<longrightarrow> (\<exists>s2. tcp_sock_write_exp12 env i d s = Some (0, s2))) \<and>
    (\<forall>g. same_packet g q \<longrightarrow> (\<exists>r1 l1 a. handle_tcp_packet_exp12 other g r = Some r1 \<and> t_socks r1 j = Some l1 \<and>
      rb_contents (rcv_buf l1) = rb_contents (rcv_buf l) @ d \<and>
      r_out (t_router r1) = r_out (t_router r) @ [(rt_iface e', a)] \<and>
      (\<forall>h. same_packet h a \<longrightarrow> handle_tcp_packet_exp12 other h s0 = Some s0)))"
proof -
  from t(1) have x: "open_sock j l r" "quiet l" "crossed k l" "rcv_nxt l = snd_nxt k \<or> rcv_nxt l = snd_nxt k + 1"
    "reachable_via (sk_dip l) e' mac' (t_router r)" "reachable_via (sk_dip k) e mac (t_router s)"
    using crossed_sym by (simp_all add: turn_def)
  have w: "writes i k s" using t by (simp add: writes_def turn_def quiet_def)
  from write_sends [OF w x(6) d(1,2)] obtain s0 k0 n q where
    g: "open_sock i k0 s0" "waits_for d k k0" "r_out (t_router s0) = r_out (t_router s) @ [(rt_iface e, q)]"
    "\<forall>f. same_packet f q \<longrightarrow> brings f (text_of k d)"
    and ends: "\<forall>env s1 k1. env n s0 = s1 \<longrightarrow> open_sock i k1 s1 \<longrightarrow> \<not> sw_dead (sk_wait k1 Wait_Send) \<longrightarrow>
      snd_una k1 = snd_nxt k + of_nat (length d) \<longrightarrow>
      tcp_sock_write_exp12 env i d s = Some (0, s1 \<lparr>t_socks := (t_socks s1)(i \<mapsto> awake_send k1)\<rparr>)"
    by (elim exE conjE) (rule that)
  have k0: "same_ends k k0" "rcv_nxt k0 = snd_nxt l + 1" "sw_sleep (sk_wait k0 Wait_Send)" "\<not> sw_notified (sk_wait k0 Wait_Send)"
    "snd_una k0 = snd_nxt k" "t_socks s0 i = Some k0" using g(1,2) t(2,3) by (simp_all add: waits_for_def open_sock_def)
  have "\<exists>r1 l1 a. handle_tcp_packet_exp12 other f r = Some r1 \<and> t_socks r1 j = Some l1 \<and>
      rb_contents (rcv_buf l1) = rb_contents (rcv_buf l) @ d \<and>
      r_out (t_router r1) = r_out (t_router r) @ [(rt_iface e', a)] \<and>
      (\<forall>h. same_packet h a \<longrightarrow> handle_tcp_packet_exp12 other h s0 = Some s0)" if f: "same_packet f q" for f
  proof -
    from text_read [OF x(1-4) g(4) [rule_format, OF f] d x(5), where other = other] obtain r1 l1 a where
      a: "handle_tcp_packet_exp12 other f r = Some r1" "open_sock j l1 r1"
      "received d (snd_nxt k + of_nat (length d)) (rcv_nxt k) l l1"
      "r_out (t_router r1) = r_out (t_router r) @ [(rt_iface e', a)]"
      "delivers a (reply_of l (snd_nxt k + of_nat (length d)))" by blast
    have "handle_tcp_packet_exp12 other h s0 = Some s0" if "same_packet h a" for h
      using reply_dropped [OF g(1) k0(2) _ reply_at_writer [OF x(3) k0(1)]] a(5) [unfolded delivers_def] that by blast
    then show ?thesis using a by (auto simp: open_sock_def received_def)
  qed
  then show ?thesis using g(3) k0 ends by blast
qed

lemma second_write_ignored_witness:
  "\<exists>server server1 client0 g h.
    handle_tcp_packet_exp12 (\<lambda>_ s. s) g server = Some server1 \<and>
    handle_tcp_packet_exp12 (\<lambda>_ s. s) h client0 = Some client0 \<and>
    length (r_out (t_router server1)) = length (r_out (t_router server)) + 1"
proof -
  define k where "k = demo_k \<lparr>rcv_nxt := 1\<rparr>"
  from demo_ends [OF k_def] obtain s r where g: "open_sock 0 k s" "open_sock 0 demo_l r" "quiet k" "quiet demo_l" "crossed k demo_l"
    "reachable_via (sk_dip k) demo_route [2, 0, 0, 0, 0, 1] (t_router s)"
    "reachable_via (sk_dip demo_l) demo_route demo_mac (t_router r)"
    "snd_una k = 0" "snd_nxt k = 0" "rcv_nxt k = 1" "rcv_nxt demo_l = 0" "snd_nxt demo_l = 0" "snd_una demo_l = 0" by blast
  then have t: "turn demo_route demo_mac demo_route [2, 0, 0, 0, 0, 1] 0 demo_l r 0 k s"
    using crossed_sym by (simp add: turn_def)
  have same: "same_packet q q" for q by (simp add: same_packet_def)
  have d: "rcv_nxt k = snd_nxt demo_l + 1" "snd_una k = snd_nxt k" "unat (snd_nxt k) + 131072 < 2 ^ 31"
    "[104, 105] \<noteq> ([] :: bytes)" "length ([104, 105] :: bytes) \<le> 65495"
    "int (length ([104, 105] :: bytes)) \<le> ring_buffer_free (rcv_buf demo_l)" using g demo_buffer(4) by simp_all
  from second_write_ignored [OF t d, of "\<lambda>_ s. s"] obtain s0 q where
    q: "\<forall>g. same_packet g q \<longrightarrow> (\<exists>r1 l1 a. handle_tcp_packet_exp12 (\<lambda>_ s. s) g r = Some r1 \<and> t_socks r1 0 = Some l1 \<and>
      rb_contents (rcv_buf l1) = rb_contents (rcv_buf demo_l) @ [104, 105] \<and>
      r_out (t_router r1) = r_out (t_router r) @ [(rt_iface demo_route, a)] \<and>
      (\<forall>h. same_packet h a \<longrightarrow> handle_tcp_packet_exp12 (\<lambda>_ s. s) h s0 = Some s0))" by (elim exE conjE) (rule that)
  from q same [of q] obtain r1 a where "handle_tcp_packet_exp12 (\<lambda>_ s. s) q r = Some r1"
    "r_out (t_router r1) = r_out (t_router r) @ [(rt_iface demo_route, a)]"
    "\<forall>h. same_packet h a \<longrightarrow> handle_tcp_packet_exp12 (\<lambda>_ s. s) h s0 = Some s0" by blast
  then show ?thesis using same [of a] by fastforce
qed

end
