(* ===== verification/TcpConnect.thy ===== *)
theory TcpConnect imports TcpStopWait begin

text \<open>The first stage of the TCP stack, in \<open>exp11/code\<close>: connections are opened and closed, and carry no
  data. Sending, connecting, closing and the timer are those of \<open>exp12\<close>; the steps on an arriving
  segment differ and have the suffix \<open>exp11\<close>. Then what becomes of an acknowledgement on an open
  connection.\<close>

section \<open>Receiving\<close>

definition tcp_state_syn_sent_exp11 :: "nat \<Rightarrow> tcp_cb \<Rightarrow> stack \<Rightarrow> stack option" where
  "tcp_state_syn_sent_exp11 i cb s =
     (if cb_flags cb AND (TCP_SYN OR TCP_ACK) = TCP_SYN OR TCP_ACK then do {
        s \<leftarrow> upd_sock i (\<lambda>k. k \<lparr>rcv_nxt := cb_seq cb + 1\<rparr>) s;
        s \<leftarrow> tcp_set_state i TCP_ESTABLISHED s;
        s \<leftarrow> tcp_send_control_packet_exp12 i TCP_ACK s;
        wake_up i Wait_Connect s
      } else Some (tcp_send_reset cb s))"

definition tcp_state_syn_recv_exp11 :: "nat \<Rightarrow> tcp_cb \<Rightarrow> stack \<Rightarrow> stack option" where
  "tcp_state_syn_recv_exp11 i cb s =
     (if cb_flags cb AND TCP_ACK \<noteq> 0 then do {
        k \<leftarrow> t_socks s i;
        s \<leftarrow> tcp_sock_accept_enqueue i s;
        s \<leftarrow> upd_sock i (\<lambda>k. k \<lparr>rcv_nxt := cb_seq cb\<rparr>) s;
        p \<leftarrow> sk_parent k;
        s \<leftarrow> tcp_set_state p TCP_ESTABLISHED s;
        s \<leftarrow> tcp_set_state i TCP_ESTABLISHED s;
        wake_up p Wait_Accept s
      } else Some s)"

text \<open>Steps 10 and 11.\<close>

definition process_fin_exp11 :: "nat \<Rightarrow> tcp_cb \<Rightarrow> stack \<Rightarrow> stack option" where
  "process_fin_exp11 i cb s = do {
     k \<leftarrow> t_socks s i;
     if cb_flags cb AND TCP_FIN = 0 then tcp_send_control_packet_exp12 i TCP_ACK s
     else (case sk_state k of
       TCP_ESTABLISHED \<Rightarrow> do {
         s \<leftarrow> upd_sock i (\<lambda>k. k \<lparr>rcv_nxt := cb_seq cb + 1\<rparr>) s;
         s \<leftarrow> tcp_set_state i TCP_CLOSE_WAIT s;
         tcp_send_control_packet_exp12 i TCP_ACK s
       }
     | TCP_FIN_WAIT_1 \<Rightarrow> do {
         s \<leftarrow> tcp_set_state i TCP_CLOSING s;
         tcp_send_control_packet_exp12 i TCP_ACK s
       }
     | TCP_FIN_WAIT_2 \<Rightarrow> do {
         s \<leftarrow> upd_sock i (\<lambda>k. k \<lparr>rcv_nxt := cb_seq cb + 1\<rparr>) s;
         s \<leftarrow> tcp_set_state i TCP_TIME_WAIT s;
         s \<leftarrow> tcp_set_timewait_timer i s;
         s \<leftarrow> tcp_send_control_packet_exp12 i TCP_ACK s;
         tcp_unhash i s
       }
     | _ \<Rightarrow> tcp_send_control_packet_exp12 i TCP_ACK s)
   }"

definition tcp_process_exp11 :: "nat option \<Rightarrow> tcp_cb \<Rightarrow> stack \<Rightarrow> stack option" where
  "tcp_process_exp11 tsk cb s = (case tsk of None \<Rightarrow> Some s | Some i \<Rightarrow> do {
     k \<leftarrow> t_socks s i;
     let st = sk_state k;
     let flags = cb_flags cb;
     if st = TCP_CLOSED then Some (tcp_send_reset cb s)
     else if st = TCP_LISTEN then tcp_state_listen_exp12 i cb s
     else if st = TCP_SYN_SENT then tcp_state_syn_sent_exp11 i cb s
     else if \<not> is_tcp_seq_valid k cb then Some s
     else if flags AND TCP_RST \<noteq> 0 then do {
       s \<leftarrow> tcp_sock_close_exp12 i s;
       Some (s \<lparr>t_socks := (t_socks s)(i := None)\<rparr>)
     }
     else if flags AND TCP_SYN \<noteq> 0 then tcp_sock_close_exp12 i (tcp_send_reset cb s)
     else if flags AND TCP_ACK = 0 then Some (tcp_send_reset cb s)
     else if st = TCP_SYN_RECV then tcp_state_syn_recv_exp11 i cb s
     else if st = TCP_ESTABLISHED then do {
       s \<leftarrow> tcp_update_window_safe i cb s;
       process_fin_exp11 i cb s
     }
     else if flags AND TCP_FIN = 0 then process_closing_ack_exp12 i cb st s
     else process_fin_exp11 i cb s
   })"

definition handle_tcp_packet_exp11 :: "bytes \<Rightarrow> stack \<Rightarrow> stack option" where
  "handle_tcp_packet_exp11 packet s =
     (if \<not> tcp_in_bounds packet then None
      else if tcp_checksum packet \<noteq> th_cksum packet (ip_data packet) then Some s
      else do {
        let cb = tcp_cb_init packet (ip_data packet);
        tsk \<leftarrow> tcp_sock_lookup cb s;
        tcp_process_exp11 tsk cb s
      })"

section \<open>The applications\<close>

text \<open>While they sleep for \<open>secs\<close> seconds, \<open>rest\<close> is what the other threads do.\<close>

definition tcp_server_exp11 ::
    "(nat \<Rightarrow> stack \<Rightarrow> stack) \<Rightarrow> (nat \<Rightarrow> stack \<Rightarrow> stack) \<Rightarrow> u16 \<Rightarrow> stack \<Rightarrow> stack option" where
  "tcp_server_exp11 env rest port s = do {
     let (tsk, s) = alloc_tcp_sock_exp12 s;
     (r, s) \<leftarrow> tcp_sock_bind tsk port s;
     if r < 0 then Some (s \<lparr>t_exited := True\<rparr>)
     else do {
       (r, s) \<leftarrow> tcp_sock_listen tsk 3 s;
       if r < 0 then Some (s \<lparr>t_exited := True\<rparr>)
       else do {
         (c, s) \<leftarrow> tcp_sock_accept env tsk s;
         csk \<leftarrow> c;
         tcp_sock_close_exp12 csk (rest 10 s)
       }
     }
   }"

definition tcp_client_exp11 ::
    "(nat \<Rightarrow> stack \<Rightarrow> stack) \<Rightarrow> (nat \<Rightarrow> stack \<Rightarrow> stack) \<Rightarrow> u32 \<Rightarrow> u16 \<Rightarrow> stack \<Rightarrow> stack option" where
  "tcp_client_exp11 env rest ip port s = do {
     let (tsk, s) = alloc_tcp_sock_exp12 s;
     (r, s) \<leftarrow> tcp_sock_connect_exp12 env tsk ip port s;
     if r < 0 then Some (s \<lparr>t_exited := True\<rparr>)
     else tcp_sock_close_exp12 tsk (rest 1 s)
   }"

section \<open>An acknowledgement on an open connection\<close>

lemma window_updated:
  assumes o: "open_sock j l r"
  shows "\<exists>l'. tcp_update_window_safe j cb r = Some (r \<lparr>t_socks := (t_socks r)(j \<mapsto> l')\<rparr>) \<and>
    open_sock j l' (r \<lparr>t_socks := (t_socks r)(j \<mapsto> l')\<rparr>) \<and> same_ends l l' \<and> snd_nxt l' = snd_nxt l \<and>
    rcv_nxt l' = rcv_nxt l \<and> rcv_wnd l' = rcv_wnd l"
proof -
  have l: "t_socks r j = Some l" "sk_state l = TCP_ESTABLISHED" using o by (simp_all add: open_sock_def)
  obtain l' where g: "tcp_update_window_safe j cb r = Some (r \<lparr>t_socks := (t_socks r)(j \<mapsto> l')\<rparr>)"
    "same_ends l l'" "sk_state l' = TCP_ESTABLISHED" "snd_nxt l' = snd_nxt l" "rcv_nxt l' = rcv_nxt l" "rcv_wnd l' = rcv_wnd l"
  proof (cases "less_or_equal_32b (snd_una l) (cb_ack cb) \<and> less_or_equal_32b (cb_ack cb) (snd_nxt l)")
    case False
    then have "tcp_update_window_safe j cb r = Some (r \<lparr>t_socks := (t_socks r)(j \<mapsto> l)\<rparr>)"
      using l(1) by (auto simp: tcp_update_window_safe_def fun_upd_idem)
    then show ?thesis using that l(2) by (simp add: same_ends_def)
  next
    case True
    let ?k = "l \<lparr>snd_wnd := ucast (cb_rwnd cb)\<rparr>"
    let ?w = "\<lambda>x. if sw_dead x then x else if \<not> sw_notified x then x \<lparr>sw_notified := True\<rparr> else x"
    have "tcp_update_window_safe j cb r =
        Some (r \<lparr>t_socks := (t_socks r)(j \<mapsto> if snd_wnd l = 0 then upd_wait Wait_Send ?w ?k else ?k)\<rparr>)"
      using True l by (simp add: tcp_update_window_safe_def tcp_update_window_def upd_sock_def wake_up_def)
    then show ?thesis by (rule that) (use l in \<open>simp_all add: upd_wait_def same_ends_def\<close>)
  qed
  then show ?thesis
    using open_upd [OF o g(2,3), where r = "t_router r" and n = "t_sleeps r"] by (intro exI [of _ l']) simp
qed

text \<open>The acknowledgement that an end sends as it stands.\<close>

definition ack_now :: "tcp_sock \<Rightarrow> tcp_cb" where
  "ack_now k = reply_of k (rcv_nxt k)"

lemma ack_now_cong:
  assumes "same_ends k k'" "snd_nxt k' = snd_nxt k" "rcv_nxt k' = rcv_nxt k" "rcv_wnd k' = rcv_wnd k"
  shows "ack_now k' = ack_now k"
  using assms by (simp add: ack_now_def reply_of_def same_ends_def)

text \<open>It is answered by one of the other end.\<close>

lemma ack_answered:
  assumes o: "open_sock j l r" "crossed l k" "rcv_nxt l = snd_nxt k" and f: "carries f (ack_now k)"
    and v: "reachable_via (sk_dip l) e mac (t_router r)"
  shows "\<exists>r' l'. handle_tcp_packet_exp11 f r = Some r' \<and> open_sock j l' r' \<and> same_ends l l' \<and> snd_nxt l' = snd_nxt l \<and>
    rcv_nxt l' = rcv_nxt l \<and> rcv_wnd l' = rcv_wnd l \<and> sends e mac (ack_now l) (t_router r) (t_router r')"
proof -
  have cb: "ack_now k = segment_cb (sk_dip l) (sk_sip l) (sk_dport l) (sk_sport l) (snd_nxt k) (rcv_nxt k) TCP_ACK (rcv_wnd k) []"
    using o(2) by (simp add: ack_now_def reply_of_def crossed_def)
  have flags: "cb_flags (ack_now k) = TCP_ACK" by (simp add: cb segment_cb_def)
  from window_updated [OF o(1)] obtain l' where
    w: "tcp_update_window_safe j (ack_now k) r = Some (r \<lparr>t_socks := (t_socks r)(j \<mapsto> l')\<rparr>)"
    "open_sock j l' (r \<lparr>t_socks := (t_socks r)(j \<mapsto> l')\<rparr>)" "same_ends l l'" "snd_nxt l' = snd_nxt l"
    "rcv_nxt l' = rcv_nxt l" "rcv_wnd l' = rcv_wnd l" by blast
  let ?r = "r \<lparr>t_socks := (t_socks r)(j \<mapsto> l')\<rparr>"
  have l': "t_socks ?r j = Some l'" "sk_state l' = TCP_ESTABLISHED" "sk_dip l' = sk_dip l"
    using w(2,3) by (simp_all add: open_sock_def same_ends_def)
  have "reachable_via (sk_dip l') e mac (t_router ?r)" using v l'(3) by simp
  from ack_sent_any [OF l'(1) this] obtain x where x: "tcp_send_control_packet j TCP_ACK ?r = Some (?r \<lparr>t_router := x\<rparr>)"
    "sends e mac (ack_now l') (t_router ?r) x" by (auto simp: ack_now_def reply_of_def)
  have "TCP_ACK AND TCP_RST = 0" "TCP_ACK AND TCP_SYN = 0" "TCP_ACK AND TCP_ACK \<noteq> 0" "TCP_ACK AND TCP_FIN = 0"
    by (simp_all add: TCP_ACK_def TCP_RST_def TCP_SYN_def TCP_FIN_def)
  then have "tcp_process_exp11 (Some j) (ack_now k) r = Some (?r \<lparr>t_router := x\<rparr>)"
    using o(1) w(1) l'(1) x(1) reply_valid [OF cb o(3)]
    by (simp add: tcp_process_exp11_def process_fin_exp11_def open_sock_def flags ack_exp12 Let_def)
  moreover have "tcp_sock_lookup (ack_now k) r = Some (Some j)" using open_lookup [OF o(1)] by (simp add: cb)
  ultimately have "handle_tcp_packet_exp11 f r = Some (?r \<lparr>t_router := x\<rparr>)"
    using f by (simp add: handle_tcp_packet_exp11_def carries_def)
  moreover have "open_sock j l' (?r \<lparr>t_router := x\<rparr>)"
    using open_upd [OF o(1) w(3) l'(2), where r = x and n = "t_sleeps r"] by simp
  ultimately show ?thesis
    using w(3-6) x(2) ack_now_cong [OF w(3-6)] by (intro exI [of _ "?r \<lparr>t_router := x\<rparr>"] exI [of _ l']) simp
qed

text \<open>Two open ends that expect each other's numbers.\<close>

definition paired :: "rt_entry \<Rightarrow> mac_addr \<Rightarrow> rt_entry \<Rightarrow> mac_addr \<Rightarrow> nat \<Rightarrow> tcp_sock \<Rightarrow> stack \<Rightarrow> nat \<Rightarrow> tcp_sock \<Rightarrow> stack \<Rightarrow> bool" where
  "paired e mac e' mac' i k s j l r \<longleftrightarrow> open_sock i k s \<and> open_sock j l r \<and> crossed k l \<and> rcv_nxt k = snd_nxt l \<and>
     rcv_nxt l = snd_nxt k \<and> reachable_via (sk_dip k) e mac (t_router s) \<and> reachable_via (sk_dip l) e' mac' (t_router r)"

lemma paired_answers:
  assumes p: "paired e mac e' mac' i k s j l r" and f: "carries f (ack_now k)"
  shows "\<exists>r' l' q. handle_tcp_packet_exp11 f r = Some r' \<and> paired e' mac' e mac j l' r' i k s \<and> ack_now l' = ack_now l \<and>
    r_out (t_router r') = r_out (t_router r) @ [(rt_iface e', q)] \<and> delivers q (ack_now l')"
proof -
  have g: "open_sock i k s" "open_sock j l r" "crossed l k" "rcv_nxt k = snd_nxt l" "rcv_nxt l = snd_nxt k"
    "reachable_via (sk_dip k) e mac (t_router s)" "reachable_via (sk_dip l) e' mac' (t_router r)"
    using p crossed_sym by (simp_all add: paired_def)
  from ack_answered [OF g(2,3,5) f g(7)] obtain r' l' where
    a: "handle_tcp_packet_exp11 f r = Some r'" "open_sock j l' r'" "same_ends l l'" "snd_nxt l' = snd_nxt l"
    "rcv_nxt l' = rcv_nxt l" "rcv_wnd l' = rcv_wnd l" "sends e' mac' (ack_now l) (t_router r) (t_router r')" by blast
  have "crossed l' k" using crossed_ends [OF g(3) a(3)] same_ends_def by simp
  moreover have "reachable_via (sk_dip l') e' mac' (t_router r')"
    using g(7) a(3,7) reachable_cong [of "t_router r'" "t_router r" "sk_dip l" e' mac'] by (simp add: sends_def same_ends_def)
  ultimately have "paired e' mac' e mac j l' r' i k s" using g a(2-5) by (simp add: paired_def)
  then show ?thesis using a(1,7) ack_now_cong [OF a(3-6)] by (auto simp: sends_def)
qed

text \<open>A frame goes from one stack to the other, changed by \<open>wire\<close> on the way; what is sent last goes back,
  \<open>n\<close> times.\<close>

fun volley :: "(bytes \<Rightarrow> bytes) \<Rightarrow> nat \<Rightarrow> bytes \<Rightarrow> stack \<Rightarrow> stack \<Rightarrow> (stack \<times> stack) option" where
  "volley wire 0 f s r = Some (s, r)"
| "volley wire (Suc n) f s r = do {
     r \<leftarrow> handle_tcp_packet_exp11 (wire f) r;
     volley wire n (snd (last (r_out (t_router r)))) r s
   }"

lemma volley_goes_on:
  assumes wire: "\<And>f. same_packet (wire f) f"
  shows "paired e mac e' mac' i k s j l r \<Longrightarrow> delivers f (ack_now k) \<Longrightarrow>
    \<exists>s' r'. volley wire n f s r = Some (s', r') \<and>
      length (r_out (t_router s')) + length (r_out (t_router r')) =
      length (r_out (t_router s)) + length (r_out (t_router r)) + n"
proof (induction n arbitrary: e mac e' mac' i k s j l r f)
  case (Suc n)
  have "carries (wire f) (ack_now k)" using Suc.prems(2) wire by (simp add: delivers_def)
  from paired_answers [OF Suc.prems(1) this] obtain r1 l1 q where
    a: "handle_tcp_packet_exp11 (wire f) r = Some r1" "paired e' mac' e mac j l1 r1 i k s"
    "r_out (t_router r1) = r_out (t_router r) @ [(rt_iface e', q)]" "delivers q (ack_now l1)" by blast
  from Suc.IH [OF a(2,4)] show ?case using a(1,3) by auto
qed simp

section \<open>Properties\<close>

text \<open>C28. Acknowledgements answered by acknowledgements: once an empty acknowledgement, such as a copy of
  one already sent, arrives on an open connection of the first stage, each end answers the other
  with one more. After any number of deliveries as many frames have been sent.\<close>

theorem ack_storm:
  assumes "paired e mac e' mac' i k s j l r" "delivers f (ack_now k)" "\<And>f. same_packet (wire f) f"
  shows "\<exists>s' r'. volley wire n f s r = Some (s', r') \<and>
    length (r_out (t_router s')) + length (r_out (t_router r')) =
    length (r_out (t_router s)) + length (r_out (t_router r)) + n"
  using volley_goes_on [OF assms(3,1,2)] .

lemma ack_storm_witness:
  "\<exists>f s r s' r'. volley (\<lambda>f. f) 1000 f s r = Some (s', r') \<and>
    length (r_out (t_router s')) + length (r_out (t_router r')) =
    length (r_out (t_router s)) + length (r_out (t_router r)) + 1000"
proof -
  obtain s r where g: "open_sock 0 demo_k s" "open_sock 0 demo_l r" "crossed demo_k demo_l"
    "reachable_via (sk_dip demo_k) demo_route [2, 0, 0, 0, 0, 1] (t_router s)"
    "reachable_via (sk_dip demo_l) demo_route demo_mac (t_router r)"
    "snd_nxt demo_k = 0" "rcv_nxt demo_k = 0" "rcv_nxt demo_l = 0" "snd_nxt demo_l = 0"
    using demo_ends [of demo_k "rcv_nxt demo_k"] by (auto simp: demo_k_def fresh_sock_def)
  then have p: "paired demo_route [2, 0, 0, 0, 0, 1] demo_route demo_mac 0 demo_k s 0 demo_l r" by (simp add: paired_def)
  have "t_socks s 0 = Some demo_k" using g(1) by (simp add: open_sock_def)
  from ack_sent_any [OF this g(4)] obtain f where f: "delivers f (ack_now demo_k)"
    by (auto simp: ack_now_def reply_of_def sends_def)
  have same: "same_packet f f" for f by (simp add: same_packet_def)
  show ?thesis using ack_storm [OF p f same, of 1000] by blast
qed

end
