(* ===== verification/KernelRoutes.thy ===== *)
theory KernelRoutes imports RouterState begin

text \<open>Loading the routing table from the kernel, \<open>rtable_internal.c\<close> of \<open>exp13/code\<close> (the same file
  serves \<open>exp9\<close> to \<open>exp12\<close>). The netlink structures and the macros \<open>NLMSG_OK\<close>, \<open>NLMSG_NEXT\<close>,
  \<open>RTA_OK\<close>, \<open>RTA_NEXT\<close>, \<open>RTM_RTA\<close>, \<open>RTM_PAYLOAD\<close> are those of \<open>netlink (3)\<close> and \<open>rtnetlink (3)\<close>:
  a header of 16 bytes, a route message of 12, attributes of 4 bytes and their data, all aligned to
  4. The buffer is memory of 10240 bytes; a read outside it, of the never assigned \<open>if_name\<close> or a
  shift by the width of the mask is \<open>Undefined\<close>, \<open>exit (-1)\<close> is \<open>Exits\<close>, a \<open>recv\<close> with nothing left
  to receive is \<open>Blocks\<close>. The kernel's answers, and the name it gives an interface number, are
  arguments.\<close>

section \<open>Netlink messages\<close>

datatype load_error = Exits | Undefined | Blocks

definition ROUTE_BATCH_SIZE :: nat where
  "ROUTE_BATCH_SIZE = 10240"

definition in_buf :: "bytes \<Rightarrow> nat \<Rightarrow> nat \<Rightarrow> bool" where
  "in_buf buf i n \<longleftrightarrow> i + n \<le> length buf"

definition nl_align :: "nat \<Rightarrow> nat" where
  "nl_align n = (n + 3) div 4 * 4"

definition nlmsg_len :: "bytes \<Rightarrow> nat \<Rightarrow> nat" where
  "nlmsg_len buf p = unat (ld32 buf p)"

definition nlmsg_type :: "bytes \<Rightarrow> nat \<Rightarrow> u16" where
  "nlmsg_type buf p = ld16 buf (p + 4)"

definition NLMSG_OK :: "bytes \<Rightarrow> nat \<Rightarrow> int \<Rightarrow> bool" where
  "NLMSG_OK buf p len \<longleftrightarrow> len \<ge> 16 \<and> nlmsg_len buf p \<ge> 16 \<and> int (nlmsg_len buf p) \<le> len"

definition rta_len :: "bytes \<Rightarrow> nat \<Rightarrow> nat" where
  "rta_len buf p = unat (ld16 buf p)"

definition rta_type :: "bytes \<Rightarrow> nat \<Rightarrow> u16" where
  "rta_type buf p = ld16 buf (p + 2)"

definition RTA_OK :: "bytes \<Rightarrow> nat \<Rightarrow> int \<Rightarrow> bool" where
  "RTA_OK buf p len \<longleftrightarrow> len \<ge> 4 \<and> rta_len buf p \<ge> 4 \<and> int (rta_len buf p) \<le> len"

definition RTM_PAYLOAD :: "bytes \<Rightarrow> nat \<Rightarrow> int" where
  "RTM_PAYLOAD buf p = int (nlmsg_len buf p) - 28"

definition rtm_table :: "bytes \<Rightarrow> nat \<Rightarrow> u8" where
  "rtm_table buf p = ld8 buf (p + 16 + 4)"

definition rtm_dst_len :: "bytes \<Rightarrow> nat \<Rightarrow> u8" where
  "rtm_dst_len buf p = ld8 buf (p + 16 + 1)"

section \<open>One route message\<close>

text \<open>The variables of the inner loop; \<open>if_name\<close> is unassigned until an \<open>RTA_OIF\<close> is seen.\<close>

record route_vars =
  v_dest :: u32
  v_mask :: u32
  v_gw :: u32
  v_name :: "string option"

definition read_attr :: "(int \<Rightarrow> string option) \<Rightarrow> bytes \<Rightarrow> u8 \<Rightarrow> nat \<Rightarrow> route_vars \<Rightarrow> load_error + route_vars" where
  "read_attr names buf dst_len p v =
     (if rta_type buf p = 1 then
        if in_buf buf (p + 4) 4 \<and> 1 \<le> dst_len \<and> dst_len \<le> 32
        then Inr (v \<lparr>v_dest := ntohl (ld32 buf (p + 4)),
                     v_mask := push_bit (32 - unat dst_len) 0xFFFFFFFF\<rparr>)
        else Inl Undefined
      else if rta_type buf p = 5 then
        if in_buf buf (p + 4) 4 then Inr (v \<lparr>v_gw := ntohl (ld32 buf (p + 4))\<rparr>) else Inl Undefined
      else if rta_type buf p = 4 then
        if in_buf buf (p + 4) 4
        then case names (sint (ld32 buf (p + 4))) of
               None \<Rightarrow> Inl Exits
             | Some name \<Rightarrow> Inr (v \<lparr>v_name := Some name\<rparr>)
        else Inl Undefined
      else Inr v)"

function read_attrs :: "(int \<Rightarrow> string option) \<Rightarrow> bytes \<Rightarrow> u8 \<Rightarrow> nat \<Rightarrow> int \<Rightarrow> route_vars \<Rightarrow> load_error + route_vars" where
  "read_attrs names buf dst_len p rtl v =
     (if RTA_OK buf p rtl
      then case read_attr names buf dst_len p v of
             Inl e \<Rightarrow> Inl e
           | Inr v' \<Rightarrow> read_attrs names buf dst_len (p + nl_align (rta_len buf p))
               (rtl - int (nl_align (rta_len buf p))) v'
      else Inr v)"
  by pat_completeness auto
termination
  by (relation "measure (\<lambda>(names, buf, dst_len, p, rtl, v). nat rtl)") (auto simp: RTA_OK_def nl_align_def)

declare read_attrs.simps [simp del]

fun if_name_loop :: "string \<Rightarrow> nat \<Rightarrow> iface_info list \<Rightarrow> nat option" where
  "if_name_loop name i [] = None"
| "if_name_loop name i (f # fs) = (if if_name f = name then Some i else if_name_loop name (i + 1) fs)"

definition rt_name_to_iface :: "string \<Rightarrow> router \<Rightarrow> nat option" where
  "rt_name_to_iface name s = if_name_loop name 0 (r_ifaces s)"

text \<open>The body of the outer loop. The flags it computes are not stored.\<close>

definition load_route :: "(int \<Rightarrow> string option) \<Rightarrow> bytes \<Rightarrow> nat \<Rightarrow> nat \<times> router \<Rightarrow> load_error + nat \<times> router" where
  "load_route names buf p = (\<lambda>(n, s).
     if \<not> in_buf buf p 28 then Inl Undefined
     else if rtm_table buf p \<noteq> 254 then Inr (n, s)
     else case read_attrs names buf (rtm_dst_len buf p) (p + 28) (RTM_PAYLOAD buf p)
                 \<lparr>v_dest = 0, v_mask = 0, v_gw = 0, v_name = None\<rparr> of
            Inl e \<Rightarrow> Inl e
          | Inr v \<Rightarrow>
             (case v_name v of
                None \<Rightarrow> Inl Undefined
              | Some name \<Rightarrow>
                 (case rt_name_to_iface name s of
                    None \<Rightarrow> Inr (n, s)
                  | Some iface \<Rightarrow>
                      Inr (n + 1, add_rt_entry (new_rt_entry (v_dest v) (v_mask v) (v_gw v) iface s) s))))"

section \<open>The dump\<close>

function parse_loop :: "(int \<Rightarrow> string option) \<Rightarrow> bytes \<Rightarrow> nat \<Rightarrow> int \<Rightarrow> nat \<times> router \<Rightarrow> load_error + nat \<times> router" where
  "parse_loop names buf p len acc =
     (if NLMSG_OK buf p len
      then case load_route names buf p acc of
             Inl e \<Rightarrow> Inl e
           | Inr acc' \<Rightarrow> parse_loop names buf (p + nl_align (nlmsg_len buf p))
               (len - int (nl_align (nlmsg_len buf p))) acc'
      else Inr acc)"
  by pat_completeness auto
termination
  by (relation "measure (\<lambda>(names, buf, p, len, acc). nat len)") (auto simp: NLMSG_OK_def nl_align_def)

declare parse_loop.simps [simp del]

definition parse_routing_info :: "(int \<Rightarrow> string option) \<Rightarrow> bytes \<Rightarrow> nat \<Rightarrow> router \<Rightarrow> load_error + nat \<times> router" where
  "parse_routing_info names buf len s = parse_loop names buf 0 (int len) (0, s \<lparr>r_rtable := []\<rparr>)"

text \<open>What \<open>recv\<close> returns next: \<open>None\<close> for an error, otherwise a datagram, cut to the room left.
  Only the first header of each is looked at.\<close>

fun recv_dump :: "bytes option list \<Rightarrow> bytes \<Rightarrow> nat \<Rightarrow> nat \<Rightarrow> load_error + bytes \<times> nat" where
  "recv_dump answers buf len left =
     (if left < 16 then Inl Exits
      else case answers of
             [] \<Rightarrow> Inl Blocks
           | None # _ \<Rightarrow> Inr (buf, len)
           | Some d # rest \<Rightarrow>
              (let nbytes = length (take left d); buf = blit buf len (take left d)
               in if nbytes = 0 then Inr (buf, len)
                  else if nlmsg_type buf len = 3 then Inr (buf, len)
                  else if nlmsg_type buf len = 2 then Inl Exits
                  else recv_dump rest buf (len + nbytes) (left - nbytes)))"

declare recv_dump.simps [simp del]

text \<open>\<open>None\<close> from \<open>send\<close> is its failure.\<close>

definition get_unparsed_route_info :: "bytes option list option \<Rightarrow> bytes \<Rightarrow> nat \<Rightarrow> load_error + bytes \<times> nat" where
  "get_unparsed_route_info answers buf room =
     (case answers of None \<Rightarrow> Inl Exits | Some ds \<Rightarrow> recv_dump ds buf 0 room)"

text \<open>The buffer is a variable of the function: \<open>stack\<close> is what memory holds there.\<close>

definition load_rtable_from_kernel ::
    "(int \<Rightarrow> string option) \<Rightarrow> bytes option list option \<Rightarrow> bytes \<Rightarrow> router \<Rightarrow> load_error + nat \<times> router" where
  "load_rtable_from_kernel names answers stack s =
     (case get_unparsed_route_info answers stack ROUTE_BATCH_SIZE of
        Inl e \<Rightarrow> Inl e
      | Inr (buf, len) \<Rightarrow> parse_routing_info names buf len s)"

section \<open>The entries are well typed\<close>

definition high_mask :: "nat \<Rightarrow> u32" where
  "high_mask k = push_bit (32 - k) (- 1)"

text \<open>An entry of a host: the mask is that of a prefix, a default route has no destination, the
  interface is one of the host and the name is its name.\<close>

definition route_typed :: "router \<Rightarrow> rt_entry \<Rightarrow> bool" where
  "route_typed s e \<longleftrightarrow>
     (\<exists>k \<le> 32. rt_mask e = high_mask k) \<and> (rt_mask e = 0 \<longrightarrow> rt_dest e = 0) \<and>
     rt_iface e < length (r_ifaces s) \<and> rt_if_name e = if_name (r_ifaces s ! rt_iface e)"

definition vars_typed :: "route_vars \<Rightarrow> bool" where
  "vars_typed v \<longleftrightarrow> (\<exists>k \<le> 32. v_mask v = high_mask k) \<and> (v_mask v = 0 \<longrightarrow> v_dest v = 0)"

lemma bit_high_mask: "bit (high_mask k) i \<longleftrightarrow> 32 - k \<le> i \<and> i < 32"
  by (simp only: high_mask_def push_bit_minus_one_bit) simp

lemma push_all_ones: "push_bit (32 - k) 0xFFFFFFFF = high_mask k"
proof -
  have "(0xFFFFFFFF :: u32) = - 1"
    by simp
  then show ?thesis by (simp only: high_mask_def)
qed

lemma high_mask_0 [simp]: "high_mask 0 = 0"
  by (rule bit_word_eqI) (simp add: bit_high_mask)

lemma high_mask_le_iff: "k \<le> 32 \<Longrightarrow> l \<le> 32 \<Longrightarrow> high_mask k \<le> high_mask l \<longleftrightarrow> k \<le> l"
proof -
  have sub: "high_mask i \<le> high_mask j" if "i \<le> j" for i j
  proof -
    have "high_mask i = high_mask i AND high_mask j"
      using that by (auto intro!: bit_word_eqI simp: bit_and_iff bit_high_mask)
    then show ?thesis by (metis word_and_le1)
  qed
  assume *: "k \<le> 32" "l \<le> 32"
  have "high_mask k \<noteq> high_mask l" if "l < k"
    using * that bit_high_mask [of k "32 - k"] bit_high_mask [of l "32 - k"] by auto
  then show ?thesis
    using sub [of k l] sub [of l k] by (metis order.antisym nat_less_le not_le)
qed

lemma high_mask_pos: "1 \<le> k \<Longrightarrow> k \<le> 32 \<Longrightarrow> high_mask k \<noteq> 0"
  using high_mask_le_iff [of k 0] by auto

lemma if_name_loop_Some:
  "if_name_loop name i fs = Some j \<Longrightarrow> i \<le> j \<and> j < i + length fs \<and> if_name (fs ! (j - i)) = name"
  by (induction name i fs rule: if_name_loop.induct)
    (fastforce split: if_splits simp: nth_Cons' Suc_diff_Suc)+

lemma rt_name_to_iface_Some:
  "rt_name_to_iface name s = Some i \<Longrightarrow> i < length (r_ifaces s) \<and> if_name (r_ifaces s ! i) = name"
  unfolding rt_name_to_iface_def by (drule if_name_loop_Some) simp

lemma read_attr_typed: "read_attr names buf dst_len p v = Inr v' \<Longrightarrow> vars_typed v \<Longrightarrow> vars_typed v'"
proof -
  have k: "1 \<le> unat dst_len" "unat dst_len \<le> 32" if "1 \<le> dst_len" "dst_len \<le> (32 :: u8)"
    using that by (simp_all add: word_le_nat_alt)
  assume "read_attr names buf dst_len p v = Inr v'" "vars_typed v"
  then show ?thesis
    using k high_mask_pos [of "unat dst_len"]
    by (auto simp: read_attr_def vars_typed_def push_all_ones split: if_splits option.splits)
qed

lemma read_attrs_typed:
  "read_attrs names buf dst_len p rtl v = Inr v' \<Longrightarrow> vars_typed v \<Longrightarrow> vars_typed v'"
proof (induction names buf dst_len p rtl v rule: read_attrs.induct)
  case (1 names buf dst_len p rtl v)
  then show ?case
    by (auto simp: read_attrs.simps [of names buf dst_len p rtl v] split: if_splits sum.splits
        dest: read_attr_typed)
qed

definition table_typed :: "router \<Rightarrow> nat \<times> router \<Rightarrow> bool" where
  "table_typed s = (\<lambda>(n, s'). \<exists>es. s' = s \<lparr>r_rtable := es\<rparr> \<and> n = length es \<and> (\<forall>e \<in> set es. route_typed s e))"

lemma load_route_typed: "load_route names buf p acc = Inr acc' \<Longrightarrow> table_typed s acc \<Longrightarrow> table_typed s acc'"
proof -
  assume *: "load_route names buf p acc = Inr acc'" "table_typed s acc"
  obtain n t where acc: "acc = (n, t)" by (cases acc)
  have init: "vars_typed \<lparr>v_dest = 0, v_mask = 0, v_gw = 0, v_name = None\<rparr>"
    by (auto simp: vars_typed_def intro: exI [of _ 0])
  show ?thesis
    using * read_attrs_typed [OF _ init]
    by (fastforce simp: load_route_def acc table_typed_def add_rt_entry_def new_rt_entry_def route_typed_def
        vars_typed_def split: if_splits sum.splits option.splits dest: rt_name_to_iface_Some)
qed

lemma parse_loop_typed: "parse_loop names buf p len acc = Inr acc' \<Longrightarrow> table_typed s acc \<Longrightarrow> table_typed s acc'"
proof (induction names buf p len acc rule: parse_loop.induct)
  case (1 names buf p len acc)
  then show ?case
    by (auto simp: parse_loop.simps [of names buf p len acc] split: if_splits sum.splits
        dest: load_route_typed)
qed

section \<open>Reading back a dump\<close>

text \<open>A message as the kernel writes it: the rest of its header, the route message, and attributes
  with a type and data, each padded to 4 bytes.\<close>

definition le16 :: "u16 \<Rightarrow> bytes" where
  "le16 v = [ucast v, ucast (drop_bit 8 v)]"

definition le32 :: "u32 \<Rightarrow> bytes" where
  "le32 v = le16 (ucast v) @ le16 (ucast (drop_bit 16 v))"

record nl_msg =
  m_head :: bytes
  m_rtm :: bytes
  m_attrs :: "(u16 \<times> bytes) list"

definition attr_bytes :: "u16 \<times> bytes \<Rightarrow> bytes" where
  "attr_bytes = (\<lambda>(ty, d). le16 (of_nat (4 + length d)) @ le16 ty @ d @ replicate (nl_align (length d) - length d) 0)"

definition attrs_bytes :: "nl_msg \<Rightarrow> bytes" where
  "attrs_bytes m = concat (map attr_bytes (m_attrs m))"

definition msg_bytes :: "nl_msg \<Rightarrow> bytes" where
  "msg_bytes m = le32 (of_nat (28 + length (attrs_bytes m))) @ m_head m @ m_rtm m @ attrs_bytes m"

text \<open>What a message says: of an attribute given twice the last counts.\<close>

definition attr :: "nl_msg \<Rightarrow> u16 \<Rightarrow> bytes option" where
  "attr m ty = map_of (rev (m_attrs m)) ty"

definition msg_dest :: "nl_msg \<Rightarrow> u32" where
  "msg_dest m = (case attr m 1 of None \<Rightarrow> 0 | Some d \<Rightarrow> ntohl (ld32 d 0))"

definition msg_mask :: "nl_msg \<Rightarrow> u32" where
  "msg_mask m = (case attr m 1 of None \<Rightarrow> 0 | Some d \<Rightarrow> high_mask (unat (m_rtm m ! 1)))"

definition msg_gw :: "nl_msg \<Rightarrow> u32" where
  "msg_gw m = (case attr m 5 of None \<Rightarrow> 0 | Some d \<Rightarrow> ntohl (ld32 d 0))"

definition msg_if_name :: "(int \<Rightarrow> string option) \<Rightarrow> nl_msg \<Rightarrow> string option" where
  "msg_if_name names m = (case attr m 4 of None \<Rightarrow> None | Some d \<Rightarrow> names (sint (ld32 d 0)))"

definition msg_entries :: "(int \<Rightarrow> string option) \<Rightarrow> router \<Rightarrow> nl_msg \<Rightarrow> rt_entry list" where
  "msg_entries names s m =
     (if m_rtm m ! 4 \<noteq> 254 then []
      else case rt_name_to_iface (the (msg_if_name names m)) s of
             None \<Rightarrow> []
           | Some i \<Rightarrow> [new_rt_entry (msg_dest m) (msg_mask m) (msg_gw m) i s])"

text \<open>The kernel's promises: destinations, gateways and interface numbers have 4 bytes, a
  destination comes with a prefix length of 1 to 32, every route names an interface the system
  knows, and a message fits its buffer.\<close>

definition attr_ok :: "(int \<Rightarrow> string option) \<Rightarrow> u8 \<Rightarrow> u16 \<times> bytes \<Rightarrow> bool" where
  "attr_ok names dst_len = (\<lambda>(ty, d). length d < 65532 \<and> (ty \<in> {1, 4, 5} \<longrightarrow> length d = 4) \<and>
     (ty = 1 \<longrightarrow> 1 \<le> dst_len \<and> dst_len \<le> 32) \<and> (ty = 4 \<longrightarrow> names (sint (ld32 d 0)) \<noteq> None))"

definition msg_form :: "(int \<Rightarrow> string option) \<Rightarrow> nl_msg \<Rightarrow> bool" where
  "msg_form names m \<longleftrightarrow> length (m_head m) = 12 \<and> length (m_rtm m) = 12 \<and>
     (m_rtm m ! 4 = 254 \<longrightarrow> (\<forall>a \<in> set (m_attrs m). attr_ok names (m_rtm m ! 1) a)) \<and>
     length (msg_bytes m) \<le> 10240"

definition msg_ok :: "(int \<Rightarrow> string option) \<Rightarrow> nl_msg \<Rightarrow> bool" where
  "msg_ok names m \<longleftrightarrow> msg_form names m \<and> (m_rtm m ! 4 = 254 \<longrightarrow> attr m 4 \<noteq> None)"

lemma nth_shift: "(pre @ xs) ! (length pre + i) = xs ! i"
  by (simp add: nth_append)

lemma ld_append:
  "ld8 (pre @ xs) (length pre + i) = ld8 xs i"
  "ld16 (pre @ xs) (length pre + i) = ld16 xs i"
  "ld32 (pre @ xs) (length pre + i) = ld32 xs i"
  by (simp_all only: ld8_def ld16_def ld32_def nth_shift add.assoc)

lemma netlink_append [simp]:
  "rta_type (pre @ xs) (length pre + i) = rta_type xs i"
  "rta_len (pre @ xs) (length pre + i) = rta_len xs i"
  "RTA_OK (pre @ xs) (length pre + i) r = RTA_OK xs i r"
  "nlmsg_type (pre @ xs) (length pre + i) = nlmsg_type xs i"
  "nlmsg_len (pre @ xs) (length pre + i) = nlmsg_len xs i"
  "NLMSG_OK (pre @ xs) (length pre + i) r = NLMSG_OK xs i r"
  "RTM_PAYLOAD (pre @ xs) (length pre + i) = RTM_PAYLOAD xs i"
  "rtm_table (pre @ xs) (length pre + i) = rtm_table xs i"
  "rtm_dst_len (pre @ xs) (length pre + i) = rtm_dst_len xs i"
  "in_buf (pre @ xs) (length pre + i) n = in_buf xs i n"
  by (simp_all only: rta_type_def rta_len_def RTA_OK_def nlmsg_type_def nlmsg_len_def NLMSG_OK_def
      RTM_PAYLOAD_def rtm_table_def rtm_dst_len_def in_buf_def ld_append add.assoc length_append
      nat_add_left_cancel_le)

lemma read_attr_append:
  "read_attr names (pre @ xs) dl (length pre + i) v = read_attr names xs dl i v"
  by (simp only: read_attr_def netlink_append ld_append add.assoc)

lemma read_attrs_append:
  "read_attrs names (pre @ xs) dl (length pre + i) rtl v = read_attrs names xs dl i rtl v"
proof (induction names xs dl i rtl v rule: read_attrs.induct)
  case (1 names xs dl i rtl v)
  show ?case
    using 1 by (simp add: read_attrs.simps [of _ "pre @ xs"] read_attrs.simps [of _ xs _ i]
        read_attr_append add.assoc split: sum.split)
qed

lemma load_route_append: "load_route names (pre @ xs) (length pre + i) acc = load_route names xs i acc"
  by (simp only: load_route_def netlink_append read_attrs_append add.assoc)

lemma parse_loop_append:
  "parse_loop names (pre @ xs) (length pre + i) len acc = parse_loop names xs i len acc"
proof (induction names xs i len acc rule: parse_loop.induct)
  case (1 names xs i len acc)
  show ?case
    using 1 by (simp add: parse_loop.simps [of _ "pre @ xs"] parse_loop.simps [of _ xs i]
        load_route_append add.assoc split: sum.split)
qed

lemma length_le [simp]: "length (le16 a) = 2" "length (le32 b) = 4"
  by (simp_all add: le16_def le32_def)

lemma ld16_le16 [simp]: "ld16 (le16 v @ xs) 0 = v"
  by (rule bit_word_eqI) (auto simp: ld16_def le16_def bit_simps)

lemma ld32_le32 [simp]: "ld32 (le32 v @ xs) 0 = v"
proof -
  have "ld32 (le32 v @ xs) 0 = ucast (ucast v :: u16) OR push_bit 16 (ucast (ucast (drop_bit 16 v) :: u16))"
    using ld_append(2) [of "le16 (ucast v)" "le16 (ucast (drop_bit 16 v)) @ xs" 0]
    by (simp add: ld32_def le32_def numeral_2_eq_2)
  also have "\<dots> = v"
    by (rule bit_word_eqI) (auto simp: bit_simps)
  finally show ?thesis .
qed

text \<open>One attribute, then all of them, on what is left of the buffer.\<close>

definition attr_step :: "(int \<Rightarrow> string option) \<Rightarrow> u8 \<Rightarrow> u16 \<times> bytes \<Rightarrow> route_vars \<Rightarrow> route_vars" where
  "attr_step names dl = (\<lambda>(ty, d) v.
     if ty = 1 then v \<lparr>v_dest := ntohl (ld32 d 0), v_mask := high_mask (unat dl)\<rparr>
     else if ty = 5 then v \<lparr>v_gw := ntohl (ld32 d 0)\<rparr>
     else if ty = 4 then v \<lparr>v_name := names (sint (ld32 d 0))\<rparr> else v)"

lemma attr_bytes_parts:
  "attr_bytes (ty, d) = le16 (of_nat (4 + length d)) @ le16 ty @ d @ replicate (nl_align (length d) - length d) 0"
  by (simp add: attr_bytes_def)

lemma length_attr_bytes: "length (attr_bytes (ty, d)) = nl_align (4 + length d)"
  by (simp add: attr_bytes_def nl_align_def) presburger

lemma attr_fields:
  assumes "length d < 65532"
  shows "rta_len (attr_bytes (ty, d) @ xs) 0 = 4 + length d" "rta_type (attr_bytes (ty, d) @ xs) 0 = ty"
    "length d = 4 \<Longrightarrow> ld32 (attr_bytes (ty, d) @ xs) 4 = ld32 d 0"
proof -
  let ?h = "le16 (of_nat (4 + length d))" and ?z = "replicate (nl_align (length d) - length d) 0 @ xs"
  have b: "attr_bytes (ty, d) @ xs = ?h @ le16 ty @ d @ ?z" and c: "?h @ le16 ty @ d @ ?z = (?h @ le16 ty) @ d @ ?z"
    by (simp_all add: attr_bytes_def)
  have "unat (of_nat (4 + length d) :: u16) = 4 + length d"
    using assms by (simp add: unsigned_of_nat take_bit_nat_eq_self del: of_nat_add)
  then show "rta_len (attr_bytes (ty, d) @ xs) 0 = 4 + length d"
    by (simp only: b rta_len_def ld16_le16)
  show "rta_type (attr_bytes (ty, d) @ xs) 0 = ty"
    using ld_append(2) [of ?h "le16 ty @ d @ ?z" 0] by (simp add: b rta_type_def numeral_2_eq_2)
  show "ld32 (attr_bytes (ty, d) @ xs) 4 = ld32 d 0" if "length d = 4"
    using ld_append(3) [of "?h @ le16 ty" "d @ ?z" 0] that
    by (simp only: b c) (simp add: ld32_def ld16_def nth_append)
qed

lemma read_attr_bytes:
  assumes "attr_ok names dl a"
  shows "read_attr names (attr_bytes a @ xs) dl 0 v = Inr (attr_step names dl a v)"
proof -
  obtain ty d where a: "a = (ty, d)" by (cases a)
  have "in_buf (attr_bytes a @ xs) 4 4" if "length d = 4"
    using that by (simp add: a in_buf_def length_attr_bytes nl_align_def)
  then show ?thesis
    using assms by (auto simp: a attr_ok_def read_attr_def attr_step_def attr_fields push_all_ones
        split: option.split)
qed

lemma read_attrs_bytes:
  assumes "\<forall>a \<in> set as. attr_ok names dl a"
  shows "read_attrs names (concat (map attr_bytes as) @ xs) dl 0 (int (length (concat (map attr_bytes as)))) v
    = Inr (fold (attr_step names dl) as v)"
  using assms
proof (induction as arbitrary: v)
  case Nil
  then show ?case by (subst read_attrs.simps) (simp add: RTA_OK_def)
next
  case (Cons a as)
  obtain ty d where a: "a = (ty, d)" by (cases a)
  let ?r = "concat (map attr_bytes as) @ xs"
  have d: "length d < 65532" using Cons.prems by (simp add: a attr_ok_def)
  have n: "nl_align (rta_len (attr_bytes a @ ?r) 0) = length (attr_bytes a)"
    using d by (simp add: a attr_fields length_attr_bytes)
  have ok: "RTA_OK (attr_bytes a @ ?r) 0 (int (length (concat (map attr_bytes (a # as)))))"
    using d unfolding RTA_OK_def by (simp add: a attr_fields length_attr_bytes nl_align_def) linarith
  show ?case
    using Cons.IH [of "attr_step names dl a v"] Cons.prems ok
      read_attrs_append [of names "attr_bytes a" ?r dl 0]
    by (subst read_attrs.simps) (simp add: n read_attr_bytes)
qed

lemma fold_attr_step:
  "fold (attr_step names dl) as v =
     v \<lparr>v_dest := (case map_of (rev as) 1 of None \<Rightarrow> v_dest v | Some d \<Rightarrow> ntohl (ld32 d 0)),
        v_mask := (case map_of (rev as) 1 of None \<Rightarrow> v_mask v | Some d \<Rightarrow> high_mask (unat dl)),
        v_gw := (case map_of (rev as) 5 of None \<Rightarrow> v_gw v | Some d \<Rightarrow> ntohl (ld32 d 0)),
        v_name := (case map_of (rev as) 4 of None \<Rightarrow> v_name v | Some d \<Rightarrow> names (sint (ld32 d 0)))\<rparr>"
  by (induction as rule: rev_induct) (auto simp: attr_step_def split: option.splits)

lemma length_attrs_bytes: "4 dvd length (attrs_bytes m)"
proof -
  have "4 dvd length (concat (map attr_bytes as))" for as
    by (induction as) (auto simp: length_attr_bytes nl_align_def)
  then show ?thesis by (simp add: attrs_bytes_def)
qed

lemma length_msg_bytes:
  "msg_form names m \<Longrightarrow> length (msg_bytes m) = 28 + length (attrs_bytes m)"
  by (simp add: msg_bytes_def msg_form_def)

lemma msg_fields:
  assumes "msg_form names m"
  shows "nlmsg_len (msg_bytes m @ xs) 0 = length (msg_bytes m)"
    "nl_align (length (msg_bytes m)) = length (msg_bytes m)"
    "rtm_table (msg_bytes m @ xs) 0 = m_rtm m ! 4" "rtm_dst_len (msg_bytes m @ xs) 0 = m_rtm m ! 1"
    "in_buf (msg_bytes m @ xs) 0 28"
proof -
  let ?n = "length (attrs_bytes m)"
  have l: "length (m_head m) = 12" "length (m_rtm m) = 12" "length (msg_bytes m) = 28 + ?n" "28 + ?n \<le> 10240"
    using assms length_msg_bytes [OF assms] by (simp_all add: msg_form_def)
  have w: "unat (of_nat (28 + ?n) :: u32) = 28 + ?n"
    using l by (simp add: unsigned_of_nat take_bit_nat_eq_self del: of_nat_add)
  show "nlmsg_len (msg_bytes m @ xs) 0 = length (msg_bytes m)"
    by (simp only: nlmsg_len_def msg_bytes_def append_assoc ld32_le32 w) (simp add: l)
  show "nl_align (length (msg_bytes m)) = length (msg_bytes m)"
    using length_attrs_bytes [of m] by (auto simp: l nl_align_def)
  show "rtm_table (msg_bytes m @ xs) 0 = m_rtm m ! 4" "rtm_dst_len (msg_bytes m @ xs) 0 = m_rtm m ! 1"
    by (simp_all add: rtm_table_def rtm_dst_len_def ld8_def msg_bytes_def nth_append l)
  show "in_buf (msg_bytes m @ xs) 0 28"
    by (simp add: in_buf_def l)
qed

lemma read_msg_attrs:
  assumes "msg_form names m" "m_rtm m ! 4 = 254"
  shows "read_attrs names (msg_bytes m @ xs) (m_rtm m ! 1) 28 (int (length (attrs_bytes m)))
      \<lparr>v_dest = 0, v_mask = 0, v_gw = 0, v_name = None\<rparr>
    = Inr \<lparr>v_dest = msg_dest m, v_mask = msg_mask m, v_gw = msg_gw m, v_name = msg_if_name names m\<rparr>"
proof -
  let ?h = "le32 (of_nat (28 + length (attrs_bytes m))) @ m_head m @ m_rtm m"
  let ?v = "\<lparr>v_dest = 0, v_mask = 0, v_gw = 0, v_name = None\<rparr>"
  have ok: "\<forall>a \<in> set (m_attrs m). attr_ok names (m_rtm m ! 1) a" and h: "length ?h = 28"
    using assms by (simp_all add: msg_form_def)
  have "read_attrs names (?h @ attrs_bytes m @ xs) (m_rtm m ! 1) (length ?h + 0)
      (int (length (attrs_bytes m))) ?v = Inr (fold (attr_step names (m_rtm m ! 1)) (m_attrs m) ?v)"
    unfolding read_attrs_append attrs_bytes_def by (rule read_attrs_bytes [OF ok])
  then have "read_attrs names (?h @ attrs_bytes m @ xs) (m_rtm m ! 1) 28
      (int (length (attrs_bytes m))) ?v = Inr (fold (attr_step names (m_rtm m ! 1)) (m_attrs m) ?v)"
    unfolding h by simp
  then show ?thesis
    by (simp add: msg_bytes_def fold_attr_step msg_dest_def msg_mask_def msg_gw_def msg_if_name_def attr_def
        split: option.splits)
qed

lemma msg_if_name_known:
  assumes "msg_ok names m" "m_rtm m ! 4 = 254"
  shows "\<exists>name. msg_if_name names m = Some name"
proof -
  obtain d where d: "attr m 4 = Some d" using assms by (auto simp: msg_ok_def)
  then have "(4, d) \<in> set (m_attrs m)" by (auto simp: attr_def dest: map_of_SomeD)
  then show ?thesis
    using assms d by (fastforce simp: msg_ok_def msg_form_def attr_ok_def msg_if_name_def)
qed

lemma load_route_bytes:
  assumes "msg_ok names m"
  shows "load_route names (msg_bytes m @ xs) 0 (n, s) =
    Inr (n + length (msg_entries names s m), s \<lparr>r_rtable := r_rtable s @ msg_entries names s m\<rparr>)"
proof -
  have form: "msg_form names m" using assms by (simp add: msg_ok_def)
  show ?thesis
    using read_msg_attrs [OF form, of xs] msg_if_name_known [OF assms]
    by (auto simp: load_route_def msg_fields [OF form] RTM_PAYLOAD_def length_msg_bytes [OF form]
        msg_entries_def add_rt_entry_def split: option.split)
qed

lemma msg_entries_cong: "msg_entries names (s \<lparr>r_rtable := es\<rparr>) = msg_entries names s"
  by (rule ext) (simp add: msg_entries_def rt_name_to_iface_def new_rt_entry_def split: option.split)

lemma parse_loop_bytes:
  assumes "\<forall>m \<in> set ms. msg_ok names m"
  shows "parse_loop names (concat (map msg_bytes ms) @ xs) 0 (int (length (concat (map msg_bytes ms)))) (n, s)
    = Inr (n + length (concat (map (msg_entries names s) ms)),
           s \<lparr>r_rtable := r_rtable s @ concat (map (msg_entries names s) ms)\<rparr>)"
  using assms
proof (induction ms arbitrary: n s)
  case Nil
  then show ?case by (subst parse_loop.simps) (simp add: NLMSG_OK_def)
next
  case (Cons m ms)
  let ?r = "concat (map msg_bytes ms) @ xs"
  have m: "msg_ok names m" using Cons.prems by simp
  then have form: "msg_form names m" by (simp add: msg_ok_def)
  note f = msg_fields [OF form]
  have ok: "NLMSG_OK (msg_bytes m @ ?r) 0 (int (length (concat (map msg_bytes (m # ms)))))"
    by (simp add: NLMSG_OK_def f length_msg_bytes [OF form])
  show ?case
    using Cons.IH [of "n + length (msg_entries names s m)" "s \<lparr>r_rtable := r_rtable s @ msg_entries names s m\<rparr>"]
      Cons.prems ok parse_loop_append [of names "msg_bytes m" ?r 0]
    by (subst parse_loop.simps) (simp add: f load_route_bytes [OF m] msg_entries_cong add.assoc)
qed

text \<open>Datagrams that start with an ordinary message and fit the room are gathered one after the other,
  until one starts with \<open>NLMSG_DONE\<close>.\<close>

definition data_datagram :: "bytes \<Rightarrow> bool" where
  "data_datagram d \<longleftrightarrow> 16 \<le> length d \<and> nlmsg_type d 0 \<noteq> 2 \<and> nlmsg_type d 0 \<noteq> 3"

definition done_datagram :: "bytes \<Rightarrow> bool" where
  "done_datagram d \<longleftrightarrow> length d = 20 \<and> nlmsg_type d 0 = 3"

lemma nlmsg_type_prefix: "16 \<le> n \<Longrightarrow> 16 \<le> length d \<Longrightarrow> nlmsg_type (take n d @ xs) 0 = nlmsg_type d 0"
  by (simp add: nlmsg_type_def ld16_def nth_append)

lemma recv_dump_gathers:
  assumes "\<forall>d \<in> set ds. data_datagram d" "done_datagram e"
    and "length (concat ds) + 16 \<le> length mem"
  shows "\<exists>rest. recv_dump (map Some ds @ Some e # later) (got @ mem) (length got) (length mem)
    = Inr (got @ concat ds @ rest, length got + length (concat ds))"
  using assms
proof (induction ds arbitrary: got mem)
  case Nil
  let ?c = "take (length mem) e"
  have "nlmsg_type (got @ ?c @ drop (length ?c) mem) (length got + 0) = 3"
    using Nil by (simp only: netlink_append nlmsg_type_prefix) (simp add: done_datagram_def nlmsg_type_prefix)
  then show ?case
    using Nil by (subst recv_dump.simps) (auto simp: blit_def Let_def done_datagram_def)
next
  case (Cons d ds)
  have l: "length d \<le> length mem" "16 \<le> length mem" "16 \<le> length d"
    using Cons.prems by (auto simp: data_datagram_def)
  have "nlmsg_type (got @ d @ drop (length d) mem) (length got + 0) = nlmsg_type d 0"
    using nlmsg_type_prefix [of "length d" d] l by (simp only: netlink_append) simp
  moreover have "length (concat ds) + 16 \<le> length (drop (length d) mem)"
    using Cons.prems(3) by simp
  ultimately show ?case
    using Cons.IH [of "drop (length d) mem" "got @ d"] Cons.prems l
    by (subst recv_dump.simps) (auto simp: blit_def Let_def data_datagram_def add.assoc)
qed

lemma load_typed:
  "load_rtable_from_kernel names answers stack s = Inr (n, s') \<Longrightarrow> table_typed s (n, s')"
proof -
  have "table_typed s (0, s \<lparr>r_rtable := []\<rparr>)"
    by (simp add: table_typed_def)
  then show "load_rtable_from_kernel names answers stack s = Inr (n, s') \<Longrightarrow> table_typed s (n, s')"
    by (auto simp: load_rtable_from_kernel_def parse_routing_info_def dest: parse_loop_typed
        split: sum.splits)
qed

text \<open>The load, when the datagrams together are a list of route messages.\<close>

lemma load_gathered:
  assumes "length stack = ROUTE_BATCH_SIZE" "\<forall>m \<in> set ms. msg_ok names m"
    and "concat ds = concat (map msg_bytes ms)"
    and "\<forall>d \<in> set ds. data_datagram d" "done_datagram e" "length (concat ds) + 16 \<le> ROUTE_BATCH_SIZE"
  shows "load_rtable_from_kernel names (Some (map Some ds @ Some e # later)) stack s
    = Inr (length (concat (map (msg_entries names s) ms)),
           s \<lparr>r_rtable := concat (map (msg_entries names s) ms)\<rparr>)"
proof -
  obtain rest where "recv_dump (map Some ds @ Some e # later) ([] @ stack) (length ([] :: bytes)) (length stack)
      = Inr ([] @ concat ds @ rest, length ([] :: bytes) + length (concat ds))"
    using recv_dump_gathers [where ds = ds and e = e and mem = stack and got = "[]" and later = later] assms
    by auto
  then show ?thesis
    using parse_loop_bytes [OF assms(2), of rest 0 "s \<lparr>r_rtable := []\<rparr>"] assms(1)
    by (simp add: load_rtable_from_kernel_def get_unparsed_route_info_def parse_routing_info_def assms(3)
        msg_entries_cong)
qed

section \<open>Properties\<close>

text \<open>C29. Whatever the kernel answers and whatever the stack held, a load that ends leaves a table of
  well-typed entries: every mask is a prefix mask, an entry without a mask is the default route,
  every interface is one of the host under its own name. The number reported is the number of
  entries, and nothing else of the state changes.\<close>

theorem loaded_routes_typed:
  assumes "load_rtable_from_kernel names answers stack s = Inr (n, s')"
  shows "s' = s \<lparr>r_rtable := r_rtable s'\<rparr> \<and> n = length (r_rtable s') \<and>
    (\<forall>e \<in> set (r_rtable s'). route_typed s e)"
  using load_typed [OF assms] by (auto simp: table_typed_def)

text \<open>Whatever the kernel answered, the longest prefix match over the loaded table, which compares
  masks as numbers, finds an entry of the greatest prefix length among those that match.\<close>

theorem loaded_table_longest:
  assumes "load_rtable_from_kernel names answers stack s = Inr (n, s')"
    and "longest_prefix_match dst s' = Some q"
  shows "\<exists>k \<le> 32. rt_mask q = high_mask k \<and> rt_matches dst q \<and>
    (\<forall>e \<in> set (r_rtable s'). \<forall>l \<le> 32. rt_mask e = high_mask l \<and> rt_matches dst e \<longrightarrow> l \<le> k)"
  using load_typed [OF assms(1)] longest_prefix_match_spec [where dst = dst and s = s'] assms(2)
  by (fastforce simp: table_typed_def route_typed_def high_mask_le_iff)

text \<open>C38. A dump is read back as it was written: when the kernel sends its route messages in any number
  of datagrams and then \<open>NLMSG_DONE\<close>, and they leave room for one more header in the buffer, the
  table is exactly the list of the routes of the main table whose interface is one of the host, in
  the order sent, each with the destination, mask, gateway and interface its message states.\<close>

theorem dump_loaded:
  assumes "length stack = ROUTE_BATCH_SIZE" "\<forall>m \<in> set (concat mss). msg_ok names m"
    and "\<forall>ms \<in> set mss. data_datagram (concat (map msg_bytes ms))" "done_datagram e"
    and "length (concat (map msg_bytes (concat mss))) + 16 \<le> ROUTE_BATCH_SIZE"
  shows "load_rtable_from_kernel names (Some (map (\<lambda>ms. Some (concat (map msg_bytes ms))) mss @ Some e # later)) stack s
    = Inr (length (concat (map (msg_entries names s) (concat mss))),
           s \<lparr>r_rtable := concat (map (msg_entries names s) (concat mss))\<rparr>)"
proof -
  let ?ds = "map (\<lambda>ms. concat (map msg_bytes ms)) mss"
  have c: "concat ?ds = concat (map msg_bytes (concat mss))"
    by (induction mss) auto
  have "load_rtable_from_kernel names (Some (map Some ?ds @ Some e # later)) stack s
    = Inr (length (concat (map (msg_entries names s) (concat mss))),
           s \<lparr>r_rtable := concat (map (msg_entries names s) (concat mss))\<rparr>)"
    using assms by (intro load_gathered) (simp_all only: c, simp_all)
  then show ?thesis by (simp add: comp_def)
qed

text \<open>A dump in two datagrams: a default route through 10.0.0.9, and the network 10.0.0.0/8, both on
  interface 1, and a route of another table.\<close>

definition demo_names :: "int \<Rightarrow> string option" where
  "demo_names i = (if i = 1 then Some ''r1-eth0'' else None)"

definition demo_msg :: "u8 \<Rightarrow> u8 \<Rightarrow> (u16 \<times> bytes) list \<Rightarrow> nl_msg" where
  "demo_msg table dst_len as = \<lparr>m_head = [24, 0, 2, 0, 1, 0, 0, 0, 7, 0, 0, 0],
     m_rtm = [2, dst_len, 0, 0, table, 3, 0, 1, 0, 0, 0, 0], m_attrs = as\<rparr>"

definition demo_dump :: "nl_msg list list" where
  "demo_dump = [[demo_msg 254 0 [(5, [10, 0, 0, 9]), (4, [1, 0, 0, 0])], demo_msg 255 32 [(2, [7])]],
                [demo_msg 254 8 [(15, [254]), (1, [10, 0, 0, 0]), (4, [1, 0, 0, 0])]]]"

definition demo_done :: bytes where
  "demo_done = [20, 0, 0, 0, 3, 0, 2, 0, 1, 0, 0, 0, 7, 0, 0, 0, 0, 0, 0, 0]"

definition demo_table :: "rt_entry list" where
  "demo_table = [\<lparr>rt_dest = 0, rt_mask = 0, rt_gw = 0x0a000009, rt_flags = 0,
       rt_if_name = ''r1-eth0'', rt_iface = 0\<rparr>,
     \<lparr>rt_dest = 0x0a000000, rt_mask = 0xff000000, rt_gw = 0, rt_flags = 0,
       rt_if_name = ''r1-eth0'', rt_iface = 0\<rparr>]"

lemmas demo_dump_defs = demo_dump_def demo_msg_def demo_names_def demo_done_def demo_table_def

lemmas netlink_defs = msg_bytes_def attrs_bytes_def attr_bytes_def le16_def le32_def nl_align_def attr_def
  msg_entries_def msg_dest_def msg_gw_def msg_mask_def msg_if_name_def high_mask_def ld8_def ld16_def
  ld32_def bswap32_def rt_name_to_iface_def new_rt_entry_def demo_router_def

lemma demo_entries: "concat (map (msg_entries demo_names demo_router) (concat demo_dump)) = demo_table"
proof -
  have "NOT (mask 24) = (0xff000000 :: u32)" by code_simp
  then show ?thesis by (simp add: demo_dump_defs netlink_defs)
qed

lemma demo_dump_ok:
  "\<forall>m \<in> set (concat demo_dump). msg_ok demo_names m"
  "\<forall>ms \<in> set demo_dump. data_datagram (concat (map msg_bytes ms))" "done_datagram demo_done"
  "length (concat (map msg_bytes (concat demo_dump))) + 16 \<le> ROUTE_BATCH_SIZE"
  by (simp_all add: demo_dump_defs netlink_defs msg_ok_def msg_form_def attr_ok_def data_datagram_def done_datagram_def
      nlmsg_type_def ROUTE_BATCH_SIZE_def)

definition demo_answers :: "bytes option list option" where
  "demo_answers = Some (map (\<lambda>ms. Some (concat (map msg_bytes ms))) demo_dump @ Some demo_done # [])"

theorem dump_loaded_witness:
  "load_rtable_from_kernel demo_names demo_answers (replicate 10240 7) demo_router
    = Inr (2, demo_router \<lparr>r_rtable := demo_table\<rparr>)"
  using dump_loaded [of "replicate 10240 7" demo_dump demo_names demo_done "[]" demo_router] demo_dump_ok
  unfolding demo_entries demo_answers_def by (simp add: ROUTE_BATCH_SIZE_def demo_table_def)

lemma demo_load:
  "load_rtable_from_kernel demo_names demo_answers (replicate 10240 7) demo_router
    = Inr (2, demo_router \<lparr>r_rtable := demo_table\<rparr>)"
proof -
  have c: "concat (map (\<lambda>ms. concat (map msg_bytes ms)) demo_dump) = concat (map msg_bytes (concat demo_dump))"
    by (simp add: demo_dump_def)
  show ?thesis
    using load_gathered [of "replicate 10240 7" "concat demo_dump" demo_names
        "map (\<lambda>ms. concat (map msg_bytes ms)) demo_dump" demo_done "[]" demo_router] demo_dump_ok
    unfolding demo_entries demo_answers_def c by (simp add: ROUTE_BATCH_SIZE_def demo_table_def comp_def)
qed

theorem loaded_routes_typed_witness:
  "length demo_table = 2 \<and> route_typed demo_router (demo_table ! 0) \<and> route_typed demo_router (demo_table ! 1)"
  using loaded_routes_typed [OF demo_load] by (simp add: demo_table_def)

theorem loaded_table_longest_witness:
  "\<exists>k \<le> 32. rt_mask (demo_table ! 1) = high_mask k \<and> rt_matches 0x0a010203 (demo_table ! 1) \<and>
    (\<forall>e \<in> set demo_table. \<forall>l \<le> 32. rt_mask e = high_mask l \<and> rt_matches 0x0a010203 e \<longrightarrow> l \<le> k)"
proof -
  have "longest_prefix_match 0x0a010203 (demo_router \<lparr>r_rtable := demo_table\<rparr>) = Some (demo_table ! 1)"
    by (simp add: longest_prefix_match_def demo_table_def)
  from loaded_table_longest [OF demo_load this] show ?thesis by simp
qed

text \<open>A route of the main table with no interface number, such as one over several next hops, makes
  the program compare an array it never assigned with the interface names.\<close>

lemma no_interface_undefined:
  assumes "msg_form names m" "m_rtm m ! 4 = 254" "attr m 4 = None"
  shows "load_route names (msg_bytes m @ xs) 0 acc = Inl Undefined"
  using read_msg_attrs [OF assms(1,2), of xs] assms(2,3)
  by (cases acc) (simp add: load_route_def msg_fields [OF assms(1)] RTM_PAYLOAD_def
      length_msg_bytes [OF assms(1)] msg_if_name_def)

end
