(* ===== verification/StaticRouter.thy ===== *)
theory StaticRouter imports IpForward "HOL-Library.Monad_Syntax" begin

text \<open>The router with static routes (\<open>exp6/code\<close>: \<open>arp.c\<close>, \<open>arpcache.c\<close>, \<open>ip.c\<close>, \<open>icmp.c\<close>,
  \<open>checksum.h\<close>, \<open>main.c\<close>), which was written before the one of \<open>exp10\<close> and differs from it in the
  ARP cache, in ICMP and in the handling of the TTL. The state, the headers and the routing table
  are the same; operations with the same name get the suffix \<open>_exp6\<close>. What is undefined in C (a
  null route, a failed assertion, an access outside a packet) is \<open>None\<close>, as is a loop that does
  not end.\<close>

section \<open>Checksum\<close>

definition checksum_exp6 :: "bytes \<Rightarrow> nat \<Rightarrow> u32 \<Rightarrow> u16 option" where
  "checksum_exp6 buf nbytes init =
     (if nbytes mod 2 \<noteq> 0 then None
      else
        let s = fold (\<lambda>i s. s + ucast (ld16 buf (2 * i))) [0..<nbytes div 2] init;
            s = drop_bit 16 s + (s AND 0xffff);
            s = s + drop_bit 16 s
        in Some (ucast (NOT s)))"

lemma checksum_exp6_eq: "checksum_exp6 buf n s = (if even n then Some (checksum buf n s) else None)"
  by (simp add: checksum_exp6_def checksum_def Let_def even_iff_mod_2_eq_zero)

text \<open>The header of an IP packet has an even length, so \<open>ip_checksum\<close> and \<open>ip_init_hdr\<close> are those
  of \<open>IpPacket\<close>.\<close>

definition icmp_checksum_exp6 :: "bytes \<Rightarrow> nat \<Rightarrow> nat \<Rightarrow> u16 option" where
  "icmp_checksum_exp6 p t len = checksum_exp6 (drop t (st16 p (t + 2) 0)) len 0"

section \<open>ARP\<close>

text \<open>\<open>req\<close> is the packet of the request that a reply answers.\<close>

definition send_arp_exp6 :: "nat \<Rightarrow> u32 \<Rightarrow> bytes \<Rightarrow> u16 \<Rightarrow> router \<Rightarrow> router" where
  "send_arp_exp6 i dst_ip req op s =
     (let (p, s) = malloc (ETHER_HDR_SIZE + 28) s;
          iface = r_ifaces s ! i;
          p = st16 p 12 (htons ETH_P_ARP);
          p = blit p 6 (if_mac iface);
          p = st16 p 14 (htons 1);
          p = st16 p 16 (htons ETH_P_IP);
          p = st8 p 18 6;
          p = st8 p 19 4;
          p = st16 p 20 (htons op);
          p = blit p 22 (if_mac iface);
          p = st32 p 28 (htonl (if_ip iface));
          p = (if op = ARPOP_REQUEST then
                 let p = blit p 0 (replicate 6 255);
                     p = st32 p 38 (htonl dst_ip)
                 in blit p 32 (replicate 6 0)
               else if op = ARPOP_REPLY then
                 let p = blit p 0 (arp_sha req);
                     p = st32 p 38 (arp_spa req)
                 in blit p 32 (arp_sha req)
               else p)
      in iface_send_packet i p s)"

definition arp_send_request_exp6 :: "nat \<Rightarrow> u32 \<Rightarrow> router \<Rightarrow> router" where
  "arp_send_request_exp6 i dst_ip s = send_arp_exp6 i dst_ip [] ARPOP_REQUEST s"

definition arp_send_reply_exp6 :: "nat \<Rightarrow> bytes \<Rightarrow> router \<Rightarrow> router" where
  "arp_send_reply_exp6 i req s = send_arp_exp6 i 0 req ARPOP_REPLY s"

section \<open>The ARP cache\<close>

fun lookup_loop_exp6 :: "u32 \<Rightarrow> arp_cache_entry list \<Rightarrow> mac_addr option" where
  "lookup_loop_exp6 ip4 [] = None"
| "lookup_loop_exp6 ip4 (e # es) =
     (if ac_valid e \<and> ac_ip4 e = ip4 then Some (ac_mac e) else lookup_loop_exp6 ip4 es)"

definition arpcache_lookup_exp6 :: "u32 \<Rightarrow> router \<Rightarrow> mac_addr option" where
  "arpcache_lookup_exp6 ip4 s = lookup_loop_exp6 ip4 (r_entries s)"

text \<open>The pending request for an address, on whatever interface, gets the packet; without one a
  new request is made at the end. Either way it counts one more try at the given time.\<close>

fun pend_packet :: "nat \<Rightarrow> u32 \<Rightarrow> bytes \<Rightarrow> int \<Rightarrow> arp_req list \<Rightarrow> arp_req list" where
  "pend_packet i ip4 packet now [] =
     [\<lparr>rq_iface = i, rq_ip4 = ip4, rq_sent = now, rq_retries = 1, rq_packets = [packet]\<rparr>]"
| "pend_packet i ip4 packet now (q # qs) =
     (if rq_ip4 q = ip4 then
        q \<lparr>rq_packets := rq_packets q @ [packet], rq_sent := now, rq_retries := rq_retries q + 1\<rparr> # qs
      else q # pend_packet i ip4 packet now qs)"

definition arpcache_append_packet_exp6 :: "nat \<Rightarrow> u32 \<Rightarrow> bytes \<Rightarrow> router \<Rightarrow> router" where
  "arpcache_append_packet_exp6 i ip4 packet s =
     (arp_send_request_exp6 i ip4 s) \<lparr>r_reqs := pend_packet i ip4 packet (r_now s) (r_reqs s)\<rparr>"

definition iface_send_packet_by_arp_exp6 :: "nat \<Rightarrow> u32 \<Rightarrow> bytes \<Rightarrow> router \<Rightarrow> router" where
  "iface_send_packet_by_arp_exp6 i dst_ip packet s =
     (let packet = blit packet 6 (if_mac (r_ifaces s ! i));
          packet = st16 packet 12 (htons ETH_P_IP)
      in case arpcache_lookup_exp6 dst_ip s of
           Some mac \<Rightarrow> iface_send_packet i (blit packet 0 mac) s
         | None \<Rightarrow> arpcache_append_packet_exp6 i dst_ip packet s)"

text \<open>The first invalid entry, or the number of entries.\<close>

fun free_index :: "arp_cache_entry list \<Rightarrow> nat" where
  "free_index [] = 0"
| "free_index (e # es) = (if \<not> ac_valid e then 0 else free_index es + 1)"

fun find_req :: "u32 \<Rightarrow> arp_req list \<Rightarrow> arp_req option" where
  "find_req ip4 [] = None"
| "find_req ip4 (q # qs) = (if rq_ip4 q = ip4 then Some q else find_req ip4 qs)"

text \<open>The address has just been stored, so every packet leaves at once and the list of packets does
  not change under the loop.\<close>

fun send_cached :: "nat \<Rightarrow> u32 \<Rightarrow> bytes list \<Rightarrow> router \<Rightarrow> router" where
  "send_cached i ip4 [] s = s"
| "send_cached i ip4 (p # ps) s = send_cached i ip4 ps (iface_send_packet_by_arp_exp6 i ip4 p s)"

definition arpcache_insert_exp6 :: "u32 \<Rightarrow> mac_addr \<Rightarrow> router \<Rightarrow> router" where
  "arpcache_insert_exp6 ip4 mac s =
     (let index = free_index (r_entries s);
          (index, s) = (if index = 32 then let (x, s) = rand s in (unat x mod 32, s) else (index, s))
      in case find_req ip4 (r_reqs s) of
           None \<Rightarrow> s
         | Some q \<Rightarrow>
             let s = s \<lparr>r_entries := (r_entries s)[index :=
                   \<lparr>ac_ip4 = ip4, ac_mac = mac, ac_added = r_now s, ac_valid = True\<rparr>]\<rparr>;
                 s = send_cached (rq_iface q) ip4 (rq_packets q) s
             in s \<lparr>r_reqs := remove1 q (r_reqs s)\<rparr>)"

definition handle_arp_packet_exp6 :: "nat \<Rightarrow> bytes \<Rightarrow> router \<Rightarrow> router option" where
  "handle_arp_packet_exp6 i packet s =
     (if length packet < 42 then None
      else
        let op = ntohs (arp_op packet); ip = ntohl (arp_tpa packet)
        in if op = ARPOP_REQUEST then
             Some (if ip = if_ip (r_ifaces s ! i) then arp_send_reply_exp6 i packet s else s)
           else if op = ARPOP_REPLY then
             Some (if ip = if_ip (r_ifaces s ! i)
               then arpcache_insert_exp6 (ntohl (arp_spa packet)) (arp_sha packet) s else s)
           else Some s)"

section \<open>IP and ICMP\<close>

definition ip_send_packet_exp6 :: "bytes \<Rightarrow> router \<Rightarrow> router" where
  "ip_send_packet_exp6 packet s =
     (let dst = ntohl (ip_daddr packet)
      in case longest_prefix_match dst s of
           None \<Rightarrow> s
         | Some e \<Rightarrow>
             let next_hop = (if rt_gw e = 0 then dst else rt_gw e);
                 packet = st16 packet 12 (ntohs ETH_P_IP);
                 packet = blit packet 6 (if_mac (r_ifaces s ! rt_iface e))
             in iface_send_packet_by_arp_exp6 (rt_iface e) next_hop packet s)"

text \<open>The source address is that of the interface of the route back, which is not tested for null.
  The copies are in bounds when the packet holds the bytes that are read; for an echo reply
  the new packet must also have room for the ICMP header.\<close>

definition icmp_in_bounds_exp6 :: "bytes \<Rightarrow> bool" where
  "icmp_in_bounds_exp6 in_pkt \<longleftrightarrow> ETHER_HDR_SIZE + IP_BASE_HDR_SIZE \<le> length in_pkt \<and>
     IP_HDR_SIZE in_pkt + 22 \<le> length in_pkt"

definition icmp_send_packet_exp6 :: "bytes \<Rightarrow> u8 \<Rightarrow> u8 \<Rightarrow> router \<Rightarrow> router option" where
  "icmp_send_packet_exp6 in_pkt type code s =
     (if \<not> icmp_in_bounds_exp6 in_pkt then None
      else do {
        let out_daddr = ntohl (ip_saddr in_pkt);
        e \<leftarrow> longest_prefix_match out_daddr s;
        let out_saddr = if_ip (r_ifaces s ! rt_iface e);
        let tot_size = (if type \<noteq> ICMP_ECHOREPLY
          then ETHER_HDR_SIZE + IP_BASE_HDR_SIZE + ICMP_HDR_SIZE + IP_HDR_SIZE in_pkt + 8
          else length in_pkt - IP_HDR_SIZE in_pkt + IP_BASE_HDR_SIZE);
        let (p, s) = malloc tot_size s;
        let p = st16 p 12 (htons ETH_P_IP);
        let (x, s) = rand s;
        let p = ip_init_hdr out_saddr out_daddr (of_nat (tot_size - ETHER_HDR_SIZE)) IPPROTO_ICMP x p;
        let p = blit p 34 (replicate ICMP_HDR_SIZE 0);
        let p = st8 p 35 code;
        let p = st8 p 34 type;
        let p = (if type \<noteq> ICMP_ECHOREPLY
          then blit p (34 + ICMP_HDR_SIZE) (slice ETHER_HDR_SIZE (IP_HDR_SIZE in_pkt + 8) in_pkt)
          else blit p (34 + ICMP_HDR_SIZE - 4) (drop (ETHER_HDR_SIZE + IP_HDR_SIZE in_pkt + 4) in_pkt));
        c \<leftarrow> icmp_checksum_exp6 p 34 (tot_size - ETHER_HDR_SIZE - IP_BASE_HDR_SIZE);
        Some (ip_send_packet_exp6 (st16 p 36 c) s)
      })"

definition ip_forward_packet_exp6 :: "u32 \<Rightarrow> bytes \<Rightarrow> router \<Rightarrow> router option" where
  "ip_forward_packet_exp6 ip_dst packet s =
     (let packet = st8 packet 22 (ip_ttl packet - 1)
      in if ip_ttl packet \<le> 0 then icmp_send_packet_exp6 packet ICMP_TIME_EXCEEDED ICMP_EXC_TTL s
         else if length packet < ip_data packet then None
         else
           let packet = st16 packet 24 (ip_checksum packet)
           in case longest_prefix_match ip_dst s of
                None \<Rightarrow> icmp_send_packet_exp6 packet ICMP_DEST_UNREACH ICMP_NET_UNREACH s
              | Some e \<Rightarrow> Some (ip_send_packet_exp6 packet s))"

text \<open>The type of the ICMP message is read when the packet is for the interface, whatever its
  protocol.\<close>

definition handle_ip_packet_exp6 :: "nat \<Rightarrow> bytes \<Rightarrow> router \<Rightarrow> router option" where
  "handle_ip_packet_exp6 i packet s =
     (let daddr = ntohl (ip_daddr packet)
      in if length packet < 34 \<or> daddr = if_ip (r_ifaces s ! i) \<and> length packet \<le> ip_data packet then None
         else if daddr = if_ip (r_ifaces s ! i) \<and> icmp_type packet (ip_data packet) = ICMP_ECHOREQUEST
         then icmp_send_packet_exp6 packet ICMP_ECHOREPLY 0 s
         else ip_forward_packet_exp6 daddr packet s)"

definition handle_packet_exp6 :: "nat \<Rightarrow> bytes \<Rightarrow> router \<Rightarrow> router option" where
  "handle_packet_exp6 i packet s =
     (if length packet < ETHER_HDR_SIZE then None
      else if ntohs (eth_type packet) = ETH_P_IP then handle_ip_packet_exp6 i packet s
      else if ntohs (eth_type packet) = ETH_P_ARP then handle_arp_packet_exp6 i packet s
      else Some s)"

section \<open>The sweep\<close>

definition age_entry_exp6 :: "int \<Rightarrow> arp_cache_entry \<Rightarrow> arp_cache_entry" where
  "age_entry_exp6 now e = (if now - ac_added e > 15 \<and> ac_valid e then e \<lparr>ac_valid := False\<rparr> else e)"

text \<open>The loop over the packets of request \<open>i\<close>, which reports each and takes it off the list. The
  lock is released meanwhile, and the report may itself wait for an address and be appended, to
  this very list or as a new request: the next packet is known before, so what is appended while
  the last one is handled is not visited.\<close>

partial_function (option) drop_packets :: "nat \<Rightarrow> router \<Rightarrow> router option" where
  "drop_packets i s =
     (case rq_packets (r_reqs s ! i) of
        [] \<Rightarrow> Some s
      | p # ps \<Rightarrow>
          Option.bind (icmp_send_packet_exp6 p ICMP_DEST_UNREACH ICMP_HOST_UNREACH s) (\<lambda>s.
            let s = s \<lparr>r_reqs := (r_reqs s)[i := (r_reqs s ! i) \<lparr>rq_packets := tl (rq_packets (r_reqs s ! i))\<rparr>]\<rparr>
            in if ps = [] then Some s else drop_packets i s))"

text \<open>The loop over the requests, at request \<open>i\<close>; whether it is the last is known before its
  body.\<close>

partial_function (option) sweep_loop :: "nat \<Rightarrow> router \<Rightarrow> router option" where
  "sweep_loop i s =
     (if i < length (r_reqs s) then
        let end = (i + 1 = length (r_reqs s)); q = r_reqs s ! i
        in if rq_retries q \<ge> 5 then
             Option.bind (drop_packets i s) (\<lambda>s.
               let s = s \<lparr>r_reqs := take i (r_reqs s) @ drop (i + 1) (r_reqs s)\<rparr>
               in if end then Some s else sweep_loop i s)
           else
             let s = (arp_send_request_exp6 (rq_iface q) (rq_ip4 q) s)
                   \<lparr>r_reqs := (r_reqs s)[i := q \<lparr>rq_sent := r_now s, rq_retries := rq_retries q + 1\<rparr>]\<rparr>
             in if end then Some s else sweep_loop (i + 1) s
      else Some s)"

definition arpcache_sweep_exp6 :: "router \<Rightarrow> router option" where
  "arpcache_sweep_exp6 s =
     sweep_loop 0 (s \<lparr>r_entries := map (age_entry_exp6 (r_now s)) (r_entries s)\<rparr>)"

definition arpcache_init_exp6 :: "router \<Rightarrow> router" where
  "arpcache_init_exp6 s = s \<lparr>r_reqs := [], r_entries :=
     replicate 32 \<lparr>ac_ip4 = 0, ac_mac = replicate 6 0, ac_added = 0, ac_valid = False\<rparr>\<rparr>"

definition arpcache_destroy_exp6 :: "router \<Rightarrow> router" where
  "arpcache_destroy_exp6 s = s \<lparr>r_reqs := []\<rparr>"

section \<open>Facts\<close>

lemma lookup_loop_exp6_eq: "lookup_loop_exp6 ip4 es = lookup_entries ip4 es"
  by (induction es) auto

lemma arpcache_lookup_exp6_eq: "arpcache_lookup_exp6 = arpcache_lookup"
  by (intro ext) (simp add: arpcache_lookup_exp6_def arpcache_lookup_def lookup_loop_exp6_eq)

lemma lookup_exp6_None: "arpcache_lookup_exp6 ip4 s = None \<longleftrightarrow> \<not> cached ip4 (r_entries s)"
  by (simp add: arpcache_lookup_exp6_def lookup_loop_exp6_eq lookup_entries_None)

lemma ip4s_pend:
  "map rq_ip4 (pend_packet i ip4 p now qs) =
     (if ip4 \<in> rq_ip4 ` set qs then map rq_ip4 qs else map rq_ip4 qs @ [ip4])"
  by (induction qs) auto

text \<open>What sending a request leaves alone.\<close>

lemma request_frame [simp]:
  "r_ifaces (arp_send_request_exp6 i d s) = r_ifaces s" "r_rtable (arp_send_request_exp6 i d s) = r_rtable s"
  "r_entries (arp_send_request_exp6 i d s) = r_entries s" "r_reqs (arp_send_request_exp6 i d s) = r_reqs s"
  "r_now (arp_send_request_exp6 i d s) = r_now s"
  by (simp_all add: arp_send_request_exp6_def send_arp_exp6_def Let_def split_beta)

lemma reply_frame [simp]:
  "r_ifaces (arp_send_reply_exp6 i d s) = r_ifaces s" "r_rtable (arp_send_reply_exp6 i d s) = r_rtable s"
  "r_entries (arp_send_reply_exp6 i d s) = r_entries s" "r_reqs (arp_send_reply_exp6 i d s) = r_reqs s"
  "r_now (arp_send_reply_exp6 i d s) = r_now s"
  by (simp_all add: arp_send_reply_exp6_def send_arp_exp6_def Let_def split_beta)

lemma by_arp_frame [simp]:
  "r_ifaces (iface_send_packet_by_arp_exp6 i d p s) = r_ifaces s"
  "r_rtable (iface_send_packet_by_arp_exp6 i d p s) = r_rtable s"
  "r_entries (iface_send_packet_by_arp_exp6 i d p s) = r_entries s"
  "r_now (iface_send_packet_by_arp_exp6 i d p s) = r_now s"
  by (simp_all add: iface_send_packet_by_arp_exp6_def Let_def arpcache_append_packet_exp6_def split: option.split)

section \<open>The invariant of the cache and the pending requests\<close>

definition arp_ok :: "router \<Rightarrow> bool" where
  "arp_ok s \<longleftrightarrow> length (r_entries s) = 32 \<and> distinct (map rq_ip4 (r_reqs s)) \<and>
     (\<forall>q \<in> set (r_reqs s). \<not> cached (rq_ip4 q) (r_entries s))"

lemma arp_ok_ip4s:
  "arp_ok s \<longleftrightarrow> length (r_entries s) = 32 \<and> distinct (map rq_ip4 (r_reqs s)) \<and>
     (\<forall>a \<in> set (map rq_ip4 (r_reqs s)). \<not> cached a (r_entries s))"
  by (simp add: arp_ok_def)

lemma arp_ok_cong:
  "r_entries s' = r_entries s \<Longrightarrow> map rq_ip4 (r_reqs s') = map rq_ip4 (r_reqs s) \<Longrightarrow> arp_ok s' = arp_ok s"
  by (simp only: arp_ok_ip4s)

lemma arp_ok_frame [simp]:
  "arp_ok (arp_send_request_exp6 i d s) = arp_ok s" "arp_ok (arp_send_reply_exp6 i p s) = arp_ok s"
  "arp_ok (snd (malloc n s)) = arp_ok s" "arp_ok (snd (rand s)) = arp_ok s"
  "arp_ok (iface_send_packet i p s) = arp_ok s" "arp_ok (s \<lparr>r_now := t\<rparr>) = arp_ok s"
  by (simp_all add: arp_ok_def)

lemma arp_ok_by_arp: "arp_ok s \<Longrightarrow> arp_ok (iface_send_packet_by_arp_exp6 i d p s)"
proof -
  assume ok: "arp_ok s"
  have "arp_ok (arpcache_append_packet_exp6 i d q s)" if "\<not> cached d (r_entries s)" for q
    using ok that by (auto simp: arp_ok_ip4s arpcache_append_packet_exp6_def ip4s_pend)
  then show ?thesis
    using ok lookup_exp6_None [of d s]
    by (auto simp: iface_send_packet_by_arp_exp6_def Let_def split: option.split)
qed

lemma arp_ok_ip_send: "arp_ok s \<Longrightarrow> arp_ok (ip_send_packet_exp6 p s)"
  by (auto simp: ip_send_packet_exp6_def Let_def arp_ok_by_arp split: option.split)

lemma arp_ok_icmp: "icmp_send_packet_exp6 p ty code s = Some s' \<Longrightarrow> arp_ok s \<Longrightarrow> arp_ok s'"
  by (auto simp: icmp_send_packet_exp6_def Let_def split_beta arp_ok_ip_send split: if_splits bind_splits)

lemma arp_ok_forward: "ip_forward_packet_exp6 d p s = Some s' \<Longrightarrow> arp_ok s \<Longrightarrow> arp_ok s'"
  by (auto simp: ip_forward_packet_exp6_def Let_def arp_ok_ip_send dest: arp_ok_icmp split: if_splits option.splits)

lemma find_req_Some: "find_req ip4 qs = Some q \<Longrightarrow> q \<in> set qs \<and> rq_ip4 q = ip4"
  by (induction qs) (auto split: if_splits)

lemma find_req_distinct: "q \<in> set qs \<Longrightarrow> distinct (map rq_ip4 qs) \<Longrightarrow> find_req (rq_ip4 q) qs = Some q"
  by (induction qs) auto

lemma free_index_le: "free_index es \<le> length es"
  by (induction es) auto

lemma cached_update: "cached a (es[j := e]) \<Longrightarrow> ac_ip4 e \<noteq> a \<Longrightarrow> cached a es"
  unfolding cached_def using set_update_subset_insert [of es j e] by auto

text \<open>A frame as \<open>iface_send_packet_by_arp\<close> emits it.\<close>

definition frame_exp6 :: "mac_addr \<Rightarrow> iface_info \<Rightarrow> bytes \<Rightarrow> bytes" where
  "frame_exp6 mac iface p = blit (st16 (blit p 6 (if_mac iface)) 12 (htons ETH_P_IP)) 0 mac"

lemma send_cached_out:
  "arpcache_lookup_exp6 ip4 s = Some mac \<Longrightarrow>
     send_cached i ip4 ps s = s \<lparr>r_out := r_out s @ map (\<lambda>p. (i, frame_exp6 mac (r_ifaces s ! i) p)) ps\<rparr>"
proof (induction ps arbitrary: s)
  case (Cons p ps)
  let ?s = "s \<lparr>r_out := r_out s @ [(i, frame_exp6 mac (r_ifaces s ! i) p)]\<rparr>"
  have "iface_send_packet_by_arp_exp6 i ip4 p s = ?s"
    using Cons.prems by (simp add: iface_send_packet_by_arp_exp6_def iface_send_packet_def frame_exp6_def Let_def)
  moreover have "arpcache_lookup_exp6 ip4 ?s = Some mac" using Cons.prems by (simp add: arpcache_lookup_exp6_def)
  ultimately show ?case using Cons.IH [of ?s] by simp
qed simp

lemma insert_pending:
  assumes "arp_ok s" "find_req ip4 (r_reqs s) = Some q"
  shows "\<exists>j x. j < 32 \<and> arpcache_insert_exp6 ip4 mac s = s \<lparr>r_rands := x,
    r_entries := (r_entries s)[j := \<lparr>ac_ip4 = ip4, ac_mac = mac, ac_added = r_now s, ac_valid = True\<rparr>],
    r_out := r_out s @ map (\<lambda>p. (rq_iface q, frame_exp6 mac (r_ifaces s ! rq_iface q) p)) (rq_packets q),
    r_reqs := remove1 q (r_reqs s)\<rparr>"
proof -
  define j where "j = (if free_index (r_entries s) = 32 then unat (fst (rand s)) mod 32 else free_index (r_entries s))"
  define s1 where "s1 = (if free_index (r_entries s) = 32 then snd (rand s) else s)"
  let ?e = "\<lparr>ac_ip4 = ip4, ac_mac = mac, ac_added = r_now s, ac_valid = True\<rparr>"
  have len: "length (r_entries s) = 32" using assms(1) by (simp add: arp_ok_def)
  then have j: "j < 32" using free_index_le [of "r_entries s"] by (auto simp: j_def)
  obtain x where s1: "s1 = s \<lparr>r_rands := x\<rparr>" by (cases "free_index (r_entries s) = 32") (auto simp: s1_def rand_def intro: that [of "r_rands s"])
  have "\<not> cached ip4 (r_entries s)" using find_req_Some [OF assms(2)] assms(1) by (auto simp: arp_ok_def)
  then have "arpcache_lookup_exp6 ip4 (s1 \<lparr>r_entries := (r_entries s1)[j := ?e]\<rparr>) = Some mac"
    using lookup_stored [of ip4 "r_entries s" j ?e mac] j len
    by (simp add: arpcache_lookup_exp6_def lookup_loop_exp6_eq s1)
  from send_cached_out [OF this] have "arpcache_insert_exp6 ip4 mac s =
      (s1 \<lparr>r_entries := (r_entries s1)[j := ?e], r_out := r_out s @ map (\<lambda>p. (rq_iface q, frame_exp6 mac (r_ifaces s ! rq_iface q) p)) (rq_packets q)\<rparr>)
      \<lparr>r_reqs := remove1 q (r_reqs s)\<rparr>"
    using assms(2) by (auto simp: arpcache_insert_exp6_def Let_def split_beta j_def s1_def rand_def)
  then show ?thesis using j s1 by (intro exI [of _ j] exI [of _ x]) simp
qed

lemma insert_unasked:
  assumes "find_req ip4 (r_reqs s) = None"
  shows "\<exists>x. arpcache_insert_exp6 ip4 mac s = s \<lparr>r_rands := x\<rparr>"
  using assms by (auto simp: arpcache_insert_exp6_def Let_def split_beta rand_def intro: exI [of _ "r_rands s"])

lemma arp_ok_insert: "arp_ok s \<Longrightarrow> arp_ok (arpcache_insert_exp6 ip4 mac s)"
proof (cases "find_req ip4 (r_reqs s)")
  case None
  then show "arp_ok s \<Longrightarrow> ?thesis" using insert_unasked [OF None, of mac] by (auto simp: arp_ok_def)
next
  case (Some q)
  assume ok: "arp_ok s"
  have q: "q \<in> set (r_reqs s)" "rq_ip4 q = ip4" using find_req_Some [OF Some] by simp_all
  have d: "distinct (map rq_ip4 (r_reqs s))" using ok by (simp add: arp_ok_def)
  have "distinct (map rq_ip4 (remove1 q (r_reqs s)))"
    using d by (auto simp: distinct_map inj_on_def)
  moreover have "rq_ip4 q' \<noteq> ip4 \<and> q' \<in> set (r_reqs s)" if "q' \<in> set (remove1 q (r_reqs s))" for q'
    using that q d by (auto simp: distinct_map inj_on_def)
  ultimately show ?thesis
    using insert_pending [OF ok Some, of mac] ok cached_update
    by (fastforce simp: arp_ok_def)
qed

lemma arp_ok_handle: "handle_packet_exp6 i p s = Some s' \<Longrightarrow> arp_ok s \<Longrightarrow> arp_ok s'"
  by (auto simp: handle_packet_exp6_def handle_ip_packet_exp6_def handle_arp_packet_exp6_def Let_def arp_ok_insert
      dest: arp_ok_icmp arp_ok_forward split: if_splits)

text \<open>The loops of the sweep, by induction on their runs.\<close>

lemma map_update_same: "i < length xs \<Longrightarrow> f y = f (xs ! i) \<Longrightarrow> map f (xs[i := y]) = map f xs"
  by (simp add: map_update list_update_same_conv)

lemma arp_ok_drop:
  assumes "drop_packets i s = Some s'"
  shows "arp_ok s \<longrightarrow> arp_ok s'"
  apply (rule drop_packets.raw_induct [OF _ assms])
  subgoal premises 1 for f i s s'
  proof (cases "rq_packets (r_reqs s ! i)")
    case (Cons p ps)
    then obtain s1 where s1: "icmp_send_packet_exp6 p ICMP_DEST_UNREACH ICMP_HOST_UNREACH s = Some s1"
      using 1(2) by (auto split: bind_splits)
    let ?q = "(r_reqs s1 ! i) \<lparr>rq_packets := tl (rq_packets (r_reqs s1 ! i))\<rparr>"
    let ?s = "s1 \<lparr>r_reqs := (r_reqs s1)[i := ?q]\<rparr>"
    have "map rq_ip4 (r_reqs ?s) = map rq_ip4 (r_reqs s1)"
      by (cases "i < length (r_reqs s1)") (simp_all add: map_update_same list_update_beyond)
    then have "arp_ok ?s = arp_ok s1" by (intro arp_ok_cong) simp_all
    then show ?thesis using 1 Cons s1 arp_ok_icmp [OF s1] by (auto simp: Let_def split: if_splits)
  qed (use 1 in simp)
  done

lemma arp_ok_sweep_loop:
  assumes "sweep_loop i s = Some s'"
  shows "arp_ok s \<longrightarrow> arp_ok s'"
  apply (rule sweep_loop.raw_induct [OF _ assms])
  subgoal premises 1 for f i s s'
  proof -
    let ?cut = "\<lambda>s. s \<lparr>r_reqs := take i (r_reqs s) @ drop (i + 1) (r_reqs s)\<rparr>"
    have cut: "arp_ok (?cut s1)" if "arp_ok s1" for s1
    proof (cases "i < length (r_reqs s1)")
      case True
      from id_take_nth_drop [OF this] have "map rq_ip4 (r_reqs s1) =
          map rq_ip4 (take i (r_reqs s1)) @ rq_ip4 (r_reqs s1 ! i) # map rq_ip4 (drop (i + 1) (r_reqs s1))"
        by (metis Suc_eq_plus1 list.simps(9) map_append)
      moreover have "distinct (map rq_ip4 (r_reqs s1))" using that by (simp add: arp_ok_def)
      ultimately have "distinct (map rq_ip4 (take i (r_reqs s1) @ drop (i + 1) (r_reqs s1)))" by simp
      then show ?thesis using that by (auto simp: arp_ok_def dest: in_set_takeD in_set_dropD)
    qed (use that in simp)
    show ?thesis
    proof (cases "i < length (r_reqs s)")
      case True
      show ?thesis
      proof (cases "rq_retries (r_reqs s ! i) \<ge> 5")
        case drop: True
        then obtain s1 where s1: "drop_packets i s = Some s1"
          using 1(2) True by (auto simp: Let_def split: bind_splits)
        then show ?thesis
          using 1 True drop arp_ok_drop [OF s1] cut [of s1]
          by (auto simp: Let_def split: if_splits)
      next
        case False
        let ?q = "r_reqs s ! i"
        let ?s = "(arp_send_request_exp6 (rq_iface ?q) (rq_ip4 ?q) s)
          \<lparr>r_reqs := (r_reqs s)[i := ?q \<lparr>rq_sent := r_now s, rq_retries := rq_retries ?q + 1\<rparr>]\<rparr>"
        have "arp_ok ?s = arp_ok s" using True by (intro arp_ok_cong) (simp_all add: map_update_same)
        then show ?thesis using 1 True False by (auto simp: Let_def split: if_splits)
      qed
    qed (use 1 in simp)
  qed
  done

lemma arp_ok_sweep: "arpcache_sweep_exp6 s = Some s' \<Longrightarrow> arp_ok s \<Longrightarrow> arp_ok s'"
proof -
  assume s': "arpcache_sweep_exp6 s = Some s'" and ok: "arp_ok s"
  have "cached a (map (age_entry_exp6 t) es) \<Longrightarrow> cached a es" for a t es
    by (auto simp: cached_def age_entry_exp6_def split: if_splits)
  then have "arp_ok (s \<lparr>r_entries := map (age_entry_exp6 (r_now s)) (r_entries s)\<rparr>)"
    using ok by (auto simp: arp_ok_def)
  then show ?thesis using arp_ok_sweep_loop s' by (auto simp: arpcache_sweep_exp6_def)
qed

text \<open>The runs of the router: packets arrive, time passes, the sweeping thread makes a round.\<close>

inductive router_run :: "router \<Rightarrow> bool" where
  start: "router_run (arpcache_init_exp6 s)"
| packet: "router_run s \<Longrightarrow> handle_packet_exp6 i p s = Some s' \<Longrightarrow> router_run s'"
| tick: "router_run s \<Longrightarrow> router_run (s \<lparr>r_now := r_now s + int n\<rparr>)"
| sweep: "router_run s \<Longrightarrow> arpcache_sweep_exp6 s = Some s' \<Longrightarrow> router_run s'"

lemma run_arp_ok: "router_run s \<Longrightarrow> arp_ok s"
proof (induction rule: router_run.induct)
  case (start s)
  then show ?case by (simp add: arp_ok_def arpcache_init_exp6_def)
qed (auto intro: arp_ok_handle arp_ok_sweep)

section \<open>ICMP messages\<close>

text \<open>The headers up to offset 34 decide the fields of the IP header and, without options, whether
  its checksum verifies.\<close>

lemma ip_hdr_cong:
  assumes "slice 0 34 p = slice 0 34 q" "34 \<le> length p" "34 \<le> length q"
  shows "ip_ihl p = ip_ihl q" "ip_tot_len p = ip_tot_len q" "ip_ttl p = ip_ttl q"
    "ip_protocol p = ip_protocol q" "ip_saddr p = ip_saddr q" "ip_daddr p = ip_daddr q"
    "ip_ihl q = 5 \<Longrightarrow> ip_verifies p = ip_verifies q"
proof -
  have nth: "p ! j = q ! j" if "j < 34" for j
  proof -
    have "slice 0 34 p ! j = slice 0 34 q ! j" by (simp only: assms(1))
    then show ?thesis using that assms(2,3) by (simp add: slice_def)
  qed
  show f: "ip_ihl p = ip_ihl q" "ip_tot_len p = ip_tot_len q" "ip_ttl p = ip_ttl q"
    "ip_protocol p = ip_protocol q" "ip_saddr p = ip_saddr q" "ip_daddr p = ip_daddr q"
    by (simp_all add: ip_field_defs ld8_def ld16_def ld32_def nth)
  have "fold (\<lambda>i s. s + ucast (ld16 (drop 14 p) (2 * i))) [0..<10] (0 :: u32) =
      fold (\<lambda>i s. s + ucast (ld16 (drop 14 q) (2 * i))) [0..<10] 0"
    using assms(2,3) by (intro fold_cong) (simp_all add: ld16_def nth)
  then have "checksum (drop 14 p) 20 0 = checksum (drop 14 q) 20 0"
    by (simp only: checksum_def) simp
  then show "ip_verifies p = ip_verifies q" if "ip_ihl q = 5"
    using f(1) that by (simp add: ip_verifies_def IP_HDR_SIZE_def ETHER_HDR_SIZE_def)
qed

lemma reports_cong:
  assumes "drop 14 q = drop 14 p" "34 \<le> length p" "length q = length p"
  shows "reports q ty code sa r = reports p ty code sa r"
proof -
  have "slice 14 n q = slice 14 n p" for n using assms(1) by (simp add: slice_def)
  then show ?thesis
    using ip_fields_cong [of q p] assms by (simp add: reports_def IP_HDR_SIZE_def Let_def)
qed

text \<open>What leaves when the next hop is cached.\<close>

lemma ip_send_exp6_hit:
  assumes "reachable_via (ntohl (ip_daddr p)) e mac s" "34 \<le> length p"
  shows "\<exists>q. ip_send_packet_exp6 p s = s \<lparr>r_out := r_out s @ [(rt_iface e, q)]\<rparr> \<and>
    framed mac (r_ifaces s ! rt_iface e) p q"
proof -
  let ?m = "if_mac (r_ifaces s ! rt_iface e)"
  let ?q = "blit (st16 (blit (blit (st16 p 12 (htons ETH_P_IP)) 6 ?m) 6 ?m) 12 (htons ETH_P_IP)) 0 mac"
  have a: "length ?m = 6" "length mac = 6" "longest_prefix_match (ntohl (ip_daddr p)) s = Some e"
    "arpcache_lookup (get_next_hop e (ntohl (ip_daddr p))) s = Some mac"
    using assms(1) by (simp_all add: reachable_via_def)
  have "eth_shost ?q = ?m"
    using a assms(2) slice_blit [of 6 ?m "blit (st16 p 12 (htons ETH_P_IP)) 6 ?m"]
    by (simp add: eth_shost_def slice_blit_apart slice_st_apart apart_def length_blit)
  moreover have "eth_dhost ?q = mac" "eth_type ?q = htons ETH_P_IP" "length ?q = length p" "drop 14 ?q = drop 14 p"
    using a assms(2) slice_blit [of 0 mac]
    by (simp_all add: eth_dhost_def eth_type_def length_blit ld_blit_apart apart_def drop_blit drop_st)
  ultimately have "framed mac (r_ifaces s ! rt_iface e) p ?q" by (simp add: framed_def)
  moreover have "ip_send_packet_exp6 p s = s \<lparr>r_out := r_out s @ [(rt_iface e, ?q)]\<rparr>"
    using a by (simp add: ip_send_packet_exp6_def iface_send_packet_by_arp_exp6_def arpcache_lookup_exp6_eq
        get_next_hop_def iface_send_packet_def Let_def split: if_splits)
  ultimately show ?thesis by blast
qed

lemma icmp_error_built:
  assumes p: "ip_hdr_ok p" "22 + IP_HDR_SIZE p \<le> length p" and ty: "ty \<noteq> ICMP_ECHOREPLY"
    and r: "longest_prefix_match (ntohl (ip_saddr p)) s = Some e"
  shows "\<exists>out m x. icmp_send_packet_exp6 p ty code s = Some (ip_send_packet_exp6 out (s \<lparr>r_mallocs := m, r_rands := x\<rparr>)) \<and>
    reports p ty code (if_ip (r_ifaces s ! rt_iface e)) out"
proof -
  define n where "n = IP_HDR_SIZE p + 16"
  let ?da = "ntohl (ip_saddr p)" and ?sa = "if_ip (r_ifaces s ! rt_iface e)"
  have n: "36 \<le> n" "n < 131072" "even n" "34 \<le> length p"
    using p ip_ihl_less [of p] by (simp_all add: n_def ip_hdr_ok_def IP_HDR_SIZE_def)
  define s1 where "s1 = snd (malloc (34 + n) s)"
  define x where "x = fst (rand s1)"
  define s2 where "s2 = snd (rand s1)"
  define h where "h = ip_init_hdr ?sa ?da (of_nat (20 + n)) IPPROTO_ICMP x (st16 (fst (malloc (34 + n) s)) 12 (htons ETH_P_IP))"
  define d where "d = slice 14 (n - 8) p"
  define b0 where "b0 = st8 (st8 (blit h 34 (replicate 8 0)) 35 code) 34 ty"
  define b where "b = blit b0 42 d"
  define out where "out = st16 b 36 (checksum (drop 34 (st16 b 36 0)) n 0)"
  have lh: "length h = 34 + n" by (simp add: h_def)
  have ld: "length d = n - 8" using p(2) n by (simp add: d_def n_def length_slice)
  have l: "length b0 = 34 + n" "length b = 34 + n" "length out = 34 + n"
    using n lh ld by (simp_all add: b0_def b_def out_def length_blit)
  have run: "icmp_send_packet_exp6 p ty code s = Some (ip_send_packet_exp6 out s2)"
  proof -
    have "icmp_in_bounds_exp6 p" using p n by (simp add: icmp_in_bounds_exp6_def ETHER_HDR_SIZE_def IP_BASE_HDR_SIZE_def)
    moreover have "ETHER_HDR_SIZE + IP_BASE_HDR_SIZE + ICMP_HDR_SIZE + IP_HDR_SIZE p + 8 = 34 + n"
      by (simp add: n_def ETHER_HDR_SIZE_def IP_BASE_HDR_SIZE_def ICMP_HDR_SIZE_def)
    ultimately show ?thesis
      using ty n(3) r
      by (simp add: icmp_send_packet_exp6_def split_beta Let_def icmp_checksum_exp6_def checksum_exp6_eq
          out_def b_def b0_def d_def h_def x_def s1_def s2_def ETHER_HDR_SIZE_def IP_BASE_HDR_SIZE_def ICMP_HDR_SIZE_def)
        (simp add: n_def add.commute)
  qed
  have "slice 0 34 out = slice 0 34 h"
    using n lh ld l by (simp add: out_def b_def b0_def slice_st_apart slice_blit_apart apart_def length_blit)
  note hd = ip_hdr_cong [OF this, unfolded l lh]
  have "34 \<le> length (st16 (fst (malloc (34 + n) s)) 12 (htons ETH_P_IP))" by simp
  note hf = ip_init_hdr_fields [OF this] ip_init_hdr_verifies [OF this]
  have f: "ip_ihl out = 5" "ip_tot_len out = htons (of_nat (20 + n))" "ip_ttl out = DEFAULT_TTL"
    "ip_protocol out = IPPROTO_ICMP" "ip_saddr out = htonl ?sa" "ip_daddr out = ip_saddr p" "ip_verifies out"
    using hd hf by (simp_all add: h_def)
  have "checksum (drop 34 out) n 0 = 0"
    using checksum_field_verifies [of 1 "n div 2" 34 b] n l unfolding out_def by simp
  moreover have "icmp_type out 34 = ty" "icmp_code out 34 = code" "slice 42 (n - 8) out = d"
    using n lh ld l slice_blit [of 42 d b0]
    by (simp_all add: icmp_type_def icmp_code_def out_def b_def b0_def ld_st_apart ld_blit_apart slice_st_apart
        apart_def length_blit)
  ultimately have "reports p ty code ?sa out"
    using f l n by (simp add: reports_def Let_def n_def d_def add.commute)
  moreover have "s2 = s \<lparr>r_mallocs := r_mallocs s2, r_rands := r_rands s2\<rparr>"
    by (simp add: s2_def s1_def rand_def malloc_def)
  ultimately show ?thesis using run by metis
qed

text \<open>A report stays one when its Ethernet header is written.\<close>

lemma reports_out_cong:
  assumes "reports p ty code sa q" "drop 14 q' = drop 14 q" "length q' = length q"
  shows "reports p ty code sa q'"
proof -
  have l: "34 \<le> length q" "34 \<le> length q'" using assms(1,3) by (auto simp: reports_def Let_def)
  have "drop 20 (drop 14 q') = drop 20 (drop 14 q)" by (simp only: assms(2))
  then have d: "drop 34 q' = drop 34 q" by simp
  show ?thesis
    using assms ip_fields_cong [OF assms(2)] l d icmp_fields_cong [OF d l(2,1)]
    by (simp add: reports_def Let_def)
qed

lemma icmp_error_sent_exp6:
  assumes p: "ip_hdr_ok p" "22 + IP_HDR_SIZE p \<le> length p" and ty: "ty \<noteq> ICMP_ECHOREPLY"
    and r: "reachable_via (ntohl (ip_saddr p)) e mac s"
  shows "\<exists>q m x. icmp_send_packet_exp6 p ty code s =
      Some (s \<lparr>r_mallocs := m, r_rands := x, r_out := r_out s @ [(rt_iface e, q)]\<rparr>) \<and>
    eth_dhost q = mac \<and> reports p ty code (if_ip (r_ifaces s ! rt_iface e)) q"
proof -
  obtain out m x where
    run: "icmp_send_packet_exp6 p ty code s = Some (ip_send_packet_exp6 out (s \<lparr>r_mallocs := m, r_rands := x\<rparr>))" and
    rep: "reports p ty code (if_ip (r_ifaces s ! rt_iface e)) out"
    using icmp_error_built [OF p ty, of s e code] r by (auto simp: reachable_via_def)
  have "reachable_via (ntohl (ip_daddr out)) e mac (s \<lparr>r_mallocs := m, r_rands := x\<rparr>)" "34 \<le> length out"
    using r rep by (auto simp: reports_def Let_def reachable_via_def longest_prefix_match_def arpcache_lookup_def)
  from ip_send_exp6_hit [OF this] obtain q where
    q: "ip_send_packet_exp6 out (s \<lparr>r_mallocs := m, r_rands := x\<rparr>) =
      s \<lparr>r_mallocs := m, r_rands := x, r_out := r_out s @ [(rt_iface e, q)]\<rparr>"
    "framed mac (r_ifaces s ! rt_iface e) out q"
    by auto
  then show ?thesis using run reports_out_cong [OF rep] by (auto simp: framed_def)
qed

end
