(* ===== verification/StaticResolution.thy ===== *)
theory StaticResolution imports StaticRouter begin

text \<open>What the router of \<open>StaticRouter\<close> (\<open>exp6/code\<close>) does with packets that wait for an address:
  they leave when it is resolved, and the sweep gives them up; when ICMP is undefined; and how
  its forwarding compares with the one of \<open>IpForward\<close> (\<open>exp10/code\<close>).\<close>

section \<open>Pending packets\<close>

text \<open>C17. In every run of the router the cache has 32 entries, at most one request is pending for
  an address, and no address with a pending request is in the cache: a packet never waits for
  an address that is known.\<close>

theorem static_pending_uncached:
  assumes "router_run s"
  shows "length (r_entries s) = 32 \<and> distinct (map rq_ip4 (r_reqs s)) \<and>
    (\<forall>q \<in> set (r_reqs s). arpcache_lookup_exp6 (rq_ip4 q) s = None)"
  using run_arp_ok [OF assms] by (simp add: arp_ok_def lookup_exp6_None)

text \<open>C16. Resolution: an ARP reply to the router for an address with a pending request sends the
  waiting packets in order, framed with the learned MAC address, on the interface of the
  request; the address is then cached and the request gone. A reply for an address nobody
  waits for changes neither the cache nor what is sent.\<close>

theorem pending_resolved:
  assumes "router_run s" "42 \<le> length p" "ntohs (eth_type p) = ETH_P_ARP"
    and "ntohs (arp_op p) = ARPOP_REPLY" "ntohl (arp_tpa p) = if_ip (r_ifaces s ! i)"
  shows "\<exists>s'. handle_packet_exp6 i p s = Some s' \<and>
    (case find_req (ntohl (arp_spa p)) (r_reqs s) of
       None \<Rightarrow> r_entries s' = r_entries s \<and> r_reqs s' = r_reqs s \<and> r_out s' = r_out s
     | Some q \<Rightarrow> arpcache_lookup_exp6 (rq_ip4 q) s' = Some (arp_sha p) \<and> r_reqs s' = remove1 q (r_reqs s) \<and>
         r_out s' = r_out s @ map (\<lambda>d. (rq_iface q, frame_exp6 (arp_sha p) (r_ifaces s ! rq_iface q) d))
           (rq_packets q))"
proof -
  let ?ip = "ntohl (arp_spa p)"
  have ok: "arp_ok s" using assms(1) by (rule run_arp_ok)
  have run: "handle_packet_exp6 i p s = Some (arpcache_insert_exp6 ?ip (arp_sha p) s)"
    using assms by (simp add: handle_packet_exp6_def handle_arp_packet_exp6_def ETHER_HDR_SIZE_def
        ETH_P_ARP_def ETH_P_IP_def ARPOP_REPLY_def ARPOP_REQUEST_def Let_def)
  show ?thesis
  proof (cases "find_req ?ip (r_reqs s)")
    case None
    then show ?thesis using run insert_unasked [OF None, of "arp_sha p"] by auto
  next
    case (Some q)
    from insert_pending [OF ok this, of "arp_sha p"] obtain j x where "j < 32" and
      ins: "arpcache_insert_exp6 ?ip (arp_sha p) s = s \<lparr>r_rands := x,
        r_entries := (r_entries s)[j := \<lparr>ac_ip4 = ?ip, ac_mac = arp_sha p, ac_added = r_now s, ac_valid = True\<rparr>],
        r_out := r_out s @ map (\<lambda>d. (rq_iface q, frame_exp6 (arp_sha p) (r_ifaces s ! rq_iface q) d)) (rq_packets q),
        r_reqs := remove1 q (r_reqs s)\<rparr>"
      by blast
    have q: "rq_ip4 q = ?ip" "\<not> cached ?ip (r_entries s)"
      using find_req_Some [OF Some] ok by (auto simp: arp_ok_def)
    then show ?thesis
      using run ins Some \<open>j < 32\<close> ok
        lookup_stored [of ?ip "r_entries s" j "\<lparr>ac_ip4 = ?ip, ac_mac = arp_sha p, ac_added = r_now s, ac_valid = True\<rparr>"]
      by (simp add: arpcache_lookup_exp6_def lookup_loop_exp6_eq arp_ok_def)
  qed
qed

section \<open>When ICMP is undefined\<close>

text \<open>A report or an echo reply is defined in C exactly when the packet is long enough to
  read from, when there is a route back to its source (a null route is dereferenced), and when
  it is no answer to an echo request of odd length (the assertion of the checksum fails).\<close>

theorem icmp_undefined_iff:
  "icmp_send_packet_exp6 p ty code s \<noteq> None \<longleftrightarrow> icmp_in_bounds_exp6 p \<and>
     longest_prefix_match (ntohl (ip_saddr p)) s \<noteq> None \<and> \<not> (ty = ICMP_ECHOREPLY \<and> odd (length p))"
proof (cases "icmp_in_bounds_exp6 p")
  case True
  then have "IP_HDR_SIZE p + 22 \<le> length p" by (simp add: icmp_in_bounds_exp6_def)
  then have "even (length p - IP_HDR_SIZE p + 20 - 14 - 20) = even (length p)"
    by (simp add: IP_HDR_SIZE_def)
  then show ?thesis
    using True by (auto simp: icmp_send_packet_exp6_def split_beta Let_def icmp_checksum_exp6_def checksum_exp6_eq
        ETHER_HDR_SIZE_def IP_BASE_HDR_SIZE_def ICMP_HDR_SIZE_def IP_HDR_SIZE_def split: bind_splits if_splits)
qed (simp add: icmp_send_packet_exp6_def)

section \<open>Giving up\<close>

text \<open>The packet as it waits, its source and its type written.\<close>

definition waiting_exp6 :: "iface_info \<Rightarrow> bytes \<Rightarrow> bytes" where
  "waiting_exp6 iface p = st16 (blit p 6 (if_mac iface)) 12 (htons ETH_P_IP)"

lemma waiting_facts:
  assumes "34 \<le> length p" "length (if_mac f) = 6"
  shows "length (waiting_exp6 f p) = length p" "drop 14 (waiting_exp6 f p) = drop 14 p"
  using assms by (simp_all add: waiting_exp6_def length_blit drop_blit drop_st)

definition reportable :: "(u32 \<Rightarrow> rt_entry) \<Rightarrow> (u32 \<Rightarrow> mac_addr) \<Rightarrow> router \<Rightarrow> bytes \<Rightarrow> bool" where
  "reportable e mac s p \<longleftrightarrow> ip_hdr_ok p \<and> 22 + IP_HDR_SIZE p \<le> length p \<and>
     reachable_via (ntohl (ip_saddr p)) (e (ntohl (ip_saddr p))) (mac (ntohl (ip_saddr p))) s"

text \<open>A frame \<open>o\<close> that reports \<open>p\<close> to its source with the host unreachable message.\<close>

definition host_report :: "(u32 \<Rightarrow> rt_entry) \<Rightarrow> (u32 \<Rightarrow> mac_addr) \<Rightarrow> router \<Rightarrow> bytes \<Rightarrow> nat \<times> bytes \<Rightarrow> bool" where
  "host_report e mac s p out \<longleftrightarrow>
     (let a = ntohl (ip_saddr p); j = rt_iface (e a)
      in fst out = j \<and> eth_dhost (snd out) = mac a \<and>
         reports p ICMP_DEST_UNREACH ICMP_HOST_UNREACH (if_ip (r_ifaces s ! j)) (snd out))"

lemma drop_one:
  assumes "rq_packets (r_reqs s ! i) = p # ps" "i < length (r_reqs s)" "reportable e mac s p"
  shows "\<exists>out m x. host_report e mac s p out \<and>
    drop_packets i s = (let s' = s \<lparr>r_mallocs := m, r_rands := x, r_out := r_out s @ [out],
        r_reqs := (r_reqs s)[i := (r_reqs s ! i) \<lparr>rq_packets := ps\<rparr>]\<rparr>
      in if ps = [] then Some s' else drop_packets i s')"
proof -
  let ?e = "e (ntohl (ip_saddr p))" and ?m = "mac (ntohl (ip_saddr p))"
  have "ICMP_DEST_UNREACH \<noteq> ICMP_ECHOREPLY" by (simp add: ICMP_DEST_UNREACH_def ICMP_ECHOREPLY_def)
  then obtain q m x where "icmp_send_packet_exp6 p ICMP_DEST_UNREACH ICMP_HOST_UNREACH s =
      Some (s \<lparr>r_mallocs := m, r_rands := x, r_out := r_out s @ [(rt_iface ?e, q)]\<rparr>)"
    "eth_dhost q = ?m" "reports p ICMP_DEST_UNREACH ICMP_HOST_UNREACH (if_ip (r_ifaces s ! rt_iface ?e)) q"
    using icmp_error_sent_exp6 [of p ICMP_DEST_UNREACH ?e ?m s ICMP_HOST_UNREACH] assms(3)
    by (auto simp: reportable_def)
  then show ?thesis
    using assms(1,2) by (intro exI [of _ "(rt_iface ?e, q)"] exI [of _ m] exI [of _ x])
      (subst drop_packets.simps, simp add: host_report_def Let_def)
qed

lemma reportable_cong:
  assumes "r_ifaces s' = r_ifaces s" "r_rtable s' = r_rtable s" "r_entries s' = r_entries s"
  shows "reportable e mac s' p = reportable e mac s p" "host_report e mac s' p out = host_report e mac s p out"
  using assms
  by (simp_all add: reportable_def host_report_def reachable_via_def longest_prefix_match_def arpcache_lookup_def)

lemma drop_all:
  assumes "rq_packets (r_reqs s ! i) = p # ps" "i < length (r_reqs s)" "\<forall>p' \<in> set (p # ps). reportable e mac s p'"
  shows "\<exists>outs m x. list_all2 (host_report e mac s) (p # ps) outs \<and>
    drop_packets i s = Some (s \<lparr>r_mallocs := m, r_rands := x, r_out := r_out s @ outs,
      r_reqs := (r_reqs s)[i := (r_reqs s ! i) \<lparr>rq_packets := []\<rparr>]\<rparr>)"
  using assms
proof (induction ps arbitrary: p s)
  case Nil
  then show ?case using drop_one [OF Nil(1,2), of e mac] by (auto simp: Let_def)
next
  case (Cons p' ps)
  obtain out m x where out: "host_report e mac s p out" and
    run: "drop_packets i s = drop_packets i (s \<lparr>r_mallocs := m, r_rands := x, r_out := r_out s @ [out],
        r_reqs := (r_reqs s)[i := (r_reqs s ! i) \<lparr>rq_packets := p' # ps\<rparr>]\<rparr>)"
    using drop_one [OF Cons.prems(1,2), of e mac] Cons.prems(3) by (auto simp: Let_def)
  let ?s = "s \<lparr>r_mallocs := m, r_rands := x, r_out := r_out s @ [out],
        r_reqs := (r_reqs s)[i := (r_reqs s ! i) \<lparr>rq_packets := p' # ps\<rparr>]\<rparr>"
  have c: "reportable e mac ?s = reportable e mac s" "host_report e mac ?s = host_report e mac s"
    by (intro ext reportable_cong; simp)+
  from Cons.IH [of ?s p'] Cons.prems obtain outs m' x' where
    "list_all2 (host_report e mac s) (p' # ps) outs"
    "drop_packets i ?s = Some (?s \<lparr>r_mallocs := m', r_rands := x', r_out := (r_out s @ [out]) @ outs,
      r_reqs := (r_reqs ?s)[i := (r_reqs ?s ! i) \<lparr>rq_packets := []\<rparr>]\<rparr>)"
    by (auto simp: c)
  then show ?case using out run Cons.prems(2)
    by (intro exI [of _ "out # outs"] exI [of _ m'] exI [of _ x']) simp
qed

text \<open>Packets handed to ARP for one address that is not cached, when nothing else is pending.\<close>

lemma burst_pending:
  fixes i :: nat
  assumes "\<not> cached ip4 (r_entries s)" "r_reqs s = []" "ps \<noteq> []"
  defines "s1 \<equiv> fold (iface_send_packet_by_arp_exp6 i ip4) ps s"
  shows "r_reqs s1 = [\<lparr>rq_iface = i, rq_ip4 = ip4, rq_sent = r_now s, rq_retries = int (length ps),
      rq_packets = map (waiting_exp6 (r_ifaces s ! i)) ps\<rparr>] \<and>
    r_ifaces s1 = r_ifaces s \<and> r_rtable s1 = r_rtable s \<and> r_entries s1 = r_entries s \<and> r_now s1 = r_now s"
  unfolding s1_def using assms(3)
proof (induction ps rule: rev_induct)
  case (snoc p ps)
  let ?f = "iface_send_packet_by_arp_exp6 i ip4" let ?s = "fold ?f ps s"
  have keep: "r_ifaces ?s = r_ifaces s" "r_rtable ?s = r_rtable s" "r_entries ?s = r_entries s" "r_now ?s = r_now s"
    using snoc.IH by (cases "ps = []"; simp)+
  have "?f p ?s = arpcache_append_packet_exp6 i ip4 (waiting_exp6 (r_ifaces s ! i) p) ?s"
    using assms(1) lookup_exp6_None [of ip4 ?s] keep
    by (simp add: iface_send_packet_by_arp_exp6_def waiting_exp6_def Let_def)
  then show ?case
    using snoc.IH keep assms(2) by (cases "ps = []") (simp_all add: arpcache_append_packet_exp6_def)
qed simp

text \<open>Packets handed to ARP one after the other for an address that does not answer each count
  as one try. So five of them are given up by the very next round of the sweep, even in the same
  second: none waits longer, and each is reported to its source by a host unreachable message,
  in order. Fewer of them stay, with one more try counted.\<close>

theorem burst_given_up:
  fixes ip4 :: u32 and s :: router and ps :: "bytes list" and i :: nat
    and e :: "u32 \<Rightarrow> rt_entry" and mac :: "u32 \<Rightarrow> mac_addr"
  assumes "\<not> cached ip4 (r_entries s)" "r_reqs s = []" "ps \<noteq> []" "length (if_mac (r_ifaces s ! i)) = 6"
    and "\<forall>c \<in> set (r_entries s). r_now s - ac_added c \<le> 15" "\<forall>p \<in> set ps. reportable e mac s p"
  shows "\<exists>s' outs. arpcache_sweep_exp6 (fold (iface_send_packet_by_arp_exp6 i ip4) ps s) = Some s' \<and>
    (if length ps \<ge> 5 then r_reqs s' = [] \<and> list_all2 (host_report e mac s) ps outs \<and>
       r_out s' = r_out (fold (iface_send_packet_by_arp_exp6 i ip4) ps s) @ outs
     else \<exists>q. r_reqs s' = [q] \<and> rq_packets q = map (waiting_exp6 (r_ifaces s ! i)) ps \<and>
       rq_retries q = int (length ps) + 1)"
proof -
  let ?w = "waiting_exp6 (r_ifaces s ! i)"
  define s1 where "s1 = fold (iface_send_packet_by_arp_exp6 i ip4) ps s"
  let ?q = "\<lparr>rq_iface = i, rq_ip4 = ip4, rq_sent = r_now s, rq_retries = int (length ps), rq_packets = map ?w ps\<rparr>"
  note s1 = burst_pending [OF assms(1-3), of i, folded s1_def]
  have "map (age_entry_exp6 (r_now s1)) (r_entries s1) = r_entries s1"
    using assms(5) s1 by (intro map_idI) (auto simp: age_entry_exp6_def)
  then have sweep: "arpcache_sweep_exp6 s1 = sweep_loop 0 s1" by (simp add: arpcache_sweep_exp6_def)
  have len: "34 \<le> length p" if "p \<in> set ps" for p
    using that assms(6) by (auto simp: reportable_def ip_hdr_ok_def IP_HDR_SIZE_def)
  have w: "reportable e mac s (?w p)" "host_report e mac s (?w p) out \<longleftrightarrow> host_report e mac s p out" if "p \<in> set ps" for p out
  proof -
    note wf = waiting_facts [OF len [OF that] assms(4)]
    show "reportable e mac s (?w p)" "host_report e mac s (?w p) out \<longleftrightarrow> host_report e mac s p out"
      using that assms(6) ip_fields_cong [OF wf(2)] reports_cong [OF wf(2) len [OF that] wf(1)] wf(1) len [OF that]
      by (auto simp: reportable_def host_report_def ip_hdr_ok_def IP_HDR_SIZE_def)
  qed
  show ?thesis unfolding s1_def [symmetric]
  proof (cases "length ps \<ge> 5")
    case True
    obtain p ps' where ps: "ps = p # ps'" using assms(3) by (cases ps) auto
    have "\<forall>p' \<in> set (?w p # map ?w ps'). reportable e mac s1 p'"
      using w(1) s1 reportable_cong(1) [of s1 s] by (auto simp: ps)
    from drop_all [of s1 0, OF _ _ this] s1 obtain outs m x where
      outs: "list_all2 (host_report e mac s1) (map ?w ps) outs" and
      run: "drop_packets 0 s1 = Some (s1 \<lparr>r_mallocs := m, r_rands := x, r_out := r_out s1 @ outs,
        r_reqs := [?q \<lparr>rq_packets := []\<rparr>]\<rparr>)"
      by (auto simp: ps)
    have "host_report e mac s1 = host_report e mac s"
      using s1 by (intro ext reportable_cong(2)) simp_all
    then have "list_all2 (host_report e mac s) ps outs"
      using outs w(2) by (auto simp: list_all2_conv_all_nth)
    moreover have "sweep_loop 0 s1 = Some (s1 \<lparr>r_mallocs := m, r_rands := x, r_out := r_out s1 @ outs, r_reqs := []\<rparr>)"
      using s1 True run by (subst sweep_loop.simps) (simp add: Let_def)
    ultimately show "\<exists>s' outs. arpcache_sweep_exp6 s1 = Some s' \<and>
    (if length ps \<ge> 5 then r_reqs s' = [] \<and> list_all2 (host_report e mac s) ps outs \<and> r_out s' = r_out s1 @ outs
     else \<exists>q. r_reqs s' = [q] \<and> rq_packets q = map ?w ps \<and> rq_retries q = int (length ps) + 1)"
      using True sweep by auto
  next
    case False
    then show "\<exists>s' outs. arpcache_sweep_exp6 s1 = Some s' \<and>
    (if length ps \<ge> 5 then r_reqs s' = [] \<and> list_all2 (host_report e mac s) ps outs \<and> r_out s' = r_out s1 @ outs
     else \<exists>q. r_reqs s' = [q] \<and> rq_packets q = map ?w ps \<and> rq_retries q = int (length ps) + 1)"
      using s1 sweep by (subst (asm) sweep_loop.simps) (simp add: Let_def)
  qed
qed

section \<open>A sweep that does not end\<close>

text \<open>A request for an address of the router itself, whose route is direct, with two packets or
  more that come from this very address: the report of each is again such a packet.\<close>

definition from_self :: "u32 \<Rightarrow> bytes \<Rightarrow> bool" where
  "from_self a p \<longleftrightarrow> ip_hdr_ok p \<and> 22 + IP_HDR_SIZE p \<le> length p \<and> ntohl (ip_saddr p) = a"

definition own_route :: "u32 \<Rightarrow> router \<Rightarrow> bool" where
  "own_route a s \<longleftrightarrow> (\<exists>e. longest_prefix_match a s = Some e \<and> get_next_hop e a = a \<and>
     if_ip (r_ifaces s ! rt_iface e) = a \<and> length (if_mac (r_ifaces s ! rt_iface e)) = 6)"

definition self_queue :: "u32 \<Rightarrow> nat \<Rightarrow> router \<Rightarrow> bool" where
  "self_queue a i s \<longleftrightarrow> own_route a s \<and> \<not> cached a (r_entries s) \<and> distinct (map rq_ip4 (r_reqs s)) \<and>
     i < length (r_reqs s) \<and> rq_ip4 (r_reqs s ! i) = a \<and> 2 \<le> length (rq_packets (r_reqs s ! i)) \<and>
     (\<forall>p \<in> set (rq_packets (r_reqs s ! i)). from_self a p)"

lemma pend_at:
  assumes "distinct (map rq_ip4 qs)" "i < length qs" "rq_ip4 (qs ! i) = a"
  shows "pend_packet j a p now qs = qs[i := (qs ! i) \<lparr>rq_packets := rq_packets (qs ! i) @ [p],
    rq_sent := now, rq_retries := rq_retries (qs ! i) + 1\<rparr>]"
  using assms by (induction qs arbitrary: i) (auto split: nat.splits simp: nth_Cons' image_iff)

lemma self_report_pends:
  assumes "self_queue a i s" "p \<in> set (rq_packets (r_reqs s ! i))"
  shows "\<exists>s1 r w. icmp_send_packet_exp6 p ICMP_DEST_UNREACH ICMP_HOST_UNREACH s = Some s1 \<and> from_self a w \<and>
    r_ifaces s1 = r_ifaces s \<and> r_rtable s1 = r_rtable s \<and> r_entries s1 = r_entries s \<and> rq_ip4 r = a \<and>
    rq_packets r = rq_packets (r_reqs s ! i) @ [w] \<and> r_reqs s1 = (r_reqs s)[i := r]"
proof -
  obtain e where e: "longest_prefix_match a s = Some e" "get_next_hop e a = a"
      "if_ip (r_ifaces s ! rt_iface e) = a" "length (if_mac (r_ifaces s ! rt_iface e)) = 6"
    using assms(1) by (auto simp: self_queue_def own_route_def)
  have p: "ip_hdr_ok p" "22 + IP_HDR_SIZE p \<le> length p" "ntohl (ip_saddr p) = a"
    using assms by (auto simp: self_queue_def from_self_def)
  have "ICMP_DEST_UNREACH \<noteq> ICMP_ECHOREPLY" by (simp add: ICMP_DEST_UNREACH_def ICMP_ECHOREPLY_def)
  then obtain out m x where run: "icmp_send_packet_exp6 p ICMP_DEST_UNREACH ICMP_HOST_UNREACH s =
      Some (ip_send_packet_exp6 out (s \<lparr>r_mallocs := m, r_rands := x\<rparr>))" and
    rep: "reports p ICMP_DEST_UNREACH ICMP_HOST_UNREACH a out"
    using icmp_error_built [OF p(1,2), of ICMP_DEST_UNREACH s e ICMP_HOST_UNREACH] p(3) e by auto
  let ?s = "s \<lparr>r_mallocs := m, r_rands := x\<rparr>" and ?f = "r_ifaces s ! rt_iface e"
  let ?w = "waiting_exp6 ?f (blit (st16 out 12 (htons ETH_P_IP)) 6 (if_mac ?f))"
  have out: "ntohl (ip_daddr out) = a" "34 \<le> length out"
    using rep p(3) by (auto simp: reports_def Let_def)
  have w: "drop 14 ?w = drop 14 out" "length ?w = length out"
    using out e(4) waiting_facts [of "blit (st16 out 12 (htons ETH_P_IP)) 6 (if_mac ?f)" ?f]
    by (simp_all add: length_blit drop_blit drop_st)
  have "reports p ICMP_DEST_UNREACH ICMP_HOST_UNREACH a ?w" by (rule reports_out_cong [OF rep w])
  then have self: "from_self a ?w"
    by (auto simp: from_self_def reports_def Let_def ip_hdr_ok_def IP_HDR_SIZE_def ETHER_HDR_SIZE_def)
  have lpm: "longest_prefix_match a ?s = Some e" using e(1) by (simp add: longest_prefix_match_def)
  have miss: "arpcache_lookup_exp6 a ?s = None"
    using assms(1) lookup_exp6_None [of a ?s] by (simp add: self_queue_def)
  have "ip_send_packet_exp6 out ?s = arpcache_append_packet_exp6 (rt_iface e) a ?w ?s"
    using lpm miss e(2) out(1)
    by (auto simp: ip_send_packet_exp6_def iface_send_packet_by_arp_exp6_def waiting_exp6_def get_next_hop_def Let_def
        split: if_splits)
  moreover have "r_reqs (arpcache_append_packet_exp6 (rt_iface e) a ?w ?s) = (r_reqs s)[i := (r_reqs s ! i)
      \<lparr>rq_packets := rq_packets (r_reqs s ! i) @ [?w], rq_sent := r_now s, rq_retries := rq_retries (r_reqs s ! i) + 1\<rparr>]"
    using assms(1) by (simp add: arpcache_append_packet_exp6_def pend_at self_queue_def)
  ultimately show ?thesis
    using run self assms(1)
    by (intro exI [of _ "arpcache_append_packet_exp6 (rt_iface e) a ?w ?s"] exI [of _ "(r_reqs s ! i)
        \<lparr>rq_packets := rq_packets (r_reqs s ! i) @ [?w], rq_sent := r_now s, rq_retries := rq_retries (r_reqs s ! i) + 1\<rparr>"]
        exI [of _ ?w]) (simp add: arpcache_append_packet_exp6_def self_queue_def)
qed

lemma drop_diverges:
  assumes "drop_packets i s = Some s'"
  shows "\<not> self_queue a i s"
  apply (rule drop_packets.raw_induct [OF _ assms])
  subgoal premises 1 for f i s s'
  proof
    assume q: "self_queue a i s"
    then obtain p p' ps where ps: "rq_packets (r_reqs s ! i) = p # p' # ps"
      by (auto simp: self_queue_def numeral_2_eq_2 Suc_le_length_iff)
    then obtain s1 r w where s1: "icmp_send_packet_exp6 p ICMP_DEST_UNREACH ICMP_HOST_UNREACH s = Some s1"
      "from_self a w" "r_ifaces s1 = r_ifaces s" "r_rtable s1 = r_rtable s" "r_entries s1 = r_entries s" "rq_ip4 r = a"
      "rq_packets r = (p # p' # ps) @ [w]" "r_reqs s1 = (r_reqs s)[i := r]"
      using self_report_pends [OF q, of p] by auto
    let ?s = "s1 \<lparr>r_reqs := (r_reqs s1)[i := (r_reqs s1 ! i) \<lparr>rq_packets := tl (rq_packets (r_reqs s1 ! i))\<rparr>]\<rparr>"
    have i: "i < length (r_reqs s)" using q by (simp add: self_queue_def)
    have "map rq_ip4 (r_reqs ?s) = map rq_ip4 (r_reqs s)"
      using i s1 q by (simp add: map_update_same self_queue_def)
    moreover have "own_route a ?s = own_route a s"
      by (simp add: own_route_def longest_prefix_match_def s1)
    ultimately have "self_queue a i ?s"
      using q s1 i ps by (simp add: self_queue_def)
    moreover have "f i ?s = Some s'" using 1(2) ps s1(1) by (simp add: Let_def)
    ultimately show False using 1(1) by blast
  qed
  done

text \<open>The sweep can hang. When the first pending request is for an address of the router itself,
  has used up its tries, and at least two packets with that very source wait for it, the sweep
  does not end: the report of each is addressed to the router, waits for the same request, and is
  reported in turn. A neighbour brings it about with five packets whose source and destination
  are the router's address.\<close>

theorem sweep_hangs:
  assumes "router_run s" "r_reqs s = q # qs" "5 \<le> rq_retries q" "own_route (rq_ip4 q) s"
    and "2 \<le> length (rq_packets q)" "\<forall>p \<in> set (rq_packets q). from_self (rq_ip4 q) p"
  shows "arpcache_sweep_exp6 s = None"
proof -
  let ?s = "s \<lparr>r_entries := map (age_entry_exp6 (r_now s)) (r_entries s)\<rparr>"
  have "\<not> cached (rq_ip4 q) (r_entries ?s)"
    using run_arp_ok [OF assms(1)] assms(2) by (auto simp: arp_ok_def cached_def age_entry_exp6_def split: if_splits)
  moreover have "own_route (rq_ip4 q) ?s" using assms(4) by (simp add: own_route_def longest_prefix_match_def)
  ultimately have "self_queue (rq_ip4 q) 0 ?s"
    using run_arp_ok [OF assms(1)] assms by (simp add: self_queue_def arp_ok_def)
  then have "drop_packets 0 ?s = None" using drop_diverges by (cases "drop_packets 0 ?s") auto
  then show ?thesis using assms(2,3) by (simp add: arpcache_sweep_exp6_def sweep_loop.simps Let_def)
qed

section \<open>Forwarding\<close>

lemma exp6_frame:
  assumes "length m = 6" "length mac = 6" "14 \<le> length p"
  shows "blit (st16 (blit (blit (st16 p 12 t) 6 m) 6 m) 12 t) 0 mac = set_eth mac m (st16 p 12 t)"
  using assms by (intro nth_equalityI) (auto simp: set_eth_def length_blit nth_blit nth_st16)

lemma ip_send_exp6_cached:
  assumes "reachable_via (ntohl (ip_daddr p)) e mac s" "14 \<le> length p"
  shows "ip_send_packet_exp6 p s =
    iface_send_packet_by_arp (rt_iface e) (get_next_hop e (ntohl (ip_daddr p))) p s"
  using assms exp6_frame [of "if_mac (r_ifaces s ! rt_iface e)" mac p "htons ETH_P_IP"]
  by (auto simp: reachable_via_def ip_send_packet_exp6_def iface_send_packet_by_arp_exp6_def iface_send_packet_by_arp_def
      arpcache_lookup_exp6_eq get_next_hop_def Let_def)

text \<open>C39. A packet with at least one hop left, whose next hop is cached, is forwarded as the later
  router of \<open>exp10\<close> does it, byte for byte. They differ for a TTL of 0: the later router reports
  it, this one counts it down to 255 in its eight bits, finds that not below 1, and forwards the
  packet with a TTL of 255 and a checksum that verifies.\<close>

theorem forwarding_agrees:
  assumes "ip_hdr_ok p" "reachable_via (ntohl (ip_daddr p)) e mac s"
  shows "(1 < ip_ttl p \<longrightarrow>
      ip_forward_packet_exp6 (ntohl (ip_daddr p)) p s = ip_forward_packet (ntohl (ip_daddr p)) p s) \<and>
    (ip_ttl p = 0 \<longrightarrow> (\<exists>q. ip_forward_packet_exp6 (ntohl (ip_daddr p)) p s =
        Some (s \<lparr>r_out := r_out s @ [(rt_iface e, q)]\<rparr>) \<and> ip_ttl q = 255 \<and> ip_verifies q))"
proof -
  let ?d = "ntohl (ip_daddr p)"
  define p' where "p' = set_ip_checksum (st8 p 22 (ip_ttl p - 1))"
  have l: "34 \<le> length p" "ip_data p \<le> length p"
    using assms(1) by (simp_all add: ip_hdr_ok_def IP_HDR_SIZE_def ETHER_HDR_SIZE_def ip_data_def)
  have ihl: "ip_ihl (st8 p 22 v) = ip_ihl p" for v by (simp add: ip_ihl_def ld_st_apart apart_def)
  have p': "length p' = length p" "ip_ttl p' = ip_ttl p - 1" "ip_daddr p' = ip_daddr p"
    using l by (simp_all add: p'_def) (simp_all add: set_ip_checksum_def ip_ttl_def ip_daddr_def ld_st_apart apart_def)
  have v: "ip_verifies p'"
    unfolding p'_def using assms(1)
    by (intro set_ip_checksum_verifies) (simp add: ip_hdr_ok_def IP_HDR_SIZE_def ihl)
  have lpm: "longest_prefix_match ?d s = Some e" using assms(2) by (simp add: reachable_via_def)
  have run: "ip_forward_packet_exp6 ?d p s = Some (ip_send_packet_exp6 p' s)" if "ip_ttl p \<noteq> 1"
  proof -
    have "\<not> ip_ttl (st8 p 22 (ip_ttl p - 1)) \<le> 0" using that l by (simp add: ip_ttl_def)
    then show ?thesis
      using l lpm by (simp add: ip_forward_packet_exp6_def p'_def set_ip_checksum_def ip_data_def IP_HDR_SIZE_def ihl Let_def)
  qed
  have same: "ip_send_packet_exp6 p' s = iface_send_packet_by_arp (rt_iface e) (get_next_hop e ?d) p' s"
    using ip_send_exp6_cached [of p' e mac s] assms(2) p' l by simp
  have "ip_forward_packet_exp6 ?d p s = ip_forward_packet ?d p s" if "1 < ip_ttl p"
  proof -
    have "ip_ttl p \<noteq> 1" "\<not> ip_ttl p \<le> 1" using that by auto
    then show ?thesis using run lpm same by (simp add: ip_forward_packet_def p'_def set_ip_checksum_def Let_def)
  qed
  moreover have "\<exists>q. ip_forward_packet_exp6 ?d p s = Some (s \<lparr>r_out := r_out s @ [(rt_iface e, q)]\<rparr>) \<and>
      ip_ttl q = 255 \<and> ip_verifies q" if "ip_ttl p = 0"
  proof -
    obtain q where "ip_send_packet_exp6 p' s = s \<lparr>r_out := r_out s @ [(rt_iface e, q)]\<rparr>"
      "framed mac (r_ifaces s ! rt_iface e) p' q"
      using ip_send_exp6_hit [of p' e mac s] assms(2) p' l by auto
    then show ?thesis using run that p' v l framed_ip [of mac _ p' q] by auto
  qed
  ultimately show ?thesis by blast
qed

section \<open>Instances\<close>

text \<open>The router of the instances after its start, when a packet for 10.0.0.5 has been handed to
  ARP.\<close>

definition demo_static :: router where "demo_static = arpcache_init_exp6 demo_router"

definition demo_ask :: bytes where "demo_ask = st32 demo_echo 30 (htonl 0x0a000005)"

lemma ask_pends:
  "\<exists>s'. handle_packet_exp6 0 demo_ask demo_static = Some s' \<and> router_run s' \<and>
    map rq_ip4 (r_reqs s') = [0x0a000005] \<and> if_ip (r_ifaces s' ! 0) = 0x0a000001"
proof -
  have "\<not> Option.is_none (handle_packet_exp6 0 demo_ask demo_static)" by code_simp
  then obtain s' where s': "handle_packet_exp6 0 demo_ask demo_static = Some s'" by (auto simp: Option.is_none_def)
  have "map_option (map rq_ip4 \<circ> r_reqs) (handle_packet_exp6 0 demo_ask demo_static) = Some [0x0a000005]" by code_simp
  then have "map rq_ip4 (r_reqs s') = [0x0a000005]" by (simp only: s' option.map comp_apply option.inject)
  moreover have "map_option (\<lambda>s. if_ip (r_ifaces s ! 0)) (handle_packet_exp6 0 demo_ask demo_static) = Some 0x0a000001" by code_simp
  then have "if_ip (r_ifaces s' ! 0) = 0x0a000001" by (simp only: s' option.map option.inject)
  moreover have "router_run s'"
    using router_run.packet [OF router_run.start s' [unfolded demo_static_def]] .
  ultimately show ?thesis using s' by (intro exI [of _ s'] conjI)
qed

lemma static_pending_uncached_witness:
  "\<exists>s'. handle_packet_exp6 0 demo_ask demo_static = Some s' \<and> map rq_ip4 (r_reqs s') = [0x0a000005] \<and>
    arpcache_lookup_exp6 0x0a000005 s' = None"
proof -
  obtain s' where s': "handle_packet_exp6 0 demo_ask demo_static = Some s'" "router_run s'"
    "map rq_ip4 (r_reqs s') = [0x0a000005]"
    using ask_pends by metis
  have "0x0a000005 \<in> rq_ip4 ` set (r_reqs s')" unfolding set_map [symmetric] s'(3) by simp
  then have "arpcache_lookup_exp6 0x0a000005 s' = None" using static_pending_uncached [OF s'(2)] by fastforce
  then show ?thesis using s'(1,3) by (intro exI [of _ s'] conjI)
qed

text \<open>The answer of 10.0.0.5.\<close>

definition demo_reply :: bytes where
  "demo_reply = replicate 12 0 @ [8, 6, 0, 1, 8, 0, 6, 4, 0, 2] @ demo_mac @ [10, 0, 0, 5] @
     replicate 6 0 @ [10, 0, 0, 1]"

lemma reply_facts:
  "42 \<le> length demo_reply" "ntohs (eth_type demo_reply) = ETH_P_ARP" "ntohs (arp_op demo_reply) = ARPOP_REPLY"
  "ntohl (arp_tpa demo_reply) = 0x0a000001" "ntohl (arp_spa demo_reply) = 0x0a000005" "arp_sha demo_reply = demo_mac"
  by code_simp+

lemma pending_resolved_witness:
  "\<exists>s s'. handle_packet_exp6 0 demo_ask demo_static = Some s \<and> handle_packet_exp6 0 demo_reply s = Some s' \<and>
    arpcache_lookup_exp6 0x0a000005 s' = Some demo_mac \<and> r_reqs s' = []"
proof -
  obtain s z where s: "handle_packet_exp6 0 demo_ask demo_static = Some s" "router_run s"
    "r_reqs s = [z]" "rq_ip4 z = 0x0a000005" "if_ip (r_ifaces s ! 0) = 0x0a000001"
    using ask_pends by auto
  then show ?thesis
    using pending_resolved [OF s(2) reply_facts(1-3), of 0] by (auto simp: reply_facts)
qed

lemma burst_given_up_witness:
  "\<exists>s' outs. arpcache_sweep_exp6 (fold (iface_send_packet_by_arp_exp6 0 0x0a000005) (replicate 5 demo_echo) demo_router)
      = Some s' \<and> r_reqs s' = [] \<and> length outs = 5 \<and>
    list_all2 (host_report (\<lambda>_. demo_route) (\<lambda>_. demo_mac) demo_router) (replicate 5 demo_echo) outs"
proof -
  have "reportable (\<lambda>_. demo_route) (\<lambda>_. demo_mac) demo_router demo_echo"
    using demo_facts by (simp add: reportable_def reachable_via_def)
  moreover have "\<not> cached 0x0a000005 (r_entries demo_router)" "r_reqs demo_router = []"
    "length (if_mac (r_ifaces demo_router ! 0)) = 6" "\<forall>c \<in> set (r_entries demo_router). r_now demo_router - ac_added c \<le> 15"
    by (simp_all add: demo_router_def cached_def)
  ultimately obtain s' outs where
    "arpcache_sweep_exp6 (fold (iface_send_packet_by_arp_exp6 0 0x0a000005) (replicate 5 demo_echo) demo_router) = Some s'"
    "r_reqs s' = []" "list_all2 (host_report (\<lambda>_. demo_route) (\<lambda>_. demo_mac) demo_router) (replicate 5 demo_echo) outs"
    using burst_given_up [where ?ip4.0 = "0x0a000005" and ps = "replicate 5 demo_echo" and s = demo_router and i = 0
        and e = "\<lambda>_. demo_route" and mac = "\<lambda>_. demo_mac"]
    by auto
  then show ?thesis using list_all2_lengthD by fastforce
qed

text \<open>Packets that arrive one after the other on interface 0.\<close>

fun arrive :: "bytes list \<Rightarrow> router \<Rightarrow> router option" where
  "arrive [] s = Some s"
| "arrive (p # ps) s = Option.bind (handle_packet_exp6 0 p s) (arrive ps)"

lemma arrive_run: "arrive ps s = Some s' \<Longrightarrow> router_run s \<Longrightarrow> router_run s'"
  by (induction ps arbitrary: s) (auto split: bind_splits intro: router_run.packet)

text \<open>A UDP packet from the router's address 10.0.0.1 to itself.\<close>

definition demo_self :: bytes where
  "demo_self = st8 (st32 (st32 demo_echo 26 (htonl 0x0a000001)) 34 (htonl 0x00350035)) 23 17"

lemma self_burst:
  "\<exists>s q. arrive (replicate 5 demo_self) demo_static = Some s \<and> router_run s \<and> r_reqs s = [q] \<and>
    rq_retries q = 5 \<and> rq_ip4 q = 0x0a000001 \<and> length (rq_packets q) = 5 \<and>
    (\<forall>p \<in> set (rq_packets q). from_self 0x0a000001 p) \<and> own_route 0x0a000001 s"
proof -
  let ?a = "arrive (replicate 5 demo_self) demo_static"
  have "case ?a of None \<Rightarrow> False | Some s \<Rightarrow> map rq_ip4 (r_reqs s) = [0x0a000001] \<and>
      list_all (\<lambda>q. rq_retries q = 5 \<and> length (rq_packets q) = 5 \<and> list_all (from_self 0x0a000001) (rq_packets q)) (r_reqs s) \<and>
      longest_prefix_match 0x0a000001 s = Some demo_route \<and> if_ip (r_ifaces s ! 0) = 0x0a000001 \<and>
      length (if_mac (r_ifaces s ! 0)) = 6"
    by code_simp
  then obtain s where s: "?a = Some s" and q1: "map rq_ip4 (r_reqs s) = [0x0a000001]" and
    q2: "list_all (\<lambda>q. rq_retries q = 5 \<and> length (rq_packets q) = 5 \<and> list_all (from_self 0x0a000001) (rq_packets q)) (r_reqs s)" and
    lpm: "longest_prefix_match 0x0a000001 s = Some demo_route" and
    f: "if_ip (r_ifaces s ! 0) = 0x0a000001 \<and> length (if_mac (r_ifaces s ! 0)) = 6"
    by (cases ?a) (simp_all only: option.case)
  have run: "router_run s" by (rule arrive_run [OF s]) (simp add: demo_static_def router_run.start)
  from f have own: "own_route 0x0a000001 s"
    unfolding own_route_def by (intro exI [of _ demo_route]) (simp add: lpm demo_route_def get_next_hop_def)
  obtain q where "r_reqs s = [q]" using q1 by (cases "r_reqs s") auto
  then show ?thesis
    using s run q1 q2 own by (intro exI [of _ s] exI [of _ q]) (simp add: list_all_iff)
qed

lemma sweep_hangs_witness:
  "\<exists>s. arrive (replicate 5 demo_self) demo_static = Some s \<and> router_run s \<and> arpcache_sweep_exp6 s = None"
proof -
  obtain s q where s: "arrive (replicate 5 demo_self) demo_static = Some s" "router_run s" "r_reqs s = [q]"
    "rq_retries q = 5" "rq_ip4 q = 0x0a000001" "length (rq_packets q) = 5"
    "\<forall>p \<in> set (rq_packets q). from_self 0x0a000001 p" "own_route 0x0a000001 s"
    using self_burst by metis
  have "arpcache_sweep_exp6 s = None"
    by (rule sweep_hangs [OF s(2,3)]) (simp_all add: s)
  then show ?thesis using s(1,2) by (intro exI [of _ s] conjI)
qed

definition demo_expired :: bytes where "demo_expired = st8 (st32 demo_echo 30 (htonl 0x0a000009)) 22 0"

lemma forwarding_agrees_witness:
  "\<exists>q. ip_forward_packet_exp6 0x0a000009 demo_expired demo_router = Some (demo_router \<lparr>r_out := [(0, q)]\<rparr>) \<and>
    ip_ttl q = 255"
proof -
  have p: "ip_hdr_ok demo_expired" "ip_ttl demo_expired = 0" "ntohl (ip_daddr demo_expired) = 0x0a000009" by code_simp+
  have "reachable_via (ntohl (ip_daddr demo_expired)) demo_route demo_mac demo_router"
    unfolding p(3) using demo_facts by (simp add: reachable_via_def)
  from forwarding_agrees [OF p(1) this] show ?thesis
    unfolding p by (auto simp: demo_route_def demo_router_def)
qed

end
