(* ===== verification/WordCount.thy ===== *)
theory WordCount imports Bytes begin

text \<open>The distributed letter count (\<open>exp2/code\<close>: \<open>worker.c\<close>, \<open>master.c\<close>). The master counts the
  lines of a file and gives each of two workers half of them; a worker counts the letters of its
  lines. A file system maps a path to the contents of the file; what the sockets carry is handed
  over as a whole. A file that cannot be opened (a null stream is read) and a path that does not
  fit its buffer are \<open>None\<close>.\<close>

section \<open>C strings and \<open>fgets\<close>\<close>

definition strlen :: "bytes \<Rightarrow> nat" where
  "strlen buf = length (takeWhile (\<lambda>c. c \<noteq> 0) buf)"

text \<open>At most \<open>n\<close> bytes, up to and with the first newline, and the rest.\<close>

fun take_line :: "nat \<Rightarrow> bytes \<Rightarrow> bytes \<times> bytes" where
  "take_line 0 cs = ([], cs)"
| "take_line (Suc n) [] = ([], [])"
| "take_line (Suc n) (c # cs) =
     (if c = 10 then ([c], cs) else let (l, r) = take_line n cs in (c # l, r))"

text \<open>\<open>fgets(buf, 2000, f)\<close> on the unread contents of the file; at its end the buffer stays.\<close>

definition fgets :: "bytes \<Rightarrow> bytes \<Rightarrow> (bytes \<times> bytes) option" where
  "fgets buf cs = (if cs = [] then None else let (l, r) = take_line 1999 cs in Some (blit buf 0 (l @ [0]), r))"

section \<open>The worker\<close>

function low_from :: "nat \<Rightarrow> bytes \<Rightarrow> bytes" where
  "low_from i message =
     (if i < strlen message then
        low_from (i + 1) (message[i := (if message ! i \<ge> 65 \<and> message ! i \<le> 90
          then 97 + message ! i - 65 else message ! i)])
      else message)"
  by pat_completeness auto

lemma strlen_le: "strlen buf \<le> length buf"
  by (simp add: strlen_def length_takeWhile_le)

termination low_from
  by (relation "measure (\<lambda>(i, m). length m - i)") (use strlen_le in \<open>auto intro: diff_less_mono2 order_less_le_trans\<close>)

declare low_from.simps [simp del]

definition low :: "bytes \<Rightarrow> bytes" where "low message = low_from 0 message"

fun stat_loop :: "nat \<Rightarrow> nat \<Rightarrow> bytes \<Rightarrow> int list \<Rightarrow> int list" where
  "stat_loop i 0 message stat = stat"
| "stat_loop i (Suc n) message stat =
     (let c = message ! i; key = (if c \<ge> 97 \<and> c \<le> 122 then unat c - 97 else 26)
      in stat_loop (i + 1) n message (if key \<noteq> 26 then stat[key := stat ! key + 1] else stat))"

definition stat_char :: "bytes \<Rightarrow> int list \<Rightarrow> bytes \<times> int list" where
  "stat_char message stat =
     (let message = low message in (message, stat_loop 0 (strlen message) message stat))"

text \<open>The loop that skips lines and the loop that counts them. The result of \<open>fgets\<close> is not
  tested: at the end of the file the buffer holds the last line still.\<close>

fun skip_lines :: "nat \<Rightarrow> bytes \<Rightarrow> bytes \<Rightarrow> bytes \<times> bytes" where
  "skip_lines 0 buf cs = (buf, cs)"
| "skip_lines (Suc n) buf cs =
     (case fgets buf cs of None \<Rightarrow> skip_lines n buf cs | Some (buf, cs) \<Rightarrow> skip_lines n buf cs)"

fun count_lines :: "nat \<Rightarrow> bytes \<Rightarrow> bytes \<Rightarrow> int list \<Rightarrow> int list" where
  "count_lines 0 buf cs stat = stat"
| "count_lines (Suc n) buf cs stat =
     (let (buf, cs) = (case fgets buf cs of None \<Rightarrow> (buf, cs) | Some r \<Rightarrow> r);
          (buf, stat) = stat_char buf stat
      in count_lines n buf cs stat)"

record send_package =
  sp_locate :: bytes
  sp_start :: nat
  sp_end :: nat

definition worker :: "(bytes \<Rightarrow> bytes option) \<Rightarrow> send_package \<Rightarrow> int list option" where
  "worker fs sp =
     (case fs (takeWhile (\<lambda>c. c \<noteq> 0) (sp_locate sp)) of
        None \<Rightarrow> None
      | Some cs \<Rightarrow>
          let (buf, cs) = skip_lines (sp_start sp) (replicate 2000 0) cs
          in Some (count_lines (sp_end sp - sp_start sp) buf cs (replicate 26 0)))"

section \<open>The master\<close>

lemma take_line_append: "take_line n cs = (l, r) \<Longrightarrow> l @ r = cs"
  by (induction n cs arbitrary: l r rule: take_line.induct) (auto split: if_splits prod.splits)

lemma take_line_progress: "cs \<noteq> [] \<Longrightarrow> length (snd (take_line (Suc n) cs)) < length cs"
  using take_line_append [of "Suc n" cs] by (cases cs) (force split: prod.split)+

function lines_of :: "bytes \<Rightarrow> bytes \<Rightarrow> nat" where
  "lines_of buf cs = (case fgets buf cs of None \<Rightarrow> 0 | Some (buf', cs') \<Rightarrow> lines_of (replicate 2000 0) cs' + 1)"
  by pat_completeness auto
termination lines_of
  using take_line_progress [of _ 1998]
  by (relation "measure (\<lambda>(buf, cs). length cs)") (auto simp: fgets_def split: if_splits prod.splits, force)

declare lines_of.simps [simp del]

text \<open>The loop over the workers \<open>to\<close>, at the line \<open>start\<close>; each is a file system of its own.\<close>

fun ask_workers :: "(bytes \<Rightarrow> bytes option) list \<Rightarrow> bytes \<Rightarrow> nat \<Rightarrow> nat \<Rightarrow> int list \<Rightarrow> int list option" where
  "ask_workers [] locate start offset stat = Some stat"
| "ask_workers (fs # to) locate start offset stat =
     (case worker fs \<lparr>sp_locate = locate, sp_start = start, sp_end = start + offset\<rparr> of
        None \<Rightarrow> None
      | Some worker_stat \<Rightarrow>
          ask_workers to locate (start + offset) offset (map2 (+) stat worker_stat))"

text \<open>\<open>buf\<close> is the contents of the uninitialised buffer.\<close>

definition master :: "(bytes \<Rightarrow> bytes option) \<Rightarrow> (bytes \<Rightarrow> bytes option) \<Rightarrow> (bytes \<Rightarrow> bytes option) \<Rightarrow> bytes \<Rightarrow>
    bytes \<Rightarrow> int list option" where
  "master fs worker0 worker1 buf arg =
     (case fs arg of
        None \<Rightarrow> None
      | Some cs \<Rightarrow>
          let line = lines_of buf cs; offset = line div 2;
              s_p = [46, 47] @ arg
          in if length s_p + 1 > 200 then None
             else ask_workers [worker0, worker1] (s_p @ replicate (200 - length s_p) 0) 0 offset (replicate 26 0))"

section \<open>Lower case and counting\<close>

definition lower :: "u8 \<Rightarrow> u8" where
  "lower c = (if c \<ge> 65 \<and> c \<le> 90 then 97 + c - 65 else c)"

text \<open>The letter number \<open>k\<close> of the alphabet in a text, in either case.\<close>

definition letters :: "nat \<Rightarrow> bytes \<Rightarrow> nat" where
  "letters k cs = length (filter (\<lambda>c. unat (lower c) = 97 + k) cs)"

lemma letters_append: "letters k (a @ b) = letters k a + letters k b"
  by (simp add: letters_def)

text \<open>A buffer that holds the text \<open>l\<close>.\<close>

definition holds :: "bytes \<Rightarrow> bytes \<Rightarrow> bool" where
  "holds l buf \<longleftrightarrow> length buf = 2000 \<and> 0 \<notin> set l \<and> (\<exists>r. buf = l @ 0 # r)"

lemma strlen_text: "0 \<notin> set l \<Longrightarrow> strlen (l @ 0 # r) = length l"
  by (induction l) (auto simp: strlen_def)

lemma lower_nonzero: "c \<noteq> 0 \<Longrightarrow> lower c \<noteq> 0"
  by (auto simp: lower_def word_le_nat_alt unat_eq_0 [symmetric] unat_word_ariths)

lemma low_from_text:
  "0 \<notin> set a \<Longrightarrow> 0 \<notin> set b \<Longrightarrow> low_from (length a) (a @ b @ 0 # r) = a @ map lower b @ 0 # r"
proof (induction b arbitrary: a)
  case Nil
  then show ?case by (subst low_from.simps) (simp add: strlen_text)
next
  case (Cons c b)
  have "strlen (a @ (c # b) @ 0 # r) = length a + Suc (length b)"
    using Cons.prems strlen_text [of "a @ c # b"] by simp
  then have "low_from (length a) (a @ (c # b) @ 0 # r) = low_from (length (a @ [lower c])) ((a @ [lower c]) @ b @ 0 # r)"
    by (subst low_from.simps) (simp add: lower_def list_update_append)
  also have "\<dots> = (a @ [lower c]) @ map lower b @ 0 # r"
    using Cons.prems lower_nonzero by (intro Cons.IH) auto
  finally show ?case by simp
qed

definition bump :: "u8 \<Rightarrow> int list \<Rightarrow> int list" where
  "bump c stat = (if c \<ge> 97 \<and> c \<le> 122 then stat[unat c - 97 := stat ! (unat c - 97) + 1] else stat)"

lemma stat_loop_fold: "stat_loop (length a) (length b) (a @ b @ r) stat = fold bump b stat"
proof (induction b arbitrary: a stat)
  case (Cons c b)
  have "unat c - 97 \<noteq> 26" if "c \<le> 122" using that by (simp add: word_le_nat_alt)
  then have "stat_loop (length a) (length (c # b)) (a @ (c # b) @ r) stat =
      stat_loop (length (a @ [c])) (length b) ((a @ [c]) @ b @ r) (bump c stat)"
    by (auto simp: bump_def Let_def)
  then show ?case using Cons.IH [of "a @ [c]" "bump c stat"] by simp
qed simp

lemma fold_bump:
  "length stat = 26 \<Longrightarrow> k < 26 \<Longrightarrow> length (fold bump b stat) = 26 \<and>
     fold bump b stat ! k = stat ! k + int (length (filter (\<lambda>c. unat c = 97 + k) b))"
proof (induction b arbitrary: stat)
  case (Cons c b)
  have "length (bump c stat) = 26" "bump c stat ! k = stat ! k + (if unat c = 97 + k then 1 else 0)"
    using Cons.prems by (auto simp: bump_def word_le_nat_alt nth_list_update)
  then show ?case using Cons.IH [of "bump c stat"] Cons.prems(2) by simp
qed simp

lemma stat_char_text:
  assumes "holds l buf" "length stat = 26" "k < 26"
  shows "length (fst (stat_char buf stat)) = 2000 \<and> length (snd (stat_char buf stat)) = 26 \<and>
    snd (stat_char buf stat) ! k = stat ! k + int (letters k l)"
proof -
  obtain r where buf: "buf = l @ 0 # r" "0 \<notin> set l" "length buf = 2000" using assms(1) by (auto simp: holds_def)
  have low: "low buf = map lower l @ 0 # r" using low_from_text [of "[]" l r] buf by (simp add: low_def)
  have "0 \<notin> set (map lower l)" using buf(2) by (auto dest: lower_nonzero [THEN not_sym] simp: image_iff) (metis lower_nonzero)
  then have "snd (stat_char buf stat) = fold bump (map lower l) stat"
    using stat_loop_fold [of "[]" "map lower l" "0 # r" stat]
    by (simp add: stat_char_def low strlen_text)
  then show ?thesis
    using fold_bump [OF assms(2,3), of "map lower l"] buf low
    by (simp add: stat_char_def letters_def filter_map comp_def Let_def)
qed

section \<open>Lines\<close>

text \<open>The pieces \<open>fgets\<close> reads: lines, long ones cut after 1999 bytes.\<close>

function chunks :: "bytes \<Rightarrow> bytes list" where
  "chunks cs = (if cs = [] then [] else fst (take_line 1999 cs) # chunks (snd (take_line 1999 cs)))"
  by pat_completeness auto
termination chunks
  using take_line_progress [of _ 1998] by (relation "measure length") auto

declare chunks.simps [simp del]

lemma chunks_Nil [simp]: "chunks [] = []"
  by (simp add: chunks.simps)

lemma chunks_step: "cs \<noteq> [] \<Longrightarrow> chunks cs = fst (take_line 1999 cs) # chunks (snd (take_line 1999 cs))"
  by (subst chunks.simps) simp

lemma concat_chunks: "concat (chunks cs) = cs"
proof (induction cs rule: chunks.induct)
  case (1 cs)
  show ?case
    using 1 take_line_append [of 1999 cs] by (subst chunks.simps) (auto simp: prod_eq_iff)
qed

lemma take_line_length: "length (fst (take_line n cs)) \<le> n"
  by (induction n cs rule: take_line.induct) (auto split: prod.split)

lemma fgets_text:
  assumes "length buf = 2000" "0 \<notin> set cs" "cs \<noteq> []"
  shows "\<exists>buf'. fgets buf cs = Some (buf', snd (take_line 1999 cs)) \<and> holds (fst (take_line 1999 cs)) buf'"
proof -
  obtain l r where lr: "take_line 1999 cs = (l, r)" by fastforce
  have l: "length l \<le> 1999" "0 \<notin> set l"
    using take_line_length [of 1999 cs] take_line_append [OF lr] assms(2) lr by auto
  have "blit buf 0 (l @ [0]) = l @ 0 # drop (Suc (length l)) buf" by (simp add: blit_def)
  moreover have "length (blit buf 0 (l @ [0])) = 2000" using l assms(1) by (simp add: length_blit)
  ultimately show ?thesis using lr l assms(3) by (auto simp: fgets_def holds_def)
qed

lemma lines_of_chunks: "lines_of buf cs = length (chunks cs)"
proof (induction cs arbitrary: buf rule: chunks.induct)
  case (1 cs)
  show ?case
    using 1 by (subst lines_of.simps, subst chunks.simps) (auto simp: fgets_def split: prod.split)
qed

lemma text_rest: "0 \<notin> set cs \<Longrightarrow> 0 \<notin> set (snd (take_line 1999 cs))"
  using take_line_append [of 1999 cs] by (cases "take_line 1999 cs") auto

lemma skip_lines_text:
  "length buf = 2000 \<Longrightarrow> 0 \<notin> set cs \<Longrightarrow> n \<le> length (chunks cs) \<Longrightarrow>
   \<exists>buf'. length buf' = 2000 \<and> skip_lines n buf cs = (buf', concat (drop n (chunks cs)))"
proof (induction n arbitrary: buf cs)
  case 0
  then show ?case by (simp add: concat_chunks)
next
  case (Suc n)
  then have cs: "cs \<noteq> []" by auto
  from fgets_text [OF Suc.prems(1,2) cs] obtain buf' where
    "fgets buf cs = Some (buf', snd (take_line 1999 cs))" "length buf' = 2000" by (auto simp: holds_def)
  then show ?case
    using Suc.IH [of buf' "snd (take_line 1999 cs)"] Suc.prems cs text_rest [OF Suc.prems(2)]
      chunks_step [OF cs] by simp
qed

lemma chunks_drop: "chunks (concat (drop n (chunks cs))) = drop n (chunks cs)"
proof (induction n arbitrary: cs)
  case 0
  then show ?case by (simp add: concat_chunks)
next
  case (Suc n)
  show ?case using Suc [of "snd (take_line 1999 cs)"] chunks_step [of cs] by (cases "cs = []") simp_all
qed

lemma count_lines_text:
  assumes "k < 26"
  shows "length buf = 2000 \<Longrightarrow> 0 \<notin> set cs \<Longrightarrow> n \<le> length (chunks cs) \<Longrightarrow> length stat = 26 \<Longrightarrow>
    length (count_lines n buf cs stat) = 26 \<and>
    count_lines n buf cs stat ! k = stat ! k + int (letters k (concat (take n (chunks cs))))"
proof (induction n arbitrary: buf cs stat)
  case (Suc n)
  then have cs: "cs \<noteq> []" by auto
  from fgets_text [OF Suc.prems(1,2) cs] obtain buf' where
    b: "fgets buf cs = Some (buf', snd (take_line 1999 cs))" "holds (fst (take_line 1999 cs)) buf'" by blast
  note st = stat_char_text [OF b(2) Suc.prems(4) assms]
  show ?case
    using Suc.IH [of "fst (stat_char buf' stat)" "snd (take_line 1999 cs)" "snd (stat_char buf' stat)"] st b(1)
      Suc.prems text_rest [OF Suc.prems(2)] chunks_step [OF cs]
    by (simp add: split_beta letters_append)
qed (simp add: letters_def)

lemma worker_text:
  assumes "fs path = Some cs" "0 \<notin> set cs" "0 \<notin> set path" "e \<le> length (chunks cs)" "b \<le> e"
  shows "\<exists>stat. worker fs \<lparr>sp_locate = path @ 0 # pad, sp_start = b, sp_end = e\<rparr> = Some stat \<and> length stat = 26 \<and>
    (\<forall>k < 26. stat ! k = int (letters k (concat (take (e - b) (drop b (chunks cs))))))"
proof -
  have "takeWhile (\<lambda>c. c \<noteq> 0) (path @ 0 # pad) = path"
    using assms(3) by (subst takeWhile_append2) auto
  moreover obtain buf where buf: "length buf = 2000"
    "skip_lines b (replicate 2000 0) cs = (buf, concat (drop b (chunks cs)))"
    using skip_lines_text [of "replicate 2000 0" cs b] assms(2,4,5) by auto
  moreover have "0 \<notin> set (concat (drop b (chunks cs)))"
    using assms(2) by (metis append_take_drop_id concat_append concat_chunks UnI2 set_append)
  ultimately have "length (count_lines (e - b) buf (concat (drop b (chunks cs))) (replicate 26 0)) = 26 \<and>
      count_lines (e - b) buf (concat (drop b (chunks cs))) (replicate 26 0) ! k =
        int (letters k (concat (take (e - b) (drop b (chunks cs)))))" if "k < 26" for k
    using that assms(4) count_lines_text [OF that buf(1), of "concat (drop b (chunks cs))" "e - b" "replicate 26 0"]
    by (simp add: chunks_drop)
  from this [of 0] this show ?thesis
    using \<open>takeWhile _ _ = path\<close> buf(2) assms(1) by (simp add: worker_def)
qed

section \<open>The result\<close>

lemma map2_add_nth: "length a = 26 \<Longrightarrow> length b = 26 \<Longrightarrow> k < 26 \<Longrightarrow> map2 (+) a b ! k = a ! k + (b ! k :: int)"
  by simp

text \<open>C31. On a text all three programs can read, the master's result counts every letter of the file,
  in either case, in all lines but one: the file is split into two halves of equal length, so the
  last of an odd number of lines is not counted. Lines longer than 1999 bytes count as several,
  which changes nothing in the sum.\<close>

theorem odd_line_lost:
  assumes "fs arg = Some cs" "w0 ([46, 47] @ arg) = Some cs" "w1 ([46, 47] @ arg) = Some cs"
    and "0 \<notin> set cs" "0 \<notin> set arg" "length arg \<le> 197"
  shows "\<exists>stat. master fs w0 w1 buf arg = Some stat \<and> length stat = 26 \<and> concat (chunks cs) = cs \<and>
    (\<forall>k < 26. stat ! k = int (letters k cs) -
      (if odd (length (chunks cs)) then int (letters k (last (chunks cs))) else 0))"
proof -
  let ?n = "length (chunks cs)" let ?o = "?n div 2"
  define path where "path = [46, 47] @ arg"
  define pad :: bytes where "pad = replicate (197 - length arg) 0"
  have len: "length path = Suc (Suc (length arg))" by (simp add: path_def)
  have path: "0 \<notin> set path" "path @ replicate (198 - length arg) 0 = path @ 0 # pad"
    using assms(5,6) by (auto simp: path_def pad_def Suc_diff_le replicate_Suc [symmetric] simp del: replicate_Suc)
  obtain s0 where s0: "worker w0 \<lparr>sp_locate = path @ 0 # pad, sp_start = 0, sp_end = ?o\<rparr> = Some s0" "length s0 = 26"
    "\<forall>k < 26. s0 ! k = int (letters k (concat (take ?o (chunks cs))))"
    using worker_text [where fs = w0 and path = path, OF assms(2) [folded path_def] assms(4) path(1), of ?o 0] by auto
  have oo: "?o + ?o \<le> ?n" by linarith
  obtain s1 where s1: "worker w1 \<lparr>sp_locate = path @ 0 # pad, sp_start = ?o, sp_end = ?o + ?o\<rparr> = Some s1" "length s1 = 26"
    "\<forall>k < 26. s1 ! k = int (letters k (concat (take ?o (drop ?o (chunks cs)))))"
    using worker_text [where fs = w1 and path = path, OF assms(3) [folded path_def] assms(4) path(1) oo, of ?o pad] by auto
  define r where "r = map2 (+) (map2 (+) (replicate 26 0) s0) s1"
  have run: "master fs w0 w1 buf arg = Some r"
    using assms(1,6) s0(1) s1(1) path(2) by (simp add: master_def lines_of_chunks Let_def r_def path_def [symmetric] len del: append_Cons append_Nil)
  have halves: "concat (take ?o (chunks cs)) @ concat (take ?o (drop ?o (chunks cs))) = concat (take (?o + ?o) (chunks cs))"
    by (simp add: take_add)
  have all: "int (letters k (concat (take (?o + ?o) (chunks cs)))) =
      int (letters k cs) - (if odd ?n then int (letters k (last (chunks cs))) else 0)" for k
  proof (cases "odd ?n")
    case True
    then have "?o + ?o = ?n - 1" "chunks cs \<noteq> []" by (auto elim: oddE)
    then have "take (?o + ?o) (chunks cs) = butlast (chunks cs)" by (simp only: butlast_conv_take)
    moreover have "concat (butlast (chunks cs)) @ last (chunks cs) = cs"
      using concat_append [of "butlast (chunks cs)" "[last (chunks cs)]"] \<open>chunks cs \<noteq> []\<close>
      by (simp add: concat_chunks)
    then have "letters k cs = letters k (concat (butlast (chunks cs))) + letters k (last (chunks cs))"
      by (metis letters_append)
    ultimately show ?thesis using True by simp
  next
    case False
    then have "?o + ?o = ?n" by auto
    then show ?thesis using False concat_chunks [of cs] by simp
  qed
  have "r ! k = int (letters k (concat (take (?o + ?o) (chunks cs))))" if "k < 26" for k
    using that s0(2,3) s1(2,3) by (simp add: r_def halves [symmetric] letters_append)
  then show ?thesis
    using run s0(2) s1(2) all concat_chunks by (intro exI [of _ r]) (simp add: r_def)
qed

text \<open>The text \<open>ab\<close>, \<open>B\<close>, \<open>c\<close> in three lines: the \<open>c\<close> is lost.\<close>

lemma odd_line_lost_witness:
  "\<exists>stat. master (\<lambda>_. Some [97, 98, 10, 66, 10, 99]) (\<lambda>_. Some [97, 98, 10, 66, 10, 99])
      (\<lambda>_. Some [97, 98, 10, 66, 10, 99]) [] [120] = Some stat \<and> take 3 stat = [1, 2, 0]"
proof -
  let ?cs = "[97, 98, 10, 66, 10, 99] :: bytes" let ?f = "\<lambda>_ :: bytes. Some ?cs"
  have chunks: "chunks ?cs = [[97, 98, 10], [66, 10], [99]]" by code_simp
  have lets: "letters 0 ?cs = 1" "letters 1 ?cs = 2" "letters 2 ?cs = 1" "letters 0 [99] = 0" "letters 1 [99] = 0" "letters 2 [99] = 1"
    by code_simp+
  obtain stat where run: "master ?f ?f ?f [] [120] = Some stat" and "length stat = 26" and
    k: "\<forall>k < 26. stat ! k = int (letters k ?cs) - (if odd (length (chunks ?cs)) then int (letters k (last (chunks ?cs))) else 0)"
    using odd_line_lost [of ?f "[120]" ?cs ?f ?f "[]"] by auto
  from k have diff: "stat ! k = int (letters k ?cs) - int (letters k [99])" if "k < 26" for k
    using that by (simp only: chunks) simp
  have "stat ! 0 = 1" using diff [of 0] lets by simp
  moreover have "stat ! 1 = 2" using diff [of 1] lets by simp
  moreover have "stat ! 2 = 0" using diff [of 2] lets by simp
  moreover have "take 3 stat = [stat ! 0, stat ! 1, stat ! 2]"
    using \<open>length stat = 26\<close> by (intro nth_equalityI) (auto simp: less_Suc_eq numeral_eq_Suc)
  ultimately show ?thesis using run by (intro exI [of _ stat]) simp
qed

end
