(* ===== verification/Hub.thy ===== *)
theory Hub imports NetPrelude "HOL-Library.Multiset" begin

text \<open>The hub (\<open>exp3/main.c\<close>), which sends every frame on all interfaces but its own, and what hubs do
  in the ring of \<open>topo_cycle.py\<close>.\<close>

section \<open>The hub\<close>

record hub_iface =
  hi_fd :: int
  hi_index :: int
  hi_mac :: mac_addr
  hi_name :: string

text \<open>A hub is the list \<open>instance->iface_list\<close>, a pointer to an interface its position or null. A frame
  that is sent is given with the socket and the index of its address.\<close>

type_synonym hub = "hub_iface list"

fun fd_to_iface :: "int \<Rightarrow> hub \<Rightarrow> nat option" where
  "fd_to_iface fd [] = None"
| "fd_to_iface fd (iface # hub) = (if hi_fd iface = fd then Some 0 else map_option Suc (fd_to_iface fd hub))"

definition iface_send_packet_exp3 :: "hub_iface \<Rightarrow> u8 list \<Rightarrow> int \<times> int \<times> u8 list" where
  "iface_send_packet_exp3 iface packet = (hi_fd iface, hi_index iface, packet)"

fun broadcast_from :: "nat \<Rightarrow> nat option \<Rightarrow> u8 list \<Rightarrow> hub \<Rightarrow> (int \<times> int \<times> u8 list) list" where
  "broadcast_from k iface packet [] = []"
| "broadcast_from k iface packet (ift # hub) =
     (if Some k \<noteq> iface then iface_send_packet_exp3 ift packet # broadcast_from (k + 1) iface packet hub
      else broadcast_from (k + 1) iface packet hub)"

definition broadcast_packet_exp3 :: "nat option \<Rightarrow> u8 list \<Rightarrow> hub \<Rightarrow> (int \<times> int \<times> u8 list) list" where
  "broadcast_packet_exp3 iface packet hub = broadcast_from 0 iface packet hub"

definition handle_packet_exp3 :: "nat option \<Rightarrow> u8 list \<Rightarrow> hub \<Rightarrow> (int \<times> int \<times> u8 list) list" where
  "handle_packet_exp3 iface packet hub = broadcast_packet_exp3 iface packet hub"

text \<open>The body of the loop of \<open>ustack_run\<close> for a readable socket: the kernel's result \<open>len\<close>, whether the
  frame is one that was sent, and the frame.\<close>

definition ustack_receive :: "hub \<Rightarrow> int \<Rightarrow> int \<Rightarrow> bool \<Rightarrow> u8 list \<Rightarrow> (int \<times> int \<times> u8 list) list" where
  "ustack_receive hub fd len outgoing packet =
     (if len \<le> 0 then [] else if outgoing then [] else handle_packet_exp3 (fd_to_iface fd hub) packet hub)"

section \<open>What a hub sends\<close>

lemma broadcast_from_null: "broadcast_from k None packet hub = map (\<lambda>i. iface_send_packet_exp3 i packet) hub"
  by (induction hub arbitrary: k) simp_all

lemma broadcast_from_map:
  "broadcast_from k (Some i) packet hub =
     map (\<lambda>j. iface_send_packet_exp3 (hub ! j) packet) (filter (\<lambda>j. j + k \<noteq> i) [0..<length hub])"
proof (induction hub arbitrary: k)
  case (Cons ift hub)
  have "[0..<length (ift # hub)] = 0 # map Suc [0..<length hub]" by (simp add: upt_conv_Cons map_Suc_upt del: upt_Suc)
  then show ?case by (auto simp: Cons.IH filter_map comp_def)
qed simp

lemma fd_to_iface_nth:
  "distinct (map hi_fd hub) \<Longrightarrow> i < length hub \<Longrightarrow> fd_to_iface (hi_fd (hub ! i)) hub = Some i"
proof (induction hub arbitrary: i)
  case (Cons a hub)
  then show ?case by (cases i) (auto simp: image_iff)
qed simp

lemma receive_sends:
  assumes "distinct (map hi_fd hub)" "i < length hub" "0 < len"
  shows "ustack_receive hub (hi_fd (hub ! i)) len False packet =
    map (\<lambda>j. (hi_fd (hub ! j), hi_index (hub ! j), packet)) (filter (\<lambda>j. j \<noteq> i) [0..<length hub])"
  using assms broadcast_from_map [of 0 i packet hub] fd_to_iface_nth [OF assms(1,2)]
  by (simp add: ustack_receive_def handle_packet_exp3_def broadcast_packet_exp3_def iface_send_packet_exp3_def)

section \<open>Hubs in a ring\<close>

text \<open>Hubs are numbered, and so are the ports of each, which are its interfaces in order. A wire leads
  from a port to a port of another hub; a port without one has a host. In a network frames are on
  their way to a port, or have been heard by the host at a port.\<close>

record hub_net =
  flying :: "(nat \<times> nat \<times> u8 list) multiset"
  heard :: "(nat \<times> nat \<times> u8 list) multiset"

definition port_of_fd :: "hub \<Rightarrow> int \<Rightarrow> nat" where
  "port_of_fd hub fd = the (fd_to_iface fd hub)"

text \<open>A frame on its way is received; the hub's copies go where the wires lead.\<close>

definition sent_to :: "(nat \<times> nat \<Rightarrow> (nat \<times> nat) option) \<Rightarrow> nat \<Rightarrow> hub \<Rightarrow> (int \<times> int \<times> u8 list) list \<Rightarrow>
    (nat \<times> nat \<times> u8 list) multiset \<times> (nat \<times> nat \<times> u8 list) multiset" where
  "sent_to wire h hub out =
     (let copies = map (\<lambda>(fd, idx, p). (port_of_fd hub fd, p)) out
      in (mset (List.map_filter (\<lambda>(q, p). map_option (\<lambda>(h', q'). (h', q', p)) (wire (h, q))) copies),
          mset (map (\<lambda>(q, p). (h, q, p)) (filter (\<lambda>(q, p). wire (h, q) = None) copies))))"

inductive net_step :: "hub list \<Rightarrow> (nat \<times> nat \<Rightarrow> (nat \<times> nat) option) \<Rightarrow> hub_net \<Rightarrow> hub_net \<Rightarrow> bool"
  for hubs wire where
  receive: "(h, q, p) \<in># flying s \<Longrightarrow>
     sent_to wire h (hubs ! h) (ustack_receive (hubs ! h) (hi_fd (hubs ! h ! q)) (int (length p)) False p) = (out, ears) \<Longrightarrow>
     net_step hubs wire s \<lparr>flying = flying s - {#(h, q, p)#} + out, heard = heard s + ears\<rparr>"

inductive net_steps :: "hub list \<Rightarrow> (nat \<times> nat \<Rightarrow> (nat \<times> nat) option) \<Rightarrow> nat \<Rightarrow> hub_net \<Rightarrow> hub_net \<Rightarrow> bool"
  for hubs wire where
  none: "net_steps hubs wire 0 s s"
| more: "net_steps hubs wire k s t \<Longrightarrow> net_step hubs wire t u \<Longrightarrow> net_steps hubs wire (Suc k) s u"

text \<open>A ring of \<open>n\<close> hubs: port 0 leads to port 1 of the next hub and port 1 back; the others have hosts.\<close>

definition ring_wire :: "nat \<Rightarrow> nat \<times> nat \<Rightarrow> (nat \<times> nat) option" where
  "ring_wire n hq = (let (h, q) = hq in
     if q = 0 then Some (Suc h mod n, 1) else if q = 1 then Some ((h + n - 1) mod n, 0) else None)"

definition hub_ok :: "hub \<Rightarrow> bool" where
  "hub_ok hub \<longleftrightarrow> 2 \<le> length hub \<and> distinct (map hi_fd hub)"

text \<open>The frames the hosts of hub \<open>h\<close> hear when it receives one at port \<open>q\<close>.\<close>

definition ears :: "hub list \<Rightarrow> nat \<Rightarrow> nat \<Rightarrow> u8 list \<Rightarrow> (nat \<times> nat \<times> u8 list) multiset" where
  "ears hubs h q p = mset (map (\<lambda>j. (h, j, p)) (filter (\<lambda>j. j \<noteq> q) [2..<length (hubs ! h)]))"

lemma map_filter_append: "List.map_filter f (xs @ ys) = List.map_filter f xs @ List.map_filter f ys"
  by (simp add: List.map_filter_def)

lemma hub_sends:
  assumes "hub_ok (hubs ! h)" "q < length (hubs ! h)" "p \<noteq> []"
  shows "sent_to (ring_wire n) h (hubs ! h) (ustack_receive (hubs ! h) (hi_fd (hubs ! h ! q)) (int (length p)) False p) =
    ((if q \<noteq> 0 then {#(Suc h mod n, 1, p)#} else {#}) + (if q \<noteq> 1 then {#((h + n - 1) mod n, 0, p)#} else {#}),
     ears hubs h q p)"
proof -
  let ?hub = "hubs ! h" let ?l = "length ?hub"
  have "0 < ?l" "1 < ?l" using assms(1) unfolding hub_ok_def by linarith+
  then have ports: "[0..<?l] = [0, 1] @ [2..<?l]"
    using upt_conv_Cons [of 0 ?l] upt_conv_Cons [of 1 ?l] by (simp add: numeral_2_eq_2)
  define rest where "rest = map (\<lambda>j. (j, p)) (filter (\<lambda>j. j \<noteq> q) [2..<?l])"
  have copies: "map (\<lambda>(fd, idx, p). (port_of_fd ?hub fd, p))
      (ustack_receive ?hub (hi_fd (?hub ! q)) (int (length p)) False p) =
    (if q \<noteq> 0 then [(0, p)] else []) @ (if q \<noteq> 1 then [(1, p)] else []) @ rest"
  proof -
    have "map (\<lambda>(fd, idx, p). (port_of_fd ?hub fd, p)) (ustack_receive ?hub (hi_fd (?hub ! q)) (int (length p)) False p) =
        map (\<lambda>j. (j, p)) (filter (\<lambda>j. j \<noteq> q) [0..<?l])"
      using assms receive_sends [of ?hub q "int (length p)" p] fd_to_iface_nth [of ?hub]
      by (auto simp: hub_ok_def port_of_fd_def)
    also have "\<dots> = (if q \<noteq> 0 then [(0, p)] else []) @ (if q \<noteq> 1 then [(1, p)] else []) @ rest"
      unfolding ports rest_def by simp
    finally show ?thesis .
  qed
  have "List.map_filter (\<lambda>(q, p). map_option (\<lambda>(h', q'). (h', q', p)) (ring_wire n (h, q))) rest = []"
    by (auto simp: rest_def List.map_filter_def ring_wire_def filter_empty_conv)
  moreover have "filter (\<lambda>(q, p). ring_wire n (h, q) = None) rest = rest"
    by (auto simp: rest_def ring_wire_def filter_id_conv)
  moreover have "mset (map (\<lambda>(q, p). (h, q, p)) rest) = ears hubs h q p" by (simp add: rest_def ears_def comp_def)
  moreover have "ring_wire n (h, 0) = Some (Suc h mod n, 1)" "ring_wire n (h, 1) = Some ((h + n - 1) mod n, 0)"
    by (simp_all add: ring_wire_def)
  ultimately show ?thesis
    unfolding sent_to_def copies Let_def map_filter_append filter_append map_append mset_append
    by (cases "q = 0"; cases "q = 1") (simp_all only: List.map_filter_simps, simp_all)
qed

text \<open>C32. A frame of a host in a ring of hubs never dies out. After the hub of the host has received it,
  two copies are on their way, one in each direction; every further step passes one of them on to
  the next hub of its direction, whose hosts all hear it. So after any number of steps two copies
  fly, a step is possible, and the hosts have heard the frame once for every passage, the sender
  too when a copy comes round.\<close>

theorem ring_storm:
  assumes "length hubs = n" "\<forall>hub \<in> set hubs. hub_ok hub" "h < n" "2 \<le> q" "q < length (hubs ! h)" "p \<noteq> []"
    and "net_steps hubs (ring_wire n) (Suc k) \<lparr>flying = {#(h, q, p)#}, heard = {#}\<rparr> s"
  shows "(\<exists>a b. a + b = k \<and>
      flying s = {#((h + 1 + a) mod n, 1, p), ((h + (b + 1) * (n - 1)) mod n, 0, p)#} \<and>
      heard s = ears hubs h q p + (\<Sum>i<a. ears hubs ((h + 1 + i) mod n) 1 p) +
        (\<Sum>i<b. ears hubs ((h + (i + 1) * (n - 1)) mod n) 0 p)) \<and>
    (\<exists>u. net_step hubs (ring_wire n) s u)"
proof -
  let ?fwd = "\<lambda>a. (h + 1 + a) mod n" and ?bwd = "\<lambda>b. (h + (b + 1) * (n - 1)) mod n"
  let ?at = "\<lambda>a b s. flying s = {#(?fwd a, 1, p), (?bwd b, 0, p)#} \<and>
    heard s = ears hubs h q p + (\<Sum>i<a. ears hubs (?fwd i) 1 p) + (\<Sum>i<b. ears hubs (?bwd i) 0 p)"
  have n: "0 < n" using assms(3) by simp
  have ok: "hub_ok (hubs ! j)" if "j < n" for j using that assms(1,2) by simp
  then have ports: "0 < length (hubs ! j)" "1 < length (hubs ! j)" if "j < n" for j
    using that unfolding hub_ok_def by fastforce+
  have fwd: "Suc (?fwd a) mod n = ?fwd (Suc a)" for a by (simp add: mod_Suc_eq)
  have bwd: "(?bwd b + n - 1) mod n = ?bwd (Suc b)" for b
  proof -
    have "(?bwd b + n - 1) mod n = (?bwd b + (n - 1)) mod n" using n by simp
    also have "\<dots> = (h + (b + 1) * (n - 1) + (n - 1)) mod n" by (rule mod_add_left_eq)
    finally show ?thesis by (simp add: add_mult_distrib ac_simps)
  qed
  have pass: "?at (Suc a) b t \<or> ?at a (Suc b) t" if "?at a b s" "net_step hubs (ring_wire n) s t" for a b s t
    using that(2)
  proof (cases rule: net_step.cases)
    case (receive h' q' p' out e)
    have fly: "flying s = {#(?fwd a, 1, p), (?bwd b, 0, p)#}" using that(1) by blast
    have "(h', q', p') \<in># {#(?fwd a, 1, p), (?bwd b, 0, p)#}" using receive(2) unfolding fly .
    then consider "(h', q', p') = (?fwd a, 1, p)" | "(h', q', p') = (?bwd b, 0, p)"
      unfolding set_mset_add_mset_insert set_mset_empty by blast
    then show ?thesis
    proof cases
      case 1
      then have "out = {#(?fwd (Suc a), 1, p)#}" "e = ears hubs (?fwd a) 1 p"
        using receive(3) hub_sends [of hubs "?fwd a" 1 p n] ok [of "?fwd a"] ports [of "?fwd a"] assms(6) n fwd by auto
      then show ?thesis using receive(1) that(1) 1 by (simp add: add.assoc add.left_commute add.commute)
    next
      case 2
      then have "out = {#(?bwd (Suc b), 0, p)#}" "e = ears hubs (?bwd b) 0 p"
        using receive(3) hub_sends [of hubs "?bwd b" 0 p n] ok [of "?bwd b"] ports [of "?bwd b"] assms(6) n bwd by auto
      then show ?thesis using receive(1) that(1) 2 by (simp add: add.assoc add.left_commute add.commute)
    qed
  qed
  have first: "?at 0 0 t" if "net_step hubs (ring_wire n) \<lparr>flying = {#(h, q, p)#}, heard = {#}\<rparr> t" for t
    using that
  proof (cases rule: net_step.cases)
    case (receive h' q' p' out e)
    then show ?thesis
      using hub_sends [of hubs h q p n] ok [OF assms(3)] assms(4-6) n by auto
  qed
  have "\<exists>a b. a + b = k \<and> ?at a b s"
    using assms(7)
  proof (induction k arbitrary: s)
    case 0
    then have "net_step hubs (ring_wire n) \<lparr>flying = {#(h, q, p)#}, heard = {#}\<rparr> s"
      by (auto elim!: net_steps.cases)
    from first [OF this] show ?case by (intro exI [of _ 0]) simp
  next
    case (Suc k)
    from Suc.prems obtain t where t: "net_steps hubs (ring_wire n) (Suc k) \<lparr>flying = {#(h, q, p)#}, heard = {#}\<rparr> t"
      "net_step hubs (ring_wire n) t s" by (cases rule: net_steps.cases) auto
    from Suc.IH [OF t(1)] obtain a b where "a + b = k" "?at a b t" by blast
    with pass [OF this(2) t(2)] show ?case by (metis add_Suc add_Suc_right)
  qed
  moreover from this obtain h' where "(h', 1, p) \<in># flying s" by auto
  then have "\<exists>u. net_step hubs (ring_wire n) s u" by (metis net_step.receive surj_pair)
  ultimately show ?thesis by blast
qed

text \<open>The ring of \<open>topo_cycle.py\<close>: three hubs, the first two with a host. Hub 0 has the interfaces to
  hub 1, to hub 2 and to its host, in this order, and so on.\<close>

definition demo_hub :: "nat \<Rightarrow> hub" where
  "demo_hub k = map (\<lambda>i. \<lparr>hi_fd = int i + 3, hi_index = int i, hi_mac = replicate 6 0, hi_name = ''b''\<rparr>) [0..<k]"

lemma ring_storm_witness:
  "\<exists>s. net_steps [demo_hub 3, demo_hub 3, demo_hub 2] (ring_wire 3) 1 \<lparr>flying = {#(0, 2, replicate 60 7)#}, heard = {#}\<rparr> s \<and>
    flying s = {#(1, 1, replicate 60 7), (2, 0, replicate 60 7)#}"
proof -
  let ?hubs = "[demo_hub 3, demo_hub 3, demo_hub 2]" and ?p = "replicate 60 7 :: u8 list"
  let ?s = "\<lparr>flying = {#(0, 2, ?p)#}, heard = {#}\<rparr>"
  have ok: "hub_ok (demo_hub k)" if "2 \<le> k" for k
    using that by (simp add: hub_ok_def demo_hub_def comp_def distinct_map inj_on_def)
  obtain out e where "sent_to (ring_wire 3) 0 (?hubs ! 0) (ustack_receive (?hubs ! 0) (hi_fd (?hubs ! 0 ! 2)) (int (length ?p)) False ?p) = (out, e)"
    by fastforce
  from net_step.receive [where s = ?s, OF _ this] obtain s where "net_step ?hubs (ring_wire 3) ?s s" by auto
  then have s: "net_steps ?hubs (ring_wire 3) (Suc 0) ?s s" by (rule net_steps.more [OF net_steps.none])
  have "length ?hubs = 3" "\<forall>hub \<in> set ?hubs. hub_ok hub" "(0::nat) < 3" "(2::nat) \<le> 2" "2 < length (?hubs ! 0)" "?p \<noteq> []"
    using ok by (simp_all add: demo_hub_def)
  from ring_storm [OF this s] show ?thesis using s by auto
qed

end
