(* ===== verification/Spec2Isabelle.thy ===== *)
theory Spec2Isabelle imports LookupTest MacTable Stp NbrDatabase TcpTimers TcpStates TcpApps TcpConnect KernelRoutes StaticResolution WordCount Hub begin

text \<open>
  A verification library for a series of network experiments in C: a learning switch, the spanning
  tree protocol, address translation, route lookup structures, an IP router with ARP, ICMP and
  link-state routing, and a TCP stack. Each experiment is a directory of \<open>src\<close> (\<open>exp4\<close>, \<open>exp5\<close>, ...)
  with its code in \<open>code\<close>; later ones extend earlier ones, and the library models the last version of
  a part, and an earlier one where it differs much.

  \<^bold>\<open>Parts and theories.\<close>
  \<^item> \<open>NetPrelude\<close>: types of machine words, byte order, hints and lemmas that all parts share.
    \<open>Bytes\<close>: packet buffers as byte lists with the loads and stores of C, \<open>checksum.h\<close>.
    \<open>Links\<close>: the intrusive lists of \<open>list.h\<close> as a store of pointers.
  \<^item> The letter count of \<open>exp2\<close>: \<open>WordCount\<close> (\<open>worker.c\<close>, \<open>master.c\<close>). The hub of \<open>exp3\<close>: \<open>Hub\<close> (\<open>main.c\<close>).
  \<^item> Route lookup, \<open>exp7\<close>: \<open>RouteItem\<close> (\<open>ip.h\<close>), \<open>IpTree\<close> (the tree nodes), \<open>NaiveTrie\<close> (\<open>naive.h\<close>),
    \<open>MultiTrie\<close> (\<open>multi.h\<close>), \<open>LeafPush\<close> (\<open>advance.h\<close>), \<open>LeafFree\<close> (which tables it
    handles without touching a freed route), \<open>LookupTest\<close> (the test programs: \<open>tree_test\<close>,
    \<open>create_tree_by_file\<close>, \<open>fscanf_router\<close> on the text of their files); \<open>LpmTable\<close> holds the locale of a
    longest-prefix table that the two constructions are interpreted in.
  \<^item> Switch, \<open>exp4\<close>: \<open>MacTable\<close> (\<open>mac.c\<close>, \<open>main.c\<close>), with the locale of a learning table.
  \<^item> Spanning tree, \<open>exp5\<close>: \<open>Stp\<close> (\<open>stp.c\<close>, \<open>stp_timer.c\<close>): ports, received messages, timers.
  \<^item> Address translation, \<open>exp8\<close>: \<open>IpPacket\<close> (the headers of Ethernet, IP and TCP), \<open>NatTable\<close> (\<open>nat.c\<close>).
  \<^item> Router, \<open>exp10\<close>: \<open>RouterState\<close> (interfaces, routing table, memory and random numbers as streams),
    \<open>ArpCache\<close> (\<open>arp.c\<close>, \<open>arpcache.c\<close>), \<open>IpForward\<close> (\<open>ip.c\<close>, \<open>icmp.c\<close>), \<open>Dijkstra\<close> (\<open>router_update\<close> in
    \<open>mospf_daemon.c\<close>), \<open>Mospf\<close> (the rest of \<open>mospf_daemon.c\<close>, \<open>mospf_proto.c\<close>, the packet dispatch).
    The stage before, \<open>exp9\<close>: \<open>NbrDatabase\<close> (what differs of \<open>mospf_daemon.c\<close>).
  \<^item> The earlier router with static routes, \<open>exp6\<close>: \<open>StaticRouter\<close> (\<open>arp.c\<close>, \<open>arpcache.c\<close>, \<open>ip.c\<close>, \<open>icmp.c\<close>,
    on the state of \<open>RouterState\<close>) and \<open>StaticResolution\<close> (its theorems).
  \<^item> TCP, \<open>exp13\<close>: \<open>RingBuffer\<close> (\<open>ring_buffer.h\<close>, with the locale of a byte queue), \<open>TcpState\<close> (the socket,
    the waiting structures, allocation), \<open>TcpTable\<close> (hash tables, ports, accept queue), \<open>TcpOut\<close>
    (segments, the sending buffer, the timers, the IP layer of the host), \<open>TcpSock\<close> (connect, close,
    read, write, out-of-order buffer), \<open>TcpIn\<close> (\<open>tcp_in.c\<close>, \<open>tcp.c\<close>), \<open>TcpApps\<close> (\<open>tcp_apps.c\<close>). The stage
    before, \<open>exp12\<close>: \<open>TcpStopWait\<close> (what differs of \<open>tcp_sock.c\<close>, \<open>tcp_in.c\<close>, \<open>tcp_out.c\<close>, \<open>tcp_timer.c\<close>,
    \<open>tcp_apps.c\<close>, on the state of \<open>TcpState\<close>). The first, \<open>exp11\<close>: \<open>TcpConnect\<close> (what differs of
    \<open>tcp_in.c\<close>, \<open>tcp_apps.c\<close>).
  \<^item> Start-up of the routers and hosts: \<open>KernelRoutes\<close> (\<open>rtable_internal.c\<close>), the kernel's routing table
    out of the bytes of netlink.

  \<^bold>\<open>How the model corresponds to the code.\<close> A component's state is a record with the fields of the
  struct, an operation is a function on it with the source's name, and a loop is a recursion over what
  it goes through. Words have their width and wrap around; \<open>int\<close> is used for C \<open>int\<close> counters that do
  not come near their limits. Frames are lists of bytes on a little-endian host. What C leaves
  undefined (a null or freed pointer, an access out of bounds, a failed assertion) is the value
  \<open>None\<close>; a TCP call that waits for ever is \<open>None\<close>, too, by \<open>partial_function\<close>. Where the code waits
  for a condition variable, the argument \<open>env\<close> is what the other threads do meanwhile. \<open>malloc\<close>
  succeeds and returns memory of unknown contents, \<open>rand\<close> a stream; sent frames are collected in the
  field \<open>r_out\<close>. The threads of a daemon are modelled by their rounds, each under its lock.
  The routers and switches use HOL lists where the code has intrusive lists, which the refinement in
  \<open>Links\<close> justifies; the TCP sockets, whose lists are misused in places, have the pointers.

  \<^bold>\<open>What the lemmas show.\<close>
  \<^item> The letter count loses the last of an odd number of lines. In a ring of hubs a frame circles for ever.
  \<^item> Route lookup: the one-bit and the four-bit tree answer every address as the linear scan of the
    routes does, and the leaf-pushed tree, too, for the tables that it handles without a freed route;
    in others it frees a route too early or twice; where the insertion is undefined in C; the test
    programs write the same from the same files.
  \<^item> Switch: forwarding and flooding, learning, aging. Spanning tree: an invariant of all states
    reached by messages whose cost can be increased, the root never rises, the timers. Address translation: round trip of a connection,
    termination and result of the choice of a port, what a timeout removes.
  \<^item> Router: the checksum is that of RFC 1071; forwarding delivers, errors are reported, echo requests
    are answered; the ARP cache and its pending packets; shortest paths and the routing table; hello and
    link-state messages, the database, expiry of neighbours. In \<open>exp9\<close>: an update makes its receivers store
    the neighbours of its sender, and an invariant of every run of the daemon. The router of \<open>exp6\<close>: an invariant of its
    runs, resolution and giving up, a sweep without end, where its forwarding is that of \<open>exp10\<close>.
    A dump of the kernel's table is read back as it was written, and whatever is read is well typed.
  \<^item> TCP (\<open>TcpSegment\<close>, \<open>TcpReorder\<close>, \<open>TcpStates\<close>, \<open>TcpTimers\<close>, \<open>TcpHandshake\<close>, \<open>TcpTransfer\<close>,
    \<open>TcpStream\<close>, \<open>TcpClosing\<close>): \<open>tcp_sock_connect\<close>
    against a listening socket opens a connection; a write of up to a window is read at the other end
    and ends, but an end whose application does not read gives up; the exchange of FINs closes both ends, but leaves a
    socket in the table and loses timers; what is sent is what is received; the
    sending and the out-of-order buffer refine lists; \<open>tcp_process\<close> implements an automaton of states;
    ports are not exclusive; an armed timer that is armed again stays; an unanswered connection ends.
    The server application stores the text it is sent, and then uses its socket after it is freed.
    The stage of \<open>exp12\<close>: a text written arrives and is acknowledged when the ends take turns; a
    second write in a row never wakes; what arrives twice is stored twice. That
    of \<open>exp11\<close>: an acknowledgement on an open connection is answered for ever.
    Theorems that state a defect of the code are among them and say so.

  \<^bold>\<open>Bounds.\<close> No fuel is used: the recursions are structural or have a measure, and the loops of the TCP
  calls that need other threads are partial functions, whose results are stated as \<open>Some\<close>. The
  theorems on segments assume at most 65495 bytes of payload, what an IP packet holds; those on the
  ring buffer of a socket its size of 65535.

  \<^bold>\<open>Not modelled.\<close> Device setup, raw sockets, polling and printing: system calls on
  the state of the kernel; the web server of \<open>exp2\<close> and the time measurement of \<open>exp7\<close>. Memory is not released in
  the routers, and a store to the links of a freed TCP socket is not an error of the model.

  \<^bold>\<open>What is left.\<close> The start-up and the poll loops of the \<open>main.c\<close> files; the parts of \<open>exp11\<close> and \<open>exp12\<close>
  that have the text of \<open>exp13\<close> are modelled there only.
\<close>

section \<open>Route lookup\<close>

text \<open>C6. For a table of routes with lengths 1 to 32, the one-bit tree and the four-bit tree return
  the same route for every address, the one of the linear scan in insertion order, and their
  constructions never take their undefined branch. The leaf-pushed tree does, too, if each route
  stored in several blocks is the longest match of some address in each of them: then the push
  compares and frees no freed route, and no lookup returns one.\<close>

theorem lookup_structures_agree:
  assumes "\<forall>r \<in> set rs. route_ok r"
  shows "naive_longest_prefix_match (naive_create_tree rs) ip = lpm_scan rs ip \<and>
    map_option (\<lambda>t. multi_longest_prefix_match t ip) (multi_create_tree (create_node 16 None) rs) =
      Some (lpm_scan rs ip) \<and>
    (pushes_safely rs \<longrightarrow> map_option (\<lambda>(t, freed). advance_longest_prefix_match freed t ip) (advance_create_tree rs) =
      Some (Some (lpm_scan rs ip)))"
proof -
  have "map_option (\<lambda>t. multi_longest_prefix_match t ip) (multi_create_tree (create_node 16 None) rs) =
      Some (lpm_scan rs ip)" by (rule multi_scan [OF assms]) simp
  moreover have "pushes_safely rs \<longrightarrow> map_option (\<lambda>(t, freed). advance_longest_prefix_match freed t ip) (advance_create_tree rs) =
      Some (Some (lpm_scan rs ip))" by (rule impI, rule advance_scan [OF assms]) simp_all
  ultimately show ?thesis using naive_scan [OF assms] by simp
qed

lemma lookup_structures_agree_witness:
  "map_option (\<lambda>(t, freed). advance_longest_prefix_match freed t 0x0b020304)
     (advance_create_tree [\<lparr>ri_ip = 0x0a000000, ri_mask_len = 7, ri_port = 1\<rparr>, \<lparr>ri_ip = 0x0a010000, ri_mask_len = 16, ri_port = 2\<rparr>]) =
   Some (Some (lpm_scan [\<lparr>ri_ip = 0x0a000000, ri_mask_len = 7, ri_port = 1\<rparr>, \<lparr>ri_ip = 0x0a010000, ri_mask_len = 16, ri_port = 2\<rparr>] 0x0b020304))"
  by (rule lookup_structures_agree [THEN conjunct2, THEN conjunct2, THEN mp]) (use safe_table in auto)

end
